(* ===== verification/Futures_Prelude.thy ===== *)
theory Futures_Prelude
  imports Main "HOL-Library.Word"
begin

text \<open>
  The vocabulary every other theory of the development shares: the outcome of running a piece of
  Rust code (it returns, it panics, or it never comes back), the \<open>Poll\<close> type with the
  \<open>ready!\<close> macro, \<open>usize\<close> arithmetic with its checked and saturating operations, size hints,
  and reachability in a transition system for the lock-free protocols.

  Code is modelled with debug assertions and overflow checks on: a failing \<open>debug_assert!\<close> and
  an overflowing \<open>+=\<close> are panics of the model, so a theorem that a function returns also says
  that they do not fire. A \<open>usize\<close> has 64 bits.
\<close>

unbundle bit_operations_syntax

named_theorems comp_simps \<open>rewriting of the outcome monad\<close>
named_theorems hint_simps \<open>reading usize operations as natural numbers\<close>

section \<open>Outcomes\<close>

text \<open>
  \<open>Some (Returns x)\<close>: the code returns \<open>x\<close>. \<open>Some (Panics m)\<close>: it panics with message \<open>m\<close>.
  \<open>None\<close>: it does not terminate, the bottom element of \<^theory_text>\<open>partial_function (option)\<close>.
\<close>

datatype 'a outcome = Returns 'a | Panics string

type_synonym 'a comp = "'a outcome option"

definition ret :: "'a \<Rightarrow> 'a comp" where
  "ret x = Some (Returns x)"

definition panic :: "string \<Rightarrow> 'a comp" where
  "panic m = Some (Panics m)"

definition bindc :: "'a comp \<Rightarrow> ('a \<Rightarrow> 'b comp) \<Rightarrow> 'b comp" where
  "bindc m k = (case m of None \<Rightarrow> None | Some (Panics e) \<Rightarrow> Some (Panics e) | Some (Returns x) \<Rightarrow> k x)"

definition assertc :: "bool \<Rightarrow> string \<Rightarrow> 'a comp \<Rightarrow> 'a comp" where
  "assertc b m k = (if b then k else panic m)"

lemma bindc_ret [simp, comp_simps]: "bindc (ret x) k = k x"
  by (simp add: bindc_def ret_def)

lemma bindc_panic [simp, comp_simps]: "bindc (panic m) k = panic m"
  by (simp add: bindc_def panic_def)

lemma bindc_None [simp, comp_simps]: "bindc None k = None"
  by (simp add: bindc_def)

lemma bindc_ret_right [simp]: "bindc m ret = m"
  by (cases m) (auto simp: bindc_def ret_def split: outcome.splits)

lemma bindc_assoc: "bindc (bindc m k) l = bindc m (\<lambda>x. bindc (k x) l)"
  by (cases m) (auto simp: bindc_def split: outcome.splits)

lemma Returns_ret: "Some (Returns x) = ret x"
  by (simp add: ret_def)

lemma ret_inject [simp]: "ret x = ret y \<longleftrightarrow> x = y"
  by (simp add: ret_def)

lemma ret_not_panic [simp]: "ret x \<noteq> panic m" "panic m \<noteq> ret x" "ret x \<noteq> None" "panic m \<noteq> None"
  by (simp_all add: ret_def panic_def)

lemma assertc_True [simp, comp_simps]: "assertc True m k = k"
  and assertc_False [simp, comp_simps]: "assertc False m k = panic m"
  by (simp_all add: assertc_def)

lemma assertc_ret [simp]: "assertc b m k = ret x \<longleftrightarrow> b \<and> k = ret x"
  by (simp add: assertc_def)

lemma bindc_eq_ret: "bindc m k = ret y \<longleftrightarrow> (\<exists>x. m = ret x \<and> k x = ret y)"
  by (cases m) (auto simp: bindc_def ret_def split: outcome.splits)

lemma bindc_retE:
  assumes "bindc m k = ret y"
  obtains x where "m = ret x" and "k x = ret y"
  using assms by (auto simp: bindc_eq_ret)

lemma bindc_mono [partial_function_mono]:
  fixes B :: "('f \<Rightarrow> 'g option) \<Rightarrow> 'a comp" and C :: "'a \<Rightarrow> ('f \<Rightarrow> 'g option) \<Rightarrow> 'b comp"
  assumes m: "mono_option B" and k: "\<And>y. mono_option (\<lambda>f. C y f)"
  shows "mono_option (\<lambda>f. bindc (B f) (\<lambda>y. C y f))"
proof (rule monotoneI)
  fix f g :: "'f \<Rightarrow> 'g option"
  assume fg: "fun_ord option_ord f g"
  from m fg have B: "option_ord (B f) (B g)" by (auto simp: monotone_def)
  from k fg have C: "option_ord (C y f) (C y g)" for y by (auto simp: monotone_def)
  show "option_ord (bindc (B f) (\<lambda>y. C y f)) (bindc (B g) (\<lambda>y. C y g))"
  proof (cases "B f")
    case None
    then show ?thesis by (simp add: flat_ord_def)
  next
    case (Some r)
    with B have "B g = Some r" by (auto simp: flat_ord_def)
    with Some C show ?thesis by (cases r) (simp_all add: bindc_def flat_ord_def)
  qed
qed

lemma assertc_mono [partial_function_mono]:
  "mono_option F \<Longrightarrow> mono_option (\<lambda>f. assertc b m (F f))"
  by (cases b) (auto simp: monotone_def fun_ord_def flat_ord_def)

section \<open>Poll\<close>

datatype 'a poll = Ready 'a | Pending

text \<open>
  A poll function of a component with state \<open>'s\<close>: one call of \<open>poll\<close> or \<open>poll_next\<close>, which
  takes the component (\<open>Pin<&mut Self>\<close>) and returns what the call returns together with the
  component afterwards. The \<open>Context\<close> argument is handed on unchanged by every adapter and is
  left out; the theorems about wake-ups are in the theories of the synchronisation primitives.
\<close>

type_synonym ('s, 'a) pollfn = "'s \<Rightarrow> ('a poll \<times> 's) comp"

text \<open>An \<open>FnMut\<close> closure with captured state \<open>'c\<close>.\<close>

type_synonym ('c, 'a, 'b) fnmut = "'c \<Rightarrow> 'a \<Rightarrow> ('b \<times> 'c) comp"

text \<open>
  \<open>ready_poll m upd k\<close> models \<open>let x = ready!(inner.poll(cx)); ...\<close>: \<open>m\<close> is the poll of the inner
  component, \<open>upd\<close> writes the inner component back into the outer one, and \<open>k\<close> goes on with the
  value. \<open>poll_with\<close> is the same for a call whose result is matched without the macro.
\<close>

definition poll_with ::
  "('a poll \<times> 's) comp \<Rightarrow> ('s \<Rightarrow> 't) \<Rightarrow> ('a poll \<Rightarrow> 't \<Rightarrow> 'r comp) \<Rightarrow> 'r comp" where
  "poll_with m upd k = bindc m (\<lambda>(r, s). k r (upd s))"

definition ready_poll ::
  "('a poll \<times> 's) comp \<Rightarrow> ('s \<Rightarrow> 't) \<Rightarrow> ('a \<Rightarrow> 't \<Rightarrow> ('b poll \<times> 't) comp) \<Rightarrow> ('b poll \<times> 't) comp" where
  "ready_poll m upd k =
     bindc m (\<lambda>(r, s). case r of Ready x \<Rightarrow> k x (upd s) | Pending \<Rightarrow> ret (Pending, upd s))"

lemma poll_with_ret [simp, comp_simps]: "poll_with (ret (r, s)) upd k = k r (upd s)"
  by (simp add: poll_with_def)

lemma ready_poll_Ready [simp, comp_simps]: "ready_poll (ret (Ready x, s)) upd k = k x (upd s)"
  and ready_poll_Pending [simp, comp_simps]: "ready_poll (ret (Pending, s)) upd k = ret (Pending, upd s)"
  and ready_poll_panic [simp, comp_simps]: "ready_poll (panic m) upd k = panic m"
  and ready_poll_None [simp, comp_simps]: "ready_poll None upd k = None"
  by (simp_all add: ready_poll_def)

lemma ready_poll_eq_ret:
  "ready_poll m upd k = ret r \<longleftrightarrow>
     (\<exists>s. m = ret (Pending, s) \<and> r = (Pending, upd s)) \<or> (\<exists>x s. m = ret (Ready x, s) \<and> k x (upd s) = ret r)"
  by (auto simp: ready_poll_def bindc_eq_ret split: poll.splits) (metis poll.exhaust)+

lemma ready_poll_retE:
  assumes "ready_poll m upd k = ret r"
  obtains (pending) s where "m = ret (Pending, s)" "r = (Pending, upd s)"
  | (ready) x s where "m = ret (Ready x, s)" "k x (upd s) = ret r"
  using assms by (auto simp: ready_poll_eq_ret)

lemma poll_with_eq_ret:
  "poll_with m upd k = ret r \<longleftrightarrow> (\<exists>p s. m = ret (p, s) \<and> k p (upd s) = ret r)"
  by (auto simp: poll_with_def bindc_eq_ret)

text \<open>Reading a body that returns; \<open>Some (Returns _)\<close> is how an induction on a loop states it.\<close>

lemmas poll_eq_simps = Returns_ret ready_poll_eq_ret poll_with_eq_ret bindc_eq_ret Let_def

lemma poll_with_mono [partial_function_mono]:
  "mono_option B \<Longrightarrow> (\<And>p t. mono_option (\<lambda>f. C p t f)) \<Longrightarrow>
   mono_option (\<lambda>f. poll_with (B f) upd (\<lambda>p t. C p t f))"
  unfolding poll_with_def by (rule bindc_mono) (auto split: prod.splits)

lemma ready_poll_mono [partial_function_mono]:
  assumes "mono_option B" and "\<And>x t. mono_option (\<lambda>f. C x t f)"
  shows "mono_option (\<lambda>f. ready_poll (B f) upd (\<lambda>x t. C x t f))"
  unfolding ready_poll_def
proof (rule bindc_mono [OF assms(1)])
  fix y :: "'c poll \<times> 'd"
  obtain r s where "y = (r, s)" by (cases y)
  then show "mono_option (\<lambda>f. case y of (r, s) \<Rightarrow>
      case r of Ready x \<Rightarrow> C x (upd s) f | Pending \<Rightarrow> ret (Pending, upd s))"
    using assms(2) by (cases r) (simp_all add: monotone_def flat_ord_def)
qed

text \<open>
  \<open>ready_try m upd k\<close> models \<open>let x = ready!(inner.poll(cx))?; ...\<close> for a poll with a result inside:
  \<open>Pending\<close> and errors are handed on.
\<close>

definition ready_try ::
  "(('e + 'a) poll \<times> 's) comp \<Rightarrow> ('s \<Rightarrow> 't) \<Rightarrow> ('a \<Rightarrow> 't \<Rightarrow> (('e + 'b) poll \<times> 't) comp) \<Rightarrow> (('e + 'b) poll \<times> 't) comp" where
  "ready_try m upd k = ready_poll m upd (\<lambda>x t. case x of Inl e \<Rightarrow> ret (Ready (Inl e), t) | Inr y \<Rightarrow> k y t)"

lemma ready_try_simps [simp, comp_simps]:
  "ready_try (ret (Pending, s)) upd k = ret (Pending, upd s)"
  "ready_try (ret (Ready (Inl e), s)) upd k = ret (Ready (Inl e), upd s)"
  "ready_try (ret (Ready (Inr x), s)) upd k = k x (upd s)"
  "ready_try (panic m) upd k = panic m"
  by (simp_all add: ready_try_def)

lemma ready_try_eq_ret:
  "ready_try m upd k = ret (p, t) \<longleftrightarrow>
     (\<exists>s. m = ret (Pending, s) \<and> p = Pending \<and> t = upd s)
     \<or> (\<exists>e s. m = ret (Ready (Inl e), s) \<and> p = Ready (Inl e) \<and> t = upd s)
     \<or> (\<exists>x s. m = ret (Ready (Inr x), s) \<and> k x (upd s) = ret (p, t))"
  unfolding ready_try_def ready_poll_eq_ret by (auto simp: split_sum_ex)

lemma ready_try_mono [partial_function_mono]:
  assumes "mono_option B" and "\<And>x t. mono_option (\<lambda>f. C x t f)"
  shows "mono_option (\<lambda>f. ready_try (B f) upd (\<lambda>x t. C x t f))"
  unfolding ready_try_def
proof (rule ready_poll_mono [OF assms(1)])
  fix x :: "'c + 'd" and t
  show "mono_option (\<lambda>f. case x of Inl e \<Rightarrow> ret (Ready (Inl e), t) | Inr y \<Rightarrow> C y t f)"
    using assms(2) by (cases x) (simp_all add: monotone_def flat_ord_def)
qed

section \<open>usize\<close>

type_synonym usize = "64 word"

definition USIZE_MAX :: usize where
  "USIZE_MAX = - 1"

definition checked_add :: "usize \<Rightarrow> usize \<Rightarrow> usize option" where
  "checked_add a b = (if unat a + unat b < 2 ^ 64 then Some (a + b) else None)"

definition saturating_add :: "usize \<Rightarrow> usize \<Rightarrow> usize" where
  "saturating_add a b = (if unat a + unat b < 2 ^ 64 then a + b else USIZE_MAX)"

definition saturating_sub :: "usize \<Rightarrow> usize \<Rightarrow> usize" where
  "saturating_sub a b = (if b \<le> a then a - b else 0)"

text \<open>\<open>usize::from(bool)\<close>.\<close>

definition usize_of_bool :: "bool \<Rightarrow> usize" where
  "usize_of_bool b = (if b then 1 else 0)"

text \<open>\<open>a += b\<close> with overflow checks.\<close>

definition add_usize :: "usize \<Rightarrow> usize \<Rightarrow> usize comp" where
  "add_usize a b = (case checked_add a b of Some c \<Rightarrow> ret c | None \<Rightarrow> panic ''attempt to add with overflow'')"

lemma unat_usize_less [simp]: "unat (a :: usize) < 2 ^ 64"
  using unsigned_less [of a] by simp

lemma unat_USIZE_MAX [hint_simps]: "unat USIZE_MAX = 2 ^ 64 - 1"
  by (simp add: USIZE_MAX_def unsigned_minus_1_eq_mask mask_eq_exp_minus_1)

lemma unat_usize_le_max [simp]: "unat (a :: usize) \<le> 2 ^ 64 - 1"
  using unat_usize_less [of a] by simp

lemma unat_add_usize: "unat a + unat b < 2 ^ 64 \<Longrightarrow> unat (a + b :: usize) = unat a + unat b"
  by (simp add: unat_word_ariths)

lemma checked_add_Some [hint_simps]:
  "checked_add a b = Some c \<longleftrightarrow> unat a + unat b < 2 ^ 64 \<and> c = a + b"
  by (auto simp: checked_add_def)

lemma checked_add_SomeD: "checked_add a b = Some c \<Longrightarrow> unat c = unat a + unat b"
  by (auto simp: checked_add_def unat_add_usize split: if_splits)

lemma unat_saturating_add [hint_simps]:
  "unat (saturating_add a b) = min (unat a + unat b) (2 ^ 64 - 1)"
  by (auto simp: saturating_add_def unat_add_usize unat_USIZE_MAX min_def)

lemma unat_saturating_sub [hint_simps]: "unat (saturating_sub a b) = unat a - unat b"
  by (auto simp: saturating_sub_def unat_sub word_le_nat_alt)

lemma unat_usize_of_bool [hint_simps]: "unat (usize_of_bool b) = of_bool b"
  by (simp add: usize_of_bool_def)

lemma unat_min_usize [hint_simps]: "unat (min a b :: usize) = min (unat a) (unat b)"
  by (simp add: min_def word_le_nat_alt)

lemma unat_pred_usize: "a \<noteq> 0 \<Longrightarrow> unat (a - 1 :: usize) = unat a - 1"
  by (metis unat_minus_one)

lemma usize_pos_iff: "0 < (a :: usize) \<longleftrightarrow> 0 < unat a"
  by (simp add: word_less_nat_alt)

lemma and_exp_iff: "n < LENGTH('a) \<Longrightarrow> (w AND 2 ^ n = (2 ^ n :: 'a :: len word)) \<longleftrightarrow> bit w n"
  by (auto simp: bit_eq_iff [where 'a = "'a word"] bit_and_iff bit_exp_iff)

lemma and_exp_0_iff: "n < LENGTH('a) \<Longrightarrow> (w AND 2 ^ n = (0 :: 'a :: len word)) \<longleftrightarrow> \<not> bit w n"
  by (auto simp: bit_eq_iff [where 'a = "'a word"] bit_and_iff bit_exp_iff)

section \<open>Size hints\<close>

text \<open>What \<open>size_hint\<close> returns: a lower bound and, when there is one, an upper bound.\<close>

type_synonym hint = "usize \<times> usize option"

definition hint_upper :: "usize option \<Rightarrow> nat \<Rightarrow> bool" where
  "hint_upper hi n = (case hi of None \<Rightarrow> True | Some u \<Rightarrow> n \<le> unat u)"

definition hint_bounds :: "hint \<Rightarrow> nat \<Rightarrow> bool" where
  "hint_bounds h n = (unat (fst h) \<le> n \<and> hint_upper (snd h) n)"

lemma hint_upper_simps [simp]: "hint_upper None n" "hint_upper (Some u) n \<longleftrightarrow> n \<le> unat u"
  by (simp_all add: hint_upper_def)

lemma hint_bounds_pair [simp]: "hint_bounds (lo, hi) n \<longleftrightarrow> unat lo \<le> n \<and> hint_upper hi n"
  by (simp add: hint_bounds_def)

lemma hint_upper_mono: "hint_upper hi n \<Longrightarrow> m \<le> n \<Longrightarrow> hint_upper hi m"
  by (cases hi) auto

lemma hint_upper_checked_add:
  assumes "hint_upper hi n" and "m \<le> n + unat k"
  shows "hint_upper (case hi of Some x \<Rightarrow> checked_add x k | None \<Rightarrow> None) m"
  using assms by (auto simp: checked_add_def unat_add_usize split: option.splits)

section \<open>Transition systems\<close>

text \<open>States reachable from an initial state by steps of a relation.\<close>

inductive reach :: "('s \<Rightarrow> bool) \<Rightarrow> ('s \<Rightarrow> 's \<Rightarrow> bool) \<Rightarrow> 's \<Rightarrow> bool"
  for init :: "'s \<Rightarrow> bool" and step :: "'s \<Rightarrow> 's \<Rightarrow> bool" where
  reach_init: "init s \<Longrightarrow> reach init step s"
| reach_step: "reach init step s \<Longrightarrow> step s t \<Longrightarrow> reach init step t"

lemma reach_invariant:
  assumes "reach init step s"
    and "\<And>s. init s \<Longrightarrow> I s"
    and "\<And>s t. reach init step s \<Longrightarrow> I s \<Longrightarrow> step s t \<Longrightarrow> I t"
  shows "I s"
  using assms(1)
proof (induction rule: reach.induct)
  case (reach_init s)
  then show ?case by (rule assms(2))
next
  case (reach_step s t)
  from reach_step.hyps(1) reach_step.IH reach_step.hyps(2) show ?case by (rule assms(3))
qed

lemma reach_mono:
  assumes "reach init step s" and "\<And>s t. step s t \<Longrightarrow> step' s t"
  shows "reach init step' s"
  using assms(1)
proof (induction rule: reach.induct)
  case (reach_init s)
  then show ?case by (rule reach.reach_init)
next
  case (reach_step s t)
  from reach_step.IH assms(2) [OF reach_step.hyps(2)] show ?case by (rule reach.reach_step)
qed

section \<open>Ownership\<close>

text \<open>
  A flag that says whether some thread is at a position where it owns something: at most one thread
  is at such a position, and one is exactly when the flag is set.
\<close>

definition owned :: "('l \<Rightarrow> bool) \<Rightarrow> (nat \<Rightarrow> 'l) \<Rightarrow> bool \<Rightarrow> bool" where
  "owned P f b \<longleftrightarrow> (\<exists>h. (b \<longleftrightarrow> h \<noteq> None) \<and> (\<forall>i. P (f i) \<longleftrightarrow> h = Some i))"

lemma owned_keep: "owned P f b \<Longrightarrow> P (f i) = P l \<Longrightarrow> owned P (f(i := l)) b"
  by (auto simp: owned_def)

lemma owned_take: "owned P f False \<Longrightarrow> P l \<Longrightarrow> owned P (f(i := l)) True"
  by (auto simp: owned_def)

lemma owned_free:
  assumes "owned P f b" and "P (f i)" and "\<not> P l"
  shows "owned P (f(i := l)) False"
proof -
  from assms(1,2) have "P (f j) \<longleftrightarrow> j = i" for j unfolding owned_def by (metis option.inject)
  then show ?thesis using assms(3) by (auto simp: owned_def)
qed

lemma owned_flag: "owned P f b \<Longrightarrow> P (f i) \<Longrightarrow> b"
  by (auto simp: owned_def)

lemma owned_unique: "owned P f b \<Longrightarrow> P (f i) \<Longrightarrow> P (f j) \<Longrightarrow> i = j"
  by (auto simp: owned_def)

lemma owned_ex: "owned P f b \<Longrightarrow> b \<Longrightarrow> \<exists>i. P (f i)"
  by (auto simp: owned_def)

lemma owned_none: "(\<And>i. \<not> P (f i)) \<Longrightarrow> owned P f False"
  by (auto simp: owned_def)

end
