(* ===== verification/Poll_Core.thy ===== *)
theory Poll_Core
  imports Futures_Prelude
begin

text \<open>
  What it means to drive a stream or a future to its end, the vocabulary of the theorems about the
  adapters: a component is polled again and again, a \<open>Pending\<close> is polled over (the task has been
  woken), until it ends. The state of an inner component is arbitrary and holds everything its
  polls depend on, so one run of it is any interleaving of items and \<open>Pending\<close>s.

  The second half are the leaf streams and futures of \<open>futures-util/src/stream\<close> and
  \<open>futures-util/src/future\<close>: \<open>iter\<close>, \<open>once\<close>, \<open>empty\<close>, \<open>repeat\<close>, \<open>repeat_with\<close>, \<open>pending\<close>,
  \<open>unfold\<close> and the future \<open>ready\<close>.
\<close>

section \<open>Runs of a stream, runs of a future\<close>

text \<open>\<open>ends p s xs t\<close>: polled from \<open>s\<close>, the stream yields the items \<open>xs\<close>, then \<open>Ready(None)\<close> in state \<open>t\<close>.\<close>

inductive ends :: "('s, 'a option) pollfn \<Rightarrow> 's \<Rightarrow> 'a list \<Rightarrow> 's \<Rightarrow> bool" for p :: "('s, 'a option) pollfn" where
  ends_end: "p s = ret (Ready None, t) \<Longrightarrow> ends p s [] t"
| ends_pend: "p s = ret (Pending, s') \<Longrightarrow> ends p s' xs t \<Longrightarrow> ends p s xs t"
| ends_item: "p s = ret (Ready (Some x), s') \<Longrightarrow> ends p s' xs t \<Longrightarrow> ends p s (x # xs) t"

text \<open>The same with the number of polls, for adapters that interleave the runs of several streams.\<close>

inductive ends_in :: "('s, 'a option) pollfn \<Rightarrow> nat \<Rightarrow> 's \<Rightarrow> 'a list \<Rightarrow> 's \<Rightarrow> bool" for p :: "('s, 'a option) pollfn" where
  ends_in_end: "p s = ret (Ready None, t) \<Longrightarrow> ends_in p (Suc 0) s [] t"
| ends_in_pend: "p s = ret (Pending, s') \<Longrightarrow> ends_in p n s' xs t \<Longrightarrow> ends_in p (Suc n) s xs t"
| ends_in_item: "p s = ret (Ready (Some x), s') \<Longrightarrow> ends_in p n s' xs t \<Longrightarrow> ends_in p (Suc n) s (x # xs) t"

lemma ends_in_ends: "ends_in p n s xs t \<Longrightarrow> ends p s xs t"
  by (induction rule: ends_in.induct) (auto intro: ends.intros)

lemma ends_ends_in: "ends p s xs t \<Longrightarrow> \<exists>n. ends_in p n s xs t"
  by (induction rule: ends.induct) (blast intro: ends_in.intros)+

text \<open>\<open>gives p s xs t\<close>: the stream yields \<open>xs\<close> and is then in \<open>t\<close>, ended or not.\<close>

inductive gives :: "('s, 'a option) pollfn \<Rightarrow> 's \<Rightarrow> 'a list \<Rightarrow> 's \<Rightarrow> bool" for p :: "('s, 'a option) pollfn" where
  gives_stop: "gives p s [] s"
| gives_pend: "p s = ret (Pending, s') \<Longrightarrow> gives p s' xs t \<Longrightarrow> gives p s xs t"
| gives_item: "p s = ret (Ready (Some x), s') \<Longrightarrow> gives p s' xs t \<Longrightarrow> gives p s (x # xs) t"

text \<open>\<open>resolves p s x\<close>: polled from \<open>s\<close>, the future completes with \<open>x\<close>.\<close>

inductive resolves :: "('s, 'a) pollfn \<Rightarrow> 's \<Rightarrow> 'a \<Rightarrow> bool" for p :: "('s, 'a) pollfn" where
  resolves_ready: "p s = ret (Ready x, t) \<Longrightarrow> resolves p s x"
| resolves_pend: "p s = ret (Pending, s') \<Longrightarrow> resolves p s' x \<Longrightarrow> resolves p s x"

text \<open>The same with the state the future is left in.\<close>

inductive completes :: "('s, 'a) pollfn \<Rightarrow> 's \<Rightarrow> 'a \<Rightarrow> 's \<Rightarrow> bool" for p :: "('s, 'a) pollfn" where
  completes_ready: "p s = ret (Ready x, t) \<Longrightarrow> completes p s x t"
| completes_pend: "p s = ret (Pending, s') \<Longrightarrow> completes p s' x t \<Longrightarrow> completes p s x t"

lemma completes_resolves: "completes p s x t \<Longrightarrow> resolves p s x"
  by (induction rule: completes.induct) (auto intro: resolves.intros)

lemma resolves_completes: "resolves p s x \<Longrightarrow> \<exists>t. completes p s x t"
  by (induction rule: resolves.induct) (auto intro: completes.intros)

lemma completes_cong: "p s = p s' \<Longrightarrow> completes p s' x t \<Longrightarrow> completes p s x t"
  by (erule completes.cases) (auto intro: completes.intros)

text \<open>The component has just returned \<open>Pending\<close> (and so has arranged for the task to be woken).\<close>

definition parked :: "('s, 'a) pollfn \<Rightarrow> 's \<Rightarrow> bool" where
  "parked p t \<longleftrightarrow> (\<exists>s. p s = ret (Pending, t))"

lemma parkedI: "p s = ret (Pending, t) \<Longrightarrow> parked p t"
  by (auto simp: parked_def)

lemma ends_det: "ends p s xs t \<Longrightarrow> ends p s ys u \<Longrightarrow> xs = ys \<and> t = u"
  by (induction arbitrary: ys rule: ends.induct) (erule ends.cases, auto)+

lemma resolves_det: "resolves p s x \<Longrightarrow> resolves p s y \<Longrightarrow> x = y"
  by (induction rule: resolves.induct) (erule resolves.cases, auto)+

lemma ends_cong: "p s = p s' \<Longrightarrow> ends p s' xs t \<Longrightarrow> ends p s xs t"
  by (erule ends.cases) (auto intro: ends.intros)

lemma resolves_cong: "p s = p s' \<Longrightarrow> resolves p s' x \<Longrightarrow> resolves p s x"
  by (erule resolves.cases) (auto intro: resolves.intros)

lemma gives_ends: "gives p s xs u \<Longrightarrow> ends p u ys t \<Longrightarrow> ends p s (xs @ ys) t"
  by (induction rule: gives.induct) (auto intro: ends.intros)

lemma ends_gives: "ends p s xs t \<Longrightarrow> \<exists>u. gives p s xs u \<and> p u = ret (Ready None, t)"
  by (induction rule: ends.induct) (auto intro: gives.intros)

lemma gives_trans: "gives p s xs u \<Longrightarrow> gives p u ys t \<Longrightarrow> gives p s (xs @ ys) t"
  by (induction rule: gives.induct) (auto intro: gives.intros)

text \<open>
  An adapter waits for a future it holds: as long as it hands on the future's \<open>Pending\<close>s, its run
  is the run from the moment the future is ready.
\<close>

lemma ends_resolves:
  assumes "resolves q fut b"
    and "\<And>g g'. q g = ret (Pending, g') \<Longrightarrow> p (mk g) = ret (Pending, mk g')"
    and "\<And>g g'. q g = ret (Ready b, g') \<Longrightarrow> ends p (mk g) ys t"
  shows "ends p (mk fut) ys t"
  using assms(1,2,3)
proof (induction rule: resolves.induct)
  case (resolves_pend s s' x)
  then show ?case by (blast intro: ends_pend)
qed blast

lemma resolves_resolves:
  assumes "resolves q fut b"
    and "\<And>g g'. q g = ret (Pending, g') \<Longrightarrow> p (mk g) = ret (Pending, mk g')"
    and "\<And>g g'. q g = ret (Ready b, g') \<Longrightarrow> resolves p (mk g) y"
  shows "resolves p (mk fut) y"
  using assms(1,2,3)
proof (induction rule: resolves.induct)
  case (resolves_pend s s' x)
  then show ?case by (blast intro: resolves.resolves_pend)
qed blast

lemma completes_wait:
  assumes "resolves q fut b"
    and "\<And>g g'. q g = ret (Pending, g') \<Longrightarrow> p (mk g) = ret (Pending, mk g')"
    and "\<And>g g'. q g = ret (Ready b, g') \<Longrightarrow> completes p (mk g) y t"
  shows "completes p (mk fut) y t"
  using assms(1,2,3)
proof (induction rule: resolves.induct)
  case (resolves_pend s s' x)
  then show ?case by (blast intro: completes.completes_pend)
qed blast

text \<open>The closures of the adapters: what the future that \<open>f\<close> returns for an item resolves to.\<close>

definition computes :: "('c, 'a, 'fut) fnmut \<Rightarrow> ('fut, 'b) pollfn \<Rightarrow> ('a \<Rightarrow> 'b) \<Rightarrow> bool" where
  "computes f q g \<longleftrightarrow> (\<forall>c x. \<exists>fut c'. f c x = ret (fut, c') \<and> resolves q fut (g x))"

lemma computesE:
  assumes "computes f q g"
  obtains fut c' where "f c x = ret (fut, c')" and "resolves q fut (g x)"
  using assms unfolding computes_def by metis

text \<open>Closures that return the value itself: the list of results of calling \<open>f\<close> on the items in turn.\<close>

inductive calls :: "('c, 'a, 'b) fnmut \<Rightarrow> 'c \<Rightarrow> 'a list \<Rightarrow> 'b list \<Rightarrow> 'c \<Rightarrow> bool" for f :: "('c, 'a, 'b) fnmut" where
  calls_Nil: "calls f c [] [] c"
| calls_Cons: "f c x = ret (y, c') \<Longrightarrow> calls f c' xs ys c'' \<Longrightarrow> calls f c (x # xs) (y # ys) c''"

inductive_cases calls_NilE: "calls f c [] ys c'"
inductive_cases calls_ConsE: "calls f c (x # xs) ys c'"

lemma calls_length: "calls f c xs ys c' \<Longrightarrow> length ys = length xs"
  by (induction rule: calls.induct) auto

section \<open>Leaf streams and futures\<close>

text \<open>\<open>stream::iter\<close> over an iterator that yields the elements of a list (\<open>Vec::into_iter\<close>).\<close>

record 'a Iter =
  iter_iter :: "'a list"

definition iter :: "'a list \<Rightarrow> 'a Iter" where
  "iter i = \<lparr>iter_iter = i\<rparr>"

definition iter_poll_next :: "('a Iter, 'a option) pollfn" where
  "iter_poll_next this =
     (case iter_iter this of
        [] \<Rightarrow> ret (Ready None, this)
      | x # xs \<Rightarrow> ret (Ready (Some x), this\<lparr>iter_iter := xs\<rparr>))"

definition iter_size_hint :: "'a Iter \<Rightarrow> hint" where
  "iter_size_hint this = (let n = word_of_nat (length (iter_iter this)) in (n, Some n))"

text \<open>\<open>stream::once\<close>.\<close>

record 'fut Once =
  once_future :: "'fut option"

definition once_new :: "'fut \<Rightarrow> 'fut Once" where
  "once_new future = \<lparr>once_future = Some future\<rparr>"

definition once_poll_next :: "('fut, 'a) pollfn \<Rightarrow> ('fut Once, 'a option) pollfn" where
  "once_poll_next poll_fut this =
     (case once_future this of
        Some fut \<Rightarrow>
          ready_poll (poll_fut fut) (\<lambda>fut. this\<lparr>once_future := Some fut\<rparr>)
            (\<lambda>v this. ret (Ready (Some v), this\<lparr>once_future := None\<rparr>))
      | None \<Rightarrow> ret (Ready None, this))"

definition once_size_hint :: "'fut Once \<Rightarrow> hint" where
  "once_size_hint this = (if once_future this \<noteq> None then (1, Some 1) else (0, Some 0))"

definition once_is_terminated :: "'fut Once \<Rightarrow> bool" where
  "once_is_terminated this \<longleftrightarrow> once_future this = None"

text \<open>\<open>stream::empty\<close>, \<open>stream::pending\<close>, \<open>stream::repeat\<close>, \<open>stream::repeat_with\<close>.\<close>

definition empty_poll_next :: "(unit, 'a option) pollfn" where
  "empty_poll_next this = ret (Ready None, this)"

definition empty_size_hint :: "unit \<Rightarrow> hint" where
  "empty_size_hint this = (0, Some 0)"

definition pending_poll_next :: "(unit, 'a option) pollfn" where
  "pending_poll_next this = ret (Pending, this)"

definition pending_size_hint :: "unit \<Rightarrow> hint" where
  "pending_size_hint this = (0, Some 0)"

record 'a Repeat =
  repeat_item :: 'a

definition repeat_poll_next :: "('a Repeat, 'a option) pollfn" where
  "repeat_poll_next this = ret (Ready (Some (repeat_item this)), this)"

definition repeat_size_hint :: "'a Repeat \<Rightarrow> hint" where
  "repeat_size_hint this = (USIZE_MAX, None)"

record 'c RepeatWith =
  repeater :: 'c

definition repeat_with_poll_next :: "('c, unit, 'a) fnmut \<Rightarrow> ('c RepeatWith, 'a option) pollfn" where
  "repeat_with_poll_next f this =
     bindc (f (repeater this) ()) (\<lambda>(a, c). ret (Ready (Some a), this\<lparr>repeater := c\<rparr>))"

text \<open>\<open>UnfoldState\<close> (\<open>futures-util/src/unfold_state.rs\<close>) with its accessors, and \<open>stream::unfold\<close>.\<close>

datatype ('t, 'fut) UnfoldState = UnfoldValue 't | UnfoldFuture 'fut | UnfoldEmpty

definition unfold_is_empty :: "('t, 'fut) UnfoldState \<Rightarrow> bool" where
  "unfold_is_empty u = (case u of UnfoldEmpty \<Rightarrow> True | _ \<Rightarrow> False)"

definition unfold_is_future :: "('t, 'fut) UnfoldState \<Rightarrow> bool" where
  "unfold_is_future u = (case u of UnfoldFuture _ \<Rightarrow> True | _ \<Rightarrow> False)"

definition unfold_project_future :: "('t, 'fut) UnfoldState \<Rightarrow> 'fut option" where
  "unfold_project_future u = (case u of UnfoldFuture f \<Rightarrow> Some f | _ \<Rightarrow> None)"

definition unfold_take_value :: "('t, 'fut) UnfoldState \<Rightarrow> 't option \<times> ('t, 'fut) UnfoldState" where
  "unfold_take_value u = (case u of UnfoldValue v \<Rightarrow> (Some v, UnfoldEmpty) | _ \<Rightarrow> (None, u))"

record ('c, 't, 'fut) Unfold =
  unfold_f :: 'c
  unfold_state :: "('t, 'fut) UnfoldState"

definition unfold_new :: "'t \<Rightarrow> 'c \<Rightarrow> ('c, 't, 'fut) Unfold" where
  "unfold_new init f = \<lparr>unfold_f = f, unfold_state = UnfoldValue init\<rparr>"

definition unfold_poll_next ::
  "('c, 't, 'fut) fnmut \<Rightarrow> ('fut, ('a \<times> 't) option) pollfn \<Rightarrow> (('c, 't, 'fut) Unfold, 'a option) pollfn" where
  "unfold_poll_next f poll_fut this =
     bindc
       (case unfold_take_value (unfold_state this) of
          (Some state, u) \<Rightarrow>
            bindc (f (unfold_f this) state) (\<lambda>(fut, c). ret (this\<lparr>unfold_f := c, unfold_state := UnfoldFuture fut\<rparr>))
        | (None, u) \<Rightarrow> ret this)
       (\<lambda>this. case unfold_project_future (unfold_state this) of
          Some fut \<Rightarrow>
            ready_poll (poll_fut fut) (\<lambda>fut. this\<lparr>unfold_state := UnfoldFuture fut\<rparr>)
              (\<lambda>step this. case step of
                 Some (item, next_state) \<Rightarrow> ret (Ready (Some item), this\<lparr>unfold_state := UnfoldValue next_state\<rparr>)
               | None \<Rightarrow> ret (Ready None, this\<lparr>unfold_state := UnfoldEmpty\<rparr>))
        | None \<Rightarrow> panic ''Unfold must not be polled after it returned Poll::Ready(None)'')"

text \<open>\<open>future::ready\<close>.\<close>

definition ready_poll_fut :: "('a option, 'a) pollfn" where
  "ready_poll_fut this =
     (case this of Some t \<Rightarrow> ret (Ready t, None) | None \<Rightarrow> panic ''Ready polled after completion'')"

section \<open>Lemmas of the leaf streams\<close>

lemma iter_ends: "ends iter_poll_next (iter xs) xs (iter [])"
proof (induction xs)
  case Nil
  show ?case by (rule ends_end) (simp add: iter_poll_next_def iter_def)
next
  case (Cons x xs)
  show ?case by (rule ends_item [OF _ Cons]) (simp add: iter_poll_next_def iter_def)
qed

lemma iter_not_parked: "\<not> parked iter_poll_next s"
  by (auto simp: parked_def iter_poll_next_def split: list.splits)

lemma iter_hint:
  assumes "length (iter_iter s) < 2 ^ 64"
  shows "hint_bounds (iter_size_hint s) (length (iter_iter s))"
  using assms by (simp add: iter_size_hint_def Let_def unat_of_nat)

lemma once_ends:
  assumes "resolves q fut v"
  shows "ends (once_poll_next q) (once_new fut) [v] \<lparr>once_future = None\<rparr>"
  unfolding once_new_def
proof (rule ends_resolves [OF assms, where mk = "\<lambda>g. \<lparr>once_future = Some g\<rparr>"])
  fix g g' assume "q g = ret (Ready v, g')"
  then have "once_poll_next q \<lparr>once_future = Some g\<rparr> = ret (Ready (Some v), \<lparr>once_future = None\<rparr>)"
    by (simp add: once_poll_next_def)
  moreover have "once_poll_next q \<lparr>once_future = None\<rparr> = ret (Ready None, \<lparr>once_future = None\<rparr>)"
    by (simp add: once_poll_next_def)
  ultimately show "ends (once_poll_next q) \<lparr>once_future = Some g\<rparr> [v] \<lparr>once_future = None\<rparr>"
    by (blast intro: ends.intros)
qed (simp add: once_poll_next_def)

lemma empty_ends: "ends empty_poll_next () [] ()"
  by (rule ends_end) (simp add: empty_poll_next_def)

lemma repeat_gives: "gives repeat_poll_next s (replicate n (repeat_item s)) s"
  by (induction n) (auto simp: repeat_poll_next_def intro: gives.intros)

text \<open>\<open>unfold\<close> computes the list of the items of \<open>g\<close>, when its seed runs out.\<close>

inductive unfolds :: "('t \<Rightarrow> ('a \<times> 't) option) \<Rightarrow> 't \<Rightarrow> 'a list \<Rightarrow> bool" for g :: "'t \<Rightarrow> ('a \<times> 't) option" where
  unfolds_None: "g s = None \<Longrightarrow> unfolds g s []"
| unfolds_Some: "g s = Some (x, s') \<Longrightarrow> unfolds g s' xs \<Longrightarrow> unfolds g s (x # xs)"

lemmas unfold_simps = unfold_poll_next_def unfold_take_value_def unfold_project_future_def

lemma unfold_ends:
  assumes "unfolds g v xs" and "computes f q g"
  shows "\<exists>t. ends (unfold_poll_next f q) (unfold_new v c) xs t"
  using assms(1)
proof (induction arbitrary: c rule: unfolds.induct)
  case (unfolds_None s)
  obtain fut c' where f: "f c s = ret (fut, c')" "resolves q fut (g s)" by (rule computesE [OF assms(2)])
  have "ends (unfold_poll_next f q) \<lparr>unfold_f = c', unfold_state = UnfoldFuture fut\<rparr> []
      \<lparr>unfold_f = c', unfold_state = UnfoldEmpty\<rparr>"
    by (rule ends_resolves [OF f(2), where mk = "\<lambda>g. \<lparr>unfold_f = c', unfold_state = UnfoldFuture g\<rparr>"])
      (auto simp: unfold_simps unfolds_None intro: ends_end)
  then have "ends (unfold_poll_next f q) (unfold_new s c) [] \<lparr>unfold_f = c', unfold_state = UnfoldEmpty\<rparr>"
    by (rule ends_cong [rotated]) (simp add: unfold_simps unfold_new_def f(1))
  then show ?case by blast
next
  case (unfolds_Some s x s' xs)
  obtain fut c' where f: "f c s = ret (fut, c')" "resolves q fut (g s)" by (rule computesE [OF assms(2)])
  obtain t where t: "ends (unfold_poll_next f q) (unfold_new s' c') xs t" using unfolds_Some.IH by blast
  have "ends (unfold_poll_next f q) \<lparr>unfold_f = c', unfold_state = UnfoldFuture fut\<rparr> (x # xs) t"
    by (rule ends_resolves [OF f(2), where mk = "\<lambda>g. \<lparr>unfold_f = c', unfold_state = UnfoldFuture g\<rparr>"])
      (auto simp: unfold_simps unfolds_Some.hyps(1) unfold_new_def intro: ends_item [OF _ t])
  then have "ends (unfold_poll_next f q) (unfold_new s c) (x # xs) t"
    by (rule ends_cong [rotated]) (simp add: unfold_simps unfold_new_def f(1))
  then show ?case by blast
qed

end
