(* ===== verification/Stream_Filter.thy ===== *)
theory Stream_Filter
  imports Poll_Core
begin

text \<open>
  The stream adapters that drop items, \<open>futures-util/src/stream/stream/{filter, filter_map, skip,
  take, skip_while, take_while, take_until}.rs\<close>. A record holds the fields of the Rust struct; of
  a closure field it holds the captured environment, and the closure's code is the parameter \<open>f\<close>.
  For every adapter: the run of the adapter over any run of the inner stream and of the futures,
  the soundness of \<open>size_hint\<close> in every state of the run, and that \<open>Pending\<close> is only returned when
  a component it waits for has returned it.
\<close>

section \<open>filter\<close>

record ('st, 'fut, 'c, 'a) Filter =
  fl_stream :: 'st
  fl_f :: 'c
  fl_pending_fut :: "'fut option"
  fl_pending_item :: "'a option"

definition filter_new :: "'st \<Rightarrow> 'c \<Rightarrow> ('st, 'fut, 'c, 'a) Filter" where
  "filter_new stream f = \<lparr>fl_stream = stream, fl_f = f, fl_pending_fut = None, fl_pending_item = None\<rparr>"

definition filter_is_terminated :: "('st \<Rightarrow> bool) \<Rightarrow> ('st, 'fut, 'c, 'a) Filter \<Rightarrow> bool" where
  "filter_is_terminated terminated this \<longleftrightarrow> fl_pending_fut this = None \<and> terminated (fl_stream this)"

partial_function (option) filter_poll_next ::
  "('st, 'a option) pollfn \<Rightarrow> ('fut, bool) pollfn \<Rightarrow> ('c, 'a, 'fut) fnmut
   \<Rightarrow> (('st, 'fut, 'c, 'a) Filter, 'a option) pollfn" where
  "filter_poll_next poll_next poll_fut f this =
     (case fl_pending_fut this of
        Some fut \<Rightarrow>
          ready_poll (poll_fut fut) (\<lambda>fut. this\<lparr>fl_pending_fut := Some fut\<rparr>) (\<lambda>res this.
            let this = this\<lparr>fl_pending_fut := None\<rparr> in
            if res then ret (Ready (fl_pending_item this), this\<lparr>fl_pending_item := None\<rparr>)
            else filter_poll_next poll_next poll_fut f (this\<lparr>fl_pending_item := None\<rparr>))
      | None \<Rightarrow>
          ready_poll (poll_next (fl_stream this)) (\<lambda>st. this\<lparr>fl_stream := st\<rparr>) (\<lambda>next this.
            case next of
              Some item \<Rightarrow>
                bindc (f (fl_f this) item) (\<lambda>(fut, c).
                  filter_poll_next poll_next poll_fut f
                    (this\<lparr>fl_f := c, fl_pending_fut := Some fut, fl_pending_item := Some item\<rparr>))
            | None \<Rightarrow> ret (Ready None, this)))"

definition filter_size_hint :: "('st \<Rightarrow> hint) \<Rightarrow> ('st, 'fut, 'c, 'a) Filter \<Rightarrow> hint" where
  "filter_size_hint size_hint this =
     (let pending_len = usize_of_bool (fl_pending_item this \<noteq> None);
          (_, upper) = size_hint (fl_stream this);
          upper = (case upper of Some x \<Rightarrow> checked_add x pending_len | None \<Rightarrow> None)
      in (0, upper))"

text \<open>
  A state of a run: the adapter waits for a future exactly when it holds the item the future decides
  on. \<open>filter_rest\<close> is what remains to be yielded when the inner stream still has \<open>xs\<close>.
\<close>

definition filter_wf :: "('fut, bool) pollfn \<Rightarrow> ('a \<Rightarrow> bool) \<Rightarrow> ('st, 'fut, 'c, 'a) Filter \<Rightarrow> bool" where
  "filter_wf q P m \<longleftrightarrow>
     (case fl_pending_fut m of
        None \<Rightarrow> fl_pending_item m = None
      | Some fut \<Rightarrow> (\<exists>x. fl_pending_item m = Some x \<and> resolves q fut (P x)))"

definition filter_rest :: "('a \<Rightarrow> bool) \<Rightarrow> ('st, 'fut, 'c, 'a) Filter \<Rightarrow> 'a list \<Rightarrow> 'a list" where
  "filter_rest P m xs = filter P ((case fl_pending_item m of Some x \<Rightarrow> [x] | None \<Rightarrow> []) @ xs)"

lemma filter_wf_new: "filter_wf q P (filter_new st c)"
  by (simp add: filter_wf_def filter_new_def)

lemma filter_wait:
  assumes "resolves q fut b"
    and "\<exists>t. ends (filter_poll_next p q f) (m\<lparr>fl_pending_fut := None, fl_pending_item := None\<rparr>) ys t"
  shows "\<exists>t. ends (filter_poll_next p q f) (m\<lparr>fl_pending_fut := Some fut, fl_pending_item := Some x\<rparr>)
    (if b then x # ys else ys) t"
proof -
  let ?p = "filter_poll_next p q f" and ?m = "m\<lparr>fl_pending_fut := None, fl_pending_item := None\<rparr>"
  let ?mk = "\<lambda>g. m\<lparr>fl_pending_fut := Some g, fl_pending_item := Some x\<rparr>"
  from assms(2) obtain t where t: "ends ?p ?m ys t" by blast
  have "ends ?p (?mk fut) (if b then x # ys else ys) t"
  proof (rule ends_resolves [OF assms(1), where mk = ?mk])
    fix g g' assume g: "q g = ret (Ready b, g')"
    have "?p (?mk g) = (if b then ret (Ready (Some x), ?m) else ?p ?m)"
      by (subst filter_poll_next.simps) (simp add: g)
    with t show "ends ?p (?mk g) (if b then x # ys else ys) t"
      by (cases b) (auto intro: ends_item ends_cong)
  qed (subst filter_poll_next.simps, simp)
  then show ?thesis by blast
qed

lemma filter_ends_idle:
  assumes "ends p (fl_stream m) xs t" and "computes f q P"
    and "fl_pending_fut m = None" and "fl_pending_item m = None"
  shows "\<exists>t'. ends (filter_poll_next p q f) m (filter P xs) t'"
  using assms(1,3,4)
proof (induction "fl_stream m" xs t arbitrary: m rule: ends.induct)
  case (ends_end t)
  then have "filter_poll_next p q f m = ret (Ready None, m\<lparr>fl_stream := t\<rparr>)"
    by (subst filter_poll_next.simps) simp
  then show ?case by (auto intro: ends.ends_end)
next
  case (ends_pend s' xs t)
  then have "filter_poll_next p q f m = ret (Pending, m\<lparr>fl_stream := s'\<rparr>)"
    by (subst filter_poll_next.simps) simp
  with ends_pend(3) [of "m\<lparr>fl_stream := s'\<rparr>"] ends_pend(4,5) show ?case
    by (auto intro: ends.ends_pend)
next
  case (ends_item x s' xs t)
  obtain fut c where fc: "f (fl_f m) x = ret (fut, c)" "resolves q fut (P x)" by (rule computesE [OF assms(2)])
  let ?m = "m\<lparr>fl_stream := s', fl_f := c\<rparr>"
  have "\<exists>t'. ends (filter_poll_next p q f) (?m\<lparr>fl_pending_fut := None, fl_pending_item := None\<rparr>) (filter P xs) t'"
    by (rule ends_item(3)) simp_all
  note filter_wait [OF fc(2) this, of x]
  moreover have "filter_poll_next p q f m
      = filter_poll_next p q f (?m\<lparr>fl_pending_fut := Some fut, fl_pending_item := Some x\<rparr>)"
    by (subst filter_poll_next.simps) (simp add: ends_item fc)
  ultimately show ?case by (auto dest: ends_cong split: if_splits)
qed

lemma filter_ends:
  assumes "ends p (fl_stream m) xs t" and "computes f q P" and "filter_wf q P m"
  shows "\<exists>t'. ends (filter_poll_next p q f) m (filter_rest P m xs) t'"
proof (cases "fl_pending_fut m")
  case None
  then show ?thesis using filter_ends_idle [OF assms(1,2)] assms(3)
    by (simp add: filter_wf_def filter_rest_def)
next
  case (Some fut)
  with assms(3) obtain x where x: "fl_pending_item m = Some x" "resolves q fut (P x)"
    by (auto simp: filter_wf_def)
  have "\<exists>t'. ends (filter_poll_next p q f) (m\<lparr>fl_pending_fut := None, fl_pending_item := None\<rparr>) (filter P xs) t'"
    by (rule filter_ends_idle) (use assms in simp_all)
  from filter_wait [OF x(2) this, of x] Some x show ?thesis
    by (cases m) (simp add: filter_rest_def)
qed

lemma filter_hint:
  assumes "hint_bounds (h (fl_stream m)) (length xs)"
  shows "hint_bounds (filter_size_hint h m) (length (filter_rest P m xs))"
proof -
  obtain lo hi where h: "h (fl_stream m) = (lo, hi)" by (cases "h (fl_stream m)")
  have "length (filter_rest P m xs) \<le> length xs + unat (usize_of_bool (fl_pending_item m \<noteq> None))"
    by (auto simp: filter_rest_def hint_simps le_SucI split: option.splits)
  with assms show ?thesis
    by (auto simp: filter_size_hint_def h intro: hint_upper_checked_add)
qed

lemma filter_parked:
  fixes m' :: "('st, 'fut, 'c, 'a) Filter"
  assumes "filter_poll_next p q f m = ret (Pending, m')"
  shows "parked p (fl_stream m') \<and> fl_pending_fut m' = None
    \<or> (\<exists>fut. fl_pending_fut m' = Some fut \<and> parked q fut)"
  using assms [unfolded ret_def]
proof (induction p q f m "Returns (Pending :: 'a option poll, m')" rule: filter_poll_next.raw_induct [rotated, consumes 1])
  case (1 rec p q f m)
  from 1(2) show ?case
    by (auto simp: poll_eq_simps split: option.splits if_splits
        intro: parkedI dest!: 1(1) [unfolded Returns_ret])
qed

section \<open>filter_map\<close>

record ('st, 'fut, 'c) FilterMap =
  fm_stream :: 'st
  fm_f :: 'c
  fm_pending :: "'fut option"

definition filter_map_new :: "'st \<Rightarrow> 'c \<Rightarrow> ('st, 'fut, 'c) FilterMap" where
  "filter_map_new stream f = \<lparr>fm_stream = stream, fm_f = f, fm_pending = None\<rparr>"

definition filter_map_is_terminated :: "('st \<Rightarrow> bool) \<Rightarrow> ('st, 'fut, 'c) FilterMap \<Rightarrow> bool" where
  "filter_map_is_terminated terminated this \<longleftrightarrow> fm_pending this = None \<and> terminated (fm_stream this)"

partial_function (option) filter_map_poll_next ::
  "('st, 'a option) pollfn \<Rightarrow> ('fut, 'b option) pollfn \<Rightarrow> ('c, 'a, 'fut) fnmut
   \<Rightarrow> (('st, 'fut, 'c) FilterMap, 'b option) pollfn" where
  "filter_map_poll_next poll_next poll_fut f this =
     (case fm_pending this of
        Some p \<Rightarrow>
          ready_poll (poll_fut p) (\<lambda>p. this\<lparr>fm_pending := Some p\<rparr>) (\<lambda>item this.
            let this = this\<lparr>fm_pending := None\<rparr> in
            if item \<noteq> None then ret (Ready item, this)
            else filter_map_poll_next poll_next poll_fut f this)
      | None \<Rightarrow>
          ready_poll (poll_next (fm_stream this)) (\<lambda>st. this\<lparr>fm_stream := st\<rparr>) (\<lambda>next this.
            case next of
              Some item \<Rightarrow>
                bindc (f (fm_f this) item) (\<lambda>(fut, c).
                  filter_map_poll_next poll_next poll_fut f (this\<lparr>fm_f := c, fm_pending := Some fut\<rparr>))
            | None \<Rightarrow> ret (Ready None, this)))"

definition filter_map_size_hint :: "('st \<Rightarrow> hint) \<Rightarrow> ('st, 'fut, 'c) FilterMap \<Rightarrow> hint" where
  "filter_map_size_hint size_hint this =
     (let pending_len = usize_of_bool (fm_pending this \<noteq> None);
          (_, upper) = size_hint (fm_stream this);
          upper = (case upper of Some x \<Rightarrow> checked_add x pending_len | None \<Rightarrow> None)
      in (0, upper))"

lemma filter_map_wait:
  assumes "resolves q fut b"
    and "\<exists>t. ends (filter_map_poll_next p q f) (m\<lparr>fm_pending := None\<rparr>) ys t"
  shows "\<exists>t. ends (filter_map_poll_next p q f) (m\<lparr>fm_pending := Some fut\<rparr>)
    ((case b of Some y \<Rightarrow> [y] | None \<Rightarrow> []) @ ys) t"
proof -
  let ?p = "filter_map_poll_next p q f" and ?m = "m\<lparr>fm_pending := None\<rparr>"
  let ?mk = "\<lambda>g. m\<lparr>fm_pending := Some g\<rparr>"
  from assms(2) obtain t where t: "ends ?p ?m ys t" by blast
  have "ends ?p (?mk fut) ((case b of Some y \<Rightarrow> [y] | None \<Rightarrow> []) @ ys) t"
  proof (rule ends_resolves [OF assms(1), where mk = ?mk])
    fix g g' assume g: "q g = ret (Ready b, g')"
    have "?p (?mk g) = (if b \<noteq> None then ret (Ready b, ?m) else ?p ?m)"
      by (subst filter_map_poll_next.simps) (simp add: g)
    with t show "ends ?p (?mk g) ((case b of Some y \<Rightarrow> [y] | None \<Rightarrow> []) @ ys) t"
      by (cases b) (auto intro: ends_item ends_cong)
  qed (subst filter_map_poll_next.simps, simp)
  then show ?thesis by blast
qed

lemma filter_map_ends_idle:
  assumes "ends p (fm_stream m) xs t" and "computes f q g" and "fm_pending m = None"
  shows "\<exists>t'. ends (filter_map_poll_next p q f) m (List.map_filter g xs) t'"
  using assms(1,3)
proof (induction "fm_stream m" xs t arbitrary: m rule: ends.induct)
  case (ends_end t)
  then have "filter_map_poll_next p q f m = ret (Ready None, m\<lparr>fm_stream := t\<rparr>)"
    by (subst filter_map_poll_next.simps) simp
  then show ?case by (auto intro: ends.ends_end)
next
  case (ends_pend s' xs t)
  then have "filter_map_poll_next p q f m = ret (Pending, m\<lparr>fm_stream := s'\<rparr>)"
    by (subst filter_map_poll_next.simps) simp
  with ends_pend(3) [of "m\<lparr>fm_stream := s'\<rparr>"] ends_pend(4) show ?case
    by (auto intro: ends.ends_pend)
next
  case (ends_item x s' xs t)
  obtain fut c where fc: "f (fm_f m) x = ret (fut, c)" "resolves q fut (g x)" by (rule computesE [OF assms(2)])
  let ?m = "m\<lparr>fm_stream := s', fm_f := c\<rparr>"
  have "\<exists>t'. ends (filter_map_poll_next p q f) (?m\<lparr>fm_pending := None\<rparr>) (List.map_filter g xs) t'"
    by (rule ends_item(3)) simp_all
  note filter_map_wait [OF fc(2) this]
  moreover have "filter_map_poll_next p q f m = filter_map_poll_next p q f (?m\<lparr>fm_pending := Some fut\<rparr>)"
    by (subst filter_map_poll_next.simps) (simp add: ends_item fc)
  ultimately show ?case by (auto dest: ends_cong split: option.splits simp: map_filter_simps)
qed

text \<open>
  In any state of a run, what is left is the value of the future in progress, if it has one, and
  the values of the items the inner stream still has.
\<close>

lemma filter_map_ends:
  assumes "ends p (fm_stream m) xs t" and "computes f q g"
    and "\<And>fut. fm_pending m = Some fut \<Longrightarrow> resolves q fut b"
  shows "\<exists>t'. ends (filter_map_poll_next p q f) m
    ((if fm_pending m \<noteq> None then case b of Some y \<Rightarrow> [y] | None \<Rightarrow> [] else []) @ List.map_filter g xs) t'"
proof (cases "fm_pending m")
  case None
  then show ?thesis using filter_map_ends_idle [OF assms(1,2)] by simp
next
  case (Some fut)
  have "\<exists>t'. ends (filter_map_poll_next p q f) (m\<lparr>fm_pending := None\<rparr>) (List.map_filter g xs) t'"
    by (rule filter_map_ends_idle) (use assms in simp_all)
  from filter_map_wait [OF assms(3) [OF Some] this] Some show ?thesis
    by (cases m) simp
qed

lemma filter_map_hint:
  assumes "hint_bounds (h (fm_stream m)) (length xs)"
  shows "hint_bounds (filter_map_size_hint h m)
    (length ((if fm_pending m \<noteq> None then case b of Some y \<Rightarrow> [y] | None \<Rightarrow> [] else []) @ List.map_filter g xs))"
proof -
  obtain lo hi where h: "h (fm_stream m) = (lo, hi)" by (cases "h (fm_stream m)")
  have "length (List.map_filter g xs) \<le> length xs" by (simp add: List.map_filter_def)
  then have "length ((if fm_pending m \<noteq> None then case b of Some y \<Rightarrow> [y] | None \<Rightarrow> [] else []) @ List.map_filter g xs)
      \<le> length xs + unat (usize_of_bool (fm_pending m \<noteq> None))"
    by (simp add: hint_simps split: option.splits)
  with assms show ?thesis
    by (auto simp: filter_map_size_hint_def h simp del: length_append intro: hint_upper_checked_add)
qed

lemma filter_map_parked:
  fixes m' :: "('st, 'fut, 'c) FilterMap" and f :: "('c, 'a, 'fut) fnmut"
    and q :: "('fut, 'b option) pollfn"
  assumes "filter_map_poll_next p q f m = ret (Pending, m')"
  shows "parked p (fm_stream m') \<and> fm_pending m' = None \<or> (\<exists>fut. fm_pending m' = Some fut \<and> parked q fut)"
  using assms [unfolded ret_def]
proof (induction p q f m "Returns (Pending :: 'b option poll, m')" rule: filter_map_poll_next.raw_induct [rotated, consumes 1])
  case (1 rec p q f m)
  from 1(2) show ?case
    by (auto simp: poll_eq_simps split: option.splits if_splits
        intro: parkedI dest!: 1(1) [unfolded Returns_ret])
qed

section \<open>skip\<close>

record 'st Skip =
  sk_stream :: 'st
  sk_remaining :: usize

definition skip_new :: "'st \<Rightarrow> usize \<Rightarrow> 'st Skip" where
  "skip_new stream n = \<lparr>sk_stream = stream, sk_remaining = n\<rparr>"

definition skip_is_terminated :: "('st \<Rightarrow> bool) \<Rightarrow> 'st Skip \<Rightarrow> bool" where
  "skip_is_terminated terminated this = terminated (sk_stream this)"

partial_function (option) skip_poll_next :: "('st, 'a option) pollfn \<Rightarrow> ('st Skip, 'a option) pollfn" where
  "skip_poll_next poll_next this =
     (if 0 < sk_remaining this then
        ready_poll (poll_next (sk_stream this)) (\<lambda>st. this\<lparr>sk_stream := st\<rparr>) (\<lambda>next this.
          if next \<noteq> None then skip_poll_next poll_next (this\<lparr>sk_remaining := sk_remaining this - 1\<rparr>)
          else ret (Ready None, this))
      else poll_with (poll_next (sk_stream this)) (\<lambda>st. this\<lparr>sk_stream := st\<rparr>) (\<lambda>next this. ret (next, this)))"

definition skip_size_hint :: "('st \<Rightarrow> hint) \<Rightarrow> 'st Skip \<Rightarrow> hint" where
  "skip_size_hint size_hint this =
     (let (lower, upper) = size_hint (sk_stream this);
          lower = saturating_sub lower (sk_remaining this);
          upper = map_option (\<lambda>x. saturating_sub x (sk_remaining this)) upper
      in (lower, upper))"

lemma skip_ends:
  assumes "ends p (sk_stream m) xs t"
  shows "\<exists>t'. ends (skip_poll_next p) m (drop (unat (sk_remaining m)) xs) t'"
  using assms
proof (induction "sk_stream m" xs t arbitrary: m rule: ends.induct)
  case (ends_end t)
  then have "skip_poll_next p m = ret (Ready None, m\<lparr>sk_stream := t\<rparr>)"
    by (subst skip_poll_next.simps) simp
  then show ?case by (auto intro: ends.ends_end)
next
  case (ends_pend s' xs t)
  then have "skip_poll_next p m = ret (Pending, m\<lparr>sk_stream := s'\<rparr>)"
    by (subst skip_poll_next.simps) simp
  with ends_pend(3) [of "m\<lparr>sk_stream := s'\<rparr>"] show ?case by (auto intro: ends.ends_pend)
next
  case (ends_item x s' xs t)
  show ?case
  proof (cases "sk_remaining m = 0")
    case True
    with ends_item have "skip_poll_next p m = ret (Ready (Some x), m\<lparr>sk_stream := s'\<rparr>)"
      by (subst skip_poll_next.simps) simp
    with True ends_item(3) [of "m\<lparr>sk_stream := s'\<rparr>"] show ?thesis by (auto intro: ends.ends_item)
  next
    case False
    let ?m = "m\<lparr>sk_stream := s', sk_remaining := sk_remaining m - 1\<rparr>"
    from False ends_item have "skip_poll_next p m = skip_poll_next p ?m"
      by (subst skip_poll_next.simps) (simp add: word_gt_0)
    moreover obtain t' where "ends (skip_poll_next p) ?m (drop (unat (sk_remaining m - 1)) xs) t'"
      using ends_item(3) [of ?m] by auto
    moreover have "drop (unat (sk_remaining m)) (x # xs) = drop (unat (sk_remaining m - 1)) xs"
      using False by (simp add: unat_pred_usize drop_Cons' unat_eq_0)
    ultimately show ?thesis by (auto dest: ends_cong)
  qed
qed

lemma skip_hint:
  assumes "hint_bounds (h (sk_stream m)) (length xs)"
  shows "hint_bounds (skip_size_hint h m) (length (drop (unat (sk_remaining m)) xs))"
  using assms by (auto simp: skip_size_hint_def hint_simps hint_bounds_def hint_upper_def split: prod.splits option.splits)

lemma skip_parked:
  fixes m' :: "'st Skip" and p :: "('st, 'a option) pollfn"
  assumes "skip_poll_next p m = ret (Pending, m')"
  shows "parked p (sk_stream m')"
  using assms [unfolded ret_def]
proof (induction p m "Returns (Pending :: 'a option poll, m')" rule: skip_poll_next.raw_induct [rotated, consumes 1])
  case (1 rec p m)
  from 1(2) show ?case
    by (auto simp: poll_eq_simps split: option.splits if_splits
        intro: parkedI dest!: 1(1) [unfolded Returns_ret])
qed

section \<open>take\<close>

record 'st Take =
  tk_stream :: 'st
  tk_remaining :: usize

definition take_new :: "'st \<Rightarrow> usize \<Rightarrow> 'st Take" where
  "take_new stream n = \<lparr>tk_stream = stream, tk_remaining = n\<rparr>"

definition take_poll_next :: "('st, 'a option) pollfn \<Rightarrow> ('st Take, 'a option) pollfn" where
  "take_poll_next poll_next this =
     (if tk_remaining this = 0 then ret (Ready None, this)
      else ready_poll (poll_next (tk_stream this)) (\<lambda>st. this\<lparr>tk_stream := st\<rparr>) (\<lambda>next this.
        ret (Ready next,
          if next \<noteq> None then this\<lparr>tk_remaining := tk_remaining this - 1\<rparr> else this\<lparr>tk_remaining := 0\<rparr>)))"

definition take_size_hint :: "('st \<Rightarrow> hint) \<Rightarrow> 'st Take \<Rightarrow> hint" where
  "take_size_hint size_hint this =
     (if tk_remaining this = 0 then (0, Some 0)
      else
        let (lower, upper) = size_hint (tk_stream this);
            lower = min lower (tk_remaining this);
            upper = (case upper of
                Some x \<Rightarrow> if x < tk_remaining this then Some x else Some (tk_remaining this)
              | None \<Rightarrow> Some (tk_remaining this))
        in (lower, upper))"

definition take_is_terminated :: "('st \<Rightarrow> bool) \<Rightarrow> 'st Take \<Rightarrow> bool" where
  "take_is_terminated terminated this \<longleftrightarrow> tk_remaining this = 0 \<or> terminated (tk_stream this)"

text \<open>
  The adapter ends after \<open>n\<close> items even when the inner stream has more or never ends, and does not
  poll it again.
\<close>

lemma take_ends_early:
  assumes "gives p (tk_stream m) xs u" and "length xs = unat (tk_remaining m)"
  shows "\<exists>t'. ends (take_poll_next p) m xs t'"
  using assms
proof (induction "tk_stream m" xs u arbitrary: m rule: gives.induct)
  case gives_stop
  then have "tk_remaining m = 0" by (simp add: unat_eq_0)
  then have "take_poll_next p m = ret (Ready None, m)" by (simp add: take_poll_next_def)
  then show ?case by (auto intro: ends.ends_end)
next
  case (gives_pend s' xs t)
  show ?case
  proof (cases "tk_remaining m = 0")
    case True
    with gives_pend(4) have "xs = []" "take_poll_next p m = ret (Ready None, m)" by (simp_all add: take_poll_next_def)
    then show ?thesis by (auto intro: ends.ends_end)
  next
    case False
    with gives_pend have "take_poll_next p m = ret (Pending, m\<lparr>tk_stream := s'\<rparr>)" by (simp add: take_poll_next_def)
    with gives_pend(3) [of "m\<lparr>tk_stream := s'\<rparr>"] gives_pend(4) show ?thesis by (auto intro: ends.ends_pend)
  qed
next
  case (gives_item x s' xs t)
  let ?m = "m\<lparr>tk_stream := s', tk_remaining := tk_remaining m - 1\<rparr>"
  from gives_item(4) have nz: "tk_remaining m \<noteq> 0" by auto
  with gives_item(1) have "take_poll_next p m = ret (Ready (Some x), ?m)" by (simp add: take_poll_next_def)
  moreover have "length xs = unat (tk_remaining m - 1)" using gives_item(4) nz by (simp add: unat_pred_usize)
  then obtain t' where "ends (take_poll_next p) ?m xs t'" using gives_item(3) [of ?m] by auto
  ultimately show ?case by (auto intro: ends.ends_item)
qed

lemma take_ends:
  assumes "ends p (tk_stream m) xs t"
  shows "\<exists>t'. ends (take_poll_next p) m (take (unat (tk_remaining m)) xs) t'"
  using assms
proof (induction "tk_stream m" xs t arbitrary: m rule: ends.induct)
  case (ends_end t)
  then have "\<exists>t. take_poll_next p m = ret (Ready None, t)" by (simp add: take_poll_next_def)
  then show ?case by (auto intro: ends.ends_end)
next
  case (ends_pend s' xs t)
  show ?case
  proof (cases "tk_remaining m = 0")
    case True
    then have "take_poll_next p m = ret (Ready None, m)" by (simp add: take_poll_next_def)
    with True show ?thesis by (auto intro: ends.ends_end)
  next
    case False
    with ends_pend have "take_poll_next p m = ret (Pending, m\<lparr>tk_stream := s'\<rparr>)" by (simp add: take_poll_next_def)
    with ends_pend(3) [of "m\<lparr>tk_stream := s'\<rparr>"] show ?thesis by (auto intro: ends.ends_pend)
  qed
next
  case (ends_item x s' xs t)
  show ?case
  proof (cases "tk_remaining m = 0")
    case True
    then have "take_poll_next p m = ret (Ready None, m)" by (simp add: take_poll_next_def)
    with True show ?thesis by (auto intro: ends.ends_end)
  next
    case False
    let ?m = "m\<lparr>tk_stream := s', tk_remaining := tk_remaining m - 1\<rparr>"
    from False ends_item(1) have "take_poll_next p m = ret (Ready (Some x), ?m)" by (simp add: take_poll_next_def)
    moreover obtain t' where "ends (take_poll_next p) ?m (take (unat (tk_remaining m - 1)) xs) t'"
      using ends_item(3) [of ?m] by auto
    moreover have "take (unat (tk_remaining m)) (x # xs) = x # take (unat (tk_remaining m - 1)) xs"
      using False by (simp add: unat_pred_usize take_Cons' unat_eq_0)
    ultimately show ?thesis by (auto intro: ends.ends_item)
  qed
qed

lemma take_hint:
  assumes "hint_bounds (h (tk_stream m)) (length xs)"
  shows "hint_bounds (take_size_hint h m) (length (take (unat (tk_remaining m)) xs))"
  using assms
  by (auto simp: take_size_hint_def hint_simps hint_bounds_def hint_upper_def word_less_nat_alt
      split: prod.splits option.splits)

lemma take_parked: "take_poll_next p m = ret (Pending, m') \<Longrightarrow> parked p (tk_stream m')"
  by (auto simp: take_poll_next_def ready_poll_eq_ret split: if_splits intro: parkedI)

section \<open>take_while\<close>

record ('st, 'fut, 'c, 'a) TakeWhile =
  tw_stream :: 'st
  tw_f :: 'c
  tw_pending_fut :: "'fut option"
  tw_pending_item :: "'a option"
  tw_done_taking :: bool

definition take_while_new :: "'st \<Rightarrow> 'c \<Rightarrow> ('st, 'fut, 'c, 'a) TakeWhile" where
  "take_while_new stream f =
     \<lparr>tw_stream = stream, tw_f = f, tw_pending_fut = None, tw_pending_item = None, tw_done_taking = False\<rparr>"

partial_function (option) take_while_loop ::
  "('st, 'a option) pollfn \<Rightarrow> ('fut, bool) pollfn \<Rightarrow> ('c, 'a, 'fut) fnmut
   \<Rightarrow> (('st, 'fut, 'c, 'a) TakeWhile, 'a option) pollfn" where
  "take_while_loop poll_next poll_fut f this =
     (case tw_pending_fut this of
        Some fut \<Rightarrow>
          ready_poll (poll_fut fut) (\<lambda>fut. this\<lparr>tw_pending_fut := Some fut\<rparr>) (\<lambda>take this.
            let item = tw_pending_item this;
                this = this\<lparr>tw_pending_item := None, tw_pending_fut := None\<rparr>
            in if take then ret (Ready item, this) else ret (Ready None, this\<lparr>tw_done_taking := True\<rparr>))
      | None \<Rightarrow>
          ready_poll (poll_next (tw_stream this)) (\<lambda>st. this\<lparr>tw_stream := st\<rparr>) (\<lambda>next this.
            case next of
              Some item \<Rightarrow>
                bindc (f (tw_f this) item) (\<lambda>(fut, c).
                  take_while_loop poll_next poll_fut f
                    (this\<lparr>tw_f := c, tw_pending_fut := Some fut, tw_pending_item := Some item\<rparr>))
            | None \<Rightarrow> ret (Ready None, this)))"

definition take_while_poll_next ::
  "('st, 'a option) pollfn \<Rightarrow> ('fut, bool) pollfn \<Rightarrow> ('c, 'a, 'fut) fnmut
   \<Rightarrow> (('st, 'fut, 'c, 'a) TakeWhile, 'a option) pollfn" where
  "take_while_poll_next poll_next poll_fut f this =
     (if tw_done_taking this then ret (Ready None, this) else take_while_loop poll_next poll_fut f this)"

definition take_while_size_hint :: "('st \<Rightarrow> hint) \<Rightarrow> ('st, 'fut, 'c, 'a) TakeWhile \<Rightarrow> hint" where
  "take_while_size_hint size_hint this =
     (if tw_done_taking this then (0, Some 0)
      else
        let pending_len = usize_of_bool (tw_pending_item this \<noteq> None);
            (_, upper) = size_hint (tw_stream this);
            upper = (case upper of Some x \<Rightarrow> checked_add x pending_len | None \<Rightarrow> None)
        in (0, upper))"

definition take_while_is_terminated :: "('st \<Rightarrow> bool) \<Rightarrow> ('st, 'fut, 'c, 'a) TakeWhile \<Rightarrow> bool" where
  "take_while_is_terminated terminated this \<longleftrightarrow>
     tw_done_taking this \<or> tw_pending_item this = None \<and> terminated (tw_stream this)"

definition take_while_wf :: "('fut, bool) pollfn \<Rightarrow> ('a \<Rightarrow> bool) \<Rightarrow> ('st, 'fut, 'c, 'a) TakeWhile \<Rightarrow> bool" where
  "take_while_wf q P m \<longleftrightarrow>
     (case tw_pending_fut m of
        None \<Rightarrow> tw_pending_item m = None
      | Some fut \<Rightarrow> \<not> tw_done_taking m \<and> (\<exists>x. tw_pending_item m = Some x \<and> resolves q fut (P x)))"

definition take_while_rest :: "('a \<Rightarrow> bool) \<Rightarrow> ('st, 'fut, 'c, 'a) TakeWhile \<Rightarrow> 'a list \<Rightarrow> 'a list" where
  "take_while_rest P m xs =
     (if tw_done_taking m then []
      else takeWhile P ((case tw_pending_item m of Some x \<Rightarrow> [x] | None \<Rightarrow> []) @ xs))"

lemma take_while_wf_new: "take_while_wf q P (take_while_new st c)"
  by (simp add: take_while_wf_def take_while_new_def)

lemma take_while_done: "tw_done_taking m \<Longrightarrow> ends (take_while_poll_next p q f) m [] m"
  by (rule ends_end) (simp add: take_while_poll_next_def)

lemma take_while_wait:
  assumes "resolves q fut b" and "\<not> tw_done_taking m"
    and "\<exists>t. ends (take_while_poll_next p q f) (m\<lparr>tw_pending_fut := None, tw_pending_item := None\<rparr>) ys t"
  shows "\<exists>t. ends (take_while_poll_next p q f) (m\<lparr>tw_pending_fut := Some fut, tw_pending_item := Some x\<rparr>)
    (if b then x # ys else []) t"
proof -
  let ?p = "take_while_poll_next p q f" and ?m = "m\<lparr>tw_pending_fut := None, tw_pending_item := None\<rparr>"
  let ?mk = "\<lambda>g. m\<lparr>tw_pending_fut := Some g, tw_pending_item := Some x\<rparr>"
  from assms(3) obtain t where t: "ends ?p ?m ys t" by blast
  have "ends ?p (?mk fut) (if b then x # ys else []) (if b then t else ?m\<lparr>tw_done_taking := True\<rparr>)"
  proof (rule ends_resolves [OF assms(1), where mk = ?mk])
    fix g g' assume g: "q g = ret (Ready b, g')"
    have "?p (?mk g) = (if b then ret (Ready (Some x), ?m) else ret (Ready None, ?m\<lparr>tw_done_taking := True\<rparr>))"
      unfolding take_while_poll_next_def by (subst take_while_loop.simps) (simp add: g assms(2))
    with t show "ends ?p (?mk g) (if b then x # ys else []) (if b then t else ?m\<lparr>tw_done_taking := True\<rparr>)"
      by (cases b) (auto intro: ends.intros)
  next
    fix g g' assume "q g = ret (Pending, g')"
    then show "?p (?mk g) = ret (Pending, ?mk g')"
      unfolding take_while_poll_next_def by (subst take_while_loop.simps) (simp add: assms(2))
  qed
  then show ?thesis by blast
qed

lemma take_while_ends_idle:
  assumes "ends p (tw_stream m) xs t" and "computes f q P"
    and "tw_pending_fut m = None" and "tw_pending_item m = None" and "\<not> tw_done_taking m"
  shows "\<exists>t'. ends (take_while_poll_next p q f) m (takeWhile P xs) t'"
  using assms(1,3-5)
proof (induction "tw_stream m" xs t arbitrary: m rule: ends.induct)
  case (ends_end t)
  then have "take_while_poll_next p q f m = ret (Ready None, m\<lparr>tw_stream := t\<rparr>)"
    unfolding take_while_poll_next_def by (subst take_while_loop.simps) simp
  then show ?case by (auto intro: ends.ends_end)
next
  case (ends_pend s' xs t)
  then have "take_while_poll_next p q f m = ret (Pending, m\<lparr>tw_stream := s'\<rparr>)"
    unfolding take_while_poll_next_def by (subst take_while_loop.simps) simp
  with ends_pend(3) [of "m\<lparr>tw_stream := s'\<rparr>"] ends_pend(4-) show ?case
    by (auto intro: ends.ends_pend)
next
  case (ends_item x s' xs t)
  obtain fut c where fc: "f (tw_f m) x = ret (fut, c)" "resolves q fut (P x)" by (rule computesE [OF assms(2)])
  let ?m = "m\<lparr>tw_stream := s', tw_f := c\<rparr>"
  have "\<exists>t'. ends (take_while_poll_next p q f) (?m\<lparr>tw_pending_fut := None, tw_pending_item := None\<rparr>) (takeWhile P xs) t'"
    by (rule ends_item(3)) (use ends_item in simp_all)
  note take_while_wait [OF fc(2) _ this, of x]
  moreover have "take_while_poll_next p q f m
      = take_while_poll_next p q f (?m\<lparr>tw_pending_fut := Some fut, tw_pending_item := Some x\<rparr>)"
    unfolding take_while_poll_next_def
    by (subst take_while_loop.simps) (simp add: ends_item fc)
  ultimately show ?case using ends_item(6) by (auto dest: ends_cong split: if_splits)
qed

lemma take_while_ends:
  assumes "ends p (tw_stream m) xs t" and "computes f q P" and "take_while_wf q P m"
  shows "\<exists>t'. ends (take_while_poll_next p q f) m (take_while_rest P m xs) t'"
proof (cases "tw_done_taking m")
  case True
  then show ?thesis by (auto simp: take_while_rest_def intro: take_while_done)
next
  case False
  show ?thesis
  proof (cases "tw_pending_fut m")
    case None
    then show ?thesis using take_while_ends_idle [OF assms(1,2)] False assms(3)
      by (simp add: take_while_wf_def take_while_rest_def)
  next
    case (Some fut)
    with assms(3) obtain x where x: "tw_pending_item m = Some x" "resolves q fut (P x)"
      by (auto simp: take_while_wf_def)
    have "\<exists>t'. ends (take_while_poll_next p q f) (m\<lparr>tw_pending_fut := None, tw_pending_item := None\<rparr>) (takeWhile P xs) t'"
      by (rule take_while_ends_idle) (use assms False in simp_all)
    from take_while_wait [OF x(2) False this, of x] Some x False show ?thesis
      by (cases m) (simp add: take_while_rest_def)
  qed
qed

lemma take_while_hint:
  assumes "hint_bounds (h (tw_stream m)) (length xs)"
  shows "hint_bounds (take_while_size_hint h m) (length (take_while_rest P m xs))"
proof -
  obtain lo hi where h: "h (tw_stream m) = (lo, hi)" by (cases "h (tw_stream m)")
  have "length (take_while_rest P m xs) \<le> length xs + unat (usize_of_bool (tw_pending_item m \<noteq> None))"
    by (auto simp: take_while_rest_def hint_simps le_SucI length_takeWhile_le split: option.splits)
  with assms show ?thesis
    by (auto simp: take_while_size_hint_def h take_while_rest_def intro: hint_upper_checked_add)
qed

lemma take_while_parked:
  fixes m' :: "('st, 'fut, 'c, 'a) TakeWhile"
  assumes "take_while_loop p q f m = ret (Pending, m')"
  shows "parked p (tw_stream m') \<and> tw_pending_fut m' = None
    \<or> (\<exists>fut. tw_pending_fut m' = Some fut \<and> parked q fut)"
  using assms [unfolded ret_def]
proof (induction p q f m "Returns (Pending :: 'a option poll, m')" rule: take_while_loop.raw_induct [rotated, consumes 1])
  case (1 rec p q f m)
  from 1(2) show ?case
    by (auto simp: poll_eq_simps split: option.splits if_splits
        intro: parkedI dest!: 1(1) [unfolded Returns_ret])
qed

section \<open>skip_while\<close>

record ('st, 'fut, 'c, 'a) SkipWhile =
  sw_stream :: 'st
  sw_f :: 'c
  sw_pending_fut :: "'fut option"
  sw_pending_item :: "'a option"
  sw_done_skipping :: bool

definition skip_while_new :: "'st \<Rightarrow> 'c \<Rightarrow> ('st, 'fut, 'c, 'a) SkipWhile" where
  "skip_while_new stream f =
     \<lparr>sw_stream = stream, sw_f = f, sw_pending_fut = None, sw_pending_item = None, sw_done_skipping = False\<rparr>"

definition skip_while_is_terminated :: "('st \<Rightarrow> bool) \<Rightarrow> ('st, 'fut, 'c, 'a) SkipWhile \<Rightarrow> bool" where
  "skip_while_is_terminated terminated this \<longleftrightarrow> sw_pending_item this = None \<and> terminated (sw_stream this)"

partial_function (option) skip_while_loop ::
  "('st, 'a option) pollfn \<Rightarrow> ('fut, bool) pollfn \<Rightarrow> ('c, 'a, 'fut) fnmut
   \<Rightarrow> (('st, 'fut, 'c, 'a) SkipWhile, 'a option) pollfn" where
  "skip_while_loop poll_next poll_fut f this =
     (case sw_pending_fut this of
        Some fut \<Rightarrow>
          ready_poll (poll_fut fut) (\<lambda>fut. this\<lparr>sw_pending_fut := Some fut\<rparr>) (\<lambda>skipped this.
            let item = sw_pending_item this;
                this = this\<lparr>sw_pending_item := None, sw_pending_fut := None\<rparr>
            in if \<not> skipped then ret (Ready item, this\<lparr>sw_done_skipping := True\<rparr>)
               else skip_while_loop poll_next poll_fut f this)
      | None \<Rightarrow>
          ready_poll (poll_next (sw_stream this)) (\<lambda>st. this\<lparr>sw_stream := st\<rparr>) (\<lambda>next this.
            case next of
              Some item \<Rightarrow>
                bindc (f (sw_f this) item) (\<lambda>(fut, c).
                  skip_while_loop poll_next poll_fut f
                    (this\<lparr>sw_f := c, sw_pending_fut := Some fut, sw_pending_item := Some item\<rparr>))
            | None \<Rightarrow> ret (Ready None, this)))"

definition skip_while_poll_next ::
  "('st, 'a option) pollfn \<Rightarrow> ('fut, bool) pollfn \<Rightarrow> ('c, 'a, 'fut) fnmut
   \<Rightarrow> (('st, 'fut, 'c, 'a) SkipWhile, 'a option) pollfn" where
  "skip_while_poll_next poll_next poll_fut f this =
     (if sw_done_skipping this
      then poll_with (poll_next (sw_stream this)) (\<lambda>st. this\<lparr>sw_stream := st\<rparr>) (\<lambda>next this. ret (next, this))
      else skip_while_loop poll_next poll_fut f this)"

definition skip_while_size_hint :: "('st \<Rightarrow> hint) \<Rightarrow> ('st, 'fut, 'c, 'a) SkipWhile \<Rightarrow> hint" where
  "skip_while_size_hint size_hint this =
     (if sw_done_skipping this then size_hint (sw_stream this)
      else
        let pending_len = usize_of_bool (sw_pending_item this \<noteq> None);
            (_, upper) = size_hint (sw_stream this);
            upper = (case upper of Some x \<Rightarrow> checked_add x pending_len | None \<Rightarrow> None)
        in (0, upper))"

definition skip_while_wf :: "('fut, bool) pollfn \<Rightarrow> ('a \<Rightarrow> bool) \<Rightarrow> ('st, 'fut, 'c, 'a) SkipWhile \<Rightarrow> bool" where
  "skip_while_wf q P m \<longleftrightarrow>
     (case sw_pending_fut m of
        None \<Rightarrow> sw_pending_item m = None
      | Some fut \<Rightarrow> \<not> sw_done_skipping m \<and> (\<exists>x. sw_pending_item m = Some x \<and> resolves q fut (P x)))"

definition skip_while_rest :: "('a \<Rightarrow> bool) \<Rightarrow> ('st, 'fut, 'c, 'a) SkipWhile \<Rightarrow> 'a list \<Rightarrow> 'a list" where
  "skip_while_rest P m xs =
     (if sw_done_skipping m then xs
      else dropWhile P ((case sw_pending_item m of Some x \<Rightarrow> [x] | None \<Rightarrow> []) @ xs))"

lemma skip_while_wf_new: "skip_while_wf q P (skip_while_new st c)"
  by (simp add: skip_while_wf_def skip_while_new_def)

lemma skip_while_ends_done:
  assumes "ends p (sw_stream m) xs t" and "sw_done_skipping m"
  shows "\<exists>t'. ends (skip_while_poll_next p q f) m xs t'"
  using assms
proof (induction "sw_stream m" xs t arbitrary: m rule: ends.induct)
  case (ends_end t)
  then have "skip_while_poll_next p q f m = ret (Ready None, m\<lparr>sw_stream := t\<rparr>)"
    by (simp add: skip_while_poll_next_def)
  then show ?case by (auto intro: ends.ends_end)
next
  case (ends_pend s' xs t)
  then have "skip_while_poll_next p q f m = ret (Pending, m\<lparr>sw_stream := s'\<rparr>)"
    by (simp add: skip_while_poll_next_def)
  with ends_pend(3) [of "m\<lparr>sw_stream := s'\<rparr>"] ends_pend(4) show ?case by (auto intro: ends.ends_pend)
next
  case (ends_item x s' xs t)
  then have "skip_while_poll_next p q f m = ret (Ready (Some x), m\<lparr>sw_stream := s'\<rparr>)"
    by (simp add: skip_while_poll_next_def)
  with ends_item(3) [of "m\<lparr>sw_stream := s'\<rparr>"] ends_item(4) show ?case by (auto intro: ends.ends_item)
qed

lemma skip_while_wait:
  assumes "resolves q fut b" and "\<not> sw_done_skipping m"
    and "\<exists>t. ends (skip_while_poll_next p q f)
      (m\<lparr>sw_pending_fut := None, sw_pending_item := None, sw_done_skipping := \<not> b\<rparr>) ys t"
  shows "\<exists>t. ends (skip_while_poll_next p q f) (m\<lparr>sw_pending_fut := Some fut, sw_pending_item := Some x\<rparr>)
    (if b then ys else x # ys) t"
proof -
  let ?p = "skip_while_poll_next p q f"
  let ?m = "m\<lparr>sw_pending_fut := None, sw_pending_item := None, sw_done_skipping := \<not> b\<rparr>"
  let ?mk = "\<lambda>g. m\<lparr>sw_pending_fut := Some g, sw_pending_item := Some x\<rparr>"
  from assms(3) obtain t where t: "ends ?p ?m ys t" by blast
  have "ends ?p (?mk fut) (if b then ys else x # ys) t"
  proof (rule ends_resolves [OF assms(1), where mk = ?mk])
    fix g g' assume g: "q g = ret (Ready b, g')"
    have "?p (?mk g) = (if b then ?p ?m else ret (Ready (Some x), ?m))"
      unfolding skip_while_poll_next_def using assms(2)
      by (subst skip_while_loop.simps) (cases m, simp add: g)
    with t show "ends ?p (?mk g) (if b then ys else x # ys) t"
      by (cases b) (auto intro: ends_item ends_cong)
  next
    fix g g' assume "q g = ret (Pending, g')"
    then show "?p (?mk g) = ret (Pending, ?mk g')"
      unfolding skip_while_poll_next_def by (subst skip_while_loop.simps) (simp add: assms(2))
  qed
  then show ?thesis by blast
qed

lemma skip_while_ends_idle:
  assumes "ends p (sw_stream m) xs t" and "computes f q P"
    and "sw_pending_fut m = None" and "sw_pending_item m = None" and "\<not> sw_done_skipping m"
  shows "\<exists>t'. ends (skip_while_poll_next p q f) m (dropWhile P xs) t'"
  using assms(1,3-5)
proof (induction "sw_stream m" xs t arbitrary: m rule: ends.induct)
  case (ends_end t)
  then have "skip_while_poll_next p q f m = ret (Ready None, m\<lparr>sw_stream := t\<rparr>)"
    unfolding skip_while_poll_next_def by (subst skip_while_loop.simps) simp
  then show ?case by (auto intro: ends.ends_end)
next
  case (ends_pend s' xs t)
  then have "skip_while_poll_next p q f m = ret (Pending, m\<lparr>sw_stream := s'\<rparr>)"
    unfolding skip_while_poll_next_def by (subst skip_while_loop.simps) simp
  with ends_pend(3) [of "m\<lparr>sw_stream := s'\<rparr>"] ends_pend(4-) show ?case
    by (auto intro: ends.ends_pend)
next
  case (ends_item x s' xs t)
  obtain fut c where fc: "f (sw_f m) x = ret (fut, c)" "resolves q fut (P x)" by (rule computesE [OF assms(2)])
  let ?m = "m\<lparr>sw_stream := s', sw_f := c\<rparr>"
  let ?idle = "?m\<lparr>sw_pending_fut := None, sw_pending_item := None, sw_done_skipping := \<not> P x\<rparr>"
  have "\<exists>t'. ends (skip_while_poll_next p q f) ?idle (if P x then dropWhile P xs else xs) t'"
  proof (cases "P x")
    case True
    then show ?thesis using ends_item(3) [of ?idle] ends_item(4-) by simp
  next
    case False
    then show ?thesis using skip_while_ends_done [where m = ?idle] ends_item(2) by simp
  qed
  note skip_while_wait [where m = ?m, OF fc(2) _ this, of x]
  moreover have "skip_while_poll_next p q f m
      = skip_while_poll_next p q f (?m\<lparr>sw_pending_fut := Some fut, sw_pending_item := Some x\<rparr>)"
    unfolding skip_while_poll_next_def
    by (subst skip_while_loop.simps) (simp add: ends_item fc)
  ultimately show ?case using ends_item(6) by (auto dest: ends_cong split: if_splits)
qed

lemma skip_while_ends:
  assumes "ends p (sw_stream m) xs t" and "computes f q P" and "skip_while_wf q P m"
  shows "\<exists>t'. ends (skip_while_poll_next p q f) m (skip_while_rest P m xs) t'"
proof (cases "sw_done_skipping m")
  case True
  then show ?thesis using skip_while_ends_done [OF assms(1)] by (simp add: skip_while_rest_def)
next
  case False
  show ?thesis
  proof (cases "sw_pending_fut m")
    case None
    then show ?thesis using skip_while_ends_idle [OF assms(1,2)] False assms(3)
      by (simp add: skip_while_wf_def skip_while_rest_def)
  next
    case (Some fut)
    with assms(3) obtain x where x: "sw_pending_item m = Some x" "resolves q fut (P x)"
      by (auto simp: skip_while_wf_def)
    let ?idle = "m\<lparr>sw_pending_fut := None, sw_pending_item := None, sw_done_skipping := \<not> P x\<rparr>"
    have "\<exists>t'. ends (skip_while_poll_next p q f) ?idle (if P x then dropWhile P xs else xs) t'"
      using skip_while_ends_idle [where m = ?idle, OF _ assms(2)] skip_while_ends_done [where m = ?idle] assms(1)
      by (cases "P x") simp_all
    from skip_while_wait [where m = m, OF x(2) False this, of x] Some x False show ?thesis
      by (cases m) (auto simp: skip_while_rest_def)
  qed
qed

lemma skip_while_hint:
  assumes "hint_bounds (h (sw_stream m)) (length xs)"
  shows "hint_bounds (skip_while_size_hint h m) (length (skip_while_rest P m xs))"
proof -
  obtain lo hi where h: "h (sw_stream m) = (lo, hi)" by (cases "h (sw_stream m)")
  have "\<not> sw_done_skipping m \<Longrightarrow>
      length (skip_while_rest P m xs) \<le> length xs + unat (usize_of_bool (sw_pending_item m \<noteq> None))"
    by (auto simp: skip_while_rest_def hint_simps le_SucI length_dropWhile_le split: option.splits)
  with assms show ?thesis
    by (auto simp: skip_while_size_hint_def h skip_while_rest_def intro: hint_upper_checked_add)
qed

lemma skip_while_parked:
  fixes m' :: "('st, 'fut, 'c, 'a) SkipWhile"
  assumes "skip_while_loop p q f m = ret (Pending, m')"
  shows "parked p (sw_stream m') \<and> sw_pending_fut m' = None
    \<or> (\<exists>fut. sw_pending_fut m' = Some fut \<and> parked q fut)"
  using assms [unfolded ret_def]
proof (induction p q f m "Returns (Pending :: 'a option poll, m')" rule: skip_while_loop.raw_induct [rotated, consumes 1])
  case (1 rec p q f m)
  from 1(2) show ?case
    by (auto simp: poll_eq_simps split: option.splits if_splits
        intro: parkedI dest!: 1(1) [unfolded Returns_ret])
qed

section \<open>take_until\<close>

record ('st, 'fut, 'r) TakeUntil =
  tu_stream :: 'st
  tu_fut :: "'fut option"
  tu_fut_result :: "'r option"
  tu_free :: bool

definition take_until_new :: "'st \<Rightarrow> 'fut \<Rightarrow> ('st, 'fut, 'r) TakeUntil" where
  "take_until_new stream fut = \<lparr>tu_stream = stream, tu_fut = Some fut, tu_fut_result = None, tu_free = False\<rparr>"

definition take_until_take_future :: "('st, 'fut, 'r) TakeUntil \<Rightarrow> 'fut option \<times> ('st, 'fut, 'r) TakeUntil" where
  "take_until_take_future this =
     (let this' = (if tu_fut this \<noteq> None then this\<lparr>tu_free := True\<rparr> else this)
      in (tu_fut this', this'\<lparr>tu_fut := None\<rparr>))"

definition take_until_take_result :: "('st, 'fut, 'r) TakeUntil \<Rightarrow> 'r option \<times> ('st, 'fut, 'r) TakeUntil" where
  "take_until_take_result this = (tu_fut_result this, this\<lparr>tu_fut_result := None\<rparr>)"

definition take_until_is_stopped :: "('st, 'fut, 'r) TakeUntil \<Rightarrow> bool" where
  "take_until_is_stopped this \<longleftrightarrow> \<not> tu_free this \<and> tu_fut this = None"

definition take_until_poll_next ::
  "('st, 'a option) pollfn \<Rightarrow> ('fut, 'r) pollfn \<Rightarrow> (('st, 'fut, 'r) TakeUntil, 'a option) pollfn" where
  "take_until_poll_next poll_next poll_fut this =
     bindc
       (case tu_fut this of
          Some f \<Rightarrow>
            poll_with (poll_fut f) (\<lambda>f. this\<lparr>tu_fut := Some f\<rparr>) (\<lambda>r this.
              case r of
                Ready result \<Rightarrow> ret (this\<lparr>tu_fut := None, tu_fut_result := Some result\<rparr>)
              | Pending \<Rightarrow> ret this)
        | None \<Rightarrow> ret this)
       (\<lambda>this.
          if \<not> tu_free this \<and> tu_fut this = None then ret (Ready None, this)
          else ready_poll (poll_next (tu_stream this)) (\<lambda>st. this\<lparr>tu_stream := st\<rparr>) (\<lambda>item this.
            ret (Ready item, if item = None then this\<lparr>tu_fut := None\<rparr> else this)))"

definition take_until_size_hint :: "('st \<Rightarrow> hint) \<Rightarrow> ('st, 'fut, 'r) TakeUntil \<Rightarrow> hint" where
  "take_until_size_hint size_hint this =
     (if take_until_is_stopped this then (0, Some 0) else size_hint (tu_stream this))"

text \<open>When the future completes the stream is cut off, whatever the inner stream has left.\<close>

lemma take_until_stopped:
  "take_until_is_stopped m \<Longrightarrow> ends (take_until_poll_next p q) m [] m"
  by (rule ends_end) (auto simp: take_until_poll_next_def take_until_is_stopped_def)

lemma take_until_cut:
  assumes "tu_fut m = Some fut" and "q fut = ret (Ready r, fut')" and "\<not> tu_free m"
  shows "take_until_poll_next p q m = ret (Ready None, m\<lparr>tu_fut := None, tu_fut_result := Some r\<rparr>)"
  using assms by (simp add: take_until_poll_next_def)

lemma take_until_ends:
  assumes "ends p (tu_stream m) xs t" and "\<And>fut. \<exists>r. q fut = ret r"
    and "tu_fut m \<noteq> None \<Longrightarrow> \<not> tu_free m"
  shows "\<exists>ys t'. ends (take_until_poll_next p q) m ys t' \<and> (\<exists>zs. xs = ys @ zs)"
  using assms(1,3)
proof (induction "tu_stream m" xs t arbitrary: m rule: ends.induct)
  case (ends_end t)
  have "\<exists>t'. take_until_poll_next p q m = ret (Ready None, t')"
  proof (cases "tu_fut m")
    case (Some fut)
    obtain r fut' where "q fut = ret (r, fut')" using assms(2) [of fut] by auto
    with Some ends_end show ?thesis by (cases r) (auto simp: take_until_poll_next_def)
  qed (use ends_end in \<open>auto simp: take_until_poll_next_def\<close>)
  then show ?case by (auto intro: ends.ends_end)
next
  case (ends_pend s' xs t)
  show ?case
  proof (cases "\<exists>fut r fut'. tu_fut m = Some fut \<and> q fut = ret (Ready r, fut')")
    case True
    with ends_pend(4) obtain t' where "take_until_poll_next p q m = ret (Ready None, t')"
      by (auto dest: take_until_cut)
    then show ?thesis by (auto intro: ends.ends_end)
  next
    case False
    show ?thesis
    proof (cases "take_until_is_stopped m")
      case True
      then show ?thesis by (auto dest: take_until_stopped)
    next
      case False': False
      obtain o' where o': "take_until_poll_next p q m = ret (Pending, m\<lparr>tu_fut := o', tu_stream := s'\<rparr>)"
        "o' \<noteq> None \<Longrightarrow> tu_fut m \<noteq> None"
      proof (cases "tu_fut m")
        case None
        with False' ends_pend show ?thesis
          by (intro that [of None]) (cases m, auto simp: take_until_poll_next_def take_until_is_stopped_def)
      next
        case (Some fut)
        obtain r fut' where "q fut = ret (r, fut')" using assms(2) [of fut] by auto
        with Some False ends_pend show ?thesis
          by (intro that [of "Some fut'"]) (cases r; cases m; auto simp: take_until_poll_next_def)+
      qed
      obtain ys t' zs where "ends (take_until_poll_next p q) (m\<lparr>tu_fut := o', tu_stream := s'\<rparr>) ys t'" "xs = ys @ zs"
        using ends_pend(3) [of "m\<lparr>tu_fut := o', tu_stream := s'\<rparr>"] ends_pend(4) o'(2) by auto
      with o'(1) show ?thesis by (blast intro: ends.ends_pend)
    qed
  qed
next
  case (ends_item x s' xs t)
  show ?case
  proof (cases "(\<exists>fut r fut'. tu_fut m = Some fut \<and> q fut = ret (Ready r, fut')) \<or> take_until_is_stopped m")
    case True
    with ends_item(4) obtain t' where "take_until_poll_next p q m = ret (Ready None, t')"
      by (auto dest: take_until_cut simp: take_until_is_stopped_def take_until_poll_next_def)
    then have "ends (take_until_poll_next p q) m [] t'" by (rule ends.ends_end)
    then show ?thesis by auto
  next
    case False
    obtain o' where o': "take_until_poll_next p q m = ret (Ready (Some x), m\<lparr>tu_fut := o', tu_stream := s'\<rparr>)"
      "o' \<noteq> None \<Longrightarrow> tu_fut m \<noteq> None"
    proof (cases "tu_fut m")
      case None
      with False ends_item show ?thesis
        by (intro that [of None]) (cases m, auto simp: take_until_poll_next_def take_until_is_stopped_def)
    next
      case (Some fut)
      obtain r fut' where "q fut = ret (r, fut')" using assms(2) [of fut] by auto
      with Some False ends_item show ?thesis
        by (intro that [of "Some fut'"]) (cases r; cases m; auto simp: take_until_poll_next_def)+
    qed
    obtain ys t' zs where "ends (take_until_poll_next p q) (m\<lparr>tu_fut := o', tu_stream := s'\<rparr>) ys t'" "xs = ys @ zs"
      using ends_item(3) [of "m\<lparr>tu_fut := o', tu_stream := s'\<rparr>"] ends_item(4) o'(2) by auto
    with o'(1) have "ends (take_until_poll_next p q) m (x # ys) t' \<and> x # xs = (x # ys) @ zs"
      by (auto intro: ends.ends_item)
    then show ?thesis by blast
  qed
qed

lemma take_until_hint_upper:
  assumes "hint_upper (snd (h (tu_stream m))) (length (ys @ zs))"
  shows "take_until_is_stopped m \<or> hint_upper (snd (take_until_size_hint h m)) (length ys)"
  using assms by (auto simp: take_until_size_hint_def elim: hint_upper_mono)

text \<open>
  The lower bound is the inner stream's and does not hold: the future can be ready at once, and then
  nothing is yielded.
\<close>

lemma take_until_hint_lower_refuted:
  "\<exists>m :: (nat Iter, nat option, nat) TakeUntil. \<exists>t.
     m = take_until_new (iter [1, 2, 3]) (Some 7) \<and> ends (take_until_poll_next iter_poll_next ready_poll_fut) m [] t
     \<and> \<not> hint_bounds (take_until_size_hint iter_size_hint m) (length ([] :: nat list))"
proof (intro exI conjI)
  show "ends (take_until_poll_next iter_poll_next ready_poll_fut) (take_until_new (iter [1, 2, 3]) (Some 7)) []
      \<lparr>tu_stream = iter [1, 2, 3 :: nat], tu_fut = None, tu_fut_result = Some (7 :: nat), tu_free = False\<rparr>"
    by (rule ends_end) (simp add: take_until_poll_next_def take_until_new_def ready_poll_fut_def)
  show "\<not> hint_bounds (take_until_size_hint iter_size_hint (take_until_new (iter [1, 2, 3 :: nat]) (Some (7 :: nat))
      :: (nat Iter, nat option, nat) TakeUntil)) (length ([] :: nat list))"
    by (simp add: take_until_size_hint_def take_until_is_stopped_def take_until_new_def iter_size_hint_def iter_def)
qed simp

lemma take_until_parked:
  assumes "take_until_poll_next p q m = ret (Pending, m')"
  shows "parked p (tu_stream m') \<and> (\<forall>fut. tu_fut m' = Some fut \<longrightarrow> parked q fut)"
proof (cases "tu_fut m")
  case None
  with assms show ?thesis
    by (auto simp: take_until_poll_next_def poll_eq_simps split: if_splits intro: parkedI)
next
  case (Some fut)
  with assms obtain r g where g: "q fut = ret (r, g)"
    by (auto simp: take_until_poll_next_def poll_eq_simps)
  with Some assms show ?thesis
    by (cases r) (auto simp: take_until_poll_next_def poll_eq_simps split: if_splits intro: parkedI)
qed

end
