(* ===== verification/Stream_Map.thy ===== *)
theory Stream_Map
  imports Poll_Core
begin

text \<open>
  The stream adapters that transform or combine whole streams,
  \<open>futures-util/src/stream/stream/{map, then, enumerate, scan, fuse, chain, flatten, zip, cycle}.rs\<close>,
  with the run of each over any run of its inner streams and futures, and the soundness of its
  \<open>size_hint\<close>. \<open>Scan::size_hint\<close> is not sound, and a lemma says where.
\<close>

section \<open>map\<close>

record ('st, 'c) Map =
  map_stream :: 'st
  map_f :: 'c

definition map_new :: "'st \<Rightarrow> 'c \<Rightarrow> ('st, 'c) Map" where
  "map_new stream f = \<lparr>map_stream = stream, map_f = f\<rparr>"

definition map_is_terminated :: "('st \<Rightarrow> bool) \<Rightarrow> ('st, 'c) Map \<Rightarrow> bool" where
  "map_is_terminated terminated this = terminated (map_stream this)"

definition map_poll_next ::
  "('st, 'a option) pollfn \<Rightarrow> ('c, 'a, 'b) fnmut \<Rightarrow> (('st, 'c) Map, 'b option) pollfn" where
  "map_poll_next poll_next f this =
     ready_poll (poll_next (map_stream this)) (\<lambda>st. this\<lparr>map_stream := st\<rparr>) (\<lambda>res this.
       case res of
         Some x \<Rightarrow> bindc (f (map_f this) x) (\<lambda>(y, c). ret (Ready (Some y), this\<lparr>map_f := c\<rparr>))
       | None \<Rightarrow> ret (Ready None, this))"

definition map_size_hint :: "('st \<Rightarrow> hint) \<Rightarrow> ('st, 'c) Map \<Rightarrow> hint" where
  "map_size_hint size_hint this = size_hint (map_stream this)"

lemma map_ends:
  assumes "ends p (map_stream m) xs t" and "calls f (map_f m) xs ys c"
  shows "ends (map_poll_next p f) m ys \<lparr>map_stream = t, map_f = c\<rparr>"
  using assms
proof (induction "map_stream m" xs t arbitrary: m ys rule: ends.induct)
  case (ends_end t)
  from ends_end(2) have "ys = []" "c = map_f m" by (auto elim: calls_NilE)
  with ends_end(1) show ?case by (cases m) (auto simp: map_poll_next_def intro!: ends.ends_end)
next
  case (ends_pend s' xs t)
  then have "map_poll_next p f m = ret (Pending, m\<lparr>map_stream := s'\<rparr>)" by (simp add: map_poll_next_def)
  with ends_pend(3) [of "m\<lparr>map_stream := s'\<rparr>"] ends_pend(4) show ?case by (auto intro: ends.ends_pend)
next
  case (ends_item x s' xs t)
  from ends_item(4) obtain y c' ys' where f: "f (map_f m) x = ret (y, c')" "calls f c' xs ys' c" "ys = y # ys'"
    by (auto elim: calls_ConsE)
  let ?m = "m\<lparr>map_stream := s', map_f := c'\<rparr>"
  from f(1) ends_item(1) have "map_poll_next p f m = ret (Ready (Some y), ?m)" by (simp add: map_poll_next_def)
  with ends_item(3) [of ?m] f show ?case by (auto intro: ends.ends_item)
qed

lemma map_hint:
  assumes "hint_bounds (h (map_stream m)) (length xs)" and "calls f (map_f m) xs ys c"
  shows "hint_bounds (map_size_hint h m) (length ys)"
  using assms by (simp add: map_size_hint_def calls_length)

lemma map_parked: "map_poll_next p f m = ret (Pending, m') \<Longrightarrow> parked p (map_stream m')"
  by (auto simp: map_poll_next_def poll_eq_simps split: option.splits intro: parkedI)

section \<open>then\<close>

record ('st, 'fut, 'c) Then =
  then_stream :: 'st
  then_future :: "'fut option"
  then_f :: 'c

definition then_new :: "'st \<Rightarrow> 'c \<Rightarrow> ('st, 'fut, 'c) Then" where
  "then_new stream f = \<lparr>then_stream = stream, then_future = None, then_f = f\<rparr>"

definition then_is_terminated :: "('st \<Rightarrow> bool) \<Rightarrow> ('st, 'fut, 'c) Then \<Rightarrow> bool" where
  "then_is_terminated terminated this \<longleftrightarrow> then_future this = None \<and> terminated (then_stream this)"

partial_function (option) then_poll_next ::
  "('st, 'a option) pollfn \<Rightarrow> ('fut, 'b) pollfn \<Rightarrow> ('c, 'a, 'fut) fnmut
   \<Rightarrow> (('st, 'fut, 'c) Then, 'b option) pollfn" where
  "then_poll_next poll_next poll_fut f this =
     (case then_future this of
        Some fut \<Rightarrow>
          ready_poll (poll_fut fut) (\<lambda>fut. this\<lparr>then_future := Some fut\<rparr>)
            (\<lambda>item this. ret (Ready (Some item), this\<lparr>then_future := None\<rparr>))
      | None \<Rightarrow>
          ready_poll (poll_next (then_stream this)) (\<lambda>st. this\<lparr>then_stream := st\<rparr>) (\<lambda>next this.
            case next of
              Some item \<Rightarrow>
                bindc (f (then_f this) item) (\<lambda>(fut, c).
                  then_poll_next poll_next poll_fut f (this\<lparr>then_f := c, then_future := Some fut\<rparr>))
            | None \<Rightarrow> ret (Ready None, this)))"

definition then_size_hint :: "('st \<Rightarrow> hint) \<Rightarrow> ('st, 'fut, 'c) Then \<Rightarrow> hint" where
  "then_size_hint size_hint this =
     (let future_len = usize_of_bool (then_future this \<noteq> None);
          (lower, upper) = size_hint (then_stream this);
          lower = saturating_add lower future_len;
          upper = (case upper of Some x \<Rightarrow> checked_add x future_len | None \<Rightarrow> None)
      in (lower, upper))"

lemma then_wait:
  assumes "resolves q fut y" and "\<exists>t. ends (then_poll_next p q f) (m\<lparr>then_future := None\<rparr>) ys t"
  shows "\<exists>t. ends (then_poll_next p q f) (m\<lparr>then_future := Some fut\<rparr>) (y # ys) t"
proof -
  let ?mk = "\<lambda>g. m\<lparr>then_future := Some g\<rparr>"
  from assms(2) obtain t where t: "ends (then_poll_next p q f) (m\<lparr>then_future := None\<rparr>) ys t" by blast
  have "ends (then_poll_next p q f) (?mk fut) (y # ys) t"
  proof (rule ends_resolves [OF assms(1), where mk = ?mk])
    fix g g' assume g: "q g = ret (Ready y, g')"
    have "then_poll_next p q f (?mk g) = ret (Ready (Some y), m\<lparr>then_future := None\<rparr>)"
      by (subst then_poll_next.simps) (simp add: g)
    with t show "ends (then_poll_next p q f) (?mk g) (y # ys) t" by (rule ends_item [rotated])
  qed (subst then_poll_next.simps, simp)
  then show ?thesis by blast
qed

lemma then_ends_idle:
  assumes "ends p (then_stream m) xs t" and "computes f q g" and "then_future m = None"
  shows "\<exists>t'. ends (then_poll_next p q f) m (map g xs) t'"
  using assms(1,3)
proof (induction "then_stream m" xs t arbitrary: m rule: ends.induct)
  case (ends_end t)
  then have "then_poll_next p q f m = ret (Ready None, m\<lparr>then_stream := t\<rparr>)"
    by (subst then_poll_next.simps) simp
  then show ?case by (auto intro: ends.ends_end)
next
  case (ends_pend s' xs t)
  then have "then_poll_next p q f m = ret (Pending, m\<lparr>then_stream := s'\<rparr>)"
    by (subst then_poll_next.simps) simp
  with ends_pend(3) [of "m\<lparr>then_stream := s'\<rparr>"] ends_pend(4) show ?case by (auto intro: ends.ends_pend)
next
  case (ends_item x s' xs t)
  obtain fut c where fc: "f (then_f m) x = ret (fut, c)" "resolves q fut (g x)" by (rule computesE [OF assms(2)])
  let ?m = "m\<lparr>then_stream := s', then_f := c\<rparr>"
  have "\<exists>t'. ends (then_poll_next p q f) (?m\<lparr>then_future := None\<rparr>) (map g xs) t'"
    by (rule ends_item(3)) simp_all
  note then_wait [OF fc(2) this]
  moreover have "then_poll_next p q f m = then_poll_next p q f (?m\<lparr>then_future := Some fut\<rparr>)"
    by (subst then_poll_next.simps) (simp add: ends_item fc)
  ultimately show ?case by (auto dest: ends_cong)
qed

lemma then_ends:
  assumes "ends p (then_stream m) xs t" and "computes f q g"
    and "\<And>fut. then_future m = Some fut \<Longrightarrow> resolves q fut y"
  shows "\<exists>t'. ends (then_poll_next p q f) m ((if then_future m \<noteq> None then [y] else []) @ map g xs) t'"
proof (cases "then_future m")
  case None
  then show ?thesis using then_ends_idle [OF assms(1,2)] by simp
next
  case (Some fut)
  have "\<exists>t'. ends (then_poll_next p q f) (m\<lparr>then_future := None\<rparr>) (map g xs) t'"
    by (rule then_ends_idle) (use assms in simp_all)
  from then_wait [OF assms(3) [OF Some] this] Some show ?thesis by (cases m) simp
qed

lemma then_hint:
  assumes "hint_bounds (h (then_stream m)) (length xs)"
  shows "hint_bounds (then_size_hint h m) (length ((if then_future m \<noteq> None then [y] else []) @ map g xs))"
proof -
  obtain lo hi where h: "h (then_stream m) = (lo, hi)" by (cases "h (then_stream m)")
  with assms have "hint_upper hi (length xs)" "unat lo \<le> length xs" by auto
  then show ?thesis
    by (auto simp: then_size_hint_def h Let_def hint_simps intro!: hint_upper_checked_add)
qed

lemma then_parked:
  fixes m' :: "('st, 'fut, 'c) Then" and f :: "('c, 'a, 'fut) fnmut" and q :: "('fut, 'b) pollfn"
  assumes "then_poll_next p q f m = ret (Pending, m')"
  shows "parked p (then_stream m') \<and> then_future m' = None
    \<or> (\<exists>fut. then_future m' = Some fut \<and> parked q fut)"
  using assms [unfolded ret_def]
proof (induction p q f m "Returns (Pending :: 'b option poll, m')" rule: then_poll_next.raw_induct [rotated, consumes 1])
  case (1 rec p q f m)
  from 1(2) show ?case
    by (auto simp: poll_eq_simps split: option.splits if_splits
        intro: parkedI dest!: 1(1) [unfolded Returns_ret])
qed

section \<open>enumerate\<close>

record 'st Enumerate =
  en_stream :: 'st
  en_count :: usize

definition enumerate_new :: "'st \<Rightarrow> 'st Enumerate" where
  "enumerate_new stream = \<lparr>en_stream = stream, en_count = 0\<rparr>"

definition enumerate_is_terminated :: "('st \<Rightarrow> bool) \<Rightarrow> 'st Enumerate \<Rightarrow> bool" where
  "enumerate_is_terminated terminated this = terminated (en_stream this)"

definition enumerate_poll_next :: "('st, 'a option) pollfn \<Rightarrow> ('st Enumerate, (usize \<times> 'a) option) pollfn" where
  "enumerate_poll_next poll_next this =
     ready_poll (poll_next (en_stream this)) (\<lambda>st. this\<lparr>en_stream := st\<rparr>) (\<lambda>next this.
       case next of
         Some item \<Rightarrow>
           let prev_count = en_count this in
           bindc (add_usize (en_count this) 1) (\<lambda>count.
             ret (Ready (Some (prev_count, item)), this\<lparr>en_count := count\<rparr>))
       | None \<Rightarrow> ret (Ready None, this))"

definition enumerate_size_hint :: "('st \<Rightarrow> hint) \<Rightarrow> 'st Enumerate \<Rightarrow> hint" where
  "enumerate_size_hint size_hint this = size_hint (en_stream this)"

text \<open>The items are paired with their index, and the counter overflows only at \<open>2 ^ 64\<close> items.\<close>

lemma enumerate_ends:
  assumes "ends p (en_stream m) xs t" and "unat (en_count m) + length xs < 2 ^ 64"
  shows "\<exists>t'. ends (enumerate_poll_next p) m
    (zip (map word_of_nat [unat (en_count m)..<unat (en_count m) + length xs]) xs) t'"
  using assms
proof (induction "en_stream m" xs t arbitrary: m rule: ends.induct)
  case (ends_end t)
  then have "enumerate_poll_next p m = ret (Ready None, m\<lparr>en_stream := t\<rparr>)" by (simp add: enumerate_poll_next_def)
  then show ?case by (auto intro: ends.ends_end)
next
  case (ends_pend s' xs t)
  then have "enumerate_poll_next p m = ret (Pending, m\<lparr>en_stream := s'\<rparr>)" by (simp add: enumerate_poll_next_def)
  with ends_pend(3) [of "m\<lparr>en_stream := s'\<rparr>"] ends_pend(4) show ?case by (auto intro: ends.ends_pend)
next
  case (ends_item x s' xs t)
  let ?c = "en_count m" and ?m = "m\<lparr>en_stream := s', en_count := en_count m + 1\<rparr>"
  have c: "unat (?c + 1) = unat ?c + 1" using ends_item(4) by (subst unat_add_usize) auto
  have "enumerate_poll_next p m = ret (Ready (Some (?c, x)), ?m)"
    using ends_item(1,4) by (simp add: enumerate_poll_next_def add_usize_def checked_add_def)
  moreover obtain t' where "ends (enumerate_poll_next p) ?m
      (zip (map word_of_nat [unat (?c + 1)..<unat (?c + 1) + length xs]) xs) t'"
    using ends_item(3) [of ?m] ends_item(4) c by auto
  moreover have "[unat ?c..<unat ?c + length (x # xs)] = unat ?c # [unat (?c + 1)..<unat (?c + 1) + length xs]"
    by (subst upt_rec) (simp add: c)
  ultimately show ?case by (auto intro: ends.ends_item)
qed

lemma enumerate_hint:
  "hint_bounds (h (en_stream m)) (length xs) \<Longrightarrow> length is = length xs \<Longrightarrow>
   hint_bounds (enumerate_size_hint h m) (length (zip is xs))"
  by (simp add: enumerate_size_hint_def)

lemma enumerate_parked: "enumerate_poll_next p m = ret (Pending, m') \<Longrightarrow> parked p (en_stream m')"
  by (auto simp: enumerate_poll_next_def poll_eq_simps split: option.splits intro: parkedI)

section \<open>scan\<close>

record ('st, 's, 'fut, 'c) Scan =
  sc_stream :: 'st
  sc_f :: 'c
  sc_state :: "('s, 'fut) UnfoldState"

definition scan_new :: "'st \<Rightarrow> 's \<Rightarrow> 'c \<Rightarrow> ('st, 's, 'fut, 'c) Scan" where
  "scan_new stream initial_state f = \<lparr>sc_stream = stream, sc_f = f, sc_state = UnfoldValue initial_state\<rparr>"

definition scan_is_done_taking :: "('st, 's, 'fut, 'c) Scan \<Rightarrow> bool" where
  "scan_is_done_taking this = unfold_is_empty (sc_state this)"

partial_function (option) scan_loop ::
  "('st, 'a option) pollfn \<Rightarrow> ('fut, ('s \<times> 'b) option) pollfn \<Rightarrow> ('c, 's \<times> 'a, 'fut) fnmut
   \<Rightarrow> (('st, 's, 'fut, 'c) Scan, 'b option) pollfn" where
  "scan_loop poll_next poll_fut f this =
     (case unfold_project_future (sc_state this) of
        Some fut \<Rightarrow>
          ready_poll (poll_fut fut) (\<lambda>fut. this\<lparr>sc_state := UnfoldFuture fut\<rparr>) (\<lambda>r this.
            case r of
              None \<Rightarrow> ret (Ready None, this\<lparr>sc_state := UnfoldEmpty\<rparr>)
            | Some (state, item) \<Rightarrow> ret (Ready (Some item), this\<lparr>sc_state := UnfoldValue state\<rparr>))
      | None \<Rightarrow>
          ready_poll (poll_next (sc_stream this)) (\<lambda>st. this\<lparr>sc_stream := st\<rparr>) (\<lambda>next this.
            case next of
              Some item \<Rightarrow>
                (case unfold_take_value (sc_state this) of
                   (Some state, u) \<Rightarrow>
                     bindc (f (sc_f this) (state, item)) (\<lambda>(fut, c).
                       scan_loop poll_next poll_fut f (this\<lparr>sc_f := c, sc_state := UnfoldFuture fut\<rparr>))
                 | (None, u) \<Rightarrow> panic ''called Option::unwrap() on a None value'')
            | None \<Rightarrow> ret (Ready None, this)))"

definition scan_poll_next ::
  "('st, 'a option) pollfn \<Rightarrow> ('fut, ('s \<times> 'b) option) pollfn \<Rightarrow> ('c, 's \<times> 'a, 'fut) fnmut
   \<Rightarrow> (('st, 's, 'fut, 'c) Scan, 'b option) pollfn" where
  "scan_poll_next poll_next poll_fut f this =
     (if scan_is_done_taking this then ret (Ready None, this) else scan_loop poll_next poll_fut f this)"

definition scan_size_hint :: "('st \<Rightarrow> hint) \<Rightarrow> ('st, 's, 'fut, 'c) Scan \<Rightarrow> hint" where
  "scan_size_hint size_hint this = (if scan_is_done_taking this then (0, Some 0) else size_hint (sc_stream this))"

definition scan_is_terminated :: "('st \<Rightarrow> bool) \<Rightarrow> ('st, 's, 'fut, 'c) Scan \<Rightarrow> bool" where
  "scan_is_terminated terminated this \<longleftrightarrow>
     scan_is_done_taking this \<or> \<not> unfold_is_future (sc_state this) \<and> terminated (sc_stream this)"

text \<open>The list \<open>scan\<close> computes: the state goes through the items, the first \<open>None\<close> ends it.\<close>

fun scan_list :: "('s \<times> 'a \<Rightarrow> ('s \<times> 'b) option) \<Rightarrow> 's \<Rightarrow> 'a list \<Rightarrow> 'b list" where
  "scan_list g s [] = []"
| "scan_list g s (x # xs) = (case g (s, x) of None \<Rightarrow> [] | Some (s', y) \<Rightarrow> y # scan_list g s' xs)"

lemmas scan_simps = scan_poll_next_def scan_is_done_taking_def unfold_is_empty_def unfold_is_future_def
  unfold_take_value_def unfold_project_future_def

lemma scan_wait:
  assumes "resolves q fut r"
    and "\<And>s y. r = Some (s, y) \<Longrightarrow> \<exists>t. ends (scan_poll_next p q f) (m\<lparr>sc_state := UnfoldValue s\<rparr>) ys t"
  shows "\<exists>t. ends (scan_poll_next p q f) (m\<lparr>sc_state := UnfoldFuture fut\<rparr>)
    (case r of None \<Rightarrow> [] | Some (s, y) \<Rightarrow> y # ys) t"
proof -
  let ?p = "scan_poll_next p q f" and ?mk = "\<lambda>g. m\<lparr>sc_state := UnfoldFuture g\<rparr>"
  have step: "q g = ret (Ready r, g') \<Longrightarrow> ?p (?mk g) = (case r of
      None \<Rightarrow> ret (Ready None, m\<lparr>sc_state := UnfoldEmpty\<rparr>)
    | Some (s, y) \<Rightarrow> ret (Ready (Some y), m\<lparr>sc_state := UnfoldValue s\<rparr>))" for g g'
    by (simp add: scan_simps, subst scan_loop.simps, simp add: scan_simps split: option.splits prod.splits)
  have pend: "q g = ret (Pending, g') \<Longrightarrow> ?p (?mk g) = ret (Pending, ?mk g')" for g g'
    by (simp add: scan_simps, subst scan_loop.simps, simp add: scan_simps)
  show ?thesis
  proof (cases r)
    case None
    have "ends ?p (?mk fut) [] (m\<lparr>sc_state := UnfoldEmpty\<rparr>)"
    proof (rule ends_resolves [where mk = ?mk, OF assms(1)])
      fix g g' assume "q g = ret (Ready r, g')"
      from step [OF this] None show "ends ?p (?mk g) [] (m\<lparr>sc_state := UnfoldEmpty\<rparr>)" by (simp add: ends_end)
    qed (rule pend)
    with None show ?thesis by auto
  next
    case (Some a)
    obtain s y where r: "r = Some (s, y)" using Some by (cases a) auto
    obtain t where t: "ends ?p (m\<lparr>sc_state := UnfoldValue s\<rparr>) ys t" using assms(2) r by blast
    have "ends ?p (?mk fut) (y # ys) t"
    proof (rule ends_resolves [where mk = ?mk, OF assms(1)])
      fix g g' assume "q g = ret (Ready r, g')"
      from step [OF this] r have "?p (?mk g) = ret (Ready (Some y), m\<lparr>sc_state := UnfoldValue s\<rparr>)" by simp
      then show "ends ?p (?mk g) (y # ys) t" using t by (rule ends_item)
    qed (rule pend)
    with r show ?thesis by auto
  qed
qed

lemma scan_ends_idle:
  assumes "ends p (sc_stream m) xs t" and "computes f q g" and "sc_state m = UnfoldValue s"
  shows "\<exists>t'. ends (scan_poll_next p q f) m (scan_list g s xs) t'"
  using assms(1,3)
proof (induction "sc_stream m" xs t arbitrary: m s rule: ends.induct)
  case (ends_end t)
  then have "scan_poll_next p q f m = ret (Ready None, m\<lparr>sc_stream := t\<rparr>)"
    by (simp add: scan_simps, subst scan_loop.simps, simp add: scan_simps)
  then show ?case by (auto intro: ends.ends_end)
next
  case (ends_pend s' xs t)
  then have "scan_poll_next p q f m = ret (Pending, m\<lparr>sc_stream := s'\<rparr>)"
    by (simp add: scan_simps, subst scan_loop.simps, simp add: scan_simps)
  with ends_pend(3) [of "m\<lparr>sc_stream := s'\<rparr>" s] ends_pend(4) show ?case by (auto intro: ends.ends_pend)
next
  case (ends_item x s' xs t)
  obtain fut c where fc: "f (sc_f m) (s, x) = ret (fut, c)" "resolves q fut (g (s, x))"
    by (rule computesE [OF assms(2)])
  let ?m = "m\<lparr>sc_stream := s', sc_f := c\<rparr>"
  have "scan_poll_next p q f m = scan_poll_next p q f (?m\<lparr>sc_state := UnfoldFuture fut\<rparr>)"
    using ends_item(1,4) fc(1) by (simp add: scan_simps, subst scan_loop.simps, simp add: scan_simps)
  moreover have "\<exists>t. ends (scan_poll_next p q f) (?m\<lparr>sc_state := UnfoldFuture fut\<rparr>) (scan_list g s (x # xs)) t"
  proof (cases "g (s, x)")
    case None
    then show ?thesis using scan_wait [where m = ?m, OF fc(2), of p f "[]"] by simp
  next
    case (Some a)
    obtain s1 y where a: "a = (s1, y)" by (cases a)
    have "\<exists>t. ends (scan_poll_next p q f) (?m\<lparr>sc_state := UnfoldValue s1\<rparr>) (scan_list g s1 xs) t"
      by (rule ends_item(3)) simp_all
    with scan_wait [where m = ?m, OF fc(2), of p f "scan_list g s1 xs"] Some a show ?thesis by simp
  qed
  ultimately show ?case by (auto dest: ends_cong)
qed

lemma scan_ends:
  assumes "ends p st xs t" and "computes f q g"
  shows "\<exists>t'. ends (scan_poll_next p q f) (scan_new st s c) (scan_list g s xs) t'"
  by (rule scan_ends_idle) (use assms in \<open>simp_all add: scan_new_def\<close>)

text \<open>
  \<open>size_hint\<close> returns the inner stream's bounds. The upper bound holds between two items; the lower
  one does not hold, since the closure can end the stream, as the comment in the code says itself;
  and while a future is in progress the upper bound misses the item it will yield.
\<close>

lemma scan_list_length: "length (scan_list g s xs) \<le> length xs"
  by (induction g s xs rule: scan_list.induct) (auto split: option.splits)

lemma scan_hint_upper:
  assumes "hint_upper (snd (h (sc_stream m))) (length xs)" and "sc_state m = UnfoldValue s"
  shows "hint_upper (snd (scan_size_hint h m)) (length (scan_list g s xs))"
  using assms hint_upper_mono [OF _ scan_list_length]
  by (auto simp: scan_size_hint_def scan_simps)

abbreviation scan_stop :: "(unit, nat \<times> nat, (nat \<times> nat) option option) fnmut" where
  "scan_stop \<equiv> \<lambda>c x. ret (Some None, c)"

lemma scan_hint_lower_refuted:
  "\<exists>m :: (nat Iter, nat, (nat \<times> nat) option option, unit) Scan. \<exists>t.
     m = scan_new (iter [1, 2, 3]) 0 () \<and> ends (scan_poll_next iter_poll_next ready_poll_fut scan_stop) m [] t
     \<and> \<not> hint_bounds (scan_size_hint iter_size_hint m) 0"
proof -
  let ?m = "scan_new (iter [1, 2, 3]) 0 () :: (nat Iter, nat, (nat \<times> nat) option option, unit) Scan"
  have "computes scan_stop ready_poll_fut (\<lambda>_. None)"
    by (auto simp: computes_def ready_poll_fut_def intro: resolves_ready)
  from scan_ends [OF iter_ends this, of "[1, 2, 3]" 0 "()"] obtain t where
    "ends (scan_poll_next iter_poll_next ready_poll_fut scan_stop) ?m [] t" by auto
  moreover have "\<not> hint_bounds (scan_size_hint iter_size_hint ?m) 0"
    by (simp add: scan_size_hint_def scan_new_def scan_simps iter_size_hint_def iter_def)
  ultimately show ?thesis by blast
qed

lemma scan_hint_upper_refuted:
  "\<exists>m :: (nat Iter, nat, (nat \<times> nat) option option, unit) Scan. \<exists>t.
     m = \<lparr>sc_stream = iter [], sc_f = (), sc_state = UnfoldFuture (Some (Some (0, 7)))\<rparr>
     \<and> ends (scan_poll_next iter_poll_next ready_poll_fut scan_stop) m [7] t
     \<and> \<not> hint_bounds (scan_size_hint iter_size_hint m) 1"
proof -
  let ?m = "\<lparr>sc_stream = iter [], sc_f = (), sc_state = UnfoldFuture (Some (Some (0, 7)))\<rparr>
    :: (nat Iter, nat, (nat \<times> nat) option option, unit) Scan"
  let ?p = "scan_poll_next iter_poll_next ready_poll_fut scan_stop"
  let ?n = "?m\<lparr>sc_state := UnfoldValue 0\<rparr>"
  have "?p ?m = ret (Ready (Some 7), ?n)"
    by (simp add: scan_simps, subst scan_loop.simps, simp add: scan_simps ready_poll_fut_def)
  moreover have "?p ?n = ret (Ready None, ?n)"
    by (simp add: scan_simps, subst scan_loop.simps, simp add: scan_simps iter_poll_next_def iter_def)
  ultimately have "ends ?p ?m [7] ?n" by (blast intro: ends.intros)
  moreover have "\<not> hint_bounds (scan_size_hint iter_size_hint ?m) 1"
    by (simp add: scan_size_hint_def scan_simps iter_size_hint_def iter_def)
  ultimately show ?thesis by blast
qed

section \<open>fuse\<close>

record 'st Fuse =
  fuse_stream :: 'st
  fuse_done :: bool

definition fuse_new :: "'st \<Rightarrow> 'st Fuse" where
  "fuse_new stream = \<lparr>fuse_stream = stream, fuse_done = False\<rparr>"

definition fuse_is_done :: "'st Fuse \<Rightarrow> bool" where
  "fuse_is_done this = fuse_done this"

definition fuse_is_terminated :: "'st Fuse \<Rightarrow> bool" where
  "fuse_is_terminated this = fuse_done this"

definition fuse_poll_next :: "('st, 'a option) pollfn \<Rightarrow> ('st Fuse, 'a option) pollfn" where
  "fuse_poll_next poll_next this =
     (if fuse_done this then ret (Ready None, this)
      else ready_poll (poll_next (fuse_stream this)) (\<lambda>st. this\<lparr>fuse_stream := st\<rparr>) (\<lambda>item this.
        ret (Ready item, if item = None then this\<lparr>fuse_done := True\<rparr> else this)))"

definition fuse_size_hint :: "('st \<Rightarrow> hint) \<Rightarrow> 'st Fuse \<Rightarrow> hint" where
  "fuse_size_hint size_hint this = (if fuse_done this then (0, Some 0) else size_hint (fuse_stream this))"

text \<open>
  \<open>fuse_run p m n xs\<close>: the fused stream still has the items \<open>xs\<close> and needs \<open>n\<close> more polls of the
  inner stream. After the end it keeps answering \<open>Ready(None)\<close> and leaves the inner stream alone.
\<close>

definition fuse_run :: "('st, 'a option) pollfn \<Rightarrow> nat \<Rightarrow> 'st Fuse \<Rightarrow> 'a list \<Rightarrow> bool" where
  "fuse_run p n m xs \<longleftrightarrow> (if fuse_done m then n = 0 \<and> xs = [] else \<exists>t. ends_in p n (fuse_stream m) xs t)"

lemma fuse_run_new: "ends p st xs t \<Longrightarrow> \<exists>n. fuse_run p n (fuse_new st) xs"
  by (simp add: fuse_run_def fuse_new_def) (blast dest: ends_ends_in)

lemma fuse_run_done: "fuse_run p n m xs \<Longrightarrow> fuse_done m \<Longrightarrow> n = 0 \<and> xs = [] \<and> fuse_poll_next p m = ret (Ready None, m)"
  by (simp add: fuse_run_def fuse_poll_next_def)

lemma fuse_run_step:
  assumes "fuse_run p n m xs"
  obtains (ended) m' where "fuse_poll_next p m = ret (Ready None, m')" "fuse_run p 0 m' []" "fuse_done m'" "xs = []"
  | (pend) m' n' where "fuse_poll_next p m = ret (Pending, m')" "fuse_run p n' m' xs" "\<not> fuse_done m'" "n = Suc n'"
  | (item) m' n' x xs' where "fuse_poll_next p m = ret (Ready (Some x), m')" "fuse_run p n' m' xs'"
      "\<not> fuse_done m'" "n = Suc n'" "xs = x # xs'"
proof (cases "fuse_done m")
  case True
  with assms fuse_run_done [OF assms True] show ?thesis by (intro ended) (auto simp: fuse_run_def)
next
  case False
  with assms obtain t where "ends_in p n (fuse_stream m) xs t" by (auto simp: fuse_run_def)
  then show ?thesis
  proof (cases rule: ends_in.cases)
    case ends_in_end
    with False show ?thesis
      by (intro ended [of "m\<lparr>fuse_stream := t, fuse_done := True\<rparr>"]) (auto simp: fuse_poll_next_def fuse_run_def)
  next
    case (ends_in_pend s' n)
    with False show ?thesis
      by (intro pend [of "m\<lparr>fuse_stream := s'\<rparr>" n]) (auto simp: fuse_poll_next_def fuse_run_def)
  next
    case (ends_in_item x s' n xs')
    with False show ?thesis
      by (intro item [of x "m\<lparr>fuse_stream := s'\<rparr>" n xs']) (auto simp: fuse_poll_next_def fuse_run_def)
  qed
qed

lemma fuse_run_ends: "fuse_run p n m xs \<Longrightarrow> \<exists>t. ends (fuse_poll_next p) m xs t \<and> fuse_done t"
proof (induction n arbitrary: m xs rule: less_induct)
  case (less n)
  from less.prems show ?case
  proof (cases rule: fuse_run_step)
    case (pend m' n')
    then show ?thesis using less.IH [of n' m' xs] by (auto intro: ends_pend)
  next
    case (item m' n' x xs')
    then show ?thesis using less.IH [of n' m' xs'] by (auto intro: ends_item)
  qed (auto intro: ends_end)
qed

lemma fuse_ends:
  assumes "ends p st xs t"
  shows "\<exists>t'. ends (fuse_poll_next p) (fuse_new st) xs t' \<and> fuse_poll_next p t' = ret (Ready None, t')"
proof -
  obtain n where "fuse_run p n (fuse_new st) xs" using fuse_run_new [OF assms] by blast
  then obtain t' where "ends (fuse_poll_next p) (fuse_new st) xs t'" "fuse_done t'"
    using fuse_run_ends by blast
  then show ?thesis by (auto simp: fuse_poll_next_def)
qed

lemma fuse_hint:
  "\<not> fuse_done m \<longrightarrow> hint_bounds (h (fuse_stream m)) (length xs) \<Longrightarrow> fuse_run p n m xs \<Longrightarrow>
   hint_bounds (fuse_size_hint h m) (length xs)"
  by (auto simp: fuse_size_hint_def fuse_run_def split: if_splits)

lemma fuse_parked: "fuse_poll_next p m = ret (Pending, m') \<Longrightarrow> parked p (fuse_stream m')"
  by (auto simp: fuse_poll_next_def poll_eq_simps split: if_splits intro: parkedI)

section \<open>chain\<close>

record ('st1, 'st2) Chain =
  ch_first :: "'st1 option"
  ch_second :: 'st2

definition chain_new :: "'st1 \<Rightarrow> 'st2 \<Rightarrow> ('st1, 'st2) Chain" where
  "chain_new stream1 stream2 = \<lparr>ch_first = Some stream1, ch_second = stream2\<rparr>"

definition chain_is_terminated :: "('st2 \<Rightarrow> bool) \<Rightarrow> ('st1, 'st2) Chain \<Rightarrow> bool" where
  "chain_is_terminated terminated2 this \<longleftrightarrow> ch_first this = None \<and> terminated2 (ch_second this)"

definition chain_poll_next ::
  "('st1, 'a option) pollfn \<Rightarrow> ('st2, 'a option) pollfn \<Rightarrow> (('st1, 'st2) Chain, 'a option) pollfn" where
  "chain_poll_next poll1 poll2 this =
     (let second = (\<lambda>this. poll_with (poll2 (ch_second this)) (\<lambda>st. this\<lparr>ch_second := st\<rparr>) (\<lambda>r this. ret (r, this)))
      in case ch_first this of
           Some first \<Rightarrow>
             ready_poll (poll1 first) (\<lambda>st. this\<lparr>ch_first := Some st\<rparr>) (\<lambda>next this.
               case next of
                 Some item \<Rightarrow> ret (Ready (Some item), this)
               | None \<Rightarrow> second (this\<lparr>ch_first := None\<rparr>))
         | None \<Rightarrow> second this)"

definition chain_size_hint :: "('st1 \<Rightarrow> hint) \<Rightarrow> ('st2 \<Rightarrow> hint) \<Rightarrow> ('st1, 'st2) Chain \<Rightarrow> hint" where
  "chain_size_hint hint1 hint2 this =
     (case ch_first this of
        Some first \<Rightarrow>
          let (first_lower, first_upper) = hint1 first;
              (second_lower, second_upper) = hint2 (ch_second this);
              lower = saturating_add first_lower second_lower;
              upper = (case (first_upper, second_upper) of (Some x, Some y) \<Rightarrow> checked_add x y | _ \<Rightarrow> None)
          in (lower, upper)
      | None \<Rightarrow> hint2 (ch_second this))"

lemma chain_ends_second:
  assumes "ends p2 (ch_second m) ys t" and "ch_first m = None"
  shows "\<exists>t'. ends (chain_poll_next p1 p2) m ys t'"
  using assms
proof (induction "ch_second m" ys t arbitrary: m rule: ends.induct)
  case (ends_end t)
  then have "chain_poll_next p1 p2 m = ret (Ready None, m\<lparr>ch_second := t\<rparr>)" by (simp add: chain_poll_next_def)
  then show ?case by (auto intro: ends.ends_end)
next
  case (ends_pend s' xs t)
  then have "chain_poll_next p1 p2 m = ret (Pending, m\<lparr>ch_second := s'\<rparr>)" by (simp add: chain_poll_next_def)
  with ends_pend(3) [of "m\<lparr>ch_second := s'\<rparr>"] ends_pend(4) show ?case by (auto intro: ends.ends_pend)
next
  case (ends_item x s' xs t)
  then have "chain_poll_next p1 p2 m = ret (Ready (Some x), m\<lparr>ch_second := s'\<rparr>)" by (simp add: chain_poll_next_def)
  with ends_item(3) [of "m\<lparr>ch_second := s'\<rparr>"] ends_item(4) show ?case by (auto intro: ends.ends_item)
qed

lemma chain_ends:
  assumes "ends p1 st1 xs t1" and "ends p2 st2 ys t2"
  shows "\<exists>t'. ends (chain_poll_next p1 p2) (chain_new st1 st2) (xs @ ys) t'"
  using assms(1)
proof (induction rule: ends.induct)
  case (ends_end s t)
  let ?m = "\<lparr>ch_first = None, ch_second = st2\<rparr>"
  obtain t' where "ends (chain_poll_next p1 p2) ?m ys t'" using chain_ends_second [of p2 ?m ys t2 p1] assms(2) by auto
  moreover have "chain_poll_next p1 p2 (chain_new s st2) = chain_poll_next p1 p2 ?m"
    by (simp add: chain_poll_next_def chain_new_def ends_end)
  ultimately show ?case by (auto dest: ends_cong)
next
  case (ends_pend s s' xs t)
  then have "chain_poll_next p1 p2 (chain_new s st2) = ret (Pending, chain_new s' st2)"
    by (simp add: chain_poll_next_def chain_new_def)
  with ends_pend(3) show ?case by (auto intro: ends.ends_pend)
next
  case (ends_item s x s' xs t)
  then have "chain_poll_next p1 p2 (chain_new s st2) = ret (Ready (Some x), chain_new s' st2)"
    by (simp add: chain_poll_next_def chain_new_def)
  with ends_item(3) show ?case by (auto intro: ends.ends_item)
qed

lemma chain_hint:
  assumes "\<And>st. ch_first m = Some st \<Longrightarrow> hint_bounds (h1 st) (length xs)" and "ch_first m = None \<Longrightarrow> xs = []"
    and "hint_bounds (h2 (ch_second m)) (length ys)"
  shows "hint_bounds (chain_size_hint h1 h2 m) (length (xs @ ys))"
  using assms
  by (auto simp: chain_size_hint_def hint_bounds_def hint_simps hint_upper_def checked_add_def unat_add_usize
      split: option.splits prod.splits)

lemma chain_parked:
  assumes "chain_poll_next p1 p2 m = ret (Pending, m')"
  shows "(case ch_first m' of Some st \<Rightarrow> parked p1 st | None \<Rightarrow> parked p2 (ch_second m'))"
  using assms
  by (auto simp: chain_poll_next_def poll_eq_simps split: option.splits intro: parkedI)

section \<open>flatten\<close>

record ('st, 'u) Flatten =
  fla_stream :: 'st
  fla_next :: "'u option"

definition flatten_new :: "'st \<Rightarrow> ('st, 'u) Flatten" where
  "flatten_new stream = \<lparr>fla_stream = stream, fla_next = None\<rparr>"

definition flatten_is_terminated :: "('st \<Rightarrow> bool) \<Rightarrow> ('st, 'u) Flatten \<Rightarrow> bool" where
  "flatten_is_terminated terminated this \<longleftrightarrow> fla_next this = None \<and> terminated (fla_stream this)"

partial_function (option) flatten_poll_next ::
  "('st, 'u option) pollfn \<Rightarrow> ('u, 'a option) pollfn \<Rightarrow> (('st, 'u) Flatten, 'a option) pollfn" where
  "flatten_poll_next poll_next poll_inner this =
     (case fla_next this of
        Some s \<Rightarrow>
          ready_poll (poll_inner s) (\<lambda>s. this\<lparr>fla_next := Some s\<rparr>) (\<lambda>next this.
            case next of
              Some item \<Rightarrow> ret (Ready (Some item), this)
            | None \<Rightarrow> flatten_poll_next poll_next poll_inner (this\<lparr>fla_next := None\<rparr>))
      | None \<Rightarrow>
          ready_poll (poll_next (fla_stream this)) (\<lambda>st. this\<lparr>fla_stream := st\<rparr>) (\<lambda>next this.
            case next of
              Some s \<Rightarrow> flatten_poll_next poll_next poll_inner (this\<lparr>fla_next := Some s\<rparr>)
            | None \<Rightarrow> ret (Ready None, this)))"

lemma flatten_ends_inner:
  assumes "ends q u ys t" and "\<exists>t. ends (flatten_poll_next p q) (m\<lparr>fla_next := None\<rparr>) zs t"
  shows "\<exists>t. ends (flatten_poll_next p q) (m\<lparr>fla_next := Some u\<rparr>) (ys @ zs) t"
  using assms
proof (induction rule: ends.induct)
  case (ends_end s t)
  then have "flatten_poll_next p q (m\<lparr>fla_next := Some s\<rparr>) = flatten_poll_next p q (m\<lparr>fla_next := None\<rparr>)"
    by (subst flatten_poll_next.simps) simp
  with ends_end(2) show ?case by (auto dest: ends_cong)
next
  case (ends_pend s s' xs t)
  then have "flatten_poll_next p q (m\<lparr>fla_next := Some s\<rparr>) = ret (Pending, m\<lparr>fla_next := Some s'\<rparr>)"
    by (subst flatten_poll_next.simps) simp
  with ends_pend show ?case by (auto intro: ends.ends_pend)
next
  case (ends_item s x s' xs t)
  then have "flatten_poll_next p q (m\<lparr>fla_next := Some s\<rparr>) = ret (Ready (Some x), m\<lparr>fla_next := Some s'\<rparr>)"
    by (subst flatten_poll_next.simps) simp
  with ends_item show ?case by (auto intro: ends.ends_item)
qed

lemma flatten_ends:
  assumes "ends p (fla_stream m) us t" and "list_all2 (\<lambda>u ys. \<exists>t. ends q u ys t) us yss" and "fla_next m = None"
  shows "\<exists>t'. ends (flatten_poll_next p q) m (concat yss) t'"
  using assms
proof (induction "fla_stream m" us t arbitrary: m yss rule: ends.induct)
  case (ends_end t)
  then have "flatten_poll_next p q m = ret (Ready None, m\<lparr>fla_stream := t\<rparr>)"
    by (subst flatten_poll_next.simps) simp
  with ends_end(2) show ?case by (auto intro: ends.ends_end)
next
  case (ends_pend s' xs t)
  then have "flatten_poll_next p q m = ret (Pending, m\<lparr>fla_stream := s'\<rparr>)"
    by (subst flatten_poll_next.simps) simp
  with ends_pend(3) [of "m\<lparr>fla_stream := s'\<rparr>" yss] ends_pend(4,5) show ?case by (auto intro: ends.ends_pend)
next
  case (ends_item u s' us t)
  from ends_item(4) obtain ys yss' t' where y: "ends q u ys t'" "list_all2 (\<lambda>u ys. \<exists>t. ends q u ys t) us yss'"
    "yss = ys # yss'" by (auto simp: list_all2_Cons1)
  let ?m = "m\<lparr>fla_stream := s'\<rparr>"
  have "\<exists>t. ends (flatten_poll_next p q) (?m\<lparr>fla_next := None\<rparr>) (concat yss') t"
    by (rule ends_item(3)) (use y in simp_all)
  note flatten_ends_inner [where m = ?m, OF y(1) this]
  moreover have "flatten_poll_next p q m = flatten_poll_next p q (?m\<lparr>fla_next := Some u\<rparr>)"
    by (subst flatten_poll_next.simps) (simp add: ends_item)
  ultimately show ?case by (auto dest: ends_cong simp: y)
qed

lemma flatten_parked:
  fixes m' :: "('st, 'u) Flatten" and q :: "('u, 'a option) pollfn"
  assumes "flatten_poll_next p q m = ret (Pending, m')"
  shows "parked p (fla_stream m') \<and> fla_next m' = None \<or> (\<exists>u. fla_next m' = Some u \<and> parked q u)"
  using assms [unfolded ret_def]
proof (induction p q m "Returns (Pending :: 'a option poll, m')" rule: flatten_poll_next.raw_induct [rotated, consumes 1])
  case (1 rec p q m)
  from 1(2) show ?case
    by (auto simp: poll_eq_simps split: option.splits if_splits
        intro: parkedI dest!: 1(1) [unfolded Returns_ret])
qed

section \<open>zip\<close>

record ('st1, 'st2, 'a, 'b) Zip =
  zip_stream1 :: "'st1 Fuse"
  zip_stream2 :: "'st2 Fuse"
  zip_queued1 :: "'a option"
  zip_queued2 :: "'b option"

definition zip_new :: "'st1 \<Rightarrow> 'st2 \<Rightarrow> ('st1, 'st2, 'a, 'b) Zip" where
  "zip_new stream1 stream2 =
     \<lparr>zip_stream1 = fuse_new stream1, zip_stream2 = fuse_new stream2, zip_queued1 = None, zip_queued2 = None\<rparr>"

definition zip_is_terminated :: "('st1, 'st2, 'a, 'b) Zip \<Rightarrow> bool" where
  "zip_is_terminated this \<longleftrightarrow> fuse_is_terminated (zip_stream1 this) \<and> fuse_is_terminated (zip_stream2 this)"

definition zip_fill1 ::
  "('st1, 'a option) pollfn \<Rightarrow> ('st1, 'st2, 'a, 'b) Zip \<Rightarrow> ('st1, 'st2, 'a, 'b) Zip comp" where
  "zip_fill1 poll1 this =
     (if zip_queued1 this = None then
        poll_with (fuse_poll_next poll1 (zip_stream1 this)) (\<lambda>st. this\<lparr>zip_stream1 := st\<rparr>) (\<lambda>r this.
          ret (case r of Ready (Some item1) \<Rightarrow> this\<lparr>zip_queued1 := Some item1\<rparr> | _ \<Rightarrow> this))
      else ret this)"

definition zip_fill2 ::
  "('st2, 'b option) pollfn \<Rightarrow> ('st1, 'st2, 'a, 'b) Zip \<Rightarrow> ('st1, 'st2, 'a, 'b) Zip comp" where
  "zip_fill2 poll2 this =
     (if zip_queued2 this = None then
        poll_with (fuse_poll_next poll2 (zip_stream2 this)) (\<lambda>st. this\<lparr>zip_stream2 := st\<rparr>) (\<lambda>r this.
          ret (case r of Ready (Some item2) \<Rightarrow> this\<lparr>zip_queued2 := Some item2\<rparr> | _ \<Rightarrow> this))
      else ret this)"

definition zip_poll_next ::
  "('st1, 'a option) pollfn \<Rightarrow> ('st2, 'b option) pollfn
   \<Rightarrow> (('st1, 'st2, 'a, 'b) Zip, ('a \<times> 'b) option) pollfn" where
  "zip_poll_next poll1 poll2 this =
     bindc (zip_fill1 poll1 this) (\<lambda>this. bindc (zip_fill2 poll2 this) (\<lambda>this.
       case (zip_queued1 this, zip_queued2 this) of
         (Some x, Some y) \<Rightarrow> ret (Ready (Some (x, y)), this\<lparr>zip_queued1 := None, zip_queued2 := None\<rparr>)
       | _ \<Rightarrow>
           if fuse_is_done (zip_stream1 this) \<or> fuse_is_done (zip_stream2 this) then ret (Ready None, this)
           else ret (Pending, this)))"

definition zip_size_hint ::
  "('st1 \<Rightarrow> hint) \<Rightarrow> ('st2 \<Rightarrow> hint) \<Rightarrow> ('st1, 'st2, 'a, 'b) Zip \<Rightarrow> hint" where
  "zip_size_hint hint1 hint2 this =
     (let queued1_len = usize_of_bool (zip_queued1 this \<noteq> None);
          queued2_len = usize_of_bool (zip_queued2 this \<noteq> None);
          (stream1_lower, stream1_upper) = fuse_size_hint hint1 (zip_stream1 this);
          (stream2_lower, stream2_upper) = fuse_size_hint hint2 (zip_stream2 this);
          stream1_lower = saturating_add stream1_lower queued1_len;
          stream2_lower = saturating_add stream2_lower queued2_len;
          lower = min stream1_lower stream2_lower;
          upper = (case (stream1_upper, stream2_upper) of
              (Some x, Some y) \<Rightarrow>
                let x = saturating_add x queued1_len; y = saturating_add y queued2_len in Some (min x y)
            | (Some x, None) \<Rightarrow> checked_add x queued1_len
            | (None, Some y) \<Rightarrow> checked_add y queued2_len
            | (None, None) \<Rightarrow> None)
      in (lower, upper))"

text \<open>
  What the two sides still have, the queued item included. The queued item of a side is taken before
  the side is polled again, so a side that is done has none.
\<close>

abbreviation opt_list :: "'a option \<Rightarrow> 'a list" where
  "opt_list o' \<equiv> (case o' of None \<Rightarrow> [] | Some x \<Rightarrow> [x])"

definition zip_side :: "('st, 'a option) pollfn \<Rightarrow> nat \<Rightarrow> 'st Fuse \<Rightarrow> 'a option \<Rightarrow> 'a list \<Rightarrow> bool" where
  "zip_side p n m o' xs \<longleftrightarrow> (\<exists>ys. fuse_run p n m ys \<and> xs = opt_list o' @ ys \<and> (fuse_done m \<longrightarrow> o' = None))"

lemma zip_fill1_side:
  assumes "zip_side p n (zip_stream1 m) (zip_queued1 m) xs"
  obtains st o' n' where "zip_fill1 p m = ret (m\<lparr>zip_stream1 := st, zip_queued1 := o'\<rparr>)"
    "zip_side p n' st o' xs" "n' \<le> n" "o' = None \<longrightarrow> fuse_done st \<and> xs = [] \<or> \<not> fuse_done st \<and> n' < n"
proof (cases "zip_queued1 m")
  case None
  with assms have "fuse_run p n (zip_stream1 m) xs" by (simp add: zip_side_def)
  then show ?thesis
  proof (cases rule: fuse_run_step)
    case (ended m')
    with None show ?thesis
      by (intro that [where st = m' and o' = None and n' = 0]; cases m; auto simp: zip_fill1_def zip_side_def)
  next
    case (pend m' n')
    with None show ?thesis
      by (intro that [where st = m' and o' = None and n' = n']; cases m; auto simp: zip_fill1_def zip_side_def)
  next
    case (item m' n' x xs')
    with None show ?thesis
      by (intro that [where st = m' and o' = "Some x" and n' = n']; cases m; auto simp: zip_fill1_def zip_side_def)
  qed
next
  case (Some x)
  with assms show ?thesis
    by (intro that [where st = "zip_stream1 m" and o' = "Some x" and n' = n]; cases m; auto simp: zip_fill1_def)
qed

lemma zip_fill2_side:
  assumes "zip_side p n (zip_stream2 m) (zip_queued2 m) xs"
  obtains st o' n' where "zip_fill2 p m = ret (m\<lparr>zip_stream2 := st, zip_queued2 := o'\<rparr>)"
    "zip_side p n' st o' xs" "n' \<le> n" "o' = None \<longrightarrow> fuse_done st \<and> xs = [] \<or> \<not> fuse_done st \<and> n' < n"
proof (cases "zip_queued2 m")
  case None
  with assms have "fuse_run p n (zip_stream2 m) xs" by (simp add: zip_side_def)
  then show ?thesis
  proof (cases rule: fuse_run_step)
    case (ended m')
    with None show ?thesis
      by (intro that [where st = m' and o' = None and n' = 0]; cases m; auto simp: zip_fill2_def zip_side_def)
  next
    case (pend m' n')
    with None show ?thesis
      by (intro that [where st = m' and o' = None and n' = n']; cases m; auto simp: zip_fill2_def zip_side_def)
  next
    case (item m' n' x xs')
    with None show ?thesis
      by (intro that [where st = m' and o' = "Some x" and n' = n']; cases m; auto simp: zip_fill2_def zip_side_def)
  qed
next
  case (Some x)
  with assms show ?thesis
    by (intro that [where st = "zip_stream2 m" and o' = "Some x" and n' = n]; cases m; auto simp: zip_fill2_def)
qed

lemma zip_ends_from:
  assumes "zip_side p1 n1 (zip_stream1 m) (zip_queued1 m) xs"
    and "zip_side p2 n2 (zip_stream2 m) (zip_queued2 m) ys"
  shows "\<exists>t. ends (zip_poll_next p1 p2) m (zip xs ys) t"
  using assms
proof (induction "n1 + n2 + length xs + length ys" arbitrary: n1 n2 m xs ys rule: less_induct)
  case less
  obtain st1 o1 k1 where 1: "zip_fill1 p1 m = ret (m\<lparr>zip_stream1 := st1, zip_queued1 := o1\<rparr>)"
    "zip_side p1 k1 st1 o1 xs" "k1 \<le> n1" "o1 = None \<longrightarrow> fuse_done st1 \<and> xs = [] \<or> \<not> fuse_done st1 \<and> k1 < n1"
    by (rule zip_fill1_side [OF less.prems(1)])
  let ?m1 = "m\<lparr>zip_stream1 := st1, zip_queued1 := o1\<rparr>"
  have "zip_side p2 n2 (zip_stream2 ?m1) (zip_queued2 ?m1) ys" using less.prems(2) by simp
  then obtain st2 o2 k2 where 2: "zip_fill2 p2 ?m1 = ret (?m1\<lparr>zip_stream2 := st2, zip_queued2 := o2\<rparr>)"
    "zip_side p2 k2 st2 o2 ys" "k2 \<le> n2" "o2 = None \<longrightarrow> fuse_done st2 \<and> ys = [] \<or> \<not> fuse_done st2 \<and> k2 < n2"
    by (rule zip_fill2_side)
  let ?m2 = "?m1\<lparr>zip_stream2 := st2, zip_queued2 := o2\<rparr>"
  have unf: "zip_poll_next p1 p2 m = (case (o1, o2) of
         (Some x, Some y) \<Rightarrow> ret (Ready (Some (x, y)), ?m2\<lparr>zip_queued1 := None, zip_queued2 := None\<rparr>)
       | _ \<Rightarrow> if fuse_done st1 \<or> fuse_done st2 then ret (Ready None, ?m2) else ret (Pending, ?m2))"
    by (simp add: zip_poll_next_def 1(1) 2(1) fuse_is_done_def split: option.split)
  consider (both) x y where "o1 = Some x" "o2 = Some y"
    | (one) "o1 = None \<or> o2 = None" "fuse_done st1 \<or> fuse_done st2"
    | (none) "o1 = None \<or> o2 = None" "\<not> fuse_done st1" "\<not> fuse_done st2" by (cases o1; cases o2) auto
  then show ?case
  proof cases
    case both
    from 1(2) both obtain xs' where x: "xs = x # xs'" "zip_side p1 k1 st1 None xs'" by (auto simp: zip_side_def)
    from 2(2) both obtain ys' where y: "ys = y # ys'" "zip_side p2 k2 st2 None ys'" by (auto simp: zip_side_def)
    let ?n = "?m2\<lparr>zip_queued1 := None, zip_queued2 := None\<rparr>"
    have "zip_poll_next p1 p2 m = ret (Ready (Some (x, y)), ?n)" by (simp add: unf both)
    moreover obtain t where "ends (zip_poll_next p1 p2) ?n (zip xs' ys') t"
      using less.hyps [of k1 k2 xs' ys' ?n] 1(3) 2(3) x y by auto
    ultimately show ?thesis by (auto simp: x y intro: ends_item)
  next
    case one
    then have "zip xs ys = []" using 1(2) 2(2) by (auto simp: zip_side_def fuse_run_def split: if_splits)
    moreover have "zip_poll_next p1 p2 m = ret (Ready None, ?m2)"
      using one by (cases o1; cases o2) (auto simp: unf)
    ultimately show ?thesis by (metis ends_end)
  next
    case none
    then have "zip_poll_next p1 p2 m = ret (Pending, ?m2)" by (cases o1; cases o2) (auto simp: unf)
    moreover have "k1 + k2 < n1 + n2" using none 1(3,4) 2(3,4) by auto
    then obtain t where "ends (zip_poll_next p1 p2) ?m2 (zip xs ys) t"
      using less.hyps [of k1 k2 xs ys ?m2] 1(2) 2(2) by auto
    ultimately show ?thesis by (auto intro: ends_pend)
  qed
qed

lemma zip_ends:
  assumes "ends p1 st1 xs t1" and "ends p2 st2 ys t2"
  shows "\<exists>t. ends (zip_poll_next p1 p2) (zip_new st1 st2) (zip xs ys) t"
proof -
  obtain n1 n2 where "fuse_run p1 n1 (fuse_new st1) xs" "fuse_run p2 n2 (fuse_new st2) ys"
    using fuse_run_new [OF assms(1)] fuse_run_new [OF assms(2)] by blast
  then show ?thesis by (intro zip_ends_from) (simp_all add: zip_side_def zip_new_def)
qed

text \<open>
  Between polls at most one side has a queued item. The upper bounds are added saturating; that is
  sound because the side without a queued item bounds the pairs by itself.
\<close>

lemma zip_one_queued:
  "zip_poll_next p1 p2 m = ret (r, m') \<Longrightarrow> zip_queued1 m' = None \<or> zip_queued2 m' = None"
proof -
  assume "zip_poll_next p1 p2 m = ret (r, m')"
  then obtain n where "(case (zip_queued1 n, zip_queued2 n) of
         (Some x, Some y) \<Rightarrow> ret (Ready (Some (x, y)), n\<lparr>zip_queued1 := None, zip_queued2 := None\<rparr>)
       | _ \<Rightarrow>
           if fuse_is_done (zip_stream1 n) \<or> fuse_is_done (zip_stream2 n) then ret (Ready None, n)
           else ret (Pending, n)) = ret (r, m')"
    unfolding zip_poll_next_def bindc_eq_ret by blast
  then show ?thesis by (cases "zip_queued1 n"; cases "zip_queued2 n") (auto split: if_splits)
qed

lemma zip_hint:
  assumes "zip_side p1 n1 (zip_stream1 m) (zip_queued1 m) xs"
    and "zip_side p2 n2 (zip_stream2 m) (zip_queued2 m) ys"
    and "\<And>xs'. xs = opt_list (zip_queued1 m) @ xs' \<Longrightarrow> hint_bounds (fuse_size_hint h1 (zip_stream1 m)) (length xs')"
    and "\<And>ys'. ys = opt_list (zip_queued2 m) @ ys' \<Longrightarrow> hint_bounds (fuse_size_hint h2 (zip_stream2 m)) (length ys')"
    and "zip_queued1 m = None \<or> zip_queued2 m = None"
  shows "hint_bounds (zip_size_hint h1 h2 m) (length (zip xs ys))"
proof -
  obtain xs' ys' where e: "xs = opt_list (zip_queued1 m) @ xs'" "ys = opt_list (zip_queued2 m) @ ys'"
    using assms(1,2) by (auto simp: zip_side_def)
  obtain l1 u1 l2 u2 where h: "fuse_size_hint h1 (zip_stream1 m) = (l1, u1)" "fuse_size_hint h2 (zip_stream2 m) = (l2, u2)"
    by (cases "fuse_size_hint h1 (zip_stream1 m)"; cases "fuse_size_hint h2 (zip_stream2 m)")
  from assms(3) [OF e(1)] assms(4) [OF e(2)] h have b: "unat l1 \<le> length xs'" "hint_upper u1 (length xs')"
    "unat l2 \<le> length ys'" "hint_upper u2 (length ys')" by auto
  let ?k1 = "usize_of_bool (zip_queued1 m \<noteq> None)" and ?k2 = "usize_of_bool (zip_queued2 m \<noteq> None)"
  have n: "length xs = length xs' + unat ?k1" "length ys = length ys' + unat ?k2"
    by (auto simp: e unat_usize_of_bool split: option.splits)
  have one: "?k1 = 0 \<or> ?k2 = 0" using assms(5) by (auto simp: usize_of_bool_def)
  have lower: "unat (min (saturating_add l1 ?k1) (saturating_add l2 ?k2)) \<le> length (zip xs ys)"
    using b(1,3) n unfolding unat_min_usize unat_saturating_add length_zip by linarith
  have both: "length (zip xs ys) \<le> unat (min (saturating_add x ?k1) (saturating_add y ?k2))" if "u1 = Some x" "u2 = Some y" for x y
  proof -
    have xy: "length xs' \<le> unat x" "length ys' \<le> unat y" using b(2,4) that by simp_all
    then have "length (zip xs ys) \<le> unat x \<or> length (zip xs ys) \<le> unat y" using one n by auto
    then have "length (zip xs ys) < 2 ^ 64" using unat_usize_less [of x] unat_usize_less [of y] by linarith
    with xy n show ?thesis unfolding unat_min_usize unat_saturating_add length_zip by linarith
  qed
  have first: "hint_upper (checked_add x ?k1) (length (zip xs ys))" if "u1 = Some x" for x
    using hint_upper_checked_add [OF b(2), of "length (zip xs ys)" ?k1] n that by simp
  have second: "hint_upper (checked_add y ?k2) (length (zip xs ys))" if "u2 = Some y" for y
    using hint_upper_checked_add [OF b(4), of "length (zip xs ys)" ?k2] n that by simp
  show ?thesis
    unfolding zip_size_hint_def h Let_def prod.case hint_bounds_pair
    using lower both first second by (cases u1; cases u2) simp_all
qed

section \<open>cycle\<close>

record 'st Cycle =
  cy_orig :: 'st
  cy_stream :: 'st

definition cycle_new :: "'st \<Rightarrow> 'st Cycle" where
  "cycle_new stream = \<lparr>cy_orig = stream, cy_stream = stream\<rparr>"

definition cycle_poll_next :: "('st, 'a option) pollfn \<Rightarrow> ('st Cycle, 'a option) pollfn" where
  "cycle_poll_next poll_next this =
     ready_poll (poll_next (cy_stream this)) (\<lambda>st. this\<lparr>cy_stream := st\<rparr>) (\<lambda>next this.
       case next of
         None \<Rightarrow>
           let this = this\<lparr>cy_stream := cy_orig this\<rparr> in
           poll_with (poll_next (cy_stream this)) (\<lambda>st. this\<lparr>cy_stream := st\<rparr>) (\<lambda>r this. ret (r, this))
       | item \<Rightarrow> ret (Ready item, this))"

definition cycle_size_hint :: "('st \<Rightarrow> hint) \<Rightarrow> 'st Cycle \<Rightarrow> hint" where
  "cycle_size_hint size_hint this =
     (let (lower, upper) = size_hint (cy_orig this) in
      if lower = 0 \<and> upper = Some 0 then (lower, upper)
      else if lower = 0 then (0, None)
      else (USIZE_MAX, None))"

definition cycle_is_terminated :: "('st \<Rightarrow> hint) \<Rightarrow> 'st Cycle \<Rightarrow> bool" where
  "cycle_is_terminated size_hint this \<longleftrightarrow> cycle_size_hint size_hint this = (0, Some 0)"

text \<open>Going round: the items of the original stream over and over, when there is at least one.\<close>

lemma cycle_gives_tail:
  assumes "ends p (cy_stream m) xs t"
    and "gives (cycle_poll_next p) (m\<lparr>cy_stream := cy_orig m\<rparr>) ys u" and "ys \<noteq> []"
  shows "\<exists>u. gives (cycle_poll_next p) m (xs @ ys) u"
  using assms
proof (induction "cy_stream m" xs t arbitrary: m rule: ends.induct)
  case (ends_end t)
  let ?m = "m\<lparr>cy_stream := cy_orig m\<rparr>"
  from ends_end(2) show ?case
  proof (cases rule: gives.cases)
    case gives_stop
    with ends_end(3) show ?thesis by simp
  next
    case (gives_pend s')
    then obtain st where st: "p (cy_orig m) = ret (Pending, st) \<and> s' = m\<lparr>cy_stream := st\<rparr>
      \<or> p (cy_orig m) = ret (Ready None, st) \<and> cycle_poll_next p ?m = ret (Pending, s')"
      by (auto simp: cycle_poll_next_def poll_eq_simps split: option.splits)
    then show ?thesis
    proof
      assume st: "p (cy_orig m) = ret (Pending, st) \<and> s' = m\<lparr>cy_stream := st\<rparr>"
      with ends_end(1) have "cycle_poll_next p m = ret (Pending, s')" by (simp add: cycle_poll_next_def)
      with gives_pend show ?thesis by (auto intro: gives.gives_pend)
    next
      assume "p (cy_orig m) = ret (Ready None, st) \<and> cycle_poll_next p ?m = ret (Pending, s')"
      then show ?thesis by (auto simp: cycle_poll_next_def)
    qed
  next
    case (gives_item x s' xs')
    then obtain st where "p (cy_orig m) = ret (Ready (Some x), st)" "s' = m\<lparr>cy_stream := st\<rparr>"
      by (auto simp: cycle_poll_next_def poll_eq_simps split: option.splits)
    with ends_end(1) have "cycle_poll_next p m = ret (Ready (Some x), s')" by (simp add: cycle_poll_next_def)
    with gives_item show ?thesis by (auto intro: gives.gives_item)
  qed
next
  case (ends_pend s' xs t)
  then have "cycle_poll_next p m = ret (Pending, m\<lparr>cy_stream := s'\<rparr>)" by (simp add: cycle_poll_next_def)
  with ends_pend(3) [of "m\<lparr>cy_stream := s'\<rparr>"] ends_pend(4-) show ?case by (auto intro: gives.gives_pend)
next
  case (ends_item x s' xs t)
  then have "cycle_poll_next p m = ret (Ready (Some x), m\<lparr>cy_stream := s'\<rparr>)" by (simp add: cycle_poll_next_def)
  with ends_item(3) [of "m\<lparr>cy_stream := s'\<rparr>"] ends_item(4-) show ?case by (auto intro: gives.gives_item)
qed

lemma cycle_gives_round:
  assumes "ends p (cy_stream m) xs t"
  shows "\<exists>u. gives (cycle_poll_next p) m xs u"
  using assms
proof (induction "cy_stream m" xs t arbitrary: m rule: ends.induct)
  case (ends_end t)
  show ?case by (blast intro: gives.gives_stop)
next
  case (ends_pend s' xs t)
  then have "cycle_poll_next p m = ret (Pending, m\<lparr>cy_stream := s'\<rparr>)" by (simp add: cycle_poll_next_def)
  with ends_pend(3) [of "m\<lparr>cy_stream := s'\<rparr>"] show ?case by (auto intro: gives.gives_pend)
next
  case (ends_item x s' xs t)
  then have "cycle_poll_next p m = ret (Ready (Some x), m\<lparr>cy_stream := s'\<rparr>)" by (simp add: cycle_poll_next_def)
  with ends_item(3) [of "m\<lparr>cy_stream := s'\<rparr>"] show ?case by (auto intro: gives.gives_item)
qed

lemma cycle_gives:
  assumes "ends p st xs t" and "xs \<noteq> []"
  shows "\<exists>u. gives (cycle_poll_next p) (cycle_new st) (concat (replicate (Suc k) xs)) u"
proof (induction k)
  case 0
  show ?case using cycle_gives_round [of p "cycle_new st" xs t] assms(1) by (simp add: cycle_new_def)
next
  case (Suc k)
  then obtain u where "gives (cycle_poll_next p) (cycle_new st) (concat (replicate (Suc k) xs)) u" by blast
  with cycle_gives_tail [of p "cycle_new st" xs t "concat (replicate (Suc k) xs)" u] assms show ?case
    by (simp add: cycle_new_def)
qed

end
