(* ===== verification/Stream_Chunks.thy ===== *)
theory Stream_Chunks
  imports Stream_Map
begin

text \<open>
  \<open>futures-util/src/stream/stream/{chunks, ready_chunks}.rs\<close>: the adapters that batch items. Both
  drive the inner stream through \<open>Fuse\<close>. The length of a \<open>Vec\<close> is a natural number here (it is
  bounded by the memory of the machine), the capacity a \<open>usize\<close>.
\<close>

section \<open>chunks\<close>

record ('st, 'a) Chunks =
  ck_stream :: "'st Fuse"
  ck_items :: "'a list"
  ck_cap :: usize

definition chunks_new :: "'st \<Rightarrow> usize \<Rightarrow> ('st, 'a) Chunks comp" where
  "chunks_new stream capacity =
     assertc (0 < capacity) ''assertion failed: capacity > 0''
       (ret \<lparr>ck_stream = fuse_new stream, ck_items = [], ck_cap = capacity\<rparr>)"

definition chunks_take :: "('st, 'a) Chunks \<Rightarrow> 'a list \<times> ('st, 'a) Chunks" where
  "chunks_take this = (ck_items this, this\<lparr>ck_items := []\<rparr>)"

partial_function (option) chunks_poll_next ::
  "('st, 'a option) pollfn \<Rightarrow> (('st, 'a) Chunks, 'a list option) pollfn" where
  "chunks_poll_next poll_next this =
     ready_poll (fuse_poll_next poll_next (ck_stream this)) (\<lambda>st. this\<lparr>ck_stream := st\<rparr>) (\<lambda>next this.
       case next of
         Some item \<Rightarrow>
           let this = this\<lparr>ck_items := ck_items this @ [item]\<rparr> in
           if unat (ck_cap this) \<le> length (ck_items this)
           then let (full, this) = chunks_take this in ret (Ready (Some full), this)
           else chunks_poll_next poll_next this
       | None \<Rightarrow>
           if ck_items this = [] then ret (Ready None, this)
           else ret (Ready (Some (ck_items this)), this\<lparr>ck_items := []\<rparr>))"

definition chunks_size_hint :: "('st \<Rightarrow> hint) \<Rightarrow> ('st, 'a) Chunks \<Rightarrow> hint" where
  "chunks_size_hint size_hint this =
     (let chunk_len = usize_of_bool (ck_items this \<noteq> []);
          (lower, upper) = fuse_size_hint size_hint (ck_stream this);
          lower = saturating_add (lower div ck_cap this) chunk_len;
          upper = (case upper of Some x \<Rightarrow> checked_add x chunk_len | None \<Rightarrow> None)
      in (lower, upper))"

definition chunks_is_terminated :: "('st, 'a) Chunks \<Rightarrow> bool" where
  "chunks_is_terminated this \<longleftrightarrow> fuse_is_terminated (ck_stream this) \<and> ck_items this = []"

text \<open>The chunks of \<open>acc @ xs\<close>, with \<open>acc\<close> already in the buffer.\<close>

fun chunk_list :: "nat \<Rightarrow> 'a list \<Rightarrow> 'a list \<Rightarrow> 'a list list" where
  "chunk_list n acc [] = (if acc = [] then [] else [acc])"
| "chunk_list n acc (x # xs) =
     (if n \<le> Suc (length acc) then (acc @ [x]) # chunk_list n [] xs else chunk_list n (acc @ [x]) xs)"

lemma concat_chunk_list: "concat (chunk_list n acc xs) = acc @ xs"
  by (induction n acc xs rule: chunk_list.induct) auto

lemma chunk_list_lengths:
  "length acc < n \<Longrightarrow> ys \<in> set (chunk_list n acc xs) \<Longrightarrow> 0 < length ys \<and> length ys \<le> n"
  by (induction n acc xs rule: chunk_list.induct) (auto split: if_splits)

lemma chunk_list_full:
  "length acc < n \<Longrightarrow> ys \<in> set (butlast (chunk_list n acc xs)) \<Longrightarrow> length ys = n"
  by (induction n acc xs rule: chunk_list.induct) (auto split: if_splits)

text \<open>There are \<open>\<lceil>(length acc + length xs) / n\<rceil>\<close> of them.\<close>

lemma length_chunk_list:
  "length acc < n \<Longrightarrow> length (chunk_list n acc xs) = (length acc + length xs + (n - 1)) div n"
proof (induction n acc xs rule: chunk_list.induct)
  case (1 n acc)
  show ?case
  proof (cases "acc = []")
    case False
    then have "0 < length acc" by simp
    then have "length acc + (n - 1) = length acc - 1 + n" using 1 by linarith
    then have "(length acc + (n - 1)) div n = (length acc - 1 + n) div n" by simp
    also have "\<dots> = 1" using 1 by (subst div_add_self2) (use 1 in auto)
    finally show ?thesis using False by simp
  qed (use 1 in simp)
next
  case (2 n acc x xs)
  show ?case
  proof (cases "n \<le> Suc (length acc)")
    case True
    with 2(3) have n: "n = Suc (length acc)" by simp
    have "length acc + length (x # xs) + (n - 1) = (length xs + (n - 1)) + n" using n by simp
    then have "(length acc + length (x # xs) + (n - 1)) div n = ((length xs + (n - 1)) + n) div n"
      by (rule arg_cong)
    also have "\<dots> = (length xs + (n - 1)) div n + 1" using n by (intro div_add_self2) simp
    also have "(length xs + (n - 1)) div n = length (chunk_list n [] xs)" using 2(1) True n by simp
    finally have "(length acc + length (x # xs) + (n - 1)) div n = Suc (length (chunk_list n [] xs))" by simp
    with True show ?thesis by simp
  next
    case False
    then show ?thesis using 2(2) by simp
  qed
qed

lemma chunk_list_le: "length (chunk_list n acc xs) \<le> length xs + of_bool (acc \<noteq> [])"
  by (induction n acc xs rule: chunk_list.induct) (auto split: if_splits)

lemma fuse_end_done: "fuse_poll_next p m = ret (Ready None, t) \<Longrightarrow> fuse_done t"
  by (auto simp: fuse_poll_next_def ready_poll_eq_ret split: if_splits)

lemma chunks_ends:
  assumes "ends (fuse_poll_next p) (ck_stream m) xs t"
  shows "\<exists>t'. ends (chunks_poll_next p) m (chunk_list (unat (ck_cap m)) (ck_items m) xs) t'"
  using assms
proof (induction "ck_stream m" xs t arbitrary: m rule: ends.induct)
  case (ends_end t)
  let ?m = "m\<lparr>ck_stream := t\<rparr>" and ?e = "m\<lparr>ck_stream := t, ck_items := []\<rparr>"
  have last: "chunks_poll_next p ?e = ret (Ready None, ?e)"
    using fuse_end_done [OF ends_end] by (subst chunks_poll_next.simps) (simp add: fuse_poll_next_def)
  show ?case
  proof (cases "ck_items m = []")
    case True
    with ends_end have "chunks_poll_next p m = ret (Ready None, ?m)" by (subst chunks_poll_next.simps) simp
    with True show ?thesis by (auto intro: ends.ends_end)
  next
    case False
    with ends_end have "chunks_poll_next p m = ret (Ready (Some (ck_items m)), ?e)"
      by (subst chunks_poll_next.simps) simp
    with last have "ends (chunks_poll_next p) m [ck_items m] ?e" by (blast intro: ends.intros)
    with False show ?thesis by auto
  qed
next
  case (ends_pend s' xs t)
  then have "chunks_poll_next p m = ret (Pending, m\<lparr>ck_stream := s'\<rparr>)" by (subst chunks_poll_next.simps) simp
  with ends_pend(3) [of "m\<lparr>ck_stream := s'\<rparr>"] show ?case by (auto intro: ends.ends_pend)
next
  case (ends_item x s' xs t)
  show ?case
  proof (cases "unat (ck_cap m) \<le> Suc (length (ck_items m))")
    case True
    let ?m = "m\<lparr>ck_stream := s', ck_items := []\<rparr>"
    from True ends_item(1) have "chunks_poll_next p m = ret (Ready (Some (ck_items m @ [x])), ?m)"
      by (subst chunks_poll_next.simps) (simp add: chunks_take_def)
    with True ends_item(3) [of ?m] show ?thesis by (auto intro: ends.ends_item)
  next
    case False
    let ?m = "m\<lparr>ck_stream := s', ck_items := ck_items m @ [x]\<rparr>"
    from False ends_item(1) have "chunks_poll_next p m = chunks_poll_next p ?m"
      by (subst chunks_poll_next.simps) (simp add: Let_def)
    with False ends_item(3) [of ?m] show ?thesis by (auto dest: ends_cong)
  qed
qed

lemma chunks_hint:
  assumes "hint_bounds (fuse_size_hint h (ck_stream m)) (length xs)" and "length (ck_items m) < unat (ck_cap m)"
  shows "hint_bounds (chunks_size_hint h m) (length (chunk_list (unat (ck_cap m)) (ck_items m) xs))"
proof -
  obtain lo hi where h: "fuse_size_hint h (ck_stream m) = (lo, hi)" by (cases "fuse_size_hint h (ck_stream m)")
  let ?n = "unat (ck_cap m)" and ?k = "length (ck_items m)"
  from assms h have b: "unat lo \<le> length xs" "hint_upper hi (length xs)" by auto
  have n: "0 < ?n" using assms(2) by simp
  have len: "length (chunk_list ?n (ck_items m) xs) = (?k + length xs + (?n - 1)) div ?n"
    by (rule length_chunk_list [OF assms(2)])
  have "unat lo div ?n + of_bool (ck_items m \<noteq> []) \<le> (?k + length xs + (?n - 1)) div ?n"
  proof (cases "ck_items m = []")
    case True
    then show ?thesis using b(1) by (auto intro: div_le_mono)
  next
    case False
    then have "0 < ?k" by simp
    have "unat lo div ?n + 1 = (unat lo + ?n) div ?n" using n by (simp add: div_add_self2)
    also have "\<dots> \<le> (?k + length xs + (?n - 1)) div ?n"
      by (rule div_le_mono) (use b(1) n \<open>0 < ?k\<close> in linarith)
    finally show ?thesis using False by simp
  qed
  moreover have "length (chunk_list ?n (ck_items m) xs) \<le> length xs + of_bool (ck_items m \<noteq> [])"
    by (rule chunk_list_le)
  ultimately show ?thesis using b len
    by (auto simp: chunks_size_hint_def h Let_def hint_simps unat_div intro!: hint_upper_checked_add)
qed

lemma chunks_parked:
  fixes m' :: "('st, 'a) Chunks"
  assumes "chunks_poll_next p m = ret (Pending, m')"
  shows "parked (fuse_poll_next p) (ck_stream m')"
  using assms [unfolded ret_def]
proof (induction p m "Returns (Pending :: 'a list option poll, m')" rule: chunks_poll_next.raw_induct [rotated, consumes 1])
  case (1 rec p m)
  from 1(2) show ?case
    by (auto simp: poll_eq_simps chunks_take_def split: option.splits if_splits
        intro: parkedI dest!: 1(1) [unfolded Returns_ret])
qed

section \<open>ready_chunks\<close>

record 'st ReadyChunks =
  rc_stream :: "'st Fuse"
  rc_cap :: usize

definition ready_chunks_new :: "'st \<Rightarrow> usize \<Rightarrow> 'st ReadyChunks comp" where
  "ready_chunks_new stream capacity =
     assertc (0 < capacity) ''assertion failed: capacity > 0''
       (ret \<lparr>rc_stream = fuse_new stream, rc_cap = capacity\<rparr>)"

text \<open>The loop of \<open>poll_next\<close>, with the local variable \<open>items\<close>.\<close>

partial_function (option) ready_chunks_loop ::
  "('st, 'a option) pollfn \<Rightarrow> 'a list \<Rightarrow> ('st ReadyChunks, 'a list option) pollfn" where
  "ready_chunks_loop poll_next items this =
     poll_with (fuse_poll_next poll_next (rc_stream this)) (\<lambda>st. this\<lparr>rc_stream := st\<rparr>) (\<lambda>r this.
       case r of
         Pending \<Rightarrow> if items = [] then ret (Pending, this) else ret (Ready (Some items), this)
       | Ready next \<Rightarrow>
           (case next of
              Some item \<Rightarrow>
                if unat (rc_cap this) \<le> length (items @ [item]) then ret (Ready (Some (items @ [item])), this)
                else ready_chunks_loop poll_next (items @ [item]) this
            | None \<Rightarrow> ret (Ready (if items = [] then None else Some items), this)))"

definition ready_chunks_poll_next ::
  "('st, 'a option) pollfn \<Rightarrow> ('st ReadyChunks, 'a list option) pollfn" where
  "ready_chunks_poll_next poll_next this = ready_chunks_loop poll_next [] this"

definition ready_chunks_size_hint :: "('st \<Rightarrow> hint) \<Rightarrow> 'st ReadyChunks \<Rightarrow> hint" where
  "ready_chunks_size_hint size_hint this =
     (let (lower, upper) = fuse_size_hint size_hint (rc_stream this);
          lower = lower div rc_cap this
      in (lower, upper))"

definition ready_chunks_is_terminated :: "'st ReadyChunks \<Rightarrow> bool" where
  "ready_chunks_is_terminated this = fuse_is_terminated (rc_stream this)"

text \<open>
  The chunks are the items in order, cut at some \<open>Pending\<close>s and at the capacity: no chunk is empty or
  over the capacity, and no item is held back over a \<open>Pending\<close>.
\<close>

definition chunking :: "nat \<Rightarrow> 'a list \<Rightarrow> 'a list list \<Rightarrow> bool" where
  "chunking n xs yss \<longleftrightarrow> concat yss = xs \<and> (\<forall>ys \<in> set yss. ys \<noteq> [] \<and> length ys \<le> n)"

lemma chunking_length: "chunking n xs yss \<Longrightarrow> length yss \<le> length xs \<and> length xs \<le> n * length yss"
proof (induction yss arbitrary: xs)
  case (Cons ys yss)
  then have "length yss \<le> length (concat yss) \<and> length (concat yss) \<le> n * length yss"
    "ys \<noteq> []" "length ys \<le> n" "xs = ys @ concat yss" by (auto simp: chunking_def)
  then show ?case by (cases ys) auto
qed (simp add: chunking_def)

text \<open>One poll: what it returns, and what the fused stream has left (\<open>n\<close> polls and the items \<open>zs\<close>).\<close>

lemma ready_chunks_loop_run:
  assumes "fuse_run p n (rc_stream m) xs" and "length items < unat (rc_cap m)"
  obtains (pend) st n' where "ready_chunks_loop p items m = ret (Pending, m\<lparr>rc_stream := st\<rparr>)" "items = []"
      "fuse_run p n' st xs" "n' < n"
  | (none) st where "ready_chunks_loop p items m = ret (Ready None, m\<lparr>rc_stream := st\<rparr>)" "items = []" "xs = []"
  | (some) st ys zs n' where "ready_chunks_loop p items m = ret (Ready (Some ys), m\<lparr>rc_stream := st\<rparr>)"
      "items @ xs = ys @ zs" "ys \<noteq> []" "length ys \<le> unat (rc_cap m)" "fuse_run p n' st zs" "n' \<le> n"
      "items = [] \<Longrightarrow> n' < n"
  using assms
proof (induction n arbitrary: m xs items thesis rule: less_induct)
  case (less n)
  from less.prems(4) show ?case
  proof (cases rule: fuse_run_step)
    case (ended st)
    show ?thesis
    proof (cases "items = []")
      case True
      show ?thesis by (rule less.prems(2) [of st]) (subst ready_chunks_loop.simps, simp_all add: ended True)
    next
      case False
      show ?thesis
        by (rule less.prems(3) [of items st "[]" 0])
          (subst ready_chunks_loop.simps, use ended False less.prems(5) in simp_all)
    qed
  next
    case (pend st n')
    show ?thesis
    proof (cases "items = []")
      case True
      show ?thesis
        by (rule less.prems(1) [of st n']) (subst ready_chunks_loop.simps, simp_all add: pend True)
    next
      case False
      show ?thesis
        by (rule less.prems(3) [of items st xs n'])
          (subst ready_chunks_loop.simps, use pend False less.prems(5) in simp_all)
    qed
  next
    case (item st n' x xs')
    let ?m = "m\<lparr>rc_stream := st\<rparr>"
    show ?thesis
    proof (cases "unat (rc_cap m) \<le> Suc (length items)")
      case True
      show ?thesis
        by (rule less.prems(3) [of "items @ [x]" st xs' n'])
          (subst ready_chunks_loop.simps, use item True less.prems(5) in simp_all)
    next
      case False
      then have eq: "ready_chunks_loop p items m = ready_chunks_loop p (items @ [x]) ?m"
        by (subst ready_chunks_loop.simps) (simp add: item)
      show ?thesis
      proof (rule less.IH [where y = n' and m = ?m and xs = xs' and items = "items @ [x]"])
        fix st' ys zs n''
        assume "ready_chunks_loop p (items @ [x]) ?m = ret (Ready (Some ys), ?m\<lparr>rc_stream := st'\<rparr>)"
          and s: "(items @ [x]) @ xs' = ys @ zs" "ys \<noteq> []" "length ys \<le> unat (rc_cap ?m)" "fuse_run p n'' st' zs" "n'' \<le> n'"
        with eq have r: "ready_chunks_loop p items m = ret (Ready (Some ys), m\<lparr>rc_stream := st'\<rparr>)" by simp
        show thesis by (rule less.prems(3) [OF r, of zs n'']) (use s item in auto)
      qed (use item False in simp_all)
    qed
  qed
qed

lemma ready_chunks_run:
  assumes "fuse_run p n (rc_stream m) xs" and "0 < unat (rc_cap m)"
  shows "\<exists>yss t. ends (ready_chunks_poll_next p) m yss t \<and> chunking (unat (rc_cap m)) xs yss"
  using assms
proof (induction n arbitrary: m xs rule: less_induct)
  case (less n)
  have cap: "length [] < unat (rc_cap m)" using less.prems(2) by simp
  from less.prems(1) cap show ?case
  proof (cases rule: ready_chunks_loop_run)
    case (pend st n')
    let ?m = "m\<lparr>rc_stream := st\<rparr>"
    obtain yss t where "ends (ready_chunks_poll_next p) ?m yss t" "chunking (unat (rc_cap m)) xs yss"
      using less.IH [of n' ?m xs] pend less.prems(2) by auto
    with pend(1) show ?thesis unfolding ready_chunks_poll_next_def by (blast intro: ends_pend)
  next
    case (none st)
    then have "ends (ready_chunks_poll_next p) m [] (m\<lparr>rc_stream := st\<rparr>)"
      by (intro ends_end) (simp add: ready_chunks_poll_next_def)
    with none(3) show ?thesis by (auto simp: chunking_def intro: exI [of _ "[]"])
  next
    case (some st ys zs n')
    let ?m = "m\<lparr>rc_stream := st\<rparr>"
    obtain yss t where y: "ends (ready_chunks_poll_next p) ?m yss t" "chunking (unat (rc_cap m)) zs yss"
      using less.IH [of n' ?m zs] some less.prems(2) by auto
    from y(1) some(1) have "ends (ready_chunks_poll_next p) m (ys # yss) t"
      unfolding ready_chunks_poll_next_def by (rule ends_item [rotated])
    moreover have "chunking (unat (rc_cap m)) xs (ys # yss)" using y(2) some by (auto simp: chunking_def)
    ultimately show ?thesis by blast
  qed
qed

lemma ready_chunks_ends:
  assumes "ends p st xs t" and "ready_chunks_new st cap = ret m"
  shows "\<exists>yss t. ends (ready_chunks_poll_next p) m yss t \<and> chunking (unat cap) xs yss"
proof -
  obtain n where "fuse_run p n (fuse_new st) xs" using fuse_run_new [OF assms(1)] by blast
  with assms(2) show ?thesis
    using ready_chunks_run [of p n m xs] by (auto simp: ready_chunks_new_def word_gt_0 unat_gt_0)
qed

lemma ready_chunks_hint:
  assumes "hint_bounds (fuse_size_hint h (rc_stream m)) (length xs)" and "chunking (unat (rc_cap m)) xs yss"
    and "0 < rc_cap m"
  shows "hint_bounds (ready_chunks_size_hint h m) (length yss)"
proof -
  obtain lo hi where h: "fuse_size_hint h (rc_stream m) = (lo, hi)" by (cases "fuse_size_hint h (rc_stream m)")
  from assms(1) h have b: "unat lo \<le> length xs" "hint_upper hi (length xs)" by auto
  have l: "length yss \<le> length xs" "length xs \<le> unat (rc_cap m) * length yss"
    using chunking_length [OF assms(2)] by auto
  have "unat lo div unat (rc_cap m) \<le> (unat (rc_cap m) * length yss) div unat (rc_cap m)"
    by (rule div_le_mono) (use b(1) l(2) in linarith)
  also have "\<dots> = length yss" using assms(3) by (simp add: usize_pos_iff)
  finally show ?thesis using b(2) l(1) hint_upper_mono
    by (auto simp: ready_chunks_size_hint_def h unat_div)
qed

lemma ready_chunks_parked:
  fixes m' :: "'st ReadyChunks" and p :: "('st, 'a option) pollfn"
  assumes "ready_chunks_loop p items m = ret (Pending, m')"
  shows "parked (fuse_poll_next p) (rc_stream m')"
  using assms [unfolded ret_def]
proof (induction p items m "Returns (Pending :: 'a list option poll, m')" rule: ready_chunks_loop.raw_induct [rotated, consumes 1])
  case (1 rec p items m)
  from 1(2) show ?case
    by (auto simp: poll_eq_simps split: option.splits if_splits poll.splits
        intro: parkedI dest!: 1(1) [unfolded Returns_ret])
qed

end
