(* ===== verification/Stream_Consume.thy ===== *)
theory Stream_Consume
  imports Poll_Core
begin

text \<open>
  The futures that consume a stream, \<open>futures-util/src/stream/stream/{fold, for_each, collect, count,
  all, any, concat, unzip, next, into_future, select_next_some}.rs\<close>: each resolves to the value the
  whole run of the stream determines.
\<close>

section \<open>fold\<close>

record ('st, 'fut, 't, 'c) Fold =
  fold_stream :: 'st
  fold_f :: 'c
  fold_accum :: "'t option"
  fold_future :: "'fut option"

definition fold_new :: "'st \<Rightarrow> 'c \<Rightarrow> 't \<Rightarrow> ('st, 'fut, 't, 'c) Fold" where
  "fold_new stream f t = \<lparr>fold_stream = stream, fold_f = f, fold_accum = Some t, fold_future = None\<rparr>"

definition fold_is_terminated :: "('st, 'fut, 't, 'c) Fold \<Rightarrow> bool" where
  "fold_is_terminated this \<longleftrightarrow> fold_accum this = None \<and> fold_future this = None"

partial_function (option) fold_poll ::
  "('st, 'a option) pollfn \<Rightarrow> ('fut, 't) pollfn \<Rightarrow> ('c, 't \<times> 'a, 'fut) fnmut
   \<Rightarrow> (('st, 'fut, 't, 'c) Fold, 't) pollfn" where
  "fold_poll poll_next poll_fut f this =
     (case fold_future this of
        Some fut \<Rightarrow>
          ready_poll (poll_fut fut) (\<lambda>fut. this\<lparr>fold_future := Some fut\<rparr>) (\<lambda>t this.
            fold_poll poll_next poll_fut f (this\<lparr>fold_accum := Some t, fold_future := None\<rparr>))
      | None \<Rightarrow>
          (case fold_accum this of
             Some a \<Rightarrow>
               ready_poll (poll_next (fold_stream this)) (\<lambda>st. this\<lparr>fold_stream := st\<rparr>) (\<lambda>res this.
                 let this = this\<lparr>fold_accum := None\<rparr> in
                 case res of
                   Some item \<Rightarrow>
                     bindc (f (fold_f this) (a, item)) (\<lambda>(fut, c).
                       fold_poll poll_next poll_fut f (this\<lparr>fold_f := c, fold_future := Some fut\<rparr>))
                 | None \<Rightarrow> ret (Ready a, this))
           | None \<Rightarrow> panic ''Fold polled after completion''))"

lemma fold_wait:
  assumes "resolves q fut t" and "resolves (fold_poll p q f) (m\<lparr>fold_accum := Some t, fold_future := None\<rparr>) r"
  shows "resolves (fold_poll p q f) (m\<lparr>fold_accum := a, fold_future := Some fut\<rparr>) r"
proof (rule resolves_resolves [OF assms(1), where mk = "\<lambda>g. m\<lparr>fold_accum := a, fold_future := Some g\<rparr>"])
  fix g g' assume g: "q g = ret (Ready t, g')"
  have "fold_poll p q f (m\<lparr>fold_accum := a, fold_future := Some g\<rparr>)
      = fold_poll p q f (m\<lparr>fold_accum := Some t, fold_future := None\<rparr>)"
    by (subst fold_poll.simps) (simp add: g)
  then show "resolves (fold_poll p q f) (m\<lparr>fold_accum := a, fold_future := Some g\<rparr>) r"
    using assms(2) by (rule resolves_cong)
qed (subst fold_poll.simps, simp)

lemma fold_resolves_from:
  assumes "ends p (fold_stream m) xs t" and "computes f q g"
    and "fold_accum m = Some a" and "fold_future m = None"
  shows "resolves (fold_poll p q f) m (foldl (\<lambda>a x. g (a, x)) a xs)"
  using assms(1,3,4)
proof (induction "fold_stream m" xs t arbitrary: m a rule: ends.induct)
  case (ends_end t)
  then have "fold_poll p q f m = ret (Ready a, m\<lparr>fold_stream := t, fold_accum := None\<rparr>)"
    by (subst fold_poll.simps) simp
  then show ?case by (auto intro: resolves_ready)
next
  case (ends_pend s' xs t)
  then have "fold_poll p q f m = ret (Pending, m\<lparr>fold_stream := s'\<rparr>)" by (subst fold_poll.simps) simp
  with ends_pend(3) [of "m\<lparr>fold_stream := s'\<rparr>"] ends_pend(4,5) show ?case by (auto intro: resolves_pend)
next
  case (ends_item x s' xs t)
  obtain fut c where fc: "f (fold_f m) (a, x) = ret (fut, c)" "resolves q fut (g (a, x))"
    by (rule computesE [OF assms(2)])
  let ?m = "m\<lparr>fold_stream := s', fold_f := c\<rparr>"
  have "m\<lparr>fold_stream := s', fold_accum := None, fold_f := c, fold_future := Some fut\<rparr>
      = ?m\<lparr>fold_accum := None, fold_future := Some fut\<rparr>" by (cases m) simp
  moreover have "fold_poll p q f m
      = fold_poll p q f (m\<lparr>fold_stream := s', fold_accum := None, fold_f := c, fold_future := Some fut\<rparr>)"
    by (subst fold_poll.simps) (simp add: ends_item fc)
  ultimately have "fold_poll p q f m = fold_poll p q f (?m\<lparr>fold_accum := None, fold_future := Some fut\<rparr>)"
    by (simp only:)
  moreover have "resolves (fold_poll p q f) (?m\<lparr>fold_accum := Some (g (a, x)), fold_future := None\<rparr>)
      (foldl (\<lambda>a x. g (a, x)) (g (a, x)) xs)"
    by (rule ends_item(3)) simp_all
  from fold_wait [OF fc(2) this] have "resolves (fold_poll p q f)
      (?m\<lparr>fold_accum := None, fold_future := Some fut\<rparr>) (foldl (\<lambda>a x. g (a, x)) a (x # xs))" by simp
  ultimately show ?case by (rule resolves_cong)
qed

lemma fold_resolves:
  assumes "ends p st xs t" and "computes f q g"
  shows "resolves (fold_poll p q f) (fold_new st c a) (foldl (\<lambda>a x. g (a, x)) a xs)"
  by (rule fold_resolves_from) (use assms in \<open>simp_all add: fold_new_def\<close>)

lemma fold_parked:
  fixes m' :: "('st, 'fut, 't, 'c) Fold"
  assumes "fold_poll p q f m = ret (Pending, m')"
  shows "(case fold_future m' of None \<Rightarrow> parked p (fold_stream m') | Some fut \<Rightarrow> parked q fut)"
  using assms [unfolded ret_def]
proof (induction p q f m "Returns (Pending :: 't poll, m')" rule: fold_poll.raw_induct [rotated, consumes 1])
  case (1 rec p q f m)
  from 1(2) show ?case
    by (auto simp: poll_eq_simps split: option.splits
        intro: parkedI dest!: 1(1) [unfolded Returns_ret])
qed

section \<open>for_each\<close>

record ('st, 'fut, 'c) ForEach =
  fe_stream :: 'st
  fe_f :: 'c
  fe_future :: "'fut option"

definition for_each_new :: "'st \<Rightarrow> 'c \<Rightarrow> ('st, 'fut, 'c) ForEach" where
  "for_each_new stream f = \<lparr>fe_stream = stream, fe_f = f, fe_future = None\<rparr>"

definition for_each_is_terminated :: "('st \<Rightarrow> bool) \<Rightarrow> ('st, 'fut, 'c) ForEach \<Rightarrow> bool" where
  "for_each_is_terminated terminated this \<longleftrightarrow> fe_future this = None \<and> terminated (fe_stream this)"

partial_function (option) for_each_poll ::
  "('st, 'a option) pollfn \<Rightarrow> ('fut, unit) pollfn \<Rightarrow> ('c, 'a, 'fut) fnmut
   \<Rightarrow> (('st, 'fut, 'c) ForEach, unit) pollfn" where
  "for_each_poll poll_next poll_fut f this =
     (case fe_future this of
        Some fut \<Rightarrow>
          ready_poll (poll_fut fut) (\<lambda>fut. this\<lparr>fe_future := Some fut\<rparr>)
            (\<lambda>_ this. for_each_poll poll_next poll_fut f (this\<lparr>fe_future := None\<rparr>))
      | None \<Rightarrow>
          ready_poll (poll_next (fe_stream this)) (\<lambda>st. this\<lparr>fe_stream := st\<rparr>) (\<lambda>next this.
            case next of
              Some item \<Rightarrow>
                bindc (f (fe_f this) item) (\<lambda>(fut, c).
                  for_each_poll poll_next poll_fut f (this\<lparr>fe_f := c, fe_future := Some fut\<rparr>))
            | None \<Rightarrow> ret (Ready (), this)))"

text \<open>
  The closure is called on every item, in order, each call after the future of the one before has
  completed: its captured state has gone through the calls when \<open>for_each\<close> completes.
\<close>

lemma for_each_completes:
  assumes "ends p (fe_stream m) xs t" and "calls f (fe_f m) xs futs c"
    and "\<And>fut. fut \<in> set futs \<Longrightarrow> resolves q fut ()" and "fe_future m = None"
  shows "completes (for_each_poll p q f) m () \<lparr>fe_stream = t, fe_f = c, fe_future = None\<rparr>"
  using assms
proof (induction "fe_stream m" xs t arbitrary: m futs rule: ends.induct)
  case (ends_end t)
  then have "for_each_poll p q f m = ret (Ready (), m\<lparr>fe_stream := t\<rparr>)" by (subst for_each_poll.simps) simp
  moreover have "c = fe_f m" using ends_end(2) by (auto elim: calls_NilE)
  ultimately show ?case using ends_end(4) by (cases m) (auto intro!: completes_ready)
next
  case (ends_pend s' xs t)
  then have "for_each_poll p q f m = ret (Pending, m\<lparr>fe_stream := s'\<rparr>)" by (subst for_each_poll.simps) simp
  with ends_pend(3) [of "m\<lparr>fe_stream := s'\<rparr>" futs] ends_pend(4-6) show ?case by (auto intro: completes_pend)
next
  case (ends_item x s' xs t)
  from ends_item(4) obtain fut c' futs' where f: "f (fe_f m) x = ret (fut, c')" "calls f c' xs futs' c"
    "futs = fut # futs'" by (auto elim: calls_ConsE)
  let ?m = "m\<lparr>fe_stream := s', fe_f := c'\<rparr>" and ?e = "\<lparr>fe_stream = t, fe_f = c, fe_future = None\<rparr>"
  let ?mk = "\<lambda>g. ?m\<lparr>fe_future := Some g\<rparr>"
  have k: "completes (for_each_poll p q f) (?m\<lparr>fe_future := None\<rparr>) () ?e"
    using ends_item(3) [of "?m\<lparr>fe_future := None\<rparr>" futs'] f ends_item(5) by auto
  have "completes (for_each_poll p q f) (?mk fut) () ?e"
  proof (rule completes_wait [where q = q and b = "()" and mk = ?mk])
    show "resolves q fut ()" using ends_item(5) f(3) by simp
  next
    fix g g' assume "q g = ret (Ready (), g')"
    then have "for_each_poll p q f (?mk g) = for_each_poll p q f (?m\<lparr>fe_future := None\<rparr>)"
      by (subst for_each_poll.simps) simp
    then show "completes (for_each_poll p q f) (?mk g) () ?e" using k by (rule completes_cong)
  qed (subst for_each_poll.simps, simp)
  moreover have "for_each_poll p q f m = for_each_poll p q f (?mk fut)"
    by (subst for_each_poll.simps) (simp add: ends_item f)
  ultimately show ?case by (auto intro: completes_cong)
qed

lemma for_each_parked:
  fixes m' :: "('st, 'fut, 'c) ForEach" and f :: "('c, 'a, 'fut) fnmut"
  assumes "for_each_poll p q f m = ret (Pending, m')"
  shows "(case fe_future m' of None \<Rightarrow> parked p (fe_stream m') | Some fut \<Rightarrow> parked q fut)"
  using assms [unfolded ret_def]
proof (induction p q f m "Returns (Pending :: unit poll, m')" rule: for_each_poll.raw_induct [rotated, consumes 1])
  case (1 rec p q f m)
  from 1(2) show ?case
    by (auto simp: poll_eq_simps split: option.splits
        intro: parkedI dest!: 1(1) [unfolded Returns_ret])
qed

section \<open>collect, count, concat, unzip\<close>

text \<open>
  The collection types are the caller's: \<open>ext\<close> adds one item (\<open>Extend::extend(Some(e))\<close>) and
  \<open>dflt\<close> is \<open>Default::default()\<close>.
\<close>

record ('st, 'col) Collect =
  col_stream :: 'st
  col_collection :: 'col

definition collect_new :: "'col \<Rightarrow> 'st \<Rightarrow> ('st, 'col) Collect" where
  "collect_new dflt stream = \<lparr>col_stream = stream, col_collection = dflt\<rparr>"

definition collect_finish :: "'col \<Rightarrow> ('st, 'col) Collect \<Rightarrow> 'col \<times> ('st, 'col) Collect" where
  "collect_finish dflt this = (col_collection this, this\<lparr>col_collection := dflt\<rparr>)"

partial_function (option) collect_poll ::
  "'col \<Rightarrow> ('col \<Rightarrow> 'a \<Rightarrow> 'col) \<Rightarrow> ('st, 'a option) pollfn \<Rightarrow> (('st, 'col) Collect, 'col) pollfn" where
  "collect_poll dflt ext poll_next this =
     ready_poll (poll_next (col_stream this)) (\<lambda>st. this\<lparr>col_stream := st\<rparr>) (\<lambda>next this.
       case next of
         Some e \<Rightarrow> collect_poll dflt ext poll_next (this\<lparr>col_collection := ext (col_collection this) e\<rparr>)
       | None \<Rightarrow> let (c, this) = collect_finish dflt this in ret (Ready c, this))"

lemma collect_resolves_from:
  assumes "ends p (col_stream m) xs t"
  shows "resolves (collect_poll d e p) m (foldl e (col_collection m) xs)"
  using assms
proof (induction "col_stream m" xs t arbitrary: m rule: ends.induct)
  case (ends_end t)
  then have "collect_poll d e p m = ret (Ready (col_collection m), m\<lparr>col_stream := t, col_collection := d\<rparr>)"
    by (subst collect_poll.simps) (simp add: collect_finish_def)
  then show ?case by (auto intro: resolves_ready)
next
  case (ends_pend s' xs t)
  then have "collect_poll d e p m = ret (Pending, m\<lparr>col_stream := s'\<rparr>)" by (subst collect_poll.simps) simp
  with ends_pend(3) [of "m\<lparr>col_stream := s'\<rparr>"] show ?case by (auto intro: resolves_pend)
next
  case (ends_item x s' xs t)
  let ?m = "m\<lparr>col_stream := s', col_collection := e (col_collection m) x\<rparr>"
  have "collect_poll d e p m = collect_poll d e p ?m" by (subst collect_poll.simps) (simp add: ends_item)
  with ends_item(3) [of ?m] show ?case by (auto dest: resolves_cong)
qed

lemma collect_resolves:
  "ends p st xs t \<Longrightarrow> resolves (collect_poll d e p) (collect_new d st) (foldl e d xs)"
  using collect_resolves_from [of p "collect_new d st" xs t d e] by (simp add: collect_new_def)

text \<open>Collecting into a \<open>Vec\<close> is the list of the items.\<close>

lemma collect_vec:
  assumes "ends p st xs t"
  shows "resolves (collect_poll [] (\<lambda>c x. c @ [x]) p) (collect_new [] st) xs"
proof -
  have "foldl (\<lambda>c x. c @ [x]) ys xs = ys @ xs" for ys by (induction xs arbitrary: ys) auto
  with collect_resolves [OF assms, of "[]" "\<lambda>c x. c @ [x]"] show ?thesis by simp
qed

record 'st Count =
  cnt_stream :: 'st
  cnt_count :: usize

definition count_new :: "'st \<Rightarrow> 'st Count" where
  "count_new stream = \<lparr>cnt_stream = stream, cnt_count = 0\<rparr>"

partial_function (option) count_poll :: "('st, 'a option) pollfn \<Rightarrow> ('st Count, usize) pollfn" where
  "count_poll poll_next this =
     ready_poll (poll_next (cnt_stream this)) (\<lambda>st. this\<lparr>cnt_stream := st\<rparr>) (\<lambda>next this.
       case next of
         Some _ \<Rightarrow> bindc (add_usize (cnt_count this) 1) (\<lambda>n. count_poll poll_next (this\<lparr>cnt_count := n\<rparr>))
       | None \<Rightarrow> ret (Ready (cnt_count this), this))"

lemma count_resolves_from:
  assumes "ends p (cnt_stream m) xs t" and "unat (cnt_count m) + length xs < 2 ^ 64"
  shows "resolves (count_poll p) m (cnt_count m + word_of_nat (length xs))"
  using assms
proof (induction "cnt_stream m" xs t arbitrary: m rule: ends.induct)
  case (ends_end t)
  then have "count_poll p m = ret (Ready (cnt_count m), m\<lparr>cnt_stream := t\<rparr>)" by (subst count_poll.simps) simp
  then show ?case by (auto intro: resolves_ready)
next
  case (ends_pend s' xs t)
  then have "count_poll p m = ret (Pending, m\<lparr>cnt_stream := s'\<rparr>)" by (subst count_poll.simps) simp
  with ends_pend(3) [of "m\<lparr>cnt_stream := s'\<rparr>"] ends_pend(4) show ?case by (auto intro: resolves_pend)
next
  case (ends_item x s' xs t)
  let ?m = "m\<lparr>cnt_stream := s', cnt_count := cnt_count m + 1\<rparr>"
  have "unat (cnt_count m + 1) = unat (cnt_count m) + 1" using ends_item(4) by (subst unat_add_usize) auto
  moreover have "count_poll p m = count_poll p ?m"
    using ends_item(1,4) by (subst count_poll.simps) (simp add: add_usize_def checked_add_def)
  ultimately show ?case using ends_item(3) [of ?m] ends_item(4) by (auto dest: resolves_cong simp: algebra_simps)
qed

lemma count_resolves:
  assumes "ends p st xs t" and "length xs < 2 ^ 64"
  shows "resolves (count_poll p) (count_new st) (word_of_nat (length xs))"
  using count_resolves_from [of p "count_new st" xs t] assms by (simp add: count_new_def)

record ('st, 'e) Concat =
  con_stream :: 'st
  con_accum :: "'e option"

definition concat_new :: "'st \<Rightarrow> ('st, 'e) Concat" where
  "concat_new stream = \<lparr>con_stream = stream, con_accum = None\<rparr>"

definition concat_is_terminated :: "('st \<Rightarrow> bool) \<Rightarrow> ('st, 'e) Concat \<Rightarrow> bool" where
  "concat_is_terminated terminated this \<longleftrightarrow> con_accum this = None \<and> terminated (con_stream this)"

partial_function (option) concat_poll ::
  "'e \<Rightarrow> ('e \<Rightarrow> 'e \<Rightarrow> 'e) \<Rightarrow> ('st, 'e option) pollfn \<Rightarrow> (('st, 'e) Concat, 'e) pollfn" where
  "concat_poll dflt ext poll_next this =
     ready_poll (poll_next (con_stream this)) (\<lambda>st. this\<lparr>con_stream := st\<rparr>) (\<lambda>next this.
       case next of
         None \<Rightarrow> ret (Ready (case con_accum this of Some a \<Rightarrow> a | None \<Rightarrow> dflt), this\<lparr>con_accum := None\<rparr>)
       | Some e \<Rightarrow>
           concat_poll dflt ext poll_next
             (this\<lparr>con_accum := Some (case con_accum this of Some a \<Rightarrow> ext a e | None \<Rightarrow> e)\<rparr>))"

lemma concat_resolves_from:
  assumes "ends p (con_stream m) xs t"
  shows "resolves (concat_poll d e p) m
    (case con_accum m of Some a \<Rightarrow> foldl e a xs | None \<Rightarrow> (case xs of [] \<Rightarrow> d | y # ys \<Rightarrow> foldl e y ys))"
  using assms
proof (induction "con_stream m" xs t arbitrary: m rule: ends.induct)
  case (ends_end t)
  then have "concat_poll d e p m = ret (Ready (case con_accum m of Some a \<Rightarrow> a | None \<Rightarrow> d),
      m\<lparr>con_stream := t, con_accum := None\<rparr>)"
    by (subst concat_poll.simps) simp
  then show ?case by (auto intro: resolves_ready split: option.splits)
next
  case (ends_pend s' xs t)
  then have "concat_poll d e p m = ret (Pending, m\<lparr>con_stream := s'\<rparr>)" by (subst concat_poll.simps) simp
  with ends_pend(3) [of "m\<lparr>con_stream := s'\<rparr>"] show ?case by (auto intro: resolves_pend)
next
  case (ends_item x s' xs t)
  let ?m = "m\<lparr>con_stream := s', con_accum := Some (case con_accum m of Some a \<Rightarrow> e a x | None \<Rightarrow> x)\<rparr>"
  have "concat_poll d e p m = concat_poll d e p ?m" by (subst concat_poll.simps) (simp add: ends_item)
  moreover have "resolves (concat_poll d e p) ?m (foldl e (case con_accum m of Some a \<Rightarrow> e a x | None \<Rightarrow> x) xs)"
    using ends_item(3) [of ?m] by simp
  ultimately show ?case by (auto dest: resolves_cong split: option.splits)
qed

text \<open>Concatenating streams of \<open>Vec\<close>s.\<close>

lemma concat_vec:
  fixes xss :: "'a list list"
  assumes "ends p st xss t"
  shows "resolves (concat_poll [] (@) p) (concat_new st) (concat xss)"
proof -
  have e: "foldl (@) ys zss = ys @ concat zss" for ys :: "'a list" and zss by (induction zss arbitrary: ys) auto
  from concat_resolves_from [of p "concat_new st" xss t "[]" "(@)"] assms show ?thesis
    by (cases xss) (simp_all add: concat_new_def e)
qed

record ('st, 'l, 'r) Unzip =
  uz_stream :: 'st
  uz_left :: 'l
  uz_right :: 'r

definition unzip_new :: "'l \<Rightarrow> 'r \<Rightarrow> 'st \<Rightarrow> ('st, 'l, 'r) Unzip" where
  "unzip_new dflt_l dflt_r stream = \<lparr>uz_stream = stream, uz_left = dflt_l, uz_right = dflt_r\<rparr>"

definition unzip_finish :: "'l \<Rightarrow> 'r \<Rightarrow> ('st, 'l, 'r) Unzip \<Rightarrow> ('l \<times> 'r) \<times> ('st, 'l, 'r) Unzip" where
  "unzip_finish dflt_l dflt_r this =
     ((uz_left this, uz_right this), this\<lparr>uz_left := dflt_l, uz_right := dflt_r\<rparr>)"

partial_function (option) unzip_poll ::
  "'l \<Rightarrow> 'r \<Rightarrow> ('l \<Rightarrow> 'a \<Rightarrow> 'l) \<Rightarrow> ('r \<Rightarrow> 'b \<Rightarrow> 'r) \<Rightarrow> ('st, ('a \<times> 'b) option) pollfn
   \<Rightarrow> (('st, 'l, 'r) Unzip, 'l \<times> 'r) pollfn" where
  "unzip_poll dflt_l dflt_r ext_l ext_r poll_next this =
     ready_poll (poll_next (uz_stream this)) (\<lambda>st. this\<lparr>uz_stream := st\<rparr>) (\<lambda>next this.
       case next of
         Some e \<Rightarrow>
           unzip_poll dflt_l dflt_r ext_l ext_r poll_next
             (this\<lparr>uz_left := ext_l (uz_left this) (fst e), uz_right := ext_r (uz_right this) (snd e)\<rparr>)
       | None \<Rightarrow> let (r, this) = unzip_finish dflt_l dflt_r this in ret (Ready r, this))"

lemma unzip_resolves_from:
  assumes "ends p (uz_stream m) xs t"
  shows "resolves (unzip_poll dl dr el er p) m
    (foldl el (uz_left m) (map fst xs), foldl er (uz_right m) (map snd xs))"
  using assms
proof (induction "uz_stream m" xs t arbitrary: m rule: ends.induct)
  case (ends_end t)
  then have "unzip_poll dl dr el er p m
      = ret (Ready (uz_left m, uz_right m), m\<lparr>uz_stream := t, uz_left := dl, uz_right := dr\<rparr>)"
    by (subst unzip_poll.simps) (simp add: unzip_finish_def)
  then show ?case by (auto intro: resolves_ready)
next
  case (ends_pend s' xs t)
  then have "unzip_poll dl dr el er p m = ret (Pending, m\<lparr>uz_stream := s'\<rparr>)" by (subst unzip_poll.simps) simp
  with ends_pend(3) [of "m\<lparr>uz_stream := s'\<rparr>"] show ?case by (auto intro: resolves_pend)
next
  case (ends_item x s' xs t)
  let ?m = "m\<lparr>uz_stream := s', uz_left := el (uz_left m) (fst x), uz_right := er (uz_right m) (snd x)\<rparr>"
  have "unzip_poll dl dr el er p m = unzip_poll dl dr el er p ?m" by (subst unzip_poll.simps) (simp add: ends_item)
  with ends_item(3) [of ?m] show ?case by (auto dest: resolves_cong)
qed

section \<open>all and any\<close>

record ('st, 'fut, 'c) All =
  all_stream :: 'st
  all_f :: 'c
  all_done :: bool
  all_future :: "'fut option"

definition all_new :: "'st \<Rightarrow> 'c \<Rightarrow> ('st, 'fut, 'c) All" where
  "all_new stream f = \<lparr>all_stream = stream, all_f = f, all_done = False, all_future = None\<rparr>"

definition all_is_terminated :: "('st, 'fut, 'c) All \<Rightarrow> bool" where
  "all_is_terminated this \<longleftrightarrow> all_done this \<and> all_future this = None"

partial_function (option) all_poll ::
  "('st, 'a option) pollfn \<Rightarrow> ('fut, bool) pollfn \<Rightarrow> ('c, 'a, 'fut) fnmut \<Rightarrow> (('st, 'fut, 'c) All, bool) pollfn" where
  "all_poll poll_next poll_fut f this =
     (case all_future this of
        Some fut \<Rightarrow>
          ready_poll (poll_fut fut) (\<lambda>fut. this\<lparr>all_future := Some fut\<rparr>) (\<lambda>res this.
            let this = this\<lparr>all_future := None\<rparr> in
            if \<not> res then ret (Ready False, this\<lparr>all_done := True\<rparr>)
            else all_poll poll_next poll_fut f this)
      | None \<Rightarrow>
          if \<not> all_done this then
            ready_poll (poll_next (all_stream this)) (\<lambda>st. this\<lparr>all_stream := st\<rparr>) (\<lambda>next this.
              case next of
                Some item \<Rightarrow>
                  bindc (f (all_f this) item) (\<lambda>(fut, c).
                    all_poll poll_next poll_fut f (this\<lparr>all_f := c, all_future := Some fut\<rparr>))
              | None \<Rightarrow> ret (Ready True, this\<lparr>all_done := True\<rparr>))
          else panic ''All polled after completion'')"

text \<open>\<open>Any\<close> has the fields of \<open>All\<close> and the same loop with the early exit on \<open>true\<close>.\<close>

record ('st, 'fut, 'c) Any =
  any_stream :: 'st
  any_f :: 'c
  any_done :: bool
  any_future :: "'fut option"

definition any_new :: "'st \<Rightarrow> 'c \<Rightarrow> ('st, 'fut, 'c) Any" where
  "any_new stream f = \<lparr>any_stream = stream, any_f = f, any_done = False, any_future = None\<rparr>"

definition any_is_terminated :: "('st, 'fut, 'c) Any \<Rightarrow> bool" where
  "any_is_terminated this \<longleftrightarrow> any_done this \<and> any_future this = None"

partial_function (option) any_poll ::
  "('st, 'a option) pollfn \<Rightarrow> ('fut, bool) pollfn \<Rightarrow> ('c, 'a, 'fut) fnmut \<Rightarrow> (('st, 'fut, 'c) Any, bool) pollfn" where
  "any_poll poll_next poll_fut f this =
     (case any_future this of
        Some fut \<Rightarrow>
          ready_poll (poll_fut fut) (\<lambda>fut. this\<lparr>any_future := Some fut\<rparr>) (\<lambda>res this.
            let this = this\<lparr>any_future := None\<rparr> in
            if res then ret (Ready True, this\<lparr>any_done := True\<rparr>)
            else any_poll poll_next poll_fut f this)
      | None \<Rightarrow>
          if \<not> any_done this then
            ready_poll (poll_next (any_stream this)) (\<lambda>st. this\<lparr>any_stream := st\<rparr>) (\<lambda>next this.
              case next of
                Some item \<Rightarrow>
                  bindc (f (any_f this) item) (\<lambda>(fut, c).
                    any_poll poll_next poll_fut f (this\<lparr>any_f := c, any_future := Some fut\<rparr>))
              | None \<Rightarrow> ret (Ready False, this\<lparr>any_done := True\<rparr>))
          else panic ''Any polled after completion'')"

lemma all_wait:
  assumes "resolves q fut b" and "\<not> all_done m" and "b \<Longrightarrow> resolves (all_poll p q f) (m\<lparr>all_future := None\<rparr>) r"
  shows "resolves (all_poll p q f) (m\<lparr>all_future := Some fut\<rparr>) (b \<and> r)"
proof (rule resolves_resolves [OF assms(1), where mk = "\<lambda>g. m\<lparr>all_future := Some g\<rparr>"])
  fix g g' assume g: "q g = ret (Ready b, g')"
  have "all_poll p q f (m\<lparr>all_future := Some g\<rparr>) =
      (if b then all_poll p q f (m\<lparr>all_future := None\<rparr>) else ret (Ready False, m\<lparr>all_future := None, all_done := True\<rparr>))"
    by (subst all_poll.simps) (simp add: g)
  with assms(3) show "resolves (all_poll p q f) (m\<lparr>all_future := Some g\<rparr>) (b \<and> r)"
    by (cases b) (auto intro: resolves_ready dest: resolves_cong)
qed (subst all_poll.simps, simp)

lemma all_resolves_from:
  assumes "ends p (all_stream m) xs t" and "computes f q P" and "\<not> all_done m" and "all_future m = None"
  shows "resolves (all_poll p q f) m (list_all P xs)"
  using assms(1,3,4)
proof (induction "all_stream m" xs t arbitrary: m rule: ends.induct)
  case (ends_end t)
  then have "all_poll p q f m = ret (Ready True, m\<lparr>all_stream := t, all_done := True\<rparr>)"
    by (subst all_poll.simps) simp
  then show ?case by (auto intro: resolves_ready)
next
  case (ends_pend s' xs t)
  then have "all_poll p q f m = ret (Pending, m\<lparr>all_stream := s'\<rparr>)" by (subst all_poll.simps) simp
  with ends_pend(3) [of "m\<lparr>all_stream := s'\<rparr>"] ends_pend(4,5) show ?case by (auto intro: resolves_pend)
next
  case (ends_item x s' xs t)
  obtain fut c where fc: "f (all_f m) x = ret (fut, c)" "resolves q fut (P x)" by (rule computesE [OF assms(2)])
  let ?m = "m\<lparr>all_stream := s', all_f := c\<rparr>"
  have "resolves (all_poll p q f) (?m\<lparr>all_future := None\<rparr>) (list_all P xs)"
    by (rule ends_item(3)) (use ends_item in simp_all)
  with fc(2) ends_item(4) have "resolves (all_poll p q f) (?m\<lparr>all_future := Some fut\<rparr>) (P x \<and> list_all P xs)"
    by (intro all_wait) simp_all
  moreover have "all_poll p q f m = all_poll p q f (?m\<lparr>all_future := Some fut\<rparr>)"
    by (subst all_poll.simps) (simp add: ends_item fc)
  ultimately show ?case by (auto dest: resolves_cong)
qed

lemma any_wait:
  assumes "resolves q fut b" and "\<not> any_done m" and "\<not> b \<Longrightarrow> resolves (any_poll p q f) (m\<lparr>any_future := None\<rparr>) r"
  shows "resolves (any_poll p q f) (m\<lparr>any_future := Some fut\<rparr>) (b \<or> r)"
proof (rule resolves_resolves [OF assms(1), where mk = "\<lambda>g. m\<lparr>any_future := Some g\<rparr>"])
  fix g g' assume g: "q g = ret (Ready b, g')"
  have "any_poll p q f (m\<lparr>any_future := Some g\<rparr>) =
      (if b then ret (Ready True, m\<lparr>any_future := None, any_done := True\<rparr>) else any_poll p q f (m\<lparr>any_future := None\<rparr>))"
    by (subst any_poll.simps) (simp add: g)
  with assms(3) show "resolves (any_poll p q f) (m\<lparr>any_future := Some g\<rparr>) (b \<or> r)"
    by (cases b) (auto intro: resolves_ready dest: resolves_cong)
qed (subst any_poll.simps, simp)

lemma any_resolves_from:
  assumes "ends p (any_stream m) xs t" and "computes f q P" and "\<not> any_done m" and "any_future m = None"
  shows "resolves (any_poll p q f) m (list_ex P xs)"
  using assms(1,3,4)
proof (induction "any_stream m" xs t arbitrary: m rule: ends.induct)
  case (ends_end t)
  then have "any_poll p q f m = ret (Ready False, m\<lparr>any_stream := t, any_done := True\<rparr>)"
    by (subst any_poll.simps) simp
  then show ?case by (auto intro: resolves_ready)
next
  case (ends_pend s' xs t)
  then have "any_poll p q f m = ret (Pending, m\<lparr>any_stream := s'\<rparr>)" by (subst any_poll.simps) simp
  with ends_pend(3) [of "m\<lparr>any_stream := s'\<rparr>"] ends_pend(4,5) show ?case by (auto intro: resolves_pend)
next
  case (ends_item x s' xs t)
  obtain fut c where fc: "f (any_f m) x = ret (fut, c)" "resolves q fut (P x)" by (rule computesE [OF assms(2)])
  let ?m = "m\<lparr>any_stream := s', any_f := c\<rparr>"
  have "resolves (any_poll p q f) (?m\<lparr>any_future := None\<rparr>) (list_ex P xs)"
    by (rule ends_item(3)) (use ends_item in simp_all)
  with fc(2) ends_item(4) have "resolves (any_poll p q f) (?m\<lparr>any_future := Some fut\<rparr>) (P x \<or> list_ex P xs)"
    by (intro any_wait) simp_all
  moreover have "any_poll p q f m = any_poll p q f (?m\<lparr>any_future := Some fut\<rparr>)"
    by (subst any_poll.simps) (simp add: ends_item fc)
  ultimately show ?case by (auto dest: resolves_cong)
qed

section \<open>next, into_future, select_next_some\<close>

text \<open>\<open>Next\<close> borrows the stream; its poll is the stream's.\<close>

definition next_poll :: "('st, 'a option) pollfn \<Rightarrow> ('st, 'a option) pollfn" where
  "next_poll poll_next stream = poll_next stream"

record 'st StreamFuture =
  sf_stream :: "'st option"

definition stream_future_new :: "'st \<Rightarrow> 'st StreamFuture" where
  "stream_future_new stream = \<lparr>sf_stream = Some stream\<rparr>"

definition stream_future_is_terminated :: "'st StreamFuture \<Rightarrow> bool" where
  "stream_future_is_terminated this \<longleftrightarrow> sf_stream this = None"

definition stream_future_poll ::
  "('st, 'a option) pollfn \<Rightarrow> ('st StreamFuture, 'a option \<times> 'st) pollfn" where
  "stream_future_poll poll_next this =
     (case sf_stream this of
        None \<Rightarrow> panic ''polling StreamFuture twice''
      | Some s \<Rightarrow>
          ready_poll (poll_next s) (\<lambda>s. this\<lparr>sf_stream := Some s\<rparr>) (\<lambda>item this.
            case sf_stream this of
              Some stream \<Rightarrow> ret (Ready (item, stream), this\<lparr>sf_stream := None\<rparr>)
            | None \<Rightarrow> panic ''called Option::unwrap() on a None value''))"

text \<open>\<open>SelectNextSome\<close>: the extra flag says that the task's waker has been woken.\<close>

definition select_next_some_poll ::
  "('st \<Rightarrow> bool) \<Rightarrow> ('st, 'a option) pollfn \<Rightarrow> 'st \<Rightarrow> (('a poll \<times> bool) \<times> 'st) comp" where
  "select_next_some_poll terminated poll_next stream =
     assertc (\<not> terminated stream) ''SelectNextSome polled after terminated''
       (bindc (poll_next stream) (\<lambda>(r, stream).
          case r of
            Pending \<Rightarrow> ret ((Pending, False), stream)
          | Ready (Some item) \<Rightarrow> ret ((Ready item, False), stream)
          | Ready None \<Rightarrow> assertc (terminated stream) ''assertion failed: self.stream.is_terminated()''
              (ret ((Pending, True), stream))))"

text \<open>The head of the stream and the stream with the rest of the items.\<close>

lemma stream_future_resolves:
  assumes "ends p st xs t"
  shows "\<exists>u. resolves (stream_future_poll p) (stream_future_new st) ((case xs of [] \<Rightarrow> None | x # _ \<Rightarrow> Some x), u)
    \<and> (case xs of [] \<Rightarrow> u = t | _ # ys \<Rightarrow> ends p u ys t)"
  using assms
proof (induction rule: ends.induct)
  case (ends_end s t)
  then have "stream_future_poll p (stream_future_new s) = ret (Ready (None, t), \<lparr>sf_stream = None\<rparr>)"
    by (simp add: stream_future_poll_def stream_future_new_def)
  then show ?case by (auto intro: resolves_ready)
next
  case (ends_pend s s' xs t)
  then have "stream_future_poll p (stream_future_new s) = ret (Pending, stream_future_new s')"
    by (simp add: stream_future_poll_def stream_future_new_def)
  with ends_pend(3) show ?case by (auto intro: resolves_pend)
next
  case (ends_item s x s' xs t)
  then have "stream_future_poll p (stream_future_new s) = ret (Ready (Some x, s'), \<lparr>sf_stream = None\<rparr>)"
    by (simp add: stream_future_poll_def stream_future_new_def)
  with ends_item(2) show ?case by (auto intro: resolves_ready)
qed

text \<open>
  \<open>select_next_some\<close> on a stream whose end terminates it: no panic, and a \<open>Pending\<close> is either the
  stream's own or comes with a wake-up, so that \<open>select!\<close> polls again and sees the terminated stream.
\<close>

lemma select_next_some_ok:
  assumes "\<not> term st" and "p st = ret (r, st')" and "r = Ready None \<Longrightarrow> term st'"
  shows "select_next_some_poll term p st =
    (case r of Ready (Some x) \<Rightarrow> ret ((Ready x, False), st')
     | Ready None \<Rightarrow> ret ((Pending, True), st') | Pending \<Rightarrow> ret ((Pending, False), st'))"
  using assms by (auto simp: select_next_some_poll_def split: poll.splits option.splits)

end
