(* ===== verification/Stream_Laws.thy ===== *)
theory Stream_Laws
  imports Stream_Filter Stream_Map Stream_Chunks Stream_Consume
begin

text \<open>
  The theorems about the stream adapters and consumers of \<open>futures-util/src/stream\<close>, and the
  interface between them: an adapter relies on its inner stream only through \<open>poll_next\<close> and
  \<open>size_hint\<close>, so what it needs is the contract \<open>finite_stream\<close>, and what it yields fulfils the same
  contract again. The locale is interpreted on \<open>iter\<close>, and through it on the adapters over \<open>iter\<close>.
\<close>

section \<open>The contract of a stream\<close>

text \<open>Polled to its end, the stream yields the items \<open>xs\<close>.\<close>

definition yields :: "('s, 'a option) pollfn \<Rightarrow> 's \<Rightarrow> 'a list \<Rightarrow> bool" where
  "yields p s xs \<longleftrightarrow> (\<exists>t. ends p s xs t)"

lemma yieldsI: "\<exists>t. ends p s xs t \<Longrightarrow> yields p s xs"
  by (simp add: yields_def)

lemma yieldsE:
  assumes "yields p s xs" obtains t where "ends p s xs t"
  using assms unfolding yields_def by (erule exE)

lemma yields_by: "yields p s xs \<Longrightarrow> (\<And>t. ends p s xs t \<Longrightarrow> \<exists>t'. ends q m ys t') \<Longrightarrow> yields q m ys"
  by (erule yieldsE, rule yieldsI)

lemma yields_det: "yields p s xs \<Longrightarrow> yields p s ys \<Longrightarrow> xs = ys"
  by (elim yieldsE) (blast dest: ends_det)

text \<open>
  From a state that satisfies \<open>ok\<close> the stream yields exactly \<open>items s\<close>, over any number of \<open>Pending\<close>s,
  and its \<open>size_hint\<close> is sound for what is left.
\<close>

locale finite_stream =
  fixes poll :: "('s, 'a option) pollfn" and size_hint :: "'s \<Rightarrow> hint"
    and items :: "'s \<Rightarrow> 'a list" and ok :: "'s \<Rightarrow> bool"
  assumes runs: "ok s \<Longrightarrow> yields poll s (items s)"
    and hints: "ok s \<Longrightarrow> hint_bounds (size_hint s) (length (items s))"
begin

lemma collected: "ok s \<Longrightarrow> resolves (collect_poll [] (\<lambda>c x. c @ [x]) poll) (collect_new [] s) (items s)"
  by (drule runs, erule yieldsE, erule collect_vec)

lemma folded: "ok s \<Longrightarrow> computes f q g \<Longrightarrow> resolves (fold_poll poll q f) (fold_new s c a) (foldl (\<lambda>a x. g (a, x)) a (items s))"
  by (drule runs, erule yieldsE, erule fold_resolves)

lemma counted: "ok s \<Longrightarrow> length (items s) < 2 ^ 64 \<Longrightarrow> resolves (count_poll poll) (count_new s) (word_of_nat (length (items s)))"
  by (drule runs, erule yieldsE, erule count_resolves)

lemma never_short: "ok s \<Longrightarrow> unat (fst (size_hint s)) \<le> length (items s)"
  using hints by (simp add: hint_bounds_def)

end

text \<open>Adapters that rely on nothing else give the contract back.\<close>

locale adapted_stream = finite_stream

sublocale adapted_stream \<subseteq> taken: finite_stream "take_poll_next poll" "take_size_hint size_hint"
  "\<lambda>m. take (unat (tk_remaining m)) (items (tk_stream m))" "\<lambda>m. ok (tk_stream m)"
  by unfold_locales (drule runs, erule yieldsE, rule yieldsI, erule take_ends, drule hints, erule take_hint)

sublocale adapted_stream \<subseteq> skipped: finite_stream "skip_poll_next poll" "skip_size_hint size_hint"
  "\<lambda>m. drop (unat (sk_remaining m)) (items (sk_stream m))" "\<lambda>m. ok (sk_stream m)"
  by unfold_locales (drule runs, erule yieldsE, rule yieldsI, erule skip_ends, drule hints, erule skip_hint)

text \<open>Adapters with a closure, for a closure whose futures compute \<open>P\<close>.\<close>

locale filtered_stream = finite_stream poll size_hint items ok
  for poll :: "('s, 'a option) pollfn" and size_hint :: "'s \<Rightarrow> hint" and items :: "'s \<Rightarrow> 'a list" and ok :: "'s \<Rightarrow> bool" +
  fixes pred :: "('c, 'a, 'fut) fnmut" and poll_fut :: "('fut, bool) pollfn" and P :: "'a \<Rightarrow> bool"
  assumes pred: "computes pred poll_fut P"

sublocale filtered_stream \<subseteq> filtered: finite_stream "filter_poll_next poll poll_fut pred" "filter_size_hint size_hint"
  "\<lambda>m. filter_rest P m (items (fl_stream m))" "\<lambda>m. ok (fl_stream m) \<and> filter_wf poll_fut P m"
  by unfold_locales (erule conjE, drule runs, erule yieldsE, rule yieldsI, erule filter_ends [OF _ pred], assumption, erule conjE, drule hints, erule filter_hint)

sublocale filtered_stream \<subseteq> taken_while: finite_stream "take_while_poll_next poll poll_fut pred" "take_while_size_hint size_hint"
  "\<lambda>m. take_while_rest P m (items (tw_stream m))" "\<lambda>m. ok (tw_stream m) \<and> take_while_wf poll_fut P m"
  by unfold_locales (erule conjE, drule runs, erule yieldsE, rule yieldsI, erule take_while_ends [OF _ pred], assumption, erule conjE, drule hints, erule take_while_hint)

sublocale filtered_stream \<subseteq> skipped_while: finite_stream "skip_while_poll_next poll poll_fut pred" "skip_while_size_hint size_hint"
  "\<lambda>m. skip_while_rest P m (items (sw_stream m))" "\<lambda>m. ok (sw_stream m) \<and> skip_while_wf poll_fut P m"
  by unfold_locales (erule conjE, drule runs, erule yieldsE, rule yieldsI, erule skip_while_ends [OF _ pred], assumption, erule conjE, drule hints, erule skip_while_hint)

subsection \<open>The providers\<close>

text \<open>Closures that return \<open>future::ready\<close> of a value, and plain closures.\<close>

definition ready_fn :: "('a \<Rightarrow> 'b) \<Rightarrow> (unit, 'a, 'b option) fnmut" where
  "ready_fn g c x = ret (Some (g x), c)"

definition plain_fn :: "('a \<Rightarrow> 'b) \<Rightarrow> (unit, 'a, 'b) fnmut" where
  "plain_fn g c x = ret (g x, c)"

lemma resolves_ready_fut: "resolves ready_poll_fut (Some x) x"
  by (rule resolves_ready [where t = None]) (simp add: ready_poll_fut_def)

lemma computes_ready_fn [intro, simp]: "computes (ready_fn g) ready_poll_fut g"
  by (auto simp: computes_def ready_fn_def Returns_ret intro: resolves_ready_fut)

lemma calls_plain_fn [intro, simp]: "calls (plain_fn g) () xs (map g xs) ()"
  by (induction xs) (auto simp: plain_fn_def intro: calls.intros)

text \<open>A Rust collection holds fewer than \<open>2 ^ 64\<close> items.\<close>

definition iter_ok :: "'a Iter \<Rightarrow> bool" where
  "iter_ok s \<longleftrightarrow> length (iter_iter s) < 2 ^ 64"

lemma iter_runs: "ends iter_poll_next s (iter_iter s) (iter [])"
  using iter_ends [of "iter_iter s"] by (cases s) (simp add: iter_def)

lemma iter_yields: "yields iter_poll_next s (iter_iter s)"
  by (rule yieldsI, rule exI, rule iter_runs)

interpretation iter_stream: adapted_stream iter_poll_next iter_size_hint iter_iter iter_ok
  by unfold_locales (rule iter_yields, simp add: iter_ok_def iter_hint)

interpretation map_iter: filtered_stream "map_poll_next iter_poll_next (plain_fn g)" "map_size_hint iter_size_hint"
  "\<lambda>m. map g (iter_iter (map_stream m))" "\<lambda>m. iter_ok (map_stream m)" "ready_fn P" ready_poll_fut P
  for g :: "'a \<Rightarrow> 'b" and P :: "'b \<Rightarrow> bool"
proof unfold_locales
  fix m :: "('a Iter, unit) Map" assume ok: "iter_ok (map_stream m)"
  have "ends (map_poll_next iter_poll_next (plain_fn g)) m (map g (iter_iter (map_stream m))) \<lparr>map_stream = iter [], map_f = ()\<rparr>"
    using map_ends [OF iter_runs] calls_plain_fn by (metis (full_types) old.unit.exhaust)
  then show "yields (map_poll_next iter_poll_next (plain_fn g)) m (map g (iter_iter (map_stream m)))" by (intro yieldsI exI)
  show "hint_bounds (map_size_hint iter_size_hint m) (length (map g (iter_iter (map_stream m))))"
    using iter_stream.hints [OF ok] by (simp add: map_size_hint_def)
qed simp

interpretation filter_iter: adapted_stream
  "filter_poll_next (map_poll_next iter_poll_next (plain_fn g)) ready_poll_fut (ready_fn P)"
  "filter_size_hint (map_size_hint iter_size_hint)"
  "\<lambda>m. filter_rest P m (map g (iter_iter (map_stream (fl_stream m))))"
  "\<lambda>m. iter_ok (map_stream (fl_stream m)) \<and> filter_wf ready_poll_fut P m"
  for g :: "'a \<Rightarrow> 'b" and P :: "'b \<Rightarrow> bool"
  by unfold_locales (rule map_iter.filtered.runs, assumption, rule map_iter.filtered.hints)

section \<open>Properties of the adapters\<close>

text \<open>
  C29. A pipeline computes the list function: collecting \<open>iter(xs).map(g).filter(P).take(n)\<close>, polled
  to its end, gives the first \<open>n\<close> of the mapped items that satisfy \<open>P\<close>, in order.
\<close>

theorem pipeline_collect:
  assumes "length xs < 2 ^ 64"
  shows "resolves
    (collect_poll [] (\<lambda>c x. c @ [x])
      (take_poll_next (filter_poll_next (map_poll_next iter_poll_next (plain_fn g)) ready_poll_fut (ready_fn P))))
    (collect_new [] (take_new (filter_new (map_new (iter xs) ()) ()) n))
    (take (unat n) (filter P (map g xs)))"
  using filter_iter.taken.collected [of "take_new (filter_new (map_new (iter xs) ()) ()) n" P g] assms
  by (simp add: take_new_def filter_wf_new iter_ok_def map_new_def filter_rest_def filter_new_def iter_def filter_wf_def)

lemma pipeline_collect_witness:
  "resolves
    (collect_poll [] (\<lambda>c x. c @ [x])
      (take_poll_next (filter_poll_next (map_poll_next iter_poll_next (plain_fn (\<lambda>x. x + 1))) ready_poll_fut (ready_fn even))))
    (collect_new [] (take_new (filter_new (map_new (iter [1, 2, 3, 4, 5 :: int]) ()) ()) 2)) [2, 4]"
  using pipeline_collect [of "[1, 2, 3, 4, 5 :: int]" "\<lambda>x. x + 1" even 2] by simp

text \<open>
  \<open>Filter\<close>, in any of its states: it yields the item it is holding, if the pending future
  accepts it, and then the items of the inner stream that satisfy the predicate, in order; and its
  \<open>size_hint\<close> bounds the number of these items whenever the inner one is sound.
\<close>

theorem filter_stream:
  assumes "yields p (fl_stream m) xs" and "computes f q P" and "filter_wf q P m"
    and "hint_bounds (h (fl_stream m)) (length xs)"
  shows "yields (filter_poll_next p q f) m (filter_rest P m xs)
    \<and> hint_bounds (filter_size_hint h m) (length (filter_rest P m xs))"
proof
  show "yields (filter_poll_next p q f) m (filter_rest P m xs)"
    by (rule yields_by [OF assms(1)]) (erule filter_ends [OF _ assms(2,3)])
qed (rule filter_hint [where h = h, OF assms(4)])

lemma filter_stream_witness:
  "yields (filter_poll_next iter_poll_next ready_poll_fut (ready_fn even))
     \<lparr>fl_stream = iter [1, 2, 4], fl_f = (), fl_pending_fut = Some (Some True), fl_pending_item = Some (6 :: int)\<rparr>
     [6, 2, 4]"
  using filter_stream [of iter_poll_next
      "\<lparr>fl_stream = iter [1, 2, 4], fl_f = (), fl_pending_fut = Some (Some True), fl_pending_item = Some (6 :: int)\<rparr>"
      "[1, 2, 4]" "ready_fn even" ready_poll_fut even iter_size_hint]
    iter_yields [of "iter [1, 2, 4 :: int]"] iter_hint [of "iter [1, 2, 4 :: int]"] resolves_ready_fut [of True]
  by (simp add: filter_wf_def filter_rest_def iter_def)

text \<open>
  \<open>TakeWhile\<close>: it yields the longest prefix of the inner items that satisfies the predicate and
  then ends, with a sound \<open>size_hint\<close>.
\<close>

theorem take_while_stream:
  assumes "yields p st xs" and "computes f q P" and "hint_bounds (h st) (length xs)" and "m = take_while_new st c"
  shows "yields (take_while_poll_next p q f) m (takeWhile P xs)
    \<and> hint_bounds (take_while_size_hint h m) (length (takeWhile P xs))"
proof
  have m: "take_while_rest P m xs = takeWhile P xs" "tw_stream m = st" "take_while_wf q P m"
    using assms(4) take_while_wf_new by (simp_all add: take_while_rest_def take_while_new_def)
  have "yields (take_while_poll_next p q f) m (take_while_rest P m xs)"
    by (rule yields_by [OF assms(1) [folded m(2)]]) (rule take_while_ends [OF _ assms(2) m(3)])
  then show "yields (take_while_poll_next p q f) m (takeWhile P xs)" by (simp only: m(1))
  show "hint_bounds (take_while_size_hint h m) (length (takeWhile P xs))"
    using take_while_hint [where m = m and h = h and xs = xs and P = P] assms(3) by (simp only: m)
qed

lemma take_while_stream_witness:
  "yields (take_while_poll_next iter_poll_next ready_poll_fut (ready_fn odd)) (take_while_new (iter [1, 3, 4, 5 :: int]) ()) [1, 3]"
  using take_while_stream [OF iter_yields [of "iter [1, 3, 4, 5 :: int]"] computes_ready_fn [of odd] _ refl, of iter_size_hint]
    iter_hint [of "iter [1, 3, 4, 5 :: int]"] by (simp add: iter_def)

text \<open>
  \<open>SkipWhile\<close>: it yields what is left after the longest prefix that satisfies the predicate; the
  predicate is not asked again. Its \<open>size_hint\<close> is sound.
\<close>

theorem skip_while_stream:
  assumes "yields p st xs" and "computes f q P" and "hint_bounds (h st) (length xs)" and "m = skip_while_new st c"
  shows "yields (skip_while_poll_next p q f) m (dropWhile P xs)
    \<and> hint_bounds (skip_while_size_hint h m) (length (dropWhile P xs))"
proof
  have m: "skip_while_rest P m xs = dropWhile P xs" "sw_stream m = st" "skip_while_wf q P m"
    using assms(4) skip_while_wf_new by (simp_all add: skip_while_rest_def skip_while_new_def)
  have "yields (skip_while_poll_next p q f) m (skip_while_rest P m xs)"
    by (rule yields_by [OF assms(1) [folded m(2)]]) (rule skip_while_ends [OF _ assms(2) m(3)])
  then show "yields (skip_while_poll_next p q f) m (dropWhile P xs)" by (simp only: m(1))
  show "hint_bounds (skip_while_size_hint h m) (length (dropWhile P xs))"
    using skip_while_hint [where m = m and h = h and xs = xs and P = P] assms(3) by (simp only: m)
qed

lemma skip_while_stream_witness:
  "yields (skip_while_poll_next iter_poll_next ready_poll_fut (ready_fn odd)) (skip_while_new (iter [1, 3, 4, 5 :: int]) ()) [4, 5]"
  using skip_while_stream [OF iter_yields [of "iter [1, 3, 4, 5 :: int]"] computes_ready_fn [of odd] _ refl, of iter_size_hint]
    iter_hint [of "iter [1, 3, 4, 5 :: int]"] by (simp add: iter_def)

text \<open>
  \<open>Take\<close> ends after its number of items without asking the inner stream for more, even when that
  stream would never end: it is enough that it gives the first \<open>n\<close> items.
\<close>

theorem take_stream:
  assumes "gives p st xs u" and "length xs = unat n"
  shows "yields (take_poll_next p) (take_new st n) xs"
  by (rule yieldsI, rule take_ends_early) (use assms in \<open>simp_all add: take_new_def\<close>)

lemma take_stream_witness:
  "yields (take_poll_next repeat_poll_next) (take_new \<lparr>repeat_item = 7 :: int\<rparr> 3) [7, 7, 7]"
proof -
  have "yields (take_poll_next repeat_poll_next) (take_new \<lparr>repeat_item = 7 :: int\<rparr> 3) (replicate 3 7)"
    by (rule take_stream [where u = "\<lparr>repeat_item = 7\<rparr>"]) (use repeat_gives [of "\<lparr>repeat_item = 7 :: int\<rparr>" 3] in simp_all)
  then show ?thesis by (simp add: numeral_3_eq_3)
qed

text \<open>
  \<open>TakeUntil\<close>: what it yields is a prefix of the inner items, whenever the stopping future
  completes; and once it has completed nothing more is yielded.
\<close>

theorem take_until_stream:
  assumes "yields p st xs" and "\<And>fut. \<exists>r. q fut = ret r" and "m = take_until_new st fut"
  shows "\<exists>ys zs. xs = ys @ zs \<and> yields (take_until_poll_next p q) m ys
    \<and> (\<forall>r fut'. q fut = ret (Ready r, fut') \<longrightarrow> ys = [])"
proof -
  have m: "tu_stream m = st" "\<not> tu_free m" "tu_fut m = Some fut" using assms(3) by (simp_all add: take_until_new_def)
  obtain t where "ends p (tu_stream m) xs t" using assms(1) m(1) by (auto elim: yieldsE)
  from take_until_ends [where q = q and m = m, OF this assms(2)] m(2)
  obtain ys t' zs where ys: "ends (take_until_poll_next p q) m ys t'" "xs = ys @ zs" by blast
  then have y: "yields (take_until_poll_next p q) m ys" by (intro yieldsI exI)
  have "ys = []" if "q fut = ret (Ready r, fut')" for r fut'
  proof -
    from take_until_cut [where p = p and q = q, OF m(3) that m(2)] have "yields (take_until_poll_next p q) m []"
      by (intro yieldsI exI) (rule ends_end)
    with y show ?thesis by (rule yields_det)
  qed
  with y ys(2) show ?thesis by blast
qed

lemma take_until_stream_witness:
  "\<exists>ys zs. [5, 6, 7] = ys @ zs \<and> yields (take_until_poll_next iter_poll_next (\<lambda>k. ret (if k = 0 then Ready () else Pending, k - 1)))
     (take_until_new (iter [5, 6, 7 :: int]) (2 :: int)) ys"
  using take_until_stream [OF iter_yields [of "iter [5, 6, 7 :: int]"] _ refl, of "\<lambda>k. ret (if k = 0 then Ready () else Pending, k - 1)" "2 :: int"]
  by (auto simp: iter_def)

text \<open>
  \<open>Scan\<close> threads its state through the items and stops for good at the first \<open>None\<close>, like the
  list function \<open>scan_list\<close>.
\<close>

theorem scan_stream:
  assumes "yields p st xs" and "computes f q g"
  shows "yields (scan_poll_next p q f) (scan_new st s c) (scan_list g s xs)"
  by (rule yields_by [OF assms(1)]) (rule scan_ends [OF _ assms(2)])

lemma scan_stream_witness:
  "yields (scan_poll_next iter_poll_next ready_poll_fut (ready_fn (\<lambda>(s, x). if x = 0 then None else Some (s + x, s * 10 + x))))
     (scan_new (iter [1, 2, 0, 4]) (0 :: int) ()) [1, 12]"
  using scan_stream [OF iter_yields computes_ready_fn [of "\<lambda>(s, x). if x = 0 then None else Some (s + x, s * 10 + x)"],
      of "iter [1, 2, 0, 4]" "0 :: int" "()"] by (simp add: iter_def)

text \<open>
  \<open>Fuse\<close> yields the inner items and, after the end, \<open>None\<close> again and again, whatever the inner
  stream would do if it were polled after its end: its state no longer changes.
\<close>

theorem fuse_stream:
  assumes "yields p st xs"
  shows "\<exists>t. ends (fuse_poll_next p) (fuse_new st) xs t \<and> fuse_poll_next p t = ret (Ready None, t) \<and> fuse_is_terminated t"
proof -
  obtain u where "ends p st xs u" using assms by (rule yieldsE)
  then obtain t where t: "ends (fuse_poll_next p) (fuse_new st) xs t" "fuse_poll_next p t = ret (Ready None, t)"
    using fuse_ends by metis
  moreover have "fuse_is_terminated t" using fuse_end_done [OF t(2)] by (simp add: fuse_is_terminated_def)
  ultimately show ?thesis by blast
qed

lemma fuse_stream_witness:
  "\<exists>t. ends (fuse_poll_next iter_poll_next) (fuse_new (iter [1, 2 :: int])) [1, 2] t
     \<and> fuse_poll_next iter_poll_next t = ret (Ready None, t) \<and> fuse_is_terminated t"
  using fuse_stream [OF iter_yields, of "iter [1, 2 :: int]"] by (simp add: iter_def)

text \<open>
  C34. \<open>Zip\<close> pairs the items of the two streams in order and ends with the shorter one, under any
  interleaving of items and \<open>Pending\<close>s of the two; its \<open>size_hint\<close> is sound when the inner ones are.
\<close>

theorem zip_stream:
  assumes "yields p1 st1 xs" and "yields p2 st2 ys" and "m = zip_new st1 st2"
    and "hint_bounds (h1 st1) (length xs)" and "hint_bounds (h2 st2) (length ys)"
  shows "yields (zip_poll_next p1 p2) m (zip xs ys) \<and> hint_bounds (zip_size_hint h1 h2 m) (length (zip xs ys))"
proof
  obtain t1 where t1: "ends p1 st1 xs t1" using assms(1) by (rule yieldsE)
  obtain t2 where t2: "ends p2 st2 ys t2" using assms(2) by (rule yieldsE)
  show "yields (zip_poll_next p1 p2) m (zip xs ys)"
    unfolding assms(3) by (rule yieldsI) (rule zip_ends [OF t1 t2])
  obtain n1 n2 where n: "fuse_run p1 n1 (fuse_new st1) xs" "fuse_run p2 n2 (fuse_new st2) ys"
    using fuse_run_new [OF t1] fuse_run_new [OF t2] by blast
  have m: "zip_stream1 m = fuse_new st1" "zip_stream2 m = fuse_new st2" "zip_queued1 m = None" "zip_queued2 m = None"
    by (simp_all add: zip_new_def assms(3))
  show "hint_bounds (zip_size_hint h1 h2 m) (length (zip xs ys))"
    by (rule zip_hint [where ?p1.0 = p1 and ?p2.0 = p2 and ?n1.0 = n1 and ?n2.0 = n2])
      (use n m assms(4,5) in \<open>simp_all add: zip_side_def fuse_size_hint_def fuse_new_def\<close>)
qed

lemma zip_stream_witness:
  "yields (zip_poll_next iter_poll_next iter_poll_next) (zip_new (iter [1, 2, 3 :: int]) (iter [True, False])) [(1, True), (2, False)]"
  using zip_stream [OF iter_yields [of "iter [1, 2, 3 :: int]"] iter_yields [of "iter [True, False]"] refl, of iter_size_hint iter_size_hint]
    iter_hint [of "iter [1, 2, 3 :: int]"] iter_hint [of "iter [True, False]"] by (simp add: iter_def)

text \<open>
  \<open>Flatten\<close> yields the items of the inner streams one stream after the other, in order, including
  empty ones.
\<close>

theorem flatten_stream:
  assumes "yields p st us" and "list_all2 (yields q) us yss"
  shows "yields (flatten_poll_next p q) (flatten_new st) (concat yss)"
proof -
  have l: "list_all2 (\<lambda>u ys. \<exists>t. ends q u ys t) us yss" using assms(2)
    by (rule list_all2_mono) (auto elim: yieldsE)
  show ?thesis
    by (rule yields_by [OF assms(1)], rule flatten_ends [OF _ l])
      (simp_all add: flatten_new_def)
qed

lemma flatten_stream_witness:
  "yields (flatten_poll_next iter_poll_next iter_poll_next)
     (flatten_new (iter [iter [1, 2], iter [], iter [3 :: int]])) [1, 2, 3]"
  using flatten_stream [OF iter_yields, of iter_poll_next "iter [iter [1, 2], iter [], iter [3 :: int]]" "[[1, 2], [], [3]]"]
    iter_yields [of "iter [1, 2 :: int]"] iter_yields [of "iter ([] :: int list)"] iter_yields [of "iter [3 :: int]"]
  by (simp add: iter_def)

text \<open>
  \<open>Cycle\<close> repeats a stream that is not empty for ever: whatever number of rounds is asked for.
\<close>

theorem cycle_stream:
  assumes "yields p st xs" and "xs \<noteq> []"
  shows "\<exists>u. gives (cycle_poll_next p) (cycle_new st) (concat (replicate n xs)) u"
proof (cases n)
  case 0
  show ?thesis by (simp add: 0) (rule exI, rule gives_stop)
next
  case (Suc k)
  obtain t where "ends p st xs t" using assms(1) by (rule yieldsE)
  from cycle_gives [OF this assms(2)] Suc show ?thesis by simp
qed

lemma cycle_stream_witness:
  "\<exists>u. gives (cycle_poll_next iter_poll_next) (cycle_new (iter [1, 2 :: int])) [1, 2, 1, 2] u"
  using cycle_stream [OF iter_yields, of "iter [1, 2 :: int]" 2] by (simp add: iter_def numeral_2_eq_2)

text \<open>
  \<open>Chunks\<close>: the chunks put together are the inner items in order; every chunk but the last has
  exactly \<open>cap\<close> items and the last one has between \<open>1\<close> and \<open>cap\<close>, so there are
  \<open>\<lceil>length xs / cap\<rceil>\<close> of them; and \<open>size_hint\<close> bounds that number.
\<close>

theorem chunks_stream:
  assumes "yields p st xs" and "chunks_new st cap = ret m" and "hint_bounds (h st) (length xs)"
  shows "\<exists>yss. yields (chunks_poll_next p) m yss \<and> concat yss = xs
    \<and> (\<forall>ys \<in> set yss. 0 < length ys \<and> length ys \<le> unat cap) \<and> (\<forall>ys \<in> set (butlast yss). length ys = unat cap)
    \<and> length yss = (length xs + (unat cap - 1)) div unat cap
    \<and> hint_bounds (chunks_size_hint h m) (length yss)"
proof -
  have m: "ck_stream m = fuse_new st" "ck_items m = []" "ck_cap m = cap" "0 < unat cap"
    using assms(2) by (auto simp: chunks_new_def assertc_def unat_gt_0 split: if_splits)
  obtain t where t: "ends (fuse_poll_next p) (fuse_new st) xs t"
    using assms(1) fuse_ends by (metis yieldsE)
  let ?l = "chunk_list (unat cap) [] xs"
  have "yields (chunks_poll_next p) m ?l"
    using chunks_ends [where m = m and p = p and xs = xs and t = t] t m by (simp add: yields_def)
  moreover have "hint_bounds (chunks_size_hint h m) (length ?l)"
    using chunks_hint [where m = m and h = h and xs = xs] m assms(3) by (simp add: fuse_size_hint_def fuse_new_def)
  ultimately show ?thesis using m(4) concat_chunk_list [of "unat cap" "[]" xs] length_chunk_list [of "[]" "unat cap" xs]
      chunk_list_lengths [of "[]" "unat cap" _ xs] chunk_list_full [of "[]" "unat cap" _ xs]
    by (intro exI [of _ ?l]) simp
qed

lemma chunks_stream_witness:
  "\<exists>yss. yields (chunks_poll_next iter_poll_next) \<lparr>ck_stream = fuse_new (iter [1, 2, 3 :: int]), ck_items = [], ck_cap = 2\<rparr> yss
     \<and> concat yss = [1, 2, 3] \<and> length yss = 2"
proof -
  have "chunks_new (iter [1, 2, 3 :: int]) 2 = ret \<lparr>ck_stream = fuse_new (iter [1, 2, 3]), ck_items = [], ck_cap = 2\<rparr>"
    by (simp add: chunks_new_def)
  from chunks_stream [where h = iter_size_hint, OF iter_yields this iter_hint]
  have "\<exists>yss. yields (chunks_poll_next iter_poll_next) \<lparr>ck_stream = fuse_new (iter [1, 2, 3 :: int]), ck_items = [], ck_cap = 2\<rparr> yss
     \<and> concat yss = iter_iter (iter [1, 2, 3]) \<and> length yss = (length (iter_iter (iter [1, 2, 3 :: int])) + (unat (2 :: usize) - 1)) div unat (2 :: usize)"
    by (simp add: iter_def) blast
  then show ?thesis by (simp add: iter_def) (simp add: numeral_2_eq_2)
qed

text \<open>
  \<open>ReadyChunks\<close>: no item is lost, duplicated or reordered, no chunk is empty or over the capacity,
  and \<open>size_hint\<close> bounds the number of chunks, wherever the inner \<open>Pending\<close>s fall.
\<close>

theorem ready_chunks_stream:
  assumes "yields p st xs" and "ready_chunks_new st cap = ret m" and "hint_bounds (h st) (length xs)"
  shows "\<exists>yss. yields (ready_chunks_poll_next p) m yss \<and> concat yss = xs
    \<and> (\<forall>ys \<in> set yss. ys \<noteq> [] \<and> length ys \<le> unat cap) \<and> hint_bounds (ready_chunks_size_hint h m) (length yss)"
proof -
  have m: "rc_stream m = fuse_new st" "rc_cap m = cap" "0 < cap"
    using assms(2) by (auto simp: ready_chunks_new_def assertc_def split: if_splits)
  obtain t where t: "ends p st xs t" using assms(1) by (rule yieldsE)
  obtain yss t' where y: "ends (ready_chunks_poll_next p) m yss t'" "chunking (unat cap) xs yss"
    using ready_chunks_ends [OF t assms(2)] by blast
  then have "hint_bounds (ready_chunks_size_hint h m) (length yss)"
    using ready_chunks_hint [where m = m and h = h and xs = xs and yss = yss] m assms(3)
    by (simp add: fuse_size_hint_def fuse_new_def)
  with y show ?thesis by (auto simp: chunking_def intro!: exI [of _ yss] yieldsI)
qed

lemma ready_chunks_stream_witness:
  "\<exists>yss. yields (ready_chunks_poll_next iter_poll_next) \<lparr>rc_stream = fuse_new (iter [1, 2, 3 :: int]), rc_cap = 2\<rparr> yss
     \<and> concat yss = [1, 2, 3]"
proof -
  have "ready_chunks_new (iter [1, 2, 3 :: int]) 2 = ret \<lparr>rc_stream = fuse_new (iter [1, 2, 3]), rc_cap = 2\<rparr>"
    by (simp add: ready_chunks_new_def)
  from ready_chunks_stream [where h = iter_size_hint, OF iter_yields this iter_hint] show ?thesis
    by (auto simp: iter_def)
qed

text \<open>
  \<open>Enumerate\<close> counts from zero, without the overflow of its \<open>usize\<close> counter as long as the
  stream has fewer than \<open>2 ^ 64\<close> items.
\<close>

theorem enumerate_stream:
  assumes "yields p st xs" and "length xs < 2 ^ 64"
  shows "yields (enumerate_poll_next p) (enumerate_new st) (zip (map word_of_nat [0..<length xs]) xs)"
  by (rule yields_by [OF assms(1)])
    (use enumerate_ends [where m = "enumerate_new st"] assms(2) in \<open>simp add: enumerate_new_def\<close>)

lemma enumerate_stream_witness:
  "yields (enumerate_poll_next iter_poll_next) (enumerate_new (iter ''abc'')) [(0, CHR ''a''), (1, CHR ''b''), (2, CHR ''c'')]"
  using enumerate_stream [OF iter_yields, of "iter ''abc''"] by (simp add: iter_def upt_conv_Cons)

text \<open>
  \<open>fold\<close> resolves to the left fold of the items, over any number of \<open>Pending\<close>s of the stream and of
  the futures of its closure.
\<close>

theorem fold_stream:
  assumes "yields p st xs" and "computes f q g"
  shows "resolves (fold_poll p q f) (fold_new st c a) (foldl (\<lambda>a x. g (a, x)) a xs)"
  using assms(1) by (rule yieldsE) (rule fold_resolves [OF _ assms(2)])

lemma fold_stream_witness:
  "resolves (fold_poll iter_poll_next ready_poll_fut (ready_fn (\<lambda>(a, x). a * 10 + x))) (fold_new (iter [1, 2, 3]) () 0) (123 :: int)"
  using fold_stream [OF iter_yields computes_ready_fn [of "\<lambda>(a, x). a * 10 + x"], of "iter [1, 2, 3]" "()" "0 :: int"]
  by (simp add: iter_def)

text \<open>
  \<open>all\<close> and \<open>any\<close> resolve to the quantified predicate over the items.
\<close>

theorem all_any_stream:
  assumes "yields p st xs" and "computes f q P"
  shows "resolves (all_poll p q f) (all_new st c) (\<forall>x \<in> set xs. P x)
    \<and> resolves (any_poll p q f) (any_new st c) (\<exists>x \<in> set xs. P x)"
proof -
  obtain t where "ends p st xs t" using assms(1) by (rule yieldsE)
  then show ?thesis
    using all_resolves_from [where m = "all_new st c", OF _ assms(2)] any_resolves_from [where m = "any_new st c", OF _ assms(2)]
    by (simp add: all_new_def any_new_def list_all_iff list_ex_iff)
qed

lemma all_any_stream_witness:
  "resolves (all_poll iter_poll_next ready_poll_fut (ready_fn even)) (all_new (iter [2, 4, 5 :: int]) ()) False
    \<and> resolves (any_poll iter_poll_next ready_poll_fut (ready_fn even)) (any_new (iter [2, 4, 5 :: int]) ()) True"
  using all_any_stream [OF iter_yields computes_ready_fn [of even], of "iter [2, 4, 5 :: int]" "()"] by (simp add: iter_def)


end
