(* ===== verification/Mpsc_State.thy ===== *)
theory Mpsc_State
  imports Futures_Prelude
begin

text \<open>
  The state word of the channels of \<open>futures-channel/src/mpsc/mod.rs\<close>: the \<open>open\<close> flag in the
  left-most bit and the number of messages in the other 63 bits, with the constants and the helpers
  \<open>decode_state\<close>, \<open>encode_state\<close>, \<open>State::is_closed\<close> and \<open>State::size_hint\<close>, and the error types.
  The lemmas say what the atomic updates of the word (increment by re-encoding, \<open>fetch_sub(1)\<close>,
  \<open>fetch_and(!OPEN_MASK)\<close>) do to the decoded state.
\<close>

section \<open>Constants, decoding and encoding\<close>

definition OPEN_MASK :: usize where
  "OPEN_MASK = USIZE_MAX - drop_bit 1 USIZE_MAX"

definition INIT_STATE :: usize where
  "INIT_STATE = OPEN_MASK"

definition MAX_CAPACITY :: usize where
  "MAX_CAPACITY = NOT OPEN_MASK"

definition MAX_BUFFER :: usize where
  "MAX_BUFFER = drop_bit 1 MAX_CAPACITY"

record State =
  is_open :: bool
  num_messages :: usize

definition decode_state :: "usize \<Rightarrow> State" where
  "decode_state num = \<lparr>is_open = (num AND OPEN_MASK = OPEN_MASK), num_messages = num AND MAX_CAPACITY\<rparr>"

definition encode_state :: "State \<Rightarrow> usize" where
  "encode_state state =
     (let num = num_messages state in if is_open state then num OR OPEN_MASK else num)"

definition state_is_closed :: "State \<Rightarrow> bool" where
  "state_is_closed this \<longleftrightarrow> \<not> is_open this \<and> num_messages this = 0"

definition state_size_hint :: "State \<Rightarrow> hint" where
  "state_size_hint this =
     (if is_open this then (num_messages this, None) else (num_messages this, Some (num_messages this)))"

datatype SendErrorKind = Full | Disconnected

definition send_error_is_full :: "SendErrorKind \<Rightarrow> bool" where
  "send_error_is_full k \<longleftrightarrow> (case k of Full \<Rightarrow> True | _ \<Rightarrow> False)"

definition send_error_is_disconnected :: "SendErrorKind \<Rightarrow> bool" where
  "send_error_is_disconnected k \<longleftrightarrow> (case k of Disconnected \<Rightarrow> True | _ \<Rightarrow> False)"

datatype TryRecvError = RecvEmpty | RecvClosed

section \<open>The word as two numbers\<close>

lemma bit_unat_ge:
  fixes w :: "'a :: len word"
  assumes "unat w < 2 * 2 ^ n"
  shows "bit w n \<longleftrightarrow> 2 ^ n \<le> unat w"
proof -
  have "bit w n \<longleftrightarrow> bit (unat w) n" by (auto simp: bit_unsigned_iff dest: bit_imp_le_length)
  also have "\<dots> \<longleftrightarrow> odd (unat w div 2 ^ n)" by (rule bit_iff_odd)
  also have "\<dots> \<longleftrightarrow> 2 ^ n \<le> unat w"
  proof (cases "2 ^ n \<le> unat w")
    case True
    then have "unat w div 2 ^ n = Suc ((unat w - 2 ^ n) div 2 ^ n)" by (simp add: le_div_geq)
    moreover have "(unat w - 2 ^ n) div 2 ^ n = 0" using assms by simp
    ultimately show ?thesis using True by simp
  qed simp
  finally show ?thesis .
qed

lemma unat_take_bit: "unat (take_bit n w :: 'a :: len word) = unat w mod 2 ^ n"
  by (subst unsigned_take_bit_eq) (rule take_bit_eq_mod)

lemma OPEN_MASK_eq: "OPEN_MASK = 2 ^ 63"
  by (simp add: OPEN_MASK_def USIZE_MAX_def drop_bit_eq_div)

lemma MAX_CAPACITY_eq: "MAX_CAPACITY = mask 63"
  by (simp add: MAX_CAPACITY_def OPEN_MASK_eq mask_eq_exp_minus_1)

lemma unat_MAX_CAPACITY: "unat MAX_CAPACITY = 2 ^ 63 - 1"
  by (simp add: MAX_CAPACITY_eq mask_eq_exp_minus_1)

lemma unat_MAX_BUFFER: "unat MAX_BUFFER = 2 ^ 62 - 1"
  by (simp add: MAX_BUFFER_def MAX_CAPACITY_eq mask_eq_exp_minus_1 drop_bit_eq_div)

text \<open>The number of messages, and whether the channel is open.\<close>

definition st_num :: "usize \<Rightarrow> nat" where
  "st_num w = unat (num_messages (decode_state w))"

definition st_open :: "usize \<Rightarrow> bool" where
  "st_open w = is_open (decode_state w)"

lemma st_num_eq: "st_num w = unat w mod 2 ^ 63"
  unfolding st_num_def decode_state_def MAX_CAPACITY_eq
  by (simp only: State.select_convs take_bit_eq_mask [symmetric] unat_take_bit)

lemma st_open_bit: "st_open w \<longleftrightarrow> bit w 63"
  unfolding st_open_def decode_state_def OPEN_MASK_eq State.select_convs by (rule and_exp_iff) simp

lemma st_open_eq: "st_open w \<longleftrightarrow> 2 ^ 63 \<le> unat w"
  unfolding st_open_bit by (rule bit_unat_ge) (use unat_usize_less [of w] in simp)

lemma unat_state: "unat w = (if st_open w then 2 ^ 63 else 0) + st_num w"
proof (cases "st_open w")
  case True
  then have "2 ^ 63 \<le> unat w" by (simp add: st_open_eq)
  moreover have "unat w < 2 * 2 ^ 63" using unat_usize_less [of w] by simp
  ultimately have "unat w mod 2 ^ 63 = unat w - 2 ^ 63" by (simp add: mod_if mod_less le_mod_geq)
  with True \<open>2 ^ 63 \<le> unat w\<close> show ?thesis by (simp add: st_num_eq)
qed (simp add: st_num_eq st_open_eq)

lemma st_num_less: "st_num w < 2 ^ 63"
  by (simp add: st_num_eq)

lemma st_unique:
  assumes "unat w = (if b then 2 ^ 63 else 0) + n" and "n < 2 ^ 63"
  shows "st_open w = b \<and> st_num w = n"
  using assms by (auto simp: st_open_eq st_num_eq mod_if)

section \<open>The atomic updates\<close>

lemma st_init: "st_open INIT_STATE" "st_num INIT_STATE = 0"
proof -
  have "unat INIT_STATE = (if True then 2 ^ 63 else 0) + 0" by (simp add: INIT_STATE_def OPEN_MASK_eq)
  from st_unique [OF this] show "st_open INIT_STATE" "st_num INIT_STATE = 0" by simp_all
qed

lemma encode_state_st:
  assumes "unat (num_messages s) < 2 ^ 63"
  shows "st_open (encode_state s) = is_open s \<and> st_num (encode_state s) = unat (num_messages s)"
proof -
  have "\<not> bit (num_messages s) 63"
    using assms st_open_eq [of "num_messages s"] by (simp add: st_open_bit [symmetric])
  then have "num_messages s AND 2 ^ 63 = 0" by (subst and_exp_0_iff) simp_all
  then have o: "num_messages s OR 2 ^ 63 = num_messages s + 2 ^ 63" by (simp add: disjunctive_add_eq_or)
  have "unat (encode_state s) = (if is_open s then 2 ^ 63 else 0) + unat (num_messages s)"
  proof (cases "is_open s")
    case True
    then have "encode_state s = num_messages s + 2 ^ 63" by (simp only: encode_state_def Let_def OPEN_MASK_eq o if_True)
    moreover have "unat (num_messages s + 2 ^ 63) = unat (num_messages s) + unat (2 ^ 63 :: usize)"
      by (rule unat_add_usize) (use assms in simp)
    ultimately show ?thesis using True by simp
  qed (simp add: encode_state_def)
  from st_unique [OF this assms] show ?thesis .
qed

text \<open>Decoding is the inverse of encoding, in both directions.\<close>

lemma decode_encode:
  assumes "unat (num_messages s) < 2 ^ 63"
  shows "decode_state (encode_state s) = s"
proof -
  have "is_open (decode_state (encode_state s)) = is_open s"
    and "num_messages (decode_state (encode_state s)) = num_messages s"
    using encode_state_st [OF assms] by (simp_all add: st_open_def st_num_def word_unat_eq_iff)
  then show ?thesis by (cases s; cases "decode_state (encode_state s)") simp
qed

lemma encode_decode: "encode_state (decode_state w) = w"
proof -
  have "unat (num_messages (decode_state w)) < 2 ^ 63" using st_num_less by (simp add: st_num_def)
  from encode_state_st [OF this]
  have "st_open (encode_state (decode_state w)) = st_open w" "st_num (encode_state (decode_state w)) = st_num w"
    by (simp_all add: st_open_def st_num_def)
  then have "unat (encode_state (decode_state w)) = unat w" by (simp only: unat_state)
  then show ?thesis by (simp only: word_unat_eq_iff)
qed

lemma st_dec:
  assumes "0 < st_num w"
  shows "st_open (w - 1) = st_open w \<and> st_num (w - 1) = st_num w - 1"
proof (rule st_unique)
  have "w \<noteq> 0" using assms by (auto simp: st_num_eq)
  then have "unat (w - 1) = unat w - 1" by (rule unat_pred_usize)
  with assms show "unat (w - 1) = (if st_open w then 2 ^ 63 else 0) + (st_num w - 1)"
    unfolding unat_state [of w] by simp
  show "st_num w - 1 < 2 ^ 63" using st_num_less [of w] by simp
qed

lemma st_close: "\<not> st_open (w AND NOT OPEN_MASK) \<and> st_num (w AND NOT OPEN_MASK) = st_num w"
proof -
  have "NOT OPEN_MASK = mask 63" using MAX_CAPACITY_eq by (simp add: MAX_CAPACITY_def)
  then have "unat (w AND NOT OPEN_MASK) = unat w mod 2 ^ 63"
    by (simp only: take_bit_eq_mask [symmetric] unat_take_bit)
  then have "unat (w AND NOT OPEN_MASK) = (if False then 2 ^ 63 else 0) + st_num w" by (simp add: st_num_eq)
  from st_unique [OF this st_num_less] show ?thesis by simp
qed

lemma state_is_closed_st: "state_is_closed (decode_state w) \<longleftrightarrow> \<not> st_open w \<and> st_num w = 0"
  by (auto simp: state_is_closed_def st_open_def st_num_def unat_eq_0)

section \<open>Round trip\<close>

text \<open>
  C40. Round trip: decoding what \<open>encode_state\<close> wrote gives the state back, for every flag and every number
  of messages up to \<open>MAX_CAPACITY\<close> (the most \<open>inc_num_messages\<close> lets through), and encoding what
  \<open>decode_state\<close> read gives the word back, for every word. So the word of the code and the pair
  of flag and counter determine each other, and no counter value spills into the flag.
\<close>

theorem state_roundtrip:
  "(\<forall>s. num_messages s \<le> MAX_CAPACITY \<longrightarrow> decode_state (encode_state s) = s) \<and> encode_state (decode_state w) = w"
proof (intro conjI allI impI)
  fix s :: State assume "num_messages s \<le> MAX_CAPACITY"
  then have "unat (num_messages s) < 2 ^ 63" using unat_MAX_CAPACITY by (simp add: word_le_nat_alt)
  then show "decode_state (encode_state s) = s" by (rule decode_encode)
qed (rule encode_decode)

theorem state_roundtrip_witness:
  "decode_state (encode_state \<lparr>is_open = True, num_messages = 3\<rparr>) = \<lparr>is_open = True, num_messages = 3\<rparr>"
proof -
  have "num_messages \<lparr>is_open = True, num_messages = 3\<rparr> \<le> MAX_CAPACITY"
    using unat_MAX_CAPACITY by (simp add: word_le_nat_alt)
  with state_roundtrip [of 0] show ?thesis by blast
qed

end
