(* ===== verification/Mpsc_Queue.thy ===== *)
theory Mpsc_Queue
  imports Futures_Prelude
begin

text \<open>
  The linked queue of \<open>futures-channel/src/mpsc/queue.rs\<close> (Vyukov's multi-producer single-consumer
  queue): a heap of nodes, the atomic \<open>head\<close> the pushers swap and the \<open>tail\<close> only the popper
  touches. A push is three actions (allocate, swap \<open>head\<close>, store \<open>next\<close>) and a pop is two or
  three; actions of the threads interleave. Dereferencing a node that is not allocated is the
  crash of the model. \<open>mq_pushed\<close> and \<open>mq_popped\<close> are ghosts: the values in the order of the
  swaps of \<open>head\<close>, and the values pops have returned.
\<close>

section \<open>State and steps\<close>

type_synonym addr = nat

record 'a node =
  nd_next :: "addr option"
  nd_value :: "'a option"

text \<open>\<open>enum PopResult\<close>.\<close>

datatype 'a pop_result = Data 'a | Empty | Inconsistent

datatype push_pc = PushIdle | PushSwap addr | PushStore addr addr | PushCrash

text \<open>The flag says whether the pop was called by \<open>pop_spin\<close>.\<close>

datatype pop_pc = PopIdle | PopLoad bool | PopTake bool addr addr | PopHead bool addr | PopCrash

record 'a mq =
  mq_heap :: "addr \<Rightarrow> 'a node option"
  mq_head :: addr
  mq_tail :: addr
  mq_push :: "nat \<Rightarrow> push_pc"
  mq_pop :: pop_pc
  mq_result :: "'a pop_result option"
  mq_pushed :: "'a list"
  mq_popped :: "'a list"

text \<open>\<open>Node::new\<close>.\<close>

definition node_new :: "'a option \<Rightarrow> 'a node" where
  "node_new v = \<lparr>nd_next = None, nd_value = v\<rparr>"

text \<open>\<open>Queue::new\<close>: the stub node is at address 0.\<close>

definition mq_new :: "'a mq" where
  "mq_new = \<lparr>mq_heap = [0 \<mapsto> node_new None], mq_head = 0, mq_tail = 0, mq_push = (\<lambda>_. PushIdle),
     mq_pop = PopIdle, mq_result = None, mq_pushed = [], mq_popped = []\<rparr>"

definition mq_push_goto :: "nat \<Rightarrow> push_pc \<Rightarrow> 'a mq \<Rightarrow> 'a mq" where
  "mq_push_goto i l s = s\<lparr>mq_push := (mq_push s)(i := l)\<rparr>"

text \<open>\<open>Queue::push\<close>: \<open>n\<close> is the address the allocator returns.\<close>

definition mq_push_alloc :: "nat \<Rightarrow> addr \<Rightarrow> 'a \<Rightarrow> 'a mq \<Rightarrow> 'a mq" where
  "mq_push_alloc i n t s = mq_push_goto i (PushSwap n) (s\<lparr>mq_heap := (mq_heap s)(n \<mapsto> node_new (Some t))\<rparr>)"

definition mq_push_exec :: "nat \<Rightarrow> 'a mq \<Rightarrow> 'a mq" where
  "mq_push_exec i s =
     (case mq_push s i of
        PushSwap n \<Rightarrow>
          (case mq_heap s n of
             Some nd \<Rightarrow> mq_push_goto i (PushStore (mq_head s) n)
               (s\<lparr>mq_head := n, mq_pushed := mq_pushed s @ (case nd_value nd of Some v \<Rightarrow> [v] | None \<Rightarrow> [])\<rparr>)
           | None \<Rightarrow> mq_push_goto i PushCrash s)
      | PushStore prev n \<Rightarrow>
          (case mq_heap s prev of
             Some nd \<Rightarrow> mq_push_goto i PushIdle (s\<lparr>mq_heap := (mq_heap s)(prev \<mapsto> nd\<lparr>nd_next := Some n\<rparr>)\<rparr>)
           | None \<Rightarrow> mq_push_goto i PushCrash s)
      | _ \<Rightarrow> s)"

text \<open>
  \<open>Queue::pop\<close>. In \<open>PopTake\<close> the popper advances \<open>tail\<close>, checks the two assertions, takes the
  value and frees the old tail; only the popper touches what these read and write. \<open>pop_spin\<close>
  starts again on \<open>Inconsistent\<close>.
\<close>

definition mq_return :: "bool \<Rightarrow> 'a pop_result \<Rightarrow> 'a mq \<Rightarrow> 'a mq" where
  "mq_return spin r s =
     (if spin \<and> r = Inconsistent then s\<lparr>mq_pop := PopLoad spin\<rparr> else s\<lparr>mq_pop := PopIdle, mq_result := Some r\<rparr>)"

definition mq_pop_exec :: "'a mq \<Rightarrow> 'a mq" where
  "mq_pop_exec s =
     (case mq_pop s of
        PopLoad spin \<Rightarrow>
          (case mq_heap s (mq_tail s) of
             None \<Rightarrow> s\<lparr>mq_pop := PopCrash\<rparr>
           | Some nd \<Rightarrow>
               (case nd_next nd of
                  Some n \<Rightarrow> s\<lparr>mq_pop := PopTake spin (mq_tail s) n\<rparr>
                | None \<Rightarrow> s\<lparr>mq_pop := PopHead spin (mq_tail s)\<rparr>))
      | PopTake spin t n \<Rightarrow>
          (case (mq_heap s t, mq_heap s n) of
             (Some old, Some nx) \<Rightarrow>
               (case (nd_value old, nd_value nx) of
                  (None, Some v) \<Rightarrow>
                    mq_return spin (Data v)
                      (s\<lparr>mq_tail := n, mq_heap := (mq_heap s)(n \<mapsto> nx\<lparr>nd_value := None\<rparr>, t := None),
                         mq_popped := mq_popped s @ [v]\<rparr>)
                | _ \<Rightarrow> s\<lparr>mq_pop := PopCrash\<rparr>)
           | _ \<Rightarrow> s\<lparr>mq_pop := PopCrash\<rparr>)
      | PopHead spin t \<Rightarrow> mq_return spin (if mq_head s = t then Empty else Inconsistent) s
      | _ \<Rightarrow> s)"

inductive mq_step :: "'a mq \<Rightarrow> 'a mq \<Rightarrow> bool" where
  mq_start_push: "mq_push s i = PushIdle \<Longrightarrow> mq_heap s n = None \<Longrightarrow> mq_step s (mq_push_alloc i n t s)"
| mq_run_push: "mq_step s (mq_push_exec i s)"
| mq_start_pop: "mq_pop s = PopIdle \<Longrightarrow> mq_step s (s\<lparr>mq_pop := PopLoad spin, mq_result := None\<rparr>)"
| mq_run_pop: "mq_step s (mq_pop_exec s)"

abbreviation mq_reach :: "'a mq \<Rightarrow> bool" where
  "mq_reach \<equiv> reach (\<lambda>s. s = mq_new) mq_step"

section \<open>The invariant\<close>

text \<open>
  \<open>ns\<close> are the nodes after the tail in the order of the swaps of \<open>head\<close>. Between two of them the
  link is there, or the pusher of the second is about to store it.
\<close>

definition mq_pend :: "'a mq \<Rightarrow> (addr \<times> addr) set" where
  "mq_pend s = {(a, b). \<exists>i. mq_push s i = PushStore a b}"

fun mq_linked :: "(addr \<Rightarrow> 'a node option) \<Rightarrow> (addr \<times> addr) set \<Rightarrow> addr \<Rightarrow> addr list \<Rightarrow> bool" where
  "mq_linked h pend a [] \<longleftrightarrow> map_option nd_next (h a) = Some None \<and> (\<forall>b. (a, b) \<notin> pend)"
| "mq_linked h pend a (b # bs) \<longleftrightarrow>
     (map_option nd_next (h a) = Some (Some b) \<and> (\<forall>c. (a, c) \<notin> pend)
      \<or> map_option nd_next (h a) = Some None \<and> (\<forall>c. (a, c) \<in> pend \<longleftrightarrow> c = b))
     \<and> mq_linked h pend b bs"

definition mq_value :: "'a mq \<Rightarrow> addr \<Rightarrow> 'a option" where
  "mq_value s a = Option.bind (mq_heap s a) nd_value"

definition mq_shape :: "'a mq \<Rightarrow> addr list \<Rightarrow> bool" where
  "mq_shape s ns \<longleftrightarrow>
     distinct (mq_tail s # ns) \<and> last (mq_tail s # ns) = mq_head s
     \<and> mq_linked (mq_heap s) (mq_pend s) (mq_tail s) ns
     \<and> (\<forall>a b. (a, b) \<in> mq_pend s \<longrightarrow> a \<in> set (mq_tail s # ns))
     \<and> mq_value s (mq_tail s) = None
     \<and> (\<exists>vs. map (mq_value s) ns = map Some vs \<and> mq_pushed s = mq_popped s @ vs)"

definition mq_pushers :: "'a mq \<Rightarrow> addr list \<Rightarrow> bool" where
  "mq_pushers s ns \<longleftrightarrow>
     (\<forall>i n. mq_push s i = PushSwap n \<longrightarrow>
        n \<notin> set (mq_tail s # ns) \<and> (\<exists>v. mq_heap s n = Some (node_new (Some v))))
     \<and> (\<forall>i j n. mq_push s i = PushSwap n \<and> mq_push s j = PushSwap n \<longrightarrow> i = j)
     \<and> (\<forall>i j a b c. mq_push s i = PushStore a b \<and> mq_push s j = PushStore a c \<longrightarrow> i = j)
     \<and> (\<forall>i. mq_push s i \<noteq> PushCrash)"

definition mq_popper :: "'a mq \<Rightarrow> bool" where
  "mq_popper s \<longleftrightarrow>
     (case mq_pop s of
        PopTake spin t n \<Rightarrow> t = mq_tail s \<and> map_option nd_next (mq_heap s t) = Some (Some n)
      | PopHead spin t \<Rightarrow> t = mq_tail s
      | PopCrash \<Rightarrow> False
      | _ \<Rightarrow> True)"

definition mq_inv :: "'a mq \<Rightarrow> addr list \<Rightarrow> bool" where
  "mq_inv s ns \<longleftrightarrow> mq_shape s ns \<and> mq_pushers s ns \<and> mq_popper s"

lemma mq_linked_alloc: "mq_linked h pend a ns \<Longrightarrow> x \<in> set (a # ns) \<Longrightarrow> h x \<noteq> None"
  by (induction h pend a ns rule: mq_linked.induct) auto

lemma mq_linked_cong:
  assumes "mq_linked h pend a ns"
    and "\<And>x. x \<in> set (a # ns) \<Longrightarrow> map_option nd_next (h' x) = map_option nd_next (h x)"
    and "\<And>x c. x \<in> set (a # ns) \<Longrightarrow> (x, c) \<in> pend' \<longleftrightarrow> (x, c) \<in> pend"
  shows "mq_linked h' pend' a ns"
  using assms by (induction ns arbitrary: a) auto

text \<open>A push appends at the end of the chain.\<close>

lemma mq_linked_snoc:
  assumes "mq_linked h pend a ns" and "last (a # ns) = p" and "distinct (a # ns)" and "n \<notin> set (a # ns)"
    and "map_option nd_next (h n) = Some None" and "\<And>c. (n, c) \<notin> pend"
  shows "mq_linked h (insert (p, n) pend) a (ns @ [n])"
  using assms
proof (induction ns arbitrary: a)
  case Nil
  then show ?case by auto
next
  case (Cons b bs)
  then have "mq_linked h (insert (p, n) pend) b (bs @ [n])" by auto
  moreover have "p \<in> set (b # bs)" using Cons.prems(2) by (metis last_ConsR last_in_set list.distinct(1))
  then have "a \<noteq> p" using Cons.prems(3) by auto
  ultimately show ?case using Cons.prems by auto
qed

text \<open>Storing the link a pusher owes turns the pending edge into a real one.\<close>

lemma mq_linked_store:
  assumes "mq_linked h pend a ns" and "(p, n) \<in> pend" and "distinct (a # ns)"
    and "map_option nd_next (h' p) = Some (Some n)" and "\<And>x. x \<noteq> p \<Longrightarrow> h' x = h x"
    and "\<And>c. (p, c) \<notin> pend'" and "\<And>x c. x \<noteq> p \<Longrightarrow> (x, c) \<in> pend' \<longleftrightarrow> (x, c) \<in> pend"
  shows "mq_linked h' pend' a ns"
  using assms
proof (induction ns arbitrary: a)
  case Nil
  then show ?case by (cases "a = p") auto
next
  case (Cons b bs)
  have "mq_linked h' pend' b bs"
    using Cons.prems by (intro Cons.IH) auto
  with Cons.prems show ?case by (cases "a = p") auto
qed

lemma mq_pend_goto_other:
  "(\<And>a b. mq_push s i \<noteq> PushStore a b) \<Longrightarrow> (\<And>a b. l \<noteq> PushStore a b) \<Longrightarrow>
   mq_pend (mq_push_goto i l s) = mq_pend s"
  by (auto simp: mq_pend_def mq_push_goto_def) metis

lemma mq_push_goto_simps [simp]:
  "mq_heap (mq_push_goto i l s) = mq_heap s" "mq_head (mq_push_goto i l s) = mq_head s"
  "mq_tail (mq_push_goto i l s) = mq_tail s" "mq_push (mq_push_goto i l s) = (mq_push s)(i := l)"
  "mq_pop (mq_push_goto i l s) = mq_pop s" "mq_result (mq_push_goto i l s) = mq_result s"
  "mq_pushed (mq_push_goto i l s) = mq_pushed s" "mq_popped (mq_push_goto i l s) = mq_popped s"
  by (simp_all add: mq_push_goto_def)

lemma mq_inv_new: "mq_inv mq_new []"
  by (simp add: mq_inv_def mq_shape_def mq_pushers_def mq_popper_def mq_new_def mq_pend_def mq_value_def node_new_def)

lemma mq_alloc_inv:
  assumes inv: "mq_inv s ns" and idle: "mq_push s i = PushIdle" and fresh: "mq_heap s n = None"
  shows "mq_inv (mq_push_alloc i n t s) ns"
proof -
  let ?t = "mq_push_alloc i n t s"
  have link: "mq_linked (mq_heap s) (mq_pend s) (mq_tail s) ns" using inv by (simp add: mq_inv_def mq_shape_def)
  have nin: "n \<notin> set (mq_tail s # ns)" using mq_linked_alloc [OF link] fresh by blast
  have pend: "mq_pend ?t = mq_pend s" using idle by (simp add: mq_push_alloc_def mq_pend_goto_other) (simp add: mq_pend_def)
  have "mq_linked (mq_heap ?t) (mq_pend s) (mq_tail s) ns"
    by (rule mq_linked_cong [OF link]) (use nin in \<open>auto simp: mq_push_alloc_def\<close>)
  moreover have "mq_value ?t a = mq_value s a" if "a \<in> set (mq_tail s # ns)" for a
    using that nin by (auto simp: mq_value_def mq_push_alloc_def)
  ultimately have "mq_shape ?t ns"
    using inv pend unfolding mq_inv_def mq_shape_def by (simp add: mq_push_alloc_def cong: map_cong)
  moreover have "mq_pushers ?t ns"
    using inv nin fresh idle unfolding mq_inv_def mq_pushers_def
    by (simp add: mq_push_alloc_def) (metis option.distinct(1))
  moreover have "mq_popper ?t"
    using inv fresh unfolding mq_inv_def mq_popper_def by (auto simp: mq_push_alloc_def split: pop_pc.splits)
  ultimately show ?thesis by (simp add: mq_inv_def)
qed

lemma mq_invD:
  assumes "mq_inv s ns"
  shows "distinct (mq_tail s # ns)" "last (mq_tail s # ns) = mq_head s"
    "mq_linked (mq_heap s) (mq_pend s) (mq_tail s) ns"
    "\<And>a b. (a, b) \<in> mq_pend s \<Longrightarrow> a \<in> set (mq_tail s # ns)"
    "mq_value s (mq_tail s) = None"
    "\<exists>vs. map (mq_value s) ns = map Some vs \<and> mq_pushed s = mq_popped s @ vs"
    "\<And>i n. mq_push s i = PushSwap n \<Longrightarrow> n \<notin> set (mq_tail s # ns) \<and> (\<exists>v. mq_heap s n = Some (node_new (Some v)))"
    "\<And>i j n. mq_push s i = PushSwap n \<Longrightarrow> mq_push s j = PushSwap n \<Longrightarrow> i = j"
    "\<And>i j a b c. mq_push s i = PushStore a b \<Longrightarrow> mq_push s j = PushStore a c \<Longrightarrow> i = j"
    "\<And>i. mq_push s i \<noteq> PushCrash" "mq_popper s"
  using assms unfolding mq_inv_def mq_shape_def mq_pushers_def by simp_all metis+

lemma mq_linked_last:
  assumes "last (a # ns) = p" and "mq_linked h pend a ns"
  shows "(p, c) \<notin> pend"
  using assms(2,1) by (induction h pend a ns rule: mq_linked.induct) (auto split: if_splits)

lemma mq_linked_no_next:
  assumes "mq_linked h pend a ns" and "(p, n) \<in> pend" and "p \<in> set (a # ns)"
  shows "map_option nd_next (h p) = Some None"
  using assms by (induction h pend a ns rule: mq_linked.induct) auto

lemma mq_swap_inv:
  assumes inv: "mq_inv s ns" and pc: "mq_push s i = PushSwap n"
  shows "mq_inv (mq_push_exec i s) (ns @ [n])"
proof -
  let ?t = "mq_push_exec i s"
  note I = mq_invD [OF inv]
  obtain v where nd: "mq_heap s n = Some (node_new (Some v))" and nin: "n \<notin> set (mq_tail s # ns)"
    using I(7) [OF pc] by blast
  have t: "?t = mq_push_goto i (PushStore (mq_head s) n) (s\<lparr>mq_head := n, mq_pushed := mq_pushed s @ [v]\<rparr>)"
    by (simp add: mq_push_exec_def pc nd node_new_def)
  have nopend: "(n, c) \<notin> mq_pend s" for c using I(4) nin by blast
  have pend: "mq_pend ?t = insert (mq_head s, n) (mq_pend s)"
    using pc unfolding t by (auto simp: mq_pend_def mq_push_goto_def) (metis push_pc.distinct(7))
  have headpend: "(mq_head s, c) \<notin> mq_pend s" for c
    using I(2,3) by (rule mq_linked_last)
  have "mq_linked (mq_heap s) (insert (mq_head s, n) (mq_pend s)) (mq_tail s) (ns @ [n])"
    by (rule mq_linked_snoc [OF I(3,2,1) nin]) (use nd nopend in \<open>auto simp: node_new_def\<close>)
  moreover obtain vs where vs: "map (mq_value s) ns = map Some vs" "mq_pushed s = mq_popped s @ vs"
    using I(6) by blast
  moreover have "mq_value s n = Some v" by (simp add: mq_value_def nd node_new_def)
  moreover have "mq_head s \<in> set (mq_tail s # ns)" using I(2) by (metis last_in_set list.distinct(1))
  moreover have "mq_value ?t = mq_value s" by (simp add: fun_eq_iff t mq_value_def)
  moreover have "mq_heap ?t = mq_heap s" "mq_tail ?t = mq_tail s" "mq_head ?t = n"
    "mq_pushed ?t = mq_pushed s @ [v]" "mq_popped ?t = mq_popped s" by (simp_all add: t)
  ultimately have "mq_shape ?t (ns @ [n])"
    using I(1,4,5) nin pend unfolding mq_shape_def by (auto intro!: exI [of _ "vs @ [v]"])
  moreover have "mq_pushers ?t (ns @ [n])"
    using I(7-10) pc nin headpend unfolding mq_pushers_def t
    by (auto simp: mq_pend_def)
  moreover have "mq_popper ?t" using I(11) by (simp add: t mq_popper_def split: pop_pc.splits)
  ultimately show ?thesis by (simp add: mq_inv_def)
qed

lemma mq_store_inv:
  assumes inv: "mq_inv s ns" and pc: "mq_push s i = PushStore p n"
  shows "mq_inv (mq_push_exec i s) ns"
proof -
  let ?t = "mq_push_exec i s"
  note I = mq_invD [OF inv]
  have pn: "(p, n) \<in> mq_pend s" using pc by (auto simp: mq_pend_def)
  then obtain nd where nd: "mq_heap s p = Some nd" using I(3,4) mq_linked_alloc by fastforce
  have t: "?t = mq_push_goto i PushIdle (s\<lparr>mq_heap := (mq_heap s)(p \<mapsto> nd\<lparr>nd_next := Some n\<rparr>)\<rparr>)"
    by (simp add: mq_push_exec_def pc nd)
  have pend: "(x, c) \<in> mq_pend ?t \<longleftrightarrow> x \<noteq> p \<and> (x, c) \<in> mq_pend s" for x c
  proof -
    have "(x, c) \<in> mq_pend ?t \<longleftrightarrow> (\<exists>j. j \<noteq> i \<and> mq_push s j = PushStore x c)"
      unfolding t mq_pend_def by (auto split: if_splits)
    also have "\<dots> \<longleftrightarrow> x \<noteq> p \<and> (x, c) \<in> mq_pend s"
      using pc I(9) unfolding mq_pend_def by (auto, metis push_pc.inject(2))
    finally show ?thesis .
  qed
  have "mq_linked (mq_heap ?t) (mq_pend ?t) (mq_tail s) ns"
    by (rule mq_linked_store [OF I(3) pn I(1)]) (simp_all add: pend, simp_all add: t)
  moreover have "mq_value ?t = mq_value s" by (auto simp: fun_eq_iff t mq_value_def nd)
  moreover have "mq_tail ?t = mq_tail s" "mq_head ?t = mq_head s"
    "mq_pushed ?t = mq_pushed s" "mq_popped ?t = mq_popped s" by (simp_all add: t)
  ultimately have "mq_shape ?t ns"
    using I(1,2,4,5,6) pend unfolding mq_shape_def by auto
  moreover have "mq_pushers ?t ns"
  proof -
    have "p \<noteq> m" if "mq_push s j = PushSwap m" for j m
      using I(4) [OF pn] I(7) [OF that] by auto
    then show ?thesis using I(7-10) pc unfolding mq_pushers_def t by (auto; blast)
  qed
  moreover have "mq_popper ?t"
    using I(11) nd mq_linked_no_next [OF I(3) pn I(4) [OF pn]]
    by (auto simp: t mq_popper_def split: pop_pc.splits)
  ultimately show ?thesis by (simp add: mq_inv_def)
qed

lemma mq_push_exec_inv:
  assumes "mq_inv s ns"
  shows "\<exists>ns'. mq_inv (mq_push_exec i s) ns'"
proof (cases "mq_push s i")
  case (PushSwap n)
  then show ?thesis using mq_swap_inv [OF assms] by blast
next
  case (PushStore p n)
  then show ?thesis using mq_store_inv [OF assms] by blast
qed (use assms in \<open>auto simp: mq_push_exec_def\<close>)

lemma mq_shape_pop_fields:
  "mq_shape (s\<lparr>mq_pop := l, mq_result := r\<rparr>) ns = mq_shape s ns"
  "mq_shape (s\<lparr>mq_pop := l\<rparr>) ns = mq_shape s ns"
  "mq_pushers (s\<lparr>mq_pop := l, mq_result := r\<rparr>) ns = mq_pushers s ns"
  "mq_pushers (s\<lparr>mq_pop := l\<rparr>) ns = mq_pushers s ns"
  by (simp_all add: mq_shape_def mq_pushers_def mq_pend_def mq_value_def [abs_def])

lemma mq_return_fields:
  "mq_shape (mq_return spin r s) ns = mq_shape s ns"
  "mq_pushers (mq_return spin r s) ns = mq_pushers s ns"
  "mq_popper (mq_return spin r s)"
  by (simp_all add: mq_return_def mq_shape_pop_fields mq_popper_def)

text \<open>What the popper sees: the first node after the tail, with its value.\<close>

lemma mq_take_values:
  assumes inv: "mq_inv s ns" and pc: "mq_pop s = PopTake spin t n"
  obtains old nx v ns' where "t = mq_tail s" "mq_heap s t = Some old" "nd_value old = None"
    "mq_heap s n = Some nx" "nd_value nx = Some v" "ns = n # ns'"
    "map_option nd_next (mq_heap s t) = Some (Some n)"
proof -
  note I = mq_invD [OF inv]
  from I(11) pc have t: "t = mq_tail s" and nx: "map_option nd_next (mq_heap s t) = Some (Some n)"
    by (auto simp: mq_popper_def)
  with I(3) obtain ns' where ns: "ns = n # ns'" by (cases ns) auto
  from I(6) ns obtain v where "mq_value s n = Some v" by (cases "mq_pushed s") auto
  then obtain nd where "mq_heap s n = Some nd" "nd_value nd = Some v"
    by (auto simp: mq_value_def bind_eq_Some_conv)
  moreover from nx I(5) t obtain old where "mq_heap s t = Some old" "nd_value old = None"
    by (auto simp: mq_value_def)
  ultimately show ?thesis using t nx ns that by blast
qed

lemma mq_take_inv:
  assumes inv: "mq_inv s ns" and pc: "mq_pop s = PopTake spin t n"
  shows "mq_inv (mq_pop_exec s) (tl ns)"
proof -
  note I = mq_invD [OF inv]
  obtain old nx v ns' where V: "t = mq_tail s" "mq_heap s t = Some old" "nd_value old = None"
    "mq_heap s n = Some nx" "nd_value nx = Some v" "ns = n # ns'"
    "map_option nd_next (mq_heap s t) = Some (Some n)"
    by (rule mq_take_values [OF inv pc])
  define h where "h = (mq_heap s)(n \<mapsto> nx\<lparr>nd_value := None\<rparr>, t := None)"
  define u where "u = s\<lparr>mq_tail := n, mq_heap := h, mq_popped := mq_popped s @ [v]\<rparr>"
  have exec: "mq_pop_exec s = mq_return spin (Data v) u"
    by (simp add: mq_pop_exec_def pc V(2-5) u_def h_def)
  have tn: "t \<notin> set ns" using I(1) V(1) by simp
  have h: "map_option nd_next (h x) = map_option nd_next (mq_heap s x)" if "x \<in> set ns" for x
    using that tn V by (auto simp: h_def)
  have val: "mq_value u x = mq_value s x" if "x \<in> set ns'" for x
    using that I(1) V tn by (auto simp: h_def mq_value_def u_def)
  have nopend: "(t, c) \<notin> mq_pend s" for c
    using mq_linked_no_next [OF I(3)] V(1,7) by fastforce
  have "mq_linked h (mq_pend s) n ns'"
    by (rule mq_linked_cong [of "mq_heap s" "mq_pend s"]) (use I(3) V(6) h in auto)
  moreover have vals: "\<exists>ws. map (mq_value u) ns' = map Some ws \<and> mq_pushed s = mq_popped s @ v # ws"
  proof -
    obtain vs where vs: "map (mq_value s) ns = map Some vs" "mq_pushed s = mq_popped s @ vs"
      using I(6) by blast
    with V(4-6) obtain ws where "vs = v # ws" "map (mq_value s) ns' = map Some ws"
      by (cases vs) (auto simp: mq_value_def)
    moreover from val have "map (mq_value u) ns' = map (mq_value s) ns'" by simp
    ultimately show ?thesis using vs(2) by auto
  qed
  moreover have "mq_value u n = None" using V(4) tn V(6) by (auto simp: mq_value_def u_def h_def)
  moreover have U: "mq_pend u = mq_pend s" "mq_heap u = h" "mq_tail u = n" "mq_head u = mq_head s"
    "mq_pushed u = mq_pushed s" "mq_popped u = mq_popped s @ [v]"
    by (simp_all add: u_def mq_pend_def)
  moreover have "a \<in> set (n # ns')" if "(a, b) \<in> mq_pend s" for a b
    using I(4) [OF that] nopend that V(1,6) by auto
  moreover have "distinct (n # ns')" "last (n # ns') = mq_head s" using I(1,2) V(6) by auto
  ultimately have "mq_shape u ns'" unfolding mq_shape_def U by simp
  moreover have "mq_pushers u ns'"
  proof -
    have "n \<noteq> m \<and> t \<noteq> m" if "mq_push s j = PushSwap m" for j m
      using I(7) [OF that] V(1,6) by auto
    then show ?thesis using I(7-10) V(6) unfolding mq_pushers_def u_def h_def by (auto; metis)
  qed
  ultimately show ?thesis unfolding exec mq_inv_def using V(6) by (simp add: mq_return_fields)
qed

lemma mq_pop_exec_inv:
  assumes inv: "mq_inv s ns"
  shows "\<exists>ns'. mq_inv (mq_pop_exec s) ns'"
proof (cases "mq_pop s")
  case (PopLoad spin)
  note I = mq_invD [OF inv]
  from I(3) obtain nd where nd: "mq_heap s (mq_tail s) = Some nd" using mq_linked_alloc by fastforce
  from inv have "mq_shape s ns" "mq_pushers s ns" by (simp_all add: mq_inv_def)
  moreover have "mq_pop_exec s = s\<lparr>mq_pop := (case nd_next nd of Some n \<Rightarrow> PopTake spin (mq_tail s) n
      | None \<Rightarrow> PopHead spin (mq_tail s))\<rparr>"
    by (simp add: mq_pop_exec_def PopLoad nd split: option.splits)
  ultimately have "mq_inv (mq_pop_exec s) ns"
    using nd by (simp add: mq_inv_def mq_shape_pop_fields mq_popper_def split: option.splits)
  then show ?thesis by blast
next
  case (PopTake spin t n)
  then show ?thesis using mq_take_inv [OF inv] by blast
next
  case (PopHead spin t)
  with inv have "mq_inv (mq_pop_exec s) ns"
    by (simp add: mq_pop_exec_def mq_inv_def mq_return_fields)
  then show ?thesis by blast
qed (use inv in \<open>auto simp: mq_pop_exec_def\<close>)

lemma mq_start_pop_inv: "mq_inv s ns \<Longrightarrow> mq_inv (s\<lparr>mq_pop := PopLoad spin, mq_result := None\<rparr>) ns"
  by (simp add: mq_inv_def mq_shape_pop_fields mq_popper_def)

lemma mq_step_inv:
  assumes "mq_step s u" and "\<exists>ns. mq_inv s ns"
  shows "\<exists>ns. mq_inv u ns"
proof -
  obtain ns where inv: "mq_inv s ns" using assms(2) by blast
  show ?thesis using assms(1)
    by (rule mq_step.cases)
      (use mq_alloc_inv [OF inv] mq_push_exec_inv [OF inv] mq_start_pop_inv [OF inv]
        mq_pop_exec_inv [OF inv] in \<open>auto intro: exI [of _ ns]\<close>)
qed

lemma mq_reach_inv: "mq_reach s \<Longrightarrow> \<exists>ns. mq_inv s ns"
  by (erule reach_invariant) (use mq_inv_new mq_step_inv in \<open>blast+\<close>)

section \<open>Properties\<close>

text \<open>
  C24. The queue is FIFO and safe under any interleaving of pushers and the popper: the values popped
  so far are a prefix of the values pushed, in the order in which the pushers swapped \<open>head\<close>
  (nothing is lost, duplicated or reordered); no thread ever dereferences a freed node and no
  assertion of \<open>pop\<close> fails.
\<close>

theorem mq_fifo:
  assumes "mq_reach s"
  shows "(\<exists>vs. mq_pushed s = mq_popped s @ vs) \<and> mq_pop s \<noteq> PopCrash \<and> (\<forall>i. mq_push s i \<noteq> PushCrash)"
proof -
  obtain ns where "mq_inv s ns" using mq_reach_inv [OF assms] by blast
  then show ?thesis by (auto simp: mq_inv_def mq_shape_def mq_pushers_def mq_popper_def)
qed

text \<open>A step that ends a pop, and with which result.\<close>

definition mq_returns :: "'a mq \<Rightarrow> 'a pop_result \<Rightarrow> bool" where
  "mq_returns s r \<longleftrightarrow> mq_pop s \<noteq> PopIdle \<and> mq_pop (mq_pop_exec s) = PopIdle \<and> mq_result (mq_pop_exec s) = Some r"

text \<open>
  What the results of \<open>pop\<close> mean: at the moment a pop returns \<open>Data v\<close>, \<open>v\<close> was the oldest
  value in the queue; it returns \<open>Empty\<close> only when the queue is empty, and \<open>Inconsistent\<close> only when
  it is not (and then some push has swapped \<open>head\<close>). \<open>pop_spin\<close> never returns \<open>Inconsistent\<close>.
\<close>

theorem mq_pop_results:
  assumes "mq_reach s" and "mq_returns s r"
  shows "(case r of
      Data v \<Rightarrow> (\<exists>vs. mq_pushed s = mq_popped s @ v # vs) \<and> mq_popped (mq_pop_exec s) = mq_popped s @ [v]
    | Empty \<Rightarrow> mq_pushed s = mq_popped s
    | Inconsistent \<Rightarrow> mq_pushed s \<noteq> mq_popped s \<and> (\<exists>t. mq_pop s = PopHead False t))"
proof -
  obtain ns where inv: "mq_inv s ns" using mq_reach_inv [OF assms(1)] by blast
  note I = mq_invD [OF inv]
  show ?thesis
  proof (cases "mq_pop s")
    case (PopTake spin t n)
    obtain old nx v ns' where V: "t = mq_tail s" "mq_heap s t = Some old" "nd_value old = None"
      "mq_heap s n = Some nx" "nd_value nx = Some v" "ns = n # ns'"
      by (rule mq_take_values [OF inv PopTake])
    from I(6) V(4-6) obtain ws where "mq_pushed s = mq_popped s @ v # ws"
      by (auto simp: mq_value_def Cons_eq_map_conv)
    moreover have "r = Data v" "mq_popped (mq_pop_exec s) = mq_popped s @ [v]"
      using assms(2) by (auto simp: mq_returns_def mq_pop_exec_def PopTake V(2-5) mq_return_def)
    ultimately show ?thesis by auto
  next
    case (PopHead spin t)
    with I(11) have t: "t = mq_tail s" by (simp add: mq_popper_def)
    have "mq_pushed s = mq_popped s \<longleftrightarrow> ns = []" using I(6) by auto
    also have "\<dots> \<longleftrightarrow> mq_head s = mq_tail s"
      using I(1,2) by (metis distinct.simps(2) last.simps last_in_set)
    finally show ?thesis
      using assms(2) PopHead t by (auto simp: mq_returns_def mq_pop_exec_def mq_return_def split: if_splits)
  qed (use assms(2) in \<open>auto simp: mq_returns_def mq_pop_exec_def split: option.splits\<close>)
qed

section \<open>Whole operations and the queue interface\<close>

text \<open>
  A push and a \<open>pop_spin\<close> run to the end by one thread while no other thread is inside the queue,
  as the channel's operations use them. The allocator hands out the address after the last
  node's; that it is free is part of the invariant.
\<close>

definition q_push :: "'a \<Rightarrow> 'a mq \<Rightarrow> 'a mq" where
  "q_push t s = mq_push_exec 0 (mq_push_exec 0 (mq_push_alloc 0 (Suc (mq_head s)) t s))"

definition q_pop_spin :: "'a mq \<Rightarrow> 'a option \<times> 'a mq" where
  "q_pop_spin s =
     (let u = mq_pop_exec (mq_pop_exec (s\<lparr>mq_pop := PopLoad True, mq_result := None\<rparr>))
      in (case mq_result u of Some (Data v) \<Rightarrow> Some v | _ \<Rightarrow> None, u))"

definition q_contents :: "'a mq \<Rightarrow> 'a list" where
  "q_contents s = drop (length (mq_popped s)) (mq_pushed s)"

definition q_invar :: "'a mq \<Rightarrow> bool" where
  "q_invar s \<longleftrightarrow> (\<exists>ns. mq_inv s ns) \<and> (\<forall>i. mq_push s i = PushIdle) \<and> mq_pop s = PopIdle
     \<and> (\<forall>a. mq_heap s a \<noteq> None \<longrightarrow> a \<le> mq_head s)"

locale fifo_queue =
  fixes invar :: "'q \<Rightarrow> bool" and contents :: "'q \<Rightarrow> 'a list"
    and new :: 'q and push :: "'a \<Rightarrow> 'q \<Rightarrow> 'q" and pop :: "'q \<Rightarrow> 'a option \<times> 'q"
  assumes invar_new: "invar new"
    and contents_new: "contents new = []"
    and invar_push: "invar q \<Longrightarrow> invar (push x q)"
    and contents_push: "invar q \<Longrightarrow> contents (push x q) = contents q @ [x]"
    and invar_pop: "invar q \<Longrightarrow> invar (snd (pop q))"
    and pop_Nil: "invar q \<Longrightarrow> contents q = [] \<Longrightarrow> fst (pop q) = None \<and> contents (snd (pop q)) = []"
    and pop_Cons: "invar q \<Longrightarrow> contents q = x # xs \<Longrightarrow> fst (pop q) = Some x \<and> contents (snd (pop q)) = xs"
begin

lemma pop_None: "invar q \<Longrightarrow> pop q = (None, q') \<Longrightarrow> contents q = [] \<and> contents q' = [] \<and> invar q'"
  using pop_Nil [of q] pop_Cons [of q] invar_pop [of q] by (cases "contents q") auto

lemma pop_Some: "invar q \<Longrightarrow> pop q = (Some x, q') \<Longrightarrow> contents q = x # contents q' \<and> invar q'"
  using pop_Nil [of q] pop_Cons [of q] invar_pop [of q] by (cases "contents q") auto

lemma push_all: "invar q \<Longrightarrow> invar (fold push xs q) \<and> contents (fold push xs q) = contents q @ xs"
  by (induction xs arbitrary: q) (auto simp: invar_push contents_push)

end

lemma mq_push_exec_Swap:
  "mq_push s i = PushSwap n \<Longrightarrow> mq_heap s n = Some nd \<Longrightarrow> nd_value nd = Some v \<Longrightarrow>
   mq_push_exec i s = mq_push_goto i (PushStore (mq_head s) n) (s\<lparr>mq_head := n, mq_pushed := mq_pushed s @ [v]\<rparr>)"
  by (simp add: mq_push_exec_def)

lemma q_push_ok:
  assumes "q_invar s"
  shows "q_invar (q_push t s)" and "q_contents (q_push t s) = q_contents s @ [t]"
proof -
  let ?n = "Suc (mq_head s)"
  obtain ns where inv: "mq_inv s ns" and idle: "\<And>i. mq_push s i = PushIdle" and pop: "mq_pop s = PopIdle"
    and bound: "\<And>a. mq_heap s a \<noteq> None \<Longrightarrow> a \<le> mq_head s"
    using assms by (auto simp: q_invar_def)
  have fresh: "mq_heap s ?n = None" using bound [of ?n] by (cases "mq_heap s ?n") auto
  define s1 where "s1 = mq_push_alloc 0 ?n t s"
  define s2 where "s2 = mq_push_exec 0 s1"
  have inv1: "mq_inv s1 ns" unfolding s1_def by (rule mq_alloc_inv [OF inv idle fresh])
  have p1: "mq_push s1 0 = PushSwap ?n" by (simp add: s1_def mq_push_alloc_def)
  have inv2: "mq_inv s2 (ns @ [?n])" unfolding s2_def by (rule mq_swap_inv [OF inv1 p1])
  have s2: "s2 = mq_push_goto 0 (PushStore (mq_head s) ?n) (s1\<lparr>mq_head := ?n, mq_pushed := mq_pushed s @ [t]\<rparr>)"
    unfolding s2_def by (subst mq_push_exec_Swap [OF p1, of "node_new (Some t)" t])
      (simp_all add: s1_def mq_push_alloc_def, simp add: node_new_def)
  then have p2: "mq_push s2 0 = PushStore (mq_head s) ?n" by simp
  have inv3: "mq_inv (mq_push_exec 0 s2) (ns @ [?n])" by (rule mq_store_inv [OF inv2 p2])
  have last: "last (mq_tail s # ns) = mq_head s" "mq_linked (mq_heap s) (mq_pend s) (mq_tail s) ns"
    using mq_invD(2,3) [OF inv] by auto
  then have "mq_heap s (mq_head s) \<noteq> None" by (metis last_in_set list.distinct(1) mq_linked_alloc)
  then obtain nd where nd: "mq_heap s (mq_head s) = Some nd" by blast
  have q: "q_push t s = mq_push_exec 0 s2" by (simp add: q_push_def s1_def s2_def)
  have s3: "mq_push_exec 0 s2 = mq_push_goto 0 PushIdle
      (s2\<lparr>mq_heap := (mq_heap s2)(mq_head s \<mapsto> nd\<lparr>nd_next := Some ?n\<rparr>)\<rparr>)"
    using nd fresh by (simp add: mq_push_exec_def p2 s2 s1_def mq_push_alloc_def)
  show "q_invar (q_push t s)"
    unfolding q_invar_def q
  proof (intro conjI allI impI)
    show "\<exists>ns. mq_inv (mq_push_exec 0 s2) ns" using inv3 by blast
    show "mq_push (mq_push_exec 0 s2) i = PushIdle" for i
      unfolding s3 by (simp add: s2 s1_def mq_push_alloc_def idle)
    show "mq_pop (mq_push_exec 0 s2) = PopIdle"
      unfolding s3 by (simp add: s2 s1_def mq_push_alloc_def pop)
    show "a \<le> mq_head (mq_push_exec 0 s2)" if "mq_heap (mq_push_exec 0 s2) a \<noteq> None" for a
      using that bound [of a] unfolding s3 by (auto simp: s2 s1_def mq_push_alloc_def split: if_splits)
  qed
  have len: "length (mq_popped s) \<le> length (mq_pushed s)" using mq_invD(6) [OF inv] by auto
  show "q_contents (q_push t s) = q_contents s @ [t]"
    using len unfolding q s3 by (simp add: q_contents_def s2 s1_def mq_push_alloc_def)
qed

lemma q_pop_ok:
  assumes "q_invar s"
  shows "q_invar (snd (q_pop_spin s))
    \<and> (case q_contents s of
        [] \<Rightarrow> fst (q_pop_spin s) = None \<and> q_contents (snd (q_pop_spin s)) = []
      | x # xs \<Rightarrow> fst (q_pop_spin s) = Some x \<and> q_contents (snd (q_pop_spin s)) = xs)"
proof -
  obtain ns where inv: "mq_inv s ns" and idle: "\<And>i. mq_push s i = PushIdle" and pop: "mq_pop s = PopIdle"
    and bound: "\<And>a. mq_heap s a \<noteq> None \<Longrightarrow> a \<le> mq_head s"
    using assms by (auto simp: q_invar_def)
  define s1 where "s1 = s\<lparr>mq_pop := PopLoad True, mq_result := None\<rparr>"
  have inv1: "mq_inv s1 ns" unfolding s1_def by (rule mq_start_pop_inv [OF inv])
  note I = mq_invD [OF inv]
  have pend: "mq_pend s = {}" using idle by (auto simp: mq_pend_def)
  obtain nd where nd: "mq_heap s (mq_tail s) = Some nd" using I(3) mq_linked_alloc by fastforce
  obtain vs where vs: "map (mq_value s) ns = map Some vs" "mq_pushed s = mq_popped s @ vs" using I(6) by blast
  have c: "q_contents s = vs" by (simp add: q_contents_def vs)
  show ?thesis
  proof (cases ns)
    case Nil
    with I(3) nd have "nd_next nd = None" by simp
    moreover from Nil I(2) have "mq_head s = mq_tail s" by simp
    ultimately have u: "q_pop_spin s = (None, s\<lparr>mq_pop := PopIdle, mq_result := Some Empty\<rparr>)"
      by (simp add: q_pop_spin_def mq_pop_exec_def nd mq_return_def Let_def)
    with assms vs(1) Nil show ?thesis
      by (auto simp: c q_invar_def mq_inv_def mq_shape_pop_fields mq_popper_def q_contents_def vs(2))
  next
    case (Cons n ns')
    with I(3) nd pend have nx: "nd_next nd = Some n" by auto
    define s2 where "s2 = mq_pop_exec s1"
    have s2: "s2 = s1\<lparr>mq_pop := PopTake True (mq_tail s) n\<rparr>"
      by (simp add: s2_def s1_def mq_pop_exec_def nd nx)
    have inv2: "mq_inv s2 ns"
      using inv1 nd nx unfolding s2
      by (simp add: mq_inv_def mq_shape_pop_fields mq_popper_def) (simp add: s1_def)
    have p2: "mq_pop s2 = PopTake True (mq_tail s) n" by (simp add: s2)
    obtain old nxt v where V: "mq_heap s2 (mq_tail s) = Some old" "nd_value old = None"
      "mq_heap s2 n = Some nxt" "nd_value nxt = Some v"
      by (rule mq_take_values [OF inv2 p2]) blast
    have exec: "mq_pop_exec s2 = mq_return True (Data v) (s2\<lparr>mq_tail := n,
        mq_heap := (mq_heap s2)(n \<mapsto> nxt\<lparr>nd_value := None\<rparr>, mq_tail s := None), mq_popped := mq_popped s2 @ [v]\<rparr>)"
      by (simp add: mq_pop_exec_def p2 V)
    have q: "q_pop_spin s = (Some v, mq_pop_exec s2)"
      unfolding q_pop_spin_def Let_def s1_def [symmetric] s2_def [symmetric]
      by (simp add: exec mq_return_def)
    from vs(1) Cons V(3,4) obtain ws where v: "vs = v # ws" by (cases vs) (auto simp: mq_value_def s2 s1_def)
    have "q_invar (mq_pop_exec s2)"
      unfolding q_invar_def
    proof (intro conjI allI impI)
      show "\<exists>ns. mq_inv (mq_pop_exec s2) ns" using mq_take_inv [OF inv2 p2] by blast
      show "mq_push (mq_pop_exec s2) i = PushIdle" for i
        unfolding exec by (simp add: mq_return_def s2 s1_def idle)
      show "mq_pop (mq_pop_exec s2) = PopIdle" unfolding exec by (simp add: mq_return_def)
      show "a \<le> mq_head (mq_pop_exec s2)" if "mq_heap (mq_pop_exec s2) a \<noteq> None" for a
        using that V(3) bound [of a] unfolding exec by (auto simp: mq_return_def s2 s1_def split: if_splits)
    qed
    moreover have "q_contents (mq_pop_exec s2) = ws"
      using v vs(2) unfolding exec by (simp add: q_contents_def mq_return_def s2 s1_def)
    ultimately show ?thesis using v by (simp add: q c)
  qed
qed

interpretation mpsc_q: fifo_queue q_invar q_contents mq_new q_push q_pop_spin
proof unfold_locales
  show "q_invar (mq_new :: 'a mq)"
    using mq_inv_new unfolding q_invar_def by (auto simp: mq_new_def split: if_splits)
  show "q_contents (mq_new :: 'a mq) = []" by (simp add: q_contents_def mq_new_def)
  fix q :: "'a mq" and x xs
  assume q: "q_invar q"
  show "q_invar (q_push x q)" and "q_contents (q_push x q) = q_contents q @ [x]"
    using q_push_ok [OF q] by auto
  show "q_invar (snd (q_pop_spin q))" using q_pop_ok [OF q] by blast
  show "fst (q_pop_spin q) = None \<and> q_contents (snd (q_pop_spin q)) = []" if "q_contents q = []"
    using q_pop_ok [OF q] that by simp
  show "fst (q_pop_spin q) = Some x \<and> q_contents (snd (q_pop_spin q)) = xs" if "q_contents q = x # xs"
    using q_pop_ok [OF q] that by simp
qed

section \<open>Schedules\<close>

text \<open>Executions given by a schedule, to evaluate the model on concrete runs.\<close>

datatype 'a mq_event = PushBegin nat addr 'a | PushRun nat | PopBegin bool | PopRun

fun mq_play :: "'a mq_event list \<Rightarrow> 'a mq \<Rightarrow> 'a mq option" where
  "mq_play [] s = Some s"
| "mq_play (PushBegin i n v # es) s =
     (if mq_push s i = PushIdle \<and> mq_heap s n = None then mq_play es (mq_push_alloc i n v s) else None)"
| "mq_play (PushRun i # es) s = mq_play es (mq_push_exec i s)"
| "mq_play (PopBegin spin # es) s =
     (if mq_pop s = PopIdle then mq_play es (s\<lparr>mq_pop := PopLoad spin, mq_result := None\<rparr>) else None)"
| "mq_play (PopRun # es) s = mq_play es (mq_pop_exec s)"

lemma mq_play_reach: "mq_play es s = Some t \<Longrightarrow> mq_reach s \<Longrightarrow> mq_reach t"
proof (induction es s rule: mq_play.induct)
  case (2 i n v es s)
  then show ?case by (auto split: if_splits intro: reach_step mq_start_push)
next
  case (3 i es s)
  then show ?case by (auto intro: reach_step mq_run_push)
next
  case (4 spin es s)
  then show ?case by (auto split: if_splits intro: reach_step mq_start_pop)
next
  case (5 es s)
  then show ?case by (auto intro: reach_step mq_run_pop)
qed auto

lemma mq_reach_new: "mq_reach mq_new"
  by (rule reach_init) simp

lemmas mq_eval = mq_new_def mq_push_alloc_def mq_push_exec_def mq_push_goto_def mq_pop_exec_def
  mq_return_def node_new_def

text \<open>
  Two pushers overlap: the second has swapped \<open>head\<close> before the first has stored its link, and a
  plain pop sees the inconsistent queue; later the popper is about to take the first value.
\<close>

definition mq_demo :: "nat mq_event list" where
  "mq_demo = [PushBegin 0 1 10, PushBegin 1 2 11, PushRun 0, PushRun 1, PushRun 1, PopBegin False, PopRun]"

definition mq_demo_take :: "nat mq_event list" where
  "mq_demo_take = mq_demo @ [PopRun, PushRun 0, PopBegin True, PopRun]"

lemma mq_play_append:
  "mq_play (es @ fs) s = (case mq_play es s of Some t \<Rightarrow> mq_play fs t | None \<Rightarrow> None)"
  by (induction es s rule: mq_play.induct) auto

lemma mq_fifo_witness:
  "\<exists>s. mq_play (mq_demo_take @ [PopRun]) mq_new = Some s \<and> mq_pushed s = [10, 11] \<and> mq_popped s = [10]
     \<and> ((\<exists>vs. mq_pushed s = mq_popped s @ vs) \<and> mq_pop s \<noteq> PopCrash \<and> (\<forall>i. mq_push s i \<noteq> PushCrash))"
proof -
  obtain s where s: "mq_play (mq_demo_take @ [PopRun]) mq_new = Some s" "mq_pushed s = [10, 11]" "mq_popped s = [10]"
    by (simp add: mq_demo_take_def mq_demo_def mq_eval)
  from mq_fifo [OF mq_play_reach [OF s(1) mq_reach_new]] s show ?thesis by blast
qed

lemma mq_pop_results_witness:
  "\<exists>s. mq_play mq_demo_take mq_new = Some s \<and> mq_returns s (Data 10)
     \<and> (\<exists>vs. mq_pushed s = mq_popped s @ 10 # vs) \<and> mq_popped (mq_pop_exec s) = mq_popped s @ [10]"
proof -
  obtain s where s: "mq_play mq_demo_take mq_new = Some s" "mq_returns s (Data 10)"
    by (simp add: mq_demo_take_def mq_demo_def mq_eval mq_returns_def)
  from mq_pop_results [OF mq_play_reach [OF s(1) mq_reach_new] s(2)] s show ?thesis by simp
qed

end
