(* ===== verification/Atomic_Waker.thy ===== *)
theory Atomic_Waker
  imports Futures_Prelude
begin

text \<open>
  \<open>futures_core::task::AtomicWaker\<close> (\<open>futures-core/src/task/__internal/atomic_waker.rs\<close>), the cell
  through which one task tells another that it may make progress. Threads run \<open>register\<close>, \<open>take\<close>
  and \<open>wake\<close> concurrently; every access to the atomic \<open>state\<close> and every access to the
  \<open>UnsafeCell\<close> is one step of \<open>aw_exec\<close>, and steps of different threads interleave in any order.
  Atomic accesses are sequentially consistent here, the memory orderings of the source being its
  way of getting the same effect for the cell.

  The threads are clients as in the example of the documentation of \<open>register\<close>: a poller
  registers its waker and then looks at a flag, a signaller sets the flag and then calls \<open>wake\<close>.
  A waker is the number of the task it wakes, so \<open>will_wake\<close> is equality.
\<close>

section \<open>State and steps\<close>

type_synonym waker = nat

definition WAITING :: usize where "WAITING = 0"
definition REGISTERING :: usize where "REGISTERING = 0b01"
definition WAKING :: usize where "WAKING = 0b10"

text \<open>
  Program counters, each naming the action the thread does next. The arguments are the locals
  that are alive there: the waker passed to \<open>register\<close> and the waker taken out of the cell.
\<close>

datatype aw_pc =
    Idle
  | RegCas waker
  | RegStore waker
  | RegUnlock waker
  | RegTake waker
  | RegSwap waker waker
  | RegWake waker waker
  | RegWakeByRef waker
  | FlagLoad waker
  | Parked waker
  | FlagStore
  | WakeOr
  | WakeTake
  | WakeSwap "waker option"
  | WakeWake "waker option"
  | AwPanic

text \<open>
  \<open>aw_woken w\<close> is a ghost: the task \<open>w\<close> has been woken since its last poll began. \<open>aw_flag\<close> is the
  flag of the client.
\<close>

record aw =
  aw_state :: usize
  aw_cell :: "waker option"
  aw_flag :: bool
  aw_pc :: "nat \<Rightarrow> aw_pc"
  aw_woken :: "waker \<Rightarrow> bool"

definition aw_goto :: "nat \<Rightarrow> aw_pc \<Rightarrow> aw \<Rightarrow> aw" where
  "aw_goto i l s = s\<lparr>aw_pc := (aw_pc s)(i := l)\<rparr>"

definition aw_wake :: "waker \<Rightarrow> aw \<Rightarrow> aw" where
  "aw_wake w s = s\<lparr>aw_woken := (aw_woken s)(w := True)\<rparr>"

text \<open>\<open>AtomicWaker::new\<close>, with every thread outside of it and the flag unset.\<close>

definition aw_new :: aw where
  "aw_new = \<lparr>aw_state = WAITING, aw_cell = None, aw_flag = False, aw_pc = (\<lambda>_. Idle),
             aw_woken = (\<lambda>_. False)\<rparr>"

text \<open>\<open>AtomicWaker::register\<close>, one atomic action at a time.\<close>

fun aw_register :: "nat \<Rightarrow> aw_pc \<Rightarrow> aw \<Rightarrow> aw" where
  "aw_register i (RegCas w) s =
     (if aw_state s = WAITING then aw_goto i (RegStore w) (s\<lparr>aw_state := REGISTERING\<rparr>)
      else if aw_state s = WAKING then aw_goto i (RegWakeByRef w) s
      else if aw_state s = REGISTERING \<or> aw_state s = (REGISTERING OR WAKING) then aw_goto i (FlagLoad w) s
      else aw_goto i AwPanic s)"
| "aw_register i (RegStore w) s =
     aw_goto i (RegUnlock w)
       (case aw_cell s of
          Some old \<Rightarrow> if old = w then s else s\<lparr>aw_cell := Some w\<rparr>
        | None \<Rightarrow> s\<lparr>aw_cell := Some w\<rparr>)"
| "aw_register i (RegUnlock w) s =
     (if aw_state s = REGISTERING then aw_goto i (FlagLoad w) (s\<lparr>aw_state := WAITING\<rparr>)
      else if aw_state s = (REGISTERING OR WAKING) then aw_goto i (RegTake w) s
      else aw_goto i AwPanic s)"
| "aw_register i (RegTake w) s =
     (case aw_cell s of
        Some v \<Rightarrow> aw_goto i (RegSwap w v) (s\<lparr>aw_cell := None\<rparr>)
      | None \<Rightarrow> aw_goto i AwPanic s)"
| "aw_register i (RegSwap w v) s = aw_goto i (RegWake w v) (s\<lparr>aw_state := WAITING\<rparr>)"
| "aw_register i (RegWake w v) s = aw_goto i (FlagLoad w) (aw_wake v s)"
| "aw_register i (RegWakeByRef w) s = aw_goto i (FlagLoad w) (aw_wake w s)"
| "aw_register i _ s = s"

text \<open>\<open>AtomicWaker::take\<close>, followed by the \<open>waker.wake()\<close> of \<open>AtomicWaker::wake\<close>.\<close>

fun aw_take_wake :: "nat \<Rightarrow> aw_pc \<Rightarrow> aw \<Rightarrow> aw" where
  "aw_take_wake i WakeOr s =
     (let old = aw_state s; s1 = s\<lparr>aw_state := old OR WAKING\<rparr>
      in if old = WAITING then aw_goto i WakeTake s1
         else if old = REGISTERING \<or> old = (REGISTERING OR WAKING) \<or> old = WAKING then aw_goto i Idle s1
         else aw_goto i AwPanic s1)"
| "aw_take_wake i WakeTake s = aw_goto i (WakeSwap (aw_cell s)) (s\<lparr>aw_cell := None\<rparr>)"
| "aw_take_wake i (WakeSwap v) s =
     (let old = aw_state s; s1 = s\<lparr>aw_state := WAITING\<rparr>
      in if old = WAKING then aw_goto i (WakeWake v) s1 else aw_goto i AwPanic s1)"
| "aw_take_wake i (WakeWake v) s =
     (case v of Some w \<Rightarrow> aw_goto i Idle (aw_wake w s) | None \<Rightarrow> aw_goto i Idle s)"
| "aw_take_wake i _ s = s"

text \<open>
  The client: \<open>Flag::poll\<close> after \<open>register\<close>, and the signaller's \<open>set.store(true)\<close> before \<open>wake\<close>.
\<close>

fun aw_client :: "nat \<Rightarrow> aw_pc \<Rightarrow> aw \<Rightarrow> aw" where
  "aw_client i (FlagLoad w) s = (if aw_flag s then aw_goto i Idle s else aw_goto i (Parked w) s)"
| "aw_client i FlagStore s = aw_goto i WakeOr (s\<lparr>aw_flag := True\<rparr>)"
| "aw_client i _ s = s"

definition aw_exec :: "nat \<Rightarrow> aw \<Rightarrow> aw" where
  "aw_exec i s =
     (case aw_pc s i of
        FlagLoad w \<Rightarrow> aw_client i (FlagLoad w) s
      | FlagStore \<Rightarrow> aw_client i FlagStore s
      | WakeOr \<Rightarrow> aw_take_wake i WakeOr s
      | WakeTake \<Rightarrow> aw_take_wake i WakeTake s
      | WakeSwap v \<Rightarrow> aw_take_wake i (WakeSwap v) s
      | WakeWake v \<Rightarrow> aw_take_wake i (WakeWake v) s
      | l \<Rightarrow> aw_register i l s)"

text \<open>
  \<open>P\<close> is the set of threads that may poll. A poll starts with a waker of the caller's choice, also
  when the previous one returned \<open>Pending\<close>.
\<close>

inductive aw_step :: "nat set \<Rightarrow> aw \<Rightarrow> aw \<Rightarrow> bool" for P :: "nat set" where
  aw_poll: "i \<in> P \<Longrightarrow> aw_pc s i = Idle \<or> (\<exists>v. aw_pc s i = Parked v) \<Longrightarrow>
    aw_step P s (aw_goto i (RegCas w) (s\<lparr>aw_woken := (aw_woken s)(w := False)\<rparr>))"
| aw_signal: "aw_pc s i = Idle \<Longrightarrow> aw_step P s (aw_goto i FlagStore s)"
| aw_run: "aw_step P s (aw_exec i s)"

abbreviation aw_reach :: "nat set \<Rightarrow> aw \<Rightarrow> bool" where
  "aw_reach P \<equiv> reach (\<lambda>s. s = aw_new) (aw_step P)"

section \<open>Mutual exclusion\<close>

text \<open>
  The program points that access the cell, and what the state must be for a thread to be there:
  the \<open>REGISTERING\<close> bit is the lock of \<open>register\<close>, \<open>WAKING\<close> alone that of \<open>take\<close>.
\<close>

fun aw_owner_ok :: "aw_pc \<Rightarrow> usize \<Rightarrow> bool" where
  "aw_owner_ok (RegStore w) st \<longleftrightarrow> st = 1 \<or> st = 3"
| "aw_owner_ok (RegUnlock w) st \<longleftrightarrow> st = 1 \<or> st = 3"
| "aw_owner_ok (RegTake w) st \<longleftrightarrow> st = 3"
| "aw_owner_ok (RegSwap w v) st \<longleftrightarrow> st = 3"
| "aw_owner_ok WakeTake st \<longleftrightarrow> st = 2"
| "aw_owner_ok (WakeSwap v) st \<longleftrightarrow> st = 2"
| "aw_owner_ok l st \<longleftrightarrow> False"

fun aw_in_cs :: "aw_pc \<Rightarrow> bool" where
  "aw_in_cs (RegStore w) = True"
| "aw_in_cs (RegUnlock w) = True"
| "aw_in_cs (RegTake w) = True"
| "aw_in_cs (RegSwap w v) = True"
| "aw_in_cs WakeTake = True"
| "aw_in_cs (WakeSwap v) = True"
| "aw_in_cs l = False"

text \<open>Nobody is in a critical section and the state is \<open>WAITING\<close>, or exactly one thread is.\<close>

definition aw_owned_by :: "nat \<Rightarrow> aw \<Rightarrow> bool" where
  "aw_owned_by k s = (aw_owner_ok (aw_pc s k) (aw_state s) \<and> (\<forall>j. j \<noteq> k \<longrightarrow> \<not> aw_in_cs (aw_pc s j)))"

definition aw_free :: "aw \<Rightarrow> bool" where
  "aw_free s = (aw_state s = 0 \<and> (\<forall>j. \<not> aw_in_cs (aw_pc s j)))"

definition aw_lock_inv :: "aw \<Rightarrow> bool" where
  "aw_lock_inv s = (aw_free s \<or> (\<exists>k. aw_owned_by k s))"

text \<open>What the locals know about the cell.\<close>

fun aw_cell_ok :: "aw_pc \<Rightarrow> waker option \<Rightarrow> bool" where
  "aw_cell_ok (RegUnlock w) c \<longleftrightarrow> c = Some w"
| "aw_cell_ok (RegTake w) c \<longleftrightarrow> c = Some w"
| "aw_cell_ok (RegSwap w v) c \<longleftrightarrow> v = w"
| "aw_cell_ok (RegWake w v) c \<longleftrightarrow> v = w"
| "aw_cell_ok AwPanic c \<longleftrightarrow> False"
| "aw_cell_ok l c \<longleftrightarrow> True"

definition aw_cell_inv :: "aw \<Rightarrow> bool" where
  "aw_cell_inv s = (\<forall>i. aw_cell_ok (aw_pc s i) (aw_cell s))"

lemmas aw_defs = aw_goto_def aw_wake_def WAITING_def REGISTERING_def WAKING_def

lemma aw_or_simps [simp]:
  "(0 :: usize) OR 2 = 2" "(1 :: usize) OR 2 = 3" "(2 :: usize) OR 2 = 2" "(3 :: usize) OR 2 = 3"
  by simp_all

lemma aw_pc_goto [simp]: "aw_pc (aw_goto i l s) = (aw_pc s)(i := l)"
  "aw_state (aw_goto i l s) = aw_state s" "aw_cell (aw_goto i l s) = aw_cell s"
  "aw_flag (aw_goto i l s) = aw_flag s" "aw_woken (aw_goto i l s) = aw_woken s"
  by (simp_all add: aw_goto_def)

lemma aw_wake_simps [simp]: "aw_pc (aw_wake w s) = aw_pc s"
  "aw_state (aw_wake w s) = aw_state s" "aw_cell (aw_wake w s) = aw_cell s"
  "aw_flag (aw_wake w s) = aw_flag s" "aw_woken (aw_wake w s) = (aw_woken s)(w := True)"
  by (simp_all add: aw_wake_def)

lemma aw_exec_other: "j \<noteq> i \<Longrightarrow> aw_pc (aw_exec i s) j = aw_pc s j"
  by (cases "aw_pc s i") (auto simp: aw_exec_def Let_def split: option.splits)

lemma aw_owner_ok_in_cs: "aw_owner_ok l st \<Longrightarrow> aw_in_cs l"
  by (cases l) auto

lemma aw_owner_ok_state: "aw_owner_ok l st \<Longrightarrow> st = 1 \<or> st = 2 \<or> st = 3"
  by (cases l) auto

lemma aw_owner_ok_or: "aw_owner_ok l st \<Longrightarrow> aw_owner_ok l (st OR 2)"
  by (cases l) auto

lemma aw_exec_outside:
  assumes "\<not> aw_in_cs (aw_pc s i)" and "aw_state s = 1 \<or> aw_state s = 2 \<or> aw_state s = 3"
    and "aw_pc s i \<noteq> AwPanic"
  shows "\<not> aw_in_cs (aw_pc (aw_exec i s) i) \<and> aw_pc (aw_exec i s) i \<noteq> AwPanic \<and>
    (aw_state (aw_exec i s) = aw_state s \<or> aw_state (aw_exec i s) = (aw_state s OR 2))"
  using assms
  by (cases "aw_pc s i"; force simp: aw_exec_def Let_def WAITING_def REGISTERING_def WAKING_def split: option.splits)+

lemma aw_exec_lock_inv_outside:
  assumes "aw_owned_by k s" and "i \<noteq> k" and "aw_pc s i \<noteq> AwPanic"
  shows "aw_owned_by k (aw_exec i s)"
proof -
  from assms have out: "\<not> aw_in_cs (aw_pc s i)" and ok: "aw_owner_ok (aw_pc s k) (aw_state s)"
    by (auto simp: aw_owned_by_def)
  note step = aw_exec_outside [OF out aw_owner_ok_state [OF ok] assms(3)]
  have "aw_owner_ok (aw_pc s k) (aw_state (aw_exec i s))"
    using step ok aw_owner_ok_or by auto
  moreover have "\<not> aw_in_cs (aw_pc (aw_exec i s) j)" if "j \<noteq> k" for j
    using that assms(1) step by (cases "j = i") (auto simp: aw_exec_other aw_owned_by_def)
  ultimately show ?thesis using assms(2) by (simp add: aw_owned_by_def aw_exec_other)
qed

lemma aw_lock_invI:
  assumes "\<And>j. j \<noteq> i \<Longrightarrow> \<not> aw_in_cs (aw_pc s j)"
    and "aw_owner_ok (aw_pc s i) (aw_state s) \<or> \<not> aw_in_cs (aw_pc s i) \<and> aw_state s = 0"
  shows "aw_lock_inv s"
  using assms unfolding aw_lock_inv_def aw_free_def aw_owned_by_def by metis

lemma aw_exec_lock_inv:
  assumes "aw_lock_inv s" and "aw_cell_inv s"
  shows "aw_lock_inv (aw_exec i s)"
proof -
  from assms(2) have ok: "aw_cell_ok (aw_pc s i) (aw_cell s)" by (simp add: aw_cell_inv_def)
  from assms(1) consider "aw_free s" | "aw_owned_by i s" | k where "aw_owned_by k s" "i \<noteq> k"
    unfolding aw_lock_inv_def by metis
  then show ?thesis
  proof cases
    case 1
    then have out: "\<not> aw_in_cs (aw_pc s i)" by (simp add: aw_free_def)
    show ?thesis
      by (rule aw_lock_invI [of i]; use 1 out ok in \<open>cases "aw_pc s i"\<close>)
        (auto simp: aw_free_def aw_exec_other aw_exec_def Let_def aw_defs split: option.splits)
  next
    case 2
    show ?thesis
      by (rule aw_lock_invI [of i]; use 2 ok in \<open>cases "aw_pc s i"\<close>)
        (auto simp: aw_owned_by_def aw_exec_other aw_exec_def Let_def aw_defs split: option.splits)
  next
    case 3
    with ok have "aw_owned_by k (aw_exec i s)"
      by (intro aw_exec_lock_inv_outside) auto
    then show ?thesis by (auto simp: aw_lock_inv_def)
  qed
qed

lemma aw_lock_inv_state:
  "aw_lock_inv s \<Longrightarrow> aw_state s = 0 \<or> aw_state s = 1 \<or> aw_state s = 2 \<or> aw_state s = 3"
  by (auto simp: aw_lock_inv_def aw_free_def aw_owned_by_def dest: aw_owner_ok_state)

lemma aw_lock_inv_unique:
  "aw_lock_inv s \<Longrightarrow> aw_in_cs (aw_pc s i) \<Longrightarrow> aw_in_cs (aw_pc s j) \<Longrightarrow> i = j"
  unfolding aw_lock_inv_def aw_free_def aw_owned_by_def by metis

lemma aw_lock_inv_owner:
  "aw_lock_inv s \<Longrightarrow> aw_in_cs (aw_pc s i) \<Longrightarrow> aw_owner_ok (aw_pc s i) (aw_state s)"
  unfolding aw_lock_inv_def aw_free_def aw_owned_by_def by metis

lemma aw_lock_inv_held:
  "aw_lock_inv s \<Longrightarrow> aw_state s \<noteq> 0 \<Longrightarrow> \<exists>k. aw_owner_ok (aw_pc s k) (aw_state s)"
  unfolding aw_lock_inv_def aw_free_def aw_owned_by_def by metis

lemma aw_exec_cell_frame: "\<not> aw_in_cs (aw_pc s i) \<Longrightarrow> aw_cell (aw_exec i s) = aw_cell s"
  by (cases "aw_pc s i") (auto simp: aw_exec_def Let_def split: option.splits)

lemma aw_cell_ok_outside: "\<not> aw_in_cs l \<Longrightarrow> aw_cell_ok l c = aw_cell_ok l d"
  by (cases l) auto

lemma aw_exec_cell_inv:
  assumes lock: "aw_lock_inv s" and cell: "aw_cell_inv s"
  shows "aw_cell_inv (aw_exec i s)"
  unfolding aw_cell_inv_def
proof
  fix j
  from cell have ok: "aw_cell_ok (aw_pc s j) (aw_cell s)" by (simp add: aw_cell_inv_def)
  show "aw_cell_ok (aw_pc (aw_exec i s) j) (aw_cell (aw_exec i s))"
  proof (cases "j = i")
    case True
    with ok show ?thesis
      using aw_lock_inv_state [OF lock] aw_lock_inv_owner [OF lock, of i]
      by (cases "aw_pc s i")
        (auto simp: aw_exec_def Let_def WAITING_def REGISTERING_def WAKING_def split: option.splits)
  next
    case other: False
    show ?thesis
    proof (cases "aw_in_cs (aw_pc s j)")
      case True
      with other aw_lock_inv_unique [OF lock] have "\<not> aw_in_cs (aw_pc s i)" by blast
      then show ?thesis using ok other by (simp add: aw_exec_cell_frame aw_exec_other)
    next
      case False
      with ok other show ?thesis by (metis aw_cell_ok_outside aw_exec_other)
    qed
  qed
qed

lemma aw_lock_inv_goto:
  assumes "aw_lock_inv s" "\<not> aw_in_cs (aw_pc s i)" "\<not> aw_in_cs l"
  shows "aw_lock_inv (aw_goto i l s)"
proof -
  from assms(1) consider "aw_free s" | k where "aw_owned_by k s" unfolding aw_lock_inv_def by auto
  then show ?thesis
  proof cases
    case 1
    with assms(3) have "aw_free (aw_goto i l s)" by (auto simp: aw_free_def)
    then show ?thesis by (simp add: aw_lock_inv_def)
  next
    case 2
    with assms(2) have "k \<noteq> i" by (auto simp: aw_owned_by_def dest: aw_owner_ok_in_cs)
    with 2 assms(3) have "aw_owned_by k (aw_goto i l s)" by (auto simp: aw_owned_by_def)
    then show ?thesis by (auto simp: aw_lock_inv_def)
  qed
qed

lemma aw_lock_inv_woken [simp]: "aw_lock_inv (s\<lparr>aw_woken := f\<rparr>) = aw_lock_inv s"
  by (simp add: aw_lock_inv_def aw_free_def aw_owned_by_def)

lemma aw_cell_inv_goto: "aw_cell_inv s \<Longrightarrow> aw_cell_ok l (aw_cell s) \<Longrightarrow> aw_cell_inv (aw_goto i l s)"
  by (simp add: aw_cell_inv_def)

lemma aw_cell_inv_woken [simp]: "aw_cell_inv (s\<lparr>aw_woken := f\<rparr>) = aw_cell_inv s"
  by (simp add: aw_cell_inv_def)

lemma aw_step_safe:
  assumes "aw_step P s t" and "aw_lock_inv s \<and> aw_cell_inv s"
  shows "aw_lock_inv t \<and> aw_cell_inv t"
  using assms(1)
proof cases
  case (aw_poll i w)
  from assms(2) aw_poll(3) show ?thesis unfolding aw_poll(1)
    by (auto intro: aw_lock_inv_goto aw_cell_inv_goto)
next
  case (aw_signal i)
  from assms(2) aw_signal(2) show ?thesis unfolding aw_signal(1)
    by (auto intro: aw_lock_inv_goto aw_cell_inv_goto)
next
  case (aw_run i)
  with assms(2) show ?thesis by (auto intro: aw_exec_lock_inv aw_exec_cell_inv)
qed

lemma aw_reach_safe: "aw_reach P s \<Longrightarrow> aw_lock_inv s \<and> aw_cell_inv s"
proof (erule reach_invariant)
  fix s assume "s = aw_new"
  then show "aw_lock_inv s \<and> aw_cell_inv s"
    by (auto simp: aw_new_def aw_lock_inv_def aw_free_def aw_cell_inv_def WAITING_def)
qed (rule aw_step_safe)

section \<open>No lost wake-ups\<close>

text \<open>Only threads of \<open>P\<close> are inside a poll.\<close>

fun aw_polling :: "aw_pc \<Rightarrow> bool" where
  "aw_polling Idle = False"
| "aw_polling FlagStore = False"
| "aw_polling WakeOr = False"
| "aw_polling WakeTake = False"
| "aw_polling (WakeSwap v) = False"
| "aw_polling (WakeWake v) = False"
| "aw_polling l = True"

definition aw_role_inv :: "nat set \<Rightarrow> aw \<Rightarrow> bool" where
  "aw_role_inv P s = (\<forall>i. aw_polling (aw_pc s i) \<longrightarrow> i \<in> P)"

text \<open>
  After a poll of \<open>w\<close> has registered and before \<open>w\<close> is woken, the cell holds \<open>w\<close> and nobody is
  about to throw away an empty-handed take, or a waking thread has \<open>w\<close> in its hands.
\<close>

definition aw_registered :: "nat \<Rightarrow> waker \<Rightarrow> aw \<Rightarrow> bool" where
  "aw_registered p w s =
     (aw_woken s w
      \<or> aw_cell s = Some w \<and> (\<forall>j v. aw_pc s j \<noteq> WakeSwap v)
      \<or> (\<exists>j. aw_pc s j = WakeSwap (Some w) \<or> aw_pc s j = WakeWake (Some w)))"

text \<open>A wake-up of \<open>w\<close> is on its way: some thread is inside \<open>wake\<close> and will call it.\<close>

definition aw_wake_coming :: "waker \<Rightarrow> aw \<Rightarrow> bool" where
  "aw_wake_coming w s =
     (\<exists>j. aw_pc s j = WakeOr \<or> aw_pc s j = WakeTake \<or> aw_pc s j = WakeSwap (Some w)
        \<or> aw_pc s j = WakeWake (Some w))"

definition aw_poll_inv :: "nat \<Rightarrow> aw \<Rightarrow> bool" where
  "aw_poll_inv p s =
     (\<forall>w. (aw_pc s p = FlagLoad w \<longrightarrow> aw_registered p w s)
        \<and> (aw_pc s p = Parked w \<longrightarrow> aw_registered p w s \<and> (aw_flag s \<longrightarrow> aw_woken s w \<or> aw_wake_coming w s)))"

lemma aw_exec_polling: "aw_polling (aw_pc (aw_exec i s) i) \<Longrightarrow> aw_pc s i \<noteq> AwPanic \<Longrightarrow> 
    aw_pc (aw_exec i s) i \<noteq> AwPanic \<Longrightarrow> aw_polling (aw_pc s i)"
  by (cases "aw_pc s i") (auto simp: aw_exec_def Let_def split: option.splits if_splits)

lemma aw_step_role:
  assumes "aw_step P s t" and safe: "aw_cell_inv s" "aw_cell_inv t" and "aw_role_inv P s"
  shows "aw_role_inv P t"
  using assms(1)
proof cases
  case (aw_poll i w)
  with assms(4) show ?thesis by (auto simp: aw_role_inv_def)
next
  case (aw_signal i)
  with assms(4) show ?thesis by (auto simp: aw_role_inv_def)
next
  case (aw_run i)
  from safe have "aw_pc s i \<noteq> AwPanic" "aw_pc (aw_exec i s) i \<noteq> AwPanic"
    unfolding aw_cell_inv_def aw_run by (metis aw_cell_ok.simps(5))+
  with assms(4) aw_exec_polling [of i s] show ?thesis
    unfolding aw_role_inv_def aw_run by (metis aw_exec_other)
qed

lemma aw_exec_woken: "aw_woken s w \<Longrightarrow> aw_woken (aw_exec i s) w"
  by (cases "aw_pc s i") (auto simp: aw_exec_def Let_def split: option.splits)

text \<open>A thread other than the poller keeps the registration alive.\<close>

lemma aw_exec_registered:
  assumes lock: "aw_lock_inv s" and np: "\<not> aw_polling (aw_pc s i)" and reg: "aw_registered p w s"
  shows "aw_registered p w (aw_exec i s)"
proof -
  from reg consider "aw_woken s w"
    | "aw_cell s = Some w" "\<And>j v. aw_pc s j \<noteq> WakeSwap v"
    | j where "aw_pc s j = WakeSwap (Some w) \<or> aw_pc s j = WakeWake (Some w)"
    unfolding aw_registered_def by blast
  then show ?thesis
  proof cases
    case 1
    then show ?thesis by (simp add: aw_registered_def aw_exec_woken)
  next
    case 2
    with np show ?thesis
      by (cases "aw_pc s i")
        (auto simp: aw_registered_def aw_exec_def Let_def split: option.splits)
  next
    case 3
    show ?thesis
    proof (cases "j = i")
      case True
      with 3 aw_lock_inv_owner [OF lock, of i]
      have "aw_woken (aw_exec i s) w \<or> aw_pc (aw_exec i s) i = WakeWake (Some w)"
        by (auto simp: aw_exec_def Let_def WAKING_def)
      then show ?thesis unfolding aw_registered_def by blast
    next
      case False
      with 3 show ?thesis unfolding aw_registered_def by (metis aw_exec_other)
    qed
  qed
qed

lemma aw_exec_coming:
  assumes lock: "aw_lock_inv s" and np: "\<not> aw_polling (aw_pc s i)"
    and others: "\<And>j. aw_polling (aw_pc s j) \<Longrightarrow> \<not> aw_in_cs (aw_pc s j)"
    and reg: "aw_registered p w s" and coming: "aw_wake_coming w s"
  shows "aw_woken (aw_exec i s) w \<or> aw_wake_coming w (aw_exec i s)"
proof (rule disjCI)
  assume nc: "\<not> aw_wake_coming w (aw_exec i s)"
  from coming obtain j where j: "aw_pc s j = WakeOr \<or> aw_pc s j = WakeTake \<or>
      aw_pc s j = WakeSwap (Some w) \<or> aw_pc s j = WakeWake (Some w)"
    unfolding aw_wake_coming_def by blast
  with nc have "j = i" unfolding aw_wake_coming_def by (metis aw_exec_other)
  from nc have nci: "aw_pc (aw_exec i s) i \<noteq> WakeTake" "aw_pc (aw_exec i s) i \<noteq> WakeSwap (Some w)"
      "aw_pc (aw_exec i s) i \<noteq> WakeWake (Some w)"
    and ncj: "\<And>k. k \<noteq> i \<Longrightarrow> aw_pc s k \<noteq> WakeTake \<and> aw_pc s k \<noteq> WakeSwap (Some w)
        \<and> aw_pc s k \<noteq> WakeWake (Some w)"
    unfolding aw_wake_coming_def by (metis aw_exec_other)+
  from j [unfolded \<open>j = i\<close>] consider "aw_pc s i = WakeOr" | "aw_pc s i = WakeTake"
    | "aw_pc s i = WakeSwap (Some w)" | "aw_pc s i = WakeWake (Some w)" by blast
  then show "aw_woken (aw_exec i s) w"
  proof cases
    case 1
    with nci have "aw_state s \<noteq> 0" by (auto simp: aw_exec_def WAITING_def)
    then obtain k where k: "aw_owner_ok (aw_pc s k) (aw_state s)"
      using aw_lock_inv_held [OF lock] by blast
    with others have "\<not> aw_polling (aw_pc s k)" using aw_owner_ok_in_cs by blast
    with k have "aw_pc s k = WakeTake \<or> (\<exists>v. aw_pc s k = WakeSwap v)" by (cases "aw_pc s k") auto
    moreover from 1 k have "k \<noteq> i" by auto
    ultimately have "aw_woken s w" using reg ncj 1 unfolding aw_registered_def
      by (metis aw_pc.distinct)
    then show ?thesis by (rule aw_exec_woken)
  next
    case 2
    with nci have "aw_cell s \<noteq> Some w" by (auto simp: aw_exec_def)
    with reg ncj 2 have "aw_woken s w" unfolding aw_registered_def by (metis aw_pc.distinct)
    then show ?thesis by (rule aw_exec_woken)
  next
    case 3
    with nci aw_lock_inv_owner [OF lock, of i] show ?thesis
      by (auto simp: aw_exec_def Let_def WAKING_def)
  next
    case 4
    then show ?thesis by (simp add: aw_exec_def)
  qed
qed

lemma aw_registered_goto:
  assumes "aw_registered p w s" and "\<And>v. aw_pc s i \<noteq> WakeSwap v" and "\<And>v. aw_pc s i \<noteq> WakeWake v"
    and "\<And>v. l \<noteq> WakeSwap v"
  shows "aw_registered p w (aw_goto i l s)"
  using assms unfolding aw_registered_def by (auto; metis)

text \<open>The poller's own steps: a registration ends with the waker in the cell or already woken.\<close>

lemma aw_exec_poller:
  assumes lock: "aw_lock_inv s" and cell: "aw_cell_inv s" and role: "aw_role_inv {p} s"
    and inv: "aw_poll_inv p s"
  shows "aw_poll_inv p (aw_exec p s)"
proof -
  have ok: "aw_cell_ok (aw_pc s p) (aw_cell s)" using cell by (simp add: aw_cell_inv_def)
  have nocs: "\<not> aw_in_cs (aw_pc s j)" if "aw_polling (aw_pc s p)" "aw_in_cs (aw_pc s p)" "j \<noteq> p" for j
    using aw_lock_inv_unique [OF lock] that by blast
  show ?thesis
  proof (cases "aw_pc s p")
    case (RegCas w)
    have "aw_state s \<noteq> 1" "aw_state s \<noteq> 3"
    proof -
      have False if "aw_state s = 1 \<or> aw_state s = 3"
      proof -
        from that obtain k where k: "aw_owner_ok (aw_pc s k) (aw_state s)"
          using aw_lock_inv_held [OF lock] by force
        with that have "aw_polling (aw_pc s k)" by (cases "aw_pc s k") auto
        with role have "k = p" by (auto simp: aw_role_inv_def)
        with k RegCas show False by simp
      qed
      then show "aw_state s \<noteq> 1" "aw_state s \<noteq> 3" by auto
    qed
    with RegCas show ?thesis
      by (auto simp: aw_poll_inv_def aw_exec_def REGISTERING_def WAKING_def)
  next
    case (RegUnlock w)
    then have "\<And>j v. aw_pc s j \<noteq> WakeSwap v"
      using nocs by (metis aw_in_cs.simps(2,6) aw_polling.simps(9) aw_pc.distinct)
    with RegUnlock ok show ?thesis
      by (auto simp: aw_poll_inv_def aw_registered_def aw_exec_def)
  next
    case (FlagLoad w)
    with inv show ?thesis
      by (auto simp: aw_poll_inv_def aw_exec_def intro: aw_registered_goto)
  next
    case (Parked w)
    with inv show ?thesis by (simp add: aw_exec_def)
  qed (use ok in \<open>auto simp: aw_poll_inv_def aw_exec_def Let_def aw_registered_def split: option.splits\<close>)
qed

lemma aw_exec_other_poller:
  assumes lock: "aw_lock_inv s" and role: "aw_role_inv {p} s"
    and inv: "aw_poll_inv p s" and "i \<noteq> p"
  shows "aw_poll_inv p (aw_exec i s)"
proof -
  have np: "\<not> aw_polling (aw_pc s i)" using role \<open>i \<noteq> p\<close> by (auto simp: aw_role_inv_def)
  have pc: "aw_pc (aw_exec i s) p = aw_pc s p" using \<open>i \<noteq> p\<close> by (simp add: aw_exec_other)
  have reg: "aw_registered p w (aw_exec i s)" if "aw_registered p w s" for w
    using aw_exec_registered [OF lock np that] .
  have "aw_woken (aw_exec i s) w \<or> aw_wake_coming w (aw_exec i s)"
    if park: "aw_pc s p = Parked w" and flag: "aw_flag (aw_exec i s)" for w
  proof (cases "aw_flag s")
    case True
    with inv park consider "aw_woken s w" | "aw_wake_coming w s" "aw_registered p w s"
      by (auto simp: aw_poll_inv_def)
    then show ?thesis
    proof cases
      case 1
      then show ?thesis by (simp add: aw_exec_woken)
    next
      case 2
      have "\<not> aw_in_cs (aw_pc s j)" if "aw_polling (aw_pc s j)" for j
        using that role park by (auto simp: aw_role_inv_def)
      then show ?thesis using aw_exec_coming [OF lock np _ 2(2,1)] by blast
    qed
  next
    case False
    with flag have "aw_pc (aw_exec i s) i = WakeOr"
      by (cases "aw_pc s i") (auto simp: aw_exec_def Let_def split: option.splits if_splits)
    then show ?thesis unfolding aw_wake_coming_def by blast
  qed
  with reg inv pc show ?thesis by (simp add: aw_poll_inv_def)
qed

definition aw_inv :: "nat \<Rightarrow> aw \<Rightarrow> bool" where
  "aw_inv p s = (aw_lock_inv s \<and> aw_cell_inv s \<and> aw_role_inv {p} s \<and> aw_poll_inv p s)"

lemma aw_coming_goto: "aw_wake_coming w s \<Longrightarrow> aw_pc s i = Idle \<Longrightarrow> aw_wake_coming w (aw_goto i l s)"
  unfolding aw_wake_coming_def by (auto; metis aw_pc.distinct)

lemma aw_step_inv:
  assumes step: "aw_step {p} s t" and inv: "aw_inv p s"
  shows "aw_inv p t"
proof -
  have safe: "aw_lock_inv t" "aw_cell_inv t"
    using aw_step_safe [OF step] inv by (auto simp: aw_inv_def)
  moreover have "aw_role_inv {p} t"
    using aw_step_role [OF step] inv safe by (auto simp: aw_inv_def)
  moreover from step have "aw_poll_inv p t"
  proof cases
    case (aw_poll i w)
    then show ?thesis by (simp add: aw_poll_inv_def)
  next
    case (aw_signal i)
    with inv show ?thesis
      by (cases "i = p") (auto simp: aw_inv_def aw_poll_inv_def intro: aw_registered_goto aw_coming_goto)
  next
    case (aw_run i)
    with inv show ?thesis
      by (cases "i = p") (auto simp: aw_inv_def intro: aw_exec_poller aw_exec_other_poller)
  qed
  ultimately show ?thesis by (simp add: aw_inv_def)
qed

lemma aw_reach_inv: "aw_reach {p} s \<Longrightarrow> aw_inv p s"
proof (erule reach_invariant)
  fix s assume "s = aw_new"
  then show "aw_inv p s"
    by (auto simp: aw_inv_def aw_new_def aw_lock_inv_def aw_free_def aw_cell_inv_def WAITING_def
        aw_role_inv_def aw_poll_inv_def)
qed (rule aw_step_inv)

section \<open>Schedules\<close>

text \<open>An executable scheduler: it plays a list of events, each checked against the rules.\<close>

datatype aw_event = Poll nat waker | Signal nat | Run nat

fun aw_play :: "nat set \<Rightarrow> aw_event list \<Rightarrow> aw \<Rightarrow> aw option" where
  "aw_play P [] s = Some s"
| "aw_play P (Poll i w # es) s =
     (if i \<in> P \<and> (case aw_pc s i of Idle \<Rightarrow> True | Parked v \<Rightarrow> True | _ \<Rightarrow> False)
      then aw_play P es (aw_goto i (RegCas w) (s\<lparr>aw_woken := (aw_woken s)(w := False)\<rparr>)) else None)"
| "aw_play P (Signal i # es) s =
     (case aw_pc s i of Idle \<Rightarrow> aw_play P es (aw_goto i FlagStore s) | _ \<Rightarrow> None)"
| "aw_play P (Run i # es) s = aw_play P es (aw_exec i s)"

lemma aw_play_reach: "aw_play P es s = Some t \<Longrightarrow> aw_reach P s \<Longrightarrow> aw_reach P t"
proof (induction P es s rule: aw_play.induct)
  case (2 P i w es s)
  then show ?case
    by (auto split: if_splits aw_pc.splits intro: reach_step aw_poll)
next
  case (3 P i es s)
  then show ?case by (auto split: aw_pc.splits intro: reach_step aw_signal)
qed (auto intro: reach_step aw_run)

lemma aw_reach_new: "aw_reach P aw_new"
  by (rule reach_init) simp

section \<open>Progress\<close>

text \<open>How many actions of its own a thread still has to do inside the call it is in.\<close>

fun aw_rank :: "aw_pc \<Rightarrow> nat" where
  "aw_rank (RegCas w) = 7"
| "aw_rank (RegStore w) = 6"
| "aw_rank (RegUnlock w) = 5"
| "aw_rank (RegTake w) = 4"
| "aw_rank (RegSwap w v) = 3"
| "aw_rank (RegWake w v) = 2"
| "aw_rank (RegWakeByRef w) = 2"
| "aw_rank (FlagLoad w) = 1"
| "aw_rank FlagStore = 5"
| "aw_rank WakeOr = 4"
| "aw_rank WakeTake = 3"
| "aw_rank (WakeSwap v) = 2"
| "aw_rank (WakeWake v) = 1"
| "aw_rank l = 0"

lemma aw_exec_rank:
  "aw_pc (aw_exec i s) i \<noteq> AwPanic \<Longrightarrow> aw_rank (aw_pc s i) \<noteq> 0 \<Longrightarrow>
   aw_rank (aw_pc (aw_exec i s) i) < aw_rank (aw_pc s i)"
  by (cases "aw_pc s i") (auto simp: aw_exec_def Let_def split: option.splits)

section \<open>Properties\<close>

text \<open>
  C27. Mutual exclusion and absence of panics: in every state that any number of threads, all
  free to register and to wake, can reach, at most one thread is at a program point that reads or
  writes the waker cell, and no \<open>debug_assert!\<close> or \<open>unwrap\<close> of \<open>AtomicWaker\<close> has failed.
\<close>

theorem aw_mutual_exclusion:
  assumes "aw_reach P s"
  shows "(aw_in_cs (aw_pc s i) \<and> aw_in_cs (aw_pc s j) \<longrightarrow> i = j) \<and> aw_pc s i \<noteq> AwPanic"
  using aw_reach_safe [OF assms] aw_lock_inv_unique
  by (auto simp: aw_cell_inv_def) (metis aw_cell_ok.simps(5))

definition aw_demo_overlap :: "aw_event list" where
  "aw_demo_overlap = [Poll 0 7, Run 0, Signal 1, Run 1, Run 1, Run 0, Run 0]"

text \<open>A \<open>wake\<close> that runs into a \<open>register\<close>: the registering thread is left to wake the task itself.\<close>

lemma aw_mutual_exclusion_witness:
  "\<exists>s. aw_play {0} aw_demo_overlap aw_new = Some s \<and> aw_pc s 0 = RegTake 7 \<and> aw_pc s 1 = Idle \<and>
     ((aw_in_cs (aw_pc s 0) \<and> aw_in_cs (aw_pc s 1) \<longrightarrow> (0::nat) = 1) \<and> aw_pc s 0 \<noteq> AwPanic)"
proof -
  obtain s where s: "aw_play {0} aw_demo_overlap aw_new = Some s" "aw_pc s 0 = RegTake 7" "aw_pc s 1 = Idle"
    by (simp add: aw_demo_overlap_def aw_new_def aw_exec_def aw_goto_def Let_def WAITING_def
        REGISTERING_def WAKING_def)
  from aw_mutual_exclusion [OF aw_play_reach [OF s(1) aw_reach_new], of 0 1] s show ?thesis by blast
qed

text \<open>
  C1. No lost wake-up: one task polls (registering a waker of its choice before it looks at the
  flag), any number of threads set the flag and call \<open>wake\<close>. Whenever the task's last poll has
  returned \<open>Pending\<close> and the flag is set, the waker of that poll has been woken since the poll
  began, or a thread is inside \<open>wake\<close> at a point from which it is going to wake it.
\<close>

theorem aw_no_lost_wake:
  assumes "aw_reach {p} s" and "aw_pc s p = Parked w" and "aw_flag s"
  shows "aw_woken s w
    \<or> (\<exists>j. aw_pc s j = WakeOr \<or> aw_pc s j = WakeTake \<or> aw_pc s j = WakeSwap (Some w)
          \<or> aw_pc s j = WakeWake (Some w))"
  using aw_reach_inv [OF assms(1)] assms(2,3)
  by (auto simp: aw_inv_def aw_poll_inv_def aw_wake_coming_def)

definition aw_demo_race :: "aw_event list" where
  "aw_demo_race = [Poll 0 7, Run 0, Signal 1, Run 0, Run 0, Run 0, Run 1, Run 1, Run 1, Run 1, Run 1]"

text \<open>The flag is set right after the task has looked at it; the wake-up arrives.\<close>

lemma aw_no_lost_wake_witness:
  "\<exists>s. aw_play {0} aw_demo_race aw_new = Some s \<and> aw_pc s 0 = Parked 7 \<and> aw_flag s \<and>
     (aw_woken s 7 \<or> (\<exists>j. aw_pc s j = WakeOr \<or> aw_pc s j = WakeTake \<or> aw_pc s j = WakeSwap (Some 7)
          \<or> aw_pc s j = WakeWake (Some 7)))"
proof -
  obtain s where s: "aw_play {0} aw_demo_race aw_new = Some s" "aw_pc s 0 = Parked 7" "aw_flag s"
    by (simp add: aw_demo_race_def aw_new_def aw_exec_def aw_goto_def aw_wake_def Let_def WAITING_def
        REGISTERING_def WAKING_def)
  from aw_no_lost_wake [OF aw_play_reach [OF s(1) aw_reach_new] s(2,3)] s show ?thesis by blast
qed

text \<open>
  C28. \<open>register\<close> and \<open>wake\<close> are wait-free: in every reachable state each action of a thread that is
  inside a call brings it strictly closer to the end of the call, by a count of at most seven that
  no other thread's action changes. Neither call can spin or block.
\<close>

theorem aw_wait_free:
  assumes "aw_reach P s" and "aw_rank (aw_pc s i) \<noteq> 0"
  shows "aw_rank (aw_pc (aw_exec i s) i) < aw_rank (aw_pc s i) \<and> aw_rank (aw_pc s i) \<le> 7
    \<and> (\<forall>j. j \<noteq> i \<longrightarrow> aw_pc (aw_exec j s) i = aw_pc s i)"
proof -
  have "aw_reach P (aw_exec i s)" using assms(1) by (rule reach_step) (rule aw_run)
  then have "aw_pc (aw_exec i s) i \<noteq> AwPanic"
    using aw_reach_safe by (auto simp: aw_cell_inv_def) (metis aw_cell_ok.simps(5))
  moreover have "aw_rank l \<le> 7" for l by (cases l) auto
  ultimately show ?thesis using aw_exec_rank assms(2) aw_exec_other by auto
qed

lemma aw_wait_free_witness:
  "\<exists>s. aw_play {0} aw_demo_overlap aw_new = Some s \<and> aw_rank (aw_pc s 0) = 4 \<and>
     aw_rank (aw_pc (aw_exec 0 s) 0) < aw_rank (aw_pc s 0)"
proof -
  obtain s where s: "aw_play {0} aw_demo_overlap aw_new = Some s" "aw_pc s 0 = RegTake 7"
    by (simp add: aw_demo_overlap_def aw_new_def aw_exec_def aw_goto_def Let_def WAITING_def
        REGISTERING_def WAKING_def)
  then have "aw_rank (aw_pc s 0) \<noteq> 0" by simp
  from aw_wait_free [OF aw_play_reach [OF s(1) aw_reach_new] this] s show ?thesis by auto
qed

end
