(* ===== verification/Mpsc_Bounded.thy ===== *)
theory Mpsc_Bounded
  imports Mpsc_State Mpsc_Queue Atomic_Waker
begin

text \<open>
  The bounded channel of \<open>futures-channel/src/mpsc/mod.rs\<close> (\<open>BoundedSenderInner\<close>, \<open>Sender\<close>,
  \<open>Receiver\<close>, \<open>BoundedInner\<close>, \<open>SenderTask\<close>) as a transition system: any number of senders and the
  receiver run concurrently, and every atomic operation, queue operation and critical section is a
  step of its own. The message queue and the parked queue are the queue of \<open>Mpsc_Queue\<close>, pushed and
  popped in one step each (\<open>q_push\<close>, \<open>q_pop_spin\<close>: pops come from the one receiver, and by
  \<open>mq_fifo\<close> and \<open>mq_pop_results\<close> an overlapping push takes effect when it swaps \<open>head\<close>).
  \<open>recv_task\<close> is an \<open>AtomicWaker\<close>, whose \<open>register\<close> and \<open>wake\<close> are one step here; that they behave
  like that is the subject of \<open>Atomic_Waker\<close>.

  Senders have numbers; the \<open>SenderTask\<close> a sender shares with the parked queue has the sender's
  number. Ghosts: the messages pushed and the messages popped, the results of the last calls, the
  waker of a \<open>poll_next\<close> that returned \<open>Pending\<close> (\<open>bc_rwait\<close>), for every registered waker whether it has
  been woken since it was registered, and whether \<open>close\<close> has emptied the parked queue.
\<close>

section \<open>State\<close>

record SenderTask =
  stk_task :: "waker option"
  stk_is_parked :: bool

datatype 'a send_pc =
  SAbsent | SIdle | SGone | SPanic | SCrash
| STry 'a | SAssert 'a | SLoad 'a | SCas usize 'a | SPark 'a | SParkPush 'a | SParkLoad 'a | SPush 'a | SWake
| SReady waker | SUnpark waker
| SClone | SCloneCas usize
| SDrop | SCloseLoad bool | SCloseAnd bool | SCloseWake bool

datatype 'a send_result =
  SendOk | SendErr SendErrorKind 'a | ReadyOk | ReadyErr SendErrorKind | ReadyPending waker | CloneOk nat | ClonePanic

text \<open>From where the receiver called \<open>next_message\<close>.\<close>

datatype recv_ctx = CTry | CPoll1 waker | CPoll2 waker | CDrop

datatype 'a recv_pc =
  RIdle | RGone
| RPop recv_ctx | RUnpark recv_ctx 'a | RNotify recv_ctx 'a nat | RDec recv_ctx 'a | RLoad recv_ctx | RReg waker
| RCloseLoad bool | RCloseAnd bool | RDrain bool | RDrainNotify bool nat | RDropLoad

record 'a bc =
  bc_buffer :: usize
  bc_state :: usize
  bc_queue :: "'a mq"
  bc_parked :: "nat mq"
  bc_num_senders :: usize
  bc_recv_task :: "waker option"
  bc_task :: "nat \<Rightarrow> SenderTask"
  bc_maybe_parked :: "nat \<Rightarrow> bool"
  bc_send :: "nat \<Rightarrow> 'a send_pc"
  bc_recv :: "'a recv_pc"
  bc_inner :: bool
  bc_sret :: "nat \<Rightarrow> 'a send_result option"
  bc_rret :: "'a option poll option"
  bc_rwait :: "waker option"
  bc_swoken :: "nat \<Rightarrow> bool"
  bc_rwoken :: bool
  bc_sent :: "'a list"
  bc_got :: "'a list"
  bc_drained :: bool

definition SenderTask_new :: SenderTask where
  "SenderTask_new = \<lparr>stk_task = None, stk_is_parked = False\<rparr>"

text \<open>\<open>channel\<close>: what it builds (sender 0 and the receiver), and the call with its assertion.\<close>

definition bc_new :: "usize \<Rightarrow> 'a bc" where
  "bc_new buffer = \<lparr>bc_buffer = buffer, bc_state = INIT_STATE, bc_queue = mq_new, bc_parked = mq_new,
     bc_num_senders = 1, bc_recv_task = None, bc_task = (\<lambda>_. SenderTask_new), bc_maybe_parked = (\<lambda>_. False),
     bc_send = (\<lambda>_. SAbsent)(0 := SIdle), bc_recv = RIdle, bc_inner = True,
     bc_sret = (\<lambda>_. None), bc_rret = None, bc_rwait = None, bc_swoken = (\<lambda>_. False), bc_rwoken = False,
     bc_sent = [], bc_got = [], bc_drained = False\<rparr>"

definition bc_channel :: "usize \<Rightarrow> 'a bc comp" where
  "bc_channel buffer = assertc (buffer < MAX_BUFFER) ''requested buffer size too large'' (ret (bc_new buffer))"

definition bc_max_senders :: "'a bc \<Rightarrow> usize" where
  "bc_max_senders s = MAX_CAPACITY - bc_buffer s"

definition bc_goto :: "nat \<Rightarrow> 'a send_pc \<Rightarrow> 'a bc \<Rightarrow> 'a bc" where
  "bc_goto i l s = s\<lparr>bc_send := (bc_send s)(i := l)\<rparr>"

definition bc_return :: "nat \<Rightarrow> 'a send_result \<Rightarrow> 'a bc \<Rightarrow> 'a bc" where
  "bc_return i r s = s\<lparr>bc_send := (bc_send s)(i := SIdle), bc_sret := (bc_sret s)(i := Some r)\<rparr>"

text \<open>\<open>recv_task.wake()\<close>.\<close>

definition bc_wake_recv :: "'a bc \<Rightarrow> 'a bc" where
  "bc_wake_recv s = (case bc_recv_task s of Some w \<Rightarrow> s\<lparr>bc_recv_task := None, bc_rwoken := True\<rparr> | None \<Rightarrow> s)"

text \<open>\<open>SenderTask::notify\<close>, on the task with number \<open>i\<close>.\<close>

definition bc_notify :: "nat \<Rightarrow> 'a bc \<Rightarrow> 'a bc" where
  "bc_notify i s =
     s\<lparr>bc_task := (bc_task s)(i := \<lparr>stk_task = None, stk_is_parked = False\<rparr>),
       bc_swoken := (bc_swoken s)(i := (bc_swoken s i \<or> stk_task (bc_task s i) \<noteq> None))\<rparr>"

text \<open>\<open>poll_unparked\<close>; \<open>cx\<close> is the waker of the context, if there is one.\<close>

definition bc_poll_unparked :: "nat \<Rightarrow> waker option \<Rightarrow> 'a bc \<Rightarrow> unit poll \<times> 'a bc" where
  "bc_poll_unparked i cx s =
     (if bc_maybe_parked s i then
        if \<not> stk_is_parked (bc_task s i) then (Ready (), s\<lparr>bc_maybe_parked := (bc_maybe_parked s)(i := False)\<rparr>)
        else (Pending, s\<lparr>bc_task := (bc_task s)(i := (bc_task s i)\<lparr>stk_task := cx\<rparr>),
                         bc_swoken := (bc_swoken s)(i := False)\<rparr>)
      else (Ready (), s))"

section \<open>Steps of the senders\<close>

text \<open>One compare-exchange of the loop of \<open>inc_num_messages\<close>, and what \<open>do_send_b\<close> does with its result.\<close>

definition bc_inc_num_messages :: "nat \<Rightarrow> usize \<Rightarrow> 'a \<Rightarrow> 'a bc \<Rightarrow> 'a bc" where
  "bc_inc_num_messages i cur msg s =
     (let state = decode_state cur in
      if \<not> is_open state then bc_return i (SendErr Disconnected msg) s
      else if \<not> num_messages state < MAX_CAPACITY then bc_goto i SPanic s
      else
        let state = state\<lparr>num_messages := num_messages state + 1\<rparr> in
        if bc_state s = cur then
          bc_goto i (if bc_buffer s < num_messages state then SPark msg else SPush msg)
            (s\<lparr>bc_state := encode_state state\<rparr>)
        else bc_goto i (SCas (bc_state s) msg) s)"

text \<open>The three steps of \<open>park\<close>.\<close>

definition bc_park_lock :: "nat \<Rightarrow> 'a \<Rightarrow> 'a bc \<Rightarrow> 'a bc" where
  "bc_park_lock i msg s =
     bc_goto i (SParkPush msg) (s\<lparr>bc_task := (bc_task s)(i := \<lparr>stk_task = None, stk_is_parked = True\<rparr>)\<rparr>)"

definition bc_park_push :: "nat \<Rightarrow> 'a \<Rightarrow> 'a bc \<Rightarrow> 'a bc" where
  "bc_park_push i msg s = bc_goto i (SParkLoad msg) (s\<lparr>bc_parked := q_push i (bc_parked s)\<rparr>)"

definition bc_park_load :: "nat \<Rightarrow> 'a \<Rightarrow> 'a bc \<Rightarrow> 'a bc" where
  "bc_park_load i msg s =
     bc_goto i (SPush msg) (s\<lparr>bc_maybe_parked := (bc_maybe_parked s)(i := is_open (decode_state (bc_state s)))\<rparr>)"

text \<open>\<open>queue_push_and_signal\<close>, first half.\<close>

definition bc_queue_push :: "nat \<Rightarrow> 'a \<Rightarrow> 'a bc \<Rightarrow> 'a bc" where
  "bc_queue_push i msg s = bc_goto i SWake (s\<lparr>bc_queue := q_push msg (bc_queue s), bc_sent := bc_sent s @ [msg]\<rparr>)"

text \<open>\<open>try_send\<close> and \<open>do_send_b\<close> up to \<open>inc_num_messages\<close>.\<close>

definition bc_try_send :: "nat \<Rightarrow> 'a \<Rightarrow> 'a bc \<Rightarrow> 'a bc" where
  "bc_try_send i msg s =
     (case bc_poll_unparked i None s of
        (Pending, s) \<Rightarrow> bc_return i (SendErr Full msg) s
      | (Ready _, s) \<Rightarrow> bc_goto i (SAssert msg) s)"

definition bc_do_send_assert :: "nat \<Rightarrow> 'a \<Rightarrow> 'a bc \<Rightarrow> 'a bc" where
  "bc_do_send_assert i msg s =
     (case bc_poll_unparked i None s of
        (Pending, s) \<Rightarrow> bc_goto i SCrash s
      | (Ready _, s) \<Rightarrow> bc_goto i (SLoad msg) s)"

text \<open>\<open>poll_ready\<close>.\<close>

definition bc_poll_ready :: "nat \<Rightarrow> waker \<Rightarrow> 'a bc \<Rightarrow> 'a bc" where
  "bc_poll_ready i w s =
     (if \<not> is_open (decode_state (bc_state s)) then bc_return i (ReadyErr Disconnected) s
      else bc_goto i (SUnpark w) s)"

definition bc_poll_ready_unparked :: "nat \<Rightarrow> waker \<Rightarrow> 'a bc \<Rightarrow> 'a bc" where
  "bc_poll_ready_unparked i w s =
     (case bc_poll_unparked i (Some w) s of
        (Pending, s) \<Rightarrow> bc_return i (ReadyPending w) s
      | (Ready _, s) \<Rightarrow> bc_return i ReadyOk s)"

text \<open>\<open>clone\<close>: one compare-exchange of the loop; \<open>j\<close> is the number of the new sender.\<close>

definition bc_clone_cas :: "nat \<Rightarrow> usize \<Rightarrow> nat \<Rightarrow> 'a bc \<Rightarrow> 'a bc" where
  "bc_clone_cas i cur j s =
     (if cur = bc_max_senders s then bc_return i ClonePanic s
      else if \<not> cur < bc_max_senders s then bc_goto i SCrash s
      else if bc_num_senders s = cur then
        bc_goto j SIdle (bc_return i (CloneOk j)
          (s\<lparr>bc_num_senders := cur + 1, bc_task := (bc_task s)(j := SenderTask_new),
             bc_maybe_parked := (bc_maybe_parked s)(j := False)\<rparr>))
      else bc_goto i (SCloneCas (bc_num_senders s)) s)"

text \<open>\<open>drop\<close> and \<open>close_channel\<close> with \<open>set_closed\<close>; the flag says that the sender is being dropped.\<close>

definition bc_drop :: "nat \<Rightarrow> 'a bc \<Rightarrow> 'a bc" where
  "bc_drop i s =
     (let prev = bc_num_senders s in
      bc_goto i (if prev = 1 then SCloseLoad True else SGone) (s\<lparr>bc_num_senders := prev - 1\<rparr>))"

definition bc_close_load :: "nat \<Rightarrow> bool \<Rightarrow> 'a bc \<Rightarrow> 'a bc" where
  "bc_close_load i g s =
     bc_goto i (if \<not> is_open (decode_state (bc_state s)) then SCloseWake g else SCloseAnd g) s"

definition bc_close_and :: "nat \<Rightarrow> bool \<Rightarrow> 'a bc \<Rightarrow> 'a bc" where
  "bc_close_and i g s = bc_goto i (SCloseWake g) (s\<lparr>bc_state := bc_state s AND NOT OPEN_MASK\<rparr>)"

definition bc_close_wake :: "nat \<Rightarrow> bool \<Rightarrow> 'a bc \<Rightarrow> 'a bc" where
  "bc_close_wake i g s = bc_goto i (if g then SGone else SIdle) (bc_wake_recv s)"

definition bc_send_exec :: "nat \<Rightarrow> 'a bc \<Rightarrow> 'a bc" where
  "bc_send_exec i s =
     (case bc_send s i of
        STry msg \<Rightarrow> bc_try_send i msg s
      | SAssert msg \<Rightarrow> bc_do_send_assert i msg s
      | SLoad msg \<Rightarrow> bc_goto i (SCas (bc_state s) msg) s
      | SCas cur msg \<Rightarrow> bc_inc_num_messages i cur msg s
      | SPark msg \<Rightarrow> bc_park_lock i msg s
      | SParkPush msg \<Rightarrow> bc_park_push i msg s
      | SParkLoad msg \<Rightarrow> bc_park_load i msg s
      | SPush msg \<Rightarrow> bc_queue_push i msg s
      | SWake \<Rightarrow> bc_return i SendOk (bc_wake_recv s)
      | SReady w \<Rightarrow> bc_poll_ready i w s
      | SUnpark w \<Rightarrow> bc_poll_ready_unparked i w s
      | SClone \<Rightarrow> bc_goto i (SCloneCas (bc_num_senders s)) s
      | SDrop \<Rightarrow> bc_drop i s
      | SCloseLoad g \<Rightarrow> bc_close_load i g s
      | SCloseAnd g \<Rightarrow> bc_close_and i g s
      | SCloseWake g \<Rightarrow> bc_close_wake i g s
      | _ \<Rightarrow> s)"

section \<open>Steps of the receiver\<close>

definition bc_rgoto :: "'a recv_pc \<Rightarrow> 'a bc \<Rightarrow> 'a bc" where
  "bc_rgoto l s = s\<lparr>bc_recv := l\<rparr>"

definition bc_rreturn :: "'a option poll \<Rightarrow> 'a bc \<Rightarrow> 'a bc" where
  "bc_rreturn r s = s\<lparr>bc_recv := RIdle, bc_rret := Some r\<rparr>"

text \<open>
  What the caller of \<open>next_message\<close> does with its result: \<open>try_recv\<close> and the second call of
  \<open>poll_next\<close> return it, the first call of \<open>poll_next\<close> goes on to register its waker on \<open>Pending\<close>,
  the loop of \<open>drop\<close> goes round, and on \<open>Pending\<close> looks at the state once more.
\<close>

definition bc_next_done :: "recv_ctx \<Rightarrow> 'a option poll \<Rightarrow> 'a bc \<Rightarrow> 'a bc" where
  "bc_next_done ctx r s =
     (case ctx of
        CTry \<Rightarrow> bc_rreturn r s
      | CPoll1 w \<Rightarrow> (case r of Pending \<Rightarrow> bc_rgoto (RReg w) s | _ \<Rightarrow> bc_rreturn r s)
      | CPoll2 w \<Rightarrow> bc_rreturn r (s\<lparr>bc_rwait := (case r of Pending \<Rightarrow> Some w | _ \<Rightarrow> None)\<rparr>)
      | CDrop \<Rightarrow>
          (case r of
             Ready (Some _) \<Rightarrow> bc_rgoto (RPop CDrop) s
           | Ready None \<Rightarrow> bc_rgoto RGone s
           | Pending \<Rightarrow> bc_rgoto RDropLoad s))"

text \<open>\<open>next_message\<close>, \<open>unpark_one\<close> and \<open>dec_num_messages\<close>.\<close>

definition bc_next_message :: "recv_ctx \<Rightarrow> 'a bc \<Rightarrow> 'a bc" where
  "bc_next_message ctx s =
     (if \<not> bc_inner s then bc_next_done ctx (Ready None) s
      else case q_pop_spin (bc_queue s) of
        (Some msg, q) \<Rightarrow> bc_rgoto (RUnpark ctx msg) (s\<lparr>bc_queue := q, bc_got := bc_got s @ [msg]\<rparr>)
      | (None, q) \<Rightarrow> bc_rgoto (RLoad ctx) (s\<lparr>bc_queue := q\<rparr>))"

definition bc_unpark_one :: "recv_ctx \<Rightarrow> 'a \<Rightarrow> 'a bc \<Rightarrow> 'a bc" where
  "bc_unpark_one ctx msg s =
     (case q_pop_spin (bc_parked s) of
        (Some task, q) \<Rightarrow> bc_rgoto (RNotify ctx msg task) (s\<lparr>bc_parked := q\<rparr>)
      | (None, q) \<Rightarrow> bc_rgoto (RDec ctx msg) (s\<lparr>bc_parked := q\<rparr>))"

definition bc_dec_num_messages :: "recv_ctx \<Rightarrow> 'a \<Rightarrow> 'a bc \<Rightarrow> 'a bc" where
  "bc_dec_num_messages ctx msg s = bc_next_done ctx (Ready (Some msg)) (s\<lparr>bc_state := bc_state s - 1\<rparr>)"

definition bc_next_load :: "recv_ctx \<Rightarrow> 'a bc \<Rightarrow> 'a bc" where
  "bc_next_load ctx s =
     (if state_is_closed (decode_state (bc_state s)) then bc_next_done ctx (Ready None) (s\<lparr>bc_inner := False\<rparr>)
      else bc_next_done ctx Pending s)"

text \<open>\<open>close\<close> with the loop over the parked queue; the flag says that \<open>drop\<close> called it.\<close>

definition bc_recv_close_load :: "bool \<Rightarrow> 'a bc \<Rightarrow> 'a bc" where
  "bc_recv_close_load g s =
     (if \<not> bc_inner s then bc_rgoto (if g then RGone else RIdle) s
      else bc_rgoto (if \<not> is_open (decode_state (bc_state s)) then RDrain g else RCloseAnd g) s)"

definition bc_recv_close_and :: "bool \<Rightarrow> 'a bc \<Rightarrow> 'a bc" where
  "bc_recv_close_and g s = bc_rgoto (RDrain g) (s\<lparr>bc_state := bc_state s AND NOT OPEN_MASK\<rparr>)"

definition bc_drain :: "bool \<Rightarrow> 'a bc \<Rightarrow> 'a bc" where
  "bc_drain g s =
     (case q_pop_spin (bc_parked s) of
        (Some task, q) \<Rightarrow> bc_rgoto (RDrainNotify g task) (s\<lparr>bc_parked := q\<rparr>)
      | (None, q) \<Rightarrow> bc_rgoto (if g then RPop CDrop else RIdle) (s\<lparr>bc_parked := q, bc_drained := True\<rparr>))"

definition bc_drop_load :: "'a bc \<Rightarrow> 'a bc" where
  "bc_drop_load s = bc_rgoto (if state_is_closed (decode_state (bc_state s)) then RGone else RPop CDrop) s"

definition bc_recv_exec :: "'a bc \<Rightarrow> 'a bc" where
  "bc_recv_exec s =
     (case bc_recv s of
        RPop ctx \<Rightarrow> bc_next_message ctx s
      | RUnpark ctx msg \<Rightarrow> bc_unpark_one ctx msg s
      | RNotify ctx msg i \<Rightarrow> bc_rgoto (RDec ctx msg) (bc_notify i s)
      | RDec ctx msg \<Rightarrow> bc_dec_num_messages ctx msg s
      | RLoad ctx \<Rightarrow> bc_next_load ctx s
      | RReg w \<Rightarrow> bc_rgoto (RPop (CPoll2 w)) (s\<lparr>bc_recv_task := Some w, bc_rwoken := False\<rparr>)
      | RCloseLoad g \<Rightarrow> bc_recv_close_load g s
      | RCloseAnd g \<Rightarrow> bc_recv_close_and g s
      | RDrain g \<Rightarrow> bc_drain g s
      | RDrainNotify g i \<Rightarrow> bc_rgoto (RDrain g) (bc_notify i s)
      | RDropLoad \<Rightarrow> bc_drop_load s
      | _ \<Rightarrow> s)"

section \<open>The transition system\<close>

text \<open>The calls a sender and the receiver can begin when they are in no other call.\<close>

definition bc_send_call :: "'a send_pc \<Rightarrow> bool" where
  "bc_send_call l =
     (case l of STry _ \<Rightarrow> True | SReady _ \<Rightarrow> True | SClone \<Rightarrow> True | SDrop \<Rightarrow> True | SCloseLoad g \<Rightarrow> \<not> g | _ \<Rightarrow> False)"

definition bc_recv_call :: "'a recv_pc \<Rightarrow> bool" where
  "bc_recv_call l = (case l of RPop CTry \<Rightarrow> True | RPop (CPoll1 _) \<Rightarrow> True | RCloseLoad _ \<Rightarrow> True | _ \<Rightarrow> False)"

inductive bc_step :: "'a bc \<Rightarrow> 'a bc \<Rightarrow> bool" where
  bc_begin: "bc_send s i = SIdle \<Longrightarrow> bc_send_call l \<Longrightarrow> bc_step s (bc_goto i l (s\<lparr>bc_sret := (bc_sret s)(i := None)\<rparr>))"
| bc_run: "bc_step s (bc_send_exec i s)"
| bc_clone: "bc_send s i = SCloneCas cur \<Longrightarrow> bc_send s j = SAbsent \<Longrightarrow> bc_step s (bc_clone_cas i cur j s)"
| bc_rbegin: "bc_recv s = RIdle \<Longrightarrow> bc_recv_call l \<Longrightarrow> bc_step s (bc_rgoto l (s\<lparr>bc_rret := None, bc_rwait := None\<rparr>))"
| bc_rrun: "bc_step s (bc_recv_exec s)"

abbreviation bc_reach :: "usize \<Rightarrow> 'a bc \<Rightarrow> bool" where
  "bc_reach buffer \<equiv> reach (\<lambda>s. bc_channel buffer = ret s) bc_step"

section \<open>Counting threads by program counter\<close>

definition pcs :: "('l \<Rightarrow> bool) \<Rightarrow> (nat \<Rightarrow> 'l) \<Rightarrow> nat set" where
  "pcs P f = {i. P (f i)}"

lemma pcs_mem [simp]: "i \<in> pcs P f \<longleftrightarrow> P (f i)"
  by (simp add: pcs_def)

lemma pcs_upd: "pcs P (f(j := l)) = (if P l then insert j (pcs P f) else pcs P f - {j})"
  by (auto simp: pcs_def)

lemma pcs_finite_upd [simp]: "finite (pcs P (f(j := l))) \<longleftrightarrow> finite (pcs P f)"
  by (simp add: pcs_upd)

lemma pcs_card [simp]:
  assumes "finite (pcs P f)"
  shows "card (pcs P (f(j := l))) = card (pcs P f) + of_bool (P l) - of_bool (P (f j))"
  using assms by (auto simp: pcs_upd card_insert_if card_Diff_singleton_if)

lemma pcs_pos: "finite (pcs P f) \<Longrightarrow> P (f j) \<Longrightarrow> 0 < card (pcs P f)"
  by (auto simp: card_gt_0_iff pcs_def)

lemma pcs_sub: "finite (pcs Q f) \<Longrightarrow> (\<And>l. P l \<Longrightarrow> Q l) \<Longrightarrow> finite (pcs P f)"
  by (rule finite_subset [of _ "pcs Q f"]) (auto simp: pcs_def)

lemma pcs_card_mono: "finite (pcs Q f) \<Longrightarrow> (\<And>l. P l \<Longrightarrow> Q l) \<Longrightarrow> card (pcs P f) \<le> card (pcs Q f)"
  by (rule card_mono) (auto simp: pcs_def)

fun bc_present :: "'a send_pc \<Rightarrow> bool" where
  "bc_present SAbsent = False"
| "bc_present _ = True"

text \<open>Between the increment of the message count and the push of the message.\<close>

fun bc_in_flight :: "'a send_pc \<Rightarrow> bool" where
  "bc_in_flight (SPark _) = True"
| "bc_in_flight (SParkPush _) = True"
| "bc_in_flight (SParkLoad _) = True"
| "bc_in_flight (SPush _) = True"
| "bc_in_flight _ = False"

text \<open>About to put its task into the parked queue.\<close>

fun bc_parking :: "'a send_pc \<Rightarrow> bool" where
  "bc_parking (SPark _) = True"
| "bc_parking (SParkPush _) = True"
| "bc_parking _ = False"

text \<open>Counted in \<open>num_senders\<close>.\<close>

fun bc_counted :: "'a send_pc \<Rightarrow> bool" where
  "bc_counted SAbsent = False"
| "bc_counted SGone = False"
| "bc_counted (SCloseLoad g) = (\<not> g)"
| "bc_counted (SCloseAnd g) = (\<not> g)"
| "bc_counted (SCloseWake g) = (\<not> g)"
| "bc_counted _ = True"

text \<open>Past the check of \<open>maybe_parked\<close> and not parked again.\<close>

fun bc_unparked :: "'a send_pc \<Rightarrow> bool" where
  "bc_unparked (SAssert _) = True"
| "bc_unparked (SLoad _) = True"
| "bc_unparked (SCas _ _) = True"
| "bc_unparked (SPark _) = True"
| "bc_unparked (SParkPush _) = True"
| "bc_unparked (SParkLoad _) = True"
| "bc_unparked _ = False"

text \<open>The receiver has popped a message and not yet decremented the count.\<close>

fun bc_taken :: "'a recv_pc \<Rightarrow> nat" where
  "bc_taken (RUnpark _ _) = 1"
| "bc_taken (RNotify _ _ _) = 1"
| "bc_taken (RDec _ _) = 1"
| "bc_taken _ = 0"

lemmas bc_defs = bc_goto_def bc_return_def bc_wake_recv_def bc_notify_def bc_poll_unparked_def
  bc_inc_num_messages_def bc_park_lock_def bc_park_push_def bc_park_load_def bc_queue_push_def
  bc_try_send_def bc_do_send_assert_def bc_poll_ready_def bc_poll_ready_unparked_def bc_drop_def
  bc_close_load_def bc_close_and_def bc_close_wake_def

lemmas bc_rdefs = bc_rgoto_def bc_rreturn_def bc_next_done_def bc_next_message_def bc_unpark_one_def
  bc_dec_num_messages_def bc_next_load_def bc_recv_close_load_def bc_recv_close_and_def bc_drain_def
  bc_drop_load_def bc_notify_def

lemma st_inc:
  assumes "num_messages (decode_state w) < MAX_CAPACITY" and "is_open (decode_state w)"
  defines "n \<equiv> num_messages (decode_state w) + 1"
  shows "unat n = Suc (st_num w)"
    and "st_open (encode_state (decode_state w\<lparr>num_messages := n\<rparr>))"
    and "st_num (encode_state (decode_state w\<lparr>num_messages := n\<rparr>)) = Suc (st_num w)"
proof -
  have lt: "st_num w < 2 ^ 63 - 1"
    using assms(1) by (simp add: st_num_def word_less_nat_alt unat_MAX_CAPACITY)
  then show n: "unat n = Suc (st_num w)" unfolding n_def st_num_def
    by (subst unat_add_usize) auto
  have "unat (num_messages (decode_state w\<lparr>num_messages := n\<rparr>)) < 2 ^ 63" using n lt by simp
  from encode_state_st [OF this] n assms(2)
  show "st_open (encode_state (decode_state w\<lparr>num_messages := n\<rparr>))"
    and "st_num (encode_state (decode_state w\<lparr>num_messages := n\<rparr>)) = Suc (st_num w)" by simp_all
qed

section \<open>Queues, messages and counts\<close>

definition bc_inv_queue :: "'a bc \<Rightarrow> bool" where
  "bc_inv_queue s \<longleftrightarrow> q_invar (bc_queue s) \<and> q_invar (bc_parked s)
     \<and> bc_sent s = bc_got s @ q_contents (bc_queue s) \<and> finite (pcs bc_present (bc_send s))"

lemma q_pop_None:
  "q_invar q \<Longrightarrow> q_pop_spin q = (None, q') \<Longrightarrow> q_contents q = [] \<and> q_contents q' = [] \<and> q_invar q'"
  by (rule mpsc_q.pop_None)

lemma q_pop_Some:
  "q_invar q \<Longrightarrow> q_pop_spin q = (Some x, q') \<Longrightarrow> q_contents q = x # q_contents q' \<and> q_invar q'"
  by (rule mpsc_q.pop_Some)

lemmas q_laws = mpsc_q.invar_push mpsc_q.contents_push mpsc_q.invar_new mpsc_q.contents_new

lemma bc_inv_queue_send: "bc_inv_queue s \<Longrightarrow> bc_inv_queue (bc_send_exec i s)"
  by (cases "bc_send s i") (auto simp: bc_inv_queue_def bc_send_exec_def bc_defs Let_def q_laws split: option.splits)

lemma bc_inv_queue_recv: "bc_inv_queue s \<Longrightarrow> bc_inv_queue (bc_recv_exec s)"
  by (cases "bc_recv s")
    (auto simp: bc_inv_queue_def bc_recv_exec_def bc_rdefs split: option.splits prod.splits recv_ctx.splits poll.splits
      dest: q_pop_None q_pop_Some)

lemma bc_channel_ret: "bc_channel b = ret s \<longleftrightarrow> b < MAX_BUFFER \<and> s = bc_new b"
  by (auto simp: bc_channel_def)

lemma bc_inv_queue_reach: "bc_reach b s \<Longrightarrow> bc_inv_queue s"
proof (erule reach_invariant)
  fix s :: "'a bc" assume "bc_channel b = ret s"
  then have "s = bc_new b" by (simp add: bc_channel_ret)
  moreover have "pcs bc_present (\<lambda>_. SAbsent :: 'a send_pc) = {}" by (auto simp: pcs_def)
  ultimately show "bc_inv_queue s"
    unfolding bc_inv_queue_def bc_new_def by (simp add: q_laws del: fun_upd_apply)
next
  fix s t :: "'a bc" assume s: "bc_inv_queue s" and "bc_step s t"
  from this(2) show "bc_inv_queue t"
  proof cases
    case bc_run with s show ?thesis by (simp add: bc_inv_queue_send)
  next
    case bc_rrun with s show ?thesis by (simp add: bc_inv_queue_recv)
  qed (use s in \<open>auto simp: bc_inv_queue_def bc_defs bc_rdefs bc_clone_cas_def\<close>)
qed

lemma bc_finite:
  assumes "bc_inv_queue s"
  shows "finite (pcs bc_in_flight (bc_send s))" "finite (pcs bc_parking (bc_send s))" "finite (pcs bc_counted (bc_send s))"
proof -
  have f: "finite (pcs bc_present (bc_send s))" using assms by (simp add: bc_inv_queue_def)
  show "finite (pcs bc_in_flight (bc_send s))" by (rule pcs_sub [OF f]) (auto elim: bc_in_flight.elims)
  show "finite (pcs bc_parking (bc_send s))" by (rule pcs_sub [OF f]) (auto elim: bc_parking.elims)
  show "finite (pcs bc_counted (bc_send s))" by (rule pcs_sub [OF f]) (auto elim: bc_counted.elims)
qed

text \<open>
  The number in the state word: the messages in the queue, those a sender is about to push and the
  one the receiver has popped and not yet subtracted.
\<close>

definition bc_inv_count :: "'a bc \<Rightarrow> bool" where
  "bc_inv_count s \<longleftrightarrow>
     st_num (bc_state s) = length (q_contents (bc_queue s)) + card (pcs bc_in_flight (bc_send s)) + bc_taken (bc_recv s)"

lemma bc_inv_count_send:
  assumes "bc_inv_queue s" and "bc_inv_count s"
  shows "bc_inv_count (bc_send_exec i s)"
proof -
  note F = bc_finite(1) [OF assms(1)]
  note pos = pcs_pos [OF F, of i]
  have qi: "q_invar (bc_queue s)" using assms(1) by (simp add: bc_inv_queue_def)
  show ?thesis
  proof (cases "bc_send s i")
    case (SCas cur msg)
    then show ?thesis using assms(2) F st_inc [of cur]
      by (auto simp: bc_inv_count_def bc_send_exec_def bc_defs Let_def)
  next
    case (SPush msg)
    then show ?thesis using assms(2) F pos qi
      by (auto simp: bc_inv_count_def bc_send_exec_def bc_defs q_laws)
  qed (use assms(2) F pos in \<open>auto simp: bc_inv_count_def bc_send_exec_def bc_defs Let_def st_close split: option.splits\<close>)
qed

lemma bc_inv_count_recv:
  assumes "bc_inv_queue s" and "bc_inv_count s"
  shows "bc_inv_count (bc_recv_exec s)"
proof -
  have qi: "q_invar (bc_queue s)" using assms(1) by (simp add: bc_inv_queue_def)
  show ?thesis
  proof (cases "bc_recv s")
    case (RPop ctx)
    show ?thesis
    proof (cases "q_pop_spin (bc_queue s)")
      case (Pair r q)
      then show ?thesis using RPop assms(2) q_pop_None [OF qi, of q] q_pop_Some [OF qi, of _ q]
        by (cases r) (auto simp: bc_inv_count_def bc_recv_exec_def bc_rdefs split: recv_ctx.splits)
    qed
  next
    case (RDec ctx msg)
    then have "0 < st_num (bc_state s)" using assms(2) by (simp add: bc_inv_count_def)
    from st_dec [OF this] RDec assms(2) show ?thesis
      by (auto simp: bc_inv_count_def bc_recv_exec_def bc_rdefs split: recv_ctx.splits)
  qed (use assms(2) in \<open>auto simp: bc_inv_count_def bc_recv_exec_def bc_rdefs st_close
      split: option.splits prod.splits recv_ctx.splits\<close>)
qed

lemma bc_begin_calls:
  assumes "bc_send_call l"
  shows "\<not> bc_in_flight l" "\<not> bc_parking l" "bc_counted l" "bc_present l" "\<not> bc_unparked l"
    "l \<noteq> SWake" "l \<noteq> SCrash" "l \<noteq> SPanic" "l \<noteq> SIdle" "l \<noteq> SAbsent" "l \<noteq> SCloseWake g" "l \<noteq> SCloneCas cur" "l \<noteq> SParkLoad m"
  using assms by (auto simp: bc_send_call_def split: send_pc.splits)

lemma bc_rbegin_calls:
  assumes "bc_recv_call l"
  shows "bc_taken l = 0"
  using assms by (auto simp: bc_recv_call_def split: recv_pc.splits)

lemma bc_inv_count_reach: "bc_reach b s \<Longrightarrow> bc_inv_count s"
proof (erule reach_invariant)
  fix s :: "'a bc" assume "bc_channel b = ret s"
  then have "s = bc_new b" by (simp add: bc_channel_ret)
  moreover have "pcs bc_in_flight (\<lambda>_. SAbsent :: 'a send_pc) = {}" by (auto simp: pcs_def)
  ultimately show "bc_inv_count s"
    unfolding bc_inv_count_def bc_new_def by (simp add: q_laws st_init del: fun_upd_apply)
next
  fix s t :: "'a bc" assume r: "bc_reach b s" and s: "bc_inv_count s" and "bc_step s t"
  note q = bc_inv_queue_reach [OF r]
  note F = bc_finite(1) [OF q]
  from \<open>bc_step s t\<close> show "bc_inv_count t"
  proof cases
    case (bc_begin i l)
    then show ?thesis using s F bc_begin_calls [of l] by (simp add: bc_inv_count_def bc_goto_def)
  next
    case bc_run with s q show ?thesis by (simp add: bc_inv_count_send)
  next
    case (bc_clone i cur j)
    then show ?thesis using s F by (auto simp: bc_inv_count_def bc_clone_cas_def bc_defs)
  next
    case (bc_rbegin l)
    then show ?thesis using s bc_rbegin_calls [of l] by (simp add: bc_inv_count_def bc_rgoto_def)
  next
    case bc_rrun with s q show ?thesis by (simp add: bc_inv_count_recv)
  qed
qed

section \<open>The number of senders\<close>

definition bc_inv_senders :: "'a bc \<Rightarrow> bool" where
  "bc_inv_senders s \<longleftrightarrow>
     bc_buffer s < MAX_BUFFER \<and> unat (bc_num_senders s) = card (pcs bc_counted (bc_send s))
     \<and> bc_num_senders s \<le> bc_max_senders s \<and> (\<forall>i cur. bc_send s i = SCloneCas cur \<longrightarrow> cur \<le> bc_max_senders s)"

lemma bc_inv_senders_send:
  assumes "bc_inv_queue s" and "bc_inv_senders s"
  shows "bc_inv_senders (bc_send_exec i s)"
proof -
  note F = bc_finite(3) [OF assms(1)]
  note pos = pcs_pos [OF F, of i]
  show ?thesis
  proof (cases "bc_send s i")
    case SDrop
    then have "bc_num_senders s \<noteq> 0" using pos assms(2) by (auto simp: bc_inv_senders_def)
    then have u: "unat (bc_num_senders s - 1) = unat (bc_num_senders s) - 1" "bc_num_senders s - 1 \<le> bc_num_senders s"
      by (auto simp: unat_pred_usize word_le_nat_alt)
    show ?thesis using assms(2) F u SDrop
      by (auto simp: bc_inv_senders_def bc_send_exec_def bc_defs Let_def bc_max_senders_def)
  qed (use assms(2) F pos in \<open>auto simp: bc_inv_senders_def bc_send_exec_def bc_defs Let_def bc_max_senders_def
      split: option.splits\<close>)
qed

lemma bc_recv_frame:
  "bc_send (bc_recv_exec s) = bc_send s" "bc_buffer (bc_recv_exec s) = bc_buffer s"
  "bc_num_senders (bc_recv_exec s) = bc_num_senders s" "bc_maybe_parked (bc_recv_exec s) = bc_maybe_parked s"
  "bc_sret (bc_recv_exec s) = bc_sret s" "bc_sent (bc_recv_exec s) = bc_sent s"
  by (cases "bc_recv s"; auto simp: bc_recv_exec_def bc_rdefs split: option.splits prod.splits recv_ctx.splits poll.splits)+

lemma bc_inv_senders_reach: "bc_reach b s \<Longrightarrow> bc_inv_senders s"
proof (erule reach_invariant)
  fix s :: "'a bc" assume "bc_channel b = ret s"
  then have "s = bc_new b" "b < MAX_BUFFER" by (simp_all add: bc_channel_ret)
  moreover have "pcs bc_counted (\<lambda>_. SAbsent :: 'a send_pc) = {}" by (auto simp: pcs_def)
  moreover have "1 \<le> MAX_CAPACITY - b"
  proof -
    have "unat b < 2 ^ 62 - 1" using \<open>b < MAX_BUFFER\<close> by (simp add: word_less_nat_alt unat_MAX_BUFFER)
    then have "unat (MAX_CAPACITY - b) = 2 ^ 63 - 1 - unat b"
      by (subst unat_sub) (auto simp: word_le_nat_alt unat_MAX_CAPACITY)
    with \<open>unat b < 2 ^ 62 - 1\<close> show ?thesis by (simp add: word_le_nat_alt)
  qed
  ultimately show "bc_inv_senders s"
    unfolding bc_inv_senders_def bc_new_def by (auto simp: bc_max_senders_def del: fun_upd_apply split: if_splits)
next
  fix s t :: "'a bc" assume r: "bc_reach b s" and s: "bc_inv_senders s" and "bc_step s t"
  note q = bc_inv_queue_reach [OF r]
  note F = bc_finite(3) [OF q]
  from \<open>bc_step s t\<close> show "bc_inv_senders t"
  proof cases
    case (bc_begin i l)
    then show ?thesis using s F bc_begin_calls [of l] by (auto simp: bc_inv_senders_def bc_goto_def bc_max_senders_def)
  next
    case bc_run with s q show ?thesis by (simp add: bc_inv_senders_send)
  next
    case (bc_clone i cur j)
    have "unat (bc_num_senders s + 1) = Suc (unat (bc_num_senders s)) \<and> bc_num_senders s + 1 \<le> bc_max_senders s"
      if "bc_num_senders s < bc_max_senders s"
      using that unat_usize_less [of "bc_max_senders s"]
      by (auto simp: word_less_nat_alt word_le_nat_alt unat_add_usize)
    with bc_clone show ?thesis using s F pcs_pos [OF F, of i]
      by (auto simp: bc_inv_senders_def bc_clone_cas_def bc_defs bc_max_senders_def)
  next
    case (bc_rbegin l)
    then show ?thesis using s by (simp add: bc_inv_senders_def bc_rgoto_def bc_max_senders_def)
  next
    case bc_rrun with s show ?thesis by (simp add: bc_inv_senders_def bc_recv_frame bc_max_senders_def)
  qed
qed

section \<open>Parked senders\<close>

text \<open>
  The tokens: the tasks in the parked queue, and the one the receiver has popped and is about to
  notify. A sender is blocked when \<open>maybe_parked\<close> and its task's \<open>is_parked\<close> are both set.
\<close>

fun bc_notifying :: "'a recv_pc \<Rightarrow> nat list" where
  "bc_notifying (RNotify _ _ i) = [i]"
| "bc_notifying (RDrainNotify _ i) = [i]"
| "bc_notifying _ = []"

definition bc_tokens :: "'a bc \<Rightarrow> nat list" where
  "bc_tokens s = bc_notifying (bc_recv s) @ q_contents (bc_parked s)"

definition bc_blocked :: "'a bc \<Rightarrow> nat \<Rightarrow> bool" where
  "bc_blocked s i \<longleftrightarrow> bc_maybe_parked s i \<and> stk_is_parked (bc_task s i)"

fun bc_draining :: "'a recv_pc \<Rightarrow> bool" where
  "bc_draining (RDrain _) = True"
| "bc_draining (RDrainNotify _ _) = True"
| "bc_draining _ = False"

fun bc_park_loading :: "'a send_pc \<Rightarrow> bool" where
  "bc_park_loading (SParkLoad _) = True"
| "bc_park_loading _ = False"

fun bc_park_pushing :: "'a send_pc \<Rightarrow> bool" where
  "bc_park_pushing (SParkPush _) = True"
| "bc_park_pushing _ = False"

text \<open>One sender's part: \<open>l\<close> is its program counter, \<open>tok\<close> whether it has a token.\<close>

definition bc_park_ok :: "'a send_pc \<Rightarrow> bool \<Rightarrow> bool \<Rightarrow> bool \<Rightarrow> bool \<Rightarrow> bool" where
  "bc_park_ok l maybe parked opn tok \<longleftrightarrow>
     l \<noteq> SCrash
     \<and> (bc_unparked l \<longrightarrow> \<not> maybe)
     \<and> (l = SAbsent \<longrightarrow> \<not> maybe \<and> \<not> tok)
     \<and> (bc_parking l \<longrightarrow> \<not> tok)
     \<and> (bc_park_pushing l \<longrightarrow> parked)
     \<and> (tok \<longrightarrow> parked \<and> (maybe \<or> bc_park_loading l \<or> \<not> opn))
     \<and> (parked \<and> (maybe \<or> bc_park_loading l) \<longrightarrow> tok)"

definition bc_inv_park :: "'a bc \<Rightarrow> bool" where
  "bc_inv_park s \<longleftrightarrow>
     distinct (bc_tokens s)
     \<and> (\<forall>i. bc_park_ok (bc_send s i) (bc_maybe_parked s i) (stk_is_parked (bc_task s i)) (st_open (bc_state s))
          (i \<in> set (bc_tokens s)))
     \<and> (bc_draining (bc_recv s) \<longrightarrow> \<not> st_open (bc_state s))
     \<and> (bc_drained s \<longrightarrow> \<not> st_open (bc_state s) \<and> (\<forall>i \<in> set (bc_tokens s). \<not> bc_maybe_parked s i))"

lemma bc_park_ok_closed: "bc_park_ok l m p b tok \<Longrightarrow> (c \<Longrightarrow> b) \<Longrightarrow> bc_park_ok l m p c tok"
  unfolding bc_park_ok_def by blast

lemma bc_inv_park_other:
  assumes "bc_inv_park s"
  shows "bc_park_ok (bc_send s i) (bc_maybe_parked s i) (stk_is_parked (bc_task s i)) (st_open (bc_state s))
          (i \<in> set (bc_tokens s))"
  using assms unfolding bc_inv_park_def by blast

lemma bc_pushing_parking: "bc_park_pushing l \<Longrightarrow> bc_parking l" "bc_parking l \<Longrightarrow> bc_unparked l"
  "bc_park_loading l \<Longrightarrow> bc_unparked l"
  by (cases l; simp)+

text \<open>A step that only concerns sender \<open>i\<close>.\<close>

lemma bc_inv_park_upd:
  assumes "bc_inv_park s"
    and "\<And>j. j \<noteq> i \<Longrightarrow> bc_send t j = bc_send s j \<and> bc_maybe_parked t j = bc_maybe_parked s j
      \<and> stk_is_parked (bc_task t j) = stk_is_parked (bc_task s j) \<and> (j \<in> set (bc_tokens t) \<longleftrightarrow> j \<in> set (bc_tokens s))"
    and "st_open (bc_state t) \<Longrightarrow> st_open (bc_state s)" and "distinct (bc_tokens t)"
    and "bc_park_ok (bc_send t i) (bc_maybe_parked t i) (stk_is_parked (bc_task t i)) (st_open (bc_state t))
          (i \<in> set (bc_tokens t))"
    and "bc_draining (bc_recv t) \<Longrightarrow> bc_draining (bc_recv s)" and "bc_drained t \<Longrightarrow> bc_drained s"
    and "bc_drained s \<Longrightarrow> i \<in> set (bc_tokens t) \<Longrightarrow> \<not> bc_maybe_parked t i"
  shows "bc_inv_park t"
proof -
  have "bc_park_ok (bc_send t j) (bc_maybe_parked t j) (stk_is_parked (bc_task t j)) (st_open (bc_state t))
          (j \<in> set (bc_tokens t))" for j
  proof (cases "j = i")
    case False
    from bc_park_ok_closed [OF bc_inv_park_other [OF assms(1), of j] assms(3)] assms(2) [OF False] show ?thesis by simp
  qed (use assms(5) in simp)
  moreover have "\<not> bc_maybe_parked t j" if "bc_drained t" "j \<in> set (bc_tokens t)" for j
    using that assms(1,2,7,8) unfolding bc_inv_park_def by (cases "j = i") auto
  ultimately show ?thesis using assms(1,3,4,6,7) unfolding bc_inv_park_def by blast
qed

lemma bc_parkD:
  assumes "bc_inv_park s"
  shows "bc_unparked (bc_send s i) \<Longrightarrow> \<not> bc_maybe_parked s i" "bc_send s i \<noteq> SCrash"
    "bc_parking (bc_send s i) \<Longrightarrow> i \<notin> set (bc_tokens s)" "bc_park_pushing (bc_send s i) \<Longrightarrow> stk_is_parked (bc_task s i)"
    "i \<in> set (bc_tokens s) \<Longrightarrow> stk_is_parked (bc_task s i)" "bc_send s i = SAbsent \<Longrightarrow> i \<notin> set (bc_tokens s)"
    "bc_send s i = SAbsent \<Longrightarrow> \<not> bc_maybe_parked s i"
    "i \<in> set (bc_tokens s) \<Longrightarrow> bc_maybe_parked s i \<or> bc_park_loading (bc_send s i) \<or> \<not> st_open (bc_state s)"
    "stk_is_parked (bc_task s i) \<Longrightarrow> bc_maybe_parked s i \<or> bc_park_loading (bc_send s i) \<Longrightarrow> i \<in> set (bc_tokens s)"
    "bc_drained s \<Longrightarrow> i \<in> set (bc_tokens s) \<Longrightarrow> \<not> bc_maybe_parked s i"
  using bc_inv_park_other [OF assms, of i] assms unfolding bc_park_ok_def bc_inv_park_def by blast+

lemma bc_parkD_all:
  assumes "bc_inv_park s"
  shows "distinct (bc_tokens s)" "bc_draining (bc_recv s) \<Longrightarrow> \<not> st_open (bc_state s)"
    "bc_drained s \<Longrightarrow> \<not> st_open (bc_state s)"
  using assms unfolding bc_inv_park_def by blast+

lemma bc_inv_park_send:
  assumes "bc_inv_queue s" and "bc_inv_park s"
  shows "bc_inv_park (bc_send_exec i s)"
proof -
  have qi: "q_invar (bc_parked s)" using assms(1) by (simp add: bc_inv_queue_def)
  note D = bc_parkD [OF assms(2), of i] bc_parkD_all [OF assms(2)]
  note simps = bc_send_exec_def bc_defs Let_def bc_tokens_def bc_park_ok_def st_open_def [symmetric]
  note upd = bc_inv_park_upd [OF assms(2), of i]
  show ?thesis
  proof (cases "bc_send s i")
    case (STry m)
    show ?thesis
      by (cases "bc_maybe_parked s i"; cases "stk_is_parked (bc_task s i)"; rule upd) (use STry D in \<open>auto simp: simps\<close>)
  next
    case (SAssert m)
    show ?thesis
      by (cases "bc_maybe_parked s i"; cases "stk_is_parked (bc_task s i)"; rule upd) (use SAssert D in \<open>auto simp: simps\<close>)
  next
    case (SCas cur m)
    show ?thesis
      by (cases "st_open cur"; cases "num_messages (decode_state cur) < MAX_CAPACITY"; cases "bc_state s = cur"; rule upd)
        (use SCas D st_inc [of cur] in \<open>auto simp: simps\<close>)
  next
    case (SPark m)
    show ?thesis by (rule upd) (use SPark D in \<open>auto simp: simps\<close>)
  next
    case (SParkPush m)
    show ?thesis by (rule upd) (use SParkPush D qi in \<open>auto simp: simps q_laws\<close>)
  next
    case (SParkLoad m)
    show ?thesis by (rule upd) (use SParkLoad D in \<open>auto simp: simps\<close>)
  next
    case (SReady w)
    show ?thesis by (cases "st_open (bc_state s)"; rule upd) (use SReady D in \<open>auto simp: simps\<close>)
  next
    case (SUnpark w)
    show ?thesis
      by (cases "bc_maybe_parked s i"; cases "stk_is_parked (bc_task s i)"; rule upd) (use SUnpark D in \<open>auto simp: simps\<close>)
  next
    case (SCloseAnd g)
    show ?thesis by (rule upd) (use SCloseAnd D st_close in \<open>auto simp: simps\<close>)
  next
    case (SCloseWake g)
    show ?thesis by (cases "bc_recv_task s"; rule upd) (use SCloseWake D in \<open>auto simp: simps\<close>)
  next
    case SWake
    show ?thesis by (cases "bc_recv_task s"; rule upd) (use SWake D in \<open>auto simp: simps\<close>)
  next
    case (SLoad m)
    show ?thesis by (rule upd) (use SLoad D in \<open>auto simp: simps\<close>)
  next
    case (SPush m)
    show ?thesis by (rule upd) (use SPush D in \<open>auto simp: simps\<close>)
  next
    case SClone
    show ?thesis by (rule upd) (use SClone D in \<open>auto simp: simps\<close>)
  next
    case SDrop
    show ?thesis by (cases "bc_num_senders s = 1"; rule upd) (use SDrop D in \<open>auto simp: simps\<close>)
  next
    case (SCloseLoad g)
    show ?thesis by (cases "st_open (bc_state s)"; rule upd) (use SCloseLoad D in \<open>auto simp: simps\<close>)
  qed (use assms(2) in \<open>simp_all add: bc_send_exec_def\<close>)
qed

text \<open>What the end of \<open>next_message\<close> leaves alone.\<close>

lemma bc_next_done_frame [simp]:
  "bc_send (bc_next_done ctx r s) = bc_send s" "bc_parked (bc_next_done ctx r s) = bc_parked s"
  "bc_queue (bc_next_done ctx r s) = bc_queue s" "bc_state (bc_next_done ctx r s) = bc_state s"
  "bc_task (bc_next_done ctx r s) = bc_task s" "bc_maybe_parked (bc_next_done ctx r s) = bc_maybe_parked s"
  "bc_drained (bc_next_done ctx r s) = bc_drained s" "bc_inner (bc_next_done ctx r s) = bc_inner s"
  "bc_recv_task (bc_next_done ctx r s) = bc_recv_task s" "bc_rwoken (bc_next_done ctx r s) = bc_rwoken s"
  "bc_swoken (bc_next_done ctx r s) = bc_swoken s" "bc_sret (bc_next_done ctx r s) = bc_sret s"
  "bc_buffer (bc_next_done ctx r s) = bc_buffer s" "bc_got (bc_next_done ctx r s) = bc_got s"
  "bc_notifying (bc_recv (bc_next_done ctx r s)) = []" "\<not> bc_draining (bc_recv (bc_next_done ctx r s))"
  "bc_taken (bc_recv (bc_next_done ctx r s)) = 0"
  by (auto simp: bc_next_done_def bc_rgoto_def bc_rreturn_def split: recv_ctx.splits poll.splits option.splits)

lemmas bc_rdefs' = bc_rgoto_def bc_rreturn_def bc_next_message_def bc_unpark_one_def
  bc_dec_num_messages_def bc_next_load_def bc_recv_close_load_def bc_recv_close_and_def bc_drain_def
  bc_drop_load_def bc_notify_def

text \<open>A step of the receiver, which touches at most the task it notifies.\<close>

lemma bc_inv_park_recv:
  assumes "bc_inv_queue s" and "bc_inv_park s" and "bc_inv_count s"
  shows "bc_inv_park (bc_recv_exec s)"
proof -
  have qi: "q_invar (bc_parked s)" using assms(1) by (simp add: bc_inv_queue_def)
  note A = bc_parkD_all [OF assms(2)]
  note I = bc_inv_park_other [OF assms(2)]
  have same: "bc_inv_park t" if "bc_tokens t = bc_tokens s" "bc_send t = bc_send s" "bc_maybe_parked t = bc_maybe_parked s"
    "bc_task t = bc_task s" "st_open (bc_state t) \<Longrightarrow> st_open (bc_state s)"
    "bc_draining (bc_recv t) \<Longrightarrow> \<not> st_open (bc_state t)"
    "bc_drained t \<Longrightarrow> bc_drained s \<or> \<not> st_open (bc_state t) \<and> bc_tokens s = []" for t
  proof -
    have "bc_park_ok (bc_send t i) (bc_maybe_parked t i) (stk_is_parked (bc_task t i)) (st_open (bc_state t))
        (i \<in> set (bc_tokens t))" for i
      using bc_park_ok_closed [OF I [of i] that(5)] that by simp
    then show ?thesis using that A assms(2) unfolding bc_inv_park_def by auto
  qed
  have notify: "bc_inv_park (bc_rgoto l (bc_notify i s))"
    if "bc_notifying (bc_recv s) = [i]" "bc_notifying l = []" "bc_draining l \<longrightarrow> bc_draining (bc_recv s)" for i l
  proof -
    let ?t = "bc_rgoto l (bc_notify i s)"
    note D = bc_parkD [OF assms(2), of i]
    have tok: "bc_tokens s = i # bc_tokens ?t" using that by (simp add: bc_tokens_def bc_rgoto_def bc_notify_def)
    have "distinct (i # bc_tokens ?t)" using A(1) tok by simp
    then show ?thesis
      by (intro bc_inv_park_upd [OF assms(2), of i])
        (use D that tok bc_pushing_parking [of "bc_send s i"] in \<open>auto simp: bc_rgoto_def bc_notify_def bc_park_ok_def\<close>)
  qed
  show ?thesis
  proof (cases "bc_recv s")
    case (RNotify ctx m i)
    then show ?thesis using notify [of i "RDec ctx m"] by (simp add: bc_recv_exec_def)
  next
    case (RDrainNotify g i)
    then show ?thesis using notify [of i "RDrain g"] by (simp add: bc_recv_exec_def)
  next
    case (RUnpark ctx m)
    obtain r q where p: "q_pop_spin (bc_parked s) = (r, q)" by (cases "q_pop_spin (bc_parked s)")
    show ?thesis
      by (rule same) (use RUnpark p q_pop_None [OF qi, of q] q_pop_Some [OF qi, of _ q] in
          \<open>cases r; auto simp: bc_recv_exec_def bc_unpark_one_def bc_rgoto_def bc_tokens_def\<close>)+
  next
    case (RDrain g)
    obtain r q where p: "q_pop_spin (bc_parked s) = (r, q)" by (cases "q_pop_spin (bc_parked s)")
    have "\<not> st_open (bc_state s)" using A(2) RDrain by simp
    then show ?thesis
      by (intro same) (use RDrain p q_pop_None [OF qi, of q] q_pop_Some [OF qi, of _ q] in
          \<open>cases r; auto simp: bc_recv_exec_def bc_drain_def bc_rgoto_def bc_tokens_def\<close>)+
  next
    case (RPop ctx)
    obtain r q where p: "q_pop_spin (bc_queue s) = (r, q)" by (cases "q_pop_spin (bc_queue s)")
    show ?thesis
      by (rule same) (use RPop p in \<open>cases "bc_inner s"; cases r; simp add: bc_recv_exec_def bc_rdefs' bc_tokens_def\<close>)+
  next
    case (RDec ctx m)
    then have "0 < st_num (bc_state s)" using assms(3) by (simp add: bc_inv_count_def)
    note d = st_dec [OF this]
    show ?thesis
      by (rule same) (use RDec d in \<open>simp_all add: bc_recv_exec_def bc_rdefs' bc_tokens_def\<close>)
  next
    case (RLoad ctx)
    show ?thesis
      by (rule same) (use RLoad in \<open>simp_all add: bc_recv_exec_def bc_rdefs' bc_tokens_def split: if_splits\<close>)
  next
    case (RReg w)
    show ?thesis by (rule same) (use RReg in \<open>auto simp: bc_recv_exec_def bc_rdefs' bc_tokens_def\<close>)+
  next
    case (RCloseLoad g)
    show ?thesis
      by (rule same) (use RCloseLoad in \<open>auto simp: bc_recv_exec_def bc_rdefs' bc_tokens_def st_open_def [symmetric]
          split: if_splits\<close>)+
  next
    case (RCloseAnd g)
    show ?thesis
      by (rule same) (use RCloseAnd st_close in \<open>auto simp: bc_recv_exec_def bc_rdefs' bc_tokens_def\<close>)+
  next
    case RDropLoad
    show ?thesis
      by (rule same) (use RDropLoad in \<open>auto simp: bc_recv_exec_def bc_rdefs' bc_tokens_def split: if_splits\<close>)+
  qed (use assms(2) in \<open>simp_all add: bc_recv_exec_def\<close>)
qed

lemma bc_inv_park_clone:
  assumes "bc_inv_park s" and "bc_inv_senders s" and "bc_send s i = SCloneCas cur" and "bc_send s j = SAbsent"
  shows "bc_inv_park (bc_clone_cas i cur j s)"
proof -
  note Di = bc_parkD [OF assms(1), of i] and Dj = bc_parkD [OF assms(1), of j] and A = bc_parkD_all [OF assms(1)]
  have "cur \<le> bc_max_senders s" using assms(2,3) by (simp add: bc_inv_senders_def)
  then have le: "\<not> cur < bc_max_senders s \<Longrightarrow> cur = bc_max_senders s"
    by (metis order.not_eq_order_implies_strict)
  let ?u = "bc_return i (CloneOk j) (s\<lparr>bc_num_senders := cur + 1\<rparr>)"
  have u: "bc_inv_park ?u"
    by (rule bc_inv_park_upd [OF assms(1), of i]) (use Di A assms(3) in \<open>auto simp: bc_return_def bc_tokens_def bc_park_ok_def\<close>)
  show ?thesis
  proof (cases "cur < bc_max_senders s \<and> bc_num_senders s = cur")
    case True
    have "i \<noteq> j" using assms(3,4) by auto
    have eq: "bc_clone_cas i cur j s = bc_goto j SIdle (bc_return i (CloneOk j)
        (s\<lparr>bc_num_senders := cur + 1, bc_task := (bc_task s)(j := SenderTask_new),
             bc_maybe_parked := (bc_maybe_parked s)(j := False)\<rparr>))"
      using True unfolding bc_clone_cas_def by (metis less_irrefl)
    show ?thesis unfolding eq
      by (rule bc_inv_park_upd [OF u, of j])
        (use Dj A assms(4) \<open>i \<noteq> j\<close> in \<open>auto simp: bc_defs bc_tokens_def bc_park_ok_def SenderTask_new_def\<close>)
  next
    case False
    then have "bc_clone_cas i cur j s = bc_return i ClonePanic s \<or> bc_clone_cas i cur j s = bc_goto i (SCloneCas (bc_num_senders s)) s"
      using le unfolding bc_clone_cas_def by metis
    then show ?thesis
    proof
      assume eq: "bc_clone_cas i cur j s = bc_return i ClonePanic s"
      show ?thesis unfolding eq
        by (rule bc_inv_park_upd [OF assms(1), of i]) (use Di A assms(3) in \<open>auto simp: bc_defs bc_tokens_def bc_park_ok_def\<close>)
    next
      assume eq: "bc_clone_cas i cur j s = bc_goto i (SCloneCas (bc_num_senders s)) s"
      show ?thesis unfolding eq
        by (rule bc_inv_park_upd [OF assms(1), of i]) (use Di A assms(3) in \<open>auto simp: bc_defs bc_tokens_def bc_park_ok_def\<close>)
    qed
  qed
qed

lemma bc_inv_park_reach: "bc_reach b s \<Longrightarrow> bc_inv_park s"
proof (erule reach_invariant)
  fix s :: "'a bc" assume "bc_channel b = ret s"
  then have "s = bc_new b" by (simp add: bc_channel_ret)
  then show "bc_inv_park s"
    by (auto simp: bc_inv_park_def bc_new_def bc_tokens_def bc_park_ok_def q_laws SenderTask_new_def)
next
  fix s t :: "'a bc" assume r: "bc_reach b s" and s: "bc_inv_park s" and "bc_step s t"
  note q = bc_inv_queue_reach [OF r]
  from \<open>bc_step s t\<close> show "bc_inv_park t"
  proof cases
    case (bc_begin i l)
    then show ?thesis
      by (intro bc_inv_park_upd [OF s, of i])
        (use bc_parkD [OF s, of i] bc_parkD_all [OF s] bc_begin_calls [of l] bc_pushing_parking [of l] in
          \<open>auto simp: bc_goto_def bc_tokens_def bc_park_ok_def\<close>)
  next
    case bc_run with s q show ?thesis by (simp add: bc_inv_park_send)
  next
    case (bc_clone i cur j)
    then show ?thesis using s bc_inv_senders_reach [OF r] by (simp add: bc_inv_park_clone)
  next
    case (bc_rbegin l)
    then show ?thesis
      using s by (cases l) (auto simp: bc_inv_park_def bc_rgoto_def bc_tokens_def bc_recv_call_def)
  next
    case bc_rrun with s q bc_inv_count_reach [OF r] show ?thesis by (simp add: bc_inv_park_recv)
  qed
qed

section \<open>Parked senders and messages\<close>

fun bc_unpark_due :: "'a recv_pc \<Rightarrow> nat" where
  "bc_unpark_due (RUnpark _ _) = 1"
| "bc_unpark_due _ = 0"

fun bc_dec_due :: "'a recv_pc \<Rightarrow> nat" where
  "bc_dec_due (RNotify _ _ _) = 1"
| "bc_dec_due (RDec _ _) = 1"
| "bc_dec_due _ = 0"

text \<open>
  Every entry of the parked queue has a message that is still to be received (receiving a message
  takes one entry); and while the channel is open, every message beyond \<open>buffer\<close> has an entry.
\<close>

definition bc_inv_room :: "'a bc \<Rightarrow> bool" where
  "bc_inv_room s \<longleftrightarrow>
     length (q_contents (bc_parked s)) + card (pcs bc_parking (bc_send s))
       \<le> length (q_contents (bc_queue s)) + card (pcs bc_in_flight (bc_send s)) + bc_unpark_due (bc_recv s)
     \<and> (st_open (bc_state s) \<longrightarrow>
          st_num (bc_state s) \<le> unat (bc_buffer s) + length (q_contents (bc_parked s))
            + card (pcs bc_parking (bc_send s)) + bc_dec_due (bc_recv s))"

lemma bc_inv_room_send:
  assumes "bc_inv_queue s" and "bc_inv_room s"
  shows "bc_inv_room (bc_send_exec i s)"
proof -
  note F = bc_finite(1,2) [OF assms(1)]
  note pos = pcs_pos [OF F(1), of i] pcs_pos [OF F(2), of i]
  have qi: "q_invar (bc_queue s)" "q_invar (bc_parked s)" using assms(1) by (simp_all add: bc_inv_queue_def)
  note simps = bc_inv_room_def bc_send_exec_def bc_defs Let_def
  show ?thesis
  proof (cases "bc_send s i")
    case (STry m)
    then show ?thesis using assms(2) F
      by (cases "bc_maybe_parked s i"; cases "stk_is_parked (bc_task s i)") (simp_all add: simps)
  next
    case (SAssert m)
    then show ?thesis using assms(2) F
      by (cases "bc_maybe_parked s i"; cases "stk_is_parked (bc_task s i)") (simp_all add: simps)
  next
    case (SUnpark w)
    then show ?thesis using assms(2) F
      by (cases "bc_maybe_parked s i"; cases "stk_is_parked (bc_task s i)") (simp_all add: simps)
  next
    case (SCas cur msg)
    then show ?thesis using assms(2) F st_inc [of cur] qi
      by (cases "st_open cur"; cases "num_messages (decode_state cur) < MAX_CAPACITY"; cases "bc_state s = cur";
          cases "bc_buffer s < num_messages (decode_state cur) + 1")
        (auto simp: simps st_open_def [symmetric] word_less_nat_alt)
  next
    case (SCloseWake g)
    then show ?thesis using assms(2) F by (cases "bc_recv_task s") (simp_all add: simps)
  next
    case SWake
    then show ?thesis using assms(2) F by (cases "bc_recv_task s") (simp_all add: simps)
  next
    case (SParkPush msg)
    then show ?thesis using assms(2) F pos qi by (auto simp: simps q_laws)
  next
    case (SPush msg)
    then show ?thesis using assms(2) F pos qi by (auto simp: simps q_laws)
  next
    case (SCloseAnd g)
    then show ?thesis using assms(2) F st_close by (simp add: simps)
  qed (use assms(2) F pos in \<open>simp_all add: simps\<close>)
qed

lemma bc_next_done_due [simp]:
  "bc_unpark_due (bc_recv (bc_next_done ctx r s)) = 0" "bc_dec_due (bc_recv (bc_next_done ctx r s)) = 0"
  by (auto simp: bc_next_done_def bc_rgoto_def bc_rreturn_def split: recv_ctx.splits poll.splits option.splits)

lemma bc_inv_room_recv:
  assumes "bc_inv_queue s" and "bc_inv_count s" and "bc_inv_park s" and "bc_inv_room s"
  shows "bc_inv_room (bc_recv_exec s)"
proof -
  have qi: "q_invar (bc_queue s)" "q_invar (bc_parked s)" using assms(1) by (simp_all add: bc_inv_queue_def)
  note simps = bc_inv_room_def bc_recv_exec_def bc_rdefs'
  obtain r1 q1 where p1: "q_pop_spin (bc_queue s) = (r1, q1)" by (cases "q_pop_spin (bc_queue s)")
  obtain r2 q2 where p2: "q_pop_spin (bc_parked s) = (r2, q2)" by (cases "q_pop_spin (bc_parked s)")
  note pop = p1 p2 q_pop_None [OF qi(1), of q1] q_pop_Some [OF qi(1), of _ q1]
    q_pop_None [OF qi(2), of q2] q_pop_Some [OF qi(2), of _ q2]
  have sub: "card (pcs bc_parking (bc_send s)) \<le> card (pcs bc_in_flight (bc_send s))"
    by (rule pcs_card_mono [OF bc_finite(1) [OF assms(1)]]) (auto elim: bc_parking.elims)
  show ?thesis
  proof (cases "bc_recv s")
    case (RPop ctx)
    then show ?thesis using assms(4) pop by (cases "bc_inner s"; cases r1) (auto simp: simps)
  next
    case (RUnpark ctx m)
    then show ?thesis using assms(4) pop sub by (cases r2) (auto simp: simps)
  next
    case (RDec ctx m)
    then have "0 < st_num (bc_state s)" using assms(2) by (simp add: bc_inv_count_def)
    from st_dec [OF this] RDec assms(4) show ?thesis by (auto simp: simps)
  next
    case (RLoad ctx)
    then show ?thesis using assms(4) by (auto simp: simps)
  next
    case (RCloseAnd g)
    then show ?thesis using assms(4) st_close by (simp add: simps)
  next
    case (RDrain g)
    then have "\<not> st_open (bc_state s)" using bc_parkD_all(2) [OF assms(3)] by simp
    with RDrain show ?thesis using assms(4) pop by (cases r2) (auto simp: simps)
  qed (use assms(4) in \<open>simp_all add: simps\<close>)
qed

lemma bc_inv_room_reach: "bc_reach b s \<Longrightarrow> bc_inv_room s"
proof (erule reach_invariant)
  fix s :: "'a bc" assume "bc_channel b = ret s"
  then have "s = bc_new b" by (simp add: bc_channel_ret)
  moreover have "pcs bc_parking (\<lambda>_. SAbsent :: 'a send_pc) = {}" "pcs bc_in_flight (\<lambda>_. SAbsent :: 'a send_pc) = {}"
    by (auto simp: pcs_def)
  ultimately show "bc_inv_room s"
    unfolding bc_inv_room_def bc_new_def by (simp add: q_laws st_init del: fun_upd_apply)
next
  fix s t :: "'a bc" assume r: "bc_reach b s" and s: "bc_inv_room s" and "bc_step s t"
  note q = bc_inv_queue_reach [OF r]
  note F = bc_finite(1,2) [OF q]
  from \<open>bc_step s t\<close> show "bc_inv_room t"
  proof cases
    case (bc_begin i l)
    then show ?thesis using s F bc_begin_calls [of l] by (simp add: bc_inv_room_def bc_goto_def)
  next
    case bc_run with s q show ?thesis by (simp add: bc_inv_room_send)
  next
    case (bc_clone i cur j)
    then show ?thesis using s F by (auto simp: bc_inv_room_def bc_clone_cas_def bc_defs)
  next
    case (bc_rbegin l)
    then show ?thesis using s by (cases l) (auto simp: bc_inv_room_def bc_rgoto_def bc_recv_call_def)
  next
    case bc_rrun with s q bc_inv_count_reach [OF r] bc_inv_park_reach [OF r] show ?thesis by (simp add: bc_inv_room_recv)
  qed
qed

section \<open>The end of the stream\<close>

text \<open>The receiver lets go of the channel only when it is closed and empty, and it stays so.\<close>

definition bc_inv_end :: "'a bc \<Rightarrow> bool" where
  "bc_inv_end s \<longleftrightarrow> (\<not> bc_inner s \<longrightarrow> \<not> st_open (bc_state s) \<and> st_num (bc_state s) = 0)"

lemma bc_inv_end_send:
  assumes "bc_inv_end s"
  shows "bc_inv_end (bc_send_exec i s)"
proof (cases "bc_inner s")
  case True
  then have "bc_inner (bc_send_exec i s)"
    by (cases "bc_send s i") (auto simp: bc_send_exec_def bc_defs Let_def split: option.splits)
  then show ?thesis by (simp add: bc_inv_end_def)
next
  case False
  then have c: "\<not> st_open (bc_state s)" "st_num (bc_state s) = 0" using assms by (simp_all add: bc_inv_end_def)
  have "\<not> st_open (bc_state (bc_send_exec i s)) \<and> st_num (bc_state (bc_send_exec i s)) = 0"
  proof (cases "bc_send s i")
    case (SCas cur m)
    then show ?thesis using c
      by (cases "st_open cur"; cases "bc_state s = cur") (auto simp: bc_send_exec_def bc_defs Let_def st_open_def [symmetric])
  next
    case (SCloseAnd g)
    then show ?thesis using c st_close by (simp add: bc_send_exec_def bc_defs)
  qed (use c in \<open>auto simp: bc_send_exec_def bc_defs Let_def split: option.splits\<close>)
  then show ?thesis by (simp add: bc_inv_end_def)
qed

lemma bc_inv_end_recv:
  assumes "bc_inv_count s" and "bc_inv_end s"
  shows "bc_inv_end (bc_recv_exec s)"
proof (cases "bc_recv s")
  case (RLoad ctx)
  then show ?thesis using assms(2)
    by (cases "state_is_closed (decode_state (bc_state s))")
      (auto simp: bc_inv_end_def bc_recv_exec_def bc_rdefs' state_is_closed_st)
next
  case (RDec ctx m)
  then have "0 < st_num (bc_state s)" using assms(1) by (simp add: bc_inv_count_def)
  then have "bc_inner s" using assms(2) by (auto simp: bc_inv_end_def)
  then show ?thesis using RDec by (simp add: bc_inv_end_def bc_recv_exec_def bc_rdefs')
next
  case (RCloseAnd g)
  then show ?thesis using assms(2) st_close by (simp add: bc_inv_end_def bc_recv_exec_def bc_rdefs')
qed (use assms(2) in \<open>auto simp: bc_inv_end_def bc_recv_exec_def bc_rdefs' split: option.splits prod.splits if_splits\<close>)

lemma bc_inv_end_reach: "bc_reach b s \<Longrightarrow> bc_inv_end s"
proof (erule reach_invariant)
  fix s :: "'a bc" assume "bc_channel b = ret s"
  then show "bc_inv_end s" by (simp add: bc_channel_ret bc_inv_end_def bc_new_def)
next
  fix s t :: "'a bc" assume r: "bc_reach b s" and s: "bc_inv_end s" and "bc_step s t"
  from \<open>bc_step s t\<close> show "bc_inv_end t"
  proof cases
    case bc_run with s show ?thesis by (simp add: bc_inv_end_send)
  next
    case bc_rrun with s bc_inv_count_reach [OF r] show ?thesis by (simp add: bc_inv_end_recv)
  qed (use s in \<open>auto simp: bc_inv_end_def bc_defs bc_rgoto_def bc_clone_cas_def\<close>)
qed

section \<open>Wake-ups\<close>

definition bc_waking :: "(nat \<Rightarrow> 'a send_pc) \<Rightarrow> bool" where
  "bc_waking f \<longleftrightarrow> (\<exists>i. f i = SWake)"

definition bc_close_waking :: "(nat \<Rightarrow> 'a send_pc) \<Rightarrow> bool" where
  "bc_close_waking f \<longleftrightarrow> (\<exists>i g. f i = SCloseWake g)"

lemma bc_waking_upd: "f i \<noteq> SWake \<Longrightarrow> bc_waking f \<Longrightarrow> bc_waking (f(i := l))"
  by (auto simp: bc_waking_def)

lemma bc_waking_new [simp]: "bc_waking (f(i := SWake))"
  by (auto simp: bc_waking_def)

lemma bc_close_waking_upd: "(\<And>g. f i \<noteq> SCloseWake g) \<Longrightarrow> bc_close_waking f \<Longrightarrow> bc_close_waking (f(i := l))"
  by (auto simp: bc_close_waking_def) metis

lemma bc_close_waking_new [simp]: "bc_close_waking (f(i := SCloseWake g))"
  by (auto simp: bc_close_waking_def)

text \<open>
  \<open>bc_wait_ok s w\<close>: the receiver's last poll registered \<open>w\<close> and nothing that it waits for has been
  missed: a message in the queue, or the end of the stream, has a sender behind it that is about to
  wake \<open>recv_task\<close>.
\<close>

definition bc_registered :: "'a bc \<Rightarrow> waker \<Rightarrow> bool" where
  "bc_registered s w \<longleftrightarrow> bc_rwoken s \<or> bc_recv_task s = Some w"

definition bc_no_message :: "'a bc \<Rightarrow> bool" where
  "bc_no_message s \<longleftrightarrow> bc_rwoken s \<or> q_contents (bc_queue s) = [] \<or> bc_waking (bc_send s)"

definition bc_no_end :: "'a bc \<Rightarrow> bool" where
  "bc_no_end s \<longleftrightarrow> bc_rwoken s \<or> \<not> (\<not> st_open (bc_state s) \<and> st_num (bc_state s) = 0) \<or> bc_close_waking (bc_send s)"

definition bc_inv_wait :: "'a bc \<Rightarrow> bool" where
  "bc_inv_wait s \<longleftrightarrow>
     (\<forall>w. bc_recv s = RPop (CPoll2 w) \<longrightarrow> bc_registered s w)
     \<and> (\<forall>w. bc_recv s = RLoad (CPoll2 w) \<longrightarrow> bc_registered s w \<and> bc_no_message s)
     \<and> (\<forall>w. bc_rwait s = Some w \<longrightarrow>
          bc_recv s = RIdle \<and> bc_rret s = Some Pending \<and> bc_registered s w \<and> bc_no_message s \<and> bc_no_end s)"

lemma bc_inv_wait_mono:
  assumes "bc_inv_wait s" and "bc_recv t = bc_recv s" and "bc_rwait t = bc_rwait s" and "bc_rret t = bc_rret s"
    and "\<And>w. bc_registered s w \<Longrightarrow> bc_registered t w"
    and "bc_no_message s \<Longrightarrow> bc_no_message t \<or> bc_recv_task s = None \<and> \<not> bc_rwoken s"
    and "bc_no_end s \<Longrightarrow> bc_no_end t \<or> bc_recv_task s = None \<and> \<not> bc_rwoken s"
  shows "bc_inv_wait t"
  using assms unfolding bc_inv_wait_def by (auto simp: bc_registered_def)

lemma bc_inv_wait_send:
  assumes "bc_inv_wait s" and "bc_inv_queue s"
  shows "bc_inv_wait (bc_send_exec i s)"
proof -
  have qi: "q_invar (bc_queue s)" using assms(2) by (simp add: bc_inv_queue_def)
  note simps = bc_send_exec_def bc_defs Let_def bc_registered_def bc_no_message_def bc_no_end_def
  note upd = bc_inv_wait_mono [OF assms(1)]
  show ?thesis
  proof (cases "bc_send s i")
    case (STry m)
    show ?thesis
      by (cases "bc_maybe_parked s i"; cases "stk_is_parked (bc_task s i)"; rule upd)
        (use STry in \<open>auto simp: simps intro: bc_waking_upd bc_close_waking_upd simp del: fun_upd_apply\<close>)
  next
    case (SAssert m)
    show ?thesis
      by (cases "bc_maybe_parked s i"; cases "stk_is_parked (bc_task s i)"; rule upd)
        (use SAssert in \<open>auto simp: simps intro: bc_waking_upd bc_close_waking_upd simp del: fun_upd_apply\<close>)
  next
    case (SUnpark m)
    show ?thesis
      by (cases "bc_maybe_parked s i"; cases "stk_is_parked (bc_task s i)"; rule upd)
        (use SUnpark in \<open>auto simp: simps intro: bc_waking_upd bc_close_waking_upd simp del: fun_upd_apply\<close>)
  next
    case (SCas cur m)
    show ?thesis
      by (cases "st_open cur"; cases "num_messages (decode_state cur) < MAX_CAPACITY"; cases "bc_state s = cur"; rule upd)
        (use SCas st_inc [of cur] in \<open>auto simp: simps st_open_def [symmetric] intro: bc_waking_upd bc_close_waking_upd
          simp del: fun_upd_apply\<close>)
  next
    case SWake
    show ?thesis
      by (cases "bc_recv_task s"; rule upd)
        (use SWake in \<open>auto simp: simps intro: bc_close_waking_upd simp del: fun_upd_apply\<close>)
  next
    case (SCloseWake g)
    show ?thesis
      by (cases "bc_recv_task s"; rule upd)
        (use SCloseWake in \<open>auto simp: simps intro: bc_waking_upd simp del: fun_upd_apply\<close>)
  next
    case (SReady w)
    show ?thesis
      by (cases "st_open (bc_state s)"; rule upd)
        (use SReady in \<open>auto simp: simps intro: bc_waking_upd bc_close_waking_upd simp del: fun_upd_apply\<close>)
  next
    case SDrop
    show ?thesis
      by (cases "bc_num_senders s = 1"; rule upd)
        (use SDrop in \<open>auto simp: simps intro: bc_waking_upd bc_close_waking_upd simp del: fun_upd_apply\<close>)
  next
    case (SCloseLoad g)
    show ?thesis
      by (cases "st_open (bc_state s)"; rule upd)
        (use SCloseLoad in \<open>auto simp: simps intro: bc_waking_upd bc_close_waking_upd simp del: fun_upd_apply\<close>)
  next
    case (SPark m)
    show ?thesis by (rule upd)
      (use SPark in \<open>auto simp: simps intro: bc_waking_upd bc_close_waking_upd simp del: fun_upd_apply\<close>)
  next
    case (SParkPush m)
    show ?thesis by (rule upd)
      (use SParkPush in \<open>auto simp: simps intro: bc_waking_upd bc_close_waking_upd simp del: fun_upd_apply\<close>)
  next
    case (SParkLoad m)
    show ?thesis by (rule upd)
      (use SParkLoad in \<open>auto simp: simps intro: bc_waking_upd bc_close_waking_upd simp del: fun_upd_apply\<close>)
  next
    case (SPush m)
    show ?thesis by (rule upd)
      (use SPush in \<open>auto simp: simps intro: bc_waking_upd bc_close_waking_upd simp del: fun_upd_apply\<close>)
  next
    case (SLoad m)
    show ?thesis by (rule upd)
      (use SLoad in \<open>auto simp: simps intro: bc_waking_upd bc_close_waking_upd simp del: fun_upd_apply\<close>)
  next
    case SClone
    show ?thesis by (rule upd)
      (use SClone in \<open>auto simp: simps intro: bc_waking_upd bc_close_waking_upd simp del: fun_upd_apply\<close>)
  next
    case (SCloseAnd g)
    show ?thesis by (rule upd)
      (use SCloseAnd in \<open>auto simp: simps intro: bc_waking_upd simp del: fun_upd_apply\<close>)
  qed (use assms(1) in \<open>simp_all add: bc_send_exec_def\<close>)
qed

lemma bc_inv_wait_recv:
  assumes "bc_inv_wait s" and "bc_inv_queue s"
  shows "bc_inv_wait (bc_recv_exec s)"
proof -
  have qi: "q_invar (bc_queue s)" using assms(2) by (simp add: bc_inv_queue_def)
  note simps = bc_inv_wait_def bc_recv_exec_def bc_rdefs bc_registered_def bc_no_message_def bc_no_end_def
  have rw: "bc_recv s \<noteq> RIdle \<Longrightarrow> bc_rwait s = None"
    using assms(1) by (cases "bc_rwait s") (auto simp: bc_inv_wait_def)
  show ?thesis
  proof (cases "bc_recv s")
    case (RPop ctx)
    obtain r q where p: "q_pop_spin (bc_queue s) = (r, q)" by (cases "q_pop_spin (bc_queue s)")
    show ?thesis using assms(1) RPop rw p q_pop_None [OF qi, of q]
      by (cases "bc_inner s"; cases r; cases ctx) (auto simp: simps)
  next
    case (RUnpark ctx m)
    obtain r q where p: "q_pop_spin (bc_parked s) = (r, q)" by (cases "q_pop_spin (bc_parked s)")
    show ?thesis using assms(1) RUnpark rw p by (cases r) (auto simp: simps)
  next
    case (RDec ctx m)
    then show ?thesis using assms(1) rw by (cases ctx) (auto simp: simps)
  next
    case (RLoad ctx)
    then show ?thesis using assms(1) rw
      by (cases "state_is_closed (decode_state (bc_state s))"; cases ctx) (auto simp: simps state_is_closed_st)
  next
    case (RDrain g)
    obtain r q where p: "q_pop_spin (bc_parked s) = (r, q)" by (cases "q_pop_spin (bc_parked s)")
    show ?thesis using assms(1) RDrain rw p by (cases r) (auto simp: simps)
  next
    case (RCloseLoad g)
    then show ?thesis using assms(1) rw by (cases "bc_inner s"; cases "is_open (decode_state (bc_state s))") (auto simp: simps)
  next
    case RDropLoad
    then show ?thesis using assms(1) rw by (cases "state_is_closed (decode_state (bc_state s))") (auto simp: simps)
  qed (use assms(1) rw in \<open>auto simp: simps\<close>)
qed

lemma bc_inv_wait_reach: "bc_reach b s \<Longrightarrow> bc_inv_wait s"
proof (erule reach_invariant)
  fix s :: "'a bc" assume "bc_channel b = ret s"
  then show "bc_inv_wait s" by (simp add: bc_channel_ret bc_inv_wait_def bc_new_def)
next
  fix s t :: "'a bc" assume r: "bc_reach b s" and s: "bc_inv_wait s" and "bc_step s t"
  from \<open>bc_step s t\<close> show "bc_inv_wait t"
  proof cases
    case (bc_begin i l)
    show ?thesis unfolding bc_begin(1)
      by (rule bc_inv_wait_mono [OF s])
        (use bc_begin in \<open>auto simp: bc_goto_def bc_registered_def bc_no_message_def bc_no_end_def
          intro: bc_waking_upd bc_close_waking_upd simp del: fun_upd_apply\<close>)
  next
    case bc_run with s bc_inv_queue_reach [OF r] show ?thesis by (simp add: bc_inv_wait_send)
  next
    case (bc_clone i cur j)
    have w: "bc_waking (bc_send s) \<Longrightarrow> bc_waking ((bc_send s)(i := l))"
        "bc_close_waking (bc_send s) \<Longrightarrow> bc_close_waking ((bc_send s)(i := l))" for l
      using bc_clone by (auto intro: bc_waking_upd bc_close_waking_upd)
    have w2: "bc_waking (bc_send s) \<Longrightarrow> bc_waking ((bc_send s)(i := SIdle, j := SIdle))"
        "bc_close_waking (bc_send s) \<Longrightarrow> bc_close_waking ((bc_send s)(i := SIdle, j := SIdle))"
      using bc_clone w by (auto intro!: bc_waking_upd bc_close_waking_upd split: if_splits)
    show ?thesis unfolding bc_clone(1)
      by (rule bc_inv_wait_mono [OF s])
        (use w w2 in \<open>auto simp: bc_clone_cas_def bc_defs bc_registered_def bc_no_message_def bc_no_end_def
          simp del: fun_upd_apply\<close>)
  next
    case (bc_rbegin l)
    then show ?thesis
      using s by (cases l) (auto simp: bc_inv_wait_def bc_rgoto_def bc_recv_call_def)
  next
    case bc_rrun with s bc_inv_queue_reach [OF r] show ?thesis by (simp add: bc_inv_wait_recv)
  qed
qed

section \<open>Wake-ups of senders\<close>

text \<open>
  A sender whose last \<open>poll_ready\<close> returned \<open>Pending\<close> has been woken since, or it is still parked and its
  task holds the waker of that poll.
\<close>

definition bc_inv_swait :: "'a bc \<Rightarrow> bool" where
  "bc_inv_swait s \<longleftrightarrow>
     (\<forall>i w. bc_sret s i = Some (ReadyPending w) \<longrightarrow> bc_send s i = SIdle
        \<and> (bc_swoken s i \<or> bc_maybe_parked s i \<and> bc_task s i = \<lparr>stk_task = Some w, stk_is_parked = True\<rparr>))"

lemma bc_inv_swaitD:
  "bc_inv_swait s \<Longrightarrow> bc_sret s i = Some (ReadyPending w) \<Longrightarrow> bc_send s i = SIdle
     \<and> (bc_swoken s i \<or> bc_maybe_parked s i \<and> bc_task s i = \<lparr>stk_task = Some w, stk_is_parked = True\<rparr>)"
  by (simp add: bc_inv_swait_def)

lemma bc_inv_swait_upd:
  assumes "bc_inv_swait s"
    and "\<And>j. j \<noteq> i \<Longrightarrow> bc_send t j = bc_send s j \<and> bc_maybe_parked t j = bc_maybe_parked s j
      \<and> bc_task t j = bc_task s j \<and> bc_sret t j = bc_sret s j \<and> bc_swoken t j = bc_swoken s j"
    and "\<And>w. bc_sret t i = Some (ReadyPending w) \<Longrightarrow> bc_send t i = SIdle
        \<and> (bc_swoken t i \<or> bc_maybe_parked t i \<and> bc_task t i = \<lparr>stk_task = Some w, stk_is_parked = True\<rparr>)"
  shows "bc_inv_swait t"
  unfolding bc_inv_swait_def
proof (intro allI impI)
  fix j w assume "bc_sret t j = Some (ReadyPending w)"
  then show "bc_send t j = SIdle
        \<and> (bc_swoken t j \<or> bc_maybe_parked t j \<and> bc_task t j = \<lparr>stk_task = Some w, stk_is_parked = True\<rparr>)"
    using assms(3) [of w] assms(2) [of j] bc_inv_swaitD [OF assms(1), of j w] by (cases "j = i") auto
qed

lemma bc_inv_swait_send: "bc_inv_swait s \<Longrightarrow> bc_inv_swait (bc_send_exec i s)"
proof -
  assume s: "bc_inv_swait s"
  note D = bc_inv_swaitD [OF s, of i]
  have idle: "bc_send s i = SIdle \<Longrightarrow> bc_send_exec i s = s" by (simp add: bc_send_exec_def)
  have busy: "bc_send s i \<noteq> SIdle \<Longrightarrow> bc_sret s i \<noteq> Some (ReadyPending w)" for w using D [of w] by auto
  note simps = bc_send_exec_def bc_defs Let_def
  show ?thesis
  proof (cases "bc_send s i")
    case (SUnpark w)
    show ?thesis
      by (rule bc_inv_swait_upd [OF s, of i]; cases "bc_maybe_parked s i"; cases "bc_task s i"; cases "stk_is_parked (bc_task s i)")
        (use SUnpark busy in \<open>auto simp: simps\<close>)
  next
    case SIdle
    then show ?thesis using s idle by simp
  next
    case (STry m)
    show ?thesis
      by (rule bc_inv_swait_upd [OF s, of i]; cases "bc_maybe_parked s i"; cases "stk_is_parked (bc_task s i)")
        (use STry busy in \<open>auto simp: simps\<close>)
  next
    case (SAssert m)
    show ?thesis
      by (rule bc_inv_swait_upd [OF s, of i]; cases "bc_maybe_parked s i"; cases "stk_is_parked (bc_task s i)")
        (use SAssert busy in \<open>auto simp: simps\<close>)
  next
    case (SCas cur m)
    show ?thesis
      by (rule bc_inv_swait_upd [OF s, of i]; cases "is_open (decode_state cur)"; cases "num_messages (decode_state cur) < MAX_CAPACITY";
          cases "bc_state s = cur")
        (use SCas busy in \<open>auto simp: simps\<close>)
  qed (rule bc_inv_swait_upd [OF s, of i]; use busy in \<open>auto simp: simps split: option.splits if_splits\<close>)+
qed

lemma bc_inv_swait_reach: "bc_reach b s \<Longrightarrow> bc_inv_swait s"
proof (erule reach_invariant)
  fix s :: "'a bc" assume "bc_channel b = ret s"
  then show "bc_inv_swait s" by (simp add: bc_channel_ret bc_inv_swait_def bc_new_def)
next
  fix s t :: "'a bc" assume r: "bc_reach b s" and s: "bc_inv_swait s" and "bc_step s t"
  from \<open>bc_step s t\<close> show "bc_inv_swait t"
  proof cases
    case (bc_begin i l)
    show ?thesis unfolding bc_begin(1)
      by (rule bc_inv_swait_upd [OF s, of i]) (auto simp: bc_goto_def)
  next
    case bc_run with s show ?thesis by (simp add: bc_inv_swait_send)
  next
    case (bc_clone i cur j)
    have n: "bc_sret s i \<noteq> Some (ReadyPending w)" "bc_sret s j \<noteq> Some (ReadyPending w)" for w
      using bc_inv_swaitD [OF s, of i w] bc_inv_swaitD [OF s, of j w] bc_clone by auto
    show ?thesis unfolding bc_clone(1) using s n
      by (auto simp: bc_inv_swait_def bc_clone_cas_def bc_defs split: if_splits)
  next
    case (bc_rbegin l)
    then show ?thesis using s by (simp add: bc_inv_swait_def bc_rgoto_def)
  next
    case bc_rrun
    have "bc_inv_swait (bc_recv_exec s)"
    proof (cases "bc_recv s")
      case (RNotify ctx m i)
      show ?thesis
        by (rule bc_inv_swait_upd [OF s, of i])
          (use RNotify bc_inv_swaitD [OF s, of i] in \<open>auto simp: bc_recv_exec_def bc_rgoto_def bc_notify_def\<close>)
    next
      case (RDrainNotify g i)
      show ?thesis
        by (rule bc_inv_swait_upd [OF s, of i])
          (use RDrainNotify bc_inv_swaitD [OF s, of i] in \<open>auto simp: bc_recv_exec_def bc_rgoto_def bc_notify_def\<close>)
    qed (use s in \<open>auto simp: bc_inv_swait_def bc_recv_exec_def bc_rdefs' split: option.splits prod.splits\<close>)
    with bc_rrun show ?thesis by simp
  qed
qed

end
