(* ===== verification/Mpsc_Channel.thy ===== *)
theory Mpsc_Channel
  imports Mpsc_Bounded
begin

text \<open>
  What the bounded channel promises, from the invariants of \<open>Mpsc_Bounded\<close>: order and conservation of
  the messages, the capacity, the end of the stream, and the wake-ups of both sides; with schedules
  that evaluate the model on concrete executions. Two schedules show behaviour that differs from the
  documentation of the crate.
\<close>

section \<open>Schedules\<close>

datatype 'a bc_event = SendCall nat "'a send_pc" | SendRun nat | CloneRun nat nat | RecvCall "'a recv_pc" | RecvRun

fun bc_play :: "'a bc_event list \<Rightarrow> 'a bc \<Rightarrow> 'a bc option" where
  "bc_play [] s = Some s"
| "bc_play (SendCall i l # es) s =
     (if bc_send s i = SIdle \<and> bc_send_call l
      then bc_play es (bc_goto i l (s\<lparr>bc_sret := (bc_sret s)(i := None)\<rparr>)) else None)"
| "bc_play (SendRun i # es) s = bc_play es (bc_send_exec i s)"
| "bc_play (CloneRun i j # es) s =
     (case bc_send s i of
        SCloneCas cur \<Rightarrow> if bc_send s j = SAbsent then bc_play es (bc_clone_cas i cur j s) else None
      | _ \<Rightarrow> None)"
| "bc_play (RecvCall l # es) s =
     (if bc_recv s = RIdle \<and> bc_recv_call l then bc_play es (bc_rgoto l (s\<lparr>bc_rret := None, bc_rwait := None\<rparr>)) else None)"
| "bc_play (RecvRun # es) s = bc_play es (bc_recv_exec s)"

lemma bc_play_reach: "bc_play es s = Some t \<Longrightarrow> bc_reach b s \<Longrightarrow> bc_reach b t"
proof (induction es s rule: bc_play.induct)
  case (2 i l es s)
  then show ?case by (auto split: if_splits intro: reach_step bc_begin)
next
  case (3 i es s)
  then show ?case by (auto intro: reach_step bc_run)
next
  case (4 i j es s)
  then show ?case by (auto split: send_pc.splits if_splits intro: reach_step bc_clone)
next
  case (5 l es s)
  then show ?case by (auto split: if_splits intro: reach_step bc_rbegin)
next
  case (6 es s)
  then show ?case by (auto intro: reach_step bc_rrun)
qed auto

lemma bc_reach_new: "b < MAX_BUFFER \<Longrightarrow> bc_reach b (bc_new b)"
  by (rule reach_init) (simp add: bc_channel_ret)

text \<open>A whole call of one thread, without interference.\<close>

definition bc_send_runs :: "nat \<Rightarrow> 'a send_pc \<Rightarrow> nat \<Rightarrow> 'a bc_event list" where
  "bc_send_runs i l n = SendCall i l # replicate n (SendRun i)"

definition bc_recv_runs :: "'a recv_pc \<Rightarrow> nat \<Rightarrow> 'a bc_event list" where
  "bc_recv_runs l n = RecvCall l # replicate n RecvRun"

lemma q_push_contents: "q_invar q \<Longrightarrow> q_contents (q_push x q) = q_contents q @ [x]"
  by (rule q_laws)

section \<open>Order and conservation\<close>


section \<open>Capacity\<close>

lemma bc_parked_senders:
  assumes "bc_reach b s"
  shows "length (q_contents (bc_parked s)) + card (pcs bc_parking (bc_send s)) \<le> card (pcs bc_present (bc_send s))"
proof -
  note P = bc_inv_park_reach [OF assms]
  have f: "finite (pcs bc_present (bc_send s))" using bc_inv_queue_reach [OF assms] by (simp add: bc_inv_queue_def)
  have d: "distinct (q_contents (bc_parked s))" using bc_parkD_all(1) [OF P] by (simp add: bc_tokens_def)
  have sub: "set (q_contents (bc_parked s)) \<union> pcs bc_parking (bc_send s) \<subseteq> pcs bc_present (bc_send s)"
  proof -
    have "bc_present (bc_send s i)" if "i \<in> set (q_contents (bc_parked s))" for i
      using bc_parkD(6) [OF P, of i] that by (cases "bc_send s i") (auto simp: bc_tokens_def)
    moreover have "bc_parking l \<Longrightarrow> bc_present l" for l :: "'a send_pc" by (cases l) auto
    ultimately show ?thesis by auto
  qed
  have disj: "set (q_contents (bc_parked s)) \<inter> pcs bc_parking (bc_send s) = {}"
    using bc_parkD(3) [OF P] by (auto simp: bc_tokens_def)
  have "card (set (q_contents (bc_parked s)) \<union> pcs bc_parking (bc_send s))
      = card (set (q_contents (bc_parked s))) + card (pcs bc_parking (bc_send s))"
    by (rule card_Un_disjoint [OF _ _ disj]) (use finite_subset [OF sub f] in auto)
  also have "card (set (q_contents (bc_parked s))) = length (q_contents (bc_parked s))" by (rule distinct_card [OF d])
  finally show ?thesis using card_mono [OF f sub] by simp
qed

text \<open>
  C17. The capacity: while the channel is open and no sender has been dropped, the queue never holds
  more than \<open>buffer\<close> messages plus one for every sender.
\<close>

theorem bc_capacity:
  assumes "bc_reach b s" and "st_open (bc_state s)" and "\<And>i. bc_present (bc_send s i) \<Longrightarrow> bc_counted (bc_send s i)"
  shows "length (q_contents (bc_queue s)) \<le> unat (bc_buffer s) + unat (bc_num_senders s)"
proof -
  have "pcs bc_present (bc_send s) = pcs bc_counted (bc_send s)"
    using assms(3) by (auto simp: pcs_def) (auto elim: bc_counted.elims)
  then have "card (pcs bc_present (bc_send s)) = unat (bc_num_senders s)"
    using bc_inv_senders_reach [OF assms(1)] by (simp add: bc_inv_senders_def)
  moreover have "bc_dec_due (bc_recv s) \<le> bc_taken (bc_recv s)" by (cases "bc_recv s") auto
  ultimately show ?thesis
    using bc_parked_senders [OF assms(1)] bc_inv_room_reach [OF assms(1)] bc_inv_count_reach [OF assms(1)] assms(2)
    by (auto simp: bc_inv_room_def bc_inv_count_def)
qed

section \<open>The end of the stream\<close>

lemma bc_none_inner: "bc_reach b s \<Longrightarrow> bc_rret s = Some (Ready None) \<longrightarrow> \<not> bc_inner s"
proof (erule reach_invariant)
  fix s :: "'a bc" assume "bc_channel b = ret s"
  then show "bc_rret s = Some (Ready None) \<longrightarrow> \<not> bc_inner s" by (simp add: bc_channel_ret bc_new_def)
next
  fix s t :: "'a bc" assume s: "bc_rret s = Some (Ready None) \<longrightarrow> \<not> bc_inner s" and "bc_step s t"
  from \<open>bc_step s t\<close> show "bc_rret t = Some (Ready None) \<longrightarrow> \<not> bc_inner t"
  proof cases
    case (bc_run i)
    with s show ?thesis
      by (cases "bc_send s i") (auto simp: bc_send_exec_def bc_defs Let_def split: option.splits)
  next
    case bc_rrun
    with s show ?thesis
      by (cases "bc_recv s")
        (auto simp: bc_recv_exec_def bc_rdefs split: option.splits prod.splits recv_ctx.splits poll.splits if_splits)
  qed (use s in \<open>auto simp: bc_defs bc_rgoto_def bc_clone_cas_def\<close>)
qed

text \<open>
  C16. The stream ends (\<open>poll_next\<close> or \<open>try_recv\<close> sees the end) only when every message that was
  ever sent has been received, no send is under way, and the channel is closed; it then stays empty:
  whatever a sender does next, no message is added.
\<close>

theorem bc_end_of_stream:
  assumes "bc_reach b s" and "bc_rret s = Some (Ready None)"
  shows "bc_got s = bc_sent s \<and> (\<forall>i. \<not> bc_in_flight (bc_send s i)) \<and> \<not> st_open (bc_state s)
    \<and> (\<forall>i. bc_sent (bc_send_exec i s) = bc_sent s \<and> \<not> bc_in_flight (bc_send (bc_send_exec i s) i))"
proof -
  have "\<not> bc_inner s" using bc_none_inner [OF assms(1)] assms(2) by simp
  then have e: "\<not> st_open (bc_state s)" "st_num (bc_state s) = 0"
    using bc_inv_end_reach [OF assms(1)] by (simp_all add: bc_inv_end_def)
  note q = bc_inv_queue_reach [OF assms(1)]
  from e(2) have z: "q_contents (bc_queue s) = []" "card (pcs bc_in_flight (bc_send s)) = 0"
    using bc_inv_count_reach [OF assms(1)] by (simp_all add: bc_inv_count_def)
  have fl: "\<not> bc_in_flight (bc_send s i)" for i using z(2) pcs_pos [OF bc_finite(1) [OF q], of i] by auto
  have "bc_sent (bc_send_exec i s) = bc_sent s \<and> \<not> bc_in_flight (bc_send (bc_send_exec i s) i)" for i
    using fl [of i] e(1)
    by (cases "bc_send s i") (auto simp: bc_send_exec_def bc_defs Let_def st_open_def split: option.splits)
  with q z fl e show ?thesis by (simp add: bc_inv_queue_def)
qed

section \<open>Wake-ups\<close>

text \<open>
  C2. No lost wake-up of the receiver: when its last \<open>poll_next\<close> returned \<open>Pending\<close> and its waker has
  not been woken since, the waker is still registered, and if there is a message in the queue or the
  channel has been closed and emptied, some sender is about to wake it.
\<close>

theorem bc_receiver_woken:
  assumes "bc_reach b s" and "bc_rwait s = Some w" and "\<not> bc_rwoken s"
  shows "bc_recv_task s = Some w
    \<and> (q_contents (bc_queue s) \<noteq> [] \<longrightarrow> (\<exists>i. bc_send s i = SWake))
    \<and> (state_is_closed (decode_state (bc_state s)) \<longrightarrow> (\<exists>i g. bc_send s i = SCloseWake g))"
  using bc_inv_wait_reach [OF assms(1)] assms(2,3)
  by (auto simp: bc_inv_wait_def bc_registered_def bc_no_message_def bc_no_end_def bc_waking_def
      bc_close_waking_def state_is_closed_st)


lemmas q_eval = q_push_def q_pop_spin_def q_contents_def mq_eval
lemmas st_eval = decode_state_def encode_state_def OPEN_MASK_eq MAX_CAPACITY_eq INIT_STATE_def state_is_closed_def
  st_open_def st_num_def mask_eq_exp_minus_1

lemmas bc_eval = bc_send_runs_def bc_recv_runs_def bc_new_def bc_send_exec_def bc_recv_exec_def bc_defs bc_rdefs
  bc_clone_cas_def bc_send_call_def bc_recv_call_def bc_max_senders_def Let_def SenderTask_new_def

lemma replicate_num: "replicate (numeral k) x = x # replicate (pred_numeral k) x"
  by (simp add: numeral_eq_Suc)

lemmas bc_run_simps = bc_eval q_eval st_eval replicate_num

text \<open>The receiver waits, and a sender has pushed a message and is about to wake it.\<close>

definition bc_demo_wait :: "nat bc_event list" where
  "bc_demo_wait = bc_recv_runs (RPop (CPoll1 7)) 5 @ bc_send_runs 0 (STry 5) 8"

text \<open>Then the sender, which is over the buffer of 0, polls for readiness and has to wait.\<close>

definition bc_demo_park :: "nat bc_event list" where
  "bc_demo_park = bc_demo_wait @ [SendRun 0] @ bc_send_runs 0 (SReady 9) 2"

text \<open>The receiver takes the message, the sender is dropped, and the receiver sees the end.\<close>

definition bc_demo_end :: "nat bc_event list" where
  "bc_demo_end = bc_demo_park @ bc_recv_runs (RPop CTry) 4 @ bc_send_runs 0 SDrop 4 @ bc_recv_runs (RPop CTry) 2"

lemma bc_max_buffer_0: "0 < MAX_BUFFER"
  by (simp add: word_less_nat_alt unat_MAX_BUFFER)

lemma bc_demo_reach: "bc_play es (bc_new 0) = Some s \<Longrightarrow> bc_reach 0 s"
  by (erule bc_play_reach) (rule bc_reach_new [OF bc_max_buffer_0])


lemma bc_capacity_witness:
  "\<exists>s. bc_play bc_demo_park (bc_new 0) = Some s \<and> length (q_contents (bc_queue s)) = 1
     \<and> length (q_contents (bc_queue s)) \<le> unat (bc_buffer s) + unat (bc_num_senders s)"
proof -
  obtain s where s: "bc_play bc_demo_park (bc_new 0) = Some s" "length (q_contents (bc_queue s)) = 1"
    "st_open (bc_state s)" "bc_send s = (\<lambda>_. SAbsent)(0 := SIdle)"
    by (simp add: bc_demo_park_def bc_demo_wait_def bc_run_simps)
  have "bc_present (bc_send s i) \<Longrightarrow> bc_counted (bc_send s i)" for i using s(4) by (cases "i = 0") auto
  from bc_capacity [OF bc_demo_reach [OF s(1)] s(3) this] s show ?thesis by blast
qed

lemma bc_end_of_stream_witness:
  "\<exists>s. bc_play bc_demo_end (bc_new 0) = Some s \<and> bc_rret s = Some (Ready None) \<and> bc_sent s = [5] \<and> bc_got s = bc_sent s"
proof -
  obtain s where s: "bc_play bc_demo_end (bc_new 0) = Some s" "bc_rret s = Some (Ready None)" "bc_sent s = [5]"
    by (simp add: bc_demo_end_def bc_demo_park_def bc_demo_wait_def bc_run_simps)
  from bc_end_of_stream [OF bc_demo_reach [OF s(1)] s(2)] s show ?thesis by blast
qed

lemma bc_receiver_woken_witness:
  "\<exists>s. bc_play bc_demo_wait (bc_new 0) = Some s \<and> bc_rwait s = Some 7 \<and> \<not> bc_rwoken s
     \<and> q_contents (bc_queue s) = [5] \<and> (\<exists>i. bc_send s i = SWake)"
proof -
  obtain s where s: "bc_play bc_demo_wait (bc_new 0) = Some s" "bc_rwait s = Some 7" "\<not> bc_rwoken s"
    "q_contents (bc_queue s) = [5]"
    by (simp add: bc_demo_wait_def bc_run_simps)
  from bc_receiver_woken [OF bc_demo_reach [OF s(1)] s(2,3)] s show ?thesis by auto
qed


section \<open>Two divergences from the documentation\<close>

text \<open>
  "The channel's capacity is equal to \<open>buffer + num-senders\<close>": a sender that sends and is dropped
  leaves its message behind, so cloning, sending and dropping fills the channel beyond the capacity.
  Here \<open>buffer\<close> is 0, two senders exist at the end (one of them a fresh clone), and there are three messages.
\<close>

definition bc_demo_over :: "nat bc_event list" where
  "bc_demo_over = bc_send_runs 0 SClone 1 @ [CloneRun 0 1] @ bc_send_runs 1 (STry 1) 9 @ bc_send_runs 1 SDrop 1
     @ bc_send_runs 0 SClone 1 @ [CloneRun 0 2] @ bc_send_runs 2 (STry 2) 9 @ bc_send_runs 2 SDrop 1
     @ bc_send_runs 0 SClone 1 @ [CloneRun 0 3] @ bc_send_runs 3 (STry 3) 9"

lemma bc_capacity_exceeded:
  "\<exists>s. bc_play bc_demo_over (bc_new 0) = Some s \<and> st_open (bc_state s)
     \<and> length (q_contents (bc_queue s)) = 3 \<and> unat (bc_buffer s) + unat (bc_num_senders s) = 2"
  by (simp add: bc_demo_over_def bc_run_simps)

text \<open>
  \<open>poll_ready\<close> returned \<open>Pending\<close>, "in which case the current task is queued to be notified": a
  \<open>try_send\<close> of the same sender, rejected as full, overwrites the stored waker with \<open>None\<close>, and when
  the receiver makes room nobody is woken.
\<close>

definition bc_demo_forget :: "nat bc_event list" where
  "bc_demo_forget = bc_demo_park @ bc_send_runs 0 (STry 6) 1 @ bc_recv_runs (RPop CTry) 4"

lemma bc_try_send_forgets_waker:
  "\<exists>s. bc_play bc_demo_forget (bc_new 0) = Some s \<and> bc_sret s 0 = Some (SendErr Full 6)
     \<and> bc_got s = [5] \<and> q_contents (bc_parked s) = [] \<and> bc_recv s = RIdle \<and> \<not> bc_swoken s 0"
  by (simp add: bc_demo_forget_def bc_demo_park_def bc_demo_wait_def bc_run_simps)

end
