(* ===== verification/Oneshot.thy ===== *)
theory Oneshot
  imports Atomic_Waker "HOL-Library.Multiset"
begin

text \<open>
  The one-shot channel (\<open>futures-channel/src/oneshot.rs\<close>) on its \<open>try_lock\<close>-only lock
  (\<open>futures-channel/src/lock.rs\<close>): a transition system of two threads, the \<open>Sender\<close> and the
  \<open>Receiver\<close>, with one step for every access to the shared \<open>complete\<close> flag, for every \<open>try_lock\<close> and
  every release, and for every access to the data under a lock. The atomics are sequentially
  consistent (the code uses \<open>SeqCst\<close> everywhere), so a run is an interleaving of these steps.

  \<open>send\<close> consumes the sender, so its return is followed by \<open>drop_tx\<close>; \<open>poll_canceled\<close> and
  \<open>is_canceled\<close> may be called any number of times before. The receiver may be polled, asked
  (\<open>try_recv\<close>, \<open>is_terminated\<close>) and closed any number of times, and dropped once.
\<close>

section \<open>The lock\<close>

record 'a Lock =
  lk_locked :: bool
  lk_data :: 'a

definition lock_new :: "'a \<Rightarrow> 'a Lock" where
  "lock_new t = \<lparr>lk_locked = False, lk_data = t\<rparr>"

text \<open>\<open>try_lock\<close>: whether the swap found the lock free, and the lock after it.\<close>

definition lock_try :: "'a Lock \<Rightarrow> bool \<times> 'a Lock" where
  "lock_try l = (\<not> lk_locked l, l\<lparr>lk_locked := True\<rparr>)"

text \<open>\<open>TryLock::drop\<close>, and the two accesses through the sentinel.\<close>

definition lock_release :: "'a Lock \<Rightarrow> 'a Lock" where
  "lock_release l = l\<lparr>lk_locked := False\<rparr>"

definition lock_deref :: "'a Lock \<Rightarrow> 'a" where
  "lock_deref l = lk_data l"

definition lock_deref_mut :: "'a \<Rightarrow> 'a Lock \<Rightarrow> 'a Lock" where
  "lock_deref_mut x l = l\<lparr>lk_data := x\<rparr>"

lemmas lock_defs = lock_new_def lock_try_def lock_release_def lock_deref_def lock_deref_mut_def

section \<open>The channel\<close>

text \<open>Where the sender is: the access it performs next.\<close>

datatype 'a tx_pc =
    TIdle
  | TSendLoad 'a | TSendLock 'a | TSendStore 'a | TSendUnlock | TSendCheck | TSendRelock
  | TSendTake | TSendRelease "'a option"
  | TPollLoad waker | TPollLock waker | TPollStore waker | TPollUnlock waker | TPollCheck waker
  | TIsCanceled
  | TDropStore | TDropRxLock | TDropRxTake | TDropRxUnlock "waker option" | TDropWake waker
  | TDropTxLock | TDropTxTake | TDropTxUnlock
  | TGone | TCrash

text \<open>What the sender's last call returned.\<close>

datatype 'a tx_ret = SendOk | SendErr 'a | PollCanceled "unit poll" | IsCanceled bool

text \<open>\<open>recv\<close> and \<open>try_recv\<close> share their last part, \<open>close_rx\<close> and \<open>drop_rx\<close> too.\<close>

datatype 'a rx_pc =
    RIdle
  | RPollLoad waker | RPollLock waker | RPollStore waker | RPollUnlock waker | RPollCheck waker
  | RTryLoad | RDataLock bool | RDataTake bool | RDataUnlock bool "'a option"
  | RTermLoad | RTermLock | RTermRead | RTermUnlock bool
  | RCloseStore | RTxLock bool | RTxTake bool | RTxUnlock bool "waker option" | RTxWake bool waker
  | RDropStore | RDropLock | RDropTake | RDropUnlock
  | RGone

datatype 'a rx_ret = RecvPoll "'a option poll" | TryRecv "'a option option" | IsTerminated bool

text \<open>
  The shared state and the two threads, and history variables that no step reads: the message given
  to \<open>send\<close>, the messages delivered, whether the receiver has begun to close, and for each half the
  waker of its last \<open>Pending\<close> and whether it has been woken since.
\<close>

record 'a os =
  os_complete :: bool
  os_data :: "'a option Lock"
  os_rx_task :: "waker option Lock"
  os_tx_task :: "waker option Lock"
  os_tx :: "'a tx_pc"
  os_rx :: "'a rx_pc"
  os_tret :: "'a tx_ret option"
  os_rret :: "'a rx_ret option"
  os_sent :: "'a list"
  os_got :: "'a list"
  os_closed :: bool
  os_rwait :: "waker option"
  os_rwoken :: bool
  os_swait :: "waker option"
  os_swoken :: bool

text \<open>\<open>Inner::new\<close> and \<open>channel\<close>.\<close>

definition os_new :: "'a os" where
  "os_new = \<lparr>os_complete = False, os_data = lock_new None, os_rx_task = lock_new None,
     os_tx_task = lock_new None, os_tx = TIdle, os_rx = RIdle, os_tret = None, os_rret = None,
     os_sent = [], os_got = [], os_closed = False, os_rwait = None, os_rwoken = False,
     os_swait = None, os_swoken = False\<rparr>"

definition tx_goto :: "'a tx_pc \<Rightarrow> 'a os \<Rightarrow> 'a os" where
  "tx_goto l s = s\<lparr>os_tx := l\<rparr>"

definition rx_goto :: "'a rx_pc \<Rightarrow> 'a os \<Rightarrow> 'a os" where
  "rx_goto l s = s\<lparr>os_rx := l\<rparr>"

text \<open>A \<open>try_lock\<close> of one of the three locks, and what the code does when it succeeds and when it fails.\<close>

definition try_data :: "('a os \<Rightarrow> 'a os) \<Rightarrow> ('a os \<Rightarrow> 'a os) \<Rightarrow> 'a os \<Rightarrow> 'a os" where
  "try_data locked failed s =
     (if fst (lock_try (os_data s)) then locked (s\<lparr>os_data := snd (lock_try (os_data s))\<rparr>)
      else failed (s\<lparr>os_data := snd (lock_try (os_data s))\<rparr>))"

definition try_rx_task :: "('a os \<Rightarrow> 'a os) \<Rightarrow> ('a os \<Rightarrow> 'a os) \<Rightarrow> 'a os \<Rightarrow> 'a os" where
  "try_rx_task locked failed s =
     (if fst (lock_try (os_rx_task s)) then locked (s\<lparr>os_rx_task := snd (lock_try (os_rx_task s))\<rparr>)
      else failed (s\<lparr>os_rx_task := snd (lock_try (os_rx_task s))\<rparr>))"

definition try_tx_task :: "('a os \<Rightarrow> 'a os) \<Rightarrow> ('a os \<Rightarrow> 'a os) \<Rightarrow> 'a os \<Rightarrow> 'a os" where
  "try_tx_task locked failed s =
     (if fst (lock_try (os_tx_task s)) then locked (s\<lparr>os_tx_task := snd (lock_try (os_tx_task s))\<rparr>)
      else failed (s\<lparr>os_tx_task := snd (lock_try (os_tx_task s))\<rparr>))"

subsection \<open>The sender\<close>

text \<open>A returning \<open>send\<close> has consumed the sender: \<open>drop_tx\<close> follows.\<close>

definition send_ret :: "'a tx_ret \<Rightarrow> 'a os \<Rightarrow> 'a os" where
  "send_ret r s = s\<lparr>os_tret := Some r, os_tx := TDropStore\<rparr>"

text \<open>A returning \<open>poll_canceled\<close>; \<open>Pending\<close> leaves the task waiting.\<close>

definition canceled_ret :: "waker \<Rightarrow> unit poll \<Rightarrow> 'a os \<Rightarrow> 'a os" where
  "canceled_ret w r s = s\<lparr>os_tret := Some (PollCanceled r), os_tx := TIdle,
     os_swait := (if r = Pending then Some w else None), os_swoken := False\<rparr>"

fun os_send :: "'a tx_pc \<Rightarrow> 'a os \<Rightarrow> 'a os" where
  "os_send (TSendLoad t) s = (if os_complete s then send_ret (SendErr t) s else tx_goto (TSendLock t) s)"
| "os_send (TSendLock t) s = try_data (tx_goto (TSendStore t)) (send_ret (SendErr t)) s"
| "os_send (TSendStore t) s = (if lock_deref (os_data s) \<noteq> None then tx_goto TCrash s
       else tx_goto TSendUnlock (s\<lparr>os_data := lock_deref_mut (Some t) (os_data s)\<rparr>))"
| "os_send TSendUnlock s = tx_goto TSendCheck (s\<lparr>os_data := lock_release (os_data s)\<rparr>)"
| "os_send TSendCheck s = (if os_complete s then tx_goto TSendRelock s else send_ret SendOk s)"
| "os_send TSendRelock s = try_data (tx_goto TSendTake) (send_ret SendOk) s"
| "os_send TSendTake s = tx_goto (TSendRelease (lock_deref (os_data s)))
       (s\<lparr>os_data := lock_deref_mut None (os_data s)\<rparr>)"
| "os_send (TSendRelease o') s = send_ret (case o' of Some t \<Rightarrow> SendErr t | None \<Rightarrow> SendOk)
     (s\<lparr>os_data := lock_release (os_data s)\<rparr>)"
| "os_send _ s = s"

fun os_poll_canceled :: "'a tx_pc \<Rightarrow> 'a os \<Rightarrow> 'a os" where
  "os_poll_canceled (TPollLoad w) s = (if os_complete s then canceled_ret w (Ready ()) s else tx_goto (TPollLock w) s)"
| "os_poll_canceled (TPollLock w) s = try_tx_task (tx_goto (TPollStore w)) (canceled_ret w (Ready ())) s"
| "os_poll_canceled (TPollStore w) s = tx_goto (TPollUnlock w) (s\<lparr>os_tx_task := lock_deref_mut (Some w) (os_tx_task s)\<rparr>)"
| "os_poll_canceled (TPollUnlock w) s = tx_goto (TPollCheck w) (s\<lparr>os_tx_task := lock_release (os_tx_task s)\<rparr>)"
| "os_poll_canceled (TPollCheck w) s = canceled_ret w (if os_complete s then Ready () else Pending) s"
| "os_poll_canceled _ s = s"

definition os_is_canceled :: "'a os \<Rightarrow> 'a os" where
  "os_is_canceled s = s\<lparr>os_tret := Some (IsCanceled (os_complete s)), os_tx := TIdle\<rparr>"

fun os_drop_tx :: "'a tx_pc \<Rightarrow> 'a os \<Rightarrow> 'a os" where
  "os_drop_tx TDropStore s = tx_goto TDropRxLock (s\<lparr>os_complete := True\<rparr>)"
| "os_drop_tx TDropRxLock s = try_rx_task (tx_goto TDropRxTake) (tx_goto TDropTxLock) s"
| "os_drop_tx TDropRxTake s = tx_goto (TDropRxUnlock (lock_deref (os_rx_task s)))
       (s\<lparr>os_rx_task := lock_deref_mut None (os_rx_task s)\<rparr>)"
| "os_drop_tx (TDropRxUnlock o') s = tx_goto (case o' of Some w \<Rightarrow> TDropWake w | None \<Rightarrow> TDropTxLock)
       (s\<lparr>os_rx_task := lock_release (os_rx_task s)\<rparr>)"
| "os_drop_tx (TDropWake w) s = tx_goto TDropTxLock (s\<lparr>os_rwoken := os_rwoken s \<or> os_rwait s = Some w\<rparr>)"
| "os_drop_tx TDropTxLock s = try_tx_task (tx_goto TDropTxTake) (tx_goto TGone) s"
| "os_drop_tx TDropTxTake s = tx_goto TDropTxUnlock (s\<lparr>os_tx_task := lock_deref_mut None (os_tx_task s)\<rparr>)"
| "os_drop_tx TDropTxUnlock s = tx_goto TGone (s\<lparr>os_tx_task := lock_release (os_tx_task s)\<rparr>)"
| "os_drop_tx _ s = s"

text \<open>One step of the sender, by where it is.\<close>

definition os_tx_exec :: "'a os \<Rightarrow> 'a os" where
  "os_tx_exec s = (if os_tx s = TIsCanceled then os_is_canceled s
     else os_drop_tx (os_tx s) (os_poll_canceled (os_tx s) (os_send (os_tx s) s)))"

subsection \<open>The receiver\<close>

text \<open>
  Results of the last part of \<open>recv\<close> (\<open>poll = True\<close>) and of \<open>try_recv\<close>: \<open>Ok(data)\<close> is \<open>Some\<close>,
  \<open>Err(Canceled)\<close> is \<open>None\<close>.
\<close>

definition recv_ret :: "bool \<Rightarrow> 'a option \<Rightarrow> 'a os \<Rightarrow> 'a os" where
  "recv_ret poll r s = s\<lparr>os_rret := Some (if poll then RecvPoll (Ready r) else TryRecv (Some r)),
     os_got := os_got s @ (case r of Some t \<Rightarrow> [t] | None \<Rightarrow> []), os_rx := RIdle\<rparr>"

fun os_recv :: "'a rx_pc \<Rightarrow> 'a os \<Rightarrow> 'a os" where
  "os_recv (RPollLoad w) s = rx_goto (if os_complete s then RDataLock True else RPollLock w) s"
| "os_recv (RPollLock w) s = try_rx_task (rx_goto (RPollStore w)) (rx_goto (RDataLock True)) s"
| "os_recv (RPollStore w) s = rx_goto (RPollUnlock w) (s\<lparr>os_rx_task := lock_deref_mut (Some w) (os_rx_task s)\<rparr>)"
| "os_recv (RPollUnlock w) s = rx_goto (RPollCheck w) (s\<lparr>os_rx_task := lock_release (os_rx_task s)\<rparr>)"
| "os_recv (RPollCheck w) s = (if os_complete s then rx_goto (RDataLock True) s
       else s\<lparr>os_rret := Some (RecvPoll Pending), os_rx := RIdle, os_rwait := Some w, os_rwoken := False\<rparr>)"
| "os_recv _ s = s"

fun os_try_recv :: "'a rx_pc \<Rightarrow> 'a os \<Rightarrow> 'a os" where
  "os_try_recv RTryLoad s = (if os_complete s then rx_goto (RDataLock False) s
       else s\<lparr>os_rret := Some (TryRecv None), os_rx := RIdle\<rparr>)"
| "os_try_recv _ s = s"

text \<open>The part they share: look at the data.\<close>

fun os_take_data :: "'a rx_pc \<Rightarrow> 'a os \<Rightarrow> 'a os" where
  "os_take_data (RDataLock c) s = try_data (rx_goto (RDataTake c)) (recv_ret c None) s"
| "os_take_data (RDataTake c) s = rx_goto (RDataUnlock c (lock_deref (os_data s)))
       (s\<lparr>os_data := lock_deref_mut None (os_data s)\<rparr>)"
| "os_take_data (RDataUnlock c r) s = recv_ret c r (s\<lparr>os_data := lock_release (os_data s)\<rparr>)"
| "os_take_data _ s = s"

definition term_ret :: "bool \<Rightarrow> 'a os \<Rightarrow> 'a os" where
  "term_ret b s = s\<lparr>os_rret := Some (IsTerminated b), os_rx := RIdle\<rparr>"

fun os_is_terminated :: "'a rx_pc \<Rightarrow> 'a os \<Rightarrow> 'a os" where
  "os_is_terminated RTermLoad s = (if os_complete s then rx_goto RTermLock s else term_ret False s)"
| "os_is_terminated RTermLock s = try_data (rx_goto RTermRead) (term_ret True) s"
| "os_is_terminated RTermRead s = rx_goto (RTermUnlock (lock_deref (os_data s) = None)) s"
| "os_is_terminated (RTermUnlock b) s = term_ret b (s\<lparr>os_data := lock_release (os_data s)\<rparr>)"
| "os_is_terminated _ s = s"

text \<open>\<open>close_rx\<close>, and the end of \<open>drop_rx\<close>, which is the same (\<open>dropping = True\<close>).\<close>

definition rx_done :: "bool \<Rightarrow> 'a rx_pc" where
  "rx_done d = (if d then RGone else RIdle)"

fun os_close_rx :: "'a rx_pc \<Rightarrow> 'a os \<Rightarrow> 'a os" where
  "os_close_rx RCloseStore s = rx_goto (RTxLock False) (s\<lparr>os_complete := True, os_closed := True\<rparr>)"
| "os_close_rx (RTxLock d) s = try_tx_task (rx_goto (RTxTake d)) (rx_goto (rx_done d)) s"
| "os_close_rx (RTxTake d) s = rx_goto (RTxUnlock d (lock_deref (os_tx_task s)))
       (s\<lparr>os_tx_task := lock_deref_mut None (os_tx_task s)\<rparr>)"
| "os_close_rx (RTxUnlock d o') s = rx_goto (case o' of Some w \<Rightarrow> RTxWake d w | None \<Rightarrow> rx_done d)
       (s\<lparr>os_tx_task := lock_release (os_tx_task s)\<rparr>)"
| "os_close_rx (RTxWake d w) s = rx_goto (rx_done d) (s\<lparr>os_swoken := os_swoken s \<or> os_swait s = Some w\<rparr>)"
| "os_close_rx _ s = s"

fun os_drop_rx :: "'a rx_pc \<Rightarrow> 'a os \<Rightarrow> 'a os" where
  "os_drop_rx RDropStore s = rx_goto RDropLock (s\<lparr>os_complete := True, os_closed := True\<rparr>)"
| "os_drop_rx RDropLock s = try_rx_task (rx_goto RDropTake) (rx_goto (RTxLock True)) s"
| "os_drop_rx RDropTake s = rx_goto RDropUnlock (s\<lparr>os_rx_task := lock_deref_mut None (os_rx_task s)\<rparr>)"
| "os_drop_rx RDropUnlock s = rx_goto (RTxLock True) (s\<lparr>os_rx_task := lock_release (os_rx_task s)\<rparr>)"
| "os_drop_rx _ s = s"

fun rx_closing :: "'a rx_pc \<Rightarrow> bool" where
  "rx_closing RCloseStore = True"
| "rx_closing (RTxLock d) = True"
| "rx_closing (RTxTake d) = True"
| "rx_closing (RTxUnlock d x) = True"
| "rx_closing (RTxWake d w) = True"
| "rx_closing _ = False"

fun rx_taking :: "'a rx_pc \<Rightarrow> bool" where
  "rx_taking (RDataLock c) = True"
| "rx_taking (RDataTake c) = True"
| "rx_taking (RDataUnlock c x) = True"
| "rx_taking _ = False"

definition os_rx_exec :: "'a os \<Rightarrow> 'a os" where
  "os_rx_exec s = (let l = os_rx s in
     if rx_closing l then os_close_rx l s
     else if rx_taking l then os_take_data l s
     else os_drop_rx l (os_is_terminated l (os_try_recv l (os_recv l s))))"

subsection \<open>Calls, and the interleaving\<close>

text \<open>The calls an idle half may make, by the access they begin with.\<close>

fun tx_call :: "'a tx_pc \<Rightarrow> bool" where
  "tx_call (TSendLoad t) = True"
| "tx_call (TPollLoad w) = True"
| "tx_call TIsCanceled = True"
| "tx_call TDropStore = True"
| "tx_call _ = False"

fun rx_call :: "'a rx_pc \<Rightarrow> bool" where
  "rx_call (RPollLoad w) = True"
| "rx_call RTryLoad = True"
| "rx_call RTermLoad = True"
| "rx_call RCloseStore = True"
| "rx_call RDropStore = True"
| "rx_call _ = False"

text \<open>
  A call: \<open>send\<close> is given the message; a new \<open>poll\<close> replaces the waker to wake, and the wait ends
  when the half is given up.
\<close>

definition os_tx_begin :: "'a tx_pc \<Rightarrow> 'a os \<Rightarrow> 'a os" where
  "os_tx_begin l s = s\<lparr>os_tx := l, os_sent := (case l of TSendLoad t \<Rightarrow> os_sent s @ [t] | _ \<Rightarrow> os_sent s),
     os_swait := (if l = TIsCanceled then os_swait s else None)\<rparr>"

definition os_rx_begin :: "'a rx_pc \<Rightarrow> 'a os \<Rightarrow> 'a os" where
  "os_rx_begin l s = s\<lparr>os_rx := l,
     os_rwait := (case l of RPollLoad w \<Rightarrow> None | RDropStore \<Rightarrow> None | _ \<Rightarrow> os_rwait s)\<rparr>"

inductive os_step :: "'a os \<Rightarrow> 'a os \<Rightarrow> bool" where
  os_tx_calls: "os_tx s = TIdle \<Longrightarrow> tx_call l \<Longrightarrow> os_step s (os_tx_begin l s)"
| os_rx_calls: "os_rx s = RIdle \<Longrightarrow> rx_call l \<Longrightarrow> os_step s (os_rx_begin l s)"
| os_tx_runs: "os_tx s \<noteq> TIdle \<Longrightarrow> os_step s (os_tx_exec s)"
| os_rx_runs: "os_rx s \<noteq> RIdle \<Longrightarrow> os_step s (os_rx_exec s)"

abbreviation os_reach :: "'a os \<Rightarrow> bool" where
  "os_reach \<equiv> reach (\<lambda>s. s = os_new) os_step"

lemmas os_defs = os_tx_exec_def os_is_canceled_def os_rx_exec_def rx_done_def tx_goto_def rx_goto_def send_ret_def canceled_ret_def recv_ret_def term_ret_def
  os_tx_begin_def os_rx_begin_def try_data_def try_rx_task_def
  try_tx_task_def lock_defs

section \<open>Invariants\<close>

text \<open>Which half is inside the critical section of which lock.\<close>

fun tx_in_data :: "'a tx_pc \<Rightarrow> bool" where
  "tx_in_data (TSendStore t) = True"
| "tx_in_data TSendUnlock = True"
| "tx_in_data TSendTake = True"
| "tx_in_data (TSendRelease x) = True"
| "tx_in_data TCrash = True"
| "tx_in_data _ = False"

fun rx_in_data :: "'a rx_pc \<Rightarrow> bool" where
  "rx_in_data (RDataTake c) = True"
| "rx_in_data (RDataUnlock c x) = True"
| "rx_in_data RTermRead = True"
| "rx_in_data (RTermUnlock b) = True"
| "rx_in_data _ = False"

fun tx_in_rx_task :: "'a tx_pc \<Rightarrow> bool" where
  "tx_in_rx_task TDropRxTake = True"
| "tx_in_rx_task (TDropRxUnlock x) = True"
| "tx_in_rx_task _ = False"

fun rx_in_rx_task :: "'a rx_pc \<Rightarrow> bool" where
  "rx_in_rx_task (RPollStore w) = True"
| "rx_in_rx_task (RPollUnlock w) = True"
| "rx_in_rx_task RDropTake = True"
| "rx_in_rx_task RDropUnlock = True"
| "rx_in_rx_task _ = False"

fun tx_in_tx_task :: "'a tx_pc \<Rightarrow> bool" where
  "tx_in_tx_task (TPollStore w) = True"
| "tx_in_tx_task (TPollUnlock w) = True"
| "tx_in_tx_task TDropTxTake = True"
| "tx_in_tx_task TDropTxUnlock = True"
| "tx_in_tx_task _ = False"

fun rx_in_tx_task :: "'a rx_pc \<Rightarrow> bool" where
  "rx_in_tx_task (RTxTake d) = True"
| "rx_in_tx_task (RTxUnlock d x) = True"
| "rx_in_tx_task _ = False"

text \<open>A lock is held exactly while one of the halves, and not both, is inside.\<close>

definition lock_ok :: "bool \<Rightarrow> bool \<Rightarrow> 'b Lock \<Rightarrow> bool" where
  "lock_ok t r l \<longleftrightarrow> lk_locked l = (t \<or> r) \<and> \<not> (t \<and> r)"

definition os_inv_locks :: "'a os \<Rightarrow> bool" where
  "os_inv_locks s \<longleftrightarrow> lock_ok (tx_in_data (os_tx s)) (rx_in_data (os_rx s)) (os_data s)
     \<and> lock_ok (tx_in_rx_task (os_tx s)) (rx_in_rx_task (os_rx s)) (os_rx_task s)
     \<and> lock_ok (tx_in_tx_task (os_tx s)) (rx_in_tx_task (os_rx s)) (os_tx_task s)"

lemma os_inv_locks_tx: "os_inv_locks s \<Longrightarrow> os_inv_locks (os_tx_exec s)"
  by (cases "os_tx s"; auto simp: os_inv_locks_def lock_ok_def os_defs split: option.splits if_splits)

lemma os_inv_locks_rx: "os_inv_locks s \<Longrightarrow> os_inv_locks (os_rx_exec s)"
  by (cases "os_rx s"; auto simp: os_inv_locks_def lock_ok_def os_defs split: option.splits if_splits)

lemma os_inv_locks_step: "os_step s t \<Longrightarrow> os_inv_locks s \<Longrightarrow> os_inv_locks t"
proof (induction rule: os_step.induct)
  case (os_tx_calls s l)
  then show ?case by (cases l) (auto simp: os_inv_locks_def lock_ok_def os_tx_begin_def)
next
  case (os_rx_calls s l)
  then show ?case by (cases l) (auto simp: os_inv_locks_def lock_ok_def os_rx_begin_def)
qed (auto simp: os_inv_locks_tx os_inv_locks_rx)

lemma os_inv_locks_reach:
  assumes "os_reach s" shows "os_inv_locks s"
  by (rule reach_invariant [OF assms])
    (simp add: os_new_def os_inv_locks_def lock_ok_def lock_new_def, blast intro: os_inv_locks_step)

subsection \<open>Where the message is\<close>

text \<open>The sender has not called \<open>send\<close>; it has begun to drop; it has set the flag in \<open>drop_tx\<close>.\<close>

fun tx_before :: "'a tx_pc \<Rightarrow> bool" where
  "tx_before TIdle = True"
| "tx_before (TPollLoad w) = True"
| "tx_before (TPollLock w) = True"
| "tx_before (TPollStore w) = True"
| "tx_before (TPollUnlock w) = True"
| "tx_before (TPollCheck w) = True"
| "tx_before TIsCanceled = True"
| "tx_before _ = False"

fun tx_dropped :: "'a tx_pc \<Rightarrow> bool" where
  "tx_dropped TDropRxLock = True"
| "tx_dropped TDropRxTake = True"
| "tx_dropped (TDropRxUnlock x) = True"
| "tx_dropped (TDropWake w) = True"
| "tx_dropped TDropTxLock = True"
| "tx_dropped TDropTxTake = True"
| "tx_dropped TDropTxUnlock = True"
| "tx_dropped TGone = True"
| "tx_dropped _ = False"

text \<open>The message while it is a local of \<open>send\<close>, and after \<open>send\<close> gave it back.\<close>

fun tx_holds :: "'a tx_pc \<Rightarrow> 'a list" where
  "tx_holds (TSendLoad t) = [t]"
| "tx_holds (TSendLock t) = [t]"
| "tx_holds (TSendStore t) = [t]"
| "tx_holds (TSendRelease (Some t)) = [t]"
| "tx_holds _ = []"

fun tx_refused :: "'a tx_ret option \<Rightarrow> 'a list" where
  "tx_refused (Some (SendErr t)) = [t]"
| "tx_refused _ = []"

fun rx_holds :: "'a rx_pc \<Rightarrow> 'a list" where
  "rx_holds (RDataUnlock c (Some t)) = [t]"
| "rx_holds _ = []"

definition slot_list :: "'a option \<Rightarrow> 'a list" where
  "slot_list x = (case x of Some t \<Rightarrow> [t] | None \<Rightarrow> [])"

lemma slot_list_simps [simp]: "slot_list None = []" "slot_list (Some t) = [t]"
  by (simp_all add: slot_list_def)

text \<open>
  The message is in exactly one place: with the sender, back with its caller, in the slot, with the
  receiver, or delivered.
\<close>

lemma slot_list_Nil [simp]: "slot_list x = [] \<longleftrightarrow> x = None"
  by (simp add: slot_list_def split: option.split)

definition os_inv_msg :: "'a os \<Rightarrow> bool" where
  "os_inv_msg s \<longleftrightarrow> length (os_sent s) \<le> 1 \<and> (tx_before (os_tx s) \<longrightarrow> os_sent s = [])
     \<and> mset (tx_holds (os_tx s)) + mset (tx_refused (os_tret s)) + mset (slot_list (lk_data (os_data s)))
       + mset (rx_holds (os_rx s)) + mset (os_got s) = mset (os_sent s)
     \<and> (tx_refused (os_tret s) \<noteq> [] \<longrightarrow> os_tx s = TDropStore \<or> tx_dropped (os_tx s)) \<and> os_tx s \<noteq> TCrash"

lemma os_inv_msg_length:
  assumes "os_inv_msg s"
  shows "length (tx_holds (os_tx s)) + length (tx_refused (os_tret s)) + length (slot_list (lk_data (os_data s)))
    + length (rx_holds (os_rx s)) + length (os_got s) \<le> 1"
proof -
  have "size (mset (tx_holds (os_tx s)) + mset (tx_refused (os_tret s)) + mset (slot_list (lk_data (os_data s)))
       + mset (rx_holds (os_rx s)) + mset (os_got s)) \<le> 1"
    using assms by (simp only: os_inv_msg_def size_mset)
  then show ?thesis by simp
qed

lemma holds_slot_list [simp]: "tx_holds (TSendRelease x) = slot_list x" "rx_holds (RDataUnlock c x) = slot_list x"
  by (cases x; simp)+

lemma tx_refused_release [simp]:
  "tx_refused (Some (case x of None \<Rightarrow> SendOk | Some t \<Rightarrow> SendErr t)) = slot_list x"
  by (cases x) simp_all

lemma recv_ret_got: "(case r of Some t \<Rightarrow> [t] | None \<Rightarrow> []) = slot_list r"
  by (cases r) simp_all

lemma os_inv_msg_tx:
  assumes "os_inv_msg s" and "os_tx s \<noteq> TIdle"
  shows "os_inv_msg (os_tx_exec s)"
  using assms os_inv_msg_length [OF assms(1)]
  by (cases "os_tx s"; simp add: os_inv_msg_def os_defs ac_simps split: option.splits)

lemma os_inv_msg_rx:
  assumes "os_inv_msg s" and "os_rx s \<noteq> RIdle"
  shows "os_inv_msg (os_rx_exec s)"
  using assms by (cases "os_rx s"; simp add: os_inv_msg_def os_defs recv_ret_got ac_simps split: option.splits)

lemma os_inv_msg_step: "os_step s t \<Longrightarrow> os_inv_msg s \<Longrightarrow> os_inv_msg t"
proof (induction rule: os_step.induct)
  case (os_tx_calls s l)
  then show ?case by (cases l) (auto simp: os_inv_msg_def os_tx_begin_def)
next
  case (os_rx_calls s l)
  then show ?case by (cases l) (auto simp: os_inv_msg_def os_rx_begin_def)
qed (rule os_inv_msg_tx os_inv_msg_rx; assumption)+

lemma os_inv_msg_reach:
  assumes "os_reach s" shows "os_inv_msg s"
  by (rule reach_invariant [OF assms])
    (simp add: os_new_def os_inv_msg_def lock_new_def, blast intro: os_inv_msg_step)

subsection \<open>The flag\<close>

text \<open>Steps of the receiver that come after it has seen the flag set, or has set it.\<close>

fun rx_completed :: "'a rx_pc \<Rightarrow> bool" where
  "rx_completed (RDataLock c) = True"
| "rx_completed (RDataTake c) = True"
| "rx_completed (RDataUnlock c x) = True"
| "rx_completed RTermLock = True"
| "rx_completed RTermRead = True"
| "rx_completed (RTermUnlock b) = True"
| "rx_completed _ = False"

fun rx_shut :: "'a rx_pc \<Rightarrow> bool" where
  "rx_shut (RTxLock d) = True"
| "rx_shut (RTxTake d) = True"
| "rx_shut (RTxUnlock d x) = True"
| "rx_shut (RTxWake d w) = True"
| "rx_shut RDropLock = True"
| "rx_shut RDropTake = True"
| "rx_shut RDropUnlock = True"
| "rx_shut RGone = True"
| "rx_shut _ = False"

fun tx_interrupted :: "'a tx_pc \<Rightarrow> bool" where
  "tx_interrupted TSendRelock = True"
| "tx_interrupted TSendTake = True"
| "tx_interrupted (TSendRelease x) = True"
| "tx_interrupted _ = False"

definition rx_canceled :: "'a rx_ret option \<Rightarrow> bool" where
  "rx_canceled r \<longleftrightarrow> r = Some (RecvPoll (Ready None)) \<or> r = Some (TryRecv (Some None))"

lemma rx_canceled_simps [simp]:
  "\<not> rx_canceled None" "rx_canceled (Some (RecvPoll p)) \<longleftrightarrow> p = Ready None"
  "rx_canceled (Some (TryRecv q)) \<longleftrightarrow> q = Some None" "\<not> rx_canceled (Some (IsTerminated b))"
  by (auto simp: rx_canceled_def)

text \<open>
  The flag is set by whichever half goes first; while the receiver has not begun to close, it is set
  only by the dropping sender, and a send is never refused.
\<close>

definition os_inv_flag :: "'a os \<Rightarrow> bool" where
  "os_inv_flag s \<longleftrightarrow> os_complete s = (tx_dropped (os_tx s) \<or> os_closed s)
     \<and> (rx_completed (os_rx s) \<longrightarrow> os_complete s) \<and> (rx_shut (os_rx s) \<longrightarrow> os_closed s)
     \<and> (\<not> os_closed s \<longrightarrow> tx_refused (os_tret s) = [] \<and> \<not> tx_interrupted (os_tx s)
        \<and> (\<forall>c. os_rx s = RDataUnlock c None \<longrightarrow> lk_data (os_data s) = None)
        \<and> (rx_canceled (os_rret s) \<longrightarrow> os_complete s \<and> lk_data (os_data s) = None \<and> rx_holds (os_rx s) = []))"

lemma os_inv_flag_tx:
  assumes "os_inv_flag s" and "os_tx s \<noteq> TIdle" and "os_inv_locks s"
  shows "os_inv_flag (os_tx_exec s)"
  using assms
  by (cases "os_tx s"; simp add: os_inv_flag_def os_inv_locks_def lock_ok_def os_defs split: option.splits; (cases "os_rx s"; simp)?)

lemma os_inv_flag_rx:
  assumes "os_inv_flag s" and "os_rx s \<noteq> RIdle" and "os_inv_locks s"
  shows "os_inv_flag (os_rx_exec s)"
  using assms
  by (cases "os_rx s"; simp add: os_inv_flag_def os_inv_locks_def lock_ok_def os_defs split: option.splits; (cases "os_tx s"; simp)?)

lemma os_inv_flag_step: "os_step s t \<Longrightarrow> os_inv_locks s \<Longrightarrow> os_inv_flag s \<Longrightarrow> os_inv_flag t"
proof (induction rule: os_step.induct)
  case (os_tx_calls s l)
  then show ?case by (cases l) (auto simp: os_inv_flag_def os_tx_begin_def)
next
  case (os_rx_calls s l)
  then show ?case by (cases l) (auto simp: os_inv_flag_def os_rx_begin_def)
qed (rule os_inv_flag_tx os_inv_flag_rx; assumption)+

lemma os_inv_flag_reach:
  assumes "os_reach s" shows "os_inv_flag s"
  by (rule reach_invariant [OF assms])
    (simp add: os_new_def os_inv_flag_def lock_new_def, blast intro: os_inv_flag_step dest: os_inv_locks_reach)

subsection \<open>The waiting halves\<close>

text \<open>
  The receiver waits with waker \<open>w\<close>: it is in the slot and the sender has not looked at the slot yet,
  or the sender has taken it out and is about to wake it. While the receiver is still on its way to
  return \<open>Pending\<close>, the waker is in the slot or the flag is set.
\<close>

fun tx_will_take :: "'a tx_pc \<Rightarrow> bool" where
  "tx_will_take (TDropRxUnlock x) = False"
| "tx_will_take (TDropWake w) = False"
| "tx_will_take TDropTxLock = False"
| "tx_will_take TDropTxTake = False"
| "tx_will_take TDropTxUnlock = False"
| "tx_will_take TGone = False"
| "tx_will_take _ = True"

fun rx_waiting :: "'a rx_pc \<Rightarrow> bool" where
  "rx_waiting RIdle = True"
| "rx_waiting RTryLoad = True"
| "rx_waiting (RDataLock c) = True"
| "rx_waiting (RDataTake c) = True"
| "rx_waiting (RDataUnlock c x) = True"
| "rx_waiting RTermLoad = True"
| "rx_waiting RTermLock = True"
| "rx_waiting RTermRead = True"
| "rx_waiting (RTermUnlock b) = True"
| "rx_waiting RCloseStore = True"
| "rx_waiting (RTxLock d) = (\<not> d)"
| "rx_waiting (RTxTake d) = (\<not> d)"
| "rx_waiting (RTxUnlock d x) = (\<not> d)"
| "rx_waiting (RTxWake d w) = (\<not> d)"
| "rx_waiting _ = False"

definition os_inv_rwait :: "'a os \<Rightarrow> bool" where
  "os_inv_rwait s \<longleftrightarrow>
     (\<forall>w. os_rwait s = Some w \<longrightarrow> rx_waiting (os_rx s)
        \<and> (os_rwoken s \<or> tx_will_take (os_tx s) \<and> lk_data (os_rx_task s) = Some w
           \<or> os_tx s = TDropRxUnlock (Some w) \<or> os_tx s = TDropWake w))
     \<and> (\<forall>w. os_rx s = RPollUnlock w \<or> os_rx s = RPollCheck w \<longrightarrow> os_complete s \<or> lk_data (os_rx_task s) = Some w)"

lemma os_inv_rwait_tx:
  assumes "os_inv_rwait s" and "os_tx s \<noteq> TIdle" and "os_inv_locks s" and "os_inv_flag s"
  shows "os_inv_rwait (os_tx_exec s)"
  using assms
  by (cases "os_tx s"; simp add: os_inv_rwait_def os_inv_flag_def os_inv_locks_def lock_ok_def os_defs split: option.splits;
      (cases "os_rx s"; auto)?)

lemma os_inv_rwait_rx:
  assumes "os_inv_rwait s" and "os_rx s \<noteq> RIdle" and "os_inv_locks s" and "os_inv_flag s"
  shows "os_inv_rwait (os_rx_exec s)"
  using assms
  by (cases "os_rx s"; simp add: os_inv_rwait_def os_inv_flag_def os_inv_locks_def lock_ok_def os_defs split: option.splits;
      (cases "os_tx s"; auto)?)

lemma os_inv_rwait_step: "os_step s t \<Longrightarrow> os_inv_locks s \<Longrightarrow> os_inv_flag s \<Longrightarrow> os_inv_rwait s \<Longrightarrow> os_inv_rwait t"
proof (induction rule: os_step.induct)
  case (os_tx_calls s l)
  then show ?case by (cases l) (auto simp: os_inv_rwait_def os_tx_begin_def)
next
  case (os_rx_calls s l)
  then show ?case by (cases l) (auto simp: os_inv_rwait_def os_rx_begin_def)
qed (rule os_inv_rwait_tx os_inv_rwait_rx; assumption)+

lemma os_inv_rwait_reach:
  assumes "os_reach s" shows "os_inv_rwait s"
  by (rule reach_invariant [OF assms])
    (simp add: os_new_def os_inv_rwait_def, blast intro: os_inv_rwait_step dest: os_inv_locks_reach os_inv_flag_reach)

text \<open>The same for the sender, waiting in \<open>poll_canceled\<close> for the receiver to go away.\<close>

fun rx_will_take :: "'a rx_pc \<Rightarrow> bool" where
  "rx_will_take RDropLock = True"
| "rx_will_take RDropTake = True"
| "rx_will_take RDropUnlock = True"
| "rx_will_take (RTxLock d) = True"
| "rx_will_take (RTxTake d) = True"
| "rx_will_take _ = False"

fun rx_waking_tx :: "waker \<Rightarrow> 'a rx_pc \<Rightarrow> bool" where
  "rx_waking_tx w (RTxUnlock d x) = (x = Some w)"
| "rx_waking_tx w (RTxWake d v) = (v = w)"
| "rx_waking_tx w _ = False"

definition os_inv_swait :: "'a os \<Rightarrow> bool" where
  "os_inv_swait s \<longleftrightarrow>
     (\<forall>w. os_swait s = Some w \<longrightarrow> (os_tx s = TIdle \<or> os_tx s = TIsCanceled)
        \<and> (os_swoken s \<or> lk_data (os_tx_task s) = Some w \<and> (os_closed s \<longrightarrow> rx_will_take (os_rx s))
           \<or> rx_waking_tx w (os_rx s)))
     \<and> (\<forall>w. os_tx s = TPollUnlock w \<or> os_tx s = TPollCheck w \<longrightarrow> os_complete s \<or> lk_data (os_tx_task s) = Some w)"

lemma os_inv_swait_tx:
  assumes "os_inv_swait s" and "os_tx s \<noteq> TIdle" and "os_inv_locks s" and "os_inv_flag s"
  shows "os_inv_swait (os_tx_exec s)"
  using assms
  by (cases "os_tx s"; simp add: os_inv_swait_def os_inv_flag_def os_inv_locks_def lock_ok_def os_defs split: option.splits;
      (cases "os_rx s"; auto)?)

lemma os_inv_swait_rx:
  assumes "os_inv_swait s" and "os_rx s \<noteq> RIdle" and "os_inv_locks s" and "os_inv_flag s"
  shows "os_inv_swait (os_rx_exec s)"
  using assms
  by (cases "os_rx s"; simp add: os_inv_swait_def os_inv_flag_def os_inv_locks_def lock_ok_def os_defs split: option.splits;
      (cases "os_tx s"; auto)?)

lemma os_inv_swait_step: "os_step s t \<Longrightarrow> os_inv_locks s \<Longrightarrow> os_inv_flag s \<Longrightarrow> os_inv_swait s \<Longrightarrow> os_inv_swait t"
proof (induction rule: os_step.induct)
  case (os_tx_calls s l)
  then show ?case by (cases l) (auto simp: os_inv_swait_def os_tx_begin_def)
next
  case (os_rx_calls s l)
  then show ?case by (cases l) (auto simp: os_inv_swait_def os_inv_flag_def os_rx_begin_def)
qed (rule os_inv_swait_tx os_inv_swait_rx; assumption)+

lemma os_inv_swait_reach:
  assumes "os_reach s" shows "os_inv_swait s"
  by (rule reach_invariant [OF assms])
    (simp add: os_new_def os_inv_swait_def, blast intro: os_inv_swait_step dest: os_inv_locks_reach os_inv_flag_reach)

section \<open>Termination\<close>

text \<open>How many more steps the call in progress can take, at most.\<close>

fun tx_rank :: "'a tx_pc \<Rightarrow> nat" where
  "tx_rank (TSendLoad t) = 16" | "tx_rank (TSendLock t) = 15" | "tx_rank (TSendStore t) = 14"
| "tx_rank TSendUnlock = 13" | "tx_rank TSendCheck = 12" | "tx_rank TSendRelock = 11"
| "tx_rank TSendTake = 10" | "tx_rank (TSendRelease x) = 9"
| "tx_rank (TPollLoad w) = 5" | "tx_rank (TPollLock w) = 4" | "tx_rank (TPollStore w) = 3"
| "tx_rank (TPollUnlock w) = 2" | "tx_rank (TPollCheck w) = 1" | "tx_rank TIsCanceled = 1"
| "tx_rank TDropStore = 8" | "tx_rank TDropRxLock = 7" | "tx_rank TDropRxTake = 6" | "tx_rank (TDropRxUnlock x) = 5"
| "tx_rank (TDropWake w) = 4" | "tx_rank TDropTxLock = 3" | "tx_rank TDropTxTake = 2" | "tx_rank TDropTxUnlock = 1"
| "tx_rank TIdle = 0" | "tx_rank TGone = 0" | "tx_rank TCrash = 0"

fun rx_rank :: "'a rx_pc \<Rightarrow> nat" where
  "rx_rank (RPollLoad w) = 8" | "rx_rank (RPollLock w) = 7" | "rx_rank (RPollStore w) = 6"
| "rx_rank (RPollUnlock w) = 5" | "rx_rank (RPollCheck w) = 4"
| "rx_rank RTryLoad = 4" | "rx_rank (RDataLock c) = 3" | "rx_rank (RDataTake c) = 2" | "rx_rank (RDataUnlock c x) = 1"
| "rx_rank RTermLoad = 4" | "rx_rank RTermLock = 3" | "rx_rank RTermRead = 2" | "rx_rank (RTermUnlock b) = 1"
| "rx_rank RCloseStore = 5" | "rx_rank (RTxLock d) = 4" | "rx_rank (RTxTake d) = 3" | "rx_rank (RTxUnlock d x) = 2"
| "rx_rank (RTxWake d w) = 1"
| "rx_rank RDropStore = 8" | "rx_rank RDropLock = 7" | "rx_rank RDropTake = 6" | "rx_rank RDropUnlock = 5"
| "rx_rank RIdle = 0" | "rx_rank RGone = 0"

section \<open>Schedules\<close>

datatype 'a os_event = TxCall "'a tx_pc" | RxCall "'a rx_pc" | TxRun | RxRun

fun os_play :: "'a os_event list \<Rightarrow> 'a os \<Rightarrow> 'a os option" where
  "os_play [] s = Some s"
| "os_play (TxCall l # es) s = (if os_tx s = TIdle \<and> tx_call l then os_play es (os_tx_begin l s) else None)"
| "os_play (RxCall l # es) s = (if os_rx s = RIdle \<and> rx_call l then os_play es (os_rx_begin l s) else None)"
| "os_play (TxRun # es) s = (if os_tx s \<noteq> TIdle then os_play es (os_tx_exec s) else None)"
| "os_play (RxRun # es) s = (if os_rx s \<noteq> RIdle then os_play es (os_rx_exec s) else None)"

lemma os_play_reach: "os_play es s = Some t \<Longrightarrow> os_reach s \<Longrightarrow> os_reach t"
  by (induction es s rule: os_play.induct) (auto split: if_splits intro: reach_step os_step.intros)

lemma os_play_new: "os_play es os_new = Some t \<Longrightarrow> os_reach t"
  by (erule os_play_reach) (rule reach_init, rule refl)

definition tx_runs :: "'a tx_pc \<Rightarrow> nat \<Rightarrow> 'a os_event list" where
  "tx_runs l n = TxCall l # replicate n TxRun"

definition rx_runs :: "'a rx_pc \<Rightarrow> nat \<Rightarrow> 'a os_event list" where
  "rx_runs l n = RxCall l # replicate n RxRun"

text \<open>The receiver polls and waits, the sender sends and is dropped, the receiver polls again.\<close>

definition os_demo_send :: "nat os_event list" where
  "os_demo_send = rx_runs (RPollLoad 3) 5 @ tx_runs (TSendLoad 7) 13"

definition os_demo_recv :: "nat os_event list" where
  "os_demo_recv = os_demo_send @ rx_runs (RPollLoad 3) 4"

lemmas os_eval = os_demo_send_def os_demo_recv_def tx_runs_def rx_runs_def os_defs os_new_def numeral_eq_Suc

section \<open>Properties\<close>

text \<open>
  C30. The message is never duplicated, invented or lost: at most one is delivered, and only the one
  that was sent; when \<open>send\<close> has returned it to the caller it is never delivered; when the sender is
  gone without having got it back, it is in the slot, in the hands of the receiver, or delivered. The
  assertion of \<open>send\<close> that the slot is empty never fails.
\<close>

theorem os_message:
  assumes "os_reach s"
  shows "length (os_got s) \<le> 1 \<and> set (os_got s) \<subseteq> set (os_sent s) \<and> os_tx s \<noteq> TCrash
    \<and> (case os_tret s of
         Some (SendErr t) \<Rightarrow> os_sent s = [t] \<and> os_got s = [] \<and> lk_data (os_data s) = None \<and> rx_holds (os_rx s) = []
       | _ \<Rightarrow> os_tx s \<noteq> TGone \<or> mset (slot_list (lk_data (os_data s))) + mset (rx_holds (os_rx s)) + mset (os_got s) = mset (os_sent s))"
proof -
  note inv = os_inv_msg_reach [OF assms]
  note I = inv [unfolded os_inv_msg_def]
  have got: "mset (os_got s) \<subseteq># mset (os_sent s)" using I by (metis mset_subset_eq_add_right)
  then have "set (os_got s) \<subseteq> set (os_sent s)" by (metis set_mset_mset set_mset_mono)
  moreover have "length (os_got s) \<le> 1" using os_inv_msg_length [OF inv] by simp
  moreover have "os_sent s = [t] \<and> os_got s = [] \<and> lk_data (os_data s) = None \<and> rx_holds (os_rx s) = []"
    if "os_tret s = Some (SendErr t)" for t
    using os_inv_msg_length [OF inv] I by (simp add: that)
  moreover have "mset (slot_list (lk_data (os_data s))) + mset (rx_holds (os_rx s)) + mset (os_got s) = mset (os_sent s)"
    if "tx_refused (os_tret s) = []" "os_tx s = TGone" using I by (simp add: that)
  ultimately show ?thesis using I by (cases "os_tret s" rule: tx_refused.cases) auto
qed

lemma os_message_witness:
  "\<exists>s. os_play os_demo_recv os_new = Some s \<and> length (os_got s) \<le> 1 \<and> os_got s = [7] \<and> os_tx s = TGone"
proof -
  obtain s where s: "os_play os_demo_recv os_new = Some s" "os_got s = [7]" "os_tx s = TGone"
    by (simp add: os_eval)
  from os_message [OF os_play_new [OF s(1)]] s show ?thesis by blast
qed

text \<open>
  C31. Delivery: as long as the receiver has not begun to close or drop, \<open>send\<close> never gives the message
  back, and a \<open>poll\<close> or \<open>try_recv\<close> that answers \<open>Canceled\<close> means that the sender is being dropped and
  that everything that was sent has been delivered.
\<close>

theorem os_delivery:
  assumes "os_reach s" and "\<not> os_closed s"
  shows "(\<nexists>t. os_tret s = Some (SendErr t)) \<and> (\<not> rx_canceled (os_rret s) \<or> os_got s = os_sent s \<and> tx_dropped (os_tx s))"
proof -
  note inv = os_inv_msg_reach [OF assms(1)]
  note I = inv [unfolded os_inv_msg_def] and F = os_inv_flag_reach [OF assms(1), unfolded os_inv_flag_def]
  have "\<nexists>t. os_tret s = Some (SendErr t)" using F assms(2) by auto
  moreover have "os_got s = os_sent s \<and> tx_dropped (os_tx s)" if "rx_canceled (os_rret s)"
  proof -
    have d: "tx_dropped (os_tx s)" "lk_data (os_data s) = None" "rx_holds (os_rx s) = []" "tx_refused (os_tret s) = []"
      using F assms(2) that by auto
    from d(1) have "tx_holds (os_tx s) = []" by (cases "os_tx s") auto
    then have "mset (os_got s) = mset (os_sent s)" using I d by simp
    moreover from this have "length (os_got s) = length (os_sent s)" by (rule mset_eq_length)
    ultimately have "os_got s = os_sent s" using I by (cases "os_sent s"; cases "os_got s") auto
    with d(1) show ?thesis by simp
  qed
  ultimately show ?thesis by blast
qed

lemma os_delivery_witness:
  "\<exists>s. os_play (os_demo_recv @ rx_runs RTryLoad 4) os_new = Some s \<and> rx_canceled (os_rret s) \<and> os_got s = os_sent s"
proof -
  obtain s where s: "os_play (os_demo_recv @ rx_runs RTryLoad 4) os_new = Some s" "rx_canceled (os_rret s)" "\<not> os_closed s"
    by (simp add: os_eval)
  from os_delivery [OF os_play_new [OF s(1)] s(3)] s show ?thesis by blast
qed

text \<open>
  C32. No lost wake-up of the receiver: after a \<open>poll\<close> that returned \<open>Pending\<close> with waker \<open>w\<close>, either the
  task has been woken, or \<open>w\<close> is registered and the sender has not been dropped past the point where it
  looks for it, or the sender has taken \<open>w\<close> and is about to wake it. In particular the task has been
  woken once the sender is gone.
\<close>

theorem os_receiver_woken:
  assumes "os_reach s" and "os_rwait s = Some w" and "\<not> os_rwoken s"
  shows "os_tx s \<noteq> TGone
    \<and> (tx_will_take (os_tx s) \<and> lk_data (os_rx_task s) = Some w \<or> os_tx s = TDropRxUnlock (Some w) \<or> os_tx s = TDropWake w)"
  using os_inv_rwait_reach [OF assms(1)] assms(2,3) by (auto simp: os_inv_rwait_def)

lemma os_receiver_woken_witness:
  "\<exists>s :: nat os. os_play (rx_runs (RPollLoad 3) 5 @ tx_runs (TSendLoad 7) 8) os_new = Some s
     \<and> os_tx s = TDropRxUnlock (Some 3) \<and> os_tx s \<noteq> TGone"
proof -
  obtain s :: "nat os" where s: "os_play (rx_runs (RPollLoad 3) 5 @ tx_runs (TSendLoad 7) 8) os_new = Some s"
    "os_rwait s = Some 3" "\<not> os_rwoken s" "os_tx s = TDropRxUnlock (Some 3)"
    by (simp add: os_eval)
  from os_receiver_woken [OF os_play_new [OF s(1)] s(2,3)] s show ?thesis by blast
qed

text \<open>
  No lost wake-up of the sender: after a \<open>poll_canceled\<close> that returned \<open>Pending\<close> with waker \<open>w\<close>,
  either the task has been woken, or \<open>w\<close> is registered and the receiver, if it has begun to close or
  drop, has not looked for it yet, or the receiver is about to wake it. So it has been woken once the
  receiver is gone or its \<open>close\<close> has returned.
\<close>

theorem os_sender_woken:
  assumes "os_reach s" and "os_swait s = Some w" and "\<not> os_swoken s"
  shows "os_rx s \<noteq> RGone \<and> (os_closed s \<longrightarrow> os_rx s \<noteq> RIdle)
    \<and> (lk_data (os_tx_task s) = Some w \<or> rx_waking_tx w (os_rx s))"
proof -
  have "lk_data (os_tx_task s) = Some w \<and> (os_closed s \<longrightarrow> rx_will_take (os_rx s)) \<or> rx_waking_tx w (os_rx s)"
    using os_inv_swait_reach [OF assms(1)] assms(2,3) by (auto simp: os_inv_swait_def)
  moreover have "rx_shut (os_rx s) \<longrightarrow> os_closed s"
    using os_inv_flag_reach [OF assms(1)] by (auto simp: os_inv_flag_def)
  ultimately show ?thesis by auto
qed

lemma os_sender_woken_witness:
  "\<exists>s :: nat os. os_play (tx_runs (TPollLoad 4) 5 @ rx_runs RDropStore 4) os_new = Some s
     \<and> lk_data (os_tx_task s) = Some 4 \<and> os_closed s \<and> os_rx s \<noteq> RGone"
proof -
  obtain s :: "nat os" where s: "os_play (tx_runs (TPollLoad 4) 5 @ rx_runs RDropStore 4) os_new = Some s"
    "os_swait s = Some 4" "\<not> os_swoken s" "lk_data (os_tx_task s) = Some 4" "os_closed s"
    by (simp add: os_eval)
  from os_sender_woken [OF os_play_new [OF s(1)] s(2,3)] s show ?thesis by blast
qed

text \<open>
  C33. Every call of either half returns after a bounded number of its own steps, whatever the other
  half does (no operation waits or retries): each step lowers the rank, which is at most 16.
\<close>

theorem os_wait_free:
  shows "(tx_rank (os_tx s) = 0 \<or> tx_rank (os_tx (os_tx_exec s)) < tx_rank (os_tx s))
    \<and> (rx_rank (os_rx s) = 0 \<or> rx_rank (os_rx (os_rx_exec s)) < rx_rank (os_rx s))"
proof
  show "tx_rank (os_tx s) = 0 \<or> tx_rank (os_tx (os_tx_exec s)) < tx_rank (os_tx s)"
    by (cases "os_tx s") (simp_all add: os_defs split: option.splits)
  show "rx_rank (os_rx s) = 0 \<or> rx_rank (os_rx (os_rx_exec s)) < rx_rank (os_rx s)"
    by (cases "os_rx s") (simp_all add: os_defs split: option.splits)
qed

text \<open>
  The comment in \<open>send\<close> on its second \<open>try_lock\<close> says that when it fails the receiver is receiving the
  message. It may also be in \<open>is_terminated\<close>: here the receiver closes, is told \<open>Canceled\<close> by \<open>poll\<close>, and
  asks \<open>is_terminated\<close> while \<open>send\<close> looks at the lock. \<open>send\<close> answers \<open>Ok\<close>, the message stays in the slot,
  and \<open>is_terminated\<close> is false although the future has completed.
\<close>

definition os_demo_left :: "nat os_event list" where
  "os_demo_left = tx_runs (TSendLoad 7) 2 @ rx_runs RCloseStore 4 @ rx_runs (RPollLoad 3) 2 @ replicate 3 TxRun
     @ rx_runs RTermLoad 2 @ [TxRun, RxRun, RxRun]"

lemma os_send_ok_left:
  "\<exists>s. os_play os_demo_left os_new = Some s \<and> os_tret s = Some SendOk \<and> lk_data (os_data s) = Some 7 \<and> os_got s = []
     \<and> os_rret s = Some (IsTerminated False) \<and> os_rx s = RIdle"
  by (simp add: os_demo_left_def os_eval)

end
