(* ===== verification/Future_Combinators.thy ===== *)
theory Future_Combinators
  imports Poll_Core
begin

text \<open>
  The future combinators of \<open>futures-util/src/future\<close>: \<open>map\<close>, \<open>flatten\<close> (of a future and of a
  stream), \<open>fuse\<close>, \<open>option\<close>, \<open>lazy\<close>, \<open>poll_immediate\<close>, \<open>MaybeDone\<close>, \<open>join\<close>, \<open>join_all\<close>, \<open>select\<close>,
  \<open>select_all\<close> and their fallible versions \<open>TryMaybeDone\<close>, \<open>try_join\<close>, \<open>try_join_all\<close>, \<open>try_select\<close> and
  \<open>select_ok\<close>. \<open>Result<T, E>\<close> is the sum type \<open>'e + 'a\<close>, with \<open>Inl\<close> for \<open>Err\<close>.

  The lemmas say what each resolves to when the inner futures do, whatever the interleaving of their
  \<open>Pending\<close>s, and what becomes of the inner futures.
\<close>

text \<open>An \<open>FnOnce\<close> closure.\<close>

type_synonym ('c, 'a, 'b) fnonce = "'c \<Rightarrow> 'a \<Rightarrow> 'b comp"

section \<open>map, flatten, fuse, option, lazy, poll_immediate\<close>

datatype ('fut, 'c) MapFut = MapIncomplete 'fut 'c | MapComplete

definition map_fut_new :: "'fut \<Rightarrow> 'c \<Rightarrow> ('fut, 'c) MapFut" where
  "map_fut_new future f = MapIncomplete future f"

definition map_fut_is_terminated :: "('fut, 'c) MapFut \<Rightarrow> bool" where
  "map_fut_is_terminated this = (case this of MapIncomplete _ _ \<Rightarrow> False | MapComplete \<Rightarrow> True)"

definition map_fut_poll :: "('fut, 'a) pollfn \<Rightarrow> ('c, 'a, 'b) fnonce \<Rightarrow> (('fut, 'c) MapFut, 'b) pollfn" where
  "map_fut_poll poll call_once this =
     (case this of
        MapIncomplete future c \<Rightarrow>
          ready_poll (poll future) (\<lambda>future. MapIncomplete future c) (\<lambda>output this.
            case this of
              MapIncomplete _ f \<Rightarrow> bindc (call_once f output) (\<lambda>y. ret (Ready y, MapComplete))
            | MapComplete \<Rightarrow> panic ''internal error: entered unreachable code'')
      | MapComplete \<Rightarrow> panic ''Map must not be polled after it returned `Poll::Ready`'')"

datatype ('f1, 'f2) FlattenFut = FlattenFirst 'f1 | FlattenSecond 'f2 | FlattenEmpty

definition flatten_fut_new :: "'f1 \<Rightarrow> ('f1, 'f2) FlattenFut" where
  "flatten_fut_new future = FlattenFirst future"

definition flatten_fut_is_terminated :: "('f1, 'f2) FlattenFut \<Rightarrow> bool" where
  "flatten_fut_is_terminated this \<longleftrightarrow> (case this of FlattenEmpty \<Rightarrow> True | _ \<Rightarrow> False)"

partial_function (option) flatten_fut_poll ::
  "('f1, 'f2) pollfn \<Rightarrow> ('f2, 'a) pollfn \<Rightarrow> ('f1, 'f2) FlattenFut \<Rightarrow> ('a poll \<times> ('f1, 'f2) FlattenFut) comp" where
  "flatten_fut_poll poll1 poll2 this =
     (case this of
        FlattenFirst f \<Rightarrow>
          ready_poll (poll1 f) FlattenFirst (\<lambda>f this. flatten_fut_poll poll1 poll2 (FlattenSecond f))
      | FlattenSecond f \<Rightarrow>
          ready_poll (poll2 f) FlattenSecond (\<lambda>output this. ret (Ready output, FlattenEmpty))
      | FlattenEmpty \<Rightarrow> panic ''Flatten polled after completion'')"

partial_function (option) flatten_fut_poll_next ::
  "('f1, 'f2) pollfn \<Rightarrow> ('f2, 'a option) pollfn \<Rightarrow> ('f1, 'f2) FlattenFut \<Rightarrow> ('a option poll \<times> ('f1, 'f2) FlattenFut) comp" where
  "flatten_fut_poll_next poll1 poll_next2 this =
     (case this of
        FlattenFirst f \<Rightarrow>
          ready_poll (poll1 f) FlattenFirst (\<lambda>f this. flatten_fut_poll_next poll1 poll_next2 (FlattenSecond f))
      | FlattenSecond f \<Rightarrow>
          ready_poll (poll_next2 f) FlattenSecond (\<lambda>output this.
            ret (Ready output, if output = None then FlattenEmpty else this))
      | FlattenEmpty \<Rightarrow> ret (Ready None, FlattenEmpty))"

record 'fut FuseFut =
  ff_inner :: "'fut option"

definition fuse_fut_new :: "'fut \<Rightarrow> 'fut FuseFut" where
  "fuse_fut_new f = \<lparr>ff_inner = Some f\<rparr>"

definition fuse_fut_terminated :: "'fut FuseFut" where
  "fuse_fut_terminated = \<lparr>ff_inner = None\<rparr>"

definition fuse_fut_is_terminated :: "'fut FuseFut \<Rightarrow> bool" where
  "fuse_fut_is_terminated this \<longleftrightarrow> ff_inner this = None"

definition fuse_fut_poll :: "('fut, 'a) pollfn \<Rightarrow> ('fut FuseFut, 'a) pollfn" where
  "fuse_fut_poll poll this =
     (case ff_inner this of
        Some fut \<Rightarrow> ready_poll (poll fut) (\<lambda>fut. this\<lparr>ff_inner := Some fut\<rparr>) (\<lambda>output this.
          ret (Ready output, this\<lparr>ff_inner := None\<rparr>))
      | None \<Rightarrow> ret (Pending, this))"

record 'fut OptionFuture =
  of_inner :: "'fut option"

definition option_future_from :: "'fut option \<Rightarrow> 'fut OptionFuture" where
  "option_future_from option = \<lparr>of_inner = option\<rparr>"

definition option_future_poll :: "('fut, 'a) pollfn \<Rightarrow> ('fut OptionFuture, 'a option) pollfn" where
  "option_future_poll poll this =
     (case of_inner this of
        Some x \<Rightarrow> ready_poll (poll x) (\<lambda>x. this\<lparr>of_inner := Some x\<rparr>) (\<lambda>output this. ret (Ready (Some output), this))
      | None \<Rightarrow> ret (Ready None, this))"

definition option_future_is_terminated :: "('fut \<Rightarrow> bool) \<Rightarrow> 'fut OptionFuture \<Rightarrow> bool" where
  "option_future_is_terminated is_terminated this =
     (case of_inner this of Some x \<Rightarrow> is_terminated x | None \<Rightarrow> True)"

record 'c Lazy =
  lazy_f :: "'c option"

definition lazy_new :: "'c \<Rightarrow> 'c Lazy" where
  "lazy_new f = \<lparr>lazy_f = Some f\<rparr>"

definition lazy_is_terminated :: "'c Lazy \<Rightarrow> bool" where
  "lazy_is_terminated this \<longleftrightarrow> lazy_f this = None"

definition lazy_poll :: "('c, unit, 'a) fnonce \<Rightarrow> ('c Lazy, 'a) pollfn" where
  "lazy_poll call_once this =
     (case lazy_f this of
        Some f \<Rightarrow> bindc (call_once f ()) (\<lambda>x. ret (Ready x, this\<lparr>lazy_f := None\<rparr>))
      | None \<Rightarrow> panic ''Lazy polled after completion'')"

record 'fut PollImmediate =
  pim_future :: "'fut option"

definition poll_immediate_new :: "'fut \<Rightarrow> 'fut PollImmediate" where
  "poll_immediate_new f = \<lparr>pim_future = Some f\<rparr>"

definition poll_immediate_is_terminated :: "'fut PollImmediate \<Rightarrow> bool" where
  "poll_immediate_is_terminated this \<longleftrightarrow> pim_future this = None"

definition poll_immediate_poll :: "('fut, 'a) pollfn \<Rightarrow> ('fut PollImmediate, 'a option) pollfn" where
  "poll_immediate_poll poll this =
     (case pim_future this of
        None \<Rightarrow> panic ''PollImmediate polled after completion''
      | Some inner \<Rightarrow> poll_with (poll inner) (\<lambda>inner. this\<lparr>pim_future := Some inner\<rparr>) (\<lambda>r this.
          case r of
            Ready t \<Rightarrow> ret (Ready (Some t), this\<lparr>pim_future := None\<rparr>)
          | Pending \<Rightarrow> ret (Ready None, this)))"

definition poll_immediate_poll_next :: "('fut, 'a) pollfn \<Rightarrow> ('fut PollImmediate, 'a poll option) pollfn" where
  "poll_immediate_poll_next poll this =
     (case pim_future this of
        None \<Rightarrow> ret (Ready None, this)
      | Some fut \<Rightarrow> poll_with (poll fut) (\<lambda>fut. this\<lparr>pim_future := Some fut\<rparr>) (\<lambda>r this.
          ret (Ready (Some r), case r of Ready _ \<Rightarrow> this\<lparr>pim_future := None\<rparr> | Pending \<Rightarrow> this)))"

section \<open>MaybeDone, join and join_all\<close>

datatype ('fut, 'a) MaybeDone = MdFuture 'fut | MdDone 'a | MdGone

definition maybe_done :: "'fut \<Rightarrow> ('fut, 'a) MaybeDone" where
  "maybe_done future = MdFuture future"

definition maybe_done_take_output :: "('fut, 'a) MaybeDone \<Rightarrow> 'a option \<times> ('fut, 'a) MaybeDone" where
  "maybe_done_take_output this =
     (case this of MdDone output \<Rightarrow> (Some output, MdGone) | _ \<Rightarrow> (None, this))"

definition maybe_done_is_terminated :: "('fut, 'a) MaybeDone \<Rightarrow> bool" where
  "maybe_done_is_terminated this = (case this of MdFuture _ \<Rightarrow> False | _ \<Rightarrow> True)"

definition maybe_done_poll :: "('fut, 'a) pollfn \<Rightarrow> (('fut, 'a) MaybeDone, unit) pollfn" where
  "maybe_done_poll poll this =
     (case this of
        MdFuture f \<Rightarrow> ready_poll (poll f) MdFuture (\<lambda>res this. ret (Ready (), MdDone res))
      | MdDone _ \<Rightarrow> ret (Ready (), this)
      | MdGone \<Rightarrow> panic ''MaybeDone polled after value taken'')"

record ('f1, 'a, 'f2, 'b) Join =
  jn_fut1 :: "('f1, 'a) MaybeDone"
  jn_fut2 :: "('f2, 'b) MaybeDone"

definition join_new :: "'f1 \<Rightarrow> 'f2 \<Rightarrow> ('f1, 'a, 'f2, 'b) Join" where
  "join_new fut1 fut2 = \<lparr>jn_fut1 = maybe_done fut1, jn_fut2 = maybe_done fut2\<rparr>"

text \<open>\<open>Option::unwrap\<close>.\<close>

definition unwrap :: "'a option \<Rightarrow> 'a comp" where
  "unwrap x = (case x of Some y \<Rightarrow> ret y | None \<Rightarrow> panic ''called `Option::unwrap()` on a `None` value'')"

definition is_ready :: "'a poll \<Rightarrow> bool" where
  "is_ready p = (case p of Ready _ \<Rightarrow> True | Pending \<Rightarrow> False)"

definition join_poll :: "('f1, 'a) pollfn \<Rightarrow> ('f2, 'b) pollfn \<Rightarrow> (('f1, 'a, 'f2, 'b) Join, 'a \<times> 'b) pollfn" where
  "join_poll poll1 poll2 this =
     poll_with (maybe_done_poll poll1 (jn_fut1 this)) (\<lambda>f. this\<lparr>jn_fut1 := f\<rparr>) (\<lambda>r1 this.
     poll_with (maybe_done_poll poll2 (jn_fut2 this)) (\<lambda>f. this\<lparr>jn_fut2 := f\<rparr>) (\<lambda>r2 this.
       if is_ready r1 \<and> is_ready r2 then
         (let (x, f1) = maybe_done_take_output (jn_fut1 this);
              (y, f2) = maybe_done_take_output (jn_fut2 this);
              this = this\<lparr>jn_fut1 := f1, jn_fut2 := f2\<rparr>
          in bindc (unwrap x) (\<lambda>x. bindc (unwrap y) (\<lambda>y. ret (Ready (x, y), this))))
       else ret (Pending, this)))"

definition join_is_terminated :: "('f1, 'a, 'f2, 'b) Join \<Rightarrow> bool" where
  "join_is_terminated this \<longleftrightarrow> maybe_done_is_terminated (jn_fut1 this) \<and> maybe_done_is_terminated (jn_fut2 this)"


text \<open>
  \<open>join_all\<close> keeps up to \<open>SMALL\<close> futures in a slice and polls them all each time; a longer (or unbounded)
  iterator goes into the \<open>Collect\<close> of a \<open>FuturesOrdered\<close>, here the component \<open>'big\<close>.
\<close>

definition SMALL :: usize where
  "SMALL = 30"

datatype ('fut, 'a, 'big) JoinAllKind = JoinSmall "('fut, 'a) MaybeDone list" | JoinBig 'big

definition join_all :: "('fut list \<Rightarrow> 'big) \<Rightarrow> usize option \<Rightarrow> 'fut list \<Rightarrow> ('fut, 'a, 'big) JoinAllKind" where
  "join_all collect_ordered upper items =
     (case upper of
        Some most \<Rightarrow> if most \<le> SMALL then JoinSmall (map MdFuture items) else JoinBig (collect_ordered items)
      | None \<Rightarrow> JoinBig (collect_ordered items))"

fun join_all_poll_elems ::
  "('fut, 'a) pollfn \<Rightarrow> ('fut, 'a) MaybeDone list \<Rightarrow> (bool \<times> ('fut, 'a) MaybeDone list) comp" where
  "join_all_poll_elems poll [] = ret (True, [])"
| "join_all_poll_elems poll (elem # elems) =
     bindc (maybe_done_poll poll elem) (\<lambda>(r, elem).
     bindc (join_all_poll_elems poll elems) (\<lambda>(all_done, elems).
       ret (is_ready r \<and> all_done, elem # elems)))"

fun take_outputs :: "('fut, 'a) MaybeDone list \<Rightarrow> 'a list comp" where
  "take_outputs [] = ret []"
| "take_outputs (e # es) =
     bindc (unwrap (fst (maybe_done_take_output e))) (\<lambda>x. bindc (take_outputs es) (\<lambda>xs. ret (x # xs)))"

definition join_all_poll ::
  "('fut, 'a) pollfn \<Rightarrow> ('big, 'a list) pollfn \<Rightarrow> (('fut, 'a, 'big) JoinAllKind, 'a list) pollfn" where
  "join_all_poll poll poll_big this =
     (case this of
        JoinSmall elems \<Rightarrow>
          bindc (join_all_poll_elems poll elems) (\<lambda>(all_done, elems).
            if all_done then bindc (take_outputs elems) (\<lambda>result. ret (Ready result, JoinSmall []))
            else ret (Pending, JoinSmall elems))
      | JoinBig fut \<Rightarrow> poll_with (poll_big fut) JoinBig (\<lambda>r this. ret (r, this)))"

section \<open>select, select_all and select_ok\<close>

datatype ('l, 'r) Either = Left 'l | Right 'r

record ('f1, 'f2) SelectFut =
  sel_inner :: "('f1 \<times> 'f2) option"

definition select_fut :: "'f1 \<Rightarrow> 'f2 \<Rightarrow> ('f1, 'f2) SelectFut" where
  "select_fut future1 future2 = \<lparr>sel_inner = Some (future1, future2)\<rparr>"

definition select_fut_is_terminated :: "('f1, 'f2) SelectFut \<Rightarrow> bool" where
  "select_fut_is_terminated this \<longleftrightarrow> sel_inner this = None"

definition select_fut_poll ::
  "('f1, 'a) pollfn \<Rightarrow> ('f2, 'b) pollfn \<Rightarrow> (('f1, 'f2) SelectFut, ('a \<times> 'f2, 'b \<times> 'f1) Either) pollfn" where
  "select_fut_poll poll1 poll2 this =
     (case sel_inner this of
        None \<Rightarrow> panic ''cannot poll Select twice''
      | Some (a, b) \<Rightarrow>
          bindc (poll1 a) (\<lambda>(r, a). case r of
            Ready val \<Rightarrow> ret (Ready (Left (val, b)), this\<lparr>sel_inner := None\<rparr>)
          | Pending \<Rightarrow>
              bindc (poll2 b) (\<lambda>(r, b). case r of
                Ready val \<Rightarrow> ret (Ready (Right (val, a)), this\<lparr>sel_inner := None\<rparr>)
              | Pending \<Rightarrow> ret (Pending, this\<lparr>sel_inner := Some (a, b)\<rparr>))))"

text \<open>\<open>iter_mut().enumerate().find_map(..)\<close>: polls in order up to the first future that is ready.\<close>

fun find_ready :: "('fut, 'a) pollfn \<Rightarrow> nat \<Rightarrow> 'fut list \<Rightarrow> ((nat \<times> 'a) option \<times> 'fut list) comp" where
  "find_ready poll i [] = ret (None, [])"
| "find_ready poll i (f # fs) =
     bindc (poll f) (\<lambda>(r, f). case r of
       Ready e \<Rightarrow> ret (Some (i, e), f # fs)
     | Pending \<Rightarrow> bindc (find_ready poll (Suc i) fs) (\<lambda>(item, fs). ret (item, f # fs)))"

text \<open>\<open>Vec::swap_remove\<close> and \<open>Vec::remove\<close>.\<close>

definition swap_remove :: "nat \<Rightarrow> 'a list \<Rightarrow> 'a list comp" where
  "swap_remove i xs =
     (if i < length xs then ret (butlast (xs[i := last xs])) else panic ''swap_remove index out of bounds'')"


record 'fut SelectAll =
  sa_inner :: "'fut list"

definition select_all_new :: "'fut list \<Rightarrow> 'fut SelectAll comp" where
  "select_all_new items = assertc (items \<noteq> []) ''assertion failed: !ret.inner.is_empty()'' (ret \<lparr>sa_inner = items\<rparr>)"

definition select_all_poll :: "('fut, 'a) pollfn \<Rightarrow> ('fut SelectAll, 'a \<times> nat \<times> 'fut list) pollfn" where
  "select_all_poll poll this =
     bindc (find_ready poll 0 (sa_inner this)) (\<lambda>(item, inner).
       case item of
         Some (idx, res) \<Rightarrow>
           bindc (swap_remove idx inner) (\<lambda>rest. ret (Ready (res, idx, rest), this\<lparr>sa_inner := []\<rparr>))
       | None \<Rightarrow> ret (Pending, this\<lparr>sa_inner := inner\<rparr>))"

record 'fut SelectOk =
  so_inner :: "'fut list"

definition select_ok_new :: "'fut list \<Rightarrow> 'fut SelectOk comp" where
  "select_ok_new items = assertc (items \<noteq> []) ''iterator provided to select_ok was empty'' (ret \<lparr>so_inner = items\<rparr>)"


section \<open>The fallible versions\<close>

datatype ('fut, 'a) TryMaybeDone = TmdFuture 'fut | TmdDone 'a | TmdGone

definition try_maybe_done :: "'fut \<Rightarrow> ('fut, 'a) TryMaybeDone" where
  "try_maybe_done future = TmdFuture future"

definition try_maybe_done_take_output :: "('fut, 'a) TryMaybeDone \<Rightarrow> 'a option \<times> ('fut, 'a) TryMaybeDone" where
  "try_maybe_done_take_output this =
     (case this of TmdDone output \<Rightarrow> (Some output, TmdGone) | _ \<Rightarrow> (None, this))"

definition try_maybe_done_is_terminated :: "('fut, 'a) TryMaybeDone \<Rightarrow> bool" where
  "try_maybe_done_is_terminated this = (case this of TmdFuture _ \<Rightarrow> False | _ \<Rightarrow> True)"

definition try_maybe_done_poll :: "('fut, 'e + 'a) pollfn \<Rightarrow> (('fut, 'a) TryMaybeDone, 'e + unit) pollfn" where
  "try_maybe_done_poll poll this =
     (case this of
        TmdFuture f \<Rightarrow> ready_poll (poll f) TmdFuture (\<lambda>r this. case r of
            Inr res \<Rightarrow> ret (Ready (Inr ()), TmdDone res)
          | Inl e \<Rightarrow> ret (Ready (Inl e), TmdGone))
      | TmdDone _ \<Rightarrow> ret (Ready (Inr ()), this)
      | TmdGone \<Rightarrow> panic ''TryMaybeDone polled after value taken'')"

record ('f1, 'a, 'f2, 'b) TryJoin =
  tj_fut1 :: "('f1, 'a) TryMaybeDone"
  tj_fut2 :: "('f2, 'b) TryMaybeDone"

definition try_join_new :: "'f1 \<Rightarrow> 'f2 \<Rightarrow> ('f1, 'a, 'f2, 'b) TryJoin" where
  "try_join_new fut1 fut2 = \<lparr>tj_fut1 = try_maybe_done fut1, tj_fut2 = try_maybe_done fut2\<rparr>"

text \<open>The operator \<open>?\<close> on a \<open>Poll<Result<T, E>>\<close> returns \<open>Ready(Err(e))\<close> and goes on otherwise.\<close>

definition try_join_poll ::
  "('f1, 'e + 'a) pollfn \<Rightarrow> ('f2, 'e + 'b) pollfn \<Rightarrow> (('f1, 'a, 'f2, 'b) TryJoin, 'e + 'a \<times> 'b) pollfn" where
  "try_join_poll poll1 poll2 this =
     poll_with (try_maybe_done_poll poll1 (tj_fut1 this)) (\<lambda>f. this\<lparr>tj_fut1 := f\<rparr>) (\<lambda>r1 this.
       case r1 of Ready (Inl e) \<Rightarrow> ret (Ready (Inl e), this) | _ \<Rightarrow>
     poll_with (try_maybe_done_poll poll2 (tj_fut2 this)) (\<lambda>f. this\<lparr>tj_fut2 := f\<rparr>) (\<lambda>r2 this.
       case r2 of Ready (Inl e) \<Rightarrow> ret (Ready (Inl e), this) | _ \<Rightarrow>
       if is_ready r1 \<and> is_ready r2 then
         (let (x, f1) = try_maybe_done_take_output (tj_fut1 this);
              (y, f2) = try_maybe_done_take_output (tj_fut2 this);
              this = this\<lparr>tj_fut1 := f1, tj_fut2 := f2\<rparr>
          in bindc (unwrap x) (\<lambda>x. bindc (unwrap y) (\<lambda>y. ret (Ready (Inr (x, y)), this))))
       else ret (Pending, this)))"







record ('f1, 'f2) TrySelect =
  tsel_inner :: "('f1 \<times> 'f2) option"

definition try_select :: "'f1 \<Rightarrow> 'f2 \<Rightarrow> ('f1, 'f2) TrySelect" where
  "try_select future1 future2 = \<lparr>tsel_inner = Some (future1, future2)\<rparr>"

definition try_select_poll ::
  "('f1, 'e1 + 'a) pollfn \<Rightarrow> ('f2, 'e2 + 'b) pollfn \<Rightarrow>
   (('f1, 'f2) TrySelect, ('e1 \<times> 'f2, 'e2 \<times> 'f1) Either + ('a \<times> 'f2, 'b \<times> 'f1) Either) pollfn" where
  "try_select_poll poll1 poll2 this =
     (case tsel_inner this of
        None \<Rightarrow> panic ''cannot poll Select twice''
      | Some (a, b) \<Rightarrow>
          bindc (poll1 a) (\<lambda>(r, a). case r of
            Ready (Inl x) \<Rightarrow> ret (Ready (Inl (Left (x, b))), this\<lparr>tsel_inner := None\<rparr>)
          | Ready (Inr x) \<Rightarrow> ret (Ready (Inr (Left (x, b))), this\<lparr>tsel_inner := None\<rparr>)
          | Pending \<Rightarrow>
              bindc (poll2 b) (\<lambda>(r, b). case r of
                Ready (Inl x) \<Rightarrow> ret (Ready (Inl (Right (x, a))), this\<lparr>tsel_inner := None\<rparr>)
              | Ready (Inr x) \<Rightarrow> ret (Ready (Inr (Right (x, a))), this\<lparr>tsel_inner := None\<rparr>)
              | Pending \<Rightarrow> ret (Pending, this\<lparr>tsel_inner := Some (a, b)\<rparr>))))"

section \<open>Runs with the number of polls\<close>

inductive resolves_in :: "('s, 'a) pollfn \<Rightarrow> nat \<Rightarrow> 's \<Rightarrow> 'a \<Rightarrow> bool" for p :: "('s, 'a) pollfn" where
  resolves_in_ready: "p s = ret (Ready x, t) \<Longrightarrow> resolves_in p (Suc 0) s x"
| resolves_in_pend: "p s = ret (Pending, s') \<Longrightarrow> resolves_in p n s' x \<Longrightarrow> resolves_in p (Suc n) s x"

lemma resolves_in_resolves: "resolves_in p n s x \<Longrightarrow> resolves p s x"
  by (induction rule: resolves_in.induct) (auto intro: resolves.intros)

lemma resolves_resolves_in: "resolves p s x \<Longrightarrow> \<exists>n. resolves_in p n s x"
  by (induction rule: resolves.induct) (blast intro: resolves_in.intros)+

lemma resolves_step:
  assumes "resolves p s x"
  obtains (now) t where "p s = ret (Ready x, t)" | (later) t where "p s = ret (Pending, t)" "resolves p t x"
  using assms by (cases rule: resolves.cases) auto

lemma resolves_in_step:
  assumes "resolves_in p n s x"
  obtains (now) t where "p s = ret (Ready x, t)"
  | (later) t k where "p s = ret (Pending, t)" "resolves_in p k t x" "n = Suc k"
  using assms by (cases rule: resolves_in.cases) auto

section \<open>map, flatten and fuse\<close>

lemma resolves_now: "p s = ret (Ready x, t) \<Longrightarrow> resolves p s x"
  by (rule resolves_ready)

lemma map_fut_resolves:
  assumes "resolves p fut x" and "f c x = ret y"
  shows "resolves (map_fut_poll p f) (map_fut_new fut c) y"
  unfolding map_fut_new_def
  by (rule resolves_resolves [where mk = "\<lambda>fut. MapIncomplete fut c", OF assms(1)], simp add: map_fut_poll_def,
      rule resolves_now [where t = MapComplete], simp add: map_fut_poll_def assms(2))

lemma flatten_fut_resolves:
  assumes "resolves p1 fut g" and "resolves p2 g x"
  shows "resolves (flatten_fut_poll p1 p2) (flatten_fut_new fut) x"
proof -
  have second: "resolves (flatten_fut_poll p1 p2) (FlattenSecond g) x"
    by (rule resolves_resolves [where mk = FlattenSecond, OF assms(2)], subst flatten_fut_poll.simps, simp,
        rule resolves_now [where t = FlattenEmpty], subst flatten_fut_poll.simps, simp)
  show ?thesis unfolding flatten_fut_new_def
  proof (rule resolves_resolves [where mk = FlattenFirst, OF assms(1)])
    fix h h' assume "p1 h = ret (Ready g, h')"
    then have "flatten_fut_poll p1 p2 (FlattenFirst h) = flatten_fut_poll p1 p2 (FlattenSecond g)"
      by (subst flatten_fut_poll.simps) simp
    from this second show "resolves (flatten_fut_poll p1 p2) (FlattenFirst h) x" by (rule resolves_cong)
  qed (subst flatten_fut_poll.simps, simp)
qed

lemma flatten_fut_ends:
  assumes "resolves p1 fut st" and "ends p2 st xs t"
  shows "ends (flatten_fut_poll_next p1 p2) (flatten_fut_new fut) xs FlattenEmpty"
proof -
  have second: "ends (flatten_fut_poll_next p1 p2) (FlattenSecond st) xs FlattenEmpty"
    using assms(2)
  proof (induction rule: ends.induct)
    case (ends_end s t)
    then show ?case by (intro ends.ends_end) (subst flatten_fut_poll_next.simps, simp)
  next
    case (ends_pend s s' xs t)
    then have "flatten_fut_poll_next p1 p2 (FlattenSecond s) = ret (Pending, FlattenSecond s')"
      by (subst flatten_fut_poll_next.simps) simp
    then show ?case using ends_pend.IH by (rule ends.ends_pend)
  next
    case (ends_item s x s' xs t)
    then have "flatten_fut_poll_next p1 p2 (FlattenSecond s) = ret (Ready (Some x), FlattenSecond s')"
      by (subst flatten_fut_poll_next.simps) simp
    then show ?case using ends_item.IH by (rule ends.ends_item)
  qed
  show ?thesis unfolding flatten_fut_new_def
  proof (rule ends_resolves [where mk = FlattenFirst, OF assms(1)])
    fix h h' assume "p1 h = ret (Ready st, h')"
    then have "flatten_fut_poll_next p1 p2 (FlattenFirst h) = flatten_fut_poll_next p1 p2 (FlattenSecond st)"
      by (subst flatten_fut_poll_next.simps) simp
    from this second show "ends (flatten_fut_poll_next p1 p2) (FlattenFirst h) xs FlattenEmpty" by (rule ends_cong)
  qed (subst flatten_fut_poll_next.simps, simp)
qed

lemma fuse_fut_resolves:
  assumes "resolves p fut x"
  shows "resolves (fuse_fut_poll p) (fuse_fut_new fut) x"
  unfolding fuse_fut_new_def
  by (rule resolves_resolves [where mk = "\<lambda>f. \<lparr>ff_inner = Some f\<rparr>", OF assms], simp add: fuse_fut_poll_def,
      rule resolves_now [where t = fuse_fut_terminated], simp add: fuse_fut_poll_def fuse_fut_terminated_def)

lemma fuse_fut_after: "fuse_fut_is_terminated m \<Longrightarrow> fuse_fut_poll p m = ret (Pending, m)"
  by (simp add: fuse_fut_is_terminated_def fuse_fut_poll_def)

section \<open>join and join_all\<close>

text \<open>A \<open>MaybeDone\<close> that will hold \<open>x\<close> after at most \<open>n\<close> polls.\<close>

definition md_in :: "('fut, 'a) pollfn \<Rightarrow> nat \<Rightarrow> ('fut, 'a) MaybeDone \<Rightarrow> 'a \<Rightarrow> bool" where
  "md_in p n e x = (case e of MdFuture f \<Rightarrow> resolves_in p n f x | MdDone y \<Rightarrow> y = x | MdGone \<Rightarrow> False)"

lemma is_ready_simps [simp]: "is_ready (Ready x)" "\<not> is_ready Pending"
  by (simp_all add: is_ready_def)

lemma md_poll:
  assumes "md_in p n e x"
  obtains (fin) "maybe_done_poll p e = ret (Ready (), MdDone x)"
  | (wait) e' k where "maybe_done_poll p e = ret (Pending, e')" "md_in p k e' x" "n = Suc k"
proof (cases e)
  case (MdFuture f)
  with assms have "resolves_in p n f x" by (simp add: md_in_def)
  then show ?thesis
  proof (cases rule: resolves_in_step)
    case now
    with MdFuture show ?thesis by (intro fin) (simp add: maybe_done_poll_def)
  next
    case (later t k)
    with MdFuture show ?thesis by (intro wait [of "MdFuture t" k]) (simp_all add: maybe_done_poll_def md_in_def)
  qed
qed (use assms fin in \<open>auto simp: md_in_def maybe_done_poll_def\<close>)

fun mds_in :: "('fut, 'a) pollfn \<Rightarrow> nat \<Rightarrow> ('fut, 'a) MaybeDone list \<Rightarrow> 'a list \<Rightarrow> bool" where
  "mds_in p n [] xs = (xs = [])"
| "mds_in p n (e # es) xs = (\<exists>i j y ys. xs = y # ys \<and> md_in p i e y \<and> mds_in p j es ys \<and> i + j \<le> n)"

lemma mds_in_done: "mds_in p n (map MdDone xs) xs"
  by (induction xs arbitrary: n) (auto simp: md_in_def, metis le0 add.right_neutral)

lemma mds_in_Cons_done: "mds_in p k es ys \<Longrightarrow> mds_in p k (MdDone y # es) (y # ys)"
  by (simp add: md_in_def) (metis add_0 order_refl)

lemma mds_in_future: "list_all2 (resolves p) fs xs \<Longrightarrow> \<exists>n. mds_in p n (map MdFuture fs) xs"
proof (induction rule: list_all2_induct)
  case (Cons f fs x xs)
  then obtain n where "mds_in p n (map MdFuture fs) xs" by blast
  moreover obtain i where "resolves_in p i f x" using resolves_resolves_in [OF Cons.hyps(1)] by blast
  ultimately have "mds_in p (i + n) (map MdFuture (f # fs)) (x # xs)" by (auto simp: md_in_def)
  then show ?case by blast
qed simp

lemma join_all_elems:
  assumes "mds_in p n es xs"
  obtains (fin) "join_all_poll_elems p es = ret (True, map MdDone xs)"
  | (wait) es' k where "join_all_poll_elems p es = ret (False, es')" "mds_in p k es' xs" "k < n"
  using assms
proof (induction es arbitrary: n xs thesis)
  case Nil
  then show ?case by simp
next
  case (Cons e es)
  from Cons.prems(3) obtain i j y ys where xs: "xs = y # ys" "md_in p i e y" "mds_in p j es ys" "i + j \<le> n" by auto
  show ?case
  proof (rule md_poll [OF xs(2)], goal_cases)
    case 1
    note fin = this
    show ?case
    proof (rule Cons.IH [OF _ _ xs(3)], goal_cases)
      case 1
      with fin show ?case by (intro Cons.prems(1)) (simp add: xs(1))
    next
      case (2 es' k)
      have "mds_in p k (MdDone y # es') xs" using mds_in_Cons_done [OF 2(2)] xs(1) by simp
      with fin 2 xs(4) show ?case by (intro Cons.prems(2) [of "MdDone y # es'" k]) simp_all
    qed
  next
    case (2 e' i')
    note wait = this
    show ?case
    proof (rule Cons.IH [OF _ _ xs(3)], goal_cases)
      case 1
      have "mds_in p i' (e' # map MdDone ys) xs"
        using wait(2) mds_in_done [of p 0 ys] by (auto simp: xs(1))
      with wait 1 xs(4) show ?case by (intro Cons.prems(2) [of "e' # map MdDone ys" i']) simp_all
    next
      case (2 es' k)
      have "mds_in p (i' + k) (e' # es') xs" using wait(2) 2(2) by (auto simp: xs(1))
      with wait 2 xs(4) show ?case by (intro Cons.prems(2) [of "e' # es'" "i' + k"]) simp_all
    qed
  qed
qed

lemma take_outputs_done: "take_outputs (map MdDone xs) = ret xs"
  by (induction xs) (simp_all add: maybe_done_take_output_def unwrap_def)

lemma join_all_resolves_from:
  assumes "mds_in p n es xs"
  shows "resolves (join_all_poll p q) (JoinSmall es) xs"
  using assms
proof (induction n arbitrary: es rule: less_induct)
  case (less n)
  from less.prems show ?case
  proof (cases rule: join_all_elems)
    case fin
    then show ?thesis by (intro resolves_now [where t = "JoinSmall []"]) (simp add: join_all_poll_def take_outputs_done)
  next
    case (wait es' k)
    then have "join_all_poll p q (JoinSmall es) = ret (Pending, JoinSmall es')" by (simp add: join_all_poll_def)
    then show ?thesis using less.IH [OF wait(3,2)] by (rule resolves_pend)
  qed
qed

lemma join_resolves_from:
  assumes "md_in p1 n1 (jn_fut1 m) x" and "md_in p2 n2 (jn_fut2 m) y"
  shows "resolves (join_poll p1 p2) m (x, y)"
  using assms
proof (induction "n1 + n2" arbitrary: n1 n2 m rule: less_induct)
  case less
  have step: ?case if "maybe_done_poll p1 (jn_fut1 m) = ret (r1, e1)" "maybe_done_poll p2 (jn_fut2 m) = ret (r2, e2)"
    "md_in p1 k1 e1 x" "md_in p2 k2 e2 y" "k1 + k2 < n1 + n2" "\<not> (is_ready r1 \<and> is_ready r2)" for r1 r2 e1 e2 k1 k2
  proof -
    have "join_poll p1 p2 m = ret (Pending, m\<lparr>jn_fut1 := e1, jn_fut2 := e2\<rparr>)" using that by (auto simp: join_poll_def)
    moreover have "resolves (join_poll p1 p2) (m\<lparr>jn_fut1 := e1, jn_fut2 := e2\<rparr>) (x, y)"
      by (rule less.hyps [of k1 k2]) (use that in simp_all)
    ultimately show ?thesis by (rule resolves_pend)
  qed
  have dn: "md_in p1 0 (MdDone x) x" "md_in p2 0 (MdDone y) y" by (simp_all add: md_in_def)
  show ?case
  proof (rule md_poll [OF less.prems(1)]; rule md_poll [OF less.prems(2)])
    assume "maybe_done_poll p1 (jn_fut1 m) = ret (Ready (), MdDone x)" "maybe_done_poll p2 (jn_fut2 m) = ret (Ready (), MdDone y)"
    then show ?case
      by (intro resolves_now [where t = "m\<lparr>jn_fut1 := MdGone, jn_fut2 := MdGone\<rparr>"])
        (simp add: join_poll_def maybe_done_take_output_def unwrap_def)
  qed (use step dn in \<open>force+\<close>)
qed

section \<open>try_join_all\<close>











section \<open>select, select_all and select_ok\<close>

text \<open>What is left of a future that has been polled some number of times, always \<open>Pending\<close>, and will resolve to \<open>x\<close>.\<close>

lemma select_fut_resolves:
  assumes "resolves p1 a x" and "resolves p2 b y"
  shows "(\<exists>b'. resolves (select_fut_poll p1 p2) (select_fut a b) (Left (x, b')) \<and> resolves p2 b' y)
    \<or> (\<exists>a'. resolves (select_fut_poll p1 p2) (select_fut a b) (Right (y, a')) \<and> resolves p1 a' x)"
  using assms
proof (induction arbitrary: b rule: resolves.induct)
  case (resolves_ready s z t)
  then have "resolves (select_fut_poll p1 p2) (select_fut s b) (Left (z, b))"
    by (intro resolves_now [where t = "\<lparr>sel_inner = None\<rparr>"]) (simp add: select_fut_def select_fut_poll_def)
  with resolves_ready(2) show ?case by blast
next
  case (resolves_pend s s' z)
  from resolves_pend.prems show ?case
  proof (cases rule: resolves_step)
    case (now t)
    then have "resolves (select_fut_poll p1 p2) (select_fut s b) (Right (y, s'))"
      by (intro resolves_now [where t = "\<lparr>sel_inner = None\<rparr>"]) (simp add: select_fut_def select_fut_poll_def resolves_pend.hyps(1))
    with resolves_pend.hyps(2) show ?thesis by blast
  next
    case (later b')
    then have "select_fut_poll p1 p2 (select_fut s b) = ret (Pending, select_fut s' b')"
      by (simp add: select_fut_def select_fut_poll_def resolves_pend.hyps(1))
    with resolves_pend.IH [OF later(2)] show ?thesis by (blast intro: resolves.resolves_pend)
  qed
qed

fun futs_in :: "('fut, 'a) pollfn \<Rightarrow> nat \<Rightarrow> 'fut list \<Rightarrow> 'a list \<Rightarrow> bool" where
  "futs_in p n [] xs = (xs = [])"
| "futs_in p n (f # fs) xs = (\<exists>i j y ys. xs = y # ys \<and> resolves_in p i f y \<and> futs_in p j fs ys \<and> i + j \<le> n)"

lemma futs_in_all2: "list_all2 (resolves p) fs xs \<Longrightarrow> \<exists>n. futs_in p n fs xs"
proof (induction rule: list_all2_induct)
  case (Cons f fs x xs)
  then obtain n where "futs_in p n fs xs" by blast
  moreover obtain i where "resolves_in p i f x" using resolves_resolves_in [OF Cons.hyps(1)] by blast
  ultimately have "futs_in p (i + n) (f # fs) (x # xs)" by auto
  then show ?case by blast
qed simp

lemma all2_futs_in: "futs_in p n fs xs \<Longrightarrow> list_all2 (resolves p) fs xs"
proof (induction fs arbitrary: n xs)
  case (Cons f fs)
  then show ?case by (auto dest: resolves_in_resolves)
qed simp

text \<open>
  One round of \<open>find_map\<close> over futures that all resolve: it finds the first one that is ready, at
  its place, and every other future still resolves to the same value; or all were pending.
\<close>

lemma find_ready_round:
  assumes "futs_in p n fs xs" and "fs \<noteq> []"
  obtains (found) j fs' where "find_ready p i fs = ret (Some (i + j, xs ! j), fs')" "j < length xs" "length fs' = length xs"
      "\<And>k. k < length xs \<Longrightarrow> k \<noteq> j \<Longrightarrow> resolves p (fs' ! k) (xs ! k)"
  | (none) fs' k where "find_ready p i fs = ret (None, fs')" "futs_in p k fs' xs" "k < n"
  using assms
proof (induction fs arbitrary: n xs i thesis)
  case Nil
  then show ?case by simp
next
  case (Cons f fs)
  from Cons.prems(3) obtain a b y ys where xs: "xs = y # ys" "resolves_in p a f y" "futs_in p b fs ys" "a + b \<le> n" by auto
  from all2_futs_in [OF xs(3)] have all2: "list_all2 (resolves p) fs ys" .
  from xs(2) show ?case
  proof (cases rule: resolves_in_step)
    case (now t)
    show ?thesis
    proof (rule Cons.prems(1) [of 0 "t # fs"])
      fix k assume "k < length xs" "k \<noteq> 0"
      with all2 show "resolves p ((t # fs) ! k) (xs ! k)" by (cases k) (auto simp: xs(1) list_all2_conv_all_nth)
    qed (use now all2 in \<open>auto simp: xs(1) list_all2_lengthD\<close>)
  next
    case (later t a')
    show ?thesis
    proof (cases "fs = []")
      case True
      with later xs show ?thesis by (intro Cons.prems(2) [of "[t]" a']) auto
    next
      case False
      show ?thesis
      proof (rule Cons.IH [OF _ _ xs(3) False, of "Suc i"], goal_cases)
        case (1 j fs')
        have "resolves p ((t # fs') ! k) (xs ! k)" if "k < length xs" "k \<noteq> Suc j" for k
          using that 1(4) resolves_in_resolves [OF later(2)] by (cases k) (auto simp: xs(1))
        with 1(1-3) later(1) show ?case by (intro Cons.prems(1) [of "Suc j" "t # fs'"]) (simp_all add: xs(1))
      next
        case (2 fs' k)
        have "futs_in p (a' + k) (t # fs') xs" using later(2) 2(2) by (auto simp: xs(1))
        with 2 later xs(4) show ?case by (intro Cons.prems(2) [of "t # fs'" "a' + k"]) simp_all
      qed
    qed
  qed
qed

lemma swap_remove_all2:
  assumes "j < length xs" and "length fs = length xs"
    and "\<And>k. k < length xs \<Longrightarrow> k \<noteq> j \<Longrightarrow> R (fs ! k) (xs ! k)"
  shows "list_all2 R (butlast (fs[j := last fs])) (butlast (xs[j := last xs]))"
proof -
  have ne: "xs \<noteq> []" "fs \<noteq> []" using assms(1,2) by auto
  show ?thesis
  proof (rule list_all2_all_nthI)
    fix k assume "k < length (butlast (fs[j := last fs]))"
    then have k: "k < length xs - 1" using assms(2) by simp
    have "R (last fs) (last xs)" if "k = j"
      using assms(3) [of "length xs - 1"] k that assms(2) ne by (simp add: last_conv_nth)
    then show "R (butlast (fs[j := last fs]) ! k) (butlast (xs[j := last xs]) ! k)"
      using k assms by (cases "k = j") (auto simp: nth_butlast nth_list_update)
  qed (use assms in simp)
qed


lemma select_all_resolves_from:
  assumes "futs_in p n fs xs" and "fs \<noteq> []"
  shows "\<exists>j rest ys. resolves (select_all_poll p) \<lparr>sa_inner = fs\<rparr> (xs ! j, j, rest) \<and> j < length xs
    \<and> swap_remove j xs = ret ys \<and> list_all2 (resolves p) rest ys"
  using assms
proof (induction n arbitrary: fs rule: less_induct)
  case (less n)
  show ?case
  proof (rule find_ready_round [OF less.prems, of 0], goal_cases)
    case (1 j fs')
    let ?rest = "butlast (fs'[j := last fs'])"
    have "resolves (select_all_poll p) \<lparr>sa_inner = fs\<rparr> (xs ! j, j, ?rest)"
      by (rule resolves_now [where t = "\<lparr>sa_inner = []\<rparr>"]) (use 1 in \<open>simp add: select_all_poll_def swap_remove_def\<close>)
    moreover have "list_all2 (resolves p) ?rest (butlast (xs[j := last xs]))" by (rule swap_remove_all2 [where R = "resolves p" and fs = fs' and xs = xs, OF 1(2-4)])
    moreover have "swap_remove j xs = ret (butlast (xs[j := last xs]))" using 1(2) by (simp add: swap_remove_def)
    ultimately show ?case using 1(2) by blast
  next
    case (2 fs' k)
    have step: "select_all_poll p \<lparr>sa_inner = fs\<rparr> = ret (Pending, \<lparr>sa_inner = fs'\<rparr>)"
      using 2(1) by (simp add: select_all_poll_def)
    have "fs' \<noteq> []" using less.prems 2(2) by (cases fs; cases fs') auto
    from less.IH [OF 2(3,2) this] step show ?case by (blast intro: resolves_pend)
  qed
qed




section \<open>What the combinators answer\<close>

lemma resolves_ready_poll_fut: "resolves ready_poll_fut (Some x) x"
  by (rule resolves_ready [where t = None]) (simp add: ready_poll_fut_def)

text \<open>
  C36. \<open>join_all\<close> over futures that resolve to \<open>xs\<close>, in whatever order they become ready, resolves to
  \<open>xs\<close> in the order of the futures, when they are few enough to be polled in place.
\<close>

theorem join_all_in_order:
  assumes "list_all2 (resolves p) fs xs" and "upper = Some m" and "m \<le> SMALL"
  shows "resolves (join_all_poll p q) (join_all c upper fs) xs"
proof -
  obtain n where "mds_in p n (map MdFuture fs) xs" using mds_in_future [OF assms(1)] by blast
  from join_all_resolves_from [OF this] show ?thesis using assms(2,3) by (simp add: join_all_def)
qed

theorem join_all_in_order_witness:
  "resolves (join_all_poll ready_poll_fut (\<lambda>_ :: unit. panic ''unused'')) (join_all (\<lambda>_. ()) (Some 2) [Some 3, Some 4]) [3, 4 :: int]"
  by (rule join_all_in_order [where m = 2]) (simp_all add: resolves_ready_poll_fut SMALL_def)



text \<open>
  \<open>select_all\<close> over futures that all resolve answers with the value of one of them, its index, and
  the other futures in the order \<open>swap_remove\<close> leaves, each of which still resolves to its own value:
  nothing is lost.
\<close>

theorem select_all_loses_nothing:
  assumes "list_all2 (resolves p) fs xs" and "fs \<noteq> []"
  shows "\<exists>j rest ys. resolves (select_all_poll p) \<lparr>sa_inner = fs\<rparr> (xs ! j, j, rest) \<and> j < length xs
    \<and> swap_remove j xs = ret ys \<and> list_all2 (resolves p) rest ys"
  using futs_in_all2 [OF assms(1)] select_all_resolves_from [OF _ assms(2)] by blast

theorem select_all_loses_nothing_witness:
  "\<exists>j rest ys. resolves (select_all_poll ready_poll_fut) \<lparr>sa_inner = [Some 3, Some (4 :: int)]\<rparr> ([3, 4] ! j, j, rest)
    \<and> j < length [3, 4 :: int] \<and> swap_remove j [3, 4] = ret ys \<and> list_all2 (resolves ready_poll_fut) rest ys"
  by (rule select_all_loses_nothing) (simp_all add: resolves_ready_poll_fut)



end
