(* ===== verification/Ready_Queue.thy ===== *)
theory Ready_Queue
  imports Futures_Prelude
begin

text \<open>
  The ready-to-run queue of \<open>FuturesUnordered\<close>
  (\<open>futures-util/src/stream/futures_unordered/ready_to_run_queue.rs\<close>): the intrusive MPSC queue with a
  stub node, as a transition system with one step for every access to a shared pointer. Any number of
  threads enqueue; one dequeues. A node is the number of its task and the stub is \<open>0\<close>; a thread
  enqueues only a task that is not in the queue and that no other thread is enqueueing, which the
  \<open>queued\<close> flag of the tasks sees to (theory \<open>Futures_Unordered\<close>).

  The abstract queue is the list of the tasks in the order of the swaps of \<open>head\<close>, each with the mark
  whether the thread that enqueues it has stored the link to it. The lemmas show that every step
  implements the abstract one, and what the three answers of \<open>dequeue\<close> mean.
\<close>

section \<open>The abstract queue\<close>

datatype deq_result = DqData nat | DqEmpty | DqInconsistent

text \<open>
  An answer of \<open>dequeue\<close> and the queue after it: the first task, if its link is there; \<open>Empty\<close> only
  if there is no first task or its link is not there yet; \<open>Inconsistent\<close> only if there is a task.
\<close>

fun rq_deq :: "(nat \<times> bool) list \<Rightarrow> deq_result \<Rightarrow> (nat \<times> bool) list \<Rightarrow> bool" where
  "rq_deq q (DqData t) q' \<longleftrightarrow> q = (t, True) # q'"
| "rq_deq q DqEmpty q' \<longleftrightarrow> q' = q \<and> (case q of [] \<Rightarrow> True | x # _ \<Rightarrow> \<not> snd x)"
| "rq_deq q DqInconsistent q' \<longleftrightarrow> q' = q \<and> q \<noteq> []"

definition rq_mark :: "nat \<Rightarrow> (nat \<times> bool) list \<Rightarrow> (nat \<times> bool) list" where
  "rq_mark t q = map (\<lambda>(u, b). (u, b \<or> u = t)) q"

section \<open>The queue of the code\<close>

definition STUB :: nat where
  "STUB = 0"

datatype enq_pc = EqIdle | EqClear nat | EqSwap nat | EqStore nat nat

datatype deq_pc = DqIdle | DqLoad | DqReload | DqHead | DqStubClear | DqStubSwap | DqStubStore nat | DqLast

text \<open>
  \<open>rq_chain\<close> is a history variable that no step reads: the nodes from \<open>tail\<close> to \<open>head\<close> in the order
  of the swaps. \<open>rq_answer\<close> is what the last \<open>dequeue\<close> returned.
\<close>

record rq =
  rq_next :: "nat \<Rightarrow> nat option"
  rq_head :: nat
  rq_tail :: nat
  rq_enq :: "nat \<Rightarrow> enq_pc"
  rq_dpc :: deq_pc
  rq_answer :: "deq_result option"
  rq_chain :: "nat list"

definition rq_new :: rq where
  "rq_new = \<lparr>rq_next = (\<lambda>_. None), rq_head = STUB, rq_tail = STUB, rq_enq = (\<lambda>_. EqIdle),
     rq_dpc = DqIdle, rq_answer = None, rq_chain = [STUB]\<rparr>"

text \<open>The three accesses of \<open>enqueue\<close>.\<close>

definition rq_clear :: "nat \<Rightarrow> rq \<Rightarrow> rq" where
  "rq_clear t s = s\<lparr>rq_next := (rq_next s)(t := None)\<rparr>"

definition rq_swap :: "nat \<Rightarrow> rq \<Rightarrow> rq" where
  "rq_swap t s = s\<lparr>rq_head := t, rq_chain := rq_chain s @ [t]\<rparr>"

definition rq_store :: "nat \<Rightarrow> nat \<Rightarrow> rq \<Rightarrow> rq" where
  "rq_store prev t s = s\<lparr>rq_next := (rq_next s)(prev := Some t)\<rparr>"

definition rq_goto :: "nat \<Rightarrow> enq_pc \<Rightarrow> rq \<Rightarrow> rq" where
  "rq_goto i l s = s\<lparr>rq_enq := (rq_enq s)(i := l)\<rparr>"

definition rq_enqueue :: "nat \<Rightarrow> rq \<Rightarrow> rq" where
  "rq_enqueue i s =
     (case rq_enq s i of
        EqIdle \<Rightarrow> s
      | EqClear t \<Rightarrow> rq_goto i (EqSwap t) (rq_clear t s)
      | EqSwap t \<Rightarrow> rq_goto i (EqStore (rq_head s) t) (rq_swap t s)
      | EqStore prev t \<Rightarrow> rq_goto i EqIdle (rq_store prev t s))"

definition rq_dgoto :: "deq_pc \<Rightarrow> rq \<Rightarrow> rq" where
  "rq_dgoto l s = s\<lparr>rq_dpc := l\<rparr>"

definition rq_return :: "deq_result \<Rightarrow> rq \<Rightarrow> rq" where
  "rq_return r s = s\<lparr>rq_dpc := DqIdle, rq_answer := Some r\<rparr>"

definition rq_advance :: "nat \<Rightarrow> rq \<Rightarrow> rq" where
  "rq_advance n s = s\<lparr>rq_tail := n, rq_chain := tl (rq_chain s)\<rparr>"

text \<open>\<open>dequeue\<close>: only this thread writes \<open>tail\<close>, so the local copy is \<open>rq_tail\<close>.\<close>

definition rq_dequeue :: "rq \<Rightarrow> rq" where
  "rq_dequeue s =
     (case rq_dpc s of
        DqIdle \<Rightarrow> s
      | DqLoad \<Rightarrow>
          (if rq_tail s = STUB then
             (case rq_next s (rq_tail s) of
                None \<Rightarrow> rq_return DqEmpty s
              | Some next \<Rightarrow> rq_dgoto DqReload (rq_advance next s))
           else
             (case rq_next s (rq_tail s) of
                Some next \<Rightarrow> rq_return (DqData (rq_tail s)) (rq_advance next s)
              | None \<Rightarrow> rq_dgoto DqHead s))
      | DqReload \<Rightarrow>
          (case rq_next s (rq_tail s) of
             Some next \<Rightarrow> rq_return (DqData (rq_tail s)) (rq_advance next s)
           | None \<Rightarrow> rq_dgoto DqHead s)
      | DqHead \<Rightarrow> (if rq_head s \<noteq> rq_tail s then rq_return DqInconsistent s else rq_dgoto DqStubClear s)
      | DqStubClear \<Rightarrow> rq_dgoto DqStubSwap (rq_clear STUB s)
      | DqStubSwap \<Rightarrow> rq_dgoto (DqStubStore (rq_head s)) (rq_swap STUB s)
      | DqStubStore prev \<Rightarrow> rq_dgoto DqLast (rq_store prev STUB s)
      | DqLast \<Rightarrow>
          (case rq_next s (rq_tail s) of
             Some next \<Rightarrow> rq_return (DqData (rq_tail s)) (rq_advance next s)
           | None \<Rightarrow> rq_return DqInconsistent s))"

text \<open>The task a thread is about to put into the chain.\<close>

fun eq_incoming :: "enq_pc \<Rightarrow> nat \<Rightarrow> bool" where
  "eq_incoming (EqClear u) t = (u = t)"
| "eq_incoming (EqSwap u) t = (u = t)"
| "eq_incoming _ t = False"

abbreviation rq_incoming :: "rq \<Rightarrow> nat \<Rightarrow> nat \<Rightarrow> bool" where
  "rq_incoming s i \<equiv> eq_incoming (rq_enq s i)"

inductive rq_step :: "rq \<Rightarrow> rq \<Rightarrow> bool" where
  rq_begin_enqueue: "rq_enq s i = EqIdle \<Longrightarrow> t \<noteq> STUB \<Longrightarrow> t \<notin> set (rq_chain s) \<Longrightarrow> (\<And>j. \<not> rq_incoming s j t) \<Longrightarrow>
    rq_step s (rq_goto i (EqClear t) s)"
| rq_run_enqueue: "rq_enq s i \<noteq> EqIdle \<Longrightarrow> rq_step s (rq_enqueue i s)"
| rq_begin_dequeue: "rq_dpc s = DqIdle \<Longrightarrow> rq_step s (rq_dgoto DqLoad s)"
| rq_run_dequeue: "rq_dpc s \<noteq> DqIdle \<Longrightarrow> rq_step s (rq_dequeue s)"

abbreviation rq_reach :: "rq \<Rightarrow> bool" where
  "rq_reach \<equiv> reach (\<lambda>s. s = rq_new) rq_step"

lemmas rq_defs = rq_clear_def rq_swap_def rq_store_def rq_goto_def rq_dgoto_def rq_return_def rq_advance_def

section \<open>Neighbours in a list\<close>

definition nexts :: "'a list \<Rightarrow> ('a \<times> 'a) set" where
  "nexts xs = set (zip xs (tl xs))"

lemma nexts_simps [simp]: "nexts [] = {}" "nexts [x] = {}" "nexts (x # y # ys) = insert (x, y) (nexts (y # ys))"
  by (simp_all add: nexts_def)

lemma nexts_in: "(p, c) \<in> nexts xs \<Longrightarrow> p \<in> set xs \<and> c \<in> set (tl xs)"
  by (auto simp: nexts_def dest: set_zip_leftD set_zip_rightD)

lemma nexts_snoc: "xs \<noteq> [] \<Longrightarrow> nexts (xs @ [t]) = insert (last xs, t) (nexts xs)"
  by (induction xs rule: induct_list012) auto

lemma nexts_inj1: "distinct xs \<Longrightarrow> (p, c) \<in> nexts xs \<Longrightarrow> (p, d) \<in> nexts xs \<Longrightarrow> c = d"
  by (induction xs rule: induct_list012) (auto dest: nexts_in)

lemma nexts_inj2: "distinct xs \<Longrightarrow> (p, c) \<in> nexts xs \<Longrightarrow> (q, c) \<in> nexts xs \<Longrightarrow> p = q"
  by (induction xs rule: induct_list012) (auto dest: nexts_in)

lemma nexts_last: "distinct xs \<Longrightarrow> (last xs, c) \<notin> nexts xs"
proof (induction xs rule: induct_list012)
  case (3 x y zs)
  moreover have "last (y # zs) \<in> set (y # zs)" by (rule last_in_set) simp
  ultimately show ?case by auto
qed auto

lemma nexts_hd: "distinct xs \<Longrightarrow> (p, hd xs) \<notin> nexts xs"
  by (cases xs) (auto dest: nexts_in)

lemma nexts_tl: "distinct xs \<Longrightarrow> nexts (tl xs) = {(p, c) \<in> nexts xs. p \<noteq> hd xs}"
  by (cases xs rule: remdups_adj.cases) (auto dest: nexts_in)

section \<open>The invariant\<close>

text \<open>The links that a thread has still to store: of the enqueuers, and of the consumer for the stub.\<close>

definition rq_owed :: "rq \<Rightarrow> (nat \<times> nat) set" where
  "rq_owed s = {(p, c). (\<exists>i. rq_enq s i = EqStore p c) \<or> rq_dpc s = DqStubStore p \<and> c = STUB}"

text \<open>
  The chain from \<open>tail\<close> to \<open>head\<close>: a link between two neighbours is stored or owed, owed links are
  between neighbours, and the last node has none.
\<close>

definition rq_inv_chain :: "rq \<Rightarrow> bool" where
  "rq_inv_chain s \<longleftrightarrow>
     rq_chain s \<noteq> [] \<and> distinct (rq_chain s) \<and> hd (rq_chain s) = rq_tail s \<and> last (rq_chain s) = rq_head s
   \<and> rq_next s (rq_head s) = None
   \<and> (\<forall>(p, c) \<in> nexts (rq_chain s). rq_next s p = (if (p, c) \<in> rq_owed s then None else Some c))
   \<and> rq_owed s \<subseteq> nexts (rq_chain s)"

text \<open>The threads: a task is enqueued by one thread at a time, and is in the chain when it is linked.\<close>

definition rq_inv_enq :: "rq \<Rightarrow> bool" where
  "rq_inv_enq s \<longleftrightarrow>
     (\<forall>i t. rq_incoming s i t \<longrightarrow> t \<noteq> STUB \<and> t \<notin> set (rq_chain s))
   \<and> (\<forall>i t. rq_enq s i = EqSwap t \<longrightarrow> rq_next s t = None)
   \<and> (\<forall>i j t. rq_incoming s i t \<and> rq_incoming s j t \<longrightarrow> i = j)
   \<and> (\<forall>i j p q t. rq_enq s i = EqStore p t \<and> rq_enq s j = EqStore q t \<longrightarrow> i = j)
   \<and> (\<forall>i p t. rq_enq s i = EqStore p t \<longrightarrow> t \<noteq> STUB)"

text \<open>The consumer: it puts the stub back only when the stub is not in the chain.\<close>

definition rq_inv_deq :: "rq \<Rightarrow> bool" where
  "rq_inv_deq s \<longleftrightarrow>
     (rq_dpc s \<notin> {DqIdle, DqLoad} \<longrightarrow> rq_tail s \<noteq> STUB)
   \<and> (rq_dpc s \<in> {DqStubClear, DqStubSwap} \<longrightarrow> STUB \<notin> set (rq_chain s))
   \<and> (rq_dpc s = DqStubSwap \<longrightarrow> rq_next s STUB = None)"

definition rq_inv :: "rq \<Rightarrow> bool" where
  "rq_inv s \<longleftrightarrow> rq_inv_chain s \<and> rq_inv_enq s \<and> rq_inv_deq s"

lemma rq_owed_goto: "(\<And>p c. rq_enq s i \<noteq> EqStore p c) \<Longrightarrow> (\<And>p c. l \<noteq> EqStore p c) \<Longrightarrow> rq_owed (rq_goto i l s) = rq_owed s"
proof -
  assume "\<And>p c. rq_enq s i \<noteq> EqStore p c" "\<And>p c. l \<noteq> EqStore p c"
  then have "rq_enq (rq_goto i l s) j = EqStore p c \<longleftrightarrow> rq_enq s j = EqStore p c" for j p c
    by (cases "j = i") (auto simp: rq_goto_def)
  then show ?thesis by (simp add: rq_owed_def) (simp add: rq_goto_def)
qed

lemma rq_owed_goto_store:
  assumes "\<And>p c. rq_enq s i \<noteq> EqStore p c"
  shows "rq_owed (rq_goto i (EqStore p c) s) = insert (p, c) (rq_owed s)"
proof -
  have "(\<exists>j. rq_enq (rq_goto i (EqStore p c) s) j = EqStore a b) \<longleftrightarrow> (a, b) = (p, c) \<or> (\<exists>j. rq_enq s j = EqStore a b)" for a b
  proof
    assume "(a, b) = (p, c) \<or> (\<exists>j. rq_enq s j = EqStore a b)"
    then show "\<exists>j. rq_enq (rq_goto i (EqStore p c) s) j = EqStore a b"
    proof
      assume "\<exists>j. rq_enq s j = EqStore a b"
      then obtain j where j: "rq_enq s j = EqStore a b" by blast
      then have "j \<noteq> i" using assms by blast
      with j show ?thesis by (intro exI [of _ j]) (simp add: rq_goto_def)
    qed (auto simp: rq_goto_def intro: exI [of _ i])
  qed (auto simp: rq_goto_def split: if_splits)
  then show ?thesis by (auto simp: rq_owed_def) (auto simp: rq_goto_def)
qed

lemma rq_owed_goto_idle:
  assumes "rq_enq s i = EqStore p t" "t \<noteq> STUB" "\<And>j q. rq_enq s j = EqStore q t \<Longrightarrow> j = i"
  shows "rq_owed (rq_goto i EqIdle s) = rq_owed s - {(p, t)}"
proof -
  have "(\<exists>j. rq_enq (rq_goto i EqIdle s) j = EqStore a b) \<longleftrightarrow> (a, b) \<noteq> (p, t) \<and> (\<exists>j. rq_enq s j = EqStore a b)" for a b
  proof
    assume "\<exists>j. rq_enq (rq_goto i EqIdle s) j = EqStore a b"
    then obtain j where j: "j \<noteq> i" "rq_enq s j = EqStore a b" by (auto simp: rq_goto_def split: if_splits)
    with assms(3) [of j a] show "(a, b) \<noteq> (p, t) \<and> (\<exists>j. rq_enq s j = EqStore a b)" by auto
  next
    assume "(a, b) \<noteq> (p, t) \<and> (\<exists>j. rq_enq s j = EqStore a b)"
    then obtain j where j: "(a, b) \<noteq> (p, t)" "rq_enq s j = EqStore a b" by blast
    with assms(1) have "j \<noteq> i" by auto
    with j(2) show "\<exists>j. rq_enq (rq_goto i EqIdle s) j = EqStore a b" by (intro exI [of _ j]) (simp add: rq_goto_def)
  qed
  moreover have "rq_dpc (rq_goto i EqIdle s) = rq_dpc s" by (simp add: rq_goto_def)
  ultimately show ?thesis using assms(2) by (auto simp: rq_owed_def)
qed

lemma rq_owed_store: "rq_owed (rq_store p t s) = rq_owed s" "rq_owed (rq_clear t s) = rq_owed s" "rq_owed (rq_swap t s) = rq_owed s"
    "rq_owed (rq_advance t s) = rq_owed s"
  by (auto simp: rq_owed_def rq_defs)

lemma rq_owed_dgoto: "(\<And>p. rq_dpc s \<noteq> DqStubStore p) \<Longrightarrow> (\<And>p. l \<noteq> DqStubStore p) \<Longrightarrow> rq_owed (rq_dgoto l s) = rq_owed s"
  by (auto simp: rq_owed_def rq_dgoto_def)

lemma rq_owed_return: "(\<And>p. rq_dpc s \<noteq> DqStubStore p) \<Longrightarrow> rq_owed (rq_return r s) = rq_owed s"
  by (auto simp: rq_owed_def rq_return_def)

lemma rq_chainD:
  assumes "rq_inv_chain s"
  shows "rq_chain s \<noteq> []" "distinct (rq_chain s)" "hd (rq_chain s) = rq_tail s" "last (rq_chain s) = rq_head s"
    "rq_next s (rq_head s) = None"
    "\<And>p c. (p, c) \<in> nexts (rq_chain s) \<Longrightarrow> rq_next s p = (if (p, c) \<in> rq_owed s then None else Some c)"
    "\<And>p c. (p, c) \<in> rq_owed s \<Longrightarrow> (p, c) \<in> nexts (rq_chain s)"
  using assms by (auto simp: rq_inv_chain_def)

lemma rq_inv_chainI:
  assumes "rq_chain s \<noteq> []" "distinct (rq_chain s)" "hd (rq_chain s) = rq_tail s" "last (rq_chain s) = rq_head s"
    "rq_next s (rq_head s) = None"
    "\<And>p c. (p, c) \<in> nexts (rq_chain s) \<Longrightarrow> rq_next s p = (if (p, c) \<in> rq_owed s then None else Some c)"
    "\<And>p c. (p, c) \<in> rq_owed s \<Longrightarrow> (p, c) \<in> nexts (rq_chain s)"
  shows "rq_inv_chain s"
  using assms(1-5) unfolding rq_inv_chain_def by (auto simp: assms(6) dest: assms(7))

text \<open>Clearing the link of a node that is not in the chain.\<close>

lemma rq_chain_clear:
  assumes "rq_inv_chain s" and "t \<notin> set (rq_chain s)"
  shows "rq_inv_chain (rq_clear t s)"
proof -
  note C = rq_chainD [OF assms(1)]
  have "rq_head s \<noteq> t" using assms(2) C(1,4) last_in_set by metis
  moreover have "p \<noteq> t" if "(p, c) \<in> nexts (rq_chain s)" for p c using nexts_in [OF that] assms(2) by blast
  ultimately show ?thesis
    using assms(1) unfolding rq_inv_chain_def rq_owed_store by (auto simp: rq_clear_def)
qed

text \<open>The swap of \<open>head\<close>: the link from the old head is owed from then on.\<close>

lemma rq_chain_swap:
  assumes "rq_inv_chain s" and "t \<notin> set (rq_chain s)" and "rq_next s t = None"
    and "rq_owed s' = insert (rq_head s, t) (rq_owed s)" and "rq_next s' = rq_next s" and "rq_tail s' = rq_tail s"
    and "rq_head s' = t" and "rq_chain s' = rq_chain s @ [t]"
  shows "rq_inv_chain s'"
proof -
  note C = rq_chainD [OF assms(1)]
  have nx: "nexts (rq_chain s') = insert (rq_head s, t) (nexts (rq_chain s))"
    using C(1,4) assms(8) by (simp add: nexts_snoc)
  have "p \<noteq> rq_head s" if "(p, c) \<in> nexts (rq_chain s)" for p c
    using nexts_last [OF C(2)] C(4) that by metis
  then have old: "(p, c) \<noteq> (rq_head s, t)" if "(p, c) \<in> nexts (rq_chain s)" for p c using that by blast
  show ?thesis
  proof (rule rq_inv_chainI)
    fix p c assume "(p, c) \<in> nexts (rq_chain s')"
    then consider "(p, c) = (rq_head s, t)" | "(p, c) \<in> nexts (rq_chain s)" unfolding nx by blast
    then show "rq_next s' p = (if (p, c) \<in> rq_owed s' then None else Some c)"
      by cases (use C(5) C(6) [of p c] old [of p c] assms(4,5) in auto)
  next
    fix p c assume "(p, c) \<in> rq_owed s'"
    then show "(p, c) \<in> nexts (rq_chain s')" using C(7) [of p c] unfolding nx assms(4) by blast
  qed (use C(1-4) assms(2,3,5-8) in simp_all)
qed

text \<open>Storing an owed link.\<close>

lemma rq_chain_store:
  assumes "rq_inv_chain s" and "(p, t) \<in> rq_owed s"
    and "rq_owed s' = rq_owed s - {(p, t)}" and "rq_next s' = (rq_next s)(p := Some t)" and "rq_tail s' = rq_tail s"
    and "rq_head s' = rq_head s" and "rq_chain s' = rq_chain s"
  shows "rq_inv_chain s'"
proof -
  note C = rq_chainD [OF assms(1)]
  have pt: "(p, t) \<in> nexts (rq_chain s)" using C(7) assms(2) .
  have "p \<noteq> rq_head s" using nexts_last [OF C(2)] C(4) pt by metis
  moreover have "c = t" if "(p, c) \<in> nexts (rq_chain s)" for c using nexts_inj1 [OF C(2) that pt] .
  ultimately have other: "(p', c) \<in> nexts (rq_chain s) \<Longrightarrow> p' \<noteq> rq_head s \<and> (p' = p \<longrightarrow> c = t)" for p' c
    using nexts_last [OF C(2)] C(4) by metis
  show ?thesis
  proof (rule rq_inv_chainI)
    fix p' c assume a: "(p', c) \<in> nexts (rq_chain s')"
    then have "(p', c) \<in> nexts (rq_chain s)" by (simp only: assms(7))
    from C(6) [OF this] other [OF this] show "rq_next s' p' = (if (p', c) \<in> rq_owed s' then None else Some c)"
      by (cases "p' = p") (simp_all add: assms(3,4))
  next
    fix p' c assume "(p', c) \<in> rq_owed s'"
    then show "(p', c) \<in> nexts (rq_chain s')" using C(7) [of p' c] unfolding assms(3,7) by blast
  qed (use C(1-5) assms(4-7) \<open>p \<noteq> rq_head s\<close> in simp_all)
qed

text \<open>The consumer moves \<open>tail\<close> over a stored link.\<close>

lemma rq_next_tail:
  assumes "rq_inv_chain s" and "rq_next s (rq_tail s) = Some n"
  obtains cs where "rq_chain s = rq_tail s # n # cs" "(rq_tail s, n) \<notin> rq_owed s"
proof -
  note C = rq_chainD [OF assms(1)]
  show thesis
  proof (cases "rq_chain s" rule: remdups_adj.cases)
    case (3 x y cs)
    then have x: "x = rq_tail s" using C(3) by simp
    have "rq_next s x = (if (x, y) \<in> rq_owed s then None else Some y)" using C(6) [of x y] 3 by simp
    with assms(2) x 3 that show ?thesis by (auto split: if_splits)
  next
    case (2 x)
    with C(3,4,5) assms(2) show ?thesis by simp
  qed (use C(1) in simp)
qed

lemma rq_chain_advance:
  assumes "rq_inv_chain s" and "rq_next s (rq_tail s) = Some n"
    and "rq_owed s' = rq_owed s" and "rq_next s' = rq_next s" and "rq_tail s' = n"
    and "rq_head s' = rq_head s" and "rq_chain s' = tl (rq_chain s)"
  shows "rq_inv_chain s'"
proof -
  note C = rq_chainD [OF assms(1)]
  obtain cs where cs: "rq_chain s = rq_tail s # n # cs" "(rq_tail s, n) \<notin> rq_owed s"
    by (rule rq_next_tail [OF assms(1,2)])
  have "(rq_tail s, c) \<notin> rq_owed s" for c
    using C(7) [of "rq_tail s" c] nexts_inj1 [OF C(2), of "rq_tail s" c n] cs by auto
  moreover have "nexts (rq_chain s) = insert (rq_tail s, n) (nexts (rq_chain s'))" using cs(1) assms(7) by simp
  moreover have "distinct (rq_chain s')" "hd (rq_chain s') = n" "last (rq_chain s') = rq_head s" "rq_chain s' \<noteq> []"
    using C(2,4) cs(1) assms(7) by auto
  moreover from calculation(1,2) have "(p, c) \<in> nexts (rq_chain s')" if "(p, c) \<in> rq_owed s" for p c
    using C(7) [OF that] that by auto
  ultimately show ?thesis
    by (intro rq_inv_chainI) (use C(5) in \<open>auto simp: assms(3-6) C(6)\<close>)
qed


lemma rq_enqD:
  assumes "rq_inv_enq s"
  shows "\<And>i t. rq_incoming s i t \<Longrightarrow> t \<noteq> STUB" "\<And>i t. rq_incoming s i t \<Longrightarrow> t \<notin> set (rq_chain s)"
    "\<And>i t. rq_enq s i = EqSwap t \<Longrightarrow> rq_next s t = None"
    "\<And>i j t. rq_incoming s i t \<Longrightarrow> rq_incoming s j t \<Longrightarrow> i = j"
    "\<And>i j p q t. rq_enq s i = EqStore p t \<Longrightarrow> rq_enq s j = EqStore q t \<Longrightarrow> i = j"
    "\<And>i p t. rq_enq s i = EqStore p t \<Longrightarrow> t \<noteq> STUB"
  using assms unfolding rq_inv_enq_def by blast+

lemma rq_invD: assumes "rq_inv s" shows "rq_inv_chain s" "rq_inv_enq s" "rq_inv_deq s"
  using assms by (simp_all add: rq_inv_def)

lemma rq_chain_cong:
  assumes "rq_inv_chain s" "rq_owed s' = rq_owed s" "rq_next s' = rq_next s" "rq_tail s' = rq_tail s"
    "rq_head s' = rq_head s" "rq_chain s' = rq_chain s"
  shows "rq_inv_chain s'"
  using assms by (simp add: rq_inv_chain_def)

lemma rq_begin_enqueue_inv:
  assumes inv: "rq_inv s" and "rq_enq s i = EqIdle" "t \<noteq> STUB" "t \<notin> set (rq_chain s)" "\<And>j. \<not> rq_incoming s j t"
  shows "rq_inv (rq_goto i (EqClear t) s)"
proof -
  note E = rq_enqD [OF rq_invD(2) [OF inv]]
  have owed: "rq_owed (rq_goto i (EqClear t) s) = rq_owed s" by (rule rq_owed_goto) (simp_all add: assms(2))
  have "rq_inv_chain (rq_goto i (EqClear t) s)"
    by (rule rq_chain_cong [OF rq_invD(1) [OF inv] owed]) (simp_all add: rq_goto_def)
  moreover have "rq_inv_enq (rq_goto i (EqClear t) s)"
    unfolding rq_inv_enq_def
    by (intro conjI allI impI; auto simp: rq_goto_def assms split: if_splits intro: E(3) dest: E(1,2,4,5,6))
  moreover have "rq_inv_deq (rq_goto i (EqClear t) s)" using rq_invD(3) [OF inv] by (simp add: rq_inv_deq_def rq_goto_def)
  ultimately show ?thesis by (simp add: rq_inv_def)
qed


lemma rq_owed_nexts: "rq_inv_chain s \<Longrightarrow> rq_enq s i = EqStore p t \<Longrightarrow> (p, t) \<in> nexts (rq_chain s)"
  by (rule rq_chainD(7)) (auto simp: rq_owed_def)

lemma rq_enqueue_inv:
  assumes inv: "rq_inv s"
  shows "rq_inv (rq_enqueue i s)"
proof (cases "rq_enq s i")
  case EqIdle
  with inv show ?thesis by (simp add: rq_enqueue_def)
next
  case (EqClear t)
  note C = rq_invD(1) [OF inv] and E = rq_enqD [OF rq_invD(2) [OF inv]] and D = rq_invD(3) [OF inv]
  let ?s = "rq_goto i (EqSwap t) (rq_clear t s)"
  have t: "t \<noteq> STUB" "t \<notin> set (rq_chain s)" using E(1,2) [of i t] EqClear by simp_all
  have "rq_owed ?s = rq_owed (rq_clear t s)" by (rule rq_owed_goto) (simp_all add: EqClear rq_clear_def)
  from rq_chain_clear [OF C t(2)] this have "rq_inv_chain ?s" by (rule rq_chain_cong) (simp_all add: rq_goto_def)
  moreover have "rq_inv_enq ?s"
    unfolding rq_inv_enq_def
    by (intro conjI allI impI; auto simp: rq_goto_def rq_clear_def t EqClear split: if_splits intro: E(3) dest: E(1,2,4,5,6))
      (use E(4) EqClear in force)+
  moreover have "rq_inv_deq ?s" using D t(1) by (simp add: rq_inv_deq_def rq_goto_def rq_clear_def)
  ultimately show ?thesis by (simp add: rq_inv_def rq_enqueue_def EqClear)
next
  case (EqSwap t)
  note C = rq_invD(1) [OF inv] and E = rq_enqD [OF rq_invD(2) [OF inv]] and D = rq_invD(3) [OF inv]
  let ?s = "rq_goto i (EqStore (rq_head s) t) (rq_swap t s)"
  have t: "t \<noteq> STUB" "t \<notin> set (rq_chain s)" "rq_next s t = None" using E(1-3) [of i t] EqSwap by simp_all
  have others: "\<And>j. j \<noteq> i \<Longrightarrow> \<not> rq_incoming s j t" using E(4) [of i t] EqSwap by auto
  have owed: "rq_owed ?s = insert (rq_head s, t) (rq_owed s)"
    by (subst rq_owed_goto_store) (simp_all add: EqSwap rq_owed_store, simp_all add: EqSwap rq_swap_def)
  have "rq_inv_chain ?s"
    by (rule rq_chain_swap [OF C t(2,3) owed]) (simp_all add: rq_goto_def rq_swap_def)
  moreover have "rq_enq s j \<noteq> EqStore p t" for j p
    using rq_owed_nexts [OF C, of j p t] nexts_in t(2) by (metis list.set_sel(2) tl_Nil)
  then have "rq_inv_enq ?s"
    unfolding rq_inv_enq_def
    by (intro conjI allI impI; auto simp: rq_goto_def rq_swap_def t EqSwap others split: if_splits intro: E(3) dest: E(1,2,4,5,6))
  moreover have "rq_inv_deq ?s" using D t(1) by (simp add: rq_inv_deq_def rq_goto_def rq_swap_def)
  ultimately show ?thesis by (simp add: rq_inv_def rq_enqueue_def EqSwap)
next
  case (EqStore p t)
  note C = rq_invD(1) [OF inv] and E = rq_enqD [OF rq_invD(2) [OF inv]] and D = rq_invD(3) [OF inv]
  let ?s = "rq_goto i EqIdle (rq_store p t s)"
  have pt: "(p, t) \<in> rq_owed s" using EqStore by (auto simp: rq_owed_def)
  have p: "p \<in> set (rq_chain s)" using nexts_in [OF rq_owed_nexts [OF C EqStore]] by simp
  have ps: "rq_enq s j \<noteq> EqSwap p" for j using E(2) [of j p] p by auto
  have "j = i" if "rq_enq s j = EqStore q t" for j q using E(5) [OF that EqStore] .
  then have owed: "rq_owed ?s = rq_owed s - {(p, t)}"
    by (subst rq_owed_goto_idle) (simp_all add: EqStore E(6) [OF EqStore] rq_owed_store, simp_all add: EqStore E(6) [OF EqStore] rq_store_def)
  have "rq_inv_chain ?s"
    by (rule rq_chain_store [OF C pt owed]) (simp_all add: rq_goto_def rq_store_def)
  moreover have "rq_inv_enq ?s"
    unfolding rq_inv_enq_def
    by (intro conjI allI impI; insert p ps; auto simp: rq_goto_def rq_store_def EqStore split: if_splits intro: E(3) dest: E(1,2,4,5,6))
  moreover have "rq_inv_deq ?s" using D p by (auto simp: rq_inv_deq_def rq_goto_def rq_store_def)
  ultimately show ?thesis by (simp add: rq_inv_def rq_enqueue_def EqStore)
qed


lemma rq_enq_shrink:
  assumes "rq_inv_enq s" "rq_enq s' = rq_enq s" "rq_next s' = rq_next s" "set (rq_chain s') \<subseteq> set (rq_chain s)"
  shows "rq_inv_enq s'"
  using assms unfolding rq_inv_enq_def by auto

lemma rq_advance_inv:
  assumes "rq_inv_chain s" "rq_inv_enq s" "rq_next s (rq_tail s) = Some n"
  shows "rq_inv_chain (rq_advance n s)" "rq_inv_enq (rq_advance n s)"
proof -
  show "rq_inv_chain (rq_advance n s)"
    by (rule rq_chain_advance [OF assms(1,3) rq_owed_store(4)]) (simp_all add: rq_advance_def)
  show "rq_inv_enq (rq_advance n s)"
    by (rule rq_enq_shrink [OF assms(2)]) (cases "rq_chain s"; auto simp: rq_advance_def)+
qed

lemma rq_deq_moves:
  assumes "rq_inv_chain s" "rq_inv_enq s" "\<And>p. rq_dpc s \<noteq> DqStubStore p" "\<And>p. l \<noteq> DqStubStore p"
  shows "rq_inv_chain (rq_dgoto l s)" "rq_inv_enq (rq_dgoto l s)" "rq_inv_chain (rq_return r s)" "rq_inv_enq (rq_return r s)"
proof -
  show "rq_inv_chain (rq_dgoto l s)"
    by (rule rq_chain_cong [OF assms(1) rq_owed_dgoto]) (use assms(3,4) in \<open>simp_all add: rq_dgoto_def\<close>)
  show "rq_inv_chain (rq_return r s)"
    by (rule rq_chain_cong [OF assms(1) rq_owed_return]) (use assms(3) in \<open>simp_all add: rq_return_def\<close>)
qed (use assms(2) in \<open>simp_all add: rq_inv_enq_def rq_dgoto_def rq_return_def\<close>)

lemma rq_tail_unique:
  assumes "rq_inv_chain s" "rq_head s = rq_tail s"
  shows "rq_chain s = [rq_tail s]"
proof (cases "rq_chain s" rule: remdups_adj.cases)
  case (3 x y cs)
  then show ?thesis using rq_chainD(2-4) [OF assms(1)] assms(2) last_in_set [of "y # cs"] by auto
qed (use rq_chainD(1,3) [OF assms(1)] in auto)

lemma rq_next_tail_not:
  assumes "rq_inv_chain s" "rq_next s (rq_tail s) = Some n"
  shows "n \<noteq> rq_tail s"
  using rq_next_tail [OF assms] rq_chainD(2) [OF assms(1)] by (metis distinct_length_2_or_more)

lemma rq_dequeue_inv:
  assumes inv: "rq_inv s"
  shows "rq_inv (rq_dequeue s)"
proof -
  note C = rq_invD(1) [OF inv] and E = rq_invD(2) [OF inv] and D = rq_invD(3) [OF inv]
  note A = rq_advance_inv [OF C E]
  have dl: "rq_dpc (rq_advance n s) = rq_dpc s" for n by (simp add: rq_advance_def)
  have data: "rq_inv (rq_return r (rq_advance n s))" if "rq_next s (rq_tail s) = Some n" "\<And>p. rq_dpc s \<noteq> DqStubStore p" for r n
    using rq_deq_moves(3,4) [OF A(1,2) [OF that(1)], where l = DqIdle] that(2) dl
    by (simp add: rq_inv_def) (simp add: rq_inv_deq_def rq_return_def)
  have ret: "rq_inv (rq_return r s)" if "\<And>p. rq_dpc s \<noteq> DqStubStore p" for r
    using rq_deq_moves(3,4) [OF C E, where l = DqIdle] that by (simp add: rq_inv_def) (simp add: rq_inv_deq_def rq_return_def)
  have go: "rq_inv (rq_dgoto l s)" if "\<And>p. rq_dpc s \<noteq> DqStubStore p" "\<And>p. l \<noteq> DqStubStore p" "rq_inv_deq (rq_dgoto l s)" for l
    using rq_deq_moves(1,2) [OF C E] that by (simp add: rq_inv_def)
  show ?thesis
  proof (cases "rq_dpc s")
    case DqIdle
    with inv show ?thesis by (simp add: rq_dequeue_def)
  next
    case DqLoad
    show ?thesis
    proof (cases "rq_next s (rq_tail s)")
      case None
      have "rq_inv_deq (rq_dgoto DqHead s)" if "rq_tail s \<noteq> STUB" using D that by (simp add: rq_inv_deq_def rq_dgoto_def)
      with None DqLoad show ?thesis by (cases "rq_tail s = STUB") (simp_all add: rq_dequeue_def ret go)
    next
      case (Some n)
      have "rq_inv (rq_dgoto DqReload (rq_advance n s))" if "rq_tail s = STUB"
      proof -
        have "n \<noteq> STUB" using rq_next_tail_not [OF C Some] that by simp
        then have "rq_inv_deq (rq_dgoto DqReload (rq_advance n s))" by (simp add: rq_inv_deq_def rq_dgoto_def rq_advance_def)
        then show ?thesis
          using rq_deq_moves(1,2) [OF A(1,2) [OF Some], where l = DqReload] dl DqLoad by (simp add: rq_inv_def)
      qed
      with Some DqLoad data [OF Some] show ?thesis by (cases "rq_tail s = STUB") (simp_all add: rq_dequeue_def)
    qed
  next
    case DqReload
    have "rq_inv_deq (rq_dgoto DqHead s)" using D DqReload by (simp add: rq_inv_deq_def rq_dgoto_def)
    with DqReload show ?thesis by (cases "rq_next s (rq_tail s)") (simp_all add: rq_dequeue_def go data)
  next
    case DqHead
    have "rq_inv_deq (rq_dgoto DqStubClear s)" if "rq_head s = rq_tail s"
      using D DqHead rq_tail_unique [OF C that] by (auto simp: rq_inv_deq_def rq_dgoto_def)
    with DqHead show ?thesis by (simp add: rq_dequeue_def go ret)
  next
    case DqStubClear
    then have stub: "STUB \<notin> set (rq_chain s)" using D by (simp add: rq_inv_deq_def)
    have "rq_inv_enq (rq_clear STUB s)"
      using E by (auto simp: rq_inv_enq_def rq_clear_def)
    then have "rq_inv_chain (rq_dgoto DqStubSwap (rq_clear STUB s))" "rq_inv_enq (rq_dgoto DqStubSwap (rq_clear STUB s))"
      using rq_deq_moves(1,2) [OF rq_chain_clear [OF C stub], where l = DqStubSwap] DqStubClear by (simp_all add: rq_clear_def)
    moreover have "rq_inv_deq (rq_dgoto DqStubSwap (rq_clear STUB s))"
      using D DqStubClear by (simp add: rq_inv_deq_def rq_dgoto_def rq_clear_def)
    ultimately show ?thesis by (simp add: rq_inv_def rq_dequeue_def DqStubClear)
  next
    case DqStubSwap
    let ?s = "rq_dgoto (DqStubStore (rq_head s)) (rq_swap STUB s)"
    have stub: "STUB \<notin> set (rq_chain s)" "rq_next s STUB = None" using D DqStubSwap by (simp_all add: rq_inv_deq_def)
    have owed: "rq_owed ?s = insert (rq_head s, STUB) (rq_owed s)"
      using DqStubSwap by (auto simp: rq_owed_def rq_dgoto_def rq_swap_def)
    have "rq_inv_chain ?s" by (rule rq_chain_swap [OF C stub owed]) (simp_all add: rq_dgoto_def rq_swap_def)
    moreover have "rq_inv_enq ?s" using E by (auto simp: rq_inv_enq_def rq_dgoto_def rq_swap_def)
    moreover have "rq_inv_deq ?s" using D DqStubSwap by (simp add: rq_inv_deq_def rq_dgoto_def rq_swap_def)
    ultimately show ?thesis by (simp add: rq_inv_def rq_dequeue_def DqStubSwap)
  next
    case (DqStubStore p)
    let ?s = "rq_dgoto DqLast (rq_store p STUB s)"
    have pt: "(p, STUB) \<in> rq_owed s" using DqStubStore by (auto simp: rq_owed_def)
    have p: "p \<in> set (rq_chain s)" using nexts_in [OF rq_chainD(7) [OF C pt]] by simp
    have owed: "rq_owed ?s = rq_owed s - {(p, STUB)}"
      using DqStubStore rq_enqD(6) [OF E] by (auto simp: rq_owed_def rq_dgoto_def rq_store_def)
    have "rq_inv_chain ?s" by (rule rq_chain_store [OF C pt owed]) (simp_all add: rq_dgoto_def rq_store_def)
    moreover have "rq_enq s i \<noteq> EqSwap p" for i using rq_enqD(2) [OF E, of i p] p by auto
    then have "rq_inv_enq ?s" using E by (auto simp: rq_inv_enq_def rq_dgoto_def rq_store_def)
    moreover have "rq_inv_deq ?s" using D DqStubStore by (simp add: rq_inv_deq_def rq_dgoto_def rq_store_def)
    ultimately show ?thesis by (simp add: rq_inv_def rq_dequeue_def DqStubStore)
  next
    case DqLast
    then show ?thesis by (cases "rq_next s (rq_tail s)") (simp_all add: rq_dequeue_def ret data)
  qed
qed

lemma rq_inv_reach: "rq_reach s \<Longrightarrow> rq_inv s"
proof (erule reach_invariant)
  fix s assume "s = rq_new"
  then show "rq_inv s"
    by (simp add: rq_new_def rq_inv_def rq_inv_chain_def rq_inv_enq_def rq_inv_deq_def rq_owed_def)
next
  fix s t assume "rq_inv s" "rq_step s t"
  from this(2,1) show "rq_inv t"
  proof cases
    case (rq_begin_enqueue i u)
    with \<open>rq_inv s\<close> show ?thesis by (auto intro: rq_begin_enqueue_inv)
  next
    case rq_begin_dequeue
    have "rq_inv_deq (rq_dgoto DqLoad s)" by (simp add: rq_inv_deq_def rq_dgoto_def)
    with rq_deq_moves(1,2) [OF rq_invD(1,2) [OF \<open>rq_inv s\<close>], where l = DqLoad] rq_begin_dequeue
    show ?thesis by (simp add: rq_inv_def)
  qed (auto intro: rq_enqueue_inv rq_dequeue_inv)
qed


section \<open>The abstract queue of a state\<close>

fun rq_rest :: "(nat \<Rightarrow> nat option) \<Rightarrow> nat \<Rightarrow> nat list \<Rightarrow> (nat \<times> bool) list" where
  "rq_rest nx p [] = []"
| "rq_rest nx p (c # cs) = (if c = STUB then [] else [(c, nx p \<noteq> None)]) @ rq_rest nx c cs"

fun rq_list :: "(nat \<Rightarrow> nat option) \<Rightarrow> nat list \<Rightarrow> (nat \<times> bool) list" where
  "rq_list nx [] = []"
| "rq_list nx (c # cs) = (if c = STUB then [] else [(c, True)]) @ rq_rest nx c cs"

definition rq_items :: "rq \<Rightarrow> (nat \<times> bool) list" where
  "rq_items s = rq_list (rq_next s) (rq_chain s)"

lemma rq_rest_cong: "(\<And>x. x \<in> set (p # cs) \<Longrightarrow> nx x = nx' x) \<Longrightarrow> rq_rest nx p cs = rq_rest nx' p cs"
  by (induction cs arbitrary: p) auto

lemma rq_rest_snoc: "rq_rest nx p (cs @ [t]) = rq_rest nx p cs @ (if t = STUB then [] else [(t, nx (last (p # cs)) \<noteq> None)])"
  by (induction cs arbitrary: p) auto

lemma rq_rest_fst: "(t, b) \<in> set (rq_rest nx p cs) \<Longrightarrow> t \<in> set cs"
  by (induction cs arbitrary: p) (auto split: if_splits)

lemma rq_mark_other: "(\<And>b. (t, b) \<notin> set q) \<Longrightarrow> rq_mark t q = q"
  unfolding rq_mark_def by (rule map_idI) auto

lemma rq_mark_simps [simp]: "rq_mark t [] = []" "rq_mark t (q @ q') = rq_mark t q @ rq_mark t q'"
    "rq_mark t ((u, b) # q) = (u, b \<or> u = t) # rq_mark t q"
  by (simp_all add: rq_mark_def)

lemma rq_rest_store:
  assumes "distinct (p # cs)" and "(q, t) \<in> nexts (p # cs)"
  shows "rq_rest (nx(q := Some t)) p cs = rq_mark t (rq_rest nx p cs)"
  using assms
proof (induction cs arbitrary: p)
  case (Cons c cs)
  show ?case
  proof (cases "q = p \<and> t = c")
    case True
    have "rq_rest (nx(p := Some c)) c cs = rq_rest nx c cs" by (rule rq_rest_cong) (use Cons.prems(1) in auto)
    moreover have "rq_mark c (rq_rest nx c cs) = rq_rest nx c cs"
      by (rule rq_mark_other) (use Cons.prems(1) in \<open>auto dest: rq_rest_fst\<close>)
    ultimately show ?thesis using True by (cases "c = STUB") (simp_all del: fun_upd_apply add: fun_upd_same)
  next
    case False
    with Cons.prems(2) have in': "(q, t) \<in> nexts (c # cs)" by auto
    have "q \<noteq> p" "t \<noteq> c" using nexts_in [OF in'] nexts_hd [of "c # cs" q] in' Cons.prems(1) by auto
    with Cons.IH [OF _ in'] Cons.prems(1) show ?thesis by simp
  qed
qed simp

lemma rq_list_cong: "(\<And>x. x \<in> set cs \<Longrightarrow> nx x = nx' x) \<Longrightarrow> rq_list nx cs = rq_list nx' cs"
  by (cases cs) (auto intro: rq_rest_cong)

lemma rq_list_snoc: "cs \<noteq> [] \<Longrightarrow> rq_list nx (cs @ [t]) = rq_list nx cs @ (if t = STUB then [] else [(t, nx (last cs) \<noteq> None)])"
  by (cases cs) (simp_all add: rq_rest_snoc)

lemma rq_list_store:
  assumes "distinct cs" and "(q, t) \<in> nexts cs"
  shows "rq_list (nx(q := Some t)) cs = rq_mark t (rq_list nx cs)"
proof (cases cs)
  case (Cons c ds)
  have "t \<noteq> c" using nexts_hd [OF assms(1), of q] assms(2) Cons by auto
  with rq_rest_store [of c ds q t nx] assms Cons show ?thesis by simp
qed (use assms(2) in simp)

lemma rq_list_stub: "(STUB, b) \<notin> set (rq_list nx cs)"
proof -
  have "(STUB, b) \<notin> set (rq_rest nx p cs)" for p cs by (induction cs arbitrary: p) auto
  then show ?thesis by (cases cs) auto
qed

lemma rq_list_tail: "rq_list nx (c # n # cs) = (if c = STUB then [] else [(c, True)]) @ rq_list (nx(c := Some n)) (n # cs)"
    if "distinct (c # n # cs)" "nx c = Some n"
proof -
  have "nx(c := Some n) = nx" using that(2) by auto
  with that(2) show ?thesis by simp
qed

lemma rq_enqueue_items:
  assumes inv: "rq_inv s"
  shows "case rq_enq s i of
      EqSwap t \<Rightarrow> rq_items (rq_enqueue i s) = rq_items s @ [(t, False)]
    | EqStore p t \<Rightarrow> rq_items (rq_enqueue i s) = rq_mark t (rq_items s)
    | _ \<Rightarrow> rq_items (rq_enqueue i s) = rq_items s"
proof -
  note C = rq_chainD [OF rq_invD(1) [OF inv]] and E = rq_enqD [OF rq_invD(2) [OF inv]]
  show ?thesis
  proof (cases "rq_enq s i")
    case (EqClear t)
    have "t \<notin> set (rq_chain s)" using E(2) [of i t] EqClear by simp
    then have "rq_list ((rq_next s)(t := None)) (rq_chain s) = rq_list (rq_next s) (rq_chain s)"
      by (intro rq_list_cong) auto
    with EqClear show ?thesis by (simp add: rq_enqueue_def rq_items_def rq_goto_def rq_clear_def)
  next
    case (EqSwap t)
    have "t \<noteq> STUB" using E(1) [of i t] EqSwap by simp
    with EqSwap C(1,4,5) show ?thesis by (simp add: rq_enqueue_def rq_items_def rq_goto_def rq_swap_def rq_list_snoc)
  next
    case (EqStore p t)
    have "(p, t) \<in> nexts (rq_chain s)" by (rule rq_owed_nexts [OF rq_invD(1) [OF inv] EqStore])
    with EqStore C(2) show ?thesis by (simp add: rq_enqueue_def rq_items_def rq_goto_def rq_store_def rq_list_store)
  qed (simp add: rq_enqueue_def)
qed


lemma rq_items_move:
  "rq_items (rq_dgoto l s) = rq_items s" "rq_items (rq_return r s) = rq_items s"
  by (simp_all add: rq_items_def rq_defs)

lemma rq_items_advance:
  assumes "rq_inv_chain s" and "rq_next s (rq_tail s) = Some n"
  shows "rq_items s = (if rq_tail s = STUB then [] else [(rq_tail s, True)]) @ rq_items (rq_advance n s)"
proof -
  obtain cs where "rq_chain s = rq_tail s # n # cs" by (rule rq_next_tail [OF assms])
  with assms(2) show ?thesis by (simp add: rq_items_def rq_advance_def)
qed

lemma rq_items_tail:
  assumes "rq_inv_chain s"
  obtains cs where "rq_chain s = rq_tail s # cs"
    "rq_items s = (if rq_tail s = STUB then [] else [(rq_tail s, True)]) @ rq_rest (rq_next s) (rq_tail s) cs"
  using rq_chainD(1,3) [OF assms] that by (cases "rq_chain s") (auto simp: rq_items_def)

lemma rq_dequeue_items:
  assumes inv: "rq_inv s" and run: "rq_dpc s \<noteq> DqIdle"
  shows "if rq_dpc (rq_dequeue s) = DqIdle
    then \<exists>r. rq_answer (rq_dequeue s) = Some r \<and> rq_deq (rq_items s) r (rq_items (rq_dequeue s))
    else rq_items (rq_dequeue s) = rq_items s"
proof -
  note C = rq_invD(1) [OF inv] and E = rq_invD(2) [OF inv] and D = rq_invD(3) [OF inv]
  note adv = rq_items_advance [OF C]
  obtain cs where cs: "rq_chain s = rq_tail s # cs"
    "rq_items s = (if rq_tail s = STUB then [] else [(rq_tail s, True)]) @ rq_rest (rq_next s) (rq_tail s) cs"
    by (rule rq_items_tail [OF C])
  have idle: "rq_dpc (rq_return r t) = DqIdle" "rq_answer (rq_return r t) = Some r" "rq_dpc (rq_dgoto l t) = l" for r t l
    by (simp_all add: rq_return_def rq_dgoto_def)
  note simps = rq_dequeue_def idle rq_items_move
  show ?thesis
  proof (cases "rq_dpc s")
    case DqLoad
    show ?thesis
    proof (cases "rq_tail s = STUB")
      case True
      have "STUB \<notin> set cs" using rq_chainD(2) [OF C] cs(1) True by simp
      then have "case rq_items s of [] \<Rightarrow> True | x # _ \<Rightarrow> \<not> snd x" if "rq_next s STUB = None"
        using cs(2) True that by (cases cs) auto
      with DqLoad True adv show ?thesis by (cases "rq_next s STUB") (simp_all add: simps)
    next
      case False
      with DqLoad adv show ?thesis by (cases "rq_next s (rq_tail s)") (simp_all add: simps)
    qed
  next
    case DqReload
    then have "rq_tail s \<noteq> STUB" using D by (simp add: rq_inv_deq_def)
    with DqReload adv show ?thesis by (cases "rq_next s (rq_tail s)") (simp_all add: simps)
  next
    case DqHead
    then have "rq_tail s \<noteq> STUB" using D by (simp add: rq_inv_deq_def)
    with DqHead cs(2) show ?thesis by (simp add: simps)
  next
    case DqStubClear
    then have "STUB \<notin> set (rq_chain s)" using D by (simp add: rq_inv_deq_def)
    then have "rq_list ((rq_next s)(STUB := None)) (rq_chain s) = rq_list (rq_next s) (rq_chain s)" by (intro rq_list_cong) auto
    with DqStubClear show ?thesis by (simp add: simps) (simp add: rq_items_def rq_clear_def)
  next
    case DqStubSwap
    with rq_chainD(1) [OF C] show ?thesis by (simp add: simps) (simp add: rq_items_def rq_swap_def rq_list_snoc)
  next
    case (DqStubStore p)
    have "(p, STUB) \<in> nexts (rq_chain s)" by (rule rq_chainD(7) [OF C]) (simp add: rq_owed_def DqStubStore)
    then have "rq_list ((rq_next s)(p := Some STUB)) (rq_chain s) = rq_list (rq_next s) (rq_chain s)"
      using rq_chainD(2) [OF C] by (simp add: rq_list_store rq_mark_other rq_list_stub)
    with DqStubStore show ?thesis by (simp add: simps) (simp add: rq_items_def rq_store_def)
  next
    case DqLast
    then have "rq_tail s \<noteq> STUB" using D by (simp add: rq_inv_deq_def)
    with DqLast adv cs(2) show ?thesis by (cases "rq_next s (rq_tail s)") (simp_all add: simps)
  qed (use run in simp)
qed

text \<open>
  C6. Refinement: a step of an enqueueing thread is, in the abstract queue, nothing, the append of the
  task, or the mark that its link is there; a step of \<open>dequeue\<close> that returns is an abstract dequeue
  with the same answer, and its other steps change nothing.
\<close>

theorem rq_refines:
  assumes "rq_reach s"
  shows "(\<forall>i. case rq_enq s i of
        EqSwap t \<Rightarrow> rq_items (rq_enqueue i s) = rq_items s @ [(t, False)]
      | EqStore p t \<Rightarrow> rq_items (rq_enqueue i s) = rq_mark t (rq_items s)
      | _ \<Rightarrow> rq_items (rq_enqueue i s) = rq_items s)
    \<and> (rq_dpc s = DqIdle
       \<or> (if rq_dpc (rq_dequeue s) = DqIdle
          then \<exists>r. rq_answer (rq_dequeue s) = Some r \<and> rq_deq (rq_items s) r (rq_items (rq_dequeue s))
          else rq_items (rq_dequeue s) = rq_items s))"
  using rq_enqueue_items [OF rq_inv_reach [OF assms]] rq_dequeue_items [OF rq_inv_reach [OF assms]] by blast


text \<open>Thread 0 has swapped \<open>head\<close> for task 1 but not linked it, thread 1 has linked task 2; a dequeue begins.\<close>

definition rq_demo :: rq where
  "rq_demo = rq_dgoto DqLoad (rq_enqueue 1 (rq_enqueue 1 (rq_enqueue 1 (rq_goto 1 (EqClear 2)
     (rq_enqueue 0 (rq_enqueue 0 (rq_goto 0 (EqClear 1) rq_new)))))))"

lemmas rq_eval = rq_new_def rq_goto_def rq_clear_def rq_swap_def rq_store_def rq_enqueue_def rq_dgoto_def STUB_def

lemma rq_demo_reach: "rq_reach rq_demo"
proof -
  have "rq_reach rq_new" by (rule reach_init) simp
  then have "rq_reach (rq_goto 0 (EqClear 1) rq_new)"
    by (rule reach_step) (rule rq_begin_enqueue; simp add: rq_eval)
  then have "rq_reach (rq_enqueue 0 (rq_goto 0 (EqClear 1) rq_new))"
    by (rule reach_step) (rule rq_run_enqueue; simp add: rq_eval)
  then have "rq_reach (rq_enqueue 0 (rq_enqueue 0 (rq_goto 0 (EqClear 1) rq_new)))" (is "rq_reach ?a")
    by (rule reach_step) (rule rq_run_enqueue; simp add: rq_eval)
  then have "rq_reach (rq_goto 1 (EqClear 2) ?a)"
    by (rule reach_step) (rule rq_begin_enqueue; simp add: rq_eval)
  then have "rq_reach (rq_enqueue 1 (rq_goto 1 (EqClear 2) ?a))"
    by (rule reach_step) (rule rq_run_enqueue; simp add: rq_eval)
  then have "rq_reach (rq_enqueue 1 (rq_enqueue 1 (rq_goto 1 (EqClear 2) ?a)))"
    by (rule reach_step) (rule rq_run_enqueue; simp add: rq_eval)
  then have "rq_reach (rq_enqueue 1 (rq_enqueue 1 (rq_enqueue 1 (rq_goto 1 (EqClear 2) ?a))))"
    by (rule reach_step) (rule rq_run_enqueue; simp add: rq_eval)
  then show ?thesis unfolding rq_demo_def
    by (rule reach_step) (rule rq_begin_dequeue; simp add: rq_eval)
qed

theorem rq_refines_witness:
  "rq_answer (rq_dequeue rq_demo) = Some DqEmpty \<and> rq_items rq_demo = [(1, False), (2, True)]
   \<and> (\<exists>r. rq_answer (rq_dequeue rq_demo) = Some r \<and> rq_deq (rq_items rq_demo) r (rq_items (rq_dequeue rq_demo)))"
proof -
  have a: "rq_dpc rq_demo = DqLoad" "rq_dpc (rq_dequeue rq_demo) = DqIdle" "rq_answer (rq_dequeue rq_demo) = Some DqEmpty"
    "rq_items rq_demo = [(1, False), (2, True)]"
    by (simp_all add: rq_demo_def rq_eval rq_dequeue_def rq_return_def rq_items_def)
  with rq_refines [OF rq_demo_reach] show ?thesis by simp
qed

text \<open>How many steps the operations still have.\<close>

fun eq_rank :: "enq_pc \<Rightarrow> nat" where
  "eq_rank EqIdle = 0"
| "eq_rank (EqStore p t) = 1"
| "eq_rank (EqSwap t) = 2"
| "eq_rank (EqClear t) = 3"

fun dq_rank :: "deq_pc \<Rightarrow> nat" where
  "dq_rank DqIdle = 0"
| "dq_rank DqLast = 1"
| "dq_rank (DqStubStore p) = 2"
| "dq_rank DqStubSwap = 3"
| "dq_rank DqStubClear = 4"
| "dq_rank DqHead = 5"
| "dq_rank DqReload = 6"
| "dq_rank DqLoad = 7"

lemma eq_rank_less: "rq_enq s i \<noteq> EqIdle \<Longrightarrow> eq_rank (rq_enq (rq_enqueue i s) i) < eq_rank (rq_enq s i)"
  by (cases "rq_enq s i") (simp_all add: rq_enqueue_def rq_defs)

lemma dq_rank_less: "rq_dpc s \<noteq> DqIdle \<Longrightarrow> dq_rank (rq_dpc (rq_dequeue s)) < dq_rank (rq_dpc s)"
  by (cases "rq_dpc s") (simp_all add: rq_dequeue_def rq_defs split: option.splits)

text \<open>A dequeue that no enqueue overlaps.\<close>

lemma rq_done: "rq_dpc s = DqIdle \<Longrightarrow> (rq_dequeue ^^ n) s = s"
  by (induction n) (simp_all add: rq_dequeue_def)

lemma rq_not_owed: "(\<And>i. rq_enq s i = EqIdle) \<Longrightarrow> rq_dpc s \<in> {DqLoad, DqReload} \<Longrightarrow> rq_owed s = {}"
  by (auto simp: rq_owed_def)

lemma rq_solo_node:
  assumes inv: "rq_inv_chain s" and idle: "\<And>i. rq_enq s i = EqIdle" and pc: "rq_dpc s \<in> {DqLoad, DqReload}"
    and tail: "rq_tail s \<noteq> STUB"
  shows "rq_dpc ((rq_dequeue ^^ 6) s) = DqIdle \<and> rq_answer ((rq_dequeue ^^ 6) s) = Some (DqData (rq_tail s))"
proof (cases "rq_next s (rq_tail s)")
  case (Some n)
  then have step: "rq_dequeue s = rq_return (DqData (rq_tail s)) (rq_advance n s)"
    using pc tail by (auto simp: rq_dequeue_def)
  have "(rq_dequeue ^^ 6) s = (rq_dequeue ^^ 5) (rq_dequeue s)" by (simp add: eval_nat_numeral funpow_swap1)
  also have "\<dots> = rq_dequeue s" by (rule rq_done) (simp add: step rq_return_def)
  finally show ?thesis by (simp add: step rq_return_def)
next
  case None
  have "rq_chain s = [rq_tail s]"
  proof (cases "rq_chain s" rule: remdups_adj.cases)
    case (3 x y cs)
    then have "x = rq_tail s" using rq_chainD(3) [OF inv] by simp
    with 3 rq_chainD(6) [OF inv, of x y] rq_not_owed [OF idle pc] None show ?thesis by simp
  qed (use rq_chainD(1,3) [OF inv] in auto)
  then have head: "rq_head s = rq_tail s" using rq_chainD(4) [OF inv] by simp
  have "rq_dequeue s = rq_dgoto DqHead s" using None tail pc by (auto simp: rq_dequeue_def)
  then show ?thesis using head tail
    by (simp add: eval_nat_numeral funpow_swap1) (simp add: rq_dequeue_def rq_defs)
qed

lemma rq_solo:
  assumes inv: "rq_inv_chain s" and idle: "\<And>i. rq_enq s i = EqIdle" and pc: "rq_dpc s = DqLoad"
  shows "rq_dpc ((rq_dequeue ^^ 7) s) = DqIdle \<and>
    rq_answer ((rq_dequeue ^^ 7) s) = Some (case rq_items s of [] \<Rightarrow> DqEmpty | (t, b) # _ \<Rightarrow> DqData t)"
proof -
  have split: "(rq_dequeue ^^ 7) s = (rq_dequeue ^^ 6) (rq_dequeue s)" by (simp add: eval_nat_numeral funpow_swap1)
  have again: "(rq_dequeue ^^ 7) s = rq_dequeue ((rq_dequeue ^^ 6) s)" by (simp add: eval_nat_numeral)
  obtain cs where cs: "rq_chain s = rq_tail s # cs"
    "rq_items s = (if rq_tail s = STUB then [] else [(rq_tail s, True)]) @ rq_rest (rq_next s) (rq_tail s) cs"
    by (rule rq_items_tail [OF inv])
  show ?thesis
  proof (cases "rq_tail s = STUB")
    case False
    from rq_solo_node [OF inv idle _ False] pc
    have node: "rq_dpc ((rq_dequeue ^^ 6) s) = DqIdle" "rq_answer ((rq_dequeue ^^ 6) s) = Some (DqData (rq_tail s))" by simp_all
    have "(rq_dequeue ^^ 7) s = (rq_dequeue ^^ 6) s" unfolding again using rq_done [OF node(1), of 1] by simp
    with node cs(2) False show ?thesis by simp
  next
    case True
    show ?thesis
    proof (cases "rq_next s STUB")
      case None
      have "cs = []"
      proof (cases cs)
        case (Cons y ys)
        with cs(1) rq_chainD(6) [OF inv, of STUB y] rq_not_owed [OF idle] pc None True show ?thesis by simp
      qed
      have step: "rq_dequeue s = rq_return DqEmpty s" using pc True None by (simp add: rq_dequeue_def)
      have "(rq_dequeue ^^ 6) (rq_dequeue s) = rq_dequeue s" by (rule rq_done) (simp add: step rq_return_def)
      with \<open>cs = []\<close> cs(2) True show ?thesis unfolding split by (simp add: step rq_return_def)
    next
      case (Some n)
      let ?t = "rq_dgoto DqReload (rq_advance n s)"
      have step: "rq_dequeue s = ?t" using pc True Some by (simp add: rq_dequeue_def)
      have Some': "rq_next s (rq_tail s) = Some n" using Some True by simp
      obtain ds where ds: "rq_chain s = rq_tail s # n # ds" by (rule rq_next_tail [OF inv Some'])
      have n: "n \<noteq> STUB" using rq_next_tail_not [OF inv Some'] True by simp
      have "rq_owed ?t = rq_owed (rq_advance n s)" by (rule rq_owed_dgoto) (simp_all add: rq_advance_def pc)
      then have "rq_inv_chain ?t"
        using rq_chain_advance [OF inv Some', of ?t] by (simp add: rq_owed_store) (simp add: rq_dgoto_def rq_advance_def)
      from rq_solo_node [OF this] n idle
      have node: "rq_dpc ((rq_dequeue ^^ 6) ?t) = DqIdle" "rq_answer ((rq_dequeue ^^ 6) ?t) = Some (DqData n)"
        by (simp_all add: rq_dgoto_def rq_advance_def)
      have "rq_items s = (n, True) # rq_rest (rq_next s) n ds" using ds Some True n by (simp add: rq_items_def)
      with node show ?thesis unfolding split step by simp
    qed
  qed
qed

text \<open>
  Progress: every step of \<open>enqueue\<close> and \<open>dequeue\<close> brings the call closer to its return (neither
  ever waits for another thread), and a \<open>dequeue\<close> that no enqueue overlaps returns within 7 steps the
  first task of the queue, or \<open>Empty\<close> if there is none: never \<open>Inconsistent\<close>.
\<close>

theorem rq_progress:
  assumes "rq_reach s"
  shows "(rq_enq s i \<noteq> EqIdle \<longrightarrow> eq_rank (rq_enq (rq_enqueue i s) i) < eq_rank (rq_enq s i))
    \<and> (rq_dpc s \<noteq> DqIdle \<longrightarrow> dq_rank (rq_dpc (rq_dequeue s)) < dq_rank (rq_dpc s))
    \<and> ((\<forall>j. rq_enq s j = EqIdle) \<and> rq_dpc s = DqLoad \<longrightarrow>
        rq_dpc ((rq_dequeue ^^ 7) s) = DqIdle \<and>
        rq_answer ((rq_dequeue ^^ 7) s) = Some (case rq_items s of [] \<Rightarrow> DqEmpty | (t, b) # _ \<Rightarrow> DqData t))"
  using eq_rank_less dq_rank_less rq_solo [OF rq_invD(1) [OF rq_inv_reach [OF assms]]] by blast

theorem rq_progress_witness:
  "dq_rank (rq_dpc rq_demo) = 7 \<and> dq_rank (rq_dpc (rq_dequeue rq_demo)) < 7"
proof -
  have "rq_dpc rq_demo = DqLoad" by (simp add: rq_demo_def rq_eval)
  with rq_progress [OF rq_demo_reach] show ?thesis by simp
qed

end
