(* ===== verification/Futures_Unordered.thy ===== *)
theory Futures_Unordered
  imports Ready_Queue Atomic_Waker
begin

text \<open>
  \<open>FuturesUnordered\<close> (\<open>futures-util/src/stream/futures_unordered/mod.rs\<close>, \<open>task.rs\<close>): a set of tasks,
  each with a future, that are polled only when they have been woken. One thread owns the set and
  pushes, polls and drops; any number of threads hold wakers of its tasks and wake them at any time,
  also while the task is being polled.

  A transition system with one step for every access to shared memory: the \<open>queued\<close> and \<open>woken\<close>
  flags of the tasks, the ready-to-run queue, and the waker of the task that polls the set. The queue is the
  abstract one that theory \<open>Ready_Queue\<close> shows the code's queue to refine: an enqueue takes two steps (the
  swap and the link), and a dequeue answers what \<open>rq_deq\<close> allows. \<open>register\<close> and \<open>wake\<close> of the
  \<open>AtomicWaker\<close> are one step each (theory \<open>Atomic_Waker\<close>).

  What the futures do is up to them: a poll of a task may leave any future behind, or end with any
  output, or panic. The intrusive list of all tasks is a list here; theory \<open>Task_List\<close> shows that its
  pointer operations implement it.
\<close>

section \<open>State\<close>

text \<open>The arguments and local variables of \<open>poll_next\<close>.\<close>

record fu_ctx =
  cx_waker :: waker
  cx_len :: nat
  cx_polled :: nat
  cx_yielded :: nat

text \<open>The access the owner performs next; \<open>'a\<close> is the output of the futures, \<open>None\<close> for a panic.\<close>

datatype 'a fu_pc =
    FuIdle
  | FuPushEnq nat | FuPushLink nat
  | FuLoop fu_ctx | FuTask fu_ctx nat | FuReset fu_ctx nat | FuUnwoken fu_ctx nat | FuPolling fu_ctx nat
  | FuYield fu_ctx nat | FuRelease nat "'a option"
  | FuDropping | FuDropRelease nat
  | FuGone | FuCrash

text \<open>The access a thread inside \<open>Task::wake_by_ref\<close> performs next.\<close>

datatype wk_pc = WkIdle | WkUpgrade nat | WkWoken nat | WkSwap nat | WkEnq nat | WkLink nat | WkParent nat

text \<open>
  Tasks are numbered from 1 in the order of the pushes. The fields after \<open>fu_thr\<close> are history
  variables that no step reads: the number of tasks, the last return value of \<open>poll_next\<close>, the tasks
  that completed with their outputs, the tasks whose reference the set has given up, the waker of the
  last \<open>Pending\<close> and whether it has been woken since, the tasks pushed since the last \<open>poll_next\<close>, and
  those whose waker has been woken since their last poll began.
\<close>

record ('f, 'a) fu =
  fu_queue :: "(nat \<times> bool) list"
  fu_cell :: "waker option"
  fu_all :: "nat list"
  fu_term :: bool
  fu_alive :: bool
  fu_future :: "nat \<Rightarrow> 'f option"
  fu_queued :: "nat \<Rightarrow> bool"
  fu_woken :: "nat \<Rightarrow> bool"
  fu_pc :: "'a fu_pc"
  fu_thr :: "nat \<Rightarrow> wk_pc"
  fu_count :: nat
  fu_ret :: "'a option poll option"
  fu_done :: "(nat \<times> 'a option) list"
  fu_freed :: "nat set"
  fu_wait :: "waker option"
  fu_woke :: bool
  fu_pushed :: "nat set"
  fu_notified :: "nat set"

definition fu_new :: "('f, 'a) fu" where
  "fu_new = \<lparr>fu_queue = [], fu_cell = None, fu_all = [], fu_term = False, fu_alive = True,
     fu_future = (\<lambda>_. None), fu_queued = (\<lambda>_. False), fu_woken = (\<lambda>_. False), fu_pc = FuIdle,
     fu_thr = (\<lambda>_. WkIdle), fu_count = 0, fu_ret = None, fu_done = [], fu_freed = {}, fu_wait = None,
     fu_woke = False, fu_pushed = {}, fu_notified = {}\<rparr>"

definition fu_len :: "('f, 'a) fu \<Rightarrow> nat" where
  "fu_len s = length (fu_all s)"

definition fu_is_empty :: "('f, 'a) fu \<Rightarrow> bool" where
  "fu_is_empty s \<longleftrightarrow> fu_all s = []"


definition fu_goto :: "'a fu_pc \<Rightarrow> ('f, 'a) fu \<Rightarrow> ('f, 'a) fu" where
  "fu_goto l s = s\<lparr>fu_pc := l\<rparr>"

definition fu_tgoto :: "nat \<Rightarrow> wk_pc \<Rightarrow> ('f, 'a) fu \<Rightarrow> ('f, 'a) fu" where
  "fu_tgoto i l s = s\<lparr>fu_thr := (fu_thr s)(i := l)\<rparr>"

text \<open>\<open>enqueue\<close>: its two shared accesses; and \<open>link\<close>, \<open>unlink\<close> of the list of all tasks.\<close>

definition fu_enq :: "nat \<Rightarrow> ('f, 'a) fu \<Rightarrow> ('f, 'a) fu" where
  "fu_enq t s = s\<lparr>fu_queue := fu_queue s @ [(t, False)]\<rparr>"

definition fu_enq_link :: "nat \<Rightarrow> ('f, 'a) fu \<Rightarrow> ('f, 'a) fu" where
  "fu_enq_link t s = s\<lparr>fu_queue := rq_mark t (fu_queue s)\<rparr>"

definition fu_link :: "nat \<Rightarrow> ('f, 'a) fu \<Rightarrow> ('f, 'a) fu" where
  "fu_link t s = s\<lparr>fu_all := t # fu_all s\<rparr>"

definition fu_unlink :: "nat \<Rightarrow> ('f, 'a) fu \<Rightarrow> ('f, 'a) fu" where
  "fu_unlink t s = s\<lparr>fu_all := remove1 t (fu_all s)\<rparr>"

text \<open>\<open>cx.waker().wake_by_ref()\<close> of the polling task, and \<open>waker.wake()\<close> of the parent's cell.\<close>

definition fu_self_wake :: "('f, 'a) fu \<Rightarrow> ('f, 'a) fu" where
  "fu_self_wake s = s\<lparr>fu_woke := True\<rparr>"

definition fu_parent_wake :: "('f, 'a) fu \<Rightarrow> ('f, 'a) fu" where
  "fu_parent_wake s = s\<lparr>fu_cell := None, fu_woke := fu_woke s \<or> fu_cell s \<noteq> None \<and> fu_cell s = fu_wait s\<rparr>"

section \<open>push\<close>

definition fu_push :: "'f \<Rightarrow> ('f, 'a) fu \<Rightarrow> ('f, 'a) fu" where
  "fu_push future s =
     (let t = Suc (fu_count s) in
      fu_goto (FuPushEnq t) (fu_link t
        (s\<lparr>fu_count := t, fu_future := (fu_future s)(t \<mapsto> future), fu_queued := (fu_queued s)(t := True),
           fu_woken := (fu_woken s)(t := False), fu_term := False, fu_pushed := insert t (fu_pushed s)\<rparr>)))"

section \<open>release_task\<close>

definition fu_release_task :: "nat \<Rightarrow> ('f, 'a) fu \<Rightarrow> ('f, 'a) fu" where
  "fu_release_task t s =
     (let prev = fu_queued s t;
          s = s\<lparr>fu_queued := (fu_queued s)(t := True), fu_future := (fu_future s)(t := None)\<rparr>
      in if prev then s else s\<lparr>fu_freed := insert t (fu_freed s)\<rparr>)"

section \<open>poll_next\<close>

definition fu_poll_next :: "waker \<Rightarrow> ('f, 'a) fu \<Rightarrow> ('f, 'a) fu" where
  "fu_poll_next w s =
     s\<lparr>fu_cell := Some w, fu_wait := Some w, fu_woke := False, fu_pushed := {},
       fu_pc := FuLoop \<lparr>cx_waker = w, cx_len = fu_len s, cx_polled = 0, cx_yielded = 0\<rparr>\<rparr>"

definition fu_return :: "'a option poll \<Rightarrow> ('f, 'a) fu \<Rightarrow> ('f, 'a) fu" where
  "fu_return r s = s\<lparr>fu_ret := Some r, fu_pc := FuIdle, fu_wait := (if r = Pending then fu_wait s else None)\<rparr>"

text \<open>What \<open>poll_next\<close> does with the answer of \<open>dequeue\<close>.\<close>

fun fu_dequeued :: "fu_ctx \<Rightarrow> deq_result \<Rightarrow> ('f, 'a) fu \<Rightarrow> ('f, 'a) fu" where
  "fu_dequeued c DqEmpty s =
     (if fu_is_empty s then fu_return (Ready None) (s\<lparr>fu_term := True\<rparr>) else fu_return Pending s)"
| "fu_dequeued c DqInconsistent s = fu_return Pending (fu_self_wake s)"
| "fu_dequeued c (DqData t) s = fu_goto (FuTask c t) s"

text \<open>
  The task that was dequeued: one without a future is one that \<open>release_task\<close> left in the queue, and
  its reference is given up here; otherwise it is unlinked.
\<close>

definition fu_take_task :: "fu_ctx \<Rightarrow> nat \<Rightarrow> ('f, 'a) fu \<Rightarrow> ('f, 'a) fu" where
  [simp]: "fu_take_task c t s =
     (case fu_future s t of
        Some _ \<Rightarrow> fu_goto (FuReset c t) (fu_unlink t s)
      | None \<Rightarrow>
          if t \<in> set (fu_all s) then fu_goto FuCrash s
          else fu_goto (FuLoop c) (s\<lparr>fu_freed := insert t (fu_freed s)\<rparr>))"

text \<open>The swap of \<open>queued\<close> with the assertion, and the store to \<open>woken\<close>.\<close>

definition fu_reset :: "fu_ctx \<Rightarrow> nat \<Rightarrow> ('f, 'a) fu \<Rightarrow> ('f, 'a) fu" where
  [simp]: "fu_reset c t s =
     (let prev = fu_queued s t;
          s = s\<lparr>fu_queued := (fu_queued s)(t := False), fu_notified := fu_notified s - {t}\<rparr>
      in if prev then fu_goto (FuUnwoken c t) s else fu_goto FuCrash s)"

definition fu_unwoken :: "fu_ctx \<Rightarrow> nat \<Rightarrow> ('f, 'a) fu \<Rightarrow> ('f, 'a) fu" where
  [simp]: "fu_unwoken c t s = fu_goto (FuPolling c t) (s\<lparr>fu_woken := (fu_woken s)(t := False)\<rparr>)"

text \<open>What follows a poll that was \<open>Pending\<close>.\<close>

definition fu_yield :: "fu_ctx \<Rightarrow> nat \<Rightarrow> ('f, 'a) fu \<Rightarrow> ('f, 'a) fu" where
  [simp]: "fu_yield c t s =
     (let yielded = cx_yielded c + of_bool (fu_woken s t); s = fu_link t s
      in if yielded \<ge> 2 \<or> cx_polled c = cx_len c then fu_return Pending (fu_self_wake s)
         else fu_goto (FuLoop (c\<lparr>cx_yielded := yielded\<rparr>)) s)"

text \<open>The drop of the bomb: after an output, and when the poll of the future panics.\<close>

definition fu_bomb :: "nat \<Rightarrow> 'a option \<Rightarrow> ('f, 'a) fu \<Rightarrow> ('f, 'a) fu" where
  [simp]: "fu_bomb t r s =
     (let s = fu_release_task t s in
      case r of
        Some v \<Rightarrow> fu_return (Ready (Some v)) s
      | None \<Rightarrow> s\<lparr>fu_ret := None, fu_pc := FuIdle, fu_wait := None\<rparr>)"

text \<open>The loop of \<open>drop\<close>.\<close>

definition fu_drop_next :: "('f, 'a) fu \<Rightarrow> ('f, 'a) fu" where
  [simp]: "fu_drop_next s =
     (case fu_all s of
        [] \<Rightarrow> fu_goto FuGone (s\<lparr>fu_alive := False\<rparr>)
      | t # _ \<Rightarrow> fu_goto (FuDropRelease t) (fu_unlink t s))"

text \<open>The owner's next step, where it has no choice.\<close>

fun fu_run :: "'a fu_pc \<Rightarrow> ('f, 'a) fu \<Rightarrow> ('f, 'a) fu" where
  "fu_run (FuPushEnq t) s = (if fu_queued s t then fu_goto (FuPushLink t) (fu_enq t s) else fu_goto FuCrash s)"
| "fu_run (FuPushLink t) s = fu_goto FuIdle (fu_enq_link t s)"
| "fu_run (FuTask c t) s = fu_take_task c t s"
| "fu_run (FuReset c t) s = fu_reset c t s"
| "fu_run (FuUnwoken c t) s = fu_unwoken c t s"
| "fu_run (FuYield c t) s = fu_yield c t s"
| "fu_run (FuRelease t r) s = fu_bomb t r s"
| "fu_run FuDropping s = fu_drop_next s"
| "fu_run (FuDropRelease t) s = fu_goto FuDropping (fu_release_task t s)"
| "fu_run _ s = s"

text \<open>The end of the poll of a task: what it did to the future, or its output, or a panic.\<close>

definition fu_polled_pending :: "fu_ctx \<Rightarrow> nat \<Rightarrow> 'f \<Rightarrow> ('f, 'a) fu \<Rightarrow> ('f, 'a) fu" where
  "fu_polled_pending c t f s =
     fu_goto (FuYield (c\<lparr>cx_polled := cx_polled c + 1\<rparr>) t) (s\<lparr>fu_future := (fu_future s)(t \<mapsto> f)\<rparr>)"

definition fu_polled_ready :: "nat \<Rightarrow> 'a option \<Rightarrow> ('f, 'a) fu \<Rightarrow> ('f, 'a) fu" where
  "fu_polled_ready t r s = fu_goto (FuRelease t r) (s\<lparr>fu_done := fu_done s @ [(t, r)]\<rparr>)"

section \<open>wake_by_ref of a task\<close>

fun fu_wake :: "nat \<Rightarrow> wk_pc \<Rightarrow> ('f, 'a) fu \<Rightarrow> ('f, 'a) fu" where
  "fu_wake i (WkUpgrade t) s = fu_tgoto i (if fu_alive s then WkWoken t else WkIdle) s"
| "fu_wake i (WkWoken t) s = fu_tgoto i (WkSwap t) (s\<lparr>fu_woken := (fu_woken s)(t := True)\<rparr>)"
| "fu_wake i (WkSwap t) s =
     (let prev = fu_queued s t;
          s = s\<lparr>fu_queued := (fu_queued s)(t := True), fu_notified := insert t (fu_notified s)\<rparr>
      in fu_tgoto i (if prev then WkIdle else WkEnq t) s)"
| "fu_wake i (WkEnq t) s = fu_tgoto i (WkLink t) (fu_enq t s)"
| "fu_wake i (WkLink t) s = fu_tgoto i (WkParent t) (fu_enq_link t s)"
| "fu_wake i (WkParent t) s = fu_tgoto i WkIdle (fu_parent_wake s)"
| "fu_wake i WkIdle s = s"

section \<open>The interleaving\<close>

definition fu_task :: "('f, 'a) fu \<Rightarrow> nat \<Rightarrow> bool" where
  "fu_task s t \<longleftrightarrow> 1 \<le> t \<and> t \<le> fu_count s"

text \<open>Where the owner runs without a choice of the environment.\<close>

fun fu_runs :: "'a fu_pc \<Rightarrow> bool" where
  "fu_runs FuIdle = False"
| "fu_runs (FuLoop c) = False"
| "fu_runs (FuPolling c t) = False"
| "fu_runs FuGone = False"
| "fu_runs FuCrash = False"
| "fu_runs _ = True"

inductive fu_owner_step :: "('f, 'a) fu \<Rightarrow> ('f, 'a) fu \<Rightarrow> bool" where
  fu_dequeues: "fu_pc s = FuLoop c \<Longrightarrow> rq_deq (fu_queue s) r q \<Longrightarrow>
    fu_owner_step s (fu_dequeued c r (s\<lparr>fu_queue := q\<rparr>))"
| fu_polls_pending: "fu_pc s = FuPolling c t \<Longrightarrow> fu_owner_step s (fu_polled_pending c t f s)"
| fu_polls_ready: "fu_pc s = FuPolling c t \<Longrightarrow> fu_owner_step s (fu_polled_ready t r s)"
| fu_owner_runs: "fu_runs (fu_pc s) \<Longrightarrow> fu_owner_step s (fu_run (fu_pc s) s)"

inductive fu_step :: "('f, 'a) fu \<Rightarrow> ('f, 'a) fu \<Rightarrow> bool" where
  fu_pushes: "fu_pc s = FuIdle \<Longrightarrow> fu_step s (fu_push f s)"
| fu_begins_poll: "fu_pc s = FuIdle \<Longrightarrow> fu_step s (fu_poll_next w s)"
| fu_begins_drop: "fu_pc s = FuIdle \<Longrightarrow> fu_step s (fu_goto FuDropping s)"
| fu_owner: "fu_owner_step s s' \<Longrightarrow> fu_step s s'"
| fu_begins_wake: "fu_thr s i = WkIdle \<Longrightarrow> fu_task s t \<Longrightarrow> fu_step s (fu_tgoto i (WkUpgrade t) s)"
| fu_wakes: "fu_step s (fu_wake i (fu_thr s i) s)"

abbreviation fu_reach :: "('f, 'a) fu \<Rightarrow> bool" where
  "fu_reach \<equiv> reach (\<lambda>s. s = fu_new) fu_step"

lemmas fu_defs = fu_goto_def fu_tgoto_def fu_enq_def fu_enq_link_def fu_link_def fu_unlink_def
  fu_self_wake_def fu_parent_wake_def fu_push_def fu_release_task_def fu_poll_next_def fu_return_def
  fu_polled_pending_def fu_polled_ready_def fu_len_def fu_is_empty_def fu_task_def

section \<open>Who owes or holds a place in the ready-to-run queue\<close>

text \<open>
  A task whose \<open>queued\<close> flag is set is in the ready-to-run queue, or one thread is about to put it
  there, or the owner has just taken it out. \<open>wk_enqs\<close>, \<open>wk_links\<close>: where a waking thread is with
  the enqueue of a task; \<open>pc_enqs\<close>, \<open>pc_links\<close>: the same for a push; \<open>pc_took\<close>: the owner has dequeued the
  task and not reset its flag; \<open>pc_cur\<close>: the owner has unlinked the task.
\<close>

fun wk_enqs :: "wk_pc \<Rightarrow> nat \<Rightarrow> bool" where
  "wk_enqs (WkEnq u) t = (u = t)"
| "wk_enqs _ t = False"

fun wk_links :: "wk_pc \<Rightarrow> nat \<Rightarrow> bool" where
  "wk_links (WkLink u) t = (u = t)"
| "wk_links _ t = False"

fun wk_knows :: "wk_pc \<Rightarrow> nat \<Rightarrow> bool" where
  "wk_knows (WkUpgrade u) t = (u = t)"
| "wk_knows (WkWoken u) t = (u = t)"
| "wk_knows (WkSwap u) t = (u = t)"
| "wk_knows _ t = False"

fun pc_enqs :: "'a fu_pc \<Rightarrow> nat \<Rightarrow> bool" where
  "pc_enqs (FuPushEnq u) t = (u = t)"
| "pc_enqs _ t = False"

fun pc_links :: "'a fu_pc \<Rightarrow> nat \<Rightarrow> bool" where
  "pc_links (FuPushLink u) t = (u = t)"
| "pc_links _ t = False"

fun pc_took :: "'a fu_pc \<Rightarrow> nat \<Rightarrow> bool" where
  "pc_took (FuTask c u) t = (u = t)"
| "pc_took (FuReset c u) t = (u = t)"
| "pc_took _ t = False"

fun pc_cur :: "'a fu_pc \<Rightarrow> nat \<Rightarrow> bool" where
  "pc_cur (FuReset c u) t = (u = t)"
| "pc_cur (FuUnwoken c u) t = (u = t)"
| "pc_cur (FuPolling c u) t = (u = t)"
| "pc_cur (FuYield c u) t = (u = t)"
| "pc_cur (FuRelease u r) t = (u = t)"
| "pc_cur (FuDropRelease u) t = (u = t)"
| "pc_cur _ t = False"

definition fu_enqueueing :: "('f, 'a) fu \<Rightarrow> nat \<Rightarrow> bool" where
  "fu_enqueueing s t \<longleftrightarrow> (\<exists>i. wk_enqs (fu_thr s i) t) \<or> pc_enqs (fu_pc s) t"

definition fu_linking :: "('f, 'a) fu \<Rightarrow> nat \<Rightarrow> bool" where
  "fu_linking s t \<longleftrightarrow> (\<exists>i. wk_links (fu_thr s i) t) \<or> pc_links (fu_pc s) t"

text \<open>At most one thread is inside the enqueue of a task.\<close>

definition fu_inv_one :: "('f, 'a) fu \<Rightarrow> bool" where
  "fu_inv_one s \<longleftrightarrow>
     (\<forall>i j t. (wk_enqs (fu_thr s i) t \<or> wk_links (fu_thr s i) t) \<and> (wk_enqs (fu_thr s j) t \<or> wk_links (fu_thr s j) t) \<longrightarrow> i = j)
   \<and> (\<forall>i t. wk_enqs (fu_thr s i) t \<or> wk_links (fu_thr s i) t \<longrightarrow> \<not> pc_enqs (fu_pc s) t \<and> \<not> pc_links (fu_pc s) t)"

text \<open>The queue: where a task is when its flag is set.\<close>

definition fu_inv_queue :: "('f, 'a) fu \<Rightarrow> bool" where
  "fu_inv_queue s \<longleftrightarrow>
     distinct (map fst (fu_queue s))
   \<and> (\<forall>t. (t, False) \<in> set (fu_queue s) \<longleftrightarrow> fu_linking s t)
   \<and> (\<forall>t. fu_enqueueing s t \<longrightarrow> t \<notin> fst ` set (fu_queue s) \<and> \<not> pc_took (fu_pc s) t)
   \<and> (\<forall>t. pc_took (fu_pc s) t \<longrightarrow> t \<notin> fst ` set (fu_queue s))"

definition fu_inv_flag :: "('f, 'a) fu \<Rightarrow> bool" where
  "fu_inv_flag s \<longleftrightarrow>
     (\<forall>t. fu_queued s t \<and> fu_task s t \<and> t \<notin> fu_freed s \<longleftrightarrow>
        t \<in> fst ` set (fu_queue s) \<or> fu_enqueueing s t \<or> pc_took (fu_pc s) t)
   \<and> (\<forall>t \<in> fu_freed s. fu_task s t \<and> fu_queued s t \<and> fu_future s t = None)
   \<and> (\<forall>t. fu_task s t \<and> fu_future s t = None \<longrightarrow> fu_queued s t)
   \<and> (\<forall>i t. wk_knows (fu_thr s i) t \<longrightarrow> fu_task s t)"

definition fu_inv_list :: "('f, 'a) fu \<Rightarrow> bool" where
  "fu_inv_list s \<longleftrightarrow>
     distinct (fu_all s)
   \<and> (\<forall>t. pc_cur (fu_pc s) t \<longrightarrow> t \<notin> set (fu_all s))
   \<and> (\<forall>t. fu_task s t \<and> fu_future s t \<noteq> None \<longleftrightarrow> t \<in> set (fu_all s) \<or> pc_cur (fu_pc s) t)
   \<and> fu_pc s \<noteq> FuCrash"

definition fu_inv :: "('f, 'a) fu \<Rightarrow> bool" where
  "fu_inv s \<longleftrightarrow> fu_inv_one s \<and> fu_inv_queue s \<and> fu_inv_flag s \<and> fu_inv_list s"

lemma rq_mark_set: "set (rq_mark t q) = (\<lambda>(u, b). (u, b \<or> u = t)) ` set q"
  by (simp add: rq_mark_def)

lemma rq_mark_fst: "map fst (rq_mark t q) = map fst q"
  by (simp add: rq_mark_def comp_def case_prod_beta)

lemma rq_mark_False: "(u, False) \<in> set (rq_mark t q) \<longleftrightarrow> (u, False) \<in> set q \<and> u \<noteq> t"
  by (force simp: rq_mark_set)

lemma rq_mark_image: "fst ` set (rq_mark t q) = fst ` set q"
  by (metis rq_mark_fst list.set_map)

lemma fu_inv_oneD:
  assumes "fu_inv_one s"
  shows "\<And>i j t. wk_enqs (fu_thr s i) t \<Longrightarrow> wk_enqs (fu_thr s j) t \<Longrightarrow> i = j"
    "\<And>i j t. wk_links (fu_thr s i) t \<Longrightarrow> wk_links (fu_thr s j) t \<Longrightarrow> i = j"
    "\<And>i j t. wk_enqs (fu_thr s i) t \<Longrightarrow> wk_links (fu_thr s j) t \<Longrightarrow> False"
    "\<And>i t. wk_enqs (fu_thr s i) t \<Longrightarrow> \<not> pc_enqs (fu_pc s) t \<and> \<not> pc_links (fu_pc s) t"
    "\<And>i t. wk_links (fu_thr s i) t \<Longrightarrow> \<not> pc_enqs (fu_pc s) t \<and> \<not> pc_links (fu_pc s) t"
proof -
  have A: "wk_enqs (fu_thr s i) t \<or> wk_links (fu_thr s i) t \<Longrightarrow> wk_enqs (fu_thr s j) t \<or> wk_links (fu_thr s j) t \<Longrightarrow> i = j" for i j t
    using assms unfolding fu_inv_one_def by blast
  have B: "wk_enqs (fu_thr s i) t \<or> wk_links (fu_thr s i) t \<Longrightarrow> \<not> pc_enqs (fu_pc s) t \<and> \<not> pc_links (fu_pc s) t" for i t
    using assms unfolding fu_inv_one_def by blast
  fix i j t
  show "wk_enqs (fu_thr s i) t \<Longrightarrow> wk_enqs (fu_thr s j) t \<Longrightarrow> i = j" by (rule A [of i t j]) simp_all
  show "wk_links (fu_thr s i) t \<Longrightarrow> wk_links (fu_thr s j) t \<Longrightarrow> i = j" by (rule A [of i t j]) simp_all
  show "wk_enqs (fu_thr s i) t \<Longrightarrow> \<not> pc_enqs (fu_pc s) t \<and> \<not> pc_links (fu_pc s) t" by (rule B [of i t]) simp
  show "wk_links (fu_thr s i) t \<Longrightarrow> \<not> pc_enqs (fu_pc s) t \<and> \<not> pc_links (fu_pc s) t" by (rule B [of i t]) simp
  show False if "wk_enqs (fu_thr s i) t" "wk_links (fu_thr s j) t"
  proof -
    have "i = j" by (rule A [of i t j]) (use that in simp_all)
    with that show False by (cases "fu_thr s j") simp_all
  qed
qed

lemma fu_inv_oneI:
  assumes "\<And>i j t. i \<noteq> j \<Longrightarrow> wk_enqs (fu_thr s i) t \<or> wk_links (fu_thr s i) t \<Longrightarrow> wk_enqs (fu_thr s j) t \<or> wk_links (fu_thr s j) t \<Longrightarrow> False"
    and "\<And>i t. wk_enqs (fu_thr s i) t \<or> wk_links (fu_thr s i) t \<Longrightarrow> \<not> pc_enqs (fu_pc s) t \<and> \<not> pc_links (fu_pc s) t"
  shows "fu_inv_one s"
  using assms unfolding fu_inv_one_def by blast

section \<open>The steps of the waking threads\<close>

text \<open>How the enqueues under way change when thread \<open>i\<close> goes to \<open>l\<close>.\<close>

lemma fu_thr_move:
  assumes "fu_thr s' = (fu_thr s)(i := l)" and "fu_pc s' = fu_pc s"
    and "\<And>j t. wk_enqs (fu_thr s i) t \<Longrightarrow> wk_enqs (fu_thr s j) t \<Longrightarrow> j = i"
    and "\<And>t. wk_enqs (fu_thr s i) t \<Longrightarrow> \<not> pc_enqs (fu_pc s) t"
    and "\<And>j t. wk_links (fu_thr s i) t \<Longrightarrow> wk_links (fu_thr s j) t \<Longrightarrow> j = i"
    and "\<And>t. wk_links (fu_thr s i) t \<Longrightarrow> \<not> pc_links (fu_pc s) t"
  shows "fu_enqueueing s' t \<longleftrightarrow> wk_enqs l t \<or> fu_enqueueing s t \<and> \<not> wk_enqs (fu_thr s i) t"
    "fu_linking s' t \<longleftrightarrow> wk_links l t \<or> fu_linking s t \<and> \<not> wk_links (fu_thr s i) t"
  unfolding fu_enqueueing_def fu_linking_def assms(1,2) using assms(3-6) by (auto; metis)+

lemma fu_inv_move:
  assumes "fu_inv_one s" and "fu_thr s' = (fu_thr s)(i := l)" and "fu_pc s' = fu_pc s"
  shows "fu_enqueueing s' t \<longleftrightarrow> wk_enqs l t \<or> fu_enqueueing s t \<and> \<not> wk_enqs (fu_thr s i) t"
    "fu_linking s' t \<longleftrightarrow> wk_links l t \<or> fu_linking s t \<and> \<not> wk_links (fu_thr s i) t"
  using fu_thr_move [OF assms(2,3)] fu_inv_oneD [OF assms(1)] by blast+

lemma fu_one_move:
  assumes "fu_inv_one s" and "fu_thr s' = (fu_thr s)(i := l)" and "fu_pc s' = fu_pc s"
    and "\<And>t. wk_enqs l t \<or> wk_links l t \<Longrightarrow> wk_enqs (fu_thr s i) t \<or> wk_links (fu_thr s i) t \<or> \<not> fu_enqueueing s t \<and> \<not> fu_linking s t"
  shows "fu_inv_one s'"
proof (rule fu_inv_oneI)
  let ?h = "\<lambda>l t. wk_enqs l t \<or> wk_links l t"
  have one: "?h (fu_thr s i) t \<Longrightarrow> ?h (fu_thr s j) t \<Longrightarrow> i = j" for i j t using assms(1) unfolding fu_inv_one_def by blast
  have new: "\<not> ?h (fu_thr s j) t" if "j \<noteq> i" "?h l t" for j t
    using assms(4) [OF that(2)] one [of i t j] that(1) by (auto simp: fu_enqueueing_def fu_linking_def)
  show False if "j \<noteq> k" "?h (fu_thr s' j) t" "?h (fu_thr s' k) t" for j k t
    using that new one [of j t k] unfolding assms(2) by (auto split: if_splits)
  show "\<not> pc_enqs (fu_pc s') t \<and> \<not> pc_links (fu_pc s') t" if "?h (fu_thr s' j) t" for j t
  proof (cases "j = i")
    case True
    with that assms(4) [of t] fu_inv_oneD(4,5) [OF assms(1), of i t] show ?thesis
      unfolding assms(2,3) by (auto simp: fu_enqueueing_def fu_linking_def)
  next
    case False
    with that fu_inv_oneD(4,5) [OF assms(1), of j t] show ?thesis unfolding assms(2,3) by auto
  qed
qed


lemma fu_inv_queueI:
  assumes "distinct (map fst (fu_queue s))" "\<And>t. (t, False) \<in> set (fu_queue s) \<longleftrightarrow> fu_linking s t"
    "\<And>t. fu_enqueueing s t \<Longrightarrow> t \<notin> fst ` set (fu_queue s)" "\<And>t. fu_enqueueing s t \<Longrightarrow> \<not> pc_took (fu_pc s) t"
    "\<And>t. pc_took (fu_pc s) t \<Longrightarrow> t \<notin> fst ` set (fu_queue s)"
  shows "fu_inv_queue s"
  using assms unfolding fu_inv_queue_def by blast

lemma fu_inv_queueD:
  assumes "fu_inv_queue s"
  shows "distinct (map fst (fu_queue s))" "\<And>t. (t, False) \<in> set (fu_queue s) \<longleftrightarrow> fu_linking s t"
    "\<And>t. fu_enqueueing s t \<Longrightarrow> t \<notin> fst ` set (fu_queue s)" "\<And>t. fu_enqueueing s t \<Longrightarrow> \<not> pc_took (fu_pc s) t"
    "\<And>t. pc_took (fu_pc s) t \<Longrightarrow> t \<notin> fst ` set (fu_queue s)"
  using assms unfolding fu_inv_queue_def by blast+

lemma fu_inv_flagI:
  assumes "\<And>t. fu_queued s t \<and> fu_task s t \<and> t \<notin> fu_freed s \<longleftrightarrow>
      t \<in> fst ` set (fu_queue s) \<or> fu_enqueueing s t \<or> pc_took (fu_pc s) t"
    "\<And>t. t \<in> fu_freed s \<Longrightarrow> fu_task s t \<and> fu_queued s t \<and> fu_future s t = None"
    "\<And>t. fu_task s t \<Longrightarrow> fu_future s t = None \<Longrightarrow> fu_queued s t"
    "\<And>i t. wk_knows (fu_thr s i) t \<Longrightarrow> fu_task s t"
  shows "fu_inv_flag s"
  using assms unfolding fu_inv_flag_def by blast

lemma fu_inv_flagD:
  assumes "fu_inv_flag s"
  shows "\<And>t. fu_queued s t \<and> fu_task s t \<and> t \<notin> fu_freed s \<longleftrightarrow>
      t \<in> fst ` set (fu_queue s) \<or> fu_enqueueing s t \<or> pc_took (fu_pc s) t"
    "\<And>t. t \<in> fu_freed s \<Longrightarrow> fu_task s t \<and> fu_queued s t \<and> fu_future s t = None"
    "\<And>t. fu_task s t \<Longrightarrow> fu_future s t = None \<Longrightarrow> fu_queued s t"
    "\<And>i t. wk_knows (fu_thr s i) t \<Longrightarrow> fu_task s t"
  using assms unfolding fu_inv_flag_def by blast+

lemma fu_invD: assumes "fu_inv s" shows "fu_inv_one s" "fu_inv_queue s" "fu_inv_flag s" "fu_inv_list s"
  using assms by (simp_all add: fu_inv_def)

lemma fu_list_cong:
  assumes "fu_inv_list s" "fu_all s' = fu_all s" "fu_pc s' = fu_pc s" "fu_future s' = fu_future s" "fu_count s' = fu_count s"
  shows "fu_inv_list s'"
  using assms by (simp add: fu_inv_list_def fu_task_def)

text \<open>A thread moves without enqueueing; flags and queue stay.\<close>

lemma fu_inv_thr:
  assumes inv: "fu_inv s" and thr: "fu_thr s' = (fu_thr s)(i := l)"
    and same: "fu_pc s' = fu_pc s" "fu_queue s' = fu_queue s" "fu_queued s' = fu_queued s" "fu_freed s' = fu_freed s"
      "fu_future s' = fu_future s" "fu_count s' = fu_count s" "fu_all s' = fu_all s"
    and old: "\<And>t. \<not> wk_enqs (fu_thr s i) t" "\<And>t. \<not> wk_links (fu_thr s i) t"
    and new: "\<And>t. \<not> wk_enqs l t" "\<And>t. \<not> wk_links l t" and knows: "\<And>t. wk_knows l t \<Longrightarrow> fu_task s t"
  shows "fu_inv s'"
proof -
  note I = fu_invD [OF inv]
  have enq: "fu_enqueueing s' t = fu_enqueueing s t" and lnk: "fu_linking s' t = fu_linking s t" for t
    using fu_inv_move [OF I(1) thr same(1)] old new by blast+
  have task: "fu_task s' = fu_task s" by (simp add: fun_eq_iff fu_task_def same)
  have "fu_inv_one s'" by (rule fu_one_move [OF I(1) thr same(1)]) (use new in blast)
  moreover have "fu_inv_queue s'" using I(2) by (simp add: fu_inv_queue_def same enq lnk)
  moreover have "fu_inv_flag s'"
    using I(3) knows by (auto simp: fu_inv_flag_def same enq task thr)
  moreover have "fu_inv_list s'" by (rule fu_list_cong [OF I(4)]) (simp_all add: same)
  ultimately show ?thesis by (simp add: fu_inv_def)
qed

lemma fu_wake_inv:
  assumes inv: "fu_inv s"
  shows "fu_inv (fu_wake i (fu_thr s i) s)"
proof -
  note I = fu_invD [OF inv] and Q = fu_inv_queueD [OF fu_invD(2) [OF inv]] and F = fu_inv_flagD [OF fu_invD(3) [OF inv]]
  show ?thesis
  proof (cases "fu_thr s i")
    case WkIdle
    with inv show ?thesis by simp
  next
    case (WkUpgrade t)
    then have "fu_task s t" using F(4) [of i t] by simp
    with WkUpgrade show ?thesis by (intro fu_inv_thr [OF inv, of _ i]) (auto simp: fu_tgoto_def split: if_splits)
  next
    case (WkWoken t)
    then have "fu_task s t" using F(4) [of i t] by simp
    with WkWoken show ?thesis by (intro fu_inv_thr [OF inv, of _ i]) (auto simp: fu_tgoto_def)
  next
    case (WkSwap t)
    then have task: "fu_task s t" using F(4) [of i t] by simp
    show ?thesis
    proof (cases "fu_queued s t")
      case True
      then have "(fu_queued s)(t := True) = fu_queued s" by (simp add: fun_eq_iff)
      with WkSwap True show ?thesis by (intro fu_inv_thr [OF inv, of _ i]) (auto simp: fu_tgoto_def)
    next
      case False
      define s' where "s' = fu_wake i (WkSwap t) s"
      have thr: "fu_thr s' = (fu_thr s)(i := WkEnq t)" and pc: "fu_pc s' = fu_pc s"
        using False by (simp_all add: s'_def fu_tgoto_def)
      have sel: "fu_queue s' = fu_queue s" "fu_queued s' = (fu_queued s)(t := True)" "fu_freed s' = fu_freed s"
        "fu_future s' = fu_future s" "fu_count s' = fu_count s" "fu_all s' = fu_all s"
        by (simp_all add: s'_def fu_tgoto_def Let_def)
      have t: "t \<notin> fst ` set (fu_queue s)" "\<not> fu_enqueueing s t" "\<not> pc_took (fu_pc s) t" using F(1) [of t] False by auto
      have "t \<notin> fu_freed s" using F(2) [of t] False by blast
      have nl: "\<not> fu_linking s t" using Q(2) [of t] t(1) by force
      have enq: "fu_enqueueing s' u \<longleftrightarrow> u = t \<or> fu_enqueueing s u" and lnk: "fu_linking s' u = fu_linking s u" for u
        using fu_inv_move [OF I(1) thr pc, of u] WkSwap by auto
      have tk: "fu_task s' = fu_task s" by (simp only: fun_eq_iff fu_task_def sel simp_thms)
      have "fu_inv_one s'" by (rule fu_one_move [OF I(1) thr pc]) (use t nl in auto)
      moreover have "fu_inv_queue s'"
        by (rule fu_inv_queueI) (use Q t in \<open>auto simp: sel pc enq lnk\<close>)
      moreover have "fu_inv_flag s'"
      proof (rule fu_inv_flagI)
        fix u show "fu_queued s' u \<and> fu_task s' u \<and> u \<notin> fu_freed s' \<longleftrightarrow>
            u \<in> fst ` set (fu_queue s') \<or> fu_enqueueing s' u \<or> pc_took (fu_pc s') u"
          using F(1) [of u] task \<open>t \<notin> fu_freed s\<close> unfolding sel pc enq tk by auto
      next
        fix j u show "wk_knows (fu_thr s' j) u \<Longrightarrow> fu_task s' u"
          unfolding thr tk using F(4) [of j u] by (simp split: if_splits)
      qed (use F(2,3) in \<open>auto simp: sel tk\<close>)
      moreover have "fu_inv_list s'" by (rule fu_list_cong [OF I(4)]) (simp_all only: sel pc)
      ultimately show ?thesis by (simp add: fu_inv_def WkSwap s'_def)
    qed
  next
    case (WkEnq t)
    define s' where "s' = fu_wake i (WkEnq t) s"
    have thr: "fu_thr s' = (fu_thr s)(i := WkLink t)" and pc: "fu_pc s' = fu_pc s"
      by (simp_all add: s'_def fu_tgoto_def fu_enq_def)
    have sel: "fu_queue s' = fu_queue s @ [(t, False)]" "fu_queued s' = fu_queued s" "fu_freed s' = fu_freed s"
      "fu_future s' = fu_future s" "fu_count s' = fu_count s" "fu_all s' = fu_all s"
      by (simp_all add: s'_def fu_tgoto_def fu_enq_def)
    have et: "fu_enqueueing s t" using WkEnq by (auto simp: fu_enqueueing_def intro: exI [of _ i])
    have enq: "fu_enqueueing s' u \<longleftrightarrow> fu_enqueueing s u \<and> u \<noteq> t" and lnk: "fu_linking s' u \<longleftrightarrow> u = t \<or> fu_linking s u" for u
      using fu_inv_move [OF I(1) thr pc, of u] WkEnq by auto
    have tk: "fu_task s' = fu_task s" by (simp only: fun_eq_iff fu_task_def sel simp_thms)
    have "fu_inv_one s'" by (rule fu_one_move [OF I(1) thr pc]) (use WkEnq in auto)
    moreover have "fu_inv_queue s'"
    proof (rule fu_inv_queueI)
      show "distinct (map fst (fu_queue s'))" using Q(1) Q(3) [OF et] by (simp add: sel)
      fix u
      show "(u, False) \<in> set (fu_queue s') \<longleftrightarrow> fu_linking s' u" using Q(2) [of u] by (auto simp: sel lnk)
      show "u \<notin> fst ` set (fu_queue s')" if "fu_enqueueing s' u" using Q(3) [of u] that by (auto simp: sel enq)
      show "\<not> pc_took (fu_pc s') u" if "fu_enqueueing s' u" using Q(4) [of u] that by (simp add: pc enq)
      show "u \<notin> fst ` set (fu_queue s')" if "pc_took (fu_pc s') u" using Q(4) [OF et] Q(5) [of u] that by (auto simp: sel pc)
    qed
    moreover have "fu_inv_flag s'"
    proof (rule fu_inv_flagI)
      fix u show "fu_queued s' u \<and> fu_task s' u \<and> u \<notin> fu_freed s' \<longleftrightarrow>
          u \<in> fst ` set (fu_queue s') \<or> fu_enqueueing s' u \<or> pc_took (fu_pc s') u"
        using F(1) [of u] et unfolding sel pc enq tk by auto
    next
      fix j u show "wk_knows (fu_thr s' j) u \<Longrightarrow> fu_task s' u"
        unfolding thr tk using F(4) [of j u] by (simp split: if_splits)
    qed (use F(2,3) in \<open>auto simp: sel tk\<close>)
    moreover have "fu_inv_list s'" by (rule fu_list_cong [OF I(4)]) (simp_all only: sel pc)
    ultimately show ?thesis by (simp add: fu_inv_def WkEnq s'_def)
  next
    case (WkLink t)
    define s' where "s' = fu_wake i (WkLink t) s"
    have thr: "fu_thr s' = (fu_thr s)(i := WkParent t)" and pc: "fu_pc s' = fu_pc s"
      by (simp_all add: s'_def fu_tgoto_def fu_enq_link_def)
    have sel: "fu_queue s' = rq_mark t (fu_queue s)" "fu_queued s' = fu_queued s" "fu_freed s' = fu_freed s"
      "fu_future s' = fu_future s" "fu_count s' = fu_count s" "fu_all s' = fu_all s"
      by (simp_all add: s'_def fu_tgoto_def fu_enq_link_def)
    have enq: "fu_enqueueing s' u = fu_enqueueing s u" and lnk: "fu_linking s' u \<longleftrightarrow> fu_linking s u \<and> u \<noteq> t" for u
      using fu_inv_move [OF I(1) thr pc, of u] WkLink by auto
    have tk: "fu_task s' = fu_task s" by (simp only: fun_eq_iff fu_task_def sel simp_thms)
    have "fu_inv_one s'" by (rule fu_one_move [OF I(1) thr pc]) (use WkLink in auto)
    moreover have "fu_inv_queue s'"
      by (rule fu_inv_queueI) (use Q in \<open>auto simp: sel pc enq lnk rq_mark_fst rq_mark_False rq_mark_image\<close>)
    moreover have "fu_inv_flag s'"
    proof (rule fu_inv_flagI)
      fix u show "fu_queued s' u \<and> fu_task s' u \<and> u \<notin> fu_freed s' \<longleftrightarrow>
          u \<in> fst ` set (fu_queue s') \<or> fu_enqueueing s' u \<or> pc_took (fu_pc s') u"
        using F(1) [of u] unfolding sel pc enq tk rq_mark_image .
    next
      fix j u show "wk_knows (fu_thr s' j) u \<Longrightarrow> fu_task s' u"
        unfolding thr tk using F(4) [of j u] by (simp split: if_splits)
    qed (use F(2,3) in \<open>auto simp: sel tk\<close>)
    moreover have "fu_inv_list s'" by (rule fu_list_cong [OF I(4)]) (simp_all only: sel pc)
    ultimately show ?thesis by (simp add: fu_inv_def WkLink s'_def)
  next
    case (WkParent t)
    then show ?thesis by (intro fu_inv_thr [OF inv, of _ i]) (auto simp: fu_tgoto_def fu_parent_wake_def)
  qed
qed


section \<open>The steps of the owner\<close>

lemma fu_pc_move:
  assumes "fu_inv_one s" and "fu_thr s' = fu_thr s"
  shows "fu_enqueueing s' t \<longleftrightarrow> fu_enqueueing s t \<and> \<not> pc_enqs (fu_pc s) t \<or> pc_enqs (fu_pc s') t"
    "fu_linking s' t \<longleftrightarrow> fu_linking s t \<and> \<not> pc_links (fu_pc s) t \<or> pc_links (fu_pc s') t"
  using fu_inv_oneD(4,5) [OF assms(1)] unfolding fu_enqueueing_def fu_linking_def assms(2) by blast+

lemma fu_one_pc:
  assumes "fu_inv_one s" and "fu_thr s' = fu_thr s"
    and "\<And>t. pc_enqs (fu_pc s') t \<or> pc_links (fu_pc s') t \<Longrightarrow>
      pc_enqs (fu_pc s) t \<or> pc_links (fu_pc s) t \<or> \<not> fu_enqueueing s t \<and> \<not> fu_linking s t"
  shows "fu_inv_one s'"
  using assms(1,3) unfolding fu_inv_one_def assms(2) fu_enqueueing_def fu_linking_def by blast

text \<open>A step of the owner that is no push: what it must establish.\<close>

lemma fu_inv_owner:
  assumes inv: "fu_inv s" and thr: "fu_thr s' = fu_thr s" and count: "fu_count s' = fu_count s"
    and pc: "\<And>t. \<not> pc_enqs (fu_pc s) t" "\<And>t. \<not> pc_links (fu_pc s) t" "\<And>t. \<not> pc_enqs (fu_pc s') t" "\<And>t. \<not> pc_links (fu_pc s') t"
    and dist: "distinct (map fst (fu_queue s'))"
    and unlinked: "\<And>t. (t, False) \<in> set (fu_queue s') \<longleftrightarrow> (t, False) \<in> set (fu_queue s)"
    and took: "\<And>t. pc_took (fu_pc s') t \<Longrightarrow> t \<notin> fst ` set (fu_queue s')"
    and places: "\<And>t. t \<in> fst ` set (fu_queue s') \<or> pc_took (fu_pc s') t \<Longrightarrow> t \<in> fst ` set (fu_queue s) \<or> pc_took (fu_pc s) t"
    and tokens: "\<And>t. fu_task s t \<Longrightarrow> fu_queued s' t \<and> t \<notin> fu_freed s' \<longleftrightarrow>
      t \<in> fst ` set (fu_queue s') \<or> fu_enqueueing s t \<or> pc_took (fu_pc s') t"
    and freed: "\<And>t. t \<in> fu_freed s' \<Longrightarrow> fu_task s t \<and> fu_queued s' t \<and> fu_future s' t = None"
    and gone: "\<And>t. fu_task s t \<Longrightarrow> fu_future s' t = None \<Longrightarrow> fu_queued s' t"
    and list: "fu_inv_list s'"
  shows "fu_inv s'"
proof -
  note I = fu_invD [OF inv] and Q = fu_inv_queueD [OF fu_invD(2) [OF inv]] and F = fu_inv_flagD [OF fu_invD(3) [OF inv]]
  have enq: "fu_enqueueing s' t = fu_enqueueing s t" and lnk: "fu_linking s' t = fu_linking s t" for t
    using fu_pc_move [OF I(1) thr, of t] pc by blast+
  have task: "fu_task s' = fu_task s" by (simp add: fun_eq_iff fu_task_def count)
  have only_tasks: "t \<in> fst ` set (fu_queue s') \<or> fu_enqueueing s t \<or> pc_took (fu_pc s') t \<Longrightarrow> fu_task s t" for t
    using places [of t] F(1) [of t] by blast
  have "fu_inv_one s'" by (rule fu_one_pc [OF I(1) thr]) (use pc in blast)
  moreover have "fu_inv_queue s'"
  proof (rule fu_inv_queueI)
    fix t assume "fu_enqueueing s' t"
    then have "t \<notin> fst ` set (fu_queue s)" "\<not> pc_took (fu_pc s) t" unfolding enq using Q(3,4) by blast+
    with places [of t] show "t \<notin> fst ` set (fu_queue s')" "\<not> pc_took (fu_pc s') t" by blast+
  qed (use dist unlinked Q(2) took in \<open>simp_all add: lnk\<close>)
  moreover have "fu_inv_flag s'"
  proof (rule fu_inv_flagI)
    fix t show "fu_queued s' t \<and> fu_task s' t \<and> t \<notin> fu_freed s' \<longleftrightarrow>
        t \<in> fst ` set (fu_queue s') \<or> fu_enqueueing s' t \<or> pc_took (fu_pc s') t"
      unfolding task enq using tokens [of t] only_tasks [of t] by blast
  qed (use freed gone F(4) in \<open>simp_all add: task thr\<close>)
  ultimately show ?thesis using list by (simp add: fu_inv_def)
qed

lemma fu_inv_listD:
  assumes "fu_inv_list s"
  shows "distinct (fu_all s)" "\<And>t. pc_cur (fu_pc s) t \<Longrightarrow> t \<notin> set (fu_all s)"
    "\<And>t. fu_task s t \<and> fu_future s t \<noteq> None \<longleftrightarrow> t \<in> set (fu_all s) \<or> pc_cur (fu_pc s) t" "fu_pc s \<noteq> FuCrash"
  using assms unfolding fu_inv_list_def by blast+

lemma fu_inv_listI:
  assumes "distinct (fu_all s)" "\<And>t. pc_cur (fu_pc s) t \<Longrightarrow> t \<notin> set (fu_all s)"
    "\<And>t. fu_task s t \<and> fu_future s t \<noteq> None \<longleftrightarrow> t \<in> set (fu_all s) \<or> pc_cur (fu_pc s) t" "fu_pc s \<noteq> FuCrash"
  shows "fu_inv_list s"
  using assms unfolding fu_inv_list_def by blast

text \<open>A step of the owner that leaves flags, queue and futures alone and stays outside the enqueue.\<close>

lemma fu_inv_local:
  assumes inv: "fu_inv s" and "fu_thr s' = fu_thr s" "fu_count s' = fu_count s" "fu_queue s' = fu_queue s"
    "fu_queued s' = fu_queued s" "fu_freed s' = fu_freed s" "fu_future s' = fu_future s"
    and "\<And>t. \<not> pc_enqs (fu_pc s) t" "\<And>t. \<not> pc_links (fu_pc s) t" "\<And>t. \<not> pc_enqs (fu_pc s') t" "\<And>t. \<not> pc_links (fu_pc s') t"
    and "pc_took (fu_pc s') = pc_took (fu_pc s)" and "fu_inv_list s'"
  shows "fu_inv s'"
proof -
  note Q = fu_inv_queueD [OF fu_invD(2) [OF inv]] and F = fu_inv_flagD [OF fu_invD(3) [OF inv]]
  show ?thesis
  proof (rule fu_inv_owner [OF inv assms(2,3,8-11)])
    fix t assume "fu_task s t"
    then show "fu_queued s' t \<and> t \<notin> fu_freed s' \<longleftrightarrow>
        t \<in> fst ` set (fu_queue s') \<or> fu_enqueueing s t \<or> pc_took (fu_pc s') t"
      unfolding assms using F(1) [of t] by blast
  qed (use Q(1,5) F(2,3) in \<open>simp_all add: assms(4-7,12,13)\<close>)
qed

lemmas fu_inv_defs = fu_inv_def fu_inv_one_def fu_inv_queue_def fu_inv_flag_def fu_inv_list_def fu_enqueueing_def
  fu_linking_def fu_task_def

text \<open>The fields that the invariant does not read.\<close>

lemma fu_inv_history [simp]:
  "fu_inv (s\<lparr>fu_term := b\<rparr>) = fu_inv s" "fu_inv (s\<lparr>fu_woke := b\<rparr>) = fu_inv s" "fu_inv (s\<lparr>fu_cell := w\<rparr>) = fu_inv s"
  "fu_inv (s\<lparr>fu_woken := f\<rparr>) = fu_inv s" "fu_inv (s\<lparr>fu_alive := b\<rparr>) = fu_inv s" "fu_inv (s\<lparr>fu_ret := r\<rparr>) = fu_inv s"
  "fu_inv (s\<lparr>fu_done := d\<rparr>) = fu_inv s" "fu_inv (s\<lparr>fu_wait := w\<rparr>) = fu_inv s" "fu_inv (s\<lparr>fu_pushed := p\<rparr>) = fu_inv s"
  "fu_inv (s\<lparr>fu_notified := p\<rparr>) = fu_inv s"
  by (simp_all add: fu_inv_defs)

text \<open>Going from one place outside the enqueue to another one where the same task is unlinked.\<close>

lemma fu_inv_pc:
  assumes "fu_inv s" and "\<And>t. \<not> pc_enqs (fu_pc s) t" "\<And>t. \<not> pc_links (fu_pc s) t" "\<And>t. \<not> pc_enqs l t" "\<And>t. \<not> pc_links l t"
    and "pc_took l = pc_took (fu_pc s)" "pc_cur l = pc_cur (fu_pc s)" "l \<noteq> FuCrash"
  shows "fu_inv (s\<lparr>fu_pc := l\<rparr>)"
proof (rule fu_inv_local [OF assms(1)])
  show "fu_inv_list (s\<lparr>fu_pc := l\<rparr>)"
    using fu_invD(4) [OF assms(1)] assms(7,8) by (simp add: fu_inv_list_def fu_task_def)
qed (use assms in simp_all)

lemma fu_return_inv: "fu_inv s \<Longrightarrow> fu_pc s = FuLoop c \<Longrightarrow> fu_inv (fu_return r s)"
  by (simp add: fu_return_def, rule fu_inv_pc; simp add: fun_eq_iff)

lemma fu_dequeued_inv:
  assumes inv: "fu_inv s" and pc: "fu_pc s = FuLoop c" and deq: "rq_deq (fu_queue s) r q"
  shows "fu_inv (fu_dequeued c r (s\<lparr>fu_queue := q\<rparr>))"
proof -
  note Q = fu_inv_queueD [OF fu_invD(2) [OF inv]] and F = fu_inv_flagD [OF fu_invD(3) [OF inv]]
    and L = fu_inv_listD [OF fu_invD(4) [OF inv]]
  show ?thesis
  proof (cases r)
    case (DqData t)
    with deq have q: "fu_queue s = (t, True) # q" by simp
    let ?s = "fu_goto (FuTask c t) (s\<lparr>fu_queue := q\<rparr>)"
    have "fu_inv_list ?s"
      by (rule fu_inv_listI) (use L pc in \<open>simp_all add: fu_goto_def fu_task_def\<close>)
    moreover have "fu_queued ?s u \<and> u \<notin> fu_freed ?s \<longleftrightarrow>
        u \<in> fst ` set (fu_queue ?s) \<or> fu_enqueueing s u \<or> pc_took (fu_pc ?s) u" if "fu_task s u" for u
      using F(1) [of u] that q pc by (auto simp: fu_goto_def)
    ultimately have "fu_inv ?s"
      by (intro fu_inv_owner [OF inv]) (use Q(1) F(2,3) q pc in \<open>auto simp: fu_goto_def image_iff\<close>)
    with DqData show ?thesis by simp
  next
    case DqEmpty
    with deq have q: "q = fu_queue s" by simp
    then have "s\<lparr>fu_queue := q\<rparr> = s" by simp
    moreover have "fu_inv (fu_return r' s)" "fu_inv (fu_return r' (s\<lparr>fu_term := True\<rparr>))" for r' :: "'b option poll"
      using inv pc by (simp_all add: fu_return_inv)
    ultimately show ?thesis using DqEmpty by simp
  next
    case DqInconsistent
    with deq have q: "q = fu_queue s" by simp
    then have "s\<lparr>fu_queue := q\<rparr> = s" by simp
    moreover have "fu_inv (fu_return r' (fu_self_wake s))" for r' :: "'b option poll"
      using inv pc by (simp add: fu_return_inv fu_self_wake_def)
    ultimately show ?thesis using DqInconsistent by simp
  qed
qed


text \<open>\<open>release_task\<close> of an unlinked task, on the way to a place outside the loop.\<close>

lemma fu_release_inv:
  assumes inv: "fu_inv s" and cur: "pc_cur (fu_pc s) t" and took: "\<And>u. \<not> pc_took (fu_pc s) u"
    and only: "\<And>u. pc_cur (fu_pc s) u \<Longrightarrow> u = t"
    and pc: "\<And>u. \<not> pc_enqs (fu_pc s) u" "\<And>u. \<not> pc_links (fu_pc s) u"
    and l: "\<And>u. \<not> pc_enqs l u" "\<And>u. \<not> pc_links l u" "\<And>u. \<not> pc_took l u" "\<And>u. \<not> pc_cur l u" "l \<noteq> FuCrash"
  shows "fu_inv ((fu_release_task t s)\<lparr>fu_pc := l\<rparr>)"
proof -
  note Q = fu_inv_queueD [OF fu_invD(2) [OF inv]] and F = fu_inv_flagD [OF fu_invD(3) [OF inv]]
    and L = fu_inv_listD [OF fu_invD(4) [OF inv]]
  define s' where "s' = (fu_release_task t s)\<lparr>fu_pc := l\<rparr>"
  have task: "fu_task s t" using L(3) [of t] cur by blast
  have sel: "fu_thr s' = fu_thr s" "fu_count s' = fu_count s" "fu_queue s' = fu_queue s" "fu_all s' = fu_all s" "fu_pc s' = l"
    "fu_queued s' = (fu_queued s)(t := True)" "fu_future s' = (fu_future s)(t := None)"
    "fu_freed s' = (if fu_queued s t then fu_freed s else insert t (fu_freed s))"
    by (simp_all add: s'_def fu_release_task_def Let_def)
  have tk: "fu_task s' = fu_task s" by (simp only: fun_eq_iff fu_task_def sel simp_thms)
  have old: "fu_queued s v \<and> v \<notin> fu_freed s \<longleftrightarrow> v \<in> fst ` set (fu_queue s) \<or> fu_enqueueing s v" if "fu_task s v" for v
    using F(1) [of v] took [of v] that by blast
  have "fu_inv_list s'"
  proof (rule fu_inv_listI)
    show "distinct (fu_all s')" using L(1) by (simp add: sel)
    fix u
    show "fu_task s' u \<and> fu_future s' u \<noteq> None \<longleftrightarrow> u \<in> set (fu_all s') \<or> pc_cur (fu_pc s') u"
    proof (cases "u = t")
      case True
      then show ?thesis using L(2) [OF cur] l(4) by (simp add: sel)
    next
      case False
      then have "\<not> pc_cur (fu_pc s) u" using only by blast
      with False L(3) [of u] l(4) show ?thesis by (simp add: sel tk)
    qed
  qed (use l in \<open>simp_all add: sel\<close>)
  then have "fu_inv s'"
  proof (rule fu_inv_owner [OF inv, rotated -1])
    fix u assume u: "fu_task s u"
    then show "fu_queued s' u \<and> u \<notin> fu_freed s' \<longleftrightarrow> u \<in> fst ` set (fu_queue s') \<or> fu_enqueueing s u \<or> pc_took (fu_pc s') u"
      using old [OF u] l(3) unfolding sel by (cases "u = t"; cases "fu_queued s t"; simp; blast)
    show "fu_future s' u = None \<Longrightarrow> fu_queued s' u" using F(3) [OF u] by (simp add: sel split: if_splits)
  next
    fix u assume "u \<in> fu_freed s'"
    then show "fu_task s u \<and> fu_queued s' u \<and> fu_future s' u = None" using F(2) [of u] task by (auto simp: sel split: if_splits)
  qed (use Q(1) pc l in \<open>simp_all add: sel\<close>)
  then show ?thesis by (simp add: s'_def)
qed

lemma fu_enqueueing_fields [simp]:
  "fu_enqueueing (s\<lparr>fu_pc := l\<rparr>) t \<longleftrightarrow> (\<exists>i. wk_enqs (fu_thr s i) t) \<or> pc_enqs l t"
  "fu_linking (s\<lparr>fu_pc := l\<rparr>) t \<longleftrightarrow> (\<exists>i. wk_links (fu_thr s i) t) \<or> pc_links l t"
  by (simp_all add: fu_enqueueing_def fu_linking_def)

lemma fu_push_enq_inv:
  assumes inv: "fu_inv s" and pc: "fu_pc s = FuPushEnq t"
  shows "fu_inv (fu_run (FuPushEnq t) s)"
proof -
  note I = fu_invD [OF inv] and Q = fu_inv_queueD [OF fu_invD(2) [OF inv]] and F = fu_inv_flagD [OF fu_invD(3) [OF inv]]
    and L = fu_inv_listD [OF fu_invD(4) [OF inv]]
  have et: "fu_enqueueing s t" by (simp add: fu_enqueueing_def pc)
  then have queued: "fu_queued s t" using F(1) [of t] by blast
  define s' where "s' = fu_goto (FuPushLink t) (fu_enq t s)"
  have sel: "fu_thr s' = fu_thr s" "fu_count s' = fu_count s" "fu_queue s' = fu_queue s @ [(t, False)]" "fu_all s' = fu_all s"
    "fu_pc s' = FuPushLink t" "fu_queued s' = fu_queued s" "fu_future s' = fu_future s" "fu_freed s' = fu_freed s"
    by (simp_all add: s'_def fu_goto_def fu_enq_def)
  have tk: "fu_task s' = fu_task s" by (simp only: fun_eq_iff fu_task_def sel simp_thms)
  have enq: "fu_enqueueing s' u \<longleftrightarrow> fu_enqueueing s u \<and> u \<noteq> t" and lnk: "fu_linking s' u \<longleftrightarrow> fu_linking s u \<or> u = t" for u
    using fu_pc_move [OF I(1) sel(1), of u] pc by (auto simp: sel)
  have "fu_inv_one s'" by (rule fu_one_pc [OF I(1) sel(1)]) (simp add: sel pc)
  moreover have "fu_inv_queue s'"
  proof (rule fu_inv_queueI)
    show "distinct (map fst (fu_queue s'))" using Q(1) Q(3) [OF et] by (simp add: sel)
    fix u
    show "(u, False) \<in> set (fu_queue s') \<longleftrightarrow> fu_linking s' u" using Q(2) [of u] by (auto simp: sel lnk)
    show "u \<notin> fst ` set (fu_queue s')" if "fu_enqueueing s' u" using Q(3) [of u] that by (auto simp: sel enq)
  qed (simp_all add: sel)
  moreover have "fu_inv_flag s'"
  proof (rule fu_inv_flagI)
    fix u show "fu_queued s' u \<and> fu_task s' u \<and> u \<notin> fu_freed s' \<longleftrightarrow>
        u \<in> fst ` set (fu_queue s') \<or> fu_enqueueing s' u \<or> pc_took (fu_pc s') u"
      using F(1) [of u] et pc unfolding sel enq tk by auto
  qed (use F(2-4) in \<open>auto simp: sel tk\<close>)
  moreover have "fu_inv_list s'"
    by (rule fu_inv_listI) (use L pc in \<open>simp_all add: sel tk\<close>)
  ultimately show ?thesis using queued by (simp add: fu_inv_def s'_def)
qed

lemma fu_push_link_inv:
  assumes inv: "fu_inv s" and pc: "fu_pc s = FuPushLink t"
  shows "fu_inv (fu_run (FuPushLink t) s)"
proof -
  note I = fu_invD [OF inv] and Q = fu_inv_queueD [OF fu_invD(2) [OF inv]] and F = fu_inv_flagD [OF fu_invD(3) [OF inv]]
    and L = fu_inv_listD [OF fu_invD(4) [OF inv]]
  define s' where "s' = fu_goto FuIdle (fu_enq_link t s)"
  have sel: "fu_thr s' = fu_thr s" "fu_count s' = fu_count s" "fu_queue s' = rq_mark t (fu_queue s)" "fu_all s' = fu_all s"
    "fu_pc s' = FuIdle" "fu_queued s' = fu_queued s" "fu_future s' = fu_future s" "fu_freed s' = fu_freed s"
    by (simp_all add: s'_def fu_goto_def fu_enq_link_def)
  have tk: "fu_task s' = fu_task s" by (simp only: fun_eq_iff fu_task_def sel simp_thms)
  have enq: "fu_enqueueing s' u \<longleftrightarrow> fu_enqueueing s u" and lnk: "fu_linking s' u \<longleftrightarrow> fu_linking s u \<and> u \<noteq> t" for u
    using fu_pc_move [OF I(1) sel(1), of u] pc by (auto simp: sel)
  have "fu_inv_one s'" by (rule fu_one_pc [OF I(1) sel(1)]) (simp add: sel)
  moreover have "fu_inv_queue s'"
    by (rule fu_inv_queueI) (use Q in \<open>auto simp: sel enq lnk rq_mark_fst rq_mark_False rq_mark_image\<close>)
  moreover have "fu_inv_flag s'"
  proof (rule fu_inv_flagI)
    fix u show "fu_queued s' u \<and> fu_task s' u \<and> u \<notin> fu_freed s' \<longleftrightarrow>
        u \<in> fst ` set (fu_queue s') \<or> fu_enqueueing s' u \<or> pc_took (fu_pc s') u"
      using F(1) [of u] pc unfolding sel enq tk rq_mark_image by simp
  qed (use F(2-4) in \<open>auto simp: sel tk\<close>)
  moreover have "fu_inv_list s'"
    by (rule fu_inv_listI) (use L pc in \<open>simp_all add: sel tk\<close>)
  ultimately show ?thesis by (simp add: fu_inv_def s'_def)
qed

lemma fu_push_inv:
  assumes inv: "fu_inv s" and pc: "fu_pc s = FuIdle"
  shows "fu_inv (fu_push f s)"
proof -
  note I = fu_invD [OF inv] and Q = fu_inv_queueD [OF fu_invD(2) [OF inv]] and F = fu_inv_flagD [OF fu_invD(3) [OF inv]]
    and L = fu_inv_listD [OF fu_invD(4) [OF inv]]
  let ?t = "Suc (fu_count s)"
  define s' where "s' = fu_push f s"
  have sel: "fu_thr s' = fu_thr s" "fu_count s' = ?t" "fu_queue s' = fu_queue s" "fu_all s' = ?t # fu_all s"
    "fu_pc s' = FuPushEnq ?t" "fu_queued s' = (fu_queued s)(?t := True)" "fu_future s' = (fu_future s)(?t \<mapsto> f)" "fu_freed s' = fu_freed s"
    by (simp_all add: s'_def fu_push_def fu_goto_def fu_link_def Let_def)
  have tk: "fu_task s' u \<longleftrightarrow> u = ?t \<or> fu_task s u" and new: "\<not> fu_task s ?t" for u by (auto simp: fu_task_def sel)
  have fresh: "?t \<notin> fst ` set (fu_queue s)" "\<not> fu_enqueueing s ?t" "?t \<notin> fu_freed s" "?t \<notin> set (fu_all s)"
    using F(1,2) [of ?t] L(3) [of ?t] new by blast+
  have nl: "\<not> fu_linking s ?t" using Q(2) [of ?t] fresh(1) by force
  have enq: "fu_enqueueing s' u \<longleftrightarrow> u = ?t \<or> fu_enqueueing s u" and lnk: "fu_linking s' u \<longleftrightarrow> fu_linking s u" for u
    using fu_pc_move [OF I(1) sel(1), of u] pc by (auto simp: sel)
  have "fu_inv_one s'" by (rule fu_one_pc [OF I(1) sel(1)]) (use fresh(2) nl in \<open>auto simp: sel\<close>)
  moreover have "fu_inv_queue s'"
  proof (rule fu_inv_queueI)
    fix u assume "fu_enqueueing s' u"
    then show "u \<notin> fst ` set (fu_queue s')" unfolding enq sel using Q(3) [of u] fresh(1) by (cases "u = ?t") simp_all
  qed (use Q(1,2) in \<open>simp_all add: sel lnk\<close>)
  moreover have "fu_inv_flag s'"
  proof (rule fu_inv_flagI)
    fix u show "fu_queued s' u \<and> fu_task s' u \<and> u \<notin> fu_freed s' \<longleftrightarrow>
        u \<in> fst ` set (fu_queue s') \<or> fu_enqueueing s' u \<or> pc_took (fu_pc s') u"
      using F(1) [of u] pc fresh(3) unfolding sel enq tk by auto
  next
    fix u assume "u \<in> fu_freed s'"
    then show "fu_task s' u \<and> fu_queued s' u \<and> fu_future s' u = None" using F(2) [of u] fresh(3) unfolding tk sel by auto
  qed (use F(3,4) in \<open>auto simp: sel tk split: if_splits\<close>)
  moreover have "fu_inv_list s'"
  proof (rule fu_inv_listI)
    fix u show "fu_task s' u \<and> fu_future s' u \<noteq> None \<longleftrightarrow> u \<in> set (fu_all s') \<or> pc_cur (fu_pc s') u"
      using L(3) [of u] pc unfolding tk sel by auto
  qed (use L(1) fresh(4) in \<open>simp_all add: sel\<close>)
  ultimately show ?thesis by (simp add: fu_inv_def s'_def)
qed

lemma fu_reset_inv:
  assumes inv: "fu_inv s" and pc: "fu_pc s = FuReset c t"
  shows "fu_inv (fu_run (FuReset c t) s)"
proof -
  note Q = fu_inv_queueD [OF fu_invD(2) [OF inv]] and F = fu_inv_flagD [OF fu_invD(3) [OF inv]]
    and L = fu_inv_listD [OF fu_invD(4) [OF inv]]
  have tok: "fu_queued s t" "t \<notin> fu_freed s" using F(1) [of t] pc by auto
  have out: "t \<notin> fst ` set (fu_queue s)" "\<not> fu_enqueueing s t" using Q(4) [of t] Q(5) [of t] pc by auto
  define s' where "s' = fu_goto (FuUnwoken c t) (s\<lparr>fu_queued := (fu_queued s)(t := False), fu_notified := fu_notified s - {t}\<rparr>)"
  have sel: "fu_thr s' = fu_thr s" "fu_count s' = fu_count s" "fu_queue s' = fu_queue s" "fu_all s' = fu_all s"
    "fu_pc s' = FuUnwoken c t" "fu_queued s' = (fu_queued s)(t := False)" "fu_future s' = fu_future s" "fu_freed s' = fu_freed s"
    by (simp_all add: s'_def fu_goto_def)
  have tk: "fu_task s' = fu_task s" by (simp only: fun_eq_iff fu_task_def sel simp_thms)
  have alive: "fu_future s t \<noteq> None" using L(3) [of t] pc by simp
  have "fu_inv_list s'" by (rule fu_inv_listI) (use L pc in \<open>simp_all add: sel tk\<close>)
  then have "fu_inv s'"
  proof (rule fu_inv_owner [OF inv, rotated -1])
    fix u assume u: "fu_task s u"
    show "fu_queued s' u \<and> u \<notin> fu_freed s' \<longleftrightarrow> u \<in> fst ` set (fu_queue s') \<or> fu_enqueueing s u \<or> pc_took (fu_pc s') u"
    proof (cases "u = t")
      case True
      with out show ?thesis by (simp add: sel)
    next
      case False
      with F(1) [of u] u pc show ?thesis by (simp add: sel)
    qed
    show "fu_future s' u = None \<Longrightarrow> fu_queued s' u" using F(3) [OF u] alive by (auto simp: sel)
  next
    fix u assume "u \<in> fu_freed s'"
    then show "fu_task s u \<and> fu_queued s' u \<and> fu_future s' u = None" using F(2) [of u] tok(2) by (auto simp: sel)
  qed (use Q(1) pc in \<open>simp_all add: sel\<close>)
  with tok(1) show ?thesis by (simp add: s'_def)
qed

lemma fu_reclaim_inv:
  assumes inv: "fu_inv s" and pc: "fu_pc s = FuTask c t"
  shows "fu_inv (fu_run (FuTask c t) s)"
proof -
  note Q = fu_inv_queueD [OF fu_invD(2) [OF inv]] and F = fu_inv_flagD [OF fu_invD(3) [OF inv]]
    and L = fu_inv_listD [OF fu_invD(4) [OF inv]]
  have tok: "fu_queued s t" "fu_task s t" using F(1) [of t] pc by auto
  have out: "t \<notin> fst ` set (fu_queue s)" "\<not> fu_enqueueing s t" using Q(4) [of t] Q(5) [of t] pc by auto
  show ?thesis
  proof (cases "fu_future s t")
    case None
    have nin: "t \<notin> set (fu_all s)" using L(3) [of t] None by blast
    define s' where "s' = fu_goto (FuLoop c) (s\<lparr>fu_freed := insert t (fu_freed s)\<rparr>)"
    have sel: "fu_thr s' = fu_thr s" "fu_count s' = fu_count s" "fu_queue s' = fu_queue s" "fu_all s' = fu_all s"
      "fu_pc s' = FuLoop c" "fu_queued s' = fu_queued s" "fu_future s' = fu_future s" "fu_freed s' = insert t (fu_freed s)"
      by (simp_all add: s'_def fu_goto_def)
    have tk: "fu_task s' = fu_task s" by (simp only: fun_eq_iff fu_task_def sel simp_thms)
    have "fu_inv_list s'" by (rule fu_inv_listI) (use L pc in \<open>simp_all add: sel tk\<close>)
    then have "fu_inv s'"
    proof (rule fu_inv_owner [OF inv, rotated -1])
      fix u assume u: "fu_task s u"
      show "fu_queued s' u \<and> u \<notin> fu_freed s' \<longleftrightarrow> u \<in> fst ` set (fu_queue s') \<or> fu_enqueueing s u \<or> pc_took (fu_pc s') u"
      proof (cases "u = t")
        case True
        with out show ?thesis by (simp add: sel)
      next
        case False
        with F(1) [of u] u pc show ?thesis by (simp add: sel)
      qed
      show "fu_future s' u = None \<Longrightarrow> fu_queued s' u" using F(3) [OF u] by (simp add: sel)
    next
      fix u assume "u \<in> fu_freed s'"
      then show "fu_task s u \<and> fu_queued s' u \<and> fu_future s' u = None" using F(2) [of u] tok None by (auto simp: sel)
    qed (use Q(1) pc in \<open>simp_all add: sel\<close>)
    with None nin show ?thesis by (simp add: s'_def)
  next
    case (Some f)
    have t: "t \<in> set (fu_all s)" using L(3) [of t] Some tok(2) pc by simp
    have "fu_inv (fu_goto (FuReset c t) (fu_unlink t s))"
    proof (rule fu_inv_local [OF inv])
      show "fu_inv_list (fu_goto (FuReset c t) (fu_unlink t s))"
        by (rule fu_inv_listI) (use L(1) L(3) t pc in \<open>auto simp: fu_goto_def fu_unlink_def fu_task_def\<close>)
    qed (simp_all add: pc fu_goto_def fu_unlink_def fun_eq_iff)
    with Some show ?thesis by simp
  qed
qed

text \<open>The task in hand goes back into the list.\<close>

lemma fu_relink_inv:
  assumes inv: "fu_inv s" and pc: "fu_pc s = FuYield c t" and l: "l = FuIdle \<or> l = FuLoop c'"
  shows "fu_inv ((fu_link t s)\<lparr>fu_pc := l\<rparr>)"
proof (rule fu_inv_local [OF inv])
  note L = fu_inv_listD [OF fu_invD(4) [OF inv]]
  show "fu_inv_list ((fu_link t s)\<lparr>fu_pc := l\<rparr>)"
  proof (rule fu_inv_listI)
    fix u
    have cur: "pc_cur (fu_pc s) u \<longleftrightarrow> u = t" using pc by auto
    have "\<not> pc_cur l u" using l by auto
    then show "fu_task ((fu_link t s)\<lparr>fu_pc := l\<rparr>) u \<and> fu_future ((fu_link t s)\<lparr>fu_pc := l\<rparr>) u \<noteq> None
        \<longleftrightarrow> u \<in> set (fu_all ((fu_link t s)\<lparr>fu_pc := l\<rparr>)) \<or> pc_cur (fu_pc ((fu_link t s)\<lparr>fu_pc := l\<rparr>)) u"
      using L(3) [of u] by (simp add: cur fu_link_def fu_task_def) blast
  qed (use L(1) L(2) [of t] pc l in \<open>auto simp: fu_link_def\<close>)
qed (use l in \<open>auto simp: pc fu_link_def fun_eq_iff\<close>)

lemma fu_run_inv:
  assumes inv: "fu_inv s"
  shows "fu_inv (fu_run (fu_pc s) s)"
proof (cases "fu_pc s")
  case (FuPushEnq t)
  then show ?thesis using fu_push_enq_inv [OF inv] by simp
next
  case (FuPushLink t)
  then show ?thesis using fu_push_link_inv [OF inv] by simp
next
  case (FuTask c t)
  then show ?thesis using fu_reclaim_inv [OF inv] by simp
next
  case (FuReset c t)
  then show ?thesis using fu_reset_inv [OF inv] by simp
next
  case (FuUnwoken c t)
  have "fu_inv ((s\<lparr>fu_woken := (fu_woken s)(t := False)\<rparr>)\<lparr>fu_pc := FuPolling c t\<rparr>)"
    by (rule fu_inv_pc) (use inv FuUnwoken in \<open>simp_all add: fun_eq_iff\<close>)
  then show ?thesis by (simp add: FuUnwoken fu_goto_def)
next
  case (FuYield c t)
  note linked = fu_relink_inv [OF inv FuYield]
  have "fu_inv ((fu_link t s)\<lparr>fu_ret := r, fu_pc := FuIdle, fu_wait := w, fu_woke := b\<rparr>)" for r w b
    using linked [of FuIdle] by (simp add: fu_link_def fu_inv_defs)
  with linked show ?thesis
    by (simp add: FuYield Let_def fu_goto_def fu_return_def fu_self_wake_def) (simp add: fu_link_def fu_inv_defs)
next
  case (FuRelease t r)
  have "fu_inv ((fu_release_task t s)\<lparr>fu_pc := FuIdle\<rparr>)"
    by (rule fu_release_inv [OF inv]) (simp_all add: FuRelease)
  then show ?thesis
    by (cases r) (simp_all add: FuRelease Let_def fu_return_def, simp_all add: fu_inv_defs)
next
  case FuDropping
  note L = fu_inv_listD [OF fu_invD(4) [OF inv]]
  show ?thesis
  proof (cases "fu_all s")
    case Nil
    have "fu_inv ((s\<lparr>fu_alive := False\<rparr>)\<lparr>fu_pc := FuGone\<rparr>)"
      by (rule fu_inv_pc) (use inv FuDropping in \<open>simp_all add: fun_eq_iff\<close>)
    with Nil show ?thesis by (simp add: FuDropping fu_goto_def)
  next
    case (Cons t ts)
    have "fu_inv (fu_goto (FuDropRelease t) (fu_unlink t s))"
    proof (rule fu_inv_local [OF inv])
      show "fu_inv_list (fu_goto (FuDropRelease t) (fu_unlink t s))"
        by (rule fu_inv_listI) (use L(1) L(3) Cons FuDropping in \<open>auto simp: fu_goto_def fu_unlink_def fu_task_def\<close>)
    qed (simp_all add: FuDropping fu_goto_def fu_unlink_def fun_eq_iff)
    with Cons show ?thesis by (simp add: FuDropping)
  qed
next
  case (FuDropRelease t)
  have "fu_inv ((fu_release_task t s)\<lparr>fu_pc := FuDropping\<rparr>)"
    by (rule fu_release_inv [OF inv]) (simp_all add: FuDropRelease)
  then show ?thesis by (simp add: FuDropRelease fu_goto_def)
qed (use inv in simp_all)

lemma fu_polled_inv:
  assumes inv: "fu_inv s" and pc: "fu_pc s = FuPolling c t"
  shows "fu_inv (fu_polled_pending c t f s)" "fu_inv (fu_polled_ready t r s)"
proof -
  note Q = fu_inv_queueD [OF fu_invD(2) [OF inv]] and F = fu_inv_flagD [OF fu_invD(3) [OF inv]]
    and L = fu_inv_listD [OF fu_invD(4) [OF inv]]
  have task: "fu_task s t" "fu_future s t \<noteq> None" using L(3) [of t] pc by simp_all
  define s' where "s' = fu_polled_pending c t f s"
  have sel: "fu_thr s' = fu_thr s" "fu_count s' = fu_count s" "fu_queue s' = fu_queue s" "fu_all s' = fu_all s"
    "fu_pc s' = FuYield (c\<lparr>cx_polled := cx_polled c + 1\<rparr>) t" "fu_queued s' = fu_queued s"
    "fu_future s' = (fu_future s)(t \<mapsto> f)" "fu_freed s' = fu_freed s"
    by (simp_all add: s'_def fu_polled_pending_def fu_goto_def)
  have tk: "fu_task s' = fu_task s" by (simp only: fun_eq_iff fu_task_def sel simp_thms)
  have "t \<notin> fu_freed s" using F(2) [of t] task(2) by blast
  have "fu_inv_list s'"
  proof (rule fu_inv_listI)
    fix u show "fu_task s' u \<and> fu_future s' u \<noteq> None \<longleftrightarrow> u \<in> set (fu_all s') \<or> pc_cur (fu_pc s') u"
      using L(3) [of u] task pc by (cases "u = t") (simp_all add: sel tk)
  qed (use L(1,2) pc in \<open>simp_all add: sel\<close>)
  then have "fu_inv s'"
  proof (rule fu_inv_owner [OF inv, rotated -1])
    fix u assume u: "fu_task s u"
    show "fu_queued s' u \<and> u \<notin> fu_freed s' \<longleftrightarrow> u \<in> fst ` set (fu_queue s') \<or> fu_enqueueing s u \<or> pc_took (fu_pc s') u"
      using F(1) [of u] u pc by (simp add: sel)
    show "fu_future s' u = None \<Longrightarrow> fu_queued s' u" using F(3) [OF u] by (simp add: sel split: if_splits)
  next
    fix u assume "u \<in> fu_freed s'"
    then show "fu_task s u \<and> fu_queued s' u \<and> fu_future s' u = None" using F(2) [of u] \<open>t \<notin> fu_freed s\<close> by (auto simp: sel)
  qed (use Q(1) pc in \<open>simp_all add: sel\<close>)
  then show "fu_inv (fu_polled_pending c t f s)" by (simp add: s'_def)
  have "fu_inv ((s\<lparr>fu_done := fu_done s @ [(t, r)]\<rparr>)\<lparr>fu_pc := FuRelease t r\<rparr>)"
    by (rule fu_inv_pc) (use inv pc in \<open>simp_all add: fun_eq_iff\<close>)
  then show "fu_inv (fu_polled_ready t r s)" by (simp add: fu_polled_ready_def fu_goto_def)
qed

lemma fu_owner_inv: "fu_owner_step s s' \<Longrightarrow> fu_inv s \<Longrightarrow> fu_inv s'"
  by (induction rule: fu_owner_step.induct) (blast intro: fu_dequeued_inv fu_polled_inv fu_run_inv)+

lemma fu_step_inv:
  assumes "fu_step s s'" and inv: "fu_inv s"
  shows "fu_inv s'"
  using assms(1)
proof cases
  case (fu_pushes f)
  then show ?thesis using fu_push_inv [OF inv] by simp
next
  case (fu_begins_poll w)
  have "fu_inv ((s\<lparr>fu_cell := Some w, fu_wait := Some w, fu_woke := False, fu_pushed := {}\<rparr>)\<lparr>fu_pc := FuLoop c\<rparr>)" for c
    by (rule fu_inv_pc) (use inv fu_begins_poll in \<open>simp_all add: fun_eq_iff\<close>)
  then show ?thesis by (simp add: fu_begins_poll fu_poll_next_def)
next
  case fu_begins_drop
  have "fu_inv (s\<lparr>fu_pc := FuDropping\<rparr>)"
    by (rule fu_inv_pc) (use inv fu_begins_drop in \<open>simp_all add: fun_eq_iff\<close>)
  then show ?thesis by (simp add: fu_begins_drop fu_goto_def)
next
  case (fu_begins_wake i t)
  then show ?thesis by (simp only:) (rule fu_inv_thr [OF inv, where i = i and l = "WkUpgrade t"]; simp add: fu_tgoto_def)
qed (auto intro: fu_owner_inv [OF _ inv] fu_wake_inv [OF inv])

lemma fu_inv_reach: "fu_reach s \<Longrightarrow> fu_inv s"
  by (erule reach_invariant) (simp add: fu_inv_defs fu_new_def, blast intro: fu_step_inv)

section \<open>Outputs\<close>



fun pc_outside :: "'a fu_pc \<Rightarrow> bool" where
  "pc_outside FuIdle = True"
| "pc_outside (FuPushEnq t) = True"
| "pc_outside (FuPushLink t) = True"
| "pc_outside _ = False"







section \<open>Wake-ups of the task that polls the set\<close>

text \<open>Some thread has put a task into the queue, or is about to, and will then wake the parent.\<close>

fun wk_coming :: "wk_pc \<Rightarrow> bool" where
  "wk_coming (WkLink t) = True"
| "wk_coming (WkParent t) = True"
| "wk_coming _ = False"

definition any_coming :: "(nat \<Rightarrow> wk_pc) \<Rightarrow> bool" where
  "any_coming f \<longleftrightarrow> (\<exists>i. wk_coming (f i))"

lemma any_coming_keep: "any_coming f \<Longrightarrow> \<not> wk_coming (f i) \<or> wk_coming l \<Longrightarrow> any_coming (f(i := l))"
  unfolding any_coming_def by (metis fun_upd_apply)

lemma any_coming_here: "wk_coming l \<Longrightarrow> any_coming (f(i := l))"
  unfolding any_coming_def by (metis fun_upd_same)

definition fu_inv_wait :: "('f, 'a) fu \<Rightarrow> bool" where
  "fu_inv_wait s \<longleftrightarrow>
     (\<forall>w. fu_wait s = Some w \<and> \<not> fu_woke s \<longrightarrow> fu_cell s = Some w)
   \<and> (pc_outside (fu_pc s) \<and> fu_wait s \<noteq> None \<and> \<not> fu_woke s \<longrightarrow>
        (\<forall>t \<in> fst ` set (fu_queue s). t \<in> fu_pushed s \<or> any_coming (fu_thr s)))
   \<and> (\<forall>t \<in> fu_notified s. fu_task s t \<and> fu_queued s t)
   \<and> (\<forall>t. pc_enqs (fu_pc s) t \<or> pc_links (fu_pc s) t \<longrightarrow> t \<in> fu_pushed s)"

lemma wk_links_coming: "wk_links l t \<Longrightarrow> wk_coming l"
  by (cases l) simp_all

lemma fu_wait_empty:
  assumes inv: "fu_inv s" and pc: "fu_pc s = FuLoop c" and deq: "rq_deq (fu_queue s) DqEmpty q" and t: "t \<in> fst ` set (fu_queue s)"
  shows "any_coming (fu_thr s)"
proof -
  from deq t obtain u q' where "fu_queue s = (u, False) # q'" by (cases "fu_queue s") auto
  then have "(u, False) \<in> set (fu_queue s)" by simp
  then have "fu_linking s u" using fu_inv_queueD(2) [OF fu_invD(2) [OF inv]] by blast
  then show ?thesis using pc by (auto simp: fu_linking_def any_coming_def dest: wk_links_coming)
qed

lemma fu_wait_owner:
  assumes "fu_owner_step s s'" and inv: "fu_inv s" and wait: "fu_inv_wait s"
  shows "fu_inv_wait s'"
  using assms(1)
proof cases
  case (fu_dequeues c r q)
  with wait fu_wait_empty [OF inv, of c q] show ?thesis by (cases r) (auto simp: fu_inv_wait_def fu_defs)
next
  case (fu_polls_pending c t f)
  with wait show ?thesis by (auto simp: fu_inv_wait_def fu_defs)
next
  case (fu_polls_ready c t r)
  with wait show ?thesis by (auto simp: fu_inv_wait_def fu_defs)
next
  case fu_owner_runs
  show ?thesis
  proof (cases "fu_pc s")
    case (FuRelease t r)
    with wait fu_owner_runs show ?thesis by (cases r) (auto simp: fu_inv_wait_def fu_defs Let_def)
  qed (use wait fu_owner_runs in \<open>auto simp: fu_inv_wait_def fu_defs Let_def rq_mark_image split: option.splits list.splits\<close>)
qed

lemma fu_wait_wake:
  assumes inv: "fu_inv s" and wait: "fu_inv_wait s"
  shows "fu_inv_wait (fu_wake i (fu_thr s i) s)"
proof -
  have "fu_task s t" if "wk_knows (fu_thr s i) t" for t using fu_inv_flagD(4) [OF fu_invD(3) [OF inv] that] .
  then show ?thesis
    using wait
    by (cases "fu_thr s i") (auto simp: fu_inv_wait_def fu_defs Let_def rq_mark_image any_coming_keep any_coming_here)
qed

lemma fu_wait_step:
  assumes "fu_step s s'" and inv: "fu_inv s" and wait: "fu_inv_wait s"
  shows "fu_inv_wait s'"
  using assms(1)
proof cases
  case (fu_pushes f)
  with wait show ?thesis by (auto simp: fu_inv_wait_def fu_defs Let_def)
next
  case (fu_begins_poll w)
  with wait show ?thesis by (auto simp: fu_inv_wait_def fu_defs)
next
  case fu_begins_drop
  with wait show ?thesis by (auto simp: fu_inv_wait_def fu_defs)
next
  case (fu_begins_wake i t)
  with wait fu_begins_wake show ?thesis by (auto simp: fu_inv_wait_def fu_defs any_coming_keep)
qed (auto intro: fu_wait_owner [OF _ inv wait] fu_wait_wake [OF inv wait])

lemma fu_wait_reach: "fu_reach s \<Longrightarrow> fu_inv_wait s"
  by (rule reach_invariant [of "\<lambda>s. s = fu_new" fu_step])
    (simp, simp add: fu_inv_wait_def fu_new_def, blast intro: fu_wait_step dest: fu_inv_reach)

section \<open>Bounded work\<close>

text \<open>\<open>polled\<close> never exceeds the length at the start, and the loop is left when it reaches it.\<close>

fun fu_ctx_ok :: "'a fu_pc \<Rightarrow> nat \<Rightarrow> bool" where
  "fu_ctx_ok (FuLoop c) n \<longleftrightarrow> n = cx_len c \<and> cx_yielded c < 2 \<and> (cx_polled c < n \<or> n = 0 \<and> cx_polled c = 0)"
| "fu_ctx_ok (FuTask c t) n \<longleftrightarrow> n = cx_len c \<and> cx_yielded c < 2 \<and> (cx_polled c < n \<or> n = 0 \<and> cx_polled c = 0)"
| "fu_ctx_ok (FuReset c t) n \<longleftrightarrow> Suc n = cx_len c \<and> cx_yielded c < 2 \<and> cx_polled c < cx_len c"
| "fu_ctx_ok (FuUnwoken c t) n \<longleftrightarrow> Suc n = cx_len c \<and> cx_yielded c < 2 \<and> cx_polled c < cx_len c"
| "fu_ctx_ok (FuPolling c t) n \<longleftrightarrow> Suc n = cx_len c \<and> cx_yielded c < 2 \<and> cx_polled c < cx_len c"
| "fu_ctx_ok (FuYield c t) n \<longleftrightarrow> Suc n = cx_len c \<and> cx_yielded c < 2 \<and> cx_polled c \<le> cx_len c"
| "fu_ctx_ok FuGone n \<longleftrightarrow> n = 0"
| "fu_ctx_ok _ n = True"

text \<open>Tasks that have completed and whose reference is still to be taken from the queue.\<close>

definition fu_dead :: "('f, 'a) fu \<Rightarrow> nat" where
  "fu_dead s = card {t. fu_task s t \<and> fu_future s t = None \<and> t \<notin> fu_freed s}"

text \<open>A bound on the steps the owner takes before it returns.\<close>

definition fu_rank :: "('f, 'a) fu \<Rightarrow> nat" where
  "fu_rank s =
     (case fu_pc s of
        FuPushEnq t \<Rightarrow> 2
      | FuPushLink t \<Rightarrow> 1
      | FuLoop c \<Rightarrow> 8 * (cx_len c - cx_polled c) + 2 * fu_dead s + 2
      | FuTask c t \<Rightarrow> 8 * (cx_len c - cx_polled c) + 2 * fu_dead s + 1
      | FuReset c t \<Rightarrow> 8 * (cx_len c - cx_polled c) + 2 * fu_dead s
      | FuUnwoken c t \<Rightarrow> 8 * (cx_len c - cx_polled c) + 2 * fu_dead s - 1
      | FuPolling c t \<Rightarrow> 8 * (cx_len c - cx_polled c) + 2 * fu_dead s - 2
      | FuYield c t \<Rightarrow> 8 * (cx_len c - cx_polled c) + 2 * fu_dead s + 3
      | FuRelease t r \<Rightarrow> 1
      | FuDropping \<Rightarrow> 2 * fu_len s + 1
      | FuDropRelease t \<Rightarrow> 2 * fu_len s + 2
      | _ \<Rightarrow> 0)"

lemma fu_dead_finite: "finite {t. fu_task s t \<and> P t}"
  by (rule finite_subset [of _ "{1..fu_count s}"]) (auto simp: fu_task_def)

lemma fu_dead_cong: "fu_count s' = fu_count s \<Longrightarrow> fu_freed s' = fu_freed s \<Longrightarrow> (\<And>t. fu_future s' t = None \<longleftrightarrow> fu_future s t = None) \<Longrightarrow> fu_dead s' = fu_dead s"
  by (simp add: fu_dead_def fu_task_def)

lemma fu_dead_fields [simp]:
  "fu_dead (s\<lparr>fu_all := xs\<rparr>) = fu_dead s" "fu_dead (s\<lparr>fu_pc := l\<rparr>) = fu_dead s"
  by (simp_all add: fu_dead_def fu_task_def)

lemma fu_ctx_owner:
  assumes "fu_owner_step s s'" and inv: "fu_inv s" and ok: "fu_ctx_ok (fu_pc s) (length (fu_all s))"
  shows "fu_ctx_ok (fu_pc s') (length (fu_all s'))"
  using assms(1)
proof cases
  case (fu_dequeues c r q)
  with ok show ?thesis by (cases r) (auto simp: fu_defs)
next
  case (fu_polls_pending c t f)
  with ok show ?thesis by (simp add: fu_defs)
next
  case (fu_polls_ready c t r)
  with ok show ?thesis by (simp add: fu_defs)
next
  case fu_owner_runs
  show ?thesis
  proof (cases "fu_pc s")
    case (FuTask c t)
    have "fu_task s t" using fu_inv_flagD(1) [OF fu_invD(3) [OF inv], of t] FuTask by auto
    then have "t \<in> set (fu_all s)" if "fu_future s t \<noteq> None"
      using fu_inv_listD(3) [OF fu_invD(4) [OF inv], of t] FuTask that by auto
    then have "length (remove1 t (fu_all s)) = length (fu_all s) - 1 \<and> fu_all s \<noteq> []" if "fu_future s t \<noteq> None"
      using that by (auto simp: length_remove1)
    with FuTask fu_owner_runs ok show ?thesis by (auto simp: fu_defs split: option.splits)
  next
    case (FuYield c t)
    with fu_owner_runs ok show ?thesis by (auto simp: fu_defs Let_def)
  next
    case (FuRelease t r)
    with fu_owner_runs ok show ?thesis by (cases r) (auto simp: fu_defs Let_def)
  qed (use ok fu_owner_runs in \<open>auto simp: fu_defs Let_def split: list.splits\<close>)
qed

lemma fu_rank_owner:
  assumes "fu_owner_step s s'" and inv: "fu_inv s" and ok: "fu_ctx_ok (fu_pc s) (length (fu_all s))"
  shows "fu_rank s' < fu_rank s"
  using assms(1)
proof cases
  case (fu_dequeues c r q)
  then have "fu_dead s' = fu_dead s" by (cases r) (simp_all add: fu_dead_def fu_defs)
  with fu_dequeues show ?thesis by (cases r) (simp_all add: fu_rank_def fu_defs)
next
  case (fu_polls_pending c t f)
  have "fu_future s t \<noteq> None" using fu_inv_listD(3) [OF fu_invD(4) [OF inv], of t] fu_polls_pending by simp
  then have "fu_dead s' = fu_dead s" by (intro fu_dead_cong) (auto simp: fu_polls_pending fu_polled_pending_def fu_goto_def)
  moreover have "fu_pc s' = FuYield (c\<lparr>cx_polled := cx_polled c + 1\<rparr>) t" by (simp add: fu_polls_pending fu_polled_pending_def fu_goto_def)
  ultimately show ?thesis using ok fu_polls_pending(2) by (auto simp: fu_rank_def)
next
  case (fu_polls_ready c t r)
  with ok show ?thesis by (auto simp: fu_rank_def fu_polled_ready_def fu_goto_def)
next
  case fu_owner_runs
  show ?thesis
  proof (cases "fu_pc s")
    case (FuTask c t)
    have tok: "fu_task s t" "t \<notin> fu_freed s" using fu_inv_flagD(1) [OF fu_invD(3) [OF inv], of t] FuTask by auto
    show ?thesis
    proof (cases "fu_future s t")
      case None
      let ?D = "{t. fu_task s t \<and> fu_future s t = None \<and> t \<notin> fu_freed s}"
      have nin: "t \<notin> set (fu_all s)" using fu_inv_listD(3) [OF fu_invD(4) [OF inv], of t] None by blast
      have "{u. fu_task s' u \<and> fu_future s' u = None \<and> u \<notin> fu_freed s'} = ?D - {t}"
        using FuTask None nin fu_owner_runs by (auto simp: fu_goto_def fu_task_def)
      moreover have "t \<in> ?D" using tok None by simp
      ultimately have "fu_dead s' < fu_dead s" unfolding fu_dead_def by (simp only:) (rule card_Diff1_less [OF fu_dead_finite])
      moreover have "fu_pc s' = FuLoop c" using FuTask None nin fu_owner_runs by (simp add: fu_goto_def)
      ultimately show ?thesis using FuTask by (simp add: fu_rank_def)
    next
      case (Some f)
      with FuTask fu_owner_runs have "fu_dead s' = fu_dead s" by (simp add: fu_dead_def fu_defs)
      with FuTask Some fu_owner_runs show ?thesis by (simp add: fu_rank_def fu_goto_def)
    qed
  next
    case (FuReset c t)
    have "fu_queued s t" using fu_inv_flagD(1) [OF fu_invD(3) [OF inv], of t] FuReset by auto
    with FuReset fu_owner_runs have s': "fu_pc s' = FuUnwoken c t" "fu_dead s' = fu_dead s"
      by (simp_all add: fu_dead_def fu_defs Let_def)
    with FuReset ok show ?thesis by (auto simp: fu_rank_def)
  next
    case (FuUnwoken c t)
    with fu_owner_runs have "fu_pc s' = FuPolling c t" "fu_dead s' = fu_dead s" by (simp_all add: fu_dead_def fu_defs)
    with FuUnwoken ok show ?thesis by (auto simp: fu_rank_def)
  next
    case (FuYield c t)
    with fu_owner_runs show ?thesis by (simp add: fu_rank_def fu_defs Let_def)
  next
    case (FuRelease t r)
    with fu_owner_runs show ?thesis by (cases r) (simp_all add: fu_rank_def fu_defs Let_def)
  next
    case FuDropping
    with fu_owner_runs show ?thesis by (cases "fu_all s") (simp_all add: fu_rank_def fu_defs)
  next
    case (FuDropRelease t)
    with fu_owner_runs show ?thesis by (simp add: fu_rank_def fu_defs Let_def)
  next
    case (FuPushEnq t)
    with fu_owner_runs show ?thesis by (simp add: fu_rank_def fu_defs)
  qed (use fu_owner_runs in \<open>simp_all add: fu_rank_def fu_defs\<close>)
qed


lemma fu_rank_wake: "fu_rank (fu_wake i l s) = fu_rank s"
proof -
  have "fu_pc (fu_wake i l s) = fu_pc s" "fu_all (fu_wake i l s) = fu_all s" by (cases l; simp add: fu_defs Let_def)+
  moreover have "fu_dead (fu_wake i l s) = fu_dead s" by (cases l) (simp_all add: fu_dead_def fu_defs Let_def)
  ultimately show ?thesis by (simp add: fu_rank_def fu_len_def cong: fu_pc.case_cong)
qed

lemma fu_ctx_reach: "fu_reach s \<Longrightarrow> fu_ctx_ok (fu_pc s) (length (fu_all s))"
proof (erule reach_invariant)
  fix s s'
  assume r: "fu_reach s" and ok: "fu_ctx_ok (fu_pc s) (length (fu_all s))" and "fu_step s s'"
  from this(3) show "fu_ctx_ok (fu_pc s') (length (fu_all s'))"
  proof cases
    case fu_owner
    then show ?thesis using fu_ctx_owner [OF _ fu_inv_reach [OF r] ok] by blast
  next
    case (fu_wakes i)
    with ok show ?thesis by (cases "fu_thr s i") (simp_all add: fu_defs Let_def)
  qed (use ok in \<open>auto simp: fu_defs Let_def\<close>)
qed (simp_all add: fu_new_def)

section \<open>Schedules\<close>

datatype ('f, 'a) fu_event = EvPush 'f | EvPoll waker | EvDrop | EvDeq deq_result "(nat \<times> bool) list"
  | EvPending 'f | EvReady "'a option" | EvRun | EvWake nat nat | EvThread nat

fun fu_play :: "('f, 'a) fu_event list \<Rightarrow> ('f, 'a) fu \<Rightarrow> ('f, 'a) fu option" where
  "fu_play [] s = Some s"
| "fu_play (EvPush f # es) s = (case fu_pc s of FuIdle \<Rightarrow> fu_play es (fu_push f s) | _ \<Rightarrow> None)"
| "fu_play (EvPoll w # es) s = (case fu_pc s of FuIdle \<Rightarrow> fu_play es (fu_poll_next w s) | _ \<Rightarrow> None)"
| "fu_play (EvDrop # es) s = (case fu_pc s of FuIdle \<Rightarrow> fu_play es (fu_goto FuDropping s) | _ \<Rightarrow> None)"
| "fu_play (EvDeq r q # es) s =
     (case fu_pc s of
        FuLoop c \<Rightarrow> if rq_deq (fu_queue s) r q then fu_play es (fu_dequeued c r (s\<lparr>fu_queue := q\<rparr>)) else None
      | _ \<Rightarrow> None)"
| "fu_play (EvPending f # es) s = (case fu_pc s of FuPolling c t \<Rightarrow> fu_play es (fu_polled_pending c t f s) | _ \<Rightarrow> None)"
| "fu_play (EvReady r # es) s = (case fu_pc s of FuPolling c t \<Rightarrow> fu_play es (fu_polled_ready t r s) | _ \<Rightarrow> None)"
| "fu_play (EvRun # es) s = (if fu_runs (fu_pc s) then fu_play es (fu_run (fu_pc s) s) else None)"
| "fu_play (EvWake i t # es) s =
     (if fu_thr s i = WkIdle \<and> fu_task s t then fu_play es (fu_tgoto i (WkUpgrade t) s) else None)"
| "fu_play (EvThread i # es) s = fu_play es (fu_wake i (fu_thr s i) s)"

lemma fu_play_reach: "fu_play es s = Some t \<Longrightarrow> fu_reach s \<Longrightarrow> fu_reach t"
  by (induction es s rule: fu_play.induct)
    (auto split: if_splits fu_pc.splits intro: reach_step fu_step.intros fu_owner_step.intros)

lemma fu_play_new: "fu_play es fu_new = Some t \<Longrightarrow> fu_reach t"
  by (erule fu_play_reach) (rule reach_init, rule refl)

text \<open>
  A future is pushed and polled; it is \<open>Pending\<close>, and so are this \<open>poll_next\<close> and the next one, which finds
  the queue empty. Then thread 0 wakes the task and has enqueued it, but not linked it. In the second schedule
  it goes on to wake the parent, and a third \<open>poll_next\<close> gets the output.
\<close>

definition fu_demo_wait :: "(unit, int) fu_event list" where
  "fu_demo_wait = [EvPush (), EvRun, EvRun, EvPoll 7, EvDeq (DqData 1) [], EvRun, EvRun, EvRun, EvPending (), EvRun,
     EvPoll 7, EvDeq DqEmpty [], EvWake 0 1, EvThread 0, EvThread 0, EvThread 0, EvThread 0]"

definition fu_demo_done :: "(unit, int) fu_event list" where
  "fu_demo_done = fu_demo_wait @ [EvThread 0, EvThread 0, EvPoll 7, EvDeq (DqData 1) [], EvRun, EvRun, EvRun,
     EvReady (Some 5), EvRun]"

lemmas fu_eval = fu_demo_wait_def fu_demo_done_def fu_defs Let_def fu_new_def

section \<open>What the set guarantees\<close>

text \<open>
  C3. No lost wake-ups: after a \<open>poll_next\<close> that returned \<open>Pending\<close> to a task with waker \<open>w\<close>, if the waker
  of a future of the set has been woken since the last poll of that future began (and the future was
  not pushed after the \<open>poll_next\<close>), then the task has been woken or a thread inside \<open>wake\<close> has still to wake it;
  so when no thread is inside \<open>wake\<close>, every future left in the set has had no wake-up since its last poll.
\<close>

theorem fu_no_lost_wake:
  assumes "fu_reach s" and "fu_pc s = FuIdle" and "fu_wait s = Some w" and "\<not> fu_woke s"
    and "t \<in> set (fu_all s)" and "t \<in> fu_notified s" and "t \<notin> fu_pushed s"
  shows "fu_cell s = Some w \<and> (\<exists>i u. fu_thr s i \<in> {WkEnq u, WkLink u, WkParent u})"
proof -
  note W = fu_wait_reach [OF assms(1), unfolded fu_inv_wait_def] and inv = fu_inv_reach [OF assms(1)]
  have alive: "fu_task s t" "fu_future s t \<noteq> None" using fu_inv_listD(3) [OF fu_invD(4) [OF inv], of t] assms(5) by blast+
  then have "t \<notin> fu_freed s" using fu_inv_flagD(2) [OF fu_invD(3) [OF inv], of t] by auto
  moreover have "fu_queued s t" using W assms(6) by blast
  ultimately have "t \<in> fst ` set (fu_queue s) \<or> fu_enqueueing s t"
    using fu_inv_flagD(1) [OF fu_invD(3) [OF inv], of t] alive(1) assms(2) by simp
  then have "\<exists>i u. fu_thr s i \<in> {WkEnq u, WkLink u, WkParent u}"
  proof
    assume "t \<in> fst ` set (fu_queue s)"
    then have "any_coming (fu_thr s)" using W assms(2-4,7) by auto
    then obtain i where "wk_coming (fu_thr s i)" unfolding any_coming_def by blast
    then show ?thesis by (cases "fu_thr s i"; simp; blast)
  next
    assume "fu_enqueueing s t"
    then obtain i where "wk_enqs (fu_thr s i) t" using assms(2) by (auto simp: fu_enqueueing_def)
    then show ?thesis by (cases "fu_thr s i"; simp; blast)
  qed
  with W assms(3,4) show ?thesis by blast
qed

theorem fu_no_lost_wake_witness:
  "\<exists>s. fu_play fu_demo_wait fu_new = Some s \<and> fu_all s = [1] \<and> fu_notified s = {1} \<and> fu_queue s = [(1, False)]
     \<and> fu_cell s = Some 7 \<and> (\<exists>i u. fu_thr s i \<in> {WkEnq u, WkLink u, WkParent u})"
proof -
  obtain s where s: "fu_play fu_demo_wait fu_new = Some s" "fu_all s = [1]" "fu_notified s = {1}" "fu_queue s = [(1, False)]"
    "fu_pc s = FuIdle" "fu_wait s = Some 7" "\<not> fu_woke s" "fu_pushed s = {}"
    by (simp add: fu_eval)
  from fu_no_lost_wake [OF fu_play_new [OF s(1)] s(5-7), of 1] s show ?thesis by simp
qed





text \<open>
  C13. Bounded work: every step of the owner lowers a rank that the waking threads do not touch, so
  \<open>poll_next\<close>, \<open>push\<close> and \<open>drop\<close> return whatever the other threads do, and one \<open>poll_next\<close> polls at most as many
  futures as the set held when it began and goes on after at most one that woke itself.
\<close>

theorem fu_bounded_work:
  assumes "fu_reach s"
  shows "(\<forall>s'. fu_owner_step s s' \<longrightarrow> fu_rank s' < fu_rank s) \<and> (\<forall>i. fu_rank (fu_wake i (fu_thr s i) s) = fu_rank s)
    \<and> (\<forall>c. fu_pc s = FuLoop c \<longrightarrow> cx_polled c \<le> cx_len c \<and> cx_yielded c < 2)"
proof -
  note inv = fu_inv_reach [OF assms] and ok = fu_ctx_reach [OF assms]
  have "cx_polled c \<le> cx_len c \<and> cx_yielded c < 2" if "fu_pc s = FuLoop c" for c using ok that by auto
  then show ?thesis using fu_rank_owner [OF _ inv ok] fu_rank_wake [of _ _ s] by blast
qed

theorem fu_bounded_work_witness:
  "\<exists>s. fu_play fu_demo_done fu_new = Some s \<and> (\<forall>i. fu_rank (fu_wake i (fu_thr s i) s) = fu_rank s)"
proof -
  obtain s where s: "fu_play fu_demo_done fu_new = Some s" by (simp add: fu_eval)
  from fu_bounded_work [OF fu_play_new [OF s]] s show ?thesis by blast
qed

text \<open>
  When the set has been dropped no future is left: the owner has dropped them all, and no later
  \<open>wake\<close> enqueues a task.
\<close>

lemma fu_drop_complete:
  assumes "fu_reach s" and "fu_pc s = FuGone" and "fu_task s t"
  shows "fu_future s t = None \<and> fu_queued s t"
proof -
  note inv = fu_inv_reach [OF assms(1)]
  have "fu_all s = []" using fu_ctx_reach [OF assms(1)] assms(2) by simp
  then have "fu_future s t = None" using fu_inv_listD(3) [OF fu_invD(4) [OF inv], of t] assms(2,3) by auto
  with fu_inv_flagD(3) [OF fu_invD(3) [OF inv] assms(3)] show ?thesis by blast
qed

end
