(* ===== verification/Task_List.thy ===== *)
theory Task_List
  imports Futures_Prelude
begin

text \<open>
  The intrusive doubly linked list of all tasks of \<open>FuturesUnordered\<close>
  (\<open>futures-util/src/stream/futures_unordered/mod.rs\<close>: \<open>link\<close>, \<open>unlink\<close>,
  \<open>atomic_load_head_and_len_all\<close>, \<open>drop\<close>; \<open>task.rs\<close>: \<open>spin_next_all\<close>; \<open>iter.rs\<close>: the iterators), as the thread that has
  exclusive access runs them. A task is its number; \<open>next_all\<close> is pending (the code's reserved value), null or
  a task. \<open>len_all\<close> of the head is the length; the other tasks keep the length at some earlier time.

  The lemmas show that the pointer operations implement a list: \<open>link\<close> is \<open>Cons\<close>, \<open>unlink\<close> removes its
  argument wherever it is, \<open>len\<close> is the length, and the iterators yield the tasks in order; no
  subtraction underflows, also when the set is dropped in the middle of an \<open>IntoIter\<close>.
\<close>

section \<open>The list of the code\<close>

datatype next_all = NextPending | NextNull | NextTask nat

record tl =
  tl_head :: "nat option"
  tl_next :: "nat \<Rightarrow> next_all"
  tl_prev :: "nat \<Rightarrow> nat option"
  tl_len :: "nat \<Rightarrow> usize"

definition tl_new :: tl where
  "tl_new = \<lparr>tl_head = None, tl_next = (\<lambda>_. NextPending), tl_prev = (\<lambda>_. None), tl_len = (\<lambda>_. 0)\<rparr>"

fun next_of :: "nat option \<Rightarrow> next_all" where
  "next_of None = NextNull"
| "next_of (Some n) = NextTask n"

text \<open>\<open>spin_next_all\<close>: with exclusive access a pending link stays pending, and the loop does not end.\<close>

definition spin_next_all :: "nat \<Rightarrow> tl \<Rightarrow> nat option comp" where
  "spin_next_all t s =
     (case tl_next s t of NextPending \<Rightarrow> None | NextNull \<Rightarrow> ret None | NextTask n \<Rightarrow> ret (Some n))"

definition load_head_and_len :: "tl \<Rightarrow> (nat option \<times> usize) comp" where
  "load_head_and_len s =
     (case tl_head s of
        None \<Rightarrow> ret (None, 0)
      | Some t \<Rightarrow> bindc (spin_next_all t s) (\<lambda>_. ret (Some t, tl_len s t)))"

text \<open>Checked subtraction on \<open>usize\<close>.\<close>

definition sub_usize :: "usize \<Rightarrow> usize \<Rightarrow> usize comp" where
  "sub_usize a b = (if b \<le> a then ret (a - b) else panic ''attempt to subtract with overflow'')"

definition tl_link :: "nat \<Rightarrow> tl \<Rightarrow> tl comp" where
  "tl_link t s =
     assertc (tl_next s t = NextPending) ''assertion failed: next_all is pending''
       (let head = tl_head s; s = s\<lparr>tl_head := Some t\<rparr> in
        bindc (case head of
            None \<Rightarrow> ret 1
          | Some n \<Rightarrow> bindc (spin_next_all n s) (\<lambda>_. add_usize (tl_len s n) 1)) (\<lambda>new_len.
        let s = s\<lparr>tl_len := (tl_len s)(t := new_len)\<rparr>;
            s = s\<lparr>tl_next := (tl_next s)(t := next_of head)\<rparr>
        in ret (case head of
             None \<Rightarrow> s
           | Some n \<Rightarrow> s\<lparr>tl_prev := (tl_prev s)(n := Some t)\<rparr>)))"

text \<open>
  \<open>next_all.load(Relaxed)\<close> where the code goes on to use the pointer: the reserved value would be followed
  as if it were a task, which the model makes an outcome of its own.
\<close>

definition load_next_all :: "nat \<Rightarrow> tl \<Rightarrow> nat option comp" where
  "load_next_all t s =
     (case tl_next s t of NextPending \<Rightarrow> panic ''the reserved pointer is followed'' | NextNull \<Rightarrow> ret None | NextTask n \<Rightarrow> ret (Some n))"

definition set_prev_of :: "nat option \<Rightarrow> nat option \<Rightarrow> tl \<Rightarrow> tl" where
  "set_prev_of nx pv s = (case nx of Some n \<Rightarrow> s\<lparr>tl_prev := (tl_prev s)(n := pv)\<rparr> | None \<Rightarrow> s)"

definition tl_unlink :: "nat \<Rightarrow> tl \<Rightarrow> tl comp" where
  "tl_unlink t s =
     (case tl_head s of
        None \<Rightarrow> panic ''assertion failed: !head.is_null()''
      | Some h \<Rightarrow>
          bindc (sub_usize (tl_len s h) 1) (\<lambda>new_len.
          bindc (load_next_all t s) (\<lambda>nx.
            let pv = tl_prev s t;
                s = s\<lparr>tl_next := (tl_next s)(t := NextPending), tl_prev := (tl_prev s)(t := None)\<rparr>;
                s = set_prev_of nx pv s;
                s = (case pv of
                      Some p \<Rightarrow> s\<lparr>tl_next := (tl_next s)(p := next_of nx)\<rparr>
                    | None \<Rightarrow> s\<lparr>tl_head := nx\<rparr>)
            in ret (case tl_head s of
                 None \<Rightarrow> s
               | Some h \<Rightarrow> s\<lparr>tl_len := (tl_len s)(h := new_len)\<rparr>))))"

text \<open>\<open>IterPinRef\<close> and \<open>IterPinMut\<close>: the task and the length still to come.\<close>

record tl_iter =
  it_task :: "nat option"
  it_len :: usize

definition tl_iter :: "tl \<Rightarrow> tl_iter comp" where
  "tl_iter s = bindc (load_head_and_len s) (\<lambda>(task, len). ret \<lparr>it_task = task, it_len = len\<rparr>)"

definition tl_iter_next :: "tl \<Rightarrow> tl_iter \<Rightarrow> (nat option \<times> tl_iter) comp" where
  "tl_iter_next s this =
     (case it_task this of
        None \<Rightarrow> ret (None, this)
      | Some t \<Rightarrow>
          bindc (spin_next_all t s) (\<lambda>nx.
          bindc (sub_usize (it_len this) 1) (\<lambda>len.
            ret (Some t, \<lparr>it_task = nx, it_len = len\<rparr>))))"

definition tl_iter_size_hint :: "tl_iter \<Rightarrow> hint" where
  "tl_iter_size_hint this = (it_len this, Some (it_len this))"

text \<open>\<open>IterPinMut\<close> reads the head and its length without waiting for a link.\<close>

definition tl_iter_mut :: "tl \<Rightarrow> tl_iter" where
  "tl_iter_mut s = \<lparr>it_task = tl_head s, it_len = (case tl_head s of None \<Rightarrow> 0 | Some t \<Rightarrow> tl_len s t)\<rparr>"

definition tl_iter_mut_next :: "tl \<Rightarrow> tl_iter \<Rightarrow> (nat option \<times> tl_iter) comp" where
  "tl_iter_mut_next s this =
     (case it_task this of
        None \<Rightarrow> ret (None, this)
      | Some t \<Rightarrow>
          bindc (load_next_all t s) (\<lambda>nx.
          bindc (sub_usize (it_len this) 1) (\<lambda>len.
            ret (Some t, \<lparr>it_task = nx, it_len = len\<rparr>))))"

text \<open>
  \<open>IntoIter\<close>: takes the head off without touching \<open>len_all\<close> of the next one. Dropping it drops the set,
  which unlinks what is left (the loop of \<open>drop\<close>).
\<close>

record tl_into_iter =
  ii_len :: usize
  ii_inner :: tl

definition tl_into_iter :: "tl \<Rightarrow> tl_into_iter" where
  "tl_into_iter s = \<lparr>ii_len = (case tl_head s of None \<Rightarrow> 0 | Some t \<Rightarrow> tl_len s t), ii_inner = s\<rparr>"

definition tl_into_next :: "tl_into_iter \<Rightarrow> (nat option \<times> tl_into_iter) comp" where
  "tl_into_next this =
     (let s = ii_inner this in
      case tl_head s of
        None \<Rightarrow> ret (None, this)
      | Some h \<Rightarrow>
          bindc (load_next_all h s) (\<lambda>nx.
          bindc (sub_usize (ii_len this) 1) (\<lambda>len.
            let s = set_prev_of nx None (s\<lparr>tl_head := nx\<rparr>);
                s = s\<lparr>tl_next := (tl_next s)(h := NextPending), tl_prev := (tl_prev s)(h := None)\<rparr>
            in ret (Some h, \<lparr>ii_len = len, ii_inner = s\<rparr>))))"

definition tl_into_size_hint :: "tl_into_iter \<Rightarrow> hint" where
  "tl_into_size_hint this = (ii_len this, Some (ii_len this))"

partial_function (option) tl_drop :: "tl \<Rightarrow> nat list comp" where
  "tl_drop s =
     (case tl_head s of
        None \<Rightarrow> ret []
      | Some h \<Rightarrow> bindc (tl_unlink h s) (\<lambda>s. bindc (tl_drop s) (\<lambda>ts. ret (h # ts))))"

section \<open>The abstraction\<close>

text \<open>
  A segment: from pointer \<open>p\<close>, with \<open>pv\<close> before it, the links run through \<open>xs\<close> and back, and leave it at
  pointer \<open>q\<close> with \<open>e\<close> as the last task. And every task has at least the number of tasks from it on as its
  \<open>len_all\<close>.
\<close>

fun tl_seg :: "tl \<Rightarrow> nat option \<Rightarrow> nat option \<Rightarrow> nat list \<Rightarrow> nat option \<Rightarrow> nat option \<Rightarrow> bool" where
  "tl_seg s pv p [] e q \<longleftrightarrow> p = q \<and> pv = e"
| "tl_seg s pv p (x # xs) e q \<longleftrightarrow>
     p = Some x \<and> tl_prev s x = pv \<and> (\<exists>r. tl_next s x = next_of r \<and> tl_seg s (Some x) r xs e q)"

fun tl_lens :: "(nat \<Rightarrow> usize) \<Rightarrow> nat list \<Rightarrow> bool" where
  "tl_lens l [] \<longleftrightarrow> True"
| "tl_lens l (x # xs) \<longleftrightarrow> Suc (length xs) \<le> unat (l x) \<and> tl_lens l xs"

definition tl_list :: "tl \<Rightarrow> nat list \<Rightarrow> bool" where
  "tl_list s xs \<longleftrightarrow> (\<exists>e. tl_seg s None (tl_head s) xs e None) \<and> distinct xs \<and> tl_lens (tl_len s) xs
     \<and> (\<forall>t. t \<notin> set xs \<longrightarrow> tl_next s t = NextPending \<and> tl_prev s t = None)"

definition tl_exact :: "tl \<Rightarrow> nat list \<Rightarrow> bool" where
  "tl_exact s xs \<longleftrightarrow> (xs \<noteq> [] \<longrightarrow> unat (tl_len s (hd xs)) = length xs)"

lemma next_of_null [simp]: "next_of p = NextNull \<longleftrightarrow> p = None"
  by (cases p) simp_all

lemma next_of_null' [simp]: "NextNull = next_of p \<longleftrightarrow> p = None"
  by (cases p) simp_all

lemma next_of_task [simp]: "next_of p = NextTask n \<longleftrightarrow> p = Some n"
  by (cases p) auto

lemma next_of_task' [simp]: "NextTask n = next_of p \<longleftrightarrow> p = Some n"
  by (cases p) auto

lemma next_of_not_pending [simp]: "next_of p \<noteq> NextPending"
  by (cases p) simp_all

lemma next_of_not_pending' [simp]: "NextPending \<noteq> next_of p"
  by (cases p) simp_all

lemma next_of_inj [simp]: "next_of p = next_of q \<longleftrightarrow> p = q"
  by (cases p; cases q) simp_all

lemma case_next_of [simp]: "(case next_of p of NextPending \<Rightarrow> a | NextNull \<Rightarrow> b | NextTask n \<Rightarrow> f n) = (case p of None \<Rightarrow> b | Some n \<Rightarrow> f n)"
  by (cases p) auto

lemma spin_next_of: "tl_next s t = next_of p \<Longrightarrow> spin_next_all t s = ret p"
  by (cases p) (auto simp: spin_next_all_def)

lemma load_next_of: "tl_next s t = next_of p \<Longrightarrow> load_next_all t s = ret p"
  by (cases p) (auto simp: load_next_all_def)

lemma tl_seg_append: "tl_seg s pv p (xs @ ys) e q \<longleftrightarrow> (\<exists>m r. tl_seg s pv p xs m r \<and> tl_seg s m r ys e q)"
  by (induction xs arbitrary: pv p) auto

lemma tl_seg_cong:
  assumes "\<And>x. x \<in> set xs \<Longrightarrow> tl_next s' x = tl_next s x \<and> tl_prev s' x = tl_prev s x"
  shows "tl_seg s' pv p xs e q \<longleftrightarrow> tl_seg s pv p xs e q"
  using assms by (induction xs arbitrary: pv p) auto

lemma tl_lens_cong: "(\<And>x. x \<in> set xs \<Longrightarrow> l' x = l x) \<Longrightarrow> tl_lens l' xs \<longleftrightarrow> tl_lens l xs"
  by (induction xs) auto

lemma tl_lens_append: "tl_lens l (xs @ ys) \<Longrightarrow> tl_lens l ys"
  by (induction xs) auto

lemma tl_lens_remove: "tl_lens l (xs @ t # ys) \<Longrightarrow> tl_lens l (xs @ ys)"
  by (induction xs) auto

lemma tl_seg_head: "tl_seg s pv p (x # xs) e q \<Longrightarrow> p = Some x"
  by simp

lemma tl_list_head: "tl_list s xs \<Longrightarrow> tl_head s = (case xs of [] \<Rightarrow> None | x # _ \<Rightarrow> Some x)"
  by (cases xs) (auto simp: tl_list_def)

lemma tl_list_len: "tl_list s (x # xs) \<Longrightarrow> Suc (length xs) \<le> unat (tl_len s x)"
  by (simp add: tl_list_def)

section \<open>The operations\<close>

lemma tl_new_list: "tl_list tl_new []"
  by (simp add: tl_list_def tl_new_def)

lemma load_head_len:
  assumes "tl_list s xs" and "tl_exact s xs"
  shows "\<exists>n. load_head_and_len s = ret (tl_head s, n) \<and> unat n = length xs"
proof (cases xs)
  case Nil
  with assms(1) show ?thesis by (simp add: tl_list_def load_head_and_len_def)
next
  case (Cons x ys)
  with assms obtain r where "tl_head s = Some x" "tl_next s x = next_of r" by (auto simp: tl_list_def)
  with Cons assms(2) show ?thesis by (simp add: load_head_and_len_def spin_next_of tl_exact_def)
qed

lemma tl_link_list:
  assumes "tl_list s xs" and "tl_exact s xs" and "t \<notin> set xs" and "length xs < 2 ^ 64 - 1"
  shows "\<exists>s'. tl_link t s = ret s' \<and> tl_list s' (t # xs) \<and> tl_exact s' (t # xs)"
proof (cases xs)
  case Nil
  with assms show ?thesis by (simp add: tl_list_def tl_link_def tl_exact_def Let_def)
next
  case (Cons n ys)
  have fresh: "tl_next s t = NextPending" "tl_prev s t = None" using assms(1,3) by (auto simp: tl_list_def)
  from assms(1) Cons obtain r e where n: "tl_head s = Some n" "tl_prev s n = None" "tl_next s n = next_of r" "tl_seg s (Some n) r ys e None"
    by (auto simp: tl_list_def)
  have len: "unat (tl_len s n) = length xs" using assms(2) Cons by (simp add: tl_exact_def)
  have add: "add_usize (tl_len s n) 1 = ret (tl_len s n + 1)" "unat (tl_len s n + 1) = Suc (length xs)"
    using assms(4) len by (simp_all add: add_usize_def checked_add_def unat_add_usize)
  have nt: "n \<noteq> t" "t \<notin> set ys" "n \<notin> set ys" using assms(1,3) Cons by (auto simp: tl_list_def)
  let ?s = "s\<lparr>tl_head := Some t, tl_next := (tl_next s)(t := NextTask n), tl_prev := (tl_prev s)(n := Some t),
     tl_len := (tl_len s)(t := tl_len s n + 1)\<rparr>"
  have "spin_next_all n (s\<lparr>tl_head := Some t\<rparr>) = ret r" by (rule spin_next_of) (simp add: n)
  then have run: "tl_link t s = ret ?s" using fresh n add by (simp add: tl_link_def Let_def)
  have "tl_seg ?s (Some n) r ys e None" using n(4) by (rule tl_seg_cong [THEN iffD2, rotated]) (use nt in auto)
  then have seg: "tl_seg ?s None (tl_head ?s) (t # xs) e None" using Cons n nt fresh by (auto intro: exI [of _ "Some n"])
  have "tl_lens (tl_len ?s) xs \<longleftrightarrow> tl_lens (tl_len s) xs" by (rule tl_lens_cong) (use assms(3) in auto)
  then have "tl_list ?s (t # xs)"
    using seg assms(1,3) add(2) Cons unfolding tl_list_def by (auto simp del: tl_seg.simps)
  moreover have "tl_exact ?s (t # xs)" using add(2) by (simp add: tl_exact_def)
  ultimately show ?thesis using run by blast
qed

text \<open>Taking a task out of a segment: the links around it are the links of the remaining list.\<close>

definition tl_cut :: "nat \<Rightarrow> nat option \<Rightarrow> nat option \<Rightarrow> tl \<Rightarrow> tl" where
  "tl_cut t pv nx s =
     (let s = set_prev_of nx pv (s\<lparr>tl_next := (tl_next s)(t := NextPending), tl_prev := (tl_prev s)(t := None)\<rparr>) in
      case pv of Some p \<Rightarrow> s\<lparr>tl_next := (tl_next s)(p := next_of nx)\<rparr> | None \<Rightarrow> s\<lparr>tl_head := nx\<rparr>)"

lemma tl_cut_len [simp]: "tl_len (tl_cut t pv nx s) = tl_len s"
  by (simp add: tl_cut_def set_prev_of_def Let_def split: option.splits)

lemma tl_cut_first:
  assumes "tl_seg s None (Some t) (t # ys) e None" and "distinct (t # ys)" and "tl_next s t = next_of nx"
  shows "\<exists>e'. tl_seg (tl_cut t None nx s) None nx ys e' None"
proof (cases ys)
  case Nil
  with assms show ?thesis by (simp add: tl_cut_def set_prev_of_def)
next
  case (Cons y zs)
  have nx: "nx = Some y" and tail: "\<exists>r. tl_next s y = next_of r \<and> tl_seg s (Some y) r zs e None"
    using assms(1,3) Cons by auto
  from tail obtain r where r: "tl_next s y = next_of r" "tl_seg s (Some y) r zs e None" by blast
  have "tl_seg (tl_cut t None nx s) (Some y) r zs e None"
    by (rule tl_seg_cong [THEN iffD2, OF _ r(2)]) (use assms(2) Cons nx in \<open>auto simp: tl_cut_def set_prev_of_def\<close>)
  then show ?thesis using r(1) nx Cons assms(2) by (auto simp: tl_cut_def set_prev_of_def)
qed

lemma tl_cut_after:
  assumes "tl_seg s None h (xs @ [p]) (Some p) (Some t)" and "tl_seg s (Some p) (Some t) (t # ys) e None"
    and "distinct (xs @ p # t # ys)" and "tl_next s t = next_of nx"
  shows "\<exists>e'. tl_seg (tl_cut t (Some p) nx s) None h (xs @ p # ys) e' None"
proof -
  let ?s = "tl_cut t (Some p) nx s"
  from assms(1) obtain m r where xs: "tl_seg s None h xs m r" "r = Some p" "tl_prev s p = m"
    unfolding tl_seg_append by auto
  have 1: "tl_seg ?s None h xs m (Some p)"
  proof (rule tl_seg_cong [THEN iffD2, OF _ xs(1) [unfolded xs(2)]])
    fix x assume "x \<in> set xs"
    moreover have "nx = None \<or> nx = Some (hd ys) \<and> ys \<noteq> []" using assms(2,4) by (cases ys) auto
    ultimately show "tl_next ?s x = tl_next s x \<and> tl_prev ?s x = tl_prev s x"
      using assms(3) by (cases ys) (auto simp: tl_cut_def set_prev_of_def)
  qed
  have 2: "\<exists>e'. tl_seg ?s (Some p) nx ys e' None \<and> tl_prev ?s p = m \<and> tl_next ?s p = next_of nx"
  proof (cases ys)
    case Nil
    with assms xs(3) show ?thesis by (simp add: tl_cut_def set_prev_of_def)
  next
    case (Cons y zs)
    have nx: "nx = Some y" using assms(2,4) Cons by auto
    from assms(2) Cons obtain r where r: "tl_next s y = next_of r" "tl_seg s (Some y) r zs e None" by auto
    have "tl_seg ?s (Some y) r zs e None"
      by (rule tl_seg_cong [THEN iffD2, OF _ r(2)]) (use assms(3) Cons nx in \<open>auto simp: tl_cut_def set_prev_of_def\<close>)
    then show ?thesis using r(1) nx Cons assms(3) xs(3) by (auto simp: tl_cut_def set_prev_of_def)
  qed
  from 1 2 show ?thesis unfolding tl_seg_append by (auto intro!: exI [of _ m] exI [of _ "Some p"])
qed

lemma tl_cut_fields:
  assumes "x \<noteq> t" and "nx \<noteq> Some x" and "pv \<noteq> Some x"
  shows "tl_next (tl_cut t pv nx s) x = tl_next s x" and "tl_prev (tl_cut t pv nx s) x = tl_prev s x"
  using assms by (auto simp: tl_cut_def set_prev_of_def Let_def split: option.splits)

lemma tl_cut_cleared:
  assumes "nx \<noteq> Some t" and "pv \<noteq> Some t"
  shows "tl_next (tl_cut t pv nx s) t = NextPending" and "tl_prev (tl_cut t pv nx s) t = None"
  using assms by (auto simp: tl_cut_def set_prev_of_def Let_def split: option.splits)

lemma tl_seg_next_in: "tl_seg s pv p (x # xs) e None \<Longrightarrow> tl_next s x = next_of (case xs of [] \<Rightarrow> None | y # _ \<Rightarrow> Some y)"
  by (cases xs) auto

lemma tl_seg_prev:
  assumes "tl_seg s pv p (xs @ t # ys) e q"
  shows "tl_prev s t = (if xs = [] then pv else Some (last xs))"
  using assms by (induction xs arbitrary: pv p) auto

text \<open>The part of \<open>unlink\<close> that changes links, on a list that has the task anywhere.\<close>

lemma tl_cut_list:
  assumes "tl_list s (xs @ t # ys)" and "pv = tl_prev s t" and "tl_next s t = next_of nx"
  shows "\<exists>e. tl_seg (tl_cut t pv nx s) None (tl_head (tl_cut t pv nx s)) (xs @ ys) e None"
    and "\<forall>x. x \<notin> set (xs @ ys) \<longrightarrow> tl_next (tl_cut t pv nx s) x = NextPending \<and> tl_prev (tl_cut t pv nx s) x = None"
    and "nx = (case ys of [] \<Rightarrow> None | y # _ \<Rightarrow> Some y)"
proof -
  from assms(1) obtain e where seg: "tl_seg s None (tl_head s) (xs @ t # ys) e None" and dist: "distinct (xs @ t # ys)"
    and out: "\<And>x. x \<notin> set (xs @ t # ys) \<Longrightarrow> tl_next s x = NextPending \<and> tl_prev s x = None"
    unfolding tl_list_def by blast
  have pv: "pv = (if xs = [] then None else Some (last xs))" using tl_seg_prev [OF seg] assms(2) by simp
  from seg obtain m r where split: "tl_seg s None (tl_head s) xs m r" "tl_seg s m r (t # ys) e None"
    unfolding tl_seg_append by blast
  show nx: "nx = (case ys of [] \<Rightarrow> None | y # _ \<Rightarrow> Some y)" using tl_seg_next_in [OF split(2)] assms(3) by simp
  show "\<exists>e. tl_seg (tl_cut t pv nx s) None (tl_head (tl_cut t pv nx s)) (xs @ ys) e None"
  proof (cases xs rule: rev_cases)
    case Nil
    then have "tl_head (tl_cut t pv nx s) = nx" using pv by (simp add: tl_cut_def Let_def)
    with Nil tl_cut_first [of s t ys e nx] split assms(3) dist pv show ?thesis by simp
  next
    case (snoc as p)
    have mr: "m = Some p" "r = Some t" using split pv snoc tl_seg_prev [OF split(1) [unfolded snoc, folded append_Cons]] unfolding snoc by (auto simp: tl_seg_append)
    have "tl_head (tl_cut t pv nx s) = tl_head s" using pv snoc by (simp add: tl_cut_def set_prev_of_def Let_def split: option.splits)
    with tl_cut_after [of s "tl_head s" as p t ys e nx] split mr snoc dist assms(3) pv show ?thesis by simp
  qed
  have nxt: "nx \<noteq> Some t" using nx dist by (auto split: list.splits)
  have pvt: "pv \<noteq> Some t" using pv dist by auto
  show "\<forall>x. x \<notin> set (xs @ ys) \<longrightarrow> tl_next (tl_cut t pv nx s) x = NextPending \<and> tl_prev (tl_cut t pv nx s) x = None"
  proof (intro allI impI)
    fix x assume x: "x \<notin> set (xs @ ys)"
    show "tl_next (tl_cut t pv nx s) x = NextPending \<and> tl_prev (tl_cut t pv nx s) x = None"
    proof (cases "x = t")
      case True
      then show ?thesis using tl_cut_cleared [OF nxt pvt] by simp
    next
      case False
      have "nx \<noteq> Some x" "pv \<noteq> Some x" using x nx pv by (auto split: list.splits)
      with tl_cut_fields [OF False] out [of x] x False show ?thesis by simp
    qed
  qed
qed

lemma tl_unlink_cut:
  "tl_unlink t s =
     (case tl_head s of
        None \<Rightarrow> panic ''assertion failed: !head.is_null()''
      | Some h \<Rightarrow>
          bindc (sub_usize (tl_len s h) 1) (\<lambda>new_len.
          bindc (load_next_all t s) (\<lambda>nx.
            let c = tl_cut t (tl_prev s t) nx s
            in ret (case tl_head c of None \<Rightarrow> c | Some h \<Rightarrow> c\<lparr>tl_len := (tl_len c)(h := new_len)\<rparr>))))"
  unfolding tl_unlink_def tl_cut_def Let_def ..

lemma tl_unlink_list:
  assumes "tl_list s (xs @ t # ys)"
  shows "\<exists>s'. tl_unlink t s = ret s' \<and> tl_list s' (xs @ ys) \<and> (tl_exact s (xs @ t # ys) \<longrightarrow> tl_exact s' (xs @ ys))"
proof -
  from assms obtain e where seg: "tl_seg s None (tl_head s) (xs @ t # ys) e None" and dist: "distinct (xs @ t # ys)"
    and lens: "tl_lens (tl_len s) (xs @ t # ys)" unfolding tl_list_def by blast
  from seg obtain m r where "tl_seg s m r (t # ys) e None" unfolding tl_seg_append by blast
  then obtain nx where nx: "tl_next s t = next_of nx" by auto
  define c where "c = tl_cut t (tl_prev s t) nx s"
  note cut = tl_cut_list [OF assms refl nx, folded c_def]
  obtain h zs where h: "tl_head s = Some h" "xs @ t # ys = h # zs"
    using tl_list_head [OF assms] by (cases "xs @ t # ys") auto
  have big: "length (xs @ t # ys) \<le> unat (tl_len s h)" using lens h(2) by simp
  have "1 \<le> tl_len s h" using big by (simp add: word_le_nat_alt)
  then have sub: "sub_usize (tl_len s h) 1 = ret (tl_len s h - 1)" "unat (tl_len s h - 1) = unat (tl_len s h) - 1"
    by (simp_all add: sub_usize_def unat_sub)
  define s' where "s' = (case tl_head c of None \<Rightarrow> c | Some g \<Rightarrow> c\<lparr>tl_len := (tl_len c)(g := tl_len s h - 1)\<rparr>)"
  have run: "tl_unlink t s = ret s'"
    using h(1) sub(1) load_next_of [OF nx] by (simp add: tl_unlink_cut s'_def Let_def c_def cong del: option.case_cong_weak)
  have same: "tl_next s' = tl_next c" "tl_prev s' = tl_prev c" "tl_head s' = tl_head c"
    by (simp_all add: s'_def split: option.splits)
  from cut(1) obtain e' where seg': "tl_seg s' None (tl_head s') (xs @ ys) e' None"
    using tl_seg_cong [of "xs @ ys" s' c] same by auto
  have clen: "tl_len c = tl_len s" by (simp add: c_def)
  have len': "tl_lens (tl_len s') (xs @ ys) \<and> (tl_exact s (xs @ t # ys) \<longrightarrow> tl_exact s' (xs @ ys))"
  proof (cases "xs @ ys")
    case Nil
    then show ?thesis by (simp add: tl_exact_def)
  next
    case (Cons g gs)
    have "tl_head c = Some g" using seg' Cons same(3) by simp
    then have up: "tl_len s' = (tl_len s)(g := tl_len s h - 1)" by (simp add: s'_def clen)
    have n: "length (xs @ t # ys) = Suc (Suc (length gs))" using arg_cong [OF Cons, of length] by simp
    have "distinct (xs @ ys)" using dist by simp
    then have "g \<notin> set gs" using Cons by simp
    then have "tl_lens (tl_len s') gs \<longleftrightarrow> tl_lens (tl_len s) gs" by (intro tl_lens_cong) (auto simp: up)
    moreover have "tl_lens (tl_len s) (g # gs)" using tl_lens_remove [OF lens] Cons by simp
    ultimately have "tl_lens (tl_len s') (g # gs)" using big n sub(2) by (simp add: up)
    moreover have "tl_exact s (xs @ t # ys) \<longrightarrow> tl_exact s' (g # gs)"
      using n sub(2) h(2) by (auto simp: tl_exact_def up)
    ultimately show ?thesis using Cons by simp
  qed
  have "tl_list s' (xs @ ys)" unfolding tl_list_def using seg' cut(2) len' dist same by auto
  then show ?thesis using run len' by blast
qed

section \<open>The iterators\<close>

text \<open>Running an iterator to its end; the size hint before each item is exact.\<close>

fun run_iter :: "('i \<Rightarrow> (nat option \<times> 'i) comp) \<Rightarrow> ('i \<Rightarrow> hint) \<Rightarrow> nat list \<Rightarrow> 'i \<Rightarrow> bool" where
  "run_iter nxt hint [] i \<longleftrightarrow> hint_bounds (hint i) 0 \<and> (\<exists>j. nxt i = ret (None, j))"
| "run_iter nxt hint (x # xs) i \<longleftrightarrow>
     hint_bounds (hint i) (Suc (length xs)) \<and> (\<exists>j. nxt i = ret (Some x, j) \<and> run_iter nxt hint xs j)"

lemma sub_usize_one: "unat a = Suc n \<Longrightarrow> sub_usize a 1 = ret (a - 1) \<and> unat (a - 1) = n"
  by (auto simp: sub_usize_def word_le_nat_alt unat_sub)

lemma tl_iter_run:
  assumes "tl_seg s pv (it_task i) xs e None" and "unat (it_len i) = length xs"
  shows "run_iter (tl_iter_next s) tl_iter_size_hint xs i" and "run_iter (tl_iter_mut_next s) tl_iter_size_hint xs i"
proof -
  have "run_iter (tl_iter_next s) tl_iter_size_hint xs i \<and> run_iter (tl_iter_mut_next s) tl_iter_size_hint xs i"
    using assms
  proof (induction xs arbitrary: pv i)
    case Nil
    then show ?case by (simp add: tl_iter_next_def tl_iter_mut_next_def tl_iter_size_hint_def)
  next
    case (Cons x xs)
    from Cons.prems obtain r where r: "it_task i = Some x" "tl_next s x = next_of r" "tl_seg s (Some x) r xs e None" by auto
    have len: "sub_usize (it_len i) 1 = ret (it_len i - 1)" "unat (it_len i - 1) = length xs"
      using sub_usize_one [of "it_len i" "length xs"] Cons.prems(2) by simp_all
    have "tl_iter_next s i = ret (Some x, \<lparr>it_task = r, it_len = it_len i - 1\<rparr>)"
      using r len by (simp add: tl_iter_next_def spin_next_of)
    moreover have "tl_iter_mut_next s i = ret (Some x, \<lparr>it_task = r, it_len = it_len i - 1\<rparr>)"
      using r len by (simp add: tl_iter_mut_next_def load_next_of)
    moreover have "hint_bounds (tl_iter_size_hint i) (Suc (length xs))"
      using Cons.prems(2) by (simp add: tl_iter_size_hint_def)
    ultimately show ?case using Cons.IH [of "Some x" "\<lparr>it_task = r, it_len = it_len i - 1\<rparr>"] r(3) len(2) by simp
  qed
  then show "run_iter (tl_iter_next s) tl_iter_size_hint xs i" and "run_iter (tl_iter_mut_next s) tl_iter_size_hint xs i"
    by simp_all
qed

lemma tl_into_next_list:
  assumes "tl_list (ii_inner i) (x # xs)" and "unat (ii_len i) = Suc (length xs)"
  shows "\<exists>j. tl_into_next i = ret (Some x, j) \<and> tl_list (ii_inner j) xs \<and> unat (ii_len j) = length xs"
proof -
  define s where "s = ii_inner i"
  from assms(1) obtain r where h: "tl_head s = Some x" "tl_prev s x = None" "tl_next s x = next_of r"
    unfolding s_def by (auto simp: tl_list_def)
  define c where "c = tl_cut x None r s"
  have list: "tl_list s ([] @ x # xs)" using assms(1) by (simp add: s_def)
  note cut = tl_cut_list [OF list h(2) [symmetric] h(3), folded c_def]
  have len: "sub_usize (ii_len i) 1 = ret (ii_len i - 1)" "unat (ii_len i - 1) = length xs"
    using sub_usize_one [OF assms(2)] by simp_all
  have rx: "r \<noteq> Some x" using cut(3) list by (auto simp: tl_list_def split: list.splits)
  define j where "j = \<lparr>ii_len = ii_len i - 1, ii_inner = c\<rparr>"
  have "set_prev_of r None (s\<lparr>tl_head := r\<rparr>)\<lparr>tl_next := (tl_next (set_prev_of r None (s\<lparr>tl_head := r\<rparr>)))(x := NextPending),
      tl_prev := (tl_prev (set_prev_of r None (s\<lparr>tl_head := r\<rparr>)))(x := None)\<rparr> = c"
    using rx by (cases r) (auto simp: c_def tl_cut_def set_prev_of_def fun_upd_twist)
  then have "tl_into_next i = ret (Some x, j)"
    using h(1) load_next_of [OF h(3)] len(1) by (simp add: tl_into_next_def s_def [symmetric] Let_def j_def)
  moreover have "tl_list c xs"
    using cut(1,2) list by (auto simp: tl_list_def c_def)
  ultimately show ?thesis using len(2) by (simp add: j_def)
qed

lemma tl_into_run:
  assumes "tl_list (ii_inner i) xs" and "unat (ii_len i) = length xs"
  shows "run_iter tl_into_next tl_into_size_hint xs i"
  using assms
proof (induction xs arbitrary: i)
  case Nil
  then have "tl_head (ii_inner i) = None" using tl_list_head by fastforce
  with Nil show ?case by (simp add: tl_into_next_def tl_into_size_hint_def Let_def)
next
  case (Cons x xs)
  then show ?case using tl_into_next_list [of i x xs] by (auto simp: tl_into_size_hint_def)
qed

text \<open>Dropping the set, also in the middle of an \<open>IntoIter\<close>, unlinks every task that is left.\<close>

lemma tl_drop_all: "tl_list s xs \<Longrightarrow> tl_drop s = ret xs"
proof (induction xs arbitrary: s)
  case Nil
  then have "tl_head s = None" using tl_list_head by fastforce
  then show ?case by (subst tl_drop.simps) simp
next
  case (Cons x xs)
  from tl_unlink_list [of s "[]" x xs] Cons.prems obtain s' where "tl_unlink x s = ret s'" "tl_list s' xs" by auto
  moreover have "tl_head s = Some x" using tl_list_head [OF Cons.prems] by simp
  ultimately show ?case using Cons.IH by (subst tl_drop.simps) simp
qed

section \<open>The contract\<close>

text \<open>
  C39. Refinement: on a list of tasks \<open>ts\<close> whose head has the exact length, \<open>link\<close> puts a task in front,
  \<open>unlink\<close> removes its argument wherever it stands, both keep the representation, the head and length that
  \<open>len\<close> reads are those of \<open>ts\<close>, the three iterators yield \<open>ts\<close> in order and announce the exact number at
  every item, and dropping the set unlinks all of \<open>ts\<close>. No subtraction underflows and no loop waits for ever.
\<close>

theorem tl_refines:
  assumes "tl_list s ts" and "tl_exact s ts"
  shows "(\<forall>t. t \<notin> set ts \<and> length ts < 2 ^ 64 - 1 \<longrightarrow>
            (\<exists>s'. tl_link t s = ret s' \<and> tl_list s' (t # ts) \<and> tl_exact s' (t # ts)))
    \<and> (\<forall>t \<in> set ts. \<exists>s'. tl_unlink t s = ret s' \<and> tl_list s' (remove1 t ts) \<and> tl_exact s' (remove1 t ts))
    \<and> (\<exists>n. load_head_and_len s = ret (tl_head s, n) \<and> unat n = length ts)
    \<and> (\<exists>i. tl_iter s = ret i \<and> run_iter (tl_iter_next s) tl_iter_size_hint ts i)
    \<and> run_iter (tl_iter_mut_next s) tl_iter_size_hint ts (tl_iter_mut s)
    \<and> run_iter tl_into_next tl_into_size_hint ts (tl_into_iter s)
    \<and> tl_drop s = ret ts"
proof (intro conjI allI ballI impI)
  fix t assume "t \<notin> set ts \<and> length ts < 2 ^ 64 - 1"
  with tl_link_list [OF assms] show "\<exists>s'. tl_link t s = ret s' \<and> tl_list s' (t # ts) \<and> tl_exact s' (t # ts)" by blast
next
  fix t assume "t \<in> set ts"
  then obtain xs ys where "ts = xs @ t # ys" "t \<notin> set xs" by (meson split_list_first)
  with tl_unlink_list [of s xs t ys] assms
  show "\<exists>s'. tl_unlink t s = ret s' \<and> tl_list s' (remove1 t ts) \<and> tl_exact s' (remove1 t ts)" by (auto simp: remove1_append)
next
  obtain e where seg: "tl_seg s None (tl_head s) ts e None" using assms(1) by (auto simp: tl_list_def)
  obtain n where n: "load_head_and_len s = ret (tl_head s, n)" "unat n = length ts" using load_head_len [OF assms] by blast
  then show "\<exists>n. load_head_and_len s = ret (tl_head s, n) \<and> unat n = length ts" by blast
  show "\<exists>i. tl_iter s = ret i \<and> run_iter (tl_iter_next s) tl_iter_size_hint ts i"
    using tl_iter_run(1) [of s None "\<lparr>it_task = tl_head s, it_len = n\<rparr>" ts e] seg n by (simp add: tl_iter_def)
  have len: "unat (case tl_head s of None \<Rightarrow> 0 | Some t \<Rightarrow> tl_len s t) = length ts"
    using assms tl_list_head [OF assms(1)] by (cases ts) (auto simp: tl_exact_def)
  then show "run_iter (tl_iter_mut_next s) tl_iter_size_hint ts (tl_iter_mut s)"
    using tl_iter_run(2) [of s None "tl_iter_mut s" ts e] seg by (simp add: tl_iter_mut_def)
  show "run_iter tl_into_next tl_into_size_hint ts (tl_into_iter s)"
    by (rule tl_into_run) (use assms(1) len in \<open>simp_all add: tl_into_iter_def\<close>)
  show "tl_drop s = ret ts" by (rule tl_drop_all) (rule assms(1))
qed

text \<open>A set of three tasks, built by \<open>link\<close>; the middle one is unlinked.\<close>

definition tl_demo :: tl where
  "tl_demo =
     (case bindc (tl_link 1 tl_new) (\<lambda>s. bindc (tl_link 2 s) (tl_link 3)) of Some (Returns s) \<Rightarrow> s | _ \<Rightarrow> tl_new)"

lemma tl_demo_list: "tl_list tl_demo [3, 2, 1] \<and> tl_exact tl_demo [3, 2, 1]"
proof -
  obtain s1 where s1: "tl_link 1 tl_new = ret s1" "tl_list s1 [1]" "tl_exact s1 [1]"
    using tl_link_list [OF tl_new_list, of 1] by (auto simp: tl_exact_def)
  obtain s2 where s2: "tl_link 2 s1 = ret s2" "tl_list s2 [2, 1]" "tl_exact s2 [2, 1]"
    using tl_link_list [OF s1(2,3), of 2] by auto
  obtain s3 where s3: "tl_link 3 s2 = ret s3" "tl_list s3 [3, 2, 1]" "tl_exact s3 [3, 2, 1]"
    using tl_link_list [OF s2(2,3), of 3] by auto
  have "tl_demo = s3" using s1(1) s2(1) s3(1) by (simp add: tl_demo_def) (simp add: ret_def)
  with s3 show ?thesis by simp
qed

theorem tl_refines_witness:
  "(\<exists>s'. tl_unlink 2 tl_demo = ret s' \<and> tl_list s' [3, 1] \<and> tl_exact s' [3, 1])
   \<and> run_iter tl_into_next tl_into_size_hint [3, 2, 1] (tl_into_iter tl_demo)"
  using tl_refines [OF tl_demo_list [THEN conjunct1] tl_demo_list [THEN conjunct2]] by auto

end
