(* ===== verification/Async_Mutex.thy ===== *)
theory Async_Mutex
  imports Atomic_Waker
begin

text \<open>
  The asynchronous mutex (\<open>futures-util/src/lock/mutex.rs\<close>): a transition system of any number of agents. An
  agent is a lock future (\<open>MutexLockFuture\<close>, \<open>OwnedMutexLockFuture\<close>) from its creation to its drop, then, if it
  got the lock, the guard; or a caller of \<open>try_lock\<close>. Every access to the atomic \<open>state\<close> and every lock and
  unlock of the \<open>waiters\<close> is a step of its own; what is done to the slab under that lock is one step, as
  nobody else can see it. The atomics are modelled as sequentially consistent.

  The slab is a crate of its own. The model has its contents, a map from keys to waiters, and leaves open what
  its documentation leaves open to the code: the key that \<open>insert\<close> picks is an argument of the step, any
  vacant one, and so is the entry that \<open>iter_mut().next()\<close> finds, any occupied one.
\<close>

section \<open>The mutex\<close>

definition IS_LOCKED :: usize where
  "IS_LOCKED = push_bit 0 1"

definition HAS_WAITERS :: usize where
  "HAS_WAITERS = push_bit 1 1"

definition WAIT_KEY_NONE :: usize where
  "WAIT_KEY_NONE = USIZE_MAX"

datatype Waiter = Waiting waker | Woken

definition waiter_register :: "waker \<Rightarrow> Waiter \<Rightarrow> Waiter" where
  "waiter_register waker this =
     (case this of Waiting w \<Rightarrow> if waker = w then this else Waiting waker | Woken \<Rightarrow> Waiting waker)"

text \<open>\<open>Waiter::wake\<close>: the waiter afterwards, and the waker it wakes.\<close>

definition waiter_wake :: "Waiter \<Rightarrow> Waiter \<times> waker option" where
  "waiter_wake this = (Woken, case this of Waiting w \<Rightarrow> Some w | Woken \<Rightarrow> None)"

text \<open>
  Where an agent is: \<open>poll\<close> with its two attempts and the registration between them, \<open>remove_waker\<close> after the
  lock was acquired (\<open>wake_another = False\<close>) or in \<open>drop\<close> of the future (\<open>True\<close>), \<open>try_lock\<close>, and \<open>unlock\<close>.
\<close>

datatype mx_pc =
    MxNone | MxFuture | MxGuard
  | MxTry1 waker | MxWaitLock waker | MxRegister waker | MxSetWaiters waker | MxWaitUnlock waker | MxTry2 waker
  | MxRm bool | MxRmSlot bool | MxRmClear bool | MxRmUnlock bool
  | MxTryLock
  | MxUnlock | MxWakeLock | MxWake | MxWakeUnlock
  | MxCrash

text \<open>
  The mutex, with the agents: where each is, its \<open>wait_key\<close>, and two history variables no step reads, the waker
  of its last \<open>poll\<close> and whether that waker has been woken since the \<open>poll\<close> began.
\<close>

record mx =
  mx_state :: usize
  mx_held :: bool
  mx_slab :: "usize \<Rightarrow> Waiter option"
  mx_pc :: "nat \<Rightarrow> mx_pc"
  mx_key :: "nat \<Rightarrow> usize"
  mx_wait :: "nat \<Rightarrow> waker option"
  mx_woke :: "nat \<Rightarrow> bool"

definition mx_new :: mx where
  "mx_new = \<lparr>mx_state = 0, mx_held = False, mx_slab = (\<lambda>_. None), mx_pc = (\<lambda>_. MxNone),
     mx_key = (\<lambda>_. WAIT_KEY_NONE), mx_wait = (\<lambda>_. None), mx_woke = (\<lambda>_. False)\<rparr>"

definition mx_goto :: "nat \<Rightarrow> mx_pc \<Rightarrow> mx \<Rightarrow> mx" where
  "mx_goto i l s = s\<lparr>mx_pc := (mx_pc s)(i := l)\<rparr>"

definition mx_wakes :: "waker option \<Rightarrow> mx \<Rightarrow> mx" where
  "mx_wakes w s = s\<lparr>mx_woke := (\<lambda>j. mx_woke s j \<or> w \<noteq> None \<and> mx_wait s j = w)\<rparr>"

text \<open>\<open>fetch_or(IS_LOCKED)\<close> of \<open>try_lock\<close>: whether the lock was free, and the state after it.\<close>

definition mx_try_lock :: "mx \<Rightarrow> bool \<times> mx" where
  "mx_try_lock s = (mx_state s AND IS_LOCKED = 0, s\<lparr>mx_state := mx_state s OR IS_LOCKED\<rparr>)"

text \<open>\<open>if let Some((_, waiter)) = waiters.iter_mut().next() { waiter.wake() }\<close>, the entry found being \<open>k\<close>.\<close>

definition mx_wake_first :: "usize \<Rightarrow> mx \<Rightarrow> mx" where
  "mx_wake_first k s =
     (case mx_slab s k of
        None \<Rightarrow> s
      | Some waiter \<Rightarrow>
          (let (waiter, w) = waiter_wake waiter in mx_wakes w (s\<lparr>mx_slab := (mx_slab s)(k := Some waiter)\<rparr>)))"

text \<open>A lock of the \<open>waiters\<close>; an agent that finds it held stays where it is.\<close>

definition mx_lock_waiters :: "nat \<Rightarrow> mx_pc \<Rightarrow> mx \<Rightarrow> mx" where
  "mx_lock_waiters i l s = (if mx_held s then s else mx_goto i l (s\<lparr>mx_held := True\<rparr>))"

definition mx_unlock_waiters :: "nat \<Rightarrow> mx_pc \<Rightarrow> mx \<Rightarrow> mx" where
  "mx_unlock_waiters i l s = mx_goto i l (s\<lparr>mx_held := False\<rparr>)"

text \<open>\<open>poll\<close>; the key that \<open>waiters.insert\<close> returns is \<open>k\<close>.\<close>

fun mx_poll :: "nat \<Rightarrow> usize \<Rightarrow> mx_pc \<Rightarrow> mx \<Rightarrow> mx" where
  "mx_poll i k (MxTry1 w) s =
     (let (free, s) = mx_try_lock s in mx_goto i (if free then MxRm False else MxWaitLock w) s)"
| "mx_poll i k (MxWaitLock w) s = mx_lock_waiters i (MxRegister w) s"
| "mx_poll i k (MxRegister w) s =
     (if mx_key s i = WAIT_KEY_NONE then
        (let s = s\<lparr>mx_key := (mx_key s)(i := k), mx_slab := (mx_slab s)(k := Some (Waiting w))\<rparr> in
         mx_goto i (if card (dom (mx_slab s)) = 1 then MxSetWaiters w else MxWaitUnlock w) s)
      else (case mx_slab s (mx_key s i) of
          None \<Rightarrow> mx_goto i MxCrash s
        | Some waiter \<Rightarrow>
            mx_goto i (MxWaitUnlock w) (s\<lparr>mx_slab := (mx_slab s)(mx_key s i := Some (waiter_register w waiter))\<rparr>)))"
| "mx_poll i k (MxSetWaiters w) s = mx_goto i (MxWaitUnlock w) (s\<lparr>mx_state := mx_state s OR HAS_WAITERS\<rparr>)"
| "mx_poll i k (MxWaitUnlock w) s = mx_unlock_waiters i (MxTry2 w) s"
| "mx_poll i k (MxTry2 w) s =
     (let (free, s) = mx_try_lock s in mx_goto i (if free then MxRm False else MxFuture) s)"
| "mx_poll i k _ s = s"

text \<open>
  \<open>remove_waker\<close>; after it the agent has its guard, or is gone. The future itself ends here, so its key does.
\<close>

definition mx_removed :: "nat \<Rightarrow> bool \<Rightarrow> mx \<Rightarrow> mx" where
  "mx_removed i wake_another s =
     mx_goto i (if wake_another then MxNone else MxGuard)
       (s\<lparr>mx_key := (mx_key s)(i := WAIT_KEY_NONE), mx_wait := (mx_wait s)(i := None)\<rparr>)"

fun mx_remove_waker :: "nat \<Rightarrow> usize \<Rightarrow> mx_pc \<Rightarrow> mx \<Rightarrow> mx" where
  "mx_remove_waker i k (MxRm b) s =
     (if mx_key s i = WAIT_KEY_NONE then mx_removed i b s else mx_lock_waiters i (MxRmSlot b) s)"
| "mx_remove_waker i k (MxRmSlot b) s =
     (case mx_slab s (mx_key s i) of
        None \<Rightarrow> mx_goto i MxCrash s
      | Some removed_waker \<Rightarrow>
          (let s = s\<lparr>mx_slab := (mx_slab s)(mx_key s i := None)\<rparr>;
               s = (case removed_waker of Waiting _ \<Rightarrow> s | Woken \<Rightarrow> if b then mx_wake_first k s else s)
           in mx_goto i (if dom (mx_slab s) = {} then MxRmClear b else MxRmUnlock b) s))"
| "mx_remove_waker i k (MxRmClear b) s = mx_goto i (MxRmUnlock b) (s\<lparr>mx_state := mx_state s AND NOT HAS_WAITERS\<rparr>)"
| "mx_remove_waker i k (MxRmUnlock b) s = mx_removed i b (s\<lparr>mx_held := False\<rparr>)"
| "mx_remove_waker i k _ s = s"

definition mx_try_lock_call :: "nat \<Rightarrow> mx \<Rightarrow> mx" where
  "mx_try_lock_call i s = (let (free, s) = mx_try_lock s in mx_goto i (if free then MxGuard else MxNone) s)"

fun mx_unlock :: "nat \<Rightarrow> usize \<Rightarrow> mx_pc \<Rightarrow> mx \<Rightarrow> mx" where
  "mx_unlock i k MxUnlock s =
     mx_goto i (if mx_state s AND HAS_WAITERS \<noteq> 0 then MxWakeLock else MxNone)
       (s\<lparr>mx_state := mx_state s AND NOT IS_LOCKED\<rparr>)"
| "mx_unlock i k MxWakeLock s = mx_lock_waiters i MxWake s"
| "mx_unlock i k MxWake s = mx_goto i MxWakeUnlock (mx_wake_first k s)"
| "mx_unlock i k MxWakeUnlock s = mx_unlock_waiters i MxNone s"
| "mx_unlock i k _ s = s"

fun mx_kind :: "mx_pc \<Rightarrow> nat" where
  "mx_kind (MxRm b) = 1"
| "mx_kind (MxRmSlot b) = 1"
| "mx_kind (MxRmClear b) = 1"
| "mx_kind (MxRmUnlock b) = 1"
| "mx_kind MxUnlock = 2"
| "mx_kind MxWakeLock = 2"
| "mx_kind MxWake = 2"
| "mx_kind MxWakeUnlock = 2"
| "mx_kind MxTryLock = 3"
| "mx_kind _ = 0"

text \<open>One step of agent \<open>i\<close>, with the slab's choice \<open>k\<close>.\<close>

definition mx_exec :: "nat \<Rightarrow> usize \<Rightarrow> mx \<Rightarrow> mx" where
  "mx_exec i k s =
     (let l = mx_pc s i in
      if mx_kind l = 0 then mx_poll i k l s
      else if mx_kind l = 1 then mx_remove_waker i k l s
      else if mx_kind l = 2 then mx_unlock i k l s
      else mx_try_lock_call i s)"

text \<open>What the slab may choose: a vacant key, or an occupied entry if there is one.\<close>

definition mx_choice :: "nat \<Rightarrow> usize \<Rightarrow> mx \<Rightarrow> bool" where
  "mx_choice i k s =
     (case mx_pc s i of
        MxRegister w \<Rightarrow> mx_key s i = WAIT_KEY_NONE \<longrightarrow> mx_slab s k = None \<and> k \<noteq> WAIT_KEY_NONE
      | MxRmSlot b \<Rightarrow> (\<exists>k'. k' \<noteq> mx_key s i \<and> mx_slab s k' \<noteq> None) \<longrightarrow> k \<noteq> mx_key s i \<and> mx_slab s k \<noteq> None
      | MxWake \<Rightarrow> (\<exists>k'. mx_slab s k' \<noteq> None) \<longrightarrow> mx_slab s k \<noteq> None
      | _ \<Rightarrow> True)"

text \<open>
  The calls: an agent that is nothing may create a future (\<open>lock\<close>, \<open>lock_owned\<close>) or call \<open>try_lock\<close>; a future
  may be polled or dropped; a guard may be dropped.
\<close>

definition mx_begin_poll :: "nat \<Rightarrow> waker \<Rightarrow> mx \<Rightarrow> mx" where
  "mx_begin_poll i w s =
     mx_goto i (MxTry1 w) (s\<lparr>mx_wait := (mx_wait s)(i := Some w), mx_woke := (mx_woke s)(i := False)\<rparr>)"

inductive mx_step :: "mx \<Rightarrow> mx \<Rightarrow> bool" where
  mx_locks: "mx_pc s i = MxNone \<Longrightarrow> mx_step s (mx_goto i MxFuture s)"
| mx_try_locks: "mx_pc s i = MxNone \<Longrightarrow> mx_step s (mx_goto i MxTryLock s)"
| mx_polls: "mx_pc s i = MxFuture \<Longrightarrow> mx_step s (mx_begin_poll i w s)"
| mx_drops: "mx_pc s i = MxFuture \<Longrightarrow> mx_step s (mx_goto i (MxRm True) s)"
| mx_unlocks: "mx_pc s i = MxGuard \<Longrightarrow> mx_step s (mx_goto i MxUnlock s)"
| mx_runs: "mx_choice i k s \<Longrightarrow> mx_step s (mx_exec i k s)"

abbreviation mx_reach :: "mx \<Rightarrow> bool" where
  "mx_reach \<equiv> reach (\<lambda>s. s = mx_new) mx_step"

section \<open>The state word\<close>

definition mx_locked :: "mx \<Rightarrow> bool" where
  "mx_locked s = bit (mx_state s) 0"

definition mx_waiters :: "mx \<Rightarrow> bool" where
  "mx_waiters s = bit (mx_state s) 1"

lemma mx_bits [simp]:
  "(x AND IS_LOCKED = 0) = (\<not> bit x 0)" "(x AND HAS_WAITERS = 0) = (\<not> bit x 1)"
  using and_exp_0_iff [of 0 x] and_exp_0_iff [of 1 x] by (simp_all add: IS_LOCKED_def HAS_WAITERS_def push_bit_eq_mult)

lemma mx_bits_or [simp]:
  "bit (x OR IS_LOCKED) 0" "bit (x OR IS_LOCKED) (Suc 0) = bit x (Suc 0)"
  "bit (x OR HAS_WAITERS) (Suc 0)" "bit (x OR HAS_WAITERS) 0 = bit x 0"
  by (simp_all add: IS_LOCKED_def HAS_WAITERS_def push_bit_eq_mult bit_or_iff)

lemma mx_bits_and [simp]:
  "\<not> bit (x AND NOT IS_LOCKED) 0" "bit (x AND NOT IS_LOCKED) (Suc 0) = bit x (Suc 0)"
  "\<not> bit (x AND NOT HAS_WAITERS) (Suc 0)" "bit (x AND NOT HAS_WAITERS) 0 = bit x 0"
  by (simp_all add: IS_LOCKED_def HAS_WAITERS_def push_bit_eq_mult bit_and_iff bit_not_iff)

lemmas mx_defs = mx_exec_def mx_try_lock_def mx_lock_waiters_def mx_unlock_waiters_def mx_goto_def mx_removed_def
  mx_try_lock_call_def mx_begin_poll_def

section \<open>Who holds what\<close>

fun mx_holder :: "mx_pc \<Rightarrow> bool" where
  "mx_holder MxGuard = True"
| "mx_holder MxUnlock = True"
| "mx_holder (MxRm b) = (\<not> b)"
| "mx_holder (MxRmSlot b) = (\<not> b)"
| "mx_holder (MxRmClear b) = (\<not> b)"
| "mx_holder (MxRmUnlock b) = (\<not> b)"
| "mx_holder _ = False"

fun mx_inside :: "mx_pc \<Rightarrow> bool" where
  "mx_inside (MxRegister w) = True"
| "mx_inside (MxSetWaiters w) = True"
| "mx_inside (MxWaitUnlock w) = True"
| "mx_inside (MxRmSlot b) = True"
| "mx_inside (MxRmClear b) = True"
| "mx_inside (MxRmUnlock b) = True"
| "mx_inside MxWake = True"
| "mx_inside MxWakeUnlock = True"
| "mx_inside _ = False"

definition mx_inv_lock :: "mx \<Rightarrow> bool" where
  "mx_inv_lock s \<longleftrightarrow> owned mx_holder (mx_pc s) (mx_locked s) \<and> owned mx_inside (mx_pc s) (mx_held s)"

text \<open>An agent that has no slot in the slab: its key is unset. And one that cannot be without.\<close>

fun mx_slotted :: "mx_pc \<Rightarrow> bool" where
  "mx_slotted MxFuture = True"
| "mx_slotted (MxTry1 w) = True"
| "mx_slotted (MxWaitLock w) = True"
| "mx_slotted (MxRegister w) = True"
| "mx_slotted (MxSetWaiters w) = True"
| "mx_slotted (MxWaitUnlock w) = True"
| "mx_slotted (MxTry2 w) = True"
| "mx_slotted (MxRm b) = True"
| "mx_slotted (MxRmSlot b) = True"
| "mx_slotted _ = False"

fun mx_keyed :: "mx_pc \<Rightarrow> bool" where
  "mx_keyed (MxSetWaiters w) = True"
| "mx_keyed (MxWaitUnlock w) = True"
| "mx_keyed (MxTry2 w) = True"
| "mx_keyed (MxRmSlot b) = True"
| "mx_keyed _ = False"

fun mx_keyless :: "mx_pc \<Rightarrow> bool" where
  "mx_keyless MxNone = True"
| "mx_keyless MxGuard = True"
| "mx_keyless MxTryLock = True"
| "mx_keyless MxUnlock = True"
| "mx_keyless MxWakeLock = True"
| "mx_keyless MxWake = True"
| "mx_keyless MxWakeUnlock = True"
| "mx_keyless _ = False"

definition mx_inv_slab :: "mx \<Rightarrow> bool" where
  "mx_inv_slab s \<longleftrightarrow>
     (\<forall>i. mx_pc s i \<noteq> MxCrash
        \<and> (mx_keyless (mx_pc s i) \<longrightarrow> mx_key s i = WAIT_KEY_NONE)
        \<and> (mx_keyed (mx_pc s i) \<longrightarrow> mx_key s i \<noteq> WAIT_KEY_NONE)
        \<and> (mx_slotted (mx_pc s i) \<and> mx_key s i \<noteq> WAIT_KEY_NONE \<longrightarrow> mx_slab s (mx_key s i) \<noteq> None))
   \<and> (\<forall>i j. mx_slotted (mx_pc s i) \<and> mx_slotted (mx_pc s j) \<and> mx_key s i = mx_key s j \<and> mx_key s i \<noteq> WAIT_KEY_NONE \<longrightarrow> i = j)
   \<and> (\<forall>k. mx_slab s k \<noteq> None \<longrightarrow> k \<noteq> WAIT_KEY_NONE \<and> (\<exists>i. mx_slotted (mx_pc s i) \<and> mx_key s i = k))
   \<and> finite (dom (mx_slab s))"

lemma mx_inv_slabD:
  assumes "mx_inv_slab s"
  shows "mx_pc s i \<noteq> MxCrash" and "mx_keyless (mx_pc s i) \<Longrightarrow> mx_key s i = WAIT_KEY_NONE"
    and "mx_keyed (mx_pc s i) \<Longrightarrow> mx_key s i \<noteq> WAIT_KEY_NONE"
    and "mx_slotted (mx_pc s i) \<Longrightarrow> mx_key s i \<noteq> WAIT_KEY_NONE \<Longrightarrow> \<exists>w. mx_slab s (mx_key s i) = Some w"
    and "mx_slotted (mx_pc s i) \<Longrightarrow> mx_slotted (mx_pc s j) \<Longrightarrow> mx_key s i = mx_key s j \<Longrightarrow> mx_key s i \<noteq> WAIT_KEY_NONE \<Longrightarrow> i = j"
    and "mx_slab s k \<noteq> None \<Longrightarrow> k \<noteq> WAIT_KEY_NONE \<and> (\<exists>i. mx_slotted (mx_pc s i) \<and> mx_key s i = k)"
    and "finite (dom (mx_slab s))"
  using assms unfolding mx_inv_slab_def by auto

text \<open>A step that neither inserts nor removes.\<close>

lemma mx_inv_slab_keep:
  assumes "mx_inv_slab s" and "mx_key s' = mx_key s" and "dom (mx_slab s') = dom (mx_slab s)"
    and "mx_pc s' = (mx_pc s)(i := l)" and "mx_slotted l = mx_slotted (mx_pc s i)"
    and "mx_keyless l \<longrightarrow> mx_key s i = WAIT_KEY_NONE" and "mx_keyed l \<longrightarrow> mx_key s i \<noteq> WAIT_KEY_NONE" and "l \<noteq> MxCrash"
  shows "mx_inv_slab s'"
proof -
  note D = mx_inv_slabD [OF assms(1)]
  have sl: "mx_slotted (mx_pc s' j) = mx_slotted (mx_pc s j)" for j using assms(4,5) by simp
  have dom: "mx_slab s' k = None \<longleftrightarrow> mx_slab s k = None" for k using assms(3) by (metis domIff)
  show ?thesis unfolding mx_inv_slab_def
  proof (intro conjI allI impI)
    fix j
    show "mx_pc s' j \<noteq> MxCrash" using D(1) [of j] assms(4,8) by simp
    show "mx_keyless (mx_pc s' j) \<Longrightarrow> mx_key s' j = WAIT_KEY_NONE" using D(2) [of j] assms(2,4,6) by (auto split: if_splits)
    show "mx_keyed (mx_pc s' j) \<Longrightarrow> mx_key s' j \<noteq> WAIT_KEY_NONE" using D(3) [of j] assms(2,4,7) by (auto split: if_splits)
    show "mx_slotted (mx_pc s' j) \<and> mx_key s' j \<noteq> WAIT_KEY_NONE \<Longrightarrow> mx_slab s' (mx_key s' j) \<noteq> None"
      using D(4) [of j] assms(2) sl dom by auto
    fix j'
    show "mx_slotted (mx_pc s' j) \<and> mx_slotted (mx_pc s' j') \<and> mx_key s' j = mx_key s' j' \<and> mx_key s' j \<noteq> WAIT_KEY_NONE \<Longrightarrow> j = j'"
      using D(5) [of j j'] assms(2) sl by auto
  next
    fix k
    show "mx_slab s' k \<noteq> None \<Longrightarrow> k \<noteq> WAIT_KEY_NONE" using D(6) [of k] dom by simp
    show "mx_slab s' k \<noteq> None \<Longrightarrow> \<exists>i. mx_slotted (mx_pc s' i) \<and> mx_key s' i = k" using D(6) [of k] dom sl assms(2) by simp
  next
    show "finite (dom (mx_slab s'))" using D(7) assms(3) by simp
  qed
qed

text \<open>An agent without a key that stops being a future, and the insertion and the removal of a slot.\<close>

lemma mx_inv_slab_leave:
  assumes "mx_inv_slab s" and "mx_key s' = (mx_key s)(i := WAIT_KEY_NONE)" and "mx_slab s' = mx_slab s"
    and "mx_pc s' = (mx_pc s)(i := l)" and "mx_slotted (mx_pc s i) \<longrightarrow> mx_key s i = WAIT_KEY_NONE"
    and "mx_keyless l"
  shows "mx_inv_slab s'"
proof -
  note D = mx_inv_slabD [OF assms(1)]
  have l: "\<not> mx_slotted l" "\<not> mx_keyed l" "l \<noteq> MxCrash" using assms(6) by (cases l; simp)+
  have "k \<noteq> WAIT_KEY_NONE \<and> (\<exists>j. mx_slotted (mx_pc s' j) \<and> mx_key s' j = k)" if "mx_slab s' k \<noteq> None" for k
  proof -
    from D(6) [of k] that assms(3) obtain j where "k \<noteq> WAIT_KEY_NONE" "mx_slotted (mx_pc s j)" "mx_key s j = k" by auto
    moreover from this assms(5) have "j \<noteq> i" by auto
    ultimately show ?thesis using assms(2,4) by auto
  qed
  moreover have "mx_pc s' j \<noteq> MxCrash" "mx_keyless (mx_pc s' j) \<longrightarrow> mx_key s' j = WAIT_KEY_NONE"
    "mx_keyed (mx_pc s' j) \<longrightarrow> mx_key s' j \<noteq> WAIT_KEY_NONE"
    "mx_slotted (mx_pc s' j) \<and> mx_key s' j \<noteq> WAIT_KEY_NONE \<longrightarrow> mx_slab s' (mx_key s' j) \<noteq> None" for j
    using D(1-4) [of j] l assms(2-4) by (cases "j = i"; simp)+
  moreover have "j = j'" if "mx_slotted (mx_pc s' j)" "mx_slotted (mx_pc s' j')" "mx_key s' j = mx_key s' j'" "mx_key s' j \<noteq> WAIT_KEY_NONE" for j j'
    using that D(5) [of j j'] assms(2,4) l(1) by (auto split: if_splits)
  ultimately show ?thesis unfolding mx_inv_slab_def using D(7) assms(3) by auto
qed

lemma mx_inv_slab_enter:
  assumes "mx_inv_slab s" and "mx_key s i = WAIT_KEY_NONE" and "\<not> mx_slotted (mx_pc s i)"
    and "mx_key s' = mx_key s" and "mx_slab s' = mx_slab s" and "mx_pc s' = (mx_pc s)(i := MxFuture)"
  shows "mx_inv_slab s'"
proof -
  note D = mx_inv_slabD [OF assms(1)]
  have "k \<noteq> WAIT_KEY_NONE \<and> (\<exists>j. mx_slotted (mx_pc s' j) \<and> mx_key s' j = k)" if "mx_slab s' k \<noteq> None" for k
  proof -
    from D(6) [of k] that assms(5) obtain j where "k \<noteq> WAIT_KEY_NONE" "mx_slotted (mx_pc s j)" "mx_key s j = k" by auto
    moreover from this assms(2) have "j \<noteq> i" by auto
    ultimately show ?thesis using assms(4,6) by auto
  qed
  moreover have "mx_pc s' j \<noteq> MxCrash" "mx_keyless (mx_pc s' j) \<longrightarrow> mx_key s' j = WAIT_KEY_NONE"
    "mx_keyed (mx_pc s' j) \<longrightarrow> mx_key s' j \<noteq> WAIT_KEY_NONE"
    "mx_slotted (mx_pc s' j) \<and> mx_key s' j \<noteq> WAIT_KEY_NONE \<longrightarrow> mx_slab s' (mx_key s' j) \<noteq> None" for j
    using D(1-4) [of j] assms(2-6) by (cases "j = i"; simp)+
  moreover have "j = j'" if "mx_slotted (mx_pc s' j)" "mx_slotted (mx_pc s' j')" "mx_key s' j = mx_key s' j'" "mx_key s' j \<noteq> WAIT_KEY_NONE" for j j'
    using that D(5) [of j j'] assms(2,4,6) by (auto split: if_splits)
  ultimately show ?thesis unfolding mx_inv_slab_def using D(7) assms(5) by auto
qed

lemma mx_inv_slab_insert:
  assumes "mx_inv_slab s" and "mx_key s i = WAIT_KEY_NONE" and "mx_slotted (mx_pc s i)"
    and "mx_key s' = (mx_key s)(i := k)" and "mx_slab s' = (mx_slab s)(k := Some w)"
    and "mx_pc s' = (mx_pc s)(i := l)" and "mx_slab s k = None" and "k \<noteq> WAIT_KEY_NONE"
    and "mx_slotted l" and "l \<noteq> MxCrash"
  shows "mx_inv_slab s'"
proof -
  note D = mx_inv_slabD [OF assms(1)]
  have l: "\<not> mx_keyless l" using assms(9) by (cases l; simp)
  have sl: "mx_slotted (mx_pc s' j) = mx_slotted (mx_pc s j)" for j using assms(3,6,9) by simp
  have fresh: "\<not> (mx_slotted (mx_pc s j) \<and> mx_key s j = k)" for j using D(4) [of j] assms(7,8) by auto
  have own: "k' \<noteq> WAIT_KEY_NONE \<and> (\<exists>j. mx_slotted (mx_pc s' j) \<and> mx_key s' j = k')" if "mx_slab s' k' \<noteq> None" for k'
  proof (cases "k' = k")
    case True
    with assms(4,6,8,9) show ?thesis by auto
  next
    case False
    with D(6) [of k'] that assms(5) obtain j where "k' \<noteq> WAIT_KEY_NONE" "mx_slotted (mx_pc s j)" "mx_key s j = k'" by auto
    moreover from this assms(2) have "j \<noteq> i" by auto
    ultimately show ?thesis using assms(4) sl by auto
  qed
  have uniq: "j = j'" if "mx_slotted (mx_pc s' j)" "mx_slotted (mx_pc s' j')" "mx_key s' j = mx_key s' j'" "mx_key s' j \<noteq> WAIT_KEY_NONE" for j j'
    using that fresh [of j] fresh [of j'] D(5) [of j j'] unfolding sl by (auto simp: assms(4) split: if_splits)
  have each: "mx_pc s' j \<noteq> MxCrash" "mx_keyless (mx_pc s' j) \<longrightarrow> mx_key s' j = WAIT_KEY_NONE"
    "mx_keyed (mx_pc s' j) \<longrightarrow> mx_key s' j \<noteq> WAIT_KEY_NONE"
    "mx_slotted (mx_pc s' j) \<and> mx_key s' j \<noteq> WAIT_KEY_NONE \<longrightarrow> mx_slab s' (mx_key s' j) \<noteq> None" for j
    using D(1-4) [of j] l assms(4-6,8,10) by auto
  show ?thesis unfolding mx_inv_slab_def using own uniq each D(7) assms(5) by (auto simp del: fun_upd_apply)
qed

lemma mx_inv_slab_remove:
  assumes "mx_inv_slab s" and "mx_slotted (mx_pc s i)" and "mx_key s i \<noteq> WAIT_KEY_NONE"
    and "mx_key s' = mx_key s" and "dom (mx_slab s') = dom (mx_slab s) - {mx_key s i}"
    and "mx_pc s' = (mx_pc s)(i := l)" and "\<not> mx_slotted l" and "\<not> mx_keyless l" and "l \<noteq> MxCrash"
  shows "mx_inv_slab s'"
proof -
  note D = mx_inv_slabD [OF assms(1)]
  have l: "\<not> mx_keyed l" using assms(7) by (cases l; simp)
  have dom: "mx_slab s' k \<noteq> None \<longleftrightarrow> mx_slab s k \<noteq> None \<and> k \<noteq> mx_key s i" for k using assms(5) by (metis Diff_iff domIff singleton_iff)
  have other: "mx_key s j \<noteq> mx_key s i" if "j \<noteq> i" "mx_slotted (mx_pc s j)" for j using D(5) [of j i] that assms(2,3) by metis
  have own: "k \<noteq> WAIT_KEY_NONE \<and> (\<exists>j. mx_slotted (mx_pc s' j) \<and> mx_key s' j = k)" if "mx_slab s' k \<noteq> None" for k
  proof -
    from that dom D(6) [of k] obtain j where "k \<noteq> WAIT_KEY_NONE" "mx_slotted (mx_pc s j)" "mx_key s j = k" "k \<noteq> mx_key s i" by auto
    moreover from this have "j \<noteq> i" by auto
    ultimately show ?thesis using assms(4,6) by auto
  qed
  have each: "mx_pc s' j \<noteq> MxCrash" "mx_keyless (mx_pc s' j) \<longrightarrow> mx_key s' j = WAIT_KEY_NONE"
    "mx_keyed (mx_pc s' j) \<longrightarrow> mx_key s' j \<noteq> WAIT_KEY_NONE"
    "mx_slotted (mx_pc s' j) \<and> mx_key s' j \<noteq> WAIT_KEY_NONE \<longrightarrow> mx_slab s' (mx_key s' j) \<noteq> None" for j
    using D(1-4) [of j] l assms(4,6-9) other [of j] dom by auto
  have uniq: "j = j'" if "mx_slotted (mx_pc s' j)" "mx_slotted (mx_pc s' j')" "mx_key s' j = mx_key s' j'" "mx_key s' j \<noteq> WAIT_KEY_NONE" for j j'
    using that D(5) [of j j'] assms(4,6,7) by (auto split: if_splits)
  show ?thesis unfolding mx_inv_slab_def using own uniq each D(7) assms(5) by auto
qed

lemma dom_upd_known: "m k = Some w \<Longrightarrow> dom (m(k := Some v)) = dom m"
  by auto

lemma mx_wake_first_fields [simp]:
  "mx_state (mx_wake_first k s) = mx_state s" "mx_held (mx_wake_first k s) = mx_held s"
  "mx_pc (mx_wake_first k s) = mx_pc s" "mx_key (mx_wake_first k s) = mx_key s"
  "mx_wait (mx_wake_first k s) = mx_wait s" "dom (mx_slab (mx_wake_first k s)) = dom (mx_slab s)"
  by (auto simp: mx_wake_first_def mx_wakes_def waiter_wake_def split: option.splits)

lemma mx_inv_slab_exec:
  assumes "mx_inv_slab s" and "mx_choice i k s"
  shows "mx_inv_slab (mx_exec i k s)"
proof -
  note D = mx_inv_slabD [OF assms(1)] and keep = mx_inv_slab_keep [OF assms(1), where i = i]
  note leave = mx_inv_slab_leave [OF assms(1), where i = i]
  show ?thesis
  proof (cases "mx_pc s i")
    case (MxRegister w)
    show ?thesis
    proof (cases "mx_key s i = WAIT_KEY_NONE")
      case True
      then show ?thesis using assms(2) MxRegister
        by (intro mx_inv_slab_insert [OF assms(1), where i = i and k = k and w = "Waiting w" and
              l = "if card (dom ((mx_slab s)(k := Some (Waiting w)))) = 1 then MxSetWaiters w else MxWaitUnlock w"])
           (auto simp: mx_exec_def mx_goto_def mx_choice_def Let_def)
    next
      case False
      with D(4) [of i] MxRegister obtain x where "mx_slab s (mx_key s i) = Some x" by auto
      then show ?thesis using MxRegister False
        by (intro keep [where l = "MxWaitUnlock w"]) (auto simp: mx_exec_def mx_goto_def dom_upd_known)
    qed
  next
    case (MxRm b)
    show ?thesis
    proof (cases "mx_key s i = WAIT_KEY_NONE")
      case True
      with MxRm show ?thesis
        by (intro leave [where l = "if b then MxNone else MxGuard"]) (auto simp: mx_exec_def mx_removed_def mx_goto_def)
    next
      case False
      with MxRm show ?thesis
        by (cases "mx_held s"; intro keep [where l = "if mx_held s then MxRm b else MxRmSlot b"])
           (auto simp: mx_exec_def mx_lock_waiters_def mx_goto_def)
    qed
  next
    case (MxRmSlot b)
    with D(3) [of i] have key: "mx_key s i \<noteq> WAIT_KEY_NONE" by simp
    with D(4) [of i] MxRmSlot obtain x where x: "mx_slab s (mx_key s i) = Some x" by auto
    define r where "r = s\<lparr>mx_slab := (mx_slab s)(mx_key s i := None)\<rparr>"
    define u where "u = (if x = Woken \<and> b then mx_wake_first k r else r)"
    have u: "mx_key u = mx_key s" "mx_pc u = mx_pc s" "dom (mx_slab u) = dom (mx_slab s) - {mx_key s i}"
      by (auto simp: u_def r_def)
    have "mx_exec i k s = mx_goto i (if dom (mx_slab u) = {} then MxRmClear b else MxRmUnlock b) u"
      using MxRmSlot x by (cases x) (simp_all add: mx_exec_def Let_def u_def r_def del: dom_eq_empty_conv)
    with u key MxRmSlot show ?thesis
      by (intro mx_inv_slab_remove [OF assms(1), where i = i and l = "if dom (mx_slab u) = {} then MxRmClear b else MxRmUnlock b"])
         (auto simp: mx_goto_def)
  next
    case (MxRmUnlock b)
    then show ?thesis
      by (intro leave [where l = "if b then MxNone else MxGuard"]) (auto simp: mx_exec_def mx_removed_def mx_goto_def)
  next
    case MxTryLock
    then show ?thesis using D(2) [of i]
      by (intro keep [where l = "if mx_state s AND IS_LOCKED = 0 then MxGuard else MxNone"])
         (auto simp: mx_exec_def mx_try_lock_call_def mx_try_lock_def mx_goto_def)
  next
    case (MxTry1 w)
    then show ?thesis
      by (intro keep [where l = "if mx_state s AND IS_LOCKED = 0 then MxRm False else MxWaitLock w"])
         (auto simp: mx_exec_def mx_try_lock_def mx_goto_def)
  next
    case (MxTry2 w)
    then show ?thesis
      by (intro keep [where l = "if mx_state s AND IS_LOCKED = 0 then MxRm False else MxFuture"])
         (auto simp: mx_exec_def mx_try_lock_def mx_goto_def)
  next
    case (MxWaitLock w)
    then show ?thesis
      by (intro keep [where l = "if mx_held s then MxWaitLock w else MxRegister w"])
         (auto simp: mx_exec_def mx_lock_waiters_def mx_goto_def)
  next
    case (MxSetWaiters w)
    then show ?thesis using D(3) [of i] by (intro keep [where l = "MxWaitUnlock w"]) (auto simp: mx_exec_def mx_goto_def)
  next
    case (MxWaitUnlock w)
    then show ?thesis using D(3) [of i]
      by (intro keep [where l = "MxTry2 w"]) (auto simp: mx_exec_def mx_unlock_waiters_def mx_goto_def)
  next
    case (MxRmClear b)
    then show ?thesis by (intro keep [where l = "MxRmUnlock b"]) (auto simp: mx_exec_def mx_goto_def)
  next
    case MxUnlock
    then show ?thesis using D(2) [of i]
      by (intro keep [where l = "if mx_state s AND HAS_WAITERS \<noteq> 0 then MxWakeLock else MxNone"])
         (auto simp: mx_exec_def mx_goto_def)
  next
    case MxWakeLock
    then show ?thesis using D(2) [of i]
      by (intro keep [where l = "if mx_held s then MxWakeLock else MxWake"])
         (auto simp: mx_exec_def mx_lock_waiters_def mx_goto_def)
  next
    case MxWake
    then show ?thesis using D(2) [of i]
      by (intro keep [where l = MxWakeUnlock]) (auto simp: mx_exec_def mx_goto_def)
  next
    case MxWakeUnlock
    then show ?thesis using D(2) [of i]
      by (intro keep [where l = MxNone]) (auto simp: mx_exec_def mx_unlock_waiters_def mx_goto_def)
  qed (use assms(1) in \<open>simp_all add: mx_exec_def\<close>)
qed

lemma mx_inv_slab_new: "mx_inv_slab mx_new"
  by (simp add: mx_inv_slab_def mx_new_def)

lemma mx_inv_slab_step: "mx_step s t \<Longrightarrow> mx_inv_slab s \<Longrightarrow> mx_inv_slab t"
proof (induction rule: mx_step.induct)
  case (mx_locks s i)
  show ?case by (rule mx_inv_slab_enter [of s i]) (use mx_locks mx_inv_slabD(2) [of s i] in \<open>auto simp: mx_goto_def\<close>)
next
  case (mx_try_locks s i)
  show ?case by (rule mx_inv_slab_keep [of s _ i MxTryLock]) (use mx_try_locks mx_inv_slabD(2) [of s i] in \<open>auto simp: mx_goto_def\<close>)
next
  case (mx_polls s i w)
  show ?case by (rule mx_inv_slab_keep [of s _ i "MxTry1 w"]) (use mx_polls in \<open>auto simp: mx_begin_poll_def mx_goto_def\<close>)
next
  case (mx_drops s i)
  show ?case by (rule mx_inv_slab_keep [of s _ i "MxRm True"]) (use mx_drops in \<open>auto simp: mx_goto_def\<close>)
next
  case (mx_unlocks s i)
  show ?case by (rule mx_inv_slab_keep [of s _ i MxUnlock]) (use mx_unlocks mx_inv_slabD(2) [of s i] in \<open>auto simp: mx_goto_def\<close>)
next
  case (mx_runs i k s)
  then show ?case by (simp add: mx_inv_slab_exec)
qed

section \<open>The locks and the waiters flag\<close>

lemma mx_no_crash:
  assumes "mx_inv_slab s"
  shows "mx_pc s i = MxRegister w \<Longrightarrow> mx_key s i \<noteq> WAIT_KEY_NONE \<Longrightarrow> \<exists>x. mx_slab s (mx_key s i) = Some x"
    and "mx_pc s i = MxRmSlot b \<Longrightarrow> mx_key s i \<noteq> WAIT_KEY_NONE \<and> (\<exists>x. mx_slab s (mx_key s i) = Some x)"
  using mx_inv_slabD(3,4) [OF assms, of i] by auto

lemma mx_inv_lock_exec:
  assumes "mx_inv_lock s" and "mx_inv_slab s"
  shows "mx_inv_lock (mx_exec i k s)"
proof (cases "mx_pc s i")
  case (MxRegister w)
  with mx_no_crash(1) [OF assms(2) MxRegister] assms(1) show ?thesis
    by (auto simp: mx_inv_lock_def mx_exec_def mx_goto_def mx_locked_def Let_def intro!: owned_keep)
next
  case (MxRmSlot b)
  from mx_no_crash(2) [OF assms(2) MxRmSlot] obtain x where "mx_slab s (mx_key s i) = Some x" by blast
  with MxRmSlot assms(1) show ?thesis
    by (cases x) (auto simp: mx_inv_lock_def mx_exec_def mx_goto_def mx_locked_def Let_def intro!: owned_keep)
qed (use assms(1) in \<open>auto simp: mx_inv_lock_def mx_defs mx_locked_def Let_def intro: owned_keep owned_take owned_free\<close>)

lemma mx_inv_lock_new: "mx_inv_lock mx_new"
  by (auto simp: mx_inv_lock_def mx_new_def mx_locked_def intro: owned_none)

lemma mx_inv_lock_step: "mx_step s t \<Longrightarrow> mx_inv_lock s \<Longrightarrow> mx_inv_slab s \<Longrightarrow> mx_inv_lock t"
proof (induction rule: mx_step.induct)
  case (mx_runs i k s)
  then show ?case by (simp add: mx_inv_lock_exec)
qed (auto simp: mx_inv_lock_def mx_defs mx_locked_def intro!: owned_keep)

text \<open>\<open>HAS_WAITERS\<close> is set exactly when there are waiters, but for the agent that is about to change it.\<close>

fun mx_fixing :: "mx_pc \<Rightarrow> bool" where
  "mx_fixing (MxSetWaiters w) = True"
| "mx_fixing (MxRmClear b) = True"
| "mx_fixing _ = False"

definition mx_inv_bit :: "mx \<Rightarrow> bool" where
  "mx_inv_bit s \<longleftrightarrow>
     (\<forall>i w. mx_pc s i = MxSetWaiters w \<longrightarrow> dom (mx_slab s) \<noteq> {}) \<and> (\<forall>i b. mx_pc s i = MxRmClear b \<longrightarrow> dom (mx_slab s) = {})
     \<and> ((\<forall>i. \<not> mx_fixing (mx_pc s i)) \<longrightarrow> (mx_waiters s \<longleftrightarrow> dom (mx_slab s) \<noteq> {}))"

lemma mx_fixing_cases: "mx_fixing l \<longleftrightarrow> (\<exists>w. l = MxSetWaiters w) \<or> (\<exists>b. l = MxRmClear b)"
  by (cases l) auto

lemma mx_inv_bit_keep:
  assumes "mx_inv_bit s" and "mx_slab s' = mx_slab s \<or> dom (mx_slab s') = dom (mx_slab s)" and "mx_waiters s' = mx_waiters s"
    and "mx_pc s' = (mx_pc s)(i := l)" and "\<not> mx_fixing l" and "\<not> mx_fixing (mx_pc s i)"
  shows "mx_inv_bit s'"
proof -
  have dom: "dom (mx_slab s') = dom (mx_slab s)" using assms(2) by auto
  have pc: "mx_fixing (mx_pc s' j) = mx_fixing (mx_pc s j)" "mx_fixing (mx_pc s j) \<Longrightarrow> mx_pc s' j = mx_pc s j" for j
    using assms(4-6) by auto
  have "mx_pc s' j = mx_pc s j" if "mx_pc s' j = MxSetWaiters w \<or> mx_pc s' j = MxRmClear b" for j w b
    using that assms(4,5) by (auto split: if_splits)
  then show ?thesis using assms(1,3) pc unfolding mx_inv_bit_def dom by metis
qed

text \<open>A step inside the waiters' lock: nobody else is about to change the flag.\<close>

lemma mx_inv_bit_inside:
  assumes "owned mx_inside (mx_pc s) h" and "mx_inside (mx_pc s i)" and "mx_pc s' = (mx_pc s)(i := l)"
    and "\<And>w. l = MxSetWaiters w \<Longrightarrow> dom (mx_slab s') \<noteq> {}" and "\<And>b. l = MxRmClear b \<Longrightarrow> dom (mx_slab s') = {}"
    and "\<not> mx_fixing l \<Longrightarrow> mx_waiters s' \<longleftrightarrow> dom (mx_slab s') \<noteq> {}"
  shows "mx_inv_bit s'"
proof -
  have "\<not> mx_inside (mx_pc s j)" if "j \<noteq> i" for j using owned_unique [OF assms(1)] assms(2) that by blast
  then have other: "mx_pc s' j \<noteq> MxSetWaiters w \<and> mx_pc s' j \<noteq> MxRmClear b" if "j \<noteq> i" for j w b
    using that assms(3) by (metis fun_upd_apply mx_inside.simps(2,5))
  have own: "mx_pc s' i = l" using assms(3) by simp
  show ?thesis unfolding mx_inv_bit_def
  proof (intro conjI allI impI)
    show "\<And>j w. mx_pc s' j = MxSetWaiters w \<Longrightarrow> dom (mx_slab s') \<noteq> {}" using other own assms(4) by metis
    show "\<And>j b. mx_pc s' j = MxRmClear b \<Longrightarrow> dom (mx_slab s') = {}" using other own assms(5) by metis
    show "\<forall>j. \<not> mx_fixing (mx_pc s' j) \<Longrightarrow> mx_waiters s' = (dom (mx_slab s') \<noteq> {})" using own assms(6) by metis
  qed
qed

lemma mx_inv_bit_exec:
  assumes "mx_inv_bit s" and "mx_inv_lock s" and "mx_inv_slab s" and "mx_choice i k s"
  shows "mx_inv_bit (mx_exec i k s)"
proof -
  have own: "owned mx_inside (mx_pc s) (mx_held s)" using assms(2) by (simp add: mx_inv_lock_def)
  note keep = mx_inv_bit_keep [OF assms(1), where i = i]
  have quiet: "mx_waiters s \<longleftrightarrow> dom (mx_slab s) \<noteq> {}" if "mx_inside (mx_pc s i)" "\<not> mx_fixing (mx_pc s i)"
  proof -
    have "\<not> mx_fixing (mx_pc s j)" for j
      using that owned_unique [OF own that(1), of j] mx_fixing_cases by (cases "mx_inside (mx_pc s j)") auto
    with assms(1) show ?thesis unfolding mx_inv_bit_def by blast
  qed
  have fin: "finite (dom (mx_slab s))" using assms(3) by (rule mx_inv_slabD(7))
  show ?thesis
  proof (cases "mx_pc s i")
    case (MxRegister w)
    show ?thesis
    proof (cases "mx_key s i = WAIT_KEY_NONE")
      case True
      have new: "mx_slab s k = None" using assms(4) MxRegister True by (simp add: mx_choice_def)
      then have "card (insert k (dom (mx_slab s))) = 1 \<longleftrightarrow> dom (mx_slab s) = {}"
        using fin by (auto simp: card_insert_if)
      then show ?thesis using MxRegister True quiet
        by (intro mx_inv_bit_inside [OF own, where i = i and
              l = "if card (dom ((mx_slab s)(k := Some (Waiting w)))) = 1 then MxSetWaiters w else MxWaitUnlock w"])
           (auto simp: mx_exec_def mx_goto_def Let_def mx_waiters_def split: if_splits)
    next
      case False
      with mx_no_crash(1) [OF assms(3) MxRegister] obtain x where x: "mx_slab s (mx_key s i) = Some x" by blast
      then show ?thesis using MxRegister False
        by (intro keep [where l = "MxWaitUnlock w"]) (auto simp: mx_exec_def mx_goto_def mx_waiters_def dom_upd_known)
    qed
  next
    case (MxRmSlot b)
    from mx_no_crash(2) [OF assms(3) MxRmSlot] obtain x where x: "mx_slab s (mx_key s i) = Some x" by blast
    define r where "r = s\<lparr>mx_slab := (mx_slab s)(mx_key s i := None)\<rparr>"
    define u where "u = (if x = Woken \<and> b then mx_wake_first k r else r)"
    have u: "mx_state u = mx_state s" "mx_pc u = mx_pc s" by (auto simp: u_def r_def)
    have run: "mx_exec i k s = mx_goto i (if dom (mx_slab u) = {} then MxRmClear b else MxRmUnlock b) u"
      using MxRmSlot x by (cases x) (simp_all add: mx_exec_def Let_def u_def r_def del: dom_eq_empty_conv)
    have "mx_waiters s" using quiet MxRmSlot x by (auto simp: dom_def)
    then show ?thesis using MxRmSlot run u
      by (intro mx_inv_bit_inside [OF own, where i = i and l = "if dom (mx_slab u) = {} then MxRmClear b else MxRmUnlock b"])
         (auto simp: mx_goto_def mx_waiters_def split: if_splits)
  next
    case (MxSetWaiters w)
    with assms(1) have "dom (mx_slab s) \<noteq> {}" unfolding mx_inv_bit_def by blast
    then show ?thesis using MxSetWaiters
      by (intro mx_inv_bit_inside [OF own, where i = i and l = "MxWaitUnlock w"]) (auto simp: mx_exec_def mx_goto_def mx_waiters_def)
  next
    case (MxRmClear b)
    with assms(1) have "dom (mx_slab s) = {}" unfolding mx_inv_bit_def by blast
    then show ?thesis using MxRmClear
      by (intro mx_inv_bit_inside [OF own, where i = i and l = "MxRmUnlock b"]) (auto simp: mx_exec_def mx_goto_def mx_waiters_def)
  next
    case (MxRm b)
    then show ?thesis by (intro keep [where l = "mx_pc (mx_exec i k s) i"]) (auto simp: mx_defs mx_waiters_def)
  next
    case (MxTry1 w)
    then show ?thesis by (intro keep [where l = "mx_pc (mx_exec i k s) i"]) (auto simp: mx_defs mx_waiters_def)
  next
    case (MxTry2 w)
    then show ?thesis by (intro keep [where l = "mx_pc (mx_exec i k s) i"]) (auto simp: mx_defs mx_waiters_def)
  next
    case (MxWaitLock w)
    then show ?thesis by (intro keep [where l = "mx_pc (mx_exec i k s) i"]) (auto simp: mx_defs mx_waiters_def)
  next
    case (MxWaitUnlock w)
    then show ?thesis by (intro keep [where l = "mx_pc (mx_exec i k s) i"]) (auto simp: mx_defs mx_waiters_def)
  next
    case (MxRmUnlock b)
    then show ?thesis by (intro keep [where l = "mx_pc (mx_exec i k s) i"]) (auto simp: mx_defs mx_waiters_def)
  next
    case MxTryLock
    then show ?thesis by (intro keep [where l = "mx_pc (mx_exec i k s) i"]) (auto simp: mx_defs mx_waiters_def)
  next
    case MxUnlock
    then show ?thesis by (intro keep [where l = "mx_pc (mx_exec i k s) i"]) (auto simp: mx_defs mx_waiters_def)
  next
    case MxWakeLock
    then show ?thesis by (intro keep [where l = "mx_pc (mx_exec i k s) i"]) (auto simp: mx_defs mx_waiters_def)
  next
    case MxWake
    then show ?thesis by (intro keep [where l = MxWakeUnlock]) (auto simp: mx_exec_def mx_goto_def mx_waiters_def)
  next
    case MxWakeUnlock
    then show ?thesis by (intro keep [where l = "mx_pc (mx_exec i k s) i"]) (auto simp: mx_defs mx_waiters_def)
  qed (use assms(1) in \<open>simp_all add: mx_exec_def\<close>)
qed

lemma mx_inv_bit_new: "mx_inv_bit mx_new"
  by (auto simp: mx_inv_bit_def mx_new_def mx_waiters_def)

lemma mx_inv_bit_step:
  "mx_step s t \<Longrightarrow> mx_inv_bit s \<Longrightarrow> mx_inv_lock s \<Longrightarrow> mx_inv_slab s \<Longrightarrow> mx_inv_bit t"
proof (induction rule: mx_step.induct)
  case (mx_locks s i)
  show ?case by (rule mx_inv_bit_keep [of s _ i MxFuture]) (use mx_locks in \<open>auto simp: mx_goto_def mx_waiters_def\<close>)
next
  case (mx_try_locks s i)
  show ?case by (rule mx_inv_bit_keep [of s _ i MxTryLock]) (use mx_try_locks in \<open>auto simp: mx_goto_def mx_waiters_def\<close>)
next
  case (mx_polls s i w)
  show ?case by (rule mx_inv_bit_keep [of s _ i "MxTry1 w"]) (use mx_polls in \<open>auto simp: mx_begin_poll_def mx_goto_def mx_waiters_def\<close>)
next
  case (mx_drops s i)
  show ?case by (rule mx_inv_bit_keep [of s _ i "MxRm True"]) (use mx_drops in \<open>auto simp: mx_goto_def mx_waiters_def\<close>)
next
  case (mx_unlocks s i)
  show ?case by (rule mx_inv_bit_keep [of s _ i MxUnlock]) (use mx_unlocks in \<open>auto simp: mx_goto_def mx_waiters_def\<close>)
next
  case (mx_runs i k s)
  then show ?case by (simp add: mx_inv_bit_exec)
qed

section \<open>What a slot says about its agent\<close>

fun mx_polling :: "mx_pc \<Rightarrow> waker option" where
  "mx_polling (MxTry1 w) = Some w"
| "mx_polling (MxWaitLock w) = Some w"
| "mx_polling (MxRegister w) = Some w"
| "mx_polling (MxSetWaiters w) = Some w"
| "mx_polling (MxWaitUnlock w) = Some w"
| "mx_polling (MxTry2 w) = Some w"
| "mx_polling _ = None"

text \<open>Positions at which the slot belongs to the last \<open>poll\<close>.\<close>

fun mx_registered :: "mx_pc \<Rightarrow> bool" where
  "mx_registered MxFuture = True"
| "mx_registered (MxSetWaiters w) = True"
| "mx_registered (MxWaitUnlock w) = True"
| "mx_registered (MxTry2 w) = True"
| "mx_registered _ = False"

definition mx_slot_ok :: "nat \<Rightarrow> mx \<Rightarrow> bool" where
  "mx_slot_ok i s \<longleftrightarrow>
     (mx_registered (mx_pc s i) \<and> mx_key s i \<noteq> WAIT_KEY_NONE \<longrightarrow>
        (\<forall>w. mx_slab s (mx_key s i) = Some (Waiting w) \<longrightarrow> mx_wait s i = Some w)
        \<and> (mx_slab s (mx_key s i) = Some Woken \<longrightarrow> mx_woke s i))"

definition mx_inv_wait :: "mx \<Rightarrow> bool" where
  "mx_inv_wait s \<longleftrightarrow> (\<forall>i. mx_slot_ok i s \<and> (\<forall>w. mx_polling (mx_pc s i) = Some w \<longrightarrow> mx_wait s i = Some w))"

lemma mx_registered_slotted: "mx_registered l \<Longrightarrow> mx_slotted l"
  by (cases l) auto

lemma mx_wake_first_slab:
  "mx_slab (mx_wake_first k s) x = (if x = k \<and> mx_slab s k \<noteq> None then Some Woken else mx_slab s x)"
  by (auto simp: mx_wake_first_def mx_wakes_def waiter_wake_def split: option.splits)

lemma mx_wake_first_woke:
  "mx_woke (mx_wake_first k s) j \<longleftrightarrow> mx_woke s j \<or> (\<exists>w. mx_slab s k = Some (Waiting w) \<and> mx_wait s j = Some w)"
  by (auto simp: mx_wake_first_def mx_wakes_def waiter_wake_def split: option.splits Waiter.splits)

text \<open>A step of agent \<open>i\<close>: what it may do to the slots of the others.\<close>

lemma mx_inv_wait_frame:
  assumes "mx_inv_wait s"
    and "\<And>j. j \<noteq> i \<Longrightarrow> mx_pc s' j = mx_pc s j \<and> mx_key s' j = mx_key s j \<and> mx_wait s' j = mx_wait s j \<and> (mx_woke s j \<longrightarrow> mx_woke s' j)"
    and "\<And>j. j \<noteq> i \<Longrightarrow> mx_registered (mx_pc s j) \<Longrightarrow> mx_key s j \<noteq> WAIT_KEY_NONE \<Longrightarrow>
           mx_slab s' (mx_key s j) = mx_slab s (mx_key s j)
           \<or> mx_slab s' (mx_key s j) = Some Woken \<and> (\<forall>w. mx_slab s (mx_key s j) = Some (Waiting w) \<and> mx_wait s j = Some w \<longrightarrow> mx_woke s' j)
             \<and> mx_slab s (mx_key s j) \<noteq> None"
    and "mx_slot_ok i s'" and "\<And>w. mx_polling (mx_pc s' i) = Some w \<Longrightarrow> mx_wait s' i = Some w"
  shows "mx_inv_wait s'"
  unfolding mx_inv_wait_def
proof (intro allI conjI impI)
  fix j w
  show "mx_polling (mx_pc s' j) = Some w \<Longrightarrow> mx_wait s' j = Some w"
    using assms(1,2,5) unfolding mx_inv_wait_def by (cases "j = i") auto
next
  fix j
  show "mx_slot_ok j s'"
  proof (cases "j = i")
    case False
    note same = assms(2) [OF False]
    have ok: "mx_slot_ok j s" using assms(1) by (simp add: mx_inv_wait_def)
    show ?thesis unfolding mx_slot_ok_def
    proof (intro impI)
      assume "mx_registered (mx_pc s' j) \<and> mx_key s' j \<noteq> WAIT_KEY_NONE"
      then have reg: "mx_registered (mx_pc s j)" "mx_key s j \<noteq> WAIT_KEY_NONE" using same by simp_all
      show "(\<forall>w. mx_slab s' (mx_key s' j) = Some (Waiting w) \<longrightarrow> mx_wait s' j = Some w) \<and>
          (mx_slab s' (mx_key s' j) = Some Woken \<longrightarrow> mx_woke s' j)"
        using assms(3) [OF False reg] ok reg same unfolding mx_slot_ok_def
        by (cases "mx_slab s (mx_key s j)"; cases "the (mx_slab s (mx_key s j))") auto
    qed
  qed (use assms(4) in simp)
qed

lemma mx_inv_waitD:
  assumes "mx_inv_wait s"
  shows "mx_slot_ok i s" and "mx_polling (mx_pc s i) = Some w \<Longrightarrow> mx_wait s i = Some w"
  using assms by (simp_all add: mx_inv_wait_def)

text \<open>A step that leaves the slab alone.\<close>

lemma mx_inv_wait_keep:
  assumes "mx_inv_wait s" and "mx_slab s' = mx_slab s" and "mx_key s' = mx_key s" and "mx_wait s' = mx_wait s"
    and "mx_woke s' = mx_woke s" and "mx_pc s' = (mx_pc s)(i := l)"
    and "mx_registered l \<Longrightarrow> mx_registered (mx_pc s i) \<or> mx_key s i = WAIT_KEY_NONE"
    and "\<And>w. mx_polling l = Some w \<Longrightarrow> mx_polling (mx_pc s i) = Some w"
  shows "mx_inv_wait s'"
  by (rule mx_inv_wait_frame [OF assms(1), of i])
     (use assms(2-8) mx_inv_waitD [OF assms(1), of i] in \<open>auto simp: mx_slot_ok_def\<close>)

lemma mx_inv_wait_exec:
  assumes "mx_inv_wait s" and "mx_inv_slab s" and "mx_choice i k s"
  shows "mx_inv_wait (mx_exec i k s)"
proof -
  note D = mx_inv_slabD [OF assms(2)] and W = mx_inv_waitD [OF assms(1), of i] and keep = mx_inv_wait_keep [OF assms(1), where i = i]
  have other: "mx_key s j \<noteq> mx_key s i" if "j \<noteq> i" "mx_registered (mx_pc s j)" "mx_slotted (mx_pc s i)" "mx_key s j \<noteq> WAIT_KEY_NONE" for j
    using D(5) [of j i] that mx_registered_slotted by metis
  show ?thesis
  proof (cases "mx_pc s i")
    case (MxRegister w)
    have wait: "mx_wait s i = Some w" using W(2) MxRegister by simp
    show ?thesis
    proof (cases "mx_key s i = WAIT_KEY_NONE")
      case True
      define l where "l = (if card (dom ((mx_slab s)(k := Some (Waiting w)))) = 1 then MxSetWaiters w else MxWaitUnlock w)"
      have l: "mx_polling l = Some w" by (simp add: l_def)
      have run: "mx_exec i k s = mx_goto i l (s\<lparr>mx_key := (mx_key s)(i := k), mx_slab := (mx_slab s)(k := Some (Waiting w))\<rparr>)"
        using MxRegister True by (simp add: mx_exec_def Let_def l_def)
      have "mx_slab s k = None" using assms(3) MxRegister True by (simp add: mx_choice_def)
      then have "mx_key s j \<noteq> k" if "mx_registered (mx_pc s j)" "mx_key s j \<noteq> WAIT_KEY_NONE" for j
        using D(4) [of j] that mx_registered_slotted by fastforce
      then show ?thesis unfolding run
        by (intro mx_inv_wait_frame [OF assms(1), of i]) (use wait l in \<open>auto simp: mx_goto_def mx_slot_ok_def\<close>)
    next
      case False
      with mx_no_crash(1) [OF assms(2) MxRegister] obtain x where x: "mx_slab s (mx_key s i) = Some x" by blast
      have reg: "waiter_register w x = Waiting w" by (auto simp: waiter_register_def split: Waiter.splits)
      show ?thesis
        by (rule mx_inv_wait_frame [OF assms(1), of i])
           (use MxRegister False x reg wait other in \<open>auto simp: mx_exec_def mx_goto_def mx_slot_ok_def\<close>)
    qed
  next
    case (MxRmSlot b)
    from mx_no_crash(2) [OF assms(2) MxRmSlot] obtain x where x: "mx_slab s (mx_key s i) = Some x" by blast
    define r where "r = s\<lparr>mx_slab := (mx_slab s)(mx_key s i := None)\<rparr>"
    define u where "u = (if x = Woken \<and> b then mx_wake_first k r else r)"
    have run: "mx_exec i k s = mx_goto i (if dom (mx_slab u) = {} then MxRmClear b else MxRmUnlock b) u"
      using MxRmSlot x by (cases x) (simp_all add: mx_exec_def Let_def u_def r_def del: dom_eq_empty_conv)
    have same: "mx_pc u = mx_pc s" "mx_key u = mx_key s" "mx_wait u = mx_wait s" by (simp_all add: u_def r_def)
    have woke: "mx_woke s j \<longrightarrow> mx_woke u j" for j by (simp add: u_def r_def mx_wake_first_woke)
    have slab: "mx_slab u y = mx_slab s y
        \<or> mx_slab u y = Some Woken \<and> mx_slab s y \<noteq> None \<and> (\<forall>j w. mx_slab s y = Some (Waiting w) \<and> mx_wait s j = Some w \<longrightarrow> mx_woke u j)"
      if "y \<noteq> mx_key s i" for y
      using that by (auto simp: u_def r_def mx_wake_first_slab mx_wake_first_woke)
    show ?thesis unfolding run
      by (rule mx_inv_wait_frame [OF assms(1), of i])
         (use MxRmSlot same woke slab other in \<open>auto simp: mx_goto_def mx_slot_ok_def split: if_splits\<close>)
  next
    case MxWake
    have own: "mx_key s i = WAIT_KEY_NONE" using D(2) [of i] MxWake by simp
    show ?thesis
      by (rule mx_inv_wait_frame [OF assms(1), of i])
         (use MxWake own in \<open>auto simp: mx_exec_def mx_goto_def mx_slot_ok_def mx_wake_first_slab mx_wake_first_woke\<close>)
  next
    case (MxRm b)
    show ?thesis
      by (rule mx_inv_wait_frame [OF assms(1), of i]) (use MxRm in \<open>auto simp: mx_defs mx_slot_ok_def split: if_splits\<close>)
  next
    case (MxRmUnlock b)
    show ?thesis
      by (rule mx_inv_wait_frame [OF assms(1), of i]) (use MxRmUnlock in \<open>auto simp: mx_defs mx_slot_ok_def split: if_splits\<close>)
  next
    case (MxTry1 w)
    then show ?thesis by (intro keep [where l = "mx_pc (mx_exec i k s) i"]) (auto simp: mx_defs split: if_splits)
  next
    case (MxTry2 w)
    then show ?thesis by (intro keep [where l = "mx_pc (mx_exec i k s) i"]) (auto simp: mx_defs split: if_splits)
  next
    case (MxWaitLock w)
    then show ?thesis by (intro keep [where l = "mx_pc (mx_exec i k s) i"]) (auto simp: mx_defs split: if_splits)
  next
    case (MxWaitUnlock w)
    then show ?thesis by (intro keep [where l = "mx_pc (mx_exec i k s) i"]) (auto simp: mx_defs split: if_splits)
  next
    case (MxSetWaiters w)
    then show ?thesis by (intro keep [where l = "mx_pc (mx_exec i k s) i"]) (auto simp: mx_defs split: if_splits)
  next
    case (MxRmClear b)
    then show ?thesis by (intro keep [where l = "mx_pc (mx_exec i k s) i"]) (auto simp: mx_defs split: if_splits)
  next
    case MxTryLock
    then show ?thesis by (intro keep [where l = "mx_pc (mx_exec i k s) i"]) (auto simp: mx_defs split: if_splits)
  next
    case MxUnlock
    then show ?thesis by (intro keep [where l = "mx_pc (mx_exec i k s) i"]) (auto simp: mx_defs split: if_splits)
  next
    case MxWakeLock
    then show ?thesis by (intro keep [where l = "mx_pc (mx_exec i k s) i"]) (auto simp: mx_defs split: if_splits)
  next
    case MxWakeUnlock
    then show ?thesis by (intro keep [where l = "mx_pc (mx_exec i k s) i"]) (auto simp: mx_defs split: if_splits)
  qed (use assms(1) in \<open>simp_all add: mx_exec_def\<close>)
qed

lemma mx_inv_wait_new: "mx_inv_wait mx_new"
  by (auto simp: mx_inv_wait_def mx_new_def mx_slot_ok_def)

lemma mx_inv_wait_step: "mx_step s t \<Longrightarrow> mx_inv_wait s \<Longrightarrow> mx_inv_slab s \<Longrightarrow> mx_inv_wait t"
proof (induction rule: mx_step.induct)
  case (mx_locks s i)
  show ?case
    by (rule mx_inv_wait_keep [of s _ i MxFuture]) (use mx_locks mx_inv_slabD(2) [of s i] in \<open>auto simp: mx_goto_def\<close>)
next
  case (mx_try_locks s i)
  show ?case by (rule mx_inv_wait_keep [of s _ i MxTryLock]) (use mx_try_locks in \<open>auto simp: mx_goto_def\<close>)
next
  case (mx_polls s i w)
  show ?case
    by (rule mx_inv_wait_frame [of s i]) (use mx_polls in \<open>auto simp: mx_begin_poll_def mx_goto_def mx_slot_ok_def\<close>)
next
  case (mx_drops s i)
  show ?case by (rule mx_inv_wait_keep [of s _ i "MxRm True"]) (use mx_drops in \<open>auto simp: mx_goto_def\<close>)
next
  case (mx_unlocks s i)
  show ?case by (rule mx_inv_wait_keep [of s _ i MxUnlock]) (use mx_unlocks in \<open>auto simp: mx_goto_def\<close>)
next
  case (mx_runs i k s)
  then show ?case by (simp add: mx_inv_wait_exec)
qed

section \<open>The wake-up is passed on\<close>

text \<open>An agent that is about to try the lock again, or to wake a waiter.\<close>

fun mx_coming :: "mx_pc \<Rightarrow> bool" where
  "mx_coming (MxRegister w) = True"
| "mx_coming (MxSetWaiters w) = True"
| "mx_coming (MxWaitUnlock w) = True"
| "mx_coming (MxTry2 w) = True"
| "mx_coming MxWakeLock = True"
| "mx_coming MxWake = True"
| "mx_coming _ = False"

definition mx_inv_live :: "mx \<Rightarrow> bool" where
  "mx_inv_live s \<longleftrightarrow>
     mx_locked s \<or> dom (mx_slab s) = {} \<or> (\<exists>k. mx_slab s k = Some Woken) \<or> (\<exists>i. mx_coming (mx_pc s i))"

lemma mx_inv_live_keep:
  assumes "mx_inv_live s" and "mx_slab s' = mx_slab s" and "mx_locked s \<Longrightarrow> mx_locked s'"
    and "mx_pc s' = (mx_pc s)(i := l)" and "mx_coming (mx_pc s i) \<Longrightarrow> mx_coming l"
  shows "mx_inv_live s'"
proof -
  have "\<exists>j. mx_coming (mx_pc s' j)" if "mx_coming (mx_pc s j)" for j
    using that assms(4,5) by (cases "j = i") (auto intro: exI [of _ i] exI [of _ j])
  then show ?thesis using assms(1-3) unfolding mx_inv_live_def by auto
qed

lemma mx_inv_live_exec:
  assumes "mx_inv_live s" and "mx_inv_bit s" and "mx_inv_lock s" and "mx_inv_slab s" and "mx_choice i k s"
  shows "mx_inv_live (mx_exec i k s)"
proof -
  note keep = mx_inv_live_keep [OF assms(1), where i = i]
  have coming: "mx_inv_live t" if "mx_coming (mx_pc t i)" for t using that by (auto simp: mx_inv_live_def)
  have hold: "owned mx_holder (mx_pc s) (mx_locked s)" using assms(3) by (simp add: mx_inv_lock_def)
  show ?thesis
  proof (cases "mx_pc s i")
    case (MxRegister w)
    show ?thesis
    proof (cases "mx_key s i = WAIT_KEY_NONE")
      case True
      with MxRegister show ?thesis by (intro coming) (simp add: mx_exec_def mx_goto_def Let_def)
    next
      case False
      with mx_no_crash(1) [OF assms(4) MxRegister] MxRegister show ?thesis
        by (intro coming) (auto simp: mx_exec_def mx_goto_def)
    qed
  next
    case (MxRmSlot b)
    from mx_no_crash(2) [OF assms(4) MxRmSlot] obtain x where x: "mx_slab s (mx_key s i) = Some x" by blast
    define r where "r = s\<lparr>mx_slab := (mx_slab s)(mx_key s i := None)\<rparr>"
    define u where "u = (if x = Woken \<and> b then mx_wake_first k r else r)"
    define l where "l = (if dom (mx_slab u) = {} then MxRmClear b else MxRmUnlock b)"
    have run: "mx_exec i k s = mx_goto i l u"
      using MxRmSlot x unfolding l_def
      by (cases x) (simp_all add: mx_exec_def Let_def u_def r_def del: dom_eq_empty_conv)
    have lock: "mx_locked u = mx_locked s" by (simp add: mx_locked_def u_def r_def)
    show ?thesis
    proof (cases b)
      case False
      with owned_flag [OF hold, of i] MxRmSlot have "mx_locked s" by simp
      then show ?thesis using lock unfolding run by (simp add: mx_inv_live_def mx_goto_def mx_locked_def)
    next
      case True
      have "mx_locked u \<or> dom (mx_slab u) = {} \<or> (\<exists>y. mx_slab u y = Some Woken) \<or> (\<exists>j. j \<noteq> i \<and> mx_coming (mx_pc s j))"
      proof (cases "x = Woken")
        case True
        then have u: "u = mx_wake_first k r" using \<open>b\<close> by (simp add: u_def)
        show ?thesis
        proof (cases "\<exists>k'. k' \<noteq> mx_key s i \<and> mx_slab s k' \<noteq> None")
          case True
          then have "mx_slab r k \<noteq> None" using assms(5) MxRmSlot by (simp add: mx_choice_def r_def)
          then have "mx_slab u k = Some Woken" using u by (simp add: mx_wake_first_slab)
          then show ?thesis by blast
        next
          case False
          then have "dom (mx_slab u) = {}" unfolding u by (auto simp: r_def mx_wake_first_slab)
          then show ?thesis by blast
        qed
      next
        case False
        then have u: "u = r" by (simp add: u_def)
        have "mx_slab r y = mx_slab s y" if "mx_slab s y = Some Woken" for y using that x False by (auto simp: r_def)
        moreover have "dom (mx_slab r) \<subseteq> dom (mx_slab s)" by (auto simp: r_def)
        moreover have "j \<noteq> i" if "mx_coming (mx_pc s j)" for j using that MxRmSlot by auto
        ultimately show ?thesis using assms(1) lock unfolding mx_inv_live_def u by (metis subset_empty)
      qed
      moreover have "mx_pc u = mx_pc s" by (simp add: u_def r_def)
      ultimately show ?thesis unfolding run by (auto simp: mx_inv_live_def mx_goto_def mx_locked_def)
    qed
  next
    case MxWake
    show ?thesis
    proof (cases "\<exists>k'. mx_slab s k' \<noteq> None")
      case True
      then have "mx_slab s k \<noteq> None" using assms(5) MxWake by (simp add: mx_choice_def)
      then have "mx_slab (mx_exec i k s) k = Some Woken" using MxWake by (simp add: mx_exec_def mx_goto_def mx_wake_first_slab)
      then show ?thesis unfolding mx_inv_live_def by blast
    next
      case False
      then have "dom (mx_slab (mx_exec i k s)) = {}" using MxWake by (auto simp: mx_exec_def mx_goto_def mx_wake_first_slab)
      then show ?thesis unfolding mx_inv_live_def by blast
    qed
  next
    case MxUnlock
    show ?thesis
    proof (cases "mx_waiters s")
      case True
      then show ?thesis using MxUnlock by (intro coming) (simp add: mx_exec_def mx_goto_def mx_waiters_def)
    next
      case False
      have "dom (mx_slab s) = {} \<or> (\<exists>j. j \<noteq> i \<and> mx_coming (mx_pc s j))"
      proof (cases "\<forall>j. \<not> mx_fixing (mx_pc s j)")
        case True
        with False assms(2) show ?thesis unfolding mx_inv_bit_def by blast
      next
        case no: False
        then obtain j where "mx_fixing (mx_pc s j)" by blast
        then have "(\<exists>w. mx_pc s j = MxSetWaiters w) \<or> (\<exists>b. mx_pc s j = MxRmClear b)" by (simp add: mx_fixing_cases)
        then show ?thesis
        proof
          assume "\<exists>w. mx_pc s j = MxSetWaiters w"
          then have "mx_coming (mx_pc s j)" "j \<noteq> i" using MxUnlock by auto
          then show ?thesis by blast
        next
          assume "\<exists>b. mx_pc s j = MxRmClear b"
          with assms(2) show ?thesis unfolding mx_inv_bit_def by blast
        qed
      qed
      then show ?thesis using MxUnlock False
        by (auto simp: mx_inv_live_def mx_exec_def mx_goto_def mx_waiters_def)
    qed
  next
    case (MxTry2 w)
    then show ?thesis by (simp add: mx_inv_live_def mx_defs mx_locked_def)
  next
    case (MxTry1 w)
    then show ?thesis by (simp add: mx_inv_live_def mx_defs mx_locked_def)
  next
    case MxTryLock
    then show ?thesis by (simp add: mx_inv_live_def mx_defs mx_locked_def)
  next
    case (MxRm b)
    then show ?thesis by (intro keep [where l = "mx_pc (mx_exec i k s) i"]) (auto simp: mx_defs mx_locked_def)
  next
    case (MxRmUnlock b)
    then show ?thesis by (intro keep [where l = "mx_pc (mx_exec i k s) i"]) (auto simp: mx_defs mx_locked_def)
  next
    case (MxWaitLock w)
    then show ?thesis by (intro keep [where l = "mx_pc (mx_exec i k s) i"]) (auto simp: mx_defs mx_locked_def)
  next
    case (MxWaitUnlock w)
    then show ?thesis by (intro keep [where l = "mx_pc (mx_exec i k s) i"]) (auto simp: mx_defs mx_locked_def)
  next
    case (MxSetWaiters w)
    then show ?thesis by (intro keep [where l = "mx_pc (mx_exec i k s) i"]) (auto simp: mx_defs mx_locked_def)
  next
    case (MxRmClear b)
    then show ?thesis by (intro keep [where l = "mx_pc (mx_exec i k s) i"]) (auto simp: mx_defs mx_locked_def)
  next
    case MxWakeLock
    then show ?thesis by (intro keep [where l = "mx_pc (mx_exec i k s) i"]) (auto simp: mx_defs mx_locked_def)
  next
    case MxWakeUnlock
    then show ?thesis by (intro keep [where l = "mx_pc (mx_exec i k s) i"]) (auto simp: mx_defs mx_locked_def)
  qed (use assms(1) in \<open>simp_all add: mx_exec_def\<close>)
qed

lemma mx_inv_live_step:
  "mx_step s t \<Longrightarrow> mx_inv_live s \<Longrightarrow> mx_inv_bit s \<Longrightarrow> mx_inv_lock s \<Longrightarrow> mx_inv_slab s \<Longrightarrow> mx_inv_live t"
proof (induction rule: mx_step.induct)
  case (mx_locks s i)
  show ?case by (rule mx_inv_live_keep [of s _ i MxFuture]) (use mx_locks in \<open>auto simp: mx_goto_def mx_locked_def\<close>)
next
  case (mx_try_locks s i)
  show ?case by (rule mx_inv_live_keep [of s _ i MxTryLock]) (use mx_try_locks in \<open>auto simp: mx_goto_def mx_locked_def\<close>)
next
  case (mx_polls s i w)
  show ?case by (rule mx_inv_live_keep [of s _ i "MxTry1 w"]) (use mx_polls in \<open>auto simp: mx_begin_poll_def mx_goto_def mx_locked_def\<close>)
next
  case (mx_drops s i)
  show ?case by (rule mx_inv_live_keep [of s _ i "MxRm True"]) (use mx_drops in \<open>auto simp: mx_goto_def mx_locked_def\<close>)
next
  case (mx_unlocks s i)
  show ?case by (rule mx_inv_live_keep [of s _ i MxUnlock]) (use mx_unlocks in \<open>auto simp: mx_goto_def mx_locked_def\<close>)
next
  case (mx_runs i k s)
  then show ?case by (simp add: mx_inv_live_exec)
qed

lemma mx_inv_live_new: "mx_inv_live mx_new"
  by (simp add: mx_inv_live_def mx_new_def)

definition mx_inv :: "mx \<Rightarrow> bool" where
  "mx_inv s \<longleftrightarrow> mx_inv_lock s \<and> mx_inv_slab s \<and> mx_inv_bit s \<and> mx_inv_wait s \<and> mx_inv_live s"

lemma mx_inv_reach: "mx_reach s \<Longrightarrow> mx_inv s"
proof (erule reach_invariant)
  show "mx_inv s" if "s = mx_new" for s
    using that by (simp add: mx_inv_def mx_inv_lock_new mx_inv_slab_new mx_inv_bit_new mx_inv_wait_new mx_inv_live_new)
  show "mx_inv t" if "mx_inv s" "mx_step s t" for s t
    using that mx_inv_lock_step mx_inv_slab_step mx_inv_bit_step mx_inv_wait_step mx_inv_live_step
    by (simp add: mx_inv_def)
qed

section \<open>Schedules\<close>

text \<open>Runs of the system that can be evaluated: calls, and steps of an agent with the slab's choice.\<close>

datatype mx_ev = EvLock nat | EvTryLock nat | EvPoll nat waker | EvDrop nat | EvUnlock nat | EvRun nat usize

fun mx_event :: "mx_ev \<Rightarrow> mx \<Rightarrow> mx option" where
  "mx_event (EvLock i) s = (if mx_pc s i = MxNone then Some (mx_goto i MxFuture s) else None)"
| "mx_event (EvTryLock i) s = (if mx_pc s i = MxNone then Some (mx_goto i MxTryLock s) else None)"
| "mx_event (EvPoll i w) s = (if mx_pc s i = MxFuture then Some (mx_begin_poll i w s) else None)"
| "mx_event (EvDrop i) s = (if mx_pc s i = MxFuture then Some (mx_goto i (MxRm True) s) else None)"
| "mx_event (EvUnlock i) s = (if mx_pc s i = MxGuard then Some (mx_goto i MxUnlock s) else None)"
| "mx_event (EvRun i k) s = (if mx_choice i k s then Some (mx_exec i k s) else None)"

fun mx_play :: "mx_ev list \<Rightarrow> mx \<Rightarrow> mx option" where
  "mx_play [] s = Some s"
| "mx_play (e # es) s = (case mx_event e s of None \<Rightarrow> None | Some t \<Rightarrow> mx_play es t)"

lemma mx_event_step: "mx_event e s = Some t \<Longrightarrow> mx_step s t"
  by (cases e) (auto split: if_splits intro: mx_step.intros)

lemma mx_play_reach: "mx_play es s = Some t \<Longrightarrow> mx_reach s \<Longrightarrow> mx_reach t"
  by (induction es arbitrary: s) (auto split: option.splits intro: reach_step dest: mx_event_step)

lemma mx_play_new: "mx_play es mx_new = Some t \<Longrightarrow> mx_reach t"
  by (erule mx_play_reach) (simp add: reach_init)

lemmas mx_eval = mx_new_def mx_defs mx_choice_def mx_wake_first_def mx_wakes_def waiter_wake_def WAIT_KEY_NONE_def USIZE_MAX_def
  IS_LOCKED_def HAS_WAITERS_def Let_def

text \<open>
  Agent 0 takes the lock, agent 1 polls with waker 7 and waits; agent 0 unlocks and wakes it. Agent 2 takes
  the lock meanwhile, with \<open>try_lock\<close>, and unlocks too.
\<close>

definition mx_demo :: "mx_ev list" where
  "mx_demo = [EvTryLock 0, EvRun 0 0, EvLock 1, EvPoll 1 7, EvRun 1 0, EvRun 1 0, EvRun 1 5, EvRun 1 0, EvRun 1 0, EvRun 1 0,
     EvUnlock 0, EvRun 0 0, EvRun 0 0, EvRun 0 5, EvRun 0 0, EvTryLock 2, EvRun 2 0]"

lemma mx_demo_runs: "\<exists>s. mx_play mx_demo mx_new = Some s \<and> mx_locked s \<and> mx_pc s 1 = MxFuture \<and> mx_pc s 2 = MxGuard"
  by (simp add: mx_demo_def mx_eval mx_locked_def)

section \<open>The properties\<close>

text \<open>
  C8. Mutual exclusion: in every reachable state at most one agent has the lock (holds the guard, or is on its
  way to it or giving it back), and one has it exactly when the \<open>IS_LOCKED\<close> bit is set; at most one agent is
  inside the lock of the waiters; every registered future has a slot of its own in the slab, so
  \<open>waiters.remove\<close> and the indexing never panic; and when nobody is about to change it \<open>HAS_WAITERS\<close> says
  whether there are waiters.
\<close>

theorem mx_mutual_exclusion:
  assumes "mx_reach s"
  shows "(\<forall>i j. mx_holder (mx_pc s i) \<and> mx_holder (mx_pc s j) \<longrightarrow> i = j)
    \<and> (mx_locked s \<longleftrightarrow> (\<exists>i. mx_holder (mx_pc s i)))
    \<and> (\<forall>i j. mx_inside (mx_pc s i) \<and> mx_inside (mx_pc s j) \<longrightarrow> i = j)
    \<and> (\<forall>i. mx_pc s i \<noteq> MxCrash)
    \<and> (\<forall>i j. i \<noteq> j \<and> mx_pc s i = MxFuture \<and> mx_pc s j = MxFuture \<and> mx_key s i \<noteq> WAIT_KEY_NONE \<longrightarrow> mx_key s i \<noteq> mx_key s j)
    \<and> ((\<forall>i. \<not> mx_fixing (mx_pc s i)) \<longrightarrow> (mx_waiters s \<longleftrightarrow> (\<exists>k. mx_slab s k \<noteq> None)))"
proof -
  have inv: "mx_inv_lock s" "mx_inv_slab s" "mx_inv_bit s" using mx_inv_reach [OF assms] by (simp_all add: mx_inv_def)
  have own: "owned mx_holder (mx_pc s) (mx_locked s)" "owned mx_inside (mx_pc s) (mx_held s)"
    using inv(1) by (simp_all add: mx_inv_lock_def)
  have "dom (mx_slab s) \<noteq> {} \<longleftrightarrow> (\<exists>k. mx_slab s k \<noteq> None)" by auto
  then have bit: "(\<forall>i. \<not> mx_fixing (mx_pc s i)) \<longrightarrow> (mx_waiters s \<longleftrightarrow> (\<exists>k. mx_slab s k \<noteq> None))"
    using inv(3) unfolding mx_inv_bit_def by blast
  have keys: "mx_key s i \<noteq> mx_key s j"
    if "i \<noteq> j" "mx_pc s i = MxFuture" "mx_pc s j = MxFuture" "mx_key s i \<noteq> WAIT_KEY_NONE" for i j
    using mx_inv_slabD(5) [OF inv(2), of i j] that by auto
  show ?thesis
    using owned_unique [OF own(1)] owned_unique [OF own(2)] owned_flag [OF own(1)] owned_ex [OF own(1)]
      mx_inv_slabD(1) [OF inv(2)] bit keys by blast
qed

theorem mx_mutual_exclusion_witness:
  "\<exists>s. mx_play mx_demo mx_new = Some s \<and> mx_locked s \<and> \<not> mx_holder (mx_pc s 1)"
proof -
  obtain s where s: "mx_play mx_demo mx_new = Some s" "mx_locked s" "mx_pc s 1 = MxFuture" "mx_pc s 2 = MxGuard"
    using mx_demo_runs by blast
  from mx_mutual_exclusion [OF mx_play_new [OF s(1)]] have "\<not> mx_holder (mx_pc s 1)"
    using s(4) by (metis mx_holder.simps(1) one_eq_numeral_iff semiring_norm(85))
  with s show ?thesis by blast
qed

text \<open>
  C7. No lost wake-up: if the lock is free and a future that returned \<open>Pending\<close> waits for it, then some waiting
  future has been woken since its last \<open>poll\<close> began, or an agent is in the middle of a \<open>poll\<close> (and will try the
  lock), of an \<open>unlock\<close> that will wake a waiter, or of the drop of a future (which hands its wake-up
  on). So the waiters are not all asleep while the lock is free, whatever the interleaving.
\<close>

theorem mx_no_lost_wake:
  assumes "mx_reach s" and "\<not> mx_locked s" and "mx_pc s i = MxFuture" and "mx_key s i \<noteq> WAIT_KEY_NONE"
  shows "(\<exists>j. mx_pc s j = MxFuture \<and> mx_key s j \<noteq> WAIT_KEY_NONE \<and> mx_woke s j)
    \<or> (\<exists>j. mx_polling (mx_pc s j) \<noteq> None \<or> mx_pc s j \<in> {MxWakeLock, MxWake, MxRm True, MxRmSlot True})"
proof -
  have inv: "mx_inv_lock s" "mx_inv_slab s" "mx_inv_wait s" "mx_inv_live s"
    using mx_inv_reach [OF assms(1)] by (simp_all add: mx_inv_def)
  have "dom (mx_slab s) \<noteq> {}" using mx_inv_slabD(4) [OF inv(2), of i] assms(3,4) by auto
  then consider k where "mx_slab s k = Some Woken" | j where "mx_coming (mx_pc s j)"
    using inv(4) assms(2) unfolding mx_inv_live_def by blast
  then show ?thesis
  proof cases
    case 1
    with mx_inv_slabD(6) [OF inv(2), of k] obtain j where
      j: "mx_slotted (mx_pc s j)" "mx_key s j \<noteq> WAIT_KEY_NONE" "mx_slab s (mx_key s j) = Some Woken" by auto
    have "\<not> mx_holder (mx_pc s j)" using inv(1) assms(2) owned_flag by (auto simp: mx_inv_lock_def)
    moreover have "mx_pc s j = MxFuture \<Longrightarrow> mx_woke s j"
      using mx_inv_waitD(1) [OF inv(3), of j] j by (simp add: mx_slot_ok_def)
    ultimately have "mx_pc s j = MxFuture \<and> mx_key s j \<noteq> WAIT_KEY_NONE \<and> mx_woke s j
        \<or> mx_polling (mx_pc s j) \<noteq> None \<or> mx_pc s j \<in> {MxWakeLock, MxWake, MxRm True, MxRmSlot True}"
      using j by (cases "mx_pc s j") auto
    then show ?thesis by blast
  next
    case 2
    then have "mx_polling (mx_pc s j) \<noteq> None \<or> mx_pc s j \<in> {MxWakeLock, MxWake}" by (cases "mx_pc s j") auto
    then show ?thesis by blast
  qed
qed

theorem mx_no_lost_wake_witness:
  "\<exists>s. mx_play (mx_demo @ [EvUnlock 2, EvRun 2 0, EvRun 2 0, EvRun 2 5, EvRun 2 0]) mx_new = Some s \<and>
     ((\<exists>j. mx_pc s j = MxFuture \<and> mx_key s j \<noteq> WAIT_KEY_NONE \<and> mx_woke s j)
      \<or> (\<exists>j. mx_polling (mx_pc s j) \<noteq> None \<or> mx_pc s j \<in> {MxWakeLock, MxWake, MxRm True, MxRmSlot True}))"
proof -
  obtain s where s: "mx_play (mx_demo @ [EvUnlock 2, EvRun 2 0, EvRun 2 0, EvRun 2 5, EvRun 2 0]) mx_new = Some s"
    and state: "\<not> mx_locked s" "mx_pc s 1 = MxFuture" "mx_key s 1 \<noteq> WAIT_KEY_NONE"
    by (simp add: mx_demo_def mx_eval mx_locked_def)
  from mx_no_lost_wake [OF mx_play_new [OF s] state] s show ?thesis by blast
qed

fun mx_rank :: "mx_pc \<Rightarrow> nat" where
  "mx_rank (MxTry1 w) = 10"
| "mx_rank (MxWaitLock w) = 9"
| "mx_rank (MxRegister w) = 8"
| "mx_rank (MxSetWaiters w) = 7"
| "mx_rank (MxWaitUnlock w) = 6"
| "mx_rank (MxTry2 w) = 5"
| "mx_rank (MxRm b) = 4"
| "mx_rank (MxRmSlot b) = 3"
| "mx_rank (MxRmClear b) = 2"
| "mx_rank (MxRmUnlock b) = 1"
| "mx_rank MxUnlock = 4"
| "mx_rank MxWakeLock = 3"
| "mx_rank MxWake = 2"
| "mx_rank MxWakeUnlock = 1"
| "mx_rank MxTryLock = 1"
| "mx_rank _ = 0"

text \<open>
  Progress: a step of an agent brings its call closer to the return, but for an agent that waits for the lock of
  the waiters while another one is inside; and that one never waits.
\<close>

lemma mx_progress:
  assumes "mx_reach s" and "0 < mx_rank (mx_pc s i)"
  shows "mx_rank (mx_pc (mx_exec i k s) i) < mx_rank (mx_pc s i)
    \<or> (\<exists>j. mx_inside (mx_pc s j) \<and> mx_rank (mx_pc (mx_exec j k' s) j) < mx_rank (mx_pc s j))"
proof -
  have inv: "mx_inv_lock s" "mx_inv_slab s" using mx_inv_reach [OF assms(1)] by (simp_all add: mx_inv_def)
  have inside: "mx_rank (mx_pc (mx_exec j c s) j) < mx_rank (mx_pc s j)" if "mx_inside (mx_pc s j)" for j c
  proof (cases "mx_pc s j")
    case (MxRegister w)
    with mx_no_crash(1) [OF inv(2) MxRegister] show ?thesis by (auto simp: mx_exec_def mx_goto_def Let_def)
  next
    case (MxRmSlot b)
    from mx_no_crash(2) [OF inv(2) MxRmSlot] obtain x where "mx_slab s (mx_key s j) = Some x" by blast
    with MxRmSlot show ?thesis by (cases x) (auto simp: mx_exec_def mx_goto_def Let_def)
  qed (use that in \<open>auto simp: mx_defs\<close>)
  show ?thesis
  proof (cases "mx_held s")
    case True
    then obtain j where "mx_inside (mx_pc s j)" using inv(1) owned_ex unfolding mx_inv_lock_def by blast
    then show ?thesis using inside by blast
  next
    case False
    have "mx_rank (mx_pc (mx_exec i k s) i) < mx_rank (mx_pc s i)"
    proof (cases "mx_inside (mx_pc s i)")
      case True
      then show ?thesis by (rule inside)
    next
      case no: False
      show ?thesis using assms(2) no False by (cases "mx_pc s i") (auto simp: mx_defs)
    qed
    then show ?thesis by blast
  qed
qed

end
