(* ===== verification/Io_Source.thy ===== *)
theory Io_Source
  imports Poll_Core
begin

text \<open>
  The asynchronous readers of \<open>futures-util/src/io\<close>: \<open>Cursor\<close>, \<open>Empty\<close>, \<open>Repeat\<close>, \<open>Take\<close>, \<open>Chain\<close> and
  \<open>BufReader\<close>, over the \<open>AsyncRead\<close> and \<open>AsyncBufRead\<close> of whatever reader is inside.

  The buffer that \<open>poll_read\<close> fills is an out parameter: the model has its length as the argument and the
  bytes written to its beginning as the result, so the count the code returns is the length of the result.
  Lengths of slices are natural numbers, the limits and positions that the code keeps in integers are words.

  The locales \<open>byte_reader\<close> and \<open>byte_buf_reader\<close> state what the two traits promise: which bytes come out, in
  terms of the content still to come. Each reader of the library that is given one is one again (the \<open>_reader\<close>
  lemmas), and \<open>Cursor\<close> is one by itself.
\<close>

section \<open>The traits\<close>

type_synonym byte = "8 word"

text \<open>The kinds of \<open>io::Error\<close> that the library makes, and any other of a reader or writer inside.\<close>

datatype io_error = UnexpectedEof | WriteZero | InvalidData | InvalidInput | OtherError nat

type_synonym 'a io = "io_error + 'a"

type_synonym 'r read_fn = "'r \<Rightarrow> nat \<Rightarrow> (byte list io poll \<times> 'r) comp"
type_synonym 'r fill_fn = "'r \<Rightarrow> (byte list io poll \<times> 'r) comp"
type_synonym 'r consume_fn = "nat \<Rightarrow> 'r \<Rightarrow> 'r comp"

text \<open>
  The contract of \<open>AsyncRead\<close>, of one poll that left the reader \<open>r\<close> as \<open>r'\<close>: what it delivered is the beginning
  of the content and fits the buffer, and is nothing only for an empty buffer or at the end; \<open>Pending\<close> and
  an error lose nothing. \<open>lag\<close> bounds the number of \<open>Pending\<close>s to come. The contract of \<open>poll_fill_buf\<close>: what it
  shows is a beginning of the content, and stays there.
\<close>

definition read_step ::
  "('r \<Rightarrow> byte list) \<Rightarrow> ('r \<Rightarrow> nat) \<Rightarrow> 'r \<Rightarrow> nat \<Rightarrow> byte list io poll \<Rightarrow> 'r \<Rightarrow> bool" where
  "read_step content lag r n p r' \<longleftrightarrow>
     (case p of
        Ready (Inr bs) \<Rightarrow> length bs \<le> n \<and> content r = bs @ content r' \<and> (bs = [] \<longrightarrow> n = 0 \<or> content r = []) \<and> lag r' \<le> lag r
      | Ready (Inl e) \<Rightarrow> content r' = content r \<and> lag r' \<le> lag r
      | Pending \<Rightarrow> content r' = content r \<and> lag r' < lag r)"

definition fill_step ::
  "('r \<Rightarrow> byte list) \<Rightarrow> ('r \<Rightarrow> nat) \<Rightarrow> ('r \<Rightarrow> byte list) \<Rightarrow> 'r \<Rightarrow> byte list io poll \<Rightarrow> 'r \<Rightarrow> bool" where
  "fill_step content lag avail r p r' \<longleftrightarrow>
     content r' = content r \<and>
     (case p of
        Ready (Inr bs) \<Rightarrow> avail r' = bs \<and> (\<exists>rest. content r = bs @ rest) \<and> (bs = [] \<longrightarrow> content r = []) \<and> lag r' \<le> lag r
      | Ready (Inl e) \<Rightarrow> lag r' \<le> lag r
      | Pending \<Rightarrow> lag r' < lag r)"

lemma read_step_simps [simp]:
  "read_step content lag r n (Ready (Inr bs)) r' \<longleftrightarrow>
     length bs \<le> n \<and> content r = bs @ content r' \<and> (bs = [] \<longrightarrow> n = 0 \<or> content r = []) \<and> lag r' \<le> lag r"
  "read_step content lag r n (Ready (Inl e)) r' \<longleftrightarrow> content r' = content r \<and> lag r' \<le> lag r"
  "read_step content lag r n Pending r' \<longleftrightarrow> content r' = content r \<and> lag r' < lag r"
  by (simp_all add: read_step_def)

lemma fill_step_simps [simp]:
  "fill_step content lag avail r (Ready (Inr bs)) r' \<longleftrightarrow>
     content r' = content r \<and> avail r' = bs \<and> (\<exists>rest. content r = bs @ rest) \<and> (bs = [] \<longrightarrow> content r = []) \<and> lag r' \<le> lag r"
  "fill_step content lag avail r (Ready (Inl e)) r' \<longleftrightarrow> content r' = content r \<and> lag r' \<le> lag r"
  "fill_step content lag avail r Pending r' \<longleftrightarrow> content r' = content r \<and> lag r' < lag r"
  by (simp_all add: fill_step_def)

locale byte_reader =
  fixes rd :: "'r read_fn" and inv :: "'r \<Rightarrow> bool" and content :: "'r \<Rightarrow> byte list" and lag :: "'r \<Rightarrow> nat"
  assumes rd: "inv r \<Longrightarrow> \<exists>p r'. rd r n = ret (p, r') \<and> inv r' \<and> read_step content lag r n p r'"
begin

lemma rd_cases:
  assumes "inv r"
  obtains (ok) bs r' where "rd r n = ret (Ready (Inr bs), r')" "inv r'" "read_step content lag r n (Ready (Inr bs)) r'"
    | (err) e r' where "rd r n = ret (Ready (Inl e), r')" "inv r'" "content r' = content r" "lag r' \<le> lag r"
    | (pending) r' where "rd r n = ret (Pending, r')" "inv r'" "content r' = content r" "lag r' < lag r"
proof -
  from rd [OF assms, of n] obtain p r' where p: "rd r n = ret (p, r')" "inv r'" "read_step content lag r n p r'" by blast
  show thesis
  proof (cases p)
    case (Ready x)
    with p ok err show thesis by (cases x) auto
  next
    case Pending
    with p pending show thesis by auto
  qed
qed

end

text \<open>\<open>AsyncBufRead\<close> adds \<open>poll_fill_buf\<close>, and \<open>consume\<close>, which takes bytes that were shown off the content.\<close>

locale byte_buf_reader = byte_reader +
  fixes fill :: "'a fill_fn" and consume :: "'a consume_fn" and avail :: "'a \<Rightarrow> byte list"
  assumes fill: "inv r \<Longrightarrow> \<exists>p r'. fill r = ret (p, r') \<and> inv r' \<and> fill_step content lag avail r p r'"
    and avail_content: "inv r \<Longrightarrow> \<exists>rest. content r = avail r @ rest"
    and consume: "inv r \<Longrightarrow> n \<le> length (avail r) \<Longrightarrow>
      \<exists>r'. consume n r = ret r' \<and> inv r' \<and> content r' = drop n (content r) \<and> avail r' = drop n (avail r) \<and> lag r' \<le> lag r"
begin

lemma avail_le:
  assumes "inv r"
  shows "length (avail r) \<le> length (content r)"
  using avail_content [OF assms] by auto

lemma fill_cases:
  assumes "inv r"
  obtains (ok) bs r' where "fill r = ret (Ready (Inr bs), r')" "inv r'" "fill_step content lag avail r (Ready (Inr bs)) r'"
    | (err) e r' where "fill r = ret (Ready (Inl e), r')" "inv r'" "content r' = content r" "lag r' \<le> lag r"
    | (pending) r' where "fill r = ret (Pending, r')" "inv r'" "content r' = content r" "lag r' < lag r"
proof -
  from fill [OF assms] obtain p r' where p: "fill r = ret (p, r')" "inv r'" "fill_step content lag avail r p r'" by blast
  show thesis
  proof (cases p)
    case (Ready x)
    with p ok err show thesis by (cases x) auto
  next
    case Pending
    with p pending show thesis by auto
  qed
qed

end

section \<open>Cursor\<close>

text \<open>\<open>std::io::Cursor\<close> over bytes, every poll of which is ready.\<close>

record cursor =
  cu_inner :: "byte list"
  cu_pos :: "64 word"

definition cursor_new :: "byte list \<Rightarrow> cursor" where
  "cursor_new inner = \<lparr>cu_inner = inner, cu_pos = 0\<rparr>"

definition cursor_position :: "cursor \<Rightarrow> 64 word" where
  "cursor_position this = cu_pos this"

definition cursor_set_position :: "64 word \<Rightarrow> cursor \<Rightarrow> cursor" where
  "cursor_set_position pos this = this\<lparr>cu_pos := pos\<rparr>"

definition cursor_remaining :: "cursor \<Rightarrow> byte list" where
  "cursor_remaining this = drop (min (unat (cu_pos this)) (length (cu_inner this))) (cu_inner this)"

definition cursor_poll_read :: "cursor read_fn" where
  "cursor_poll_read this n =
     (let bs = take n (cursor_remaining this) in
      ret (Ready (Inr bs), this\<lparr>cu_pos := cu_pos this + word_of_nat (length bs)\<rparr>))"

definition cursor_poll_fill_buf :: "cursor fill_fn" where
  "cursor_poll_fill_buf this = ret (Ready (Inr (cursor_remaining this)), this)"

definition cursor_consume :: "cursor consume_fn" where
  "cursor_consume amt this = ret (this\<lparr>cu_pos := cu_pos this + word_of_nat amt\<rparr>)"

datatype SeekFrom = SeekStart "64 word" | SeekEnd "64 word" | SeekCurrent "64 word"

text \<open>
  \<open>Seek::seek\<close>: an offset from the end or the current position is signed; a result that is negative or does not
  fit 64 bits is an error.
\<close>

definition cursor_poll_seek :: "cursor \<Rightarrow> SeekFrom \<Rightarrow> ((64 word) io poll \<times> cursor) comp" where
  "cursor_poll_seek this pos =
     (let target = (case pos of
          SeekStart n \<Rightarrow> uint n
        | SeekEnd n \<Rightarrow> int (length (cu_inner this)) + sint n
        | SeekCurrent n \<Rightarrow> uint (cu_pos this) + sint n)
      in if 0 \<le> target \<and> target < 2 ^ 64
         then ret (Ready (Inr (word_of_int target)), this\<lparr>cu_pos := word_of_int target\<rparr>)
         else ret (Ready (Inl InvalidInput), this))"

text \<open>The bytes are a Rust allocation: fewer than \<open>isize::MAX\<close>.\<close>

definition cursor_ok :: "cursor \<Rightarrow> bool" where
  "cursor_ok c \<longleftrightarrow> length (cu_inner c) < 2 ^ 63"

lemma cursor_advance:
  assumes "cursor_ok c" and "n \<le> length (cursor_remaining c)"
  shows "cursor_remaining (c\<lparr>cu_pos := cu_pos c + word_of_nat n\<rparr>) = drop n (cursor_remaining c)"
proof (cases "n = 0")
  case False
  then have le: "unat (cu_pos c) + n \<le> length (cu_inner c)" "unat (cu_pos c) \<le> length (cu_inner c)"
    using assms(2) by (auto simp: cursor_remaining_def)
  have small: "n < 2 ^ 64" using le(1) assms(1) by (simp add: cursor_ok_def)
  then have "unat (cu_pos c) + unat (word_of_nat n :: usize) < 2 ^ 64"
    using le(1) assms(1) by (simp add: cursor_ok_def unat_of_nat)
  then have "unat (cu_pos c + word_of_nat n) = unat (cu_pos c) + n"
    using small by (simp add: unat_add_usize unat_of_nat)
  then show ?thesis using le by (simp add: cursor_remaining_def min_absorb1 add.commute)
qed simp

lemma take_drop_min: "take n xs @ drop (min (length xs) n) xs = xs"
  by (cases "n \<le> length xs") (simp_all add: min_def)

interpretation cursor: byte_buf_reader cursor_poll_read cursor_ok cursor_remaining "\<lambda>_. 0"
    cursor_poll_fill_buf cursor_consume cursor_remaining
proof unfold_locales
  fix r :: cursor and n
  assume ok: "cursor_ok r"
  have len: "length (take n (cursor_remaining r)) \<le> length (cursor_remaining r)" by simp
  show "\<exists>p r'. cursor_poll_read r n = ret (p, r') \<and> cursor_ok r' \<and> read_step cursor_remaining (\<lambda>_. 0) r n p r'"
    using ok cursor_advance [OF ok len] take_drop_min [of n "cursor_remaining r"]
    by (simp add: cursor_poll_read_def cursor_ok_def Let_def)
  show "\<exists>p r'. cursor_poll_fill_buf r = ret (p, r') \<and> cursor_ok r' \<and> fill_step cursor_remaining (\<lambda>_. 0) cursor_remaining r p r'"
    using ok by (simp add: cursor_poll_fill_buf_def)
  show "\<exists>rest. cursor_remaining r = cursor_remaining r @ rest" by simp
  show "\<exists>r'. cursor_consume n r = ret r' \<and> cursor_ok r' \<and> cursor_remaining r' = drop n (cursor_remaining r)
      \<and> cursor_remaining r' = drop n (cursor_remaining r) \<and> (0::nat) \<le> 0" if "n \<le> length (cursor_remaining r)"
    using cursor_advance [OF ok that] ok by (simp add: cursor_consume_def cursor_ok_def)
qed

section \<open>Empty and Repeat\<close>

definition io_empty_poll_read :: "unit read_fn" where
  "io_empty_poll_read this n = ret (Ready (Inr []), this)"

definition io_empty_poll_fill_buf :: "unit fill_fn" where
  "io_empty_poll_fill_buf this = ret (Ready (Inr []), this)"

definition io_empty_consume :: "unit consume_fn" where
  "io_empty_consume amt this = ret this"

interpretation io_empty: byte_buf_reader io_empty_poll_read "\<lambda>_. True" "\<lambda>_. []" "\<lambda>_. 0"
    io_empty_poll_fill_buf io_empty_consume "\<lambda>_. []"
  by unfold_locales (auto simp: io_empty_poll_read_def io_empty_poll_fill_buf_def io_empty_consume_def)

text \<open>\<open>Repeat\<close> never ends: it fills the buffer.\<close>

record io_repeat =
  rp_byte :: byte

definition io_repeat_poll_read :: "io_repeat read_fn" where
  "io_repeat_poll_read this n = ret (Ready (Inr (replicate n (rp_byte this))), this)"

lemma io_repeat_fills: "io_repeat_poll_read r n = ret (Ready (Inr bs), r') \<longleftrightarrow> bs = replicate n (rp_byte r) \<and> r' = r"
  by (auto simp: io_repeat_poll_read_def)

section \<open>Take\<close>

record 'r IoTake =
  iot_inner :: 'r
  iot_limit :: "64 word"

definition io_take_new :: "'r \<Rightarrow> 64 word \<Rightarrow> 'r IoTake" where
  "io_take_new inner limit = \<lparr>iot_inner = inner, iot_limit = limit\<rparr>"

definition io_take_set_limit :: "64 word \<Rightarrow> 'r IoTake \<Rightarrow> 'r IoTake" where
  "io_take_set_limit limit this = this\<lparr>iot_limit := limit\<rparr>"

text \<open>\<open>*this.limit -= n as u64\<close>, with the overflow check.\<close>

definition io_take_less :: "nat \<Rightarrow> 'r IoTake \<Rightarrow> ('r IoTake \<Rightarrow> 'b comp) \<Rightarrow> 'b comp" where
  "io_take_less n this k =
     assertc (n \<le> unat (iot_limit this)) ''attempt to subtract with overflow''
       (k (this\<lparr>iot_limit := iot_limit this - word_of_nat n\<rparr>))"

definition io_take_poll_read :: "'r read_fn \<Rightarrow> 'r IoTake read_fn" where
  "io_take_poll_read rd this n =
     (if iot_limit this = 0 then ret (Ready (Inr []), this)
      else let max = min n (unat (iot_limit this)) in
        ready_try (rd (iot_inner this) max) (\<lambda>r. this\<lparr>iot_inner := r\<rparr>) (\<lambda>bs this.
          io_take_less (length bs) this (\<lambda>this. ret (Ready (Inr bs), this))))"

definition io_take_poll_fill_buf :: "'r fill_fn \<Rightarrow> 'r IoTake fill_fn" where
  "io_take_poll_fill_buf fill this =
     (if iot_limit this = 0 then ret (Ready (Inr []), this)
      else
        ready_try (fill (iot_inner this)) (\<lambda>r. this\<lparr>iot_inner := r\<rparr>) (\<lambda>buf this.
          let cap = min (length buf) (unat (iot_limit this)) in ret (Ready (Inr (take cap buf)), this)))"

definition io_take_consume :: "'r consume_fn \<Rightarrow> 'r IoTake consume_fn" where
  "io_take_consume consume amt this =
     (let amt = min amt (unat (iot_limit this)) in
      io_take_less amt this (\<lambda>this. bindc (consume amt (iot_inner this)) (\<lambda>r. ret (this\<lparr>iot_inner := r\<rparr>))))"

definition io_take_content :: "('r \<Rightarrow> byte list) \<Rightarrow> 'r IoTake \<Rightarrow> byte list" where
  "io_take_content content this = take (unat (iot_limit this)) (content (iot_inner this))"

definition io_take_avail :: "('r \<Rightarrow> byte list) \<Rightarrow> 'r IoTake \<Rightarrow> byte list" where
  "io_take_avail avail this = take (unat (iot_limit this)) (avail (iot_inner this))"

lemma unat_sub_of_nat: "n \<le> unat (w :: usize) \<Longrightarrow> unat (w - word_of_nat n) = unat w - n"
  using unat_usize_less [of w] by (subst unat_sub) (auto simp: word_le_nat_alt unat_of_nat)

lemma io_take_less_ok [simp]:
  "n \<le> unat (iot_limit this) \<Longrightarrow> io_take_less n this k = k (this\<lparr>iot_limit := iot_limit this - word_of_nat n\<rparr>)"
  by (simp add: io_take_less_def)

context byte_reader begin

lemma io_take_reader:
  "byte_reader (io_take_poll_read rd) (\<lambda>t. inv (iot_inner t)) (io_take_content content) (\<lambda>t. lag (iot_inner t))"
proof unfold_locales
  fix t :: "'r IoTake" and n
  assume inv: "inv (iot_inner t)"
  show "\<exists>p t'. io_take_poll_read rd t n = ret (p, t') \<and> inv (iot_inner t')
      \<and> read_step (io_take_content content) (\<lambda>t. lag (iot_inner t)) t n p t'"
  proof (cases "iot_limit t = 0")
    case True
    with inv show ?thesis by (simp add: io_take_poll_read_def io_take_content_def)
  next
    case False
    then have pos: "0 < unat (iot_limit t)" by (simp add: unat_gt_0)
    show ?thesis
      using inv
    proof (cases rule: rd_cases [where n = "min n (unat (iot_limit t))"])
      case (ok bs r')
      then have "io_take_poll_read rd t n =
          ret (Ready (Inr bs), t\<lparr>iot_inner := r', iot_limit := iot_limit t - word_of_nat (length bs)\<rparr>)"
        using False by (simp add: io_take_poll_read_def Let_def)
      then show ?thesis using ok pos by (auto simp: io_take_content_def unat_sub_of_nat)
    qed (use False in \<open>simp_all add: io_take_poll_read_def io_take_content_def Let_def\<close>)
  qed
qed

end

context byte_buf_reader begin

lemma io_take_buf_reader:
  "byte_buf_reader (io_take_poll_read rd) (\<lambda>t. inv (iot_inner t)) (io_take_content content) (\<lambda>t. lag (iot_inner t))
     (io_take_poll_fill_buf fill) (io_take_consume consume) (io_take_avail avail)"
proof (rule byte_buf_reader.intro [OF io_take_reader], unfold_locales)
  fix t :: "'a IoTake"
  assume inv: "inv (iot_inner t)"
  show "\<exists>p t'. io_take_poll_fill_buf fill t = ret (p, t') \<and> inv (iot_inner t')
      \<and> fill_step (io_take_content content) (\<lambda>t. lag (iot_inner t)) (io_take_avail avail) t p t'"
  proof (cases "iot_limit t = 0")
    case True
    with inv show ?thesis by (simp add: io_take_poll_fill_buf_def io_take_content_def io_take_avail_def)
  next
    case False
    then have pos: "0 < unat (iot_limit t)" by (simp add: unat_gt_0)
    show ?thesis
      using inv
    proof (cases rule: fill_cases)
      case (ok bs r')
      then obtain rest where rest: "content (iot_inner t) = bs @ rest" by auto
      have "io_take_poll_fill_buf fill t =
          ret (Ready (Inr (take (unat (iot_limit t)) bs)), t\<lparr>iot_inner := r'\<rparr>)"
        using False ok by (simp add: io_take_poll_fill_buf_def Let_def min_def)
      then show ?thesis using ok pos rest by (auto simp: io_take_content_def io_take_avail_def)
    qed (use False in \<open>simp_all add: io_take_poll_fill_buf_def io_take_content_def\<close>)
  qed
  obtain rest where rest: "content (iot_inner t) = avail (iot_inner t) @ rest" using avail_content [OF inv] by blast
  show "\<exists>rest. io_take_content content t = io_take_avail avail t @ rest"
    by (simp add: io_take_content_def io_take_avail_def rest)
  fix n
  assume n: "n \<le> length (io_take_avail avail t)"
  then have le: "n \<le> unat (iot_limit t)" "n \<le> length (avail (iot_inner t))" by (simp_all add: io_take_avail_def)
  from consume [OF inv le(2)] obtain r' where r': "consume n (iot_inner t) = ret r'" "inv r'"
    "content r' = drop n (content (iot_inner t))" "avail r' = drop n (avail (iot_inner t))" "lag r' \<le> lag (iot_inner t)"
    by blast
  have "io_take_consume consume n t = ret (t\<lparr>iot_limit := iot_limit t - word_of_nat n, iot_inner := r'\<rparr>)"
    using le r'(1) by (simp add: io_take_consume_def Let_def)
  then show "\<exists>t'. io_take_consume consume n t = ret t' \<and> inv (iot_inner t') \<and> io_take_content content t' = drop n (io_take_content content t)
      \<and> io_take_avail avail t' = drop n (io_take_avail avail t) \<and> lag (iot_inner t') \<le> lag (iot_inner t)"
    using r' le by (auto simp: io_take_content_def io_take_avail_def unat_sub_of_nat drop_take)
qed

end

section \<open>Chain\<close>

record ('r, 'q) IoChain =
  ioc_first :: 'r
  ioc_second :: 'q
  ioc_done_first :: bool

definition io_chain_new :: "'r \<Rightarrow> 'q \<Rightarrow> ('r, 'q) IoChain" where
  "io_chain_new first second = \<lparr>ioc_first = first, ioc_second = second, ioc_done_first = False\<rparr>"

definition io_chain_second :: "'q read_fn \<Rightarrow> ('r, 'q) IoChain read_fn" where
  "io_chain_second rd2 this n = poll_with (rd2 (ioc_second this) n) (\<lambda>q. this\<lparr>ioc_second := q\<rparr>) (\<lambda>p this. ret (p, this))"

definition io_chain_poll_read :: "'r read_fn \<Rightarrow> 'q read_fn \<Rightarrow> ('r, 'q) IoChain read_fn" where
  "io_chain_poll_read rd1 rd2 this n =
     (if \<not> ioc_done_first this then
        ready_try (rd1 (ioc_first this) n) (\<lambda>r. this\<lparr>ioc_first := r\<rparr>) (\<lambda>bs this.
          if length bs = 0 \<and> n \<noteq> 0 then io_chain_second rd2 (this\<lparr>ioc_done_first := True\<rparr>) n
          else ret (Ready (Inr bs), this))
      else io_chain_second rd2 this n)"

definition io_chain_fill_second :: "'q fill_fn \<Rightarrow> ('r, 'q) IoChain fill_fn" where
  "io_chain_fill_second fill2 this = poll_with (fill2 (ioc_second this)) (\<lambda>q. this\<lparr>ioc_second := q\<rparr>) (\<lambda>p this. ret (p, this))"

definition io_chain_poll_fill_buf :: "'r fill_fn \<Rightarrow> 'q fill_fn \<Rightarrow> ('r, 'q) IoChain fill_fn" where
  "io_chain_poll_fill_buf fill1 fill2 this =
     (if \<not> ioc_done_first this then
        ready_try (fill1 (ioc_first this)) (\<lambda>r. this\<lparr>ioc_first := r\<rparr>) (\<lambda>buf this.
          if buf = [] then io_chain_fill_second fill2 (this\<lparr>ioc_done_first := True\<rparr>)
          else ret (Ready (Inr buf), this))
      else io_chain_fill_second fill2 this)"

definition io_chain_consume :: "'r consume_fn \<Rightarrow> 'q consume_fn \<Rightarrow> ('r, 'q) IoChain consume_fn" where
  "io_chain_consume consume1 consume2 amt this =
     (if \<not> ioc_done_first this then bindc (consume1 amt (ioc_first this)) (\<lambda>r. ret (this\<lparr>ioc_first := r\<rparr>))
      else bindc (consume2 amt (ioc_second this)) (\<lambda>q. ret (this\<lparr>ioc_second := q\<rparr>)))"

text \<open>The content is the first reader's and then the second's; the \<open>Pending\<close>s of both are to come.\<close>

definition io_chain_content :: "('r \<Rightarrow> byte list) \<Rightarrow> ('q \<Rightarrow> byte list) \<Rightarrow> ('r, 'q) IoChain \<Rightarrow> byte list" where
  "io_chain_content c1 c2 this = (if ioc_done_first this then c2 (ioc_second this) else c1 (ioc_first this) @ c2 (ioc_second this))"

definition io_chain_avail :: "('r \<Rightarrow> byte list) \<Rightarrow> ('q \<Rightarrow> byte list) \<Rightarrow> ('r, 'q) IoChain \<Rightarrow> byte list" where
  "io_chain_avail a1 a2 this = (if ioc_done_first this then a2 (ioc_second this) else a1 (ioc_first this))"

definition io_chain_lag :: "('r \<Rightarrow> nat) \<Rightarrow> ('q \<Rightarrow> nat) \<Rightarrow> ('r, 'q) IoChain \<Rightarrow> nat" where
  "io_chain_lag l1 l2 this = (if ioc_done_first this then 0 else l1 (ioc_first this)) + l2 (ioc_second this)"

definition io_chain_inv :: "('r \<Rightarrow> bool) \<Rightarrow> ('q \<Rightarrow> bool) \<Rightarrow> ('r, 'q) IoChain \<Rightarrow> bool" where
  "io_chain_inv i1 i2 this \<longleftrightarrow> i1 (ioc_first this) \<and> i2 (ioc_second this)"

lemmas io_chain_defs = io_chain_content_def io_chain_avail_def io_chain_lag_def io_chain_inv_def

lemma io_chain_second_reader:
  assumes "byte_reader rd2 i2 c2 l2" and "io_chain_inv i1 i2 t" and "ioc_done_first t"
  shows "\<exists>p t'. io_chain_second rd2 t n = ret (p, t') \<and> io_chain_inv i1 i2 t'
    \<and> read_step (io_chain_content c1 c2) (io_chain_lag l1 l2) t n p t'"
proof -
  from byte_reader.rd [OF assms(1), of "ioc_second t" n] assms(2) obtain p q where
    q: "rd2 (ioc_second t) n = ret (p, q)" "i2 q" "read_step c2 l2 (ioc_second t) n p q" by (auto simp: io_chain_inv_def)
  then have "io_chain_second rd2 t n = ret (p, t\<lparr>ioc_second := q\<rparr>)" by (simp add: io_chain_second_def)
  moreover have "read_step (io_chain_content c1 c2) (io_chain_lag l1 l2) t n p (t\<lparr>ioc_second := q\<rparr>)"
    using q(3) assms(3) by (auto simp: read_step_def io_chain_defs split: poll.splits sum.splits)
  ultimately show ?thesis using q(2) assms(2) by (auto simp: io_chain_inv_def)
qed

lemma io_chain_reader:
  assumes "byte_reader rd1 i1 c1 l1" and "byte_reader rd2 i2 c2 l2"
  shows "byte_reader (io_chain_poll_read rd1 rd2) (io_chain_inv i1 i2) (io_chain_content c1 c2) (io_chain_lag l1 l2)"
proof
  fix t n
  assume inv: "io_chain_inv i1 i2 t"
  show "\<exists>p t'. io_chain_poll_read rd1 rd2 t n = ret (p, t') \<and> io_chain_inv i1 i2 t'
      \<and> read_step (io_chain_content c1 c2) (io_chain_lag l1 l2) t n p t'"
  proof (cases "ioc_done_first t")
    case True
    with io_chain_second_reader [OF assms(2) inv True] show ?thesis by (simp add: io_chain_poll_read_def)
  next
    case False
    have inv1: "i1 (ioc_first t)" and inv2: "i2 (ioc_second t)" using inv by (simp_all add: io_chain_inv_def)
    show ?thesis
    proof (cases rule: byte_reader.rd_cases [OF assms(1) inv1, where n = n, case_names ok err pending])
      case (ok bs r')
      show ?thesis
      proof (cases "bs = [] \<and> n \<noteq> 0")
        case True
        define u where "u = t\<lparr>ioc_first := r', ioc_done_first := True\<rparr>"
        have "io_chain_inv i1 i2 u" "ioc_done_first u" using inv2 ok by (simp_all add: u_def io_chain_inv_def)
        from io_chain_second_reader [OF assms(2) this] obtain p t' where t': "io_chain_second rd2 u n = ret (p, t')" "io_chain_inv i1 i2 t'"
          "read_step (io_chain_content c1 c2) (io_chain_lag l1 l2) u n p t'" by blast
        moreover have "io_chain_poll_read rd1 rd2 t n = io_chain_second rd2 u n"
          using False True ok by (simp add: io_chain_poll_read_def u_def)
        moreover have "io_chain_content c1 c2 u = io_chain_content c1 c2 t" "io_chain_lag l1 l2 u \<le> io_chain_lag l1 l2 t"
          using False True ok by (auto simp: io_chain_defs u_def)
        ultimately show ?thesis by (auto simp: read_step_def split: poll.splits sum.splits)
      next
        case no: False
        then have "io_chain_poll_read rd1 rd2 t n = ret (Ready (Inr bs), t\<lparr>ioc_first := r'\<rparr>)"
          using False ok by (auto simp: io_chain_poll_read_def)
        then show ?thesis using False no ok inv2 by (auto simp: io_chain_defs)
      qed
    qed (use False inv2 in \<open>simp_all add: io_chain_poll_read_def io_chain_defs\<close>)
  qed
qed

lemma io_chain_second_fills:
  assumes "byte_buf_reader rd2 i2 c2 l2 fill2 consume2 a2" and "io_chain_inv i1 i2 t" and "ioc_done_first t"
  shows "\<exists>p t'. io_chain_fill_second fill2 t = ret (p, t') \<and> io_chain_inv i1 i2 t'
    \<and> fill_step (io_chain_content c1 c2) (io_chain_lag l1 l2) (io_chain_avail a1 a2) t p t'"
proof -
  from byte_buf_reader.fill [OF assms(1), of "ioc_second t"] assms(2) obtain p q where
    q: "fill2 (ioc_second t) = ret (p, q)" "i2 q" "fill_step c2 l2 a2 (ioc_second t) p q" by (auto simp: io_chain_inv_def)
  then have "io_chain_fill_second fill2 t = ret (p, t\<lparr>ioc_second := q\<rparr>)" by (simp add: io_chain_fill_second_def)
  moreover have "fill_step (io_chain_content c1 c2) (io_chain_lag l1 l2) (io_chain_avail a1 a2) t p (t\<lparr>ioc_second := q\<rparr>)"
    using q(3) assms(3) by (auto simp: fill_step_def io_chain_defs split: poll.splits sum.splits)
  ultimately show ?thesis using q(2) assms(2) by (auto simp: io_chain_inv_def)
qed

lemma io_chain_buf_reader:
  assumes first: "byte_buf_reader rd1 i1 c1 l1 fill1 consume1 a1" and second: "byte_buf_reader rd2 i2 c2 l2 fill2 consume2 a2"
  shows "byte_buf_reader (io_chain_poll_read rd1 rd2) (io_chain_inv i1 i2) (io_chain_content c1 c2) (io_chain_lag l1 l2)
    (io_chain_poll_fill_buf fill1 fill2) (io_chain_consume consume1 consume2) (io_chain_avail a1 a2)"
proof (rule byte_buf_reader.intro [OF io_chain_reader [OF byte_buf_reader.axioms(1) [OF first] byte_buf_reader.axioms(1) [OF second]]],
    unfold_locales)
  fix t :: "('a, 'b) IoChain"
  assume inv: "io_chain_inv i1 i2 t"
  have inv1: "i1 (ioc_first t)" and inv2: "i2 (ioc_second t)" using inv by (simp_all add: io_chain_inv_def)
  show "\<exists>p t'. io_chain_poll_fill_buf fill1 fill2 t = ret (p, t') \<and> io_chain_inv i1 i2 t'
      \<and> fill_step (io_chain_content c1 c2) (io_chain_lag l1 l2) (io_chain_avail a1 a2) t p t'"
  proof (cases "ioc_done_first t")
    case True
    with io_chain_second_fills [OF second inv True] show ?thesis by (simp add: io_chain_poll_fill_buf_def)
  next
    case False
    show ?thesis
    proof (cases rule: byte_buf_reader.fill_cases [OF first inv1, case_names ok err pending])
      case (ok bs r')
      show ?thesis
      proof (cases "bs = []")
        case True
        define u where "u = t\<lparr>ioc_first := r', ioc_done_first := True\<rparr>"
        have "io_chain_inv i1 i2 u" "ioc_done_first u" using inv2 ok by (simp_all add: u_def io_chain_inv_def)
        from io_chain_second_fills [OF second this] obtain p t' where t': "io_chain_fill_second fill2 u = ret (p, t')" "io_chain_inv i1 i2 t'"
          "fill_step (io_chain_content c1 c2) (io_chain_lag l1 l2) (io_chain_avail a1 a2) u p t'" by blast
        moreover have "io_chain_poll_fill_buf fill1 fill2 t = io_chain_fill_second fill2 u"
          using False True ok by (simp add: io_chain_poll_fill_buf_def u_def)
        moreover have "io_chain_content c1 c2 u = io_chain_content c1 c2 t" "io_chain_lag l1 l2 u \<le> io_chain_lag l1 l2 t"
          using False True ok by (auto simp: io_chain_defs u_def)
        ultimately show ?thesis by (auto simp: fill_step_def split: poll.splits sum.splits)
      next
        case no: False
        then have "io_chain_poll_fill_buf fill1 fill2 t = ret (Ready (Inr bs), t\<lparr>ioc_first := r'\<rparr>)"
          using False ok by (simp add: io_chain_poll_fill_buf_def)
        then show ?thesis using False no ok inv2 by (auto simp: io_chain_defs)
      qed
    qed (use False inv2 in \<open>simp_all add: io_chain_poll_fill_buf_def io_chain_defs\<close>)
  qed
  show "\<exists>rest. io_chain_content c1 c2 t = io_chain_avail a1 a2 t @ rest"
    using byte_buf_reader.avail_content [OF first inv1] byte_buf_reader.avail_content [OF second inv2]
    by (auto simp: io_chain_defs)
  fix n
  assume n: "n \<le> length (io_chain_avail a1 a2 t)"
  show "\<exists>t'. io_chain_consume consume1 consume2 n t = ret t' \<and> io_chain_inv i1 i2 t'
      \<and> io_chain_content c1 c2 t' = drop n (io_chain_content c1 c2 t)
      \<and> io_chain_avail a1 a2 t' = drop n (io_chain_avail a1 a2 t) \<and> io_chain_lag l1 l2 t' \<le> io_chain_lag l1 l2 t"
  proof (cases "ioc_done_first t")
    case True
    with n have "n \<le> length (a2 (ioc_second t))" by (simp add: io_chain_avail_def)
    from byte_buf_reader.consume [OF second inv2 this] True inv1 show ?thesis
      by (auto simp: io_chain_consume_def io_chain_defs)
  next
    case False
    with n have le: "n \<le> length (a1 (ioc_first t))" by (simp add: io_chain_avail_def)
    have "length (a1 (ioc_first t)) \<le> length (c1 (ioc_first t))" by (rule byte_buf_reader.avail_le [OF first inv1])
    from byte_buf_reader.consume [OF first inv1 le] obtain r where r: "consume1 n (ioc_first t) = ret r" "i1 r"
      "c1 r = drop n (c1 (ioc_first t))" "a1 r = drop n (a1 (ioc_first t))" "l1 r \<le> l1 (ioc_first t)" by blast
    have "io_chain_consume consume1 consume2 n t = ret (t\<lparr>ioc_first := r\<rparr>)"
      using False r(1) by (simp add: io_chain_consume_def)
    with r(2-) False inv2 le \<open>length (a1 _) \<le> length (c1 _)\<close> show ?thesis by (simp add: io_chain_defs)
  qed
qed

section \<open>BufReader\<close>

record 'r BufReader =
  br_inner :: 'r
  br_buffer :: "byte list"
  br_pos :: nat
  br_cap :: nat

definition DEFAULT_BUF_SIZE :: nat where
  "DEFAULT_BUF_SIZE = 8 * 1024"

definition br_with_capacity :: "nat \<Rightarrow> 'r \<Rightarrow> 'r BufReader" where
  "br_with_capacity capacity inner = \<lparr>br_inner = inner, br_buffer = replicate capacity 0, br_pos = 0, br_cap = 0\<rparr>"

definition br_new :: "'r \<Rightarrow> 'r BufReader" where
  "br_new inner = br_with_capacity DEFAULT_BUF_SIZE inner"

text \<open>\<open>buffer\<close>: the slice \<open>pos..cap\<close>.\<close>

definition br_slice :: "'r BufReader \<Rightarrow> byte list" where
  "br_slice this = drop (br_pos this) (take (br_cap this) (br_buffer this))"

definition br_discard_buffer :: "'r BufReader \<Rightarrow> 'r BufReader" where
  "br_discard_buffer this = this\<lparr>br_pos := 0, br_cap := 0\<rparr>"

definition br_poll_fill_buf :: "'r read_fn \<Rightarrow> 'r BufReader fill_fn" where
  "br_poll_fill_buf rd this =
     (if br_cap this \<le> br_pos this then
        assertc (br_pos this = br_cap this) ''assertion failed: pos == cap''
          (ready_try (rd (br_inner this) (length (br_buffer this))) (\<lambda>r. this\<lparr>br_inner := r\<rparr>) (\<lambda>bs this.
            let this = this\<lparr>br_buffer := bs @ drop (length bs) (br_buffer this), br_cap := length bs, br_pos := 0\<rparr>
            in ret (Ready (Inr (br_slice this)), this)))
      else ret (Ready (Inr (br_slice this)), this))"

definition br_consume :: "'r BufReader consume_fn" where
  "br_consume amt this =
     assertc (br_pos this + amt < 2 ^ 64) ''attempt to add with overflow''
       (ret (this\<lparr>br_pos := min (br_pos this + amt) (br_cap this)\<rparr>))"

definition br_poll_read :: "'r read_fn \<Rightarrow> 'r BufReader read_fn" where
  "br_poll_read rd this n =
     (if br_pos this = br_cap this \<and> length (br_buffer this) \<le> n then
        ready_poll (rd (br_inner this) n) (\<lambda>r. this\<lparr>br_inner := r\<rparr>) (\<lambda>res this.
          ret (Ready res, br_discard_buffer this))
      else
        ready_try (br_poll_fill_buf rd this) id (\<lambda>rem this.
          let bs = take n rem in bindc (br_consume (length bs) this) (\<lambda>this. ret (Ready (Inr bs), this))))"

text \<open>The buffer has room, and its content is a Rust allocation.\<close>

definition br_ok :: "('r \<Rightarrow> bool) \<Rightarrow> 'r BufReader \<Rightarrow> bool" where
  "br_ok iv this \<longleftrightarrow> iv (br_inner this) \<and> br_pos this \<le> br_cap this \<and> br_cap this \<le> length (br_buffer this)
     \<and> 0 < length (br_buffer this) \<and> length (br_buffer this) < 2 ^ 63"

definition br_content :: "('r \<Rightarrow> byte list) \<Rightarrow> 'r BufReader \<Rightarrow> byte list" where
  "br_content content this = br_slice this @ content (br_inner this)"

lemma br_length_slice: "br_ok iv t \<Longrightarrow> length (br_slice t) = br_cap t - br_pos t"
  by (simp add: br_ok_def br_slice_def)

lemma br_slice_inner [simp]: "br_slice (t\<lparr>br_inner := r\<rparr>) = br_slice t"
  by (simp add: br_slice_def)

lemma br_consume_ok:
  assumes "br_ok iv t" and "n \<le> length (br_slice t)"
  shows "br_consume n t = ret (t\<lparr>br_pos := br_pos t + n\<rparr>)" and "br_ok iv (t\<lparr>br_pos := br_pos t + n\<rparr>)"
    and "br_slice (t\<lparr>br_pos := br_pos t + n\<rparr>) = drop n (br_slice t)"
  using assms br_length_slice [OF assms(1)] by (auto simp: br_consume_def br_ok_def br_slice_def add.commute)

context byte_reader begin

lemma br_fills:
  assumes "br_ok inv t"
  shows "\<exists>p t'. br_poll_fill_buf rd t = ret (p, t') \<and> br_ok inv t'
    \<and> fill_step (br_content content) (\<lambda>t. lag (br_inner t)) br_slice t p t'"
proof (cases "br_cap t \<le> br_pos t")
  case False
  then have "br_slice t \<noteq> []" using br_length_slice [OF assms] by (metis diff_is_0_eq list.size(3))
  with False assms show ?thesis by (simp add: br_poll_fill_buf_def br_content_def)
next
  case True
  then have eq: "br_pos t = br_cap t" using assms by (simp add: br_ok_def)
  then have empty: "br_slice t = []" using br_length_slice [OF assms] by simp
  have inv: "inv (br_inner t)" using assms by (simp add: br_ok_def)
  show ?thesis
    using inv
  proof (cases rule: rd_cases [where n = "length (br_buffer t)"])
    case (ok bs r')
    define t' where "t' = t\<lparr>br_inner := r', br_buffer := bs @ drop (length bs) (br_buffer t), br_cap := length bs, br_pos := 0\<rparr>"
    have "br_poll_fill_buf rd t = ret (Ready (Inr (br_slice t')), t')"
      using True eq ok by (simp add: br_poll_fill_buf_def Let_def t'_def)
    moreover have "br_slice t' = bs" by (simp add: t'_def br_slice_def)
    moreover have "br_ok inv t'" using assms ok by (auto simp: br_ok_def t'_def)
    ultimately show ?thesis using ok empty assms by (auto simp: br_content_def t'_def br_ok_def)
  qed (use True eq empty assms in \<open>auto simp: br_poll_fill_buf_def br_content_def br_ok_def\<close>)
qed

lemma br_avail_content: "\<exists>rest. br_content content t = br_slice t @ rest"
  by (simp add: br_content_def)

lemma br_consumes:
  assumes "br_ok inv t" and "n \<le> length (br_slice t)"
  shows "\<exists>t'. br_consume n t = ret t' \<and> br_ok inv t' \<and> br_content content t' = drop n (br_content content t)
    \<and> br_slice t' = drop n (br_slice t) \<and> lag (br_inner t') \<le> lag (br_inner t)"
  using br_consume_ok [OF assms] assms(2) by (simp add: br_content_def)

lemma br_reads:
  assumes "br_ok inv t"
  shows "\<exists>p t'. br_poll_read rd t n = ret (p, t') \<and> br_ok inv t'
    \<and> read_step (br_content content) (\<lambda>t. lag (br_inner t)) t n p t'"
proof (cases "br_pos t = br_cap t \<and> length (br_buffer t) \<le> n")
  case True
  have empty: "br_slice t = []" using True br_length_slice [OF assms] by simp
  have inv: "inv (br_inner t)" using assms by (simp add: br_ok_def)
  have keep: "br_ok inv (br_discard_buffer (t\<lparr>br_inner := r\<rparr>))" "br_slice (br_discard_buffer (t\<lparr>br_inner := r\<rparr>)) = []" if "inv r" for r
    using that assms by (auto simp: br_ok_def br_discard_buffer_def br_slice_def)
  have inner: "br_inner (br_discard_buffer (t\<lparr>br_inner := r\<rparr>)) = r" for r by (simp add: br_discard_buffer_def)
  show ?thesis
    using inv
  proof (cases rule: rd_cases [where n = n])
    case (ok bs r')
    then show ?thesis using True keep [of r'] empty inner by (auto simp: br_poll_read_def br_content_def)
  next
    case (err e r')
    then show ?thesis using True keep [of r'] empty inner by (simp add: br_poll_read_def br_content_def)
  next
    case (pending r')
    moreover have "br_ok inv (t\<lparr>br_inner := r'\<rparr>)" using pending assms by (simp add: br_ok_def)
    ultimately show ?thesis using True empty by (simp add: br_poll_read_def br_content_def)
  qed
next
  case False
  from br_fills [OF assms] obtain p u where u: "br_poll_fill_buf rd t = ret (p, u)" "br_ok inv u"
    "fill_step (br_content content) (\<lambda>t. lag (br_inner t)) br_slice t p u" by blast
  show ?thesis
  proof (cases p)
    case Pending
    with u False show ?thesis by (auto simp: br_poll_read_def)
  next
    case (Ready x)
    show ?thesis
    proof (cases x)
      case (Inl e)
      with u False Ready show ?thesis by (auto simp: br_poll_read_def)
    next
      case (Inr rem)
      have len: "length (take n rem) \<le> length (br_slice u)" using u(3) Ready Inr by simp
      from br_consumes [OF u(2) len] obtain v where v: "br_consume (length (take n rem)) u = ret v" "br_ok inv v"
        "br_content content v = drop (length (take n rem)) (br_content content u)" "lag (br_inner v) \<le> lag (br_inner u)" by blast
      have "br_poll_read rd t n = ret (Ready (Inr (take n rem)), v)"
        using False u(1) v(1) Ready Inr by (auto simp: br_poll_read_def Let_def)
      moreover obtain rest where "br_content content t = rem @ rest" "br_content content u = rem @ rest"
        using u(3) Ready Inr by auto
      moreover have "rem = [] \<longrightarrow> br_content content t = []" "lag (br_inner u) \<le> lag (br_inner t)" using u(3) Ready Inr by auto
      ultimately show ?thesis using v(2-4) take_drop_min [of n rem] by auto
    qed
  qed
qed

lemma br_buf_reader:
  "byte_buf_reader (br_poll_read rd) (br_ok inv) (br_content content) (\<lambda>t. lag (br_inner t))
     (br_poll_fill_buf rd) br_consume br_slice"
  by unfold_locales (fact br_reads br_fills | rule br_avail_content | erule (1) br_consumes)+

end

text \<open>A buffered reader over a cursor, over a chain of cursors, and over a limited one.\<close>

interpretation br_cursor: byte_buf_reader "br_poll_read cursor_poll_read" "br_ok cursor_ok" "br_content cursor_remaining" "\<lambda>t. 0"
    "br_poll_fill_buf cursor_poll_read" br_consume br_slice
  by (rule cursor.br_buf_reader)

interpretation chain_cursor: byte_buf_reader "io_chain_poll_read cursor_poll_read cursor_poll_read" "io_chain_inv cursor_ok cursor_ok"
    "io_chain_content cursor_remaining cursor_remaining" "io_chain_lag (\<lambda>_. 0) (\<lambda>_. 0)"
    "io_chain_poll_fill_buf cursor_poll_fill_buf cursor_poll_fill_buf" "io_chain_consume cursor_consume cursor_consume"
    "io_chain_avail cursor_remaining cursor_remaining"
  by (rule io_chain_buf_reader [OF cursor.byte_buf_reader_axioms cursor.byte_buf_reader_axioms])

interpretation take_cursor: byte_buf_reader "io_take_poll_read cursor_poll_read" "\<lambda>t. cursor_ok (iot_inner t)"
    "io_take_content cursor_remaining" "\<lambda>t. 0" "io_take_poll_fill_buf cursor_poll_fill_buf" "io_take_consume cursor_consume"
    "io_take_avail cursor_remaining"
  by (rule cursor.io_take_buf_reader)

end
