(* ===== verification/Io_Read.thy ===== *)
theory Io_Read
  imports Io_Source
begin

text \<open>
  The futures and streams of \<open>futures-util/src/io\<close> that read: \<open>ReadExact\<close>, \<open>ReadToEnd\<close>, \<open>ReadToString\<close>,
  \<open>ReadUntil\<close>, \<open>ReadLine\<close>, \<open>Lines\<close> and \<open>FillBuf\<close>, over any reader that keeps the contract of \<open>Io_Source\<close>. A
  \<open>String\<close> is its bytes; \<open>str::from_utf8\<close> is the predicate \<open>utf8_valid\<close>. \<open>memchr\<close> is a crate of its own: it is an
  argument, of which the lemmas use that it finds the first occurrence (\<open>memchr_law\<close>); the spare capacity that
  \<open>Vec::reserve\<close> leaves is an argument too, of which they use the documented minimum (\<open>reserves\<close>).

  The lemmas say that every future completes, after at most \<open>lag\<close> \<open>Pending\<close>s, and what it has read then.
\<close>

section \<open>ReadExact\<close>

text \<open>The caller's buffer: the part that is filled, and the length of the part that is left (the field \<open>buf\<close>).\<close>

record 'r ReadExact =
  rx_reader :: 'r
  rx_filled :: "byte list"
  rx_rest :: nat

definition read_exact_new :: "'r \<Rightarrow> nat \<Rightarrow> 'r ReadExact" where
  "read_exact_new reader n = \<lparr>rx_reader = reader, rx_filled = [], rx_rest = n\<rparr>"

partial_function (option) read_exact_poll :: "'r read_fn \<Rightarrow> 'r ReadExact \<Rightarrow> (unit io poll \<times> 'r ReadExact) comp" where
  "read_exact_poll rd this =
     (if 0 < rx_rest this then
        ready_try (rd (rx_reader this) (rx_rest this)) (\<lambda>r. this\<lparr>rx_reader := r\<rparr>) (\<lambda>bs this.
          assertc (length bs \<le> rx_rest this) ''mid > len''
            (let this = this\<lparr>rx_filled := rx_filled this @ bs, rx_rest := rx_rest this - length bs\<rparr> in
             if length bs = 0 then ret (Ready (Inl UnexpectedEof), this)
             else read_exact_poll rd this))
      else ret (Ready (Inr ()), this))"

section \<open>ReadToEnd and ReadToString\<close>

record 'r ReadToEnd =
  rte_reader :: 'r
  rte_buf :: "byte list"
  rte_start_len :: nat

definition read_to_end_new :: "'r \<Rightarrow> byte list \<Rightarrow> 'r ReadToEnd" where
  "read_to_end_new reader buf = \<lparr>rte_reader = reader, rte_buf = buf, rte_start_len = length buf\<rparr>"

text \<open>
  The loop of \<open>read_to_end_internal\<close>: the reader, the first \<open>g.len\<close> bytes of the vector, and the number of
  (zeroed) bytes behind them. Leaving the loop in whatever way cuts the vector to \<open>g.len\<close>.
\<close>

partial_function (option) read_to_end_loop ::
  "(nat \<Rightarrow> nat) \<Rightarrow> 'r read_fn \<Rightarrow> nat \<Rightarrow> 'r \<times> byte list \<times> nat \<Rightarrow> (nat io poll \<times> 'r \<times> byte list) comp" where
  "read_to_end_loop spare rd start_len s = (case s of (r, g, room) \<Rightarrow>
     let room = (if room = 0 then spare (length g) else room) in
     ready_poll (rd r room) (\<lambda>r. (r, g)) (\<lambda>res s. case s of (r, g) \<Rightarrow>
       (case res of
          Inr bs \<Rightarrow>
            if length bs = 0 then ret (Ready (Inr (length g - start_len)), (r, g))
            else assertc (length bs \<le> room) ''assertion failed: n <= buf.len()''
              (read_to_end_loop spare rd start_len (r, g @ bs, room - length bs))
        | Inl e \<Rightarrow> ret (Ready (Inl e), (r, g)))))"

definition read_to_end_internal ::
  "(nat \<Rightarrow> nat) \<Rightarrow> 'r read_fn \<Rightarrow> nat \<Rightarrow> 'r \<times> byte list \<Rightarrow> (nat io poll \<times> 'r \<times> byte list) comp" where
  "read_to_end_internal spare rd start_len s = (case s of (r, buf) \<Rightarrow> read_to_end_loop spare rd start_len (r, buf, 0))"

definition read_to_end_poll :: "(nat \<Rightarrow> nat) \<Rightarrow> 'r read_fn \<Rightarrow> ('r ReadToEnd, nat io) pollfn" where
  "read_to_end_poll spare rd this =
     poll_with (read_to_end_internal spare rd (rte_start_len this) (rte_reader this, rte_buf this))
       (\<lambda>(r, buf). this\<lparr>rte_reader := r, rte_buf := buf\<rparr>) (\<lambda>p this. ret (p, this))"

definition reserves :: "(nat \<Rightarrow> nat) \<Rightarrow> bool" where
  "reserves spare \<longleftrightarrow> (\<forall>n. 32 \<le> spare n)"

text \<open>UTF-8, by the well-formed byte sequences of the standard.\<close>

definition utf8_cont :: "byte \<Rightarrow> bool" where
  "utf8_cont b \<longleftrightarrow> 0x80 \<le> b \<and> b \<le> 0xBF"

definition utf8_second :: "byte \<Rightarrow> byte \<Rightarrow> bool" where
  "utf8_second a b \<longleftrightarrow>
     (if a = 0xE0 then 0xA0 \<le> b \<and> b \<le> 0xBF else if a = 0xED then 0x80 \<le> b \<and> b \<le> 0x9F
      else if a = 0xF0 then 0x90 \<le> b \<and> b \<le> 0xBF else if a = 0xF4 then 0x80 \<le> b \<and> b \<le> 0x8F else utf8_cont b)"

fun utf8_valid :: "byte list \<Rightarrow> bool" where
  "utf8_valid [] \<longleftrightarrow> True"
| "utf8_valid (a # bs) \<longleftrightarrow>
     (if a < 0x80 then utf8_valid bs
      else if 0xC2 \<le> a \<and> a \<le> 0xDF then (case bs of b # bs \<Rightarrow> utf8_cont b \<and> utf8_valid bs | _ \<Rightarrow> False)
      else if 0xE0 \<le> a \<and> a \<le> 0xEF then
        (case bs of b # c # bs \<Rightarrow> utf8_second a b \<and> utf8_cont c \<and> utf8_valid bs | _ \<Rightarrow> False)
      else if 0xF0 \<le> a \<and> a \<le> 0xF4 then
        (case bs of b # c # d # bs \<Rightarrow> utf8_second a b \<and> utf8_cont c \<and> utf8_cont d \<and> utf8_valid bs | _ \<Rightarrow> False)
      else False)"

record 'r ReadToString =
  rts_reader :: 'r
  rts_buf :: "byte list"
  rts_bytes :: "byte list"
  rts_start_len :: nat

definition read_to_string_new :: "'r \<Rightarrow> byte list \<Rightarrow> 'r ReadToString" where
  "read_to_string_new reader buf = \<lparr>rts_reader = reader, rts_buf = [], rts_bytes = buf, rts_start_len = length buf\<rparr>"

definition read_to_string_poll :: "(nat \<Rightarrow> nat) \<Rightarrow> 'r read_fn \<Rightarrow> ('r ReadToString, nat io) pollfn" where
  "read_to_string_poll spare rd this =
     ready_poll (read_to_end_internal spare rd (rts_start_len this) (rts_reader this, rts_bytes this))
       (\<lambda>(r, bytes). this\<lparr>rts_reader := r, rts_bytes := bytes\<rparr>) (\<lambda>r this.
       if \<not> utf8_valid (rts_bytes this) then
         ret (Ready (case r of Inr _ \<Rightarrow> Inl InvalidData | Inl e \<Rightarrow> Inl e), this)
       else assertc (rts_buf this = []) ''assertion failed: buf.is_empty()''
         (ret (Ready r, this\<lparr>rts_buf := rts_bytes this, rts_bytes := rts_buf this\<rparr>)))"

section \<open>ReadUntil, ReadLine and Lines\<close>

type_synonym memchr_fn = "byte \<Rightarrow> byte list \<Rightarrow> nat option"

definition memchr_law :: "memchr_fn \<Rightarrow> bool" where
  "memchr_law memchr \<longleftrightarrow>
     (\<forall>b xs. case memchr b xs of
        None \<Rightarrow> b \<notin> set xs
      | Some i \<Rightarrow> i < length xs \<and> xs ! i = b \<and> b \<notin> set (take i xs))"

partial_function (option) read_until_internal ::
  "memchr_fn \<Rightarrow> 'r fill_fn \<Rightarrow> 'r consume_fn \<Rightarrow> byte \<Rightarrow> 'r \<times> byte list \<times> nat \<Rightarrow> (nat io poll \<times> 'r \<times> byte list \<times> nat) comp" where
  "read_until_internal memchr fill consume byte s = (case s of (reader, buf, n) \<Rightarrow>
     ready_try (fill reader) (\<lambda>r. (r, buf, n)) (\<lambda>available s. case s of (reader, buf, n) \<Rightarrow>
       (let (finished, used, buf) = (case memchr byte available of
            Some i \<Rightarrow> (True, i + 1, buf @ take (i + 1) available)
          | None \<Rightarrow> (False, length available, buf @ available))
        in bindc (consume used reader) (\<lambda>reader.
             if finished \<or> used = 0 then ret (Ready (Inr (n + used)), (reader, buf, n + used))
             else read_until_internal memchr fill consume byte (reader, buf, n + used)))))"

record 'r ReadUntil =
  ru_reader :: 'r
  ru_byte :: byte
  ru_buf :: "byte list"
  ru_read :: nat

definition read_until_new :: "'r \<Rightarrow> byte \<Rightarrow> byte list \<Rightarrow> 'r ReadUntil" where
  "read_until_new reader byte buf = \<lparr>ru_reader = reader, ru_byte = byte, ru_buf = buf, ru_read = 0\<rparr>"

definition read_until_poll :: "memchr_fn \<Rightarrow> 'r fill_fn \<Rightarrow> 'r consume_fn \<Rightarrow> ('r ReadUntil, nat io) pollfn" where
  "read_until_poll memchr fill consume this =
     poll_with (read_until_internal memchr fill consume (ru_byte this) (ru_reader this, ru_buf this, ru_read this))
       (\<lambda>(r, buf, n). this\<lparr>ru_reader := r, ru_buf := buf, ru_read := n\<rparr>) (\<lambda>p this. ret (p, this))"

text \<open>\<open>Lines\<close>; \<open>ReadLine\<close> has the same fields and a flag.\<close>

record 'r Lines =
  ln_reader :: 'r
  ln_buf :: "byte list"
  ln_bytes :: "byte list"
  ln_read :: nat

definition read_line_internal :: "memchr_fn \<Rightarrow> 'r fill_fn \<Rightarrow> 'r consume_fn \<Rightarrow> ('r Lines, nat io) pollfn" where
  "read_line_internal memchr fill consume this =
     ready_poll (read_until_internal memchr fill consume 10 (ln_reader this, ln_bytes this, ln_read this))
       (\<lambda>(r, bytes, n). this\<lparr>ln_reader := r, ln_bytes := bytes, ln_read := n\<rparr>) (\<lambda>res this.
       let start = length (ln_bytes this) - ln_read this;
           valid = utf8_valid (drop start (ln_bytes this));
           this = (if valid then this else this\<lparr>ln_bytes := take start (ln_bytes this)\<rparr>);
           res = (if valid then res else case res of Inr _ \<Rightarrow> Inl InvalidData | Inl e \<Rightarrow> Inl e);
           this = this\<lparr>ln_read := 0\<rparr>
       in ret (Ready res, this\<lparr>ln_buf := ln_bytes this, ln_bytes := ln_buf this\<rparr>))"

record 'r ReadLine =
  rl_line :: "'r Lines"
  rl_finished :: bool

definition read_line_new :: "'r \<Rightarrow> byte list \<Rightarrow> 'r ReadLine" where
  "read_line_new reader buf =
     \<lparr>rl_line = \<lparr>ln_reader = reader, ln_buf = [], ln_bytes = buf, ln_read = 0\<rparr>, rl_finished = False\<rparr>"

definition read_line_poll :: "memchr_fn \<Rightarrow> 'r fill_fn \<Rightarrow> 'r consume_fn \<Rightarrow> ('r ReadLine, nat io) pollfn" where
  "read_line_poll memchr fill consume this =
     ready_poll (read_line_internal memchr fill consume (rl_line this)) (\<lambda>l. this\<lparr>rl_line := l\<rparr>) (\<lambda>res this.
       ret (Ready res, this\<lparr>rl_finished := True\<rparr>))"

text \<open>Dropping it before the end restores the caller's string.\<close>

definition read_line_drop :: "'r ReadLine \<Rightarrow> 'r ReadLine" where
  "read_line_drop this =
     (if rl_finished this then this
      else let l = rl_line this; bytes = take (length (ln_bytes l) - ln_read l) (ln_bytes l)
        in this\<lparr>rl_line := l\<lparr>ln_buf := bytes, ln_bytes := ln_buf l\<rparr>\<rparr>)"

definition lines_new :: "'r \<Rightarrow> 'r Lines" where
  "lines_new reader = \<lparr>ln_reader = reader, ln_buf = [], ln_bytes = [], ln_read = 0\<rparr>"

definition ends_with :: "byte \<Rightarrow> byte list \<Rightarrow> bool" where
  "ends_with b buf \<longleftrightarrow> buf \<noteq> [] \<and> last buf = b"

definition strip_newline :: "byte list \<Rightarrow> byte list" where
  "strip_newline buf =
     (if ends_with 10 buf then let buf = butlast buf in if ends_with 13 buf then butlast buf else buf else buf)"

definition lines_poll_next :: "memchr_fn \<Rightarrow> 'r fill_fn \<Rightarrow> 'r consume_fn \<Rightarrow> ('r Lines, byte list io option) pollfn" where
  "lines_poll_next memchr fill consume this =
     ready_poll (read_line_internal memchr fill consume this) id (\<lambda>res this.
       case res of
         Inl e \<Rightarrow> ret (Ready (Some (Inl e)), this)
       | Inr n \<Rightarrow>
           let this = this\<lparr>ln_read := 0\<rparr> in
           if n = 0 \<and> ln_buf this = [] then ret (Ready None, this)
           else ret (Ready (Some (Inr (strip_newline (ln_buf this)))), this\<lparr>ln_buf := []\<rparr>))"

text \<open>\<open>FillBuf\<close>: the reference to the reader is taken out (\<open>fb_taken\<close>) and put back if the poll is \<open>Pending\<close>.\<close>

record 'r FillBuf =
  fb_reader :: 'r
  fb_taken :: bool

definition fill_buf_new :: "'r \<Rightarrow> 'r FillBuf" where
  "fill_buf_new reader = \<lparr>fb_reader = reader, fb_taken = False\<rparr>"

definition fill_buf_poll :: "'r fill_fn \<Rightarrow> 'r FillBuf \<Rightarrow> (byte list io poll \<times> 'r FillBuf) comp" where
  "fill_buf_poll fill this =
     (if fb_taken this then panic ''Polled FillBuf after completion''
      else poll_with (fill (fb_reader this)) (\<lambda>r. this\<lparr>fb_reader := r, fb_taken := True\<rparr>) (\<lambda>p this.
        ret (p, case p of Ready _ \<Rightarrow> this | Pending \<Rightarrow> this\<lparr>fb_taken := False\<rparr>)))"

section \<open>What they read\<close>

context byte_reader begin

text \<open>The errors of the reader itself.\<close>

definition rd_fails :: "io_error \<Rightarrow> bool" where
  "rd_fails e \<longleftrightarrow> (\<exists>r n r'. inv r \<and> rd r n = ret (Ready (Inl e), r'))"

text \<open>What \<open>ReadExact\<close> has done when it completes with \<open>x\<close>.\<close>

definition exact_read :: "'r ReadExact \<Rightarrow> unit io \<Rightarrow> 'r ReadExact \<Rightarrow> bool" where
  "exact_read f x g \<longleftrightarrow> inv (rx_reader g) \<and>
     (\<exists>k. rx_filled g = rx_filled f @ take k (content (rx_reader f)) \<and> content (rx_reader g) = drop k (content (rx_reader f))
       \<and> (\<forall>u. x = Inr u \<longrightarrow> k = rx_rest f \<and> rx_rest f \<le> length (content (rx_reader f)))
       \<and> (\<forall>e. x = Inl e \<longrightarrow> rd_fails e \<or> e = UnexpectedEof \<and> k = length (content (rx_reader f)) \<and> k < rx_rest f))"

lemma exact_read_more:
  assumes "exact_read f' x g" and "rx_filled f' = rx_filled f @ bs" and "content (rx_reader f) = bs @ content (rx_reader f')"
    and "rx_rest f' = rx_rest f - length bs" and "length bs \<le> rx_rest f"
  shows "exact_read f x g"
proof -
  from assms(1) obtain k where k: "inv (rx_reader g)" "rx_filled g = rx_filled f' @ take k (content (rx_reader f'))"
    "content (rx_reader g) = drop k (content (rx_reader f'))"
    "\<forall>u. x = Inr u \<longrightarrow> k = rx_rest f' \<and> rx_rest f' \<le> length (content (rx_reader f'))"
    "\<forall>e. x = Inl e \<longrightarrow> rd_fails e \<or> e = UnexpectedEof \<and> k = length (content (rx_reader f')) \<and> k < rx_rest f'"
    unfolding exact_read_def by blast
  show ?thesis unfolding exact_read_def
  proof (intro exI [of _ "length bs + k"] conjI)
    show "inv (rx_reader g)" by fact
    show "rx_filled g = rx_filled f @ take (length bs + k) (content (rx_reader f))" using k(2) assms(2,3) by simp
    show "content (rx_reader g) = drop (length bs + k) (content (rx_reader f))" using k(3) assms(3) by simp
    show "\<forall>u. x = Inr u \<longrightarrow> length bs + k = rx_rest f \<and> rx_rest f \<le> length (content (rx_reader f))"
      using k(4) assms(3-5) by auto
    show "\<forall>e. x = Inl e \<longrightarrow> rd_fails e \<or> e = UnexpectedEof \<and> length bs + k = length (content (rx_reader f)) \<and> length bs + k < rx_rest f"
    proof (intro allI impI)
      fix e assume "x = Inl e"
      with k(5) consider "rd_fails e" | "e = UnexpectedEof" "k = length (content (rx_reader f'))" "k < rx_rest f'" by blast
      then show "rd_fails e \<or> e = UnexpectedEof \<and> length bs + k = length (content (rx_reader f)) \<and> length bs + k < rx_rest f"
      proof cases
        case 2
        then have "length bs + k < rx_rest f" using assms(4,5) by linarith
        then show ?thesis using 2(1,2) assms(3) by simp
      qed simp
    qed
  qed
qed

lemma read_exact_completes:
  assumes "inv (rx_reader f)"
  shows "\<exists>x g. completes (read_exact_poll rd) f x g \<and> exact_read f x g"
  using assms
proof (induction "lag (rx_reader f) + rx_rest f" arbitrary: f rule: less_induct)
  case less
  show ?case
  proof (cases "rx_rest f = 0")
    case True
    then have "read_exact_poll rd f = ret (Ready (Inr ()), f)" by (subst read_exact_poll.simps) simp
    then have "completes (read_exact_poll rd) f (Inr ()) f" by (rule completes_ready)
    with True less.prems show ?thesis by (auto simp: exact_read_def intro!: exI [of _ "Inr ()"])
  next
    case False
    show ?thesis
      using less.prems
    proof (cases rule: rd_cases [where n = "rx_rest f"])
      case (pending r')
      define f' where "f' = f\<lparr>rx_reader := r'\<rparr>"
      have "read_exact_poll rd f = ret (Pending, f')" using False pending by (subst read_exact_poll.simps) (simp add: f'_def)
      moreover from less.hyps [of f'] pending obtain x g where "completes (read_exact_poll rd) f' x g" "exact_read f' x g"
        by (auto simp: f'_def)
      moreover have "exact_read f x g \<longleftrightarrow> exact_read f' x g" for x g using pending by (simp add: exact_read_def f'_def)
      ultimately show ?thesis by (blast intro: completes_pend)
    next
      case (err e r')
      define f' where "f' = f\<lparr>rx_reader := r'\<rparr>"
      have "read_exact_poll rd f = ret (Ready (Inl e), f')" using False err by (subst read_exact_poll.simps) (simp add: f'_def)
      then have "completes (read_exact_poll rd) f (Inl e) f'" by (rule completes_ready)
      moreover have "rd_fails e" using less.prems err(1) by (auto simp: rd_fails_def)
      then have "exact_read f (Inl e) f'" using err by (auto simp: exact_read_def f'_def intro!: exI [of _ 0])
      ultimately show ?thesis by blast
    next
      case (ok bs r')
      define f' where "f' = f\<lparr>rx_reader := r', rx_filled := rx_filled f @ bs, rx_rest := rx_rest f - length bs\<rparr>"
      show ?thesis
      proof (cases "bs = []")
        case True
        then have "read_exact_poll rd f = ret (Ready (Inl UnexpectedEof), f')"
          using False ok by (subst read_exact_poll.simps) (simp add: f'_def Let_def)
        then have "completes (read_exact_poll rd) f (Inl UnexpectedEof) f'" by (rule completes_ready)
        moreover have "exact_read f (Inl UnexpectedEof) f'"
          using True False ok by (auto simp: exact_read_def f'_def intro!: exI [of _ 0])
        ultimately show ?thesis by blast
      next
        case no: False
        have run: "read_exact_poll rd f = read_exact_poll rd f'"
          using False ok no by (subst read_exact_poll.simps) (simp add: f'_def Let_def)
        have "lag (rx_reader f') \<le> lag (rx_reader f)" "rx_rest f' < rx_rest f" "inv (rx_reader f')"
          using ok no False by (simp_all add: f'_def)
        then obtain x g where "completes (read_exact_poll rd) f' x g" "exact_read f' x g"
          using less.hyps [of f'] by fastforce
        moreover have "exact_read f x g" if "exact_read f' x g" for x g
          using exact_read_more [OF that, of f bs] ok by (simp add: f'_def)
        ultimately show ?thesis using completes_cong [OF run] by blast
      qed
    qed
  qed
qed

text \<open>\<open>read_to_end\<close>: everything, unless the reader fails.\<close>

definition end_read :: "'r \<times> byte list \<Rightarrow> nat io \<Rightarrow> 'r \<times> byte list \<Rightarrow> nat \<Rightarrow> bool" where
  "end_read s x t start_len \<longleftrightarrow> inv (fst t) \<and>
     (\<exists>k. snd t = snd s @ take k (content (fst s)) \<and> content (fst t) = drop k (content (fst s))
       \<and> (\<forall>n. x = Inr n \<longrightarrow> k = length (content (fst s)) \<and> n = length (snd t) - start_len)
       \<and> (\<forall>e. x = Inl e \<longrightarrow> rd_fails e))"

text \<open>One call of the internal function: it completes, or is \<open>Pending\<close> with the lag decreased.\<close>

lemma read_to_end_loop_step:
  assumes "reserves spare" and "inv r"
  shows "\<exists>p t. read_to_end_loop spare rd start_len (r, g, room) = ret (p, t) \<and> inv (fst t) \<and> lag (fst t) \<le> lag r
    \<and> (case p of
         Ready x \<Rightarrow> end_read (r, g) x t start_len
       | Pending \<Rightarrow> lag (fst t) < lag r \<and> (\<exists>k. snd t = g @ take k (content r) \<and> content (fst t) = drop k (content r)))"
  using assms(2)
proof (induction "length (content r)" arbitrary: r g room rule: less_induct)
  case less
  define n where "n = (if room = 0 then spare (length g) else room)"
  have n: "0 < n" using assms(1) unfolding n_def reserves_def by (metis gr0I le_zero_eq numeral_neq_zero)
  show ?case
    using less.prems
  proof (cases rule: rd_cases [where n = n])
    case (pending r')
    then have "read_to_end_loop spare rd start_len (r, g, room) = ret (Pending, (r', g))"
      by (subst read_to_end_loop.simps) (simp add: Let_def n_def [symmetric])
    with pending show ?thesis by (auto intro!: exI [of _ 0])
  next
    case (err e r')
    then have "read_to_end_loop spare rd start_len (r, g, room) = ret (Ready (Inl e), (r', g))"
      by (subst read_to_end_loop.simps) (simp add: Let_def n_def [symmetric])
    moreover have "rd_fails e" using less.prems err(1) by (auto simp: rd_fails_def)
    then have "end_read (r, g) (Inl e) (r', g) start_len" using err by (auto simp: end_read_def intro!: exI [of _ 0])
    ultimately show ?thesis using err by auto
  next
    case (ok bs r')
    show ?thesis
    proof (cases "bs = []")
      case True
      then have "read_to_end_loop spare rd start_len (r, g, room) = ret (Ready (Inr (length g - start_len)), (r', g))"
        using ok by (subst read_to_end_loop.simps) (simp add: Let_def n_def [symmetric])
      moreover have "end_read (r, g) (Inr (length g - start_len)) (r', g) start_len" using ok True n by (auto simp: end_read_def)
      ultimately show ?thesis using ok by auto
    next
      case False
      then have run: "read_to_end_loop spare rd start_len (r, g, room) = read_to_end_loop spare rd start_len (r', g @ bs, n - length bs)"
        using ok by (subst read_to_end_loop.simps) (simp add: Let_def n_def [symmetric])
      have c: "content r = bs @ content r'" "lag r' \<le> lag r" using ok by simp_all
      from less.hyps [of r' "g @ bs" "n - length bs"] False ok obtain p t where
        t: "read_to_end_loop spare rd start_len (r', g @ bs, n - length bs) = ret (p, t)" "inv (fst t)" "lag (fst t) \<le> lag r'"
          "case p of Ready x \<Rightarrow> end_read (r', g @ bs) x t start_len
           | Pending \<Rightarrow> lag (fst t) < lag r' \<and> (\<exists>k. snd t = (g @ bs) @ take k (content r') \<and> content (fst t) = drop k (content r'))"
        by auto
      have "case p of Ready x \<Rightarrow> end_read (r, g) x t start_len
           | Pending \<Rightarrow> lag (fst t) < lag r \<and> (\<exists>k. snd t = g @ take k (content r) \<and> content (fst t) = drop k (content r))"
      proof (cases p)
        case (Ready x)
        obtain k where "snd t = (g @ bs) @ take k (content r')" "content (fst t) = drop k (content r')"
          "\<forall>n. x = Inr n \<longrightarrow> k = length (content r') \<and> n = length (snd t) - start_len" "\<forall>e. x = Inl e \<longrightarrow> rd_fails e"
          using t(4) unfolding Ready end_read_def poll.case fst_conv snd_conv by blast
        then show ?thesis using Ready c t(2) by (auto simp: end_read_def intro!: exI [of _ "length bs + k"])
      next
        case Pending
        with t(4) obtain k where "snd t = (g @ bs) @ take k (content r')" "content (fst t) = drop k (content r')" "lag (fst t) < lag r'"
          by auto
        then show ?thesis using Pending c by (auto intro!: exI [of _ "length bs + k"])
      qed
      then show ?thesis using run t c by auto
    qed
  qed
qed

lemma read_to_end_step:
  assumes "reserves spare" and "inv r"
  obtains (ready) x t where "read_to_end_internal spare rd start_len (r, g) = ret (Ready x, t)" "end_read (r, g) x t start_len" "lag (fst t) \<le> lag r"
    | (pending) t k where "read_to_end_internal spare rd start_len (r, g) = ret (Pending, t)" "inv (fst t)" "lag (fst t) < lag r"
        "snd t = g @ take k (content r)" "content (fst t) = drop k (content r)"
proof -
  from read_to_end_loop_step [OF assms, of start_len g 0] obtain p t where
    t: "read_to_end_internal spare rd start_len (r, g) = ret (p, t)" "inv (fst t)" "lag (fst t) \<le> lag r"
      "case p of Ready x \<Rightarrow> end_read (r, g) x t start_len
       | Pending \<Rightarrow> lag (fst t) < lag r \<and> (\<exists>k. snd t = g @ take k (content r) \<and> content (fst t) = drop k (content r))"
    by (auto simp: read_to_end_internal_def)
  show thesis
  proof (cases p)
    case (Ready x)
    with t show thesis by (intro ready [of x t]) simp_all
  next
    case Pending
    with t obtain k where "snd t = g @ take k (content r)" "content (fst t) = drop k (content r)" by auto
    with t Pending show thesis by (intro pending [of t k]) simp_all
  qed
qed

lemma end_read_more:
  assumes "end_read u x t start_len" and "snd u = g @ take k (content r)" and "content (fst u) = drop k (content r)"
  shows "end_read (r, g) x t start_len"
proof -
  from assms(1) obtain j where j: "inv (fst t)" "snd t = snd u @ take j (content (fst u))" "content (fst t) = drop j (content (fst u))"
    "\<forall>n. x = Inr n \<longrightarrow> j = length (content (fst u)) \<and> n = length (snd t) - start_len" "\<forall>e. x = Inl e \<longrightarrow> rd_fails e"
    unfolding end_read_def by blast
  show ?thesis
  proof (cases "k \<le> length (content r)")
    case True
    have "take (k + j) (content r) = take k (content r) @ take j (drop k (content r))" by (rule take_add)
    then show ?thesis unfolding end_read_def fst_conv snd_conv using j assms(2,3) True
      by (intro conjI exI [of _ "k + j"]) (auto simp: add.commute)
  next
    case False
    then have "content (fst u) = []" "take k (content r) = content r" using assms(3) by simp_all
    then show ?thesis unfolding end_read_def fst_conv snd_conv using j assms(2)
      by (intro conjI exI [of _ "length (content r)"]) auto
  qed
qed

lemma read_to_end_completes:
  assumes "reserves spare" and "inv (rte_reader f)"
  shows "\<exists>x g. completes (read_to_end_poll spare rd) f x g
    \<and> end_read (rte_reader f, rte_buf f) x (rte_reader g, rte_buf g) (rte_start_len f)"
  using assms(2)
proof (induction "lag (rte_reader f)" arbitrary: f rule: less_induct)
  case less
  show ?case
  proof (cases rule: read_to_end_step [OF assms(1) less.prems, of "rte_start_len f" "rte_buf f", case_names ready pending])
    case (ready x t)
    then have "read_to_end_poll spare rd f = ret (Ready x, f\<lparr>rte_reader := fst t, rte_buf := snd t\<rparr>)"
      by (simp add: read_to_end_poll_def case_prod_beta)
    then have "completes (read_to_end_poll spare rd) f x (f\<lparr>rte_reader := fst t, rte_buf := snd t\<rparr>)" by (rule completes_ready)
    with ready(2) show ?thesis by fastforce
  next
    case (pending t k)
    define f' where "f' = f\<lparr>rte_reader := fst t, rte_buf := snd t\<rparr>"
    have "read_to_end_poll spare rd f = ret (Pending, f')"
      using pending(1) by (simp add: read_to_end_poll_def case_prod_beta f'_def)
    moreover from less.hyps [of f'] pending obtain x g where "completes (read_to_end_poll spare rd) f' x g"
      "end_read (rte_reader f', rte_buf f') x (rte_reader g, rte_buf g) (rte_start_len f')" by (auto simp: f'_def)
    moreover from end_read_more [OF this(2), of "rte_buf f" k "rte_reader f"] pending
    have "end_read (rte_reader f, rte_buf f) x (rte_reader g, rte_buf g) (rte_start_len f)" by (simp add: f'_def)
    ultimately show ?thesis by (blast intro: completes_pend)
  qed
qed

text \<open>\<open>read_to_string\<close>: the same bytes, if they and what was there are valid; otherwise the string stays empty.\<close>

lemma read_to_string_completes:
  assumes "reserves spare" and "inv (rts_reader f)" and "rts_buf f = []"
  shows "\<exists>x y bytes g. completes (read_to_string_poll spare rd) f x g
    \<and> end_read (rts_reader f, rts_bytes f) y (rts_reader g, bytes) (rts_start_len f)
    \<and> (if utf8_valid bytes then x = y \<and> rts_buf g = bytes
       else x = (case y of Inr _ \<Rightarrow> Inl InvalidData | Inl e \<Rightarrow> Inl e) \<and> rts_buf g = [])"
  using assms(2,3)
proof (induction "lag (rts_reader f)" arbitrary: f rule: less_induct)
  case less
  show ?case
  proof (cases rule: read_to_end_step [OF assms(1) less.prems(1), of "rts_start_len f" "rts_bytes f", case_names ready pending])
    case (ready y t)
    define u where "u = f\<lparr>rts_reader := fst t, rts_bytes := snd t\<rparr>"
    define x where "x = (if utf8_valid (snd t) then y else case y of Inr _ \<Rightarrow> Inl InvalidData | Inl e \<Rightarrow> Inl e)"
    define g where "g = (if utf8_valid (snd t) then u\<lparr>rts_buf := snd t, rts_bytes := []\<rparr> else u)"
    have "read_to_string_poll spare rd f = ret (Ready x, g)"
      using ready(1) less.prems(2) by (simp add: read_to_string_poll_def case_prod_beta u_def x_def g_def)
    then have "completes (read_to_string_poll spare rd) f x g" by (rule completes_ready)
    then show ?thesis using ready(2) less.prems(2)
      by (intro exI [of _ x] exI [of _ y] exI [of _ "snd t"] exI [of _ g]) (simp add: x_def g_def u_def)
  next
    case (pending t k)
    define f' where "f' = f\<lparr>rts_reader := fst t, rts_bytes := snd t\<rparr>"
    have "read_to_string_poll spare rd f = ret (Pending, f')"
      using pending(1) by (simp add: read_to_string_poll_def case_prod_beta f'_def)
    moreover from less.hyps [of f'] pending less.prems(2) obtain x y bytes g where g: "completes (read_to_string_poll spare rd) f' x g"
      "end_read (rts_reader f', rts_bytes f') y (rts_reader g, bytes) (rts_start_len f')"
      "if utf8_valid bytes then x = y \<and> rts_buf g = bytes
       else x = (case y of Inr _ \<Rightarrow> Inl InvalidData | Inl e \<Rightarrow> Inl e) \<and> rts_buf g = []" by (auto simp: f'_def)
    moreover from end_read_more [OF g(2), of "rts_bytes f" k "rts_reader f"] pending
    have "end_read (rts_reader f, rts_bytes f) y (rts_reader g, bytes) (rts_start_len f)" by (simp add: f'_def)
    ultimately show ?thesis by (blast intro: completes_pend)
  qed
qed

end

section \<open>Reading up to a byte\<close>

text \<open>The beginning of a list up to and with the first \<open>b\<close>, or all of it.\<close>

fun until :: "byte \<Rightarrow> byte list \<Rightarrow> byte list" where
  "until b [] = []"
| "until b (x # xs) = (if x = b then [b] else x # until b xs)"

lemma until_append: "b \<notin> set xs \<Longrightarrow> until b (xs @ ys) = xs @ until b ys"
  by (induction xs) auto

lemma until_absent: "b \<notin> set xs \<Longrightarrow> until b xs = xs"
  using until_append [of b xs "[]"] by simp

lemma until_prefix: "until b xs @ drop (length (until b xs)) xs = xs"
  by (induction xs) auto

lemma until_take: "take (length (until b xs)) xs = until b xs"
  by (induction xs) auto

lemma until_Nil_iff [simp]: "until b xs = [] \<longleftrightarrow> xs = []"
  by (cases xs) auto

lemma until_found:
  assumes "i < length xs" and "xs ! i = b" and "b \<notin> set (take i xs)"
  shows "until b (xs @ ys) = take (Suc i) xs"
proof -
  have "xs @ ys = take i xs @ b # drop (Suc i) xs @ ys"
    using assms(1,2) by (metis append.assoc append_Cons id_take_nth_drop)
  then have "until b (xs @ ys) = take i xs @ [b]" using until_append [OF assms(3)] by (metis until.simps(2))
  then show ?thesis using assms(1,2) by (simp add: take_Suc_conv_app_nth)
qed

context byte_buf_reader begin

definition fill_fails :: "io_error \<Rightarrow> bool" where
  "fill_fails e \<longleftrightarrow> (\<exists>r r'. inv r \<and> fill r = ret (Ready (Inl e), r'))"

text \<open>One call of \<open>read_until_internal\<close> from \<open>s\<close>, \<open>k\<close> bytes read.\<close>

definition until_read :: "byte \<Rightarrow> 'a \<times> byte list \<times> nat \<Rightarrow> nat io poll \<Rightarrow> 'a \<times> byte list \<times> nat \<Rightarrow> bool" where
  "until_read b s p t \<longleftrightarrow> inv (fst t) \<and> lag (fst t) \<le> lag (fst s) \<and>
     (\<exists>k. fst (snd t) = fst (snd s) @ take k (content (fst s)) \<and> content (fst t) = drop k (content (fst s))
       \<and> k \<le> length (content (fst s)) \<and> snd (snd t) = snd (snd s) + k
       \<and> (\<forall>n. p = Ready (Inr n) \<longrightarrow> n = snd (snd t) \<and> take k (content (fst s)) = until b (content (fst s)))
       \<and> (\<forall>e. p = Ready (Inl e) \<longrightarrow> fill_fails e \<and> b \<notin> set (take k (content (fst s))))
       \<and> (p = Pending \<longrightarrow> lag (fst t) < lag (fst s) \<and> b \<notin> set (take k (content (fst s)))))"

lemma read_until_step:
  assumes "memchr_law memchr" and "inv r"
  shows "\<exists>p t. read_until_internal memchr fill consume b (r, buf, n) = ret (p, t) \<and> until_read b (r, buf, n) p t"
  using assms(2)
proof (induction "length (content r)" arbitrary: r buf n rule: less_induct)
  case less
  show ?case
    using less.prems
  proof (cases rule: fill_cases)
    case (pending r')
    then have "read_until_internal memchr fill consume b (r, buf, n) = ret (Pending, (r', buf, n))"
      by (subst read_until_internal.simps) simp
    moreover have "until_read b (r, buf, n) Pending (r', buf, n)" using pending by (auto simp: until_read_def intro!: exI [of _ 0])
    ultimately show ?thesis by blast
  next
    case (err e r')
    then have "read_until_internal memchr fill consume b (r, buf, n) = ret (Ready (Inl e), (r', buf, n))"
      by (subst read_until_internal.simps) simp
    moreover have "fill_fails e" using less.prems err(1) by (auto simp: fill_fails_def)
    then have "until_read b (r, buf, n) (Ready (Inl e)) (r', buf, n)" using err by (auto simp: until_read_def intro!: exI [of _ 0])
    ultimately show ?thesis by blast
  next
    case (ok bs u)
    then obtain rest where c: "content r = bs @ rest" "content u = bs @ rest" "avail u = bs" "lag u \<le> lag r" by auto
    show ?thesis
    proof (cases "memchr b bs")
      case (Some i)
      with assms(1) have i: "i < length bs" "bs ! i = b" "b \<notin> set (take i bs)"
        unfolding memchr_law_def by (metis (mono_tags, lifting) option.simps(5))+
      have "Suc i \<le> length (avail u)" using i(1) c(3) by simp
      from consume [OF ok(2) this] obtain v where v: "consume (Suc i) u = ret v" "inv v" "content v = drop (Suc i) (content u)"
        "lag v \<le> lag u" by blast
      have "read_until_internal memchr fill consume b (r, buf, n) = ret (Ready (Inr (n + Suc i)), (v, buf @ take (Suc i) bs, n + Suc i))"
        using ok(1) Some v(1) by (subst read_until_internal.simps) simp
      moreover have "until_read b (r, buf, n) (Ready (Inr (n + Suc i))) (v, buf @ take (Suc i) bs, n + Suc i)"
        unfolding until_read_def
        using v c i until_found [OF i, of rest] by (intro conjI exI [of _ "Suc i"]) auto
      ultimately show ?thesis by blast
    next
      case None
      with assms(1) have absent: "b \<notin> set bs" unfolding memchr_law_def by (metis (mono_tags, lifting) option.simps(4))
      have "length bs \<le> length (avail u)" using c(3) by simp
      from consume [OF ok(2) this] obtain v where v: "consume (length bs) u = ret v" "inv v" "content v = rest" "lag v \<le> lag u"
        using c(2) by auto
      show ?thesis
      proof (cases "bs = []")
        case True
        then have "content r = []" using ok(3) by simp
        have "read_until_internal memchr fill consume b (r, buf, n) = ret (Ready (Inr n), (v, buf, n))"
          using ok(1) None v(1) True by (subst read_until_internal.simps) simp
        moreover have "until_read b (r, buf, n) (Ready (Inr n)) (v, buf, n)"
          using v c True \<open>content r = []\<close> by (auto simp: until_read_def)
        ultimately show ?thesis by blast
      next
        case False
        have run: "read_until_internal memchr fill consume b (r, buf, n) =
            read_until_internal memchr fill consume b (v, buf @ bs, n + length bs)"
          using ok(1) None v(1) False by (subst read_until_internal.simps) simp
        have "length (content v) < length (content r)" using v(3) c(1) False by simp
        from less.hyps [OF this v(2)] obtain p t where
          t: "read_until_internal memchr fill consume b (v, buf @ bs, n + length bs) = ret (p, t)"
            "until_read b (v, buf @ bs, n + length bs) p t" by blast
        from t(2) obtain k where k: "inv (fst t)" "lag (fst t) \<le> lag v" "fst (snd t) = (buf @ bs) @ take k rest"
          "content (fst t) = drop k rest" "k \<le> length rest" "snd (snd t) = n + length bs + k"
          "\<forall>m. p = Ready (Inr m) \<longrightarrow> m = snd (snd t) \<and> take k rest = until b rest"
          "\<forall>e. p = Ready (Inl e) \<longrightarrow> fill_fails e \<and> b \<notin> set (take k rest)"
          "p = Pending \<longrightarrow> lag (fst t) < lag v \<and> b \<notin> set (take k rest)"
          unfolding until_read_def fst_conv snd_conv v(3) by blast
        have "until_read b (r, buf, n) p t"
          unfolding until_read_def fst_conv snd_conv c(1)
          using k v(4) c(4) absent until_append [OF absent, of rest]
          by (intro conjI exI [of _ "length bs + k"]) auto
        then show ?thesis using run t(1) by auto
      qed
    qed
  qed
qed

lemma until_readE:
  assumes "memchr_law memchr" and "inv r"
  obtains (ok) m t where "read_until_internal memchr fill consume b (r, buf, n) = ret (Ready (Inr m), t)" "inv (fst t)" "lag (fst t) \<le> lag r"
      "fst (snd t) = buf @ until b (content r)" "content (fst t) = drop (length (until b (content r))) (content r)"
      "m = n + length (until b (content r))" "snd (snd t) = m"
    | (err) e t where "read_until_internal memchr fill consume b (r, buf, n) = ret (Ready (Inl e), t)" "fill_fails e" "inv (fst t)"
    | (pending) k t where "read_until_internal memchr fill consume b (r, buf, n) = ret (Pending, t)" "inv (fst t)" "lag (fst t) < lag r"
      "fst (snd t) = buf @ take k (content r)" "content (fst t) = drop k (content r)" "snd (snd t) = n + k"
      "k \<le> length (content r)" "b \<notin> set (take k (content r))"
proof -
  from read_until_step [OF assms, of b buf n] obtain p t where
    t: "read_until_internal memchr fill consume b (r, buf, n) = ret (p, t)" "until_read b (r, buf, n) p t" by blast
  from t(2) obtain k where k: "inv (fst t)" "lag (fst t) \<le> lag r" "fst (snd t) = buf @ take k (content r)"
    "content (fst t) = drop k (content r)" "k \<le> length (content r)" "snd (snd t) = n + k"
    "\<forall>m. p = Ready (Inr m) \<longrightarrow> m = snd (snd t) \<and> take k (content r) = until b (content r)"
    "\<forall>e. p = Ready (Inl e) \<longrightarrow> fill_fails e \<and> b \<notin> set (take k (content r))"
    "p = Pending \<longrightarrow> lag (fst t) < lag r \<and> b \<notin> set (take k (content r))"
    unfolding until_read_def fst_conv snd_conv by blast
  show thesis
  proof (cases p)
    case Pending
    with t(1) k show thesis by (intro pending [of t k]) simp_all
  next
    case (Ready x)
    show thesis
    proof (cases x)
      case (Inl e)
      with t(1) k Ready show thesis by (intro err [of e t]) simp_all
    next
      case (Inr m)
      with k(7) Ready have m: "m = n + k" "take k (content r) = until b (content r)" using k(6) by simp_all
      have "length (until b (content r)) = k" using k(5) m(2) by (metis length_take min.absorb2)
      with t(1) k m Ready Inr show thesis by (intro ok [of m t]) simp_all
    qed
  qed
qed

lemma until_more: "b \<notin> set (take k xs) \<Longrightarrow> until b xs = take k xs @ until b (drop k xs)"
  using until_append [of b "take k xs" "drop k xs"] by simp

lemma read_until_completes:
  assumes "memchr_law memchr" and "inv (ru_reader f)" and "\<And>e. \<not> fill_fails e"
  shows "\<exists>g. completes (read_until_poll memchr fill consume) f
        (Inr (ru_read f + length (until (ru_byte f) (content (ru_reader f))))) g
    \<and> inv (ru_reader g) \<and> ru_buf g = ru_buf f @ until (ru_byte f) (content (ru_reader f))
    \<and> content (ru_reader g) = drop (length (until (ru_byte f) (content (ru_reader f)))) (content (ru_reader f))"
  using assms(2)
proof (induction "lag (ru_reader f)" arbitrary: f rule: less_induct)
  case less
  let ?b = "ru_byte f" and ?c = "content (ru_reader f)"
  show ?case
  proof (cases rule: until_readE [OF assms(1) less.prems, of "ru_byte f" "ru_buf f" "ru_read f", case_names ok err pending])
    case (ok m t)
    have "read_until_poll memchr fill consume f = ret (Ready (Inr m), f\<lparr>ru_reader := fst t, ru_buf := fst (snd t), ru_read := snd (snd t)\<rparr>)"
      using ok(1) by (simp add: read_until_poll_def case_prod_beta)
    from completes_ready [of "read_until_poll memchr fill consume", OF this] show ?thesis using ok by fastforce
  next
    case (err e t)
    with assms(3) show ?thesis by blast
  next
    case (pending k t)
    define f' where "f' = f\<lparr>ru_reader := fst t, ru_buf := fst (snd t), ru_read := snd (snd t)\<rparr>"
    have step: "read_until_poll memchr fill consume f = ret (Pending, f')"
      using pending(1) by (simp add: read_until_poll_def case_prod_beta f'_def)
    have u: "until ?b ?c = take k ?c @ until ?b (drop k ?c)" by (rule until_more) (rule pending)
    from less.hyps [of f'] pending obtain g where
      g: "completes (read_until_poll memchr fill consume) f' (Inr (ru_read f + k + length (until ?b (drop k ?c)))) g"
        "inv (ru_reader g)" "ru_buf g = ru_buf f @ take k ?c @ until ?b (drop k ?c)"
        "content (ru_reader g) = drop (length (until ?b (drop k ?c))) (drop k ?c)"
      by (auto simp: f'_def)
    have len: "length (until ?b ?c) = k + length (until ?b (drop k ?c))" using u pending(7) by simp
    from completes_pend [OF step g(1)] g(2-4) show ?thesis unfolding len by (auto simp: u add_ac)
  qed
qed

end

section \<open>Lines\<close>

text \<open>The lines of a text, each with its newline.\<close>

function raw_lines :: "byte list \<Rightarrow> byte list list" where
  "raw_lines [] = []"
| "raw_lines (x # xs) = until 10 (x # xs) # raw_lines (drop (length (until 10 (x # xs))) (x # xs))"
  by pat_completeness auto
termination by (relation "measure length") auto

lemma raw_lines_concat: "concat (raw_lines xs) = xs"
  by (induction xs rule: raw_lines.induct) (auto simp: until_prefix simp del: until.simps)

lemma raw_lines_step: "xs \<noteq> [] \<Longrightarrow> raw_lines xs = until 10 xs # raw_lines (drop (length (until 10 xs)) xs)"
  by (cases xs) (simp_all del: until.simps)

text \<open>Joining lines and splitting them again.\<close>

lemma raw_lines_join:
  assumes "\<forall>l \<in> set ls. 10 \<notin> set l"
  shows "raw_lines (concat (map (\<lambda>l. l @ [10]) ls)) = map (\<lambda>l. l @ [10]) ls"
  using assms
proof (induction ls)
  case (Cons l ls)
  let ?rest = "concat (map (\<lambda>l. l @ [10]) ls)"
  have "until 10 (l @ 10 # ?rest) = l @ [10]" using Cons.prems by (simp add: until_append)
  then show ?case using Cons raw_lines_step [of "l @ 10 # ?rest"] by simp
qed simp

lemma strip_newline_line: "10 \<notin> set l \<Longrightarrow> \<not> ends_with 13 l \<Longrightarrow> strip_newline (l @ [10]) = l"
  by (auto simp: strip_newline_def ends_with_def)

context byte_buf_reader begin

lemma lines_ends:
  assumes "memchr_law memchr" and "\<And>e. \<not> fill_fails e"
    and "inv (ln_reader s)" and "ln_buf s = []" and "ln_read s = length (ln_bytes s)" and "10 \<notin> set (ln_bytes s)"
    and "\<forall>l \<in> set (raw_lines (ln_bytes s @ content (ln_reader s))). utf8_valid l"
  shows "\<exists>t. ends (lines_poll_next memchr fill consume) s
    (map (\<lambda>l. Inr (strip_newline l)) (raw_lines (ln_bytes s @ content (ln_reader s)))) t"
  using assms(3-7)
proof (induction "lag (ln_reader s) + length (ln_bytes s @ content (ln_reader s))" arbitrary: s rule: less_induct)
  case less
  let ?c = "content (ln_reader s)" and ?n = "length (ln_bytes s)"
  show ?case
  proof (cases rule: until_readE [OF assms(1) less.prems(1), of 10 "ln_bytes s" "ln_read s", case_names ok err pending])
    case (err e t)
    with assms(2) show ?thesis by blast
  next
    case (pending k t)
    define s' where "s' = s\<lparr>ln_reader := fst t, ln_bytes := fst (snd t), ln_read := snd (snd t)\<rparr>"
    have "lines_poll_next memchr fill consume s = ret (Pending, s')"
      using pending(1) by (simp add: lines_poll_next_def read_line_internal_def case_prod_beta s'_def)
    moreover have same: "ln_bytes s' @ content (ln_reader s') = ln_bytes s @ ?c" using pending by (simp add: s'_def)
    have "\<exists>t. ends (lines_poll_next memchr fill consume) s'
        (map (\<lambda>l. Inr (strip_newline l)) (raw_lines (ln_bytes s' @ content (ln_reader s')))) t"
    proof (rule less.hyps)
      show "lag (ln_reader s') + length (ln_bytes s' @ content (ln_reader s')) < lag (ln_reader s) + length (ln_bytes s @ ?c)"
        unfolding same using pending(3) by (simp add: s'_def)
      show "\<forall>l \<in> set (raw_lines (ln_bytes s' @ content (ln_reader s'))). utf8_valid l" unfolding same by (rule less.prems)
      show "inv (ln_reader s')" "ln_buf s' = []" "ln_read s' = length (ln_bytes s')" "10 \<notin> set (ln_bytes s')"
        using pending less.prems by (auto simp: s'_def)
    qed
    ultimately show ?thesis unfolding same by (blast intro: ends_pend)
  next
    case (ok m t)
    define line where "line = ln_bytes s @ until 10 ?c"
    have line: "line = until 10 (ln_bytes s @ ?c)" using less.prems(4) by (simp add: line_def until_append)
    have rest: "content (fst t) = drop (length line) (ln_bytes s @ ?c)" using ok(5) by (simp add: line_def)
    have m: "m = length line" using ok(6) less.prems(3) by (simp add: line_def)
    have bytes: "fst (snd t) = line" using ok(4) by (simp add: line_def)
    show ?thesis
    proof (cases "ln_bytes s @ ?c = []")
      case True
      then have "line = []" by (simp add: line_def)
      then have "lines_poll_next memchr fill consume s = ret (Ready None, s\<lparr>ln_reader := fst t, ln_bytes := [], ln_read := 0, ln_buf := []\<rparr>)"
        using ok(1,7) m bytes less.prems(2)
        by (simp add: lines_poll_next_def read_line_internal_def case_prod_beta Let_def)
      with True show ?thesis by (auto intro: ends_end)
    next
      case False
      then have ne: "line \<noteq> []" unfolding line by simp
      have lines: "raw_lines (ln_bytes s @ ?c) = line # raw_lines (content (fst t))"
        using raw_lines_step [OF False] line rest by simp
      then have "utf8_valid line" using less.prems(5) by simp
      define s' where "s' = s\<lparr>ln_reader := fst t, ln_bytes := [], ln_read := 0, ln_buf := []\<rparr>"
      have "lines_poll_next memchr fill consume s = ret (Ready (Some (Inr (strip_newline line))), s')"
        using ok(1,7) m bytes less.prems(2) ne \<open>utf8_valid line\<close>
        by (simp add: lines_poll_next_def read_line_internal_def case_prod_beta Let_def s'_def)
      moreover have "\<exists>t'. ends (lines_poll_next memchr fill consume) s'
          (map (\<lambda>l. Inr (strip_newline l)) (raw_lines (ln_bytes s' @ content (ln_reader s')))) t'"
      proof (rule less.hyps)
        have "length (content (fst t)) < length (ln_bytes s @ ?c)" using rest ne False by (metis diff_less length_drop length_greater_0_conv)
        then show "lag (ln_reader s') + length (ln_bytes s' @ content (ln_reader s')) < lag (ln_reader s) + length (ln_bytes s @ ?c)"
          using ok(3) by (simp add: s'_def)
        show "\<forall>l \<in> set (raw_lines (ln_bytes s' @ content (ln_reader s'))). utf8_valid l"
          using less.prems(5) lines by (simp add: s'_def)
        show "inv (ln_reader s')" "ln_buf s' = []" "ln_read s' = length (ln_bytes s')" "10 \<notin> set (ln_bytes s')"
          using ok(2) by (simp_all add: s'_def)
      qed
      ultimately show ?thesis unfolding lines by (auto simp: s'_def intro: ends_item)
    qed
  qed
qed

end

lemma utf8_append: "utf8_valid xs \<Longrightarrow> utf8_valid ys \<Longrightarrow> utf8_valid (xs @ ys)"
proof (induction xs rule: utf8_valid.induct)
  case (2 a bs)
  show ?case
  proof (cases "a < 0x80")
    case True
    with 2 show ?thesis by simp
  next
    case a: False
    show ?thesis
    proof (cases "0xC2 \<le> a \<and> a \<le> 0xDF")
      case True
      with 2(5,6) a obtain b cs where bs: "bs = b # cs" "utf8_cont b" "utf8_valid cs" by (auto split: list.splits)
      have "utf8_valid (cs @ ys)" using 2(2) [OF a True, of b cs] 2(6) bs by simp
      then show ?thesis unfolding bs(1) append_Cons
        by (subst utf8_valid.simps(2)) (use a True bs(2) in \<open>simp del: utf8_valid.simps\<close>)
    next
      case b: False
      show ?thesis
      proof (cases "0xE0 \<le> a \<and> a \<le> 0xEF")
        case True
        with 2(5,6) a b obtain x y cs where bs: "bs = x # y # cs" "utf8_second a x" "utf8_cont y" "utf8_valid cs"
          by (auto split: list.splits)
        have "utf8_valid (cs @ ys)" using 2(3) [OF a b True, of x _ y cs] 2(6) bs by simp
        then show ?thesis unfolding bs(1) append_Cons
          by (subst utf8_valid.simps(2)) (use a b True bs(2,3) in \<open>auto simp del: utf8_valid.simps\<close>)
      next
        case c: False
        with 2(5,6) a b obtain x y z cs where bs: "bs = x # y # z # cs" "utf8_second a x" "utf8_cont y" "utf8_cont z" "utf8_valid cs"
          "0xF0 \<le> a \<and> a \<le> 0xF4"
          by (auto split: list.splits if_splits)
        have "utf8_valid (cs @ ys)" using 2(4) [OF a b c, of x _ y _ z cs] 2(6) bs by simp
        then show ?thesis unfolding bs(1) append_Cons
          by (subst utf8_valid.simps(2)) (use a b c bs(2-) in \<open>auto simp del: utf8_valid.simps\<close>)
      qed
    qed
  qed
qed simp

text \<open>
  After an error of the reader, \<open>Lines\<close> mixes its two buffers up: the bytes read before the error are swapped
  into \<open>buf\<close>, from there into \<open>bytes\<close> by the next line, and come out in front of the line after it.
\<close>

fun script_fill :: "(io_error + byte list) list fill_fn" where
  "script_fill [] = ret (Ready (Inr []), [])"
| "script_fill (Inl e # rest) = ret (Ready (Inl e), rest)"
| "script_fill (Inr bs # rest) = ret (Ready (Inr bs), Inr bs # rest)"

fun script_consume :: "(io_error + byte list) list consume_fn" where
  "script_consume n (Inr bs # rest) = ret (if n < length bs then Inr (drop n bs) # rest else rest)"
| "script_consume n s = ret s"

fun find_byte :: "byte \<Rightarrow> byte list \<Rightarrow> nat option" where
  "find_byte b [] = None"
| "find_byte b (x # xs) = (if x = b then Some 0 else map_option Suc (find_byte b xs))"

lemma find_byte_law: "memchr_law find_byte"
proof -
  have "case find_byte b xs of None \<Rightarrow> b \<notin> set xs | Some i \<Rightarrow> i < length xs \<and> xs ! i = b \<and> b \<notin> set (take i xs)" for b xs
    by (induction xs) (auto split: option.splits)
  then show ?thesis by (simp add: memchr_law_def)
qed

lemma lines_after_error:
  "gives (lines_poll_next find_byte script_fill script_consume)
     (lines_new [Inr [97, 98], Inl (OtherError 0), Inr [99, 10], Inr [100, 10]])
     [Inl (OtherError 0), Inr [99], Inr [97, 98, 100]] (lines_new [])"
proof -
  let ?p = "lines_poll_next find_byte script_fill script_consume"
  let ?s1 = "\<lparr>ln_reader = [Inr [99, 10], Inr [100, 10]], ln_buf = [97, 98], ln_bytes = [], ln_read = 0\<rparr>"
  let ?s2 = "\<lparr>ln_reader = [Inr [100, 10]], ln_buf = [], ln_bytes = [97, 98], ln_read = 0\<rparr>"
  note step = lines_poll_next_def read_line_internal_def lines_new_def strip_newline_def ends_with_def Let_def
  have u1: "read_until_internal find_byte script_fill script_consume 10 ([Inl (OtherError 0), Inr [99, 10], Inr [100, 10]], [97, 98], n) =
      ret (Ready (Inl (OtherError 0)), ([Inr [99, 10], Inr [100, 10]], [97, 98], n))" for n
    by (subst read_until_internal.simps) simp
  have "read_until_internal find_byte script_fill script_consume 10 ([Inr [97, 98], Inl (OtherError 0), Inr [99, 10], Inr [100, 10]], [], 0) =
      ret (Ready (Inl (OtherError 0)), ([Inr [99, 10], Inr [100, 10]], [97, 98], 2))"
    by (subst read_until_internal.simps) (simp add: u1)
  then have 1: "?p (lines_new [Inr [97, 98], Inl (OtherError 0), Inr [99, 10], Inr [100, 10]]) = ret (Ready (Some (Inl (OtherError 0))), ?s1)"
    by (simp add: step)
  have "read_until_internal find_byte script_fill script_consume 10 ([Inr [99, 10], Inr [100, 10]], [], 0) =
      ret (Ready (Inr 2), ([Inr [100, 10]], [99, 10], 2))"
    by (subst read_until_internal.simps) simp
  then have 2: "?p ?s1 = ret (Ready (Some (Inr [99])), ?s2)" by (simp add: step)
  have "read_until_internal find_byte script_fill script_consume 10 ([Inr [100, 10]], [97, 98], 0) =
      ret (Ready (Inr 2), ([], [97, 98, 100, 10], 2))"
    by (subst read_until_internal.simps) simp
  then have 3: "?p ?s2 = ret (Ready (Some (Inr [97, 98, 100])), lines_new [])" by (simp add: step)
  show ?thesis
    by (rule gives_item [of ?p, OF 1], rule gives_item [of ?p, OF 2], rule gives_item [of ?p, OF 3], rule gives_stop)
qed

end
