(* ===== verification/Io_Write.thy ===== *)
theory Io_Write
  imports Io_Read
begin

text \<open>
  The writers of \<open>futures-util/src/io\<close>: \<open>Cursor\<close>, \<open>Sink\<close>, \<open>BufWriter\<close> and \<open>LineWriter\<close>. The locale
  \<open>byte_writer\<close> states what \<open>AsyncWrite\<close> promises, in terms of the bytes written so far and of what is true
  after a flush; a buffered writer over a writer is one again, its bytes being those of the writer inside and then
  its buffer. \<open>memrchr\<close>, as \<open>memchr\<close>, is an argument.
\<close>

section \<open>The trait\<close>

type_synonym 'w write_fn = "'w \<Rightarrow> byte list \<Rightarrow> (nat io poll \<times> 'w) comp"
type_synonym 'w flush_fn = "'w \<Rightarrow> (unit io poll \<times> 'w) comp"

text \<open>One \<open>poll_write\<close> of \<open>bs\<close>: it takes a beginning of them, or nothing.\<close>

definition write_step :: "('w \<Rightarrow> byte list) \<Rightarrow> ('w \<Rightarrow> nat) \<Rightarrow> 'w \<Rightarrow> byte list \<Rightarrow> nat io poll \<Rightarrow> 'w \<Rightarrow> bool" where
  "write_step written lag w bs p w' \<longleftrightarrow>
     (case p of
        Ready (Inr n) \<Rightarrow> n \<le> length bs \<and> written w' = written w @ take n bs \<and> lag w' \<le> lag w
      | Ready (Inl e) \<Rightarrow> written w' = written w \<and> lag w' \<le> lag w
      | Pending \<Rightarrow> written w' = written w \<and> lag w' < lag w)"

definition flush_step ::
  "('w \<Rightarrow> byte list) \<Rightarrow> ('w \<Rightarrow> bool) \<Rightarrow> ('w \<Rightarrow> nat) \<Rightarrow> 'w \<Rightarrow> unit io poll \<Rightarrow> 'w \<Rightarrow> bool" where
  "flush_step written flushed lag w p w' \<longleftrightarrow>
     written w' = written w \<and>
     (case p of
        Ready (Inr _) \<Rightarrow> lag w' \<le> lag w \<and> flushed w'
      | Ready (Inl _) \<Rightarrow> lag w' \<le> lag w
      | Pending \<Rightarrow> lag w' < lag w)"

lemma write_step_simps [simp]:
  "write_step written lag w bs (Ready (Inr n)) w' \<longleftrightarrow> n \<le> length bs \<and> written w' = written w @ take n bs \<and> lag w' \<le> lag w"
  "write_step written lag w bs (Ready (Inl e)) w' \<longleftrightarrow> written w' = written w \<and> lag w' \<le> lag w"
  "write_step written lag w bs Pending w' \<longleftrightarrow> written w' = written w \<and> lag w' < lag w"
  by (simp_all add: write_step_def)

lemma flush_step_simps [simp]:
  "flush_step written flushed lag w (Ready (Inr u)) w' \<longleftrightarrow> written w' = written w \<and> lag w' \<le> lag w \<and> flushed w'"
  "flush_step written flushed lag w (Ready (Inl e)) w' \<longleftrightarrow> written w' = written w \<and> lag w' \<le> lag w"
  "flush_step written flushed lag w Pending w' \<longleftrightarrow> written w' = written w \<and> lag w' < lag w"
  by (simp_all add: flush_step_def)

locale byte_writer =
  fixes wr :: "'w write_fn" and fl :: "'w flush_fn" and inv :: "'w \<Rightarrow> bool" and written :: "'w \<Rightarrow> byte list"
    and flushed :: "'w \<Rightarrow> bool" and lag :: "'w \<Rightarrow> nat"
  assumes wr: "inv w \<Longrightarrow> \<exists>p w'. wr w bs = ret (p, w') \<and> inv w' \<and> write_step written lag w bs p w'"
    and fl: "inv w \<Longrightarrow> \<exists>p w'. fl w = ret (p, w') \<and> inv w' \<and> flush_step written flushed lag w p w'"
begin

definition wr_fails :: "io_error \<Rightarrow> bool" where
  "wr_fails e \<longleftrightarrow> (\<exists>w bs w'. inv w \<and> wr w bs = ret (Ready (Inl e), w')) \<or> (\<exists>w w'. inv w \<and> fl w = ret (Ready (Inl e), w'))"

lemma wr_cases:
  assumes "inv w"
  obtains (ok) n w' where "wr w bs = ret (Ready (Inr n), w')" "inv w'" "n \<le> length bs" "written w' = written w @ take n bs" "lag w' \<le> lag w"
    | (err) e w' where "wr w bs = ret (Ready (Inl e), w')" "inv w'" "written w' = written w" "lag w' \<le> lag w" "wr_fails e"
    | (pending) w' where "wr w bs = ret (Pending, w')" "inv w'" "written w' = written w" "lag w' < lag w"
proof -
  from wr [OF assms, of bs] obtain p w' where p: "wr w bs = ret (p, w')" "inv w'" "write_step written lag w bs p w'" by blast
  show thesis
  proof (cases p)
    case (Ready x)
    show thesis
    proof (cases x)
      case (Inl e)
      with p Ready have "wr w bs = ret (Ready (Inl e), w')" by simp
      moreover from this assms have "wr_fails e" unfolding wr_fails_def by blast
      ultimately show thesis using err p Ready Inl by simp
    next
      case (Inr n)
      with p Ready ok show thesis by simp
    qed
  next
    case Pending
    with p pending show thesis by simp
  qed
qed

lemma fl_cases:
  assumes "inv w"
  obtains (ok) w' where "fl w = ret (Ready (Inr ()), w')" "inv w'" "written w' = written w" "lag w' \<le> lag w" "flushed w'"
    | (err) e w' where "fl w = ret (Ready (Inl e), w')" "inv w'" "written w' = written w" "lag w' \<le> lag w" "wr_fails e"
    | (pending) w' where "fl w = ret (Pending, w')" "inv w'" "written w' = written w" "lag w' < lag w"
proof -
  from fl [OF assms] obtain p w' where p: "fl w = ret (p, w')" "inv w'" "flush_step written flushed lag w p w'" by blast
  show thesis
  proof (cases p)
    case (Ready x)
    show thesis
    proof (cases x)
      case (Inl e)
      with p Ready have "fl w = ret (Ready (Inl e), w')" by simp
      moreover from this assms have "wr_fails e" unfolding wr_fails_def by blast
      ultimately show thesis using err p Ready Inl by simp
    next
      case (Inr u)
      with p Ready ok show thesis by simp
    qed
  next
    case Pending
    with p pending show thesis by simp
  qed
qed

end

section \<open>Cursor and Sink\<close>

text \<open>\<open>Cursor<&mut [u8]>\<close> and \<open>Cursor<Box<[u8]>>\<close>: writing stops at the end of the slice.\<close>

definition cursor_slice_poll_write :: "cursor write_fn" where
  "cursor_slice_poll_write this bs =
     (let pos = min (unat (cu_pos this)) (length (cu_inner this));
          amt = min (length bs) (length (cu_inner this) - pos)
      in ret (Ready (Inr amt),
           this\<lparr>cu_inner := take pos (cu_inner this) @ take amt bs @ drop (pos + amt) (cu_inner this),
                cu_pos := cu_pos this + word_of_nat amt\<rparr>))"

text \<open>\<open>Cursor<Vec<u8>>\<close>: the vector grows, by zeros up to the position.\<close>

definition cursor_vec_poll_write :: "cursor write_fn" where
  "cursor_vec_poll_write this bs =
     (let pos = unat (cu_pos this); v = cu_inner this @ replicate (pos - length (cu_inner this)) 0
      in ret (Ready (Inr (length bs)),
           this\<lparr>cu_inner := take pos v @ bs @ drop (pos + length bs) v, cu_pos := cu_pos this + word_of_nat (length bs)\<rparr>))"

definition cursor_poll_flush :: "cursor flush_fn" where
  "cursor_poll_flush this = ret (Ready (Inr ()), this)"

definition cursor_poll_close :: "cursor flush_fn" where
  "cursor_poll_close this = cursor_poll_flush this"

definition io_sink_poll_write :: "unit write_fn" where
  "io_sink_poll_write this buf = ret (Ready (Inr (length buf)), this)"

definition io_sink_poll_flush :: "unit flush_fn" where
  "io_sink_poll_flush this = ret (Ready (Inr ()), this)"

definition cursor_written :: "cursor \<Rightarrow> byte list" where
  "cursor_written c = take (unat (cu_pos c)) (cu_inner c)"

definition cursor_in :: "cursor \<Rightarrow> bool" where
  "cursor_in c \<longleftrightarrow> unat (cu_pos c) \<le> length (cu_inner c) \<and> length (cu_inner c) < 2 ^ 63"

interpretation slice: byte_writer cursor_slice_poll_write cursor_poll_flush cursor_in cursor_written "\<lambda>_. True" "\<lambda>_. 0"
proof unfold_locales
  fix c :: cursor and bs :: "byte list"
  assume c: "cursor_in c"
  define pos where "pos = unat (cu_pos c)"
  define amt where "amt = min (length bs) (length (cu_inner c) - pos)"
  have le: "pos + amt \<le> length (cu_inner c)" "length (cu_inner c) < 2 ^ 63" "amt \<le> length bs"
    using c by (auto simp: cursor_in_def pos_def amt_def)
  have "pos + unat (word_of_nat amt :: usize) < 2 ^ 64" using le by (simp add: unat_of_nat)
  then have pos': "unat (cu_pos c + word_of_nat amt) = pos + amt"
    using le by (simp add: unat_add_usize pos_def unat_of_nat)
  define d where "d = c\<lparr>cu_inner := take pos (cu_inner c) @ take amt bs @ drop (pos + amt) (cu_inner c), cu_pos := cu_pos c + word_of_nat amt\<rparr>"
  have min: "min pos (length (cu_inner c)) = pos" using le by simp
  have "cursor_slice_poll_write c bs = ret (Ready (Inr amt), d)"
    unfolding cursor_slice_poll_write_def d_def Let_def pos_def [symmetric] min amt_def [symmetric] ..
  moreover have "cursor_in d" using le pos' by (auto simp: cursor_in_def d_def)
  moreover have "cursor_written d = cursor_written c @ take amt bs"
    using le pos' by (simp add: cursor_written_def d_def pos_def [symmetric])
  ultimately show "\<exists>p w'. cursor_slice_poll_write c bs = ret (p, w') \<and> cursor_in w' \<and> write_step cursor_written (\<lambda>_. 0) c bs p w'"
    using le by auto
  show "\<exists>p w'. cursor_poll_flush c = ret (p, w') \<and> cursor_in w' \<and> flush_step cursor_written (\<lambda>_. True) (\<lambda>_. 0) c p w'"
    using c by (simp add: cursor_poll_flush_def)
qed

section \<open>BufWriter\<close>

record 'w BufWriter =
  bw_inner :: 'w
  bw_buf :: "byte list"
  bw_written :: nat
  bw_capacity :: nat

definition bw_with_capacity :: "nat \<Rightarrow> 'w \<Rightarrow> 'w BufWriter" where
  "bw_with_capacity cap inner = \<lparr>bw_inner = inner, bw_buf = [], bw_written = 0, bw_capacity = cap\<rparr>"

definition bw_new :: "'w \<Rightarrow> 'w BufWriter" where
  "bw_new inner = bw_with_capacity DEFAULT_BUF_SIZE inner"

definition bw_spare_capacity :: "'w BufWriter \<Rightarrow> nat" where
  "bw_spare_capacity this = bw_capacity this - length (bw_buf this)"

text \<open>The end of \<open>flush_buf\<close>: what was written is drained.\<close>

definition bw_drain :: "unit io \<Rightarrow> 'w BufWriter \<Rightarrow> (unit io poll \<times> 'w BufWriter) comp" where
  "bw_drain r this =
     assertc (bw_written this \<le> length (bw_buf this)) ''range end index out of range''
       (let this = (if 0 < bw_written this then this\<lparr>bw_buf := drop (bw_written this) (bw_buf this)\<rparr> else this)
        in ret (Ready r, this\<lparr>bw_written := 0\<rparr>))"

partial_function (option) bw_flush_buf :: "'w write_fn \<Rightarrow> 'w BufWriter \<Rightarrow> (unit io poll \<times> 'w BufWriter) comp" where
  "bw_flush_buf wr this =
     (if bw_written this < length (bw_buf this) then
        ready_poll (wr (bw_inner this) (drop (bw_written this) (bw_buf this))) (\<lambda>w. this\<lparr>bw_inner := w\<rparr>) (\<lambda>res this.
          case res of
            Inr n \<Rightarrow> if n = 0 then bw_drain (Inl WriteZero) this
                     else bw_flush_buf wr (this\<lparr>bw_written := bw_written this + n\<rparr>)
          | Inl e \<Rightarrow> bw_drain (Inl e) this)
      else bw_drain (Inr ()) this)"

definition bw_inner_poll_write :: "'w write_fn \<Rightarrow> 'w BufWriter write_fn" where
  "bw_inner_poll_write wr this bs = poll_with (wr (bw_inner this) bs) (\<lambda>w. this\<lparr>bw_inner := w\<rparr>) (\<lambda>p this. ret (p, this))"

definition bw_poll_write :: "'w write_fn \<Rightarrow> 'w BufWriter write_fn" where
  "bw_poll_write wr this bs =
     (let rest = (\<lambda>this :: 'w BufWriter.
        if bw_capacity this \<le> length bs then bw_inner_poll_write wr this bs
        else ret (Ready (Inr (length bs)), this\<lparr>bw_buf := bw_buf this @ bs\<rparr>))
      in if bw_capacity this < length (bw_buf this) + length bs
         then ready_try (bw_flush_buf wr this) id (\<lambda>_ this. rest this)
         else rest this)"

definition bw_poll_flush :: "'w write_fn \<Rightarrow> 'w flush_fn \<Rightarrow> 'w BufWriter flush_fn" where
  "bw_poll_flush wr fl this =
     ready_try (bw_flush_buf wr this) id (\<lambda>_ this.
       poll_with (fl (bw_inner this)) (\<lambda>w. this\<lparr>bw_inner := w\<rparr>) (\<lambda>p this. ret (p, this)))"

definition bw_poll_close :: "'w write_fn \<Rightarrow> 'w flush_fn \<Rightarrow> 'w BufWriter flush_fn" where
  "bw_poll_close wr close this =
     ready_try (bw_flush_buf wr this) id (\<lambda>_ this.
       poll_with (close (bw_inner this)) (\<lambda>w. this\<lparr>bw_inner := w\<rparr>) (\<lambda>p this. ret (p, this)))"

text \<open>\<open>write_to_buf\<close>: as much as fits.\<close>

definition bw_write_to_buf :: "byte list \<Rightarrow> 'w BufWriter \<Rightarrow> nat \<times> 'w BufWriter" where
  "bw_write_to_buf bs this =
     (let amt = min (bw_spare_capacity this) (length bs) in (amt, this\<lparr>bw_buf := bw_buf this @ take amt bs\<rparr>))"

definition bw_out :: "('w \<Rightarrow> byte list) \<Rightarrow> 'w BufWriter \<Rightarrow> byte list" where
  "bw_out written this = written (bw_inner this) @ drop (bw_written this) (bw_buf this)"

definition bw_flushed_out :: "('w \<Rightarrow> bool) \<Rightarrow> 'w BufWriter \<Rightarrow> bool" where
  "bw_flushed_out flushed this \<longleftrightarrow> bw_buf this = [] \<and> flushed (bw_inner this)"

definition bw_ok :: "('w \<Rightarrow> bool) \<Rightarrow> 'w BufWriter \<Rightarrow> bool" where
  "bw_ok iv this \<longleftrightarrow> iv (bw_inner this) \<and> bw_written this \<le> length (bw_buf this) \<and> length (bw_buf this) \<le> bw_capacity this"

lemma drops_itself [simp]: "\<exists>k. xs = drop k xs"
  by (rule exI [of _ 0]) simp

context byte_writer begin

text \<open>One call of \<open>flush_buf\<close>: after \<open>Ok\<close> everything is written and the buffer is empty.\<close>

definition bw_flushed :: "'w BufWriter \<Rightarrow> unit io poll \<Rightarrow> 'w BufWriter \<Rightarrow> bool" where
  "bw_flushed b p b' \<longleftrightarrow> bw_ok inv b' \<and> bw_out written b' = bw_out written b \<and> bw_capacity b' = bw_capacity b
     \<and> (\<exists>k. bw_buf b' = drop k (bw_buf b)) \<and> lag (bw_inner b') \<le> lag (bw_inner b) \<and> (p = Pending \<longrightarrow> lag (bw_inner b') < lag (bw_inner b))
     \<and> (p = Ready (Inr ()) \<longrightarrow> bw_buf b' = [] \<and> bw_written b' = 0)
     \<and> (\<forall>e. p = Ready (Inl e) \<longrightarrow> bw_written b' = 0 \<and> (wr_fails e \<or> e = WriteZero))"

lemma bw_drain_flushed:
  assumes "bw_ok inv b" and "r = Inr () \<Longrightarrow> bw_written b = length (bw_buf b)" and "\<And>e. r = Inl e \<Longrightarrow> wr_fails e \<or> e = WriteZero"
  shows "\<exists>b'. bw_drain r b = ret (Ready r, b') \<and> bw_flushed b (Ready r) b'"
proof -
  define b' where "b' = (if 0 < bw_written b then b\<lparr>bw_buf := drop (bw_written b) (bw_buf b)\<rparr> else b)\<lparr>bw_written := 0\<rparr>"
  have "bw_drain r b = ret (Ready r, b')" using assms(1) by (simp add: bw_drain_def b'_def Let_def bw_ok_def)
  moreover have "bw_flushed b (Ready r) b'"
    using assms by (auto simp: bw_flushed_def bw_ok_def bw_out_def b'_def)
  ultimately show ?thesis by blast
qed

lemma bw_flush_buf_step:
  assumes "bw_ok inv b"
  shows "\<exists>p b'. bw_flush_buf wr b = ret (p, b') \<and> bw_flushed b p b'"
  using assms
proof (induction "length (bw_buf b) - bw_written b" arbitrary: b rule: less_induct)
  case less
  show ?case
  proof (cases "bw_written b < length (bw_buf b)")
    case False
    then have "bw_flush_buf wr b = bw_drain (Inr ()) b" by (subst bw_flush_buf.simps) simp
    moreover have "bw_written b = length (bw_buf b)" using False less.prems by (simp add: bw_ok_def)
    ultimately show ?thesis using bw_drain_flushed [OF less.prems, of "Inr ()"] by fastforce
  next
    case True
    have inv: "inv (bw_inner b)" using less.prems by (simp add: bw_ok_def)
    show ?thesis
      using inv
    proof (cases rule: wr_cases [where bs = "drop (bw_written b) (bw_buf b)"])
      case (pending w')
      define b' where "b' = b\<lparr>bw_inner := w'\<rparr>"
      have "bw_flush_buf wr b = ret (Pending, b')" using True pending by (subst bw_flush_buf.simps) (simp add: b'_def)
      moreover have "bw_flushed b Pending b'" using pending less.prems by (simp add: bw_flushed_def b'_def bw_ok_def bw_out_def)
      ultimately show ?thesis by blast
    next
      case (err e w')
      define b' where "b' = b\<lparr>bw_inner := w'\<rparr>"
      have run: "bw_flush_buf wr b = bw_drain (Inl e) b'" using True err by (subst bw_flush_buf.simps) (simp add: b'_def)
      have ok: "bw_ok inv b'" using err less.prems by (simp add: b'_def bw_ok_def)
      obtain c where "bw_drain (Inl e) b' = ret (Ready (Inl e), c)" "bw_flushed b' (Ready (Inl e)) c"
        using bw_drain_flushed [OF ok, of "Inl e"] err by auto
      moreover have "bw_flushed b (Ready (Inl e)) c" using \<open>bw_flushed b' _ c\<close> err
        by (auto simp: bw_flushed_def b'_def bw_out_def)
      ultimately show ?thesis using run by auto
    next
      case (ok n w')
      define b' where "b' = b\<lparr>bw_inner := w', bw_written := bw_written b + n\<rparr>"
      have okb: "bw_ok inv b'" using ok less.prems True by (simp add: b'_def bw_ok_def)
      have "take n (drop (bw_written b) (bw_buf b)) @ drop (bw_written b + n) (bw_buf b) = drop (bw_written b) (bw_buf b)"
        by (metis append_take_drop_id drop_drop add.commute)
      then have out: "bw_out written b' = bw_out written b" using ok by (simp add: bw_out_def b'_def)
      show ?thesis
      proof (cases "n = 0")
        case True
        then have run: "bw_flush_buf wr b = bw_drain (Inl WriteZero) b'"
          using \<open>bw_written b < _\<close> ok by (subst bw_flush_buf.simps) (simp add: b'_def)
        obtain c where "bw_drain (Inl WriteZero) b' = ret (Ready (Inl WriteZero), c)" "bw_flushed b' (Ready (Inl WriteZero)) c"
          using bw_drain_flushed [OF okb, of "Inl WriteZero"] by auto
        moreover have "bw_flushed b (Ready (Inl WriteZero)) c" using \<open>bw_flushed b' _ c\<close> ok out
          by (auto simp: bw_flushed_def b'_def)
        ultimately show ?thesis using run by auto
      next
        case False
        then have run: "bw_flush_buf wr b = bw_flush_buf wr b'"
          using \<open>bw_written b < _\<close> ok by (subst bw_flush_buf.simps) (simp add: b'_def)
        have "length (bw_buf b') - bw_written b' < length (bw_buf b) - bw_written b" using False True by (simp add: b'_def)
        from less.hyps [OF this okb] obtain p c where "bw_flush_buf wr b' = ret (p, c)" "bw_flushed b' p c" by blast
        moreover have "bw_flushed b p c" using \<open>bw_flushed b' p c\<close> ok out by (auto simp: bw_flushed_def b'_def)
        ultimately show ?thesis using run by auto
      qed
    qed
  qed
qed

text \<open>A direct write to the writer inside, when the buffer holds nothing.\<close>

lemma bw_direct_step:
  assumes "bw_ok inv b" and "bw_buf b = []"
  shows "\<exists>p b'. bw_inner_poll_write wr b bs = ret (p, b') \<and> bw_ok inv b' \<and> bw_buf b' = [] \<and> bw_capacity b' = bw_capacity b
    \<and> write_step (bw_out written) (\<lambda>b. lag (bw_inner b)) b bs p b'"
proof -
  have "inv (bw_inner b)" using assms by (simp add: bw_ok_def)
  from wr [OF this, of bs] obtain p w' where p: "wr (bw_inner b) bs = ret (p, w')" "inv w'" "write_step written lag (bw_inner b) bs p w'"
    by blast
  define b' where "b' = b\<lparr>bw_inner := w'\<rparr>"
  have "write_step (bw_out written) (\<lambda>b. lag (bw_inner b)) b bs p b'"
    using p(3) assms(2) by (simp add: write_step_def bw_out_def b'_def split: poll.splits sum.splits)
  moreover have "bw_inner_poll_write wr b bs = ret (p, b')" using p(1) by (simp add: bw_inner_poll_write_def b'_def)
  moreover have "bw_ok inv b'" using assms p(2) by (simp add: bw_ok_def b'_def)
  moreover have "bw_buf b' = []" "bw_capacity b' = bw_capacity b" using assms(2) by (simp_all add: b'_def)
  ultimately show ?thesis by blast
qed

lemma bw_write_step:
  assumes "bw_ok inv b"
  shows "\<exists>p b'. bw_poll_write wr b bs = ret (p, b') \<and> bw_ok inv b'
    \<and> write_step (bw_out written) (\<lambda>b. lag (bw_inner b)) b bs p b'"
proof -
  have rest: "\<exists>p b'. (if bw_capacity c \<le> length bs then bw_inner_poll_write wr c bs
        else ret (Ready (Inr (length bs)), c\<lparr>bw_buf := bw_buf c @ bs\<rparr>)) = ret (p, b')
      \<and> bw_ok inv b' \<and> write_step (bw_out written) (\<lambda>b. lag (bw_inner b)) c bs p b'"
    if "bw_ok inv c" "bw_buf c = [] \<or> length (bw_buf c) + length bs \<le> bw_capacity c" for c
  proof (cases "bw_capacity c \<le> length bs")
    case True
    then have "bw_buf c = []" using that(2) by (metis add_le_same_cancel2 le_trans le_zero_eq length_0_conv)
    with True bw_direct_step [OF that(1) this, of bs] show ?thesis by auto
  next
    case False
    with that show ?thesis by (auto simp: bw_ok_def bw_out_def)
  qed
  show ?thesis
  proof (cases "bw_capacity b < length (bw_buf b) + length bs")
    case False
    with rest [OF assms] show ?thesis by (simp add: bw_poll_write_def)
  next
    case True
    from bw_flush_buf_step [OF assms] obtain p c where c: "bw_flush_buf wr b = ret (p, c)" "bw_flushed b p c" by blast
    show ?thesis
    proof (cases p)
      case Pending
      with True c show ?thesis by (auto simp: bw_poll_write_def bw_flushed_def)
    next
      case (Ready x)
      show ?thesis
      proof (cases x)
        case (Inl e)
        with True c Ready show ?thesis by (auto simp: bw_poll_write_def bw_flushed_def)
      next
        case (Inr u)
        from c Ready Inr have s: "bw_ok inv c" "bw_buf c = []" "bw_out written c = bw_out written b" "lag (bw_inner c) \<le> lag (bw_inner b)"
          by (auto simp: bw_flushed_def)
        from rest [OF s(1)] s(2) obtain q b' where q: "(if bw_capacity c \<le> length bs then bw_inner_poll_write wr c bs
            else ret (Ready (Inr (length bs)), c\<lparr>bw_buf := bw_buf c @ bs\<rparr>)) = ret (q, b')"
          "bw_ok inv b'" "write_step (bw_out written) (\<lambda>b. lag (bw_inner b)) c bs q b'" by blast
        have "bw_poll_write wr b bs = ret (q, b')" using True c(1) Ready Inr q(1) by (simp add: bw_poll_write_def)
        moreover have "write_step (bw_out written) (\<lambda>b. lag (bw_inner b)) b bs q b'"
          using q(3) s(3,4) by (auto simp: write_step_def split: poll.splits sum.splits)
        ultimately show ?thesis using q(2) by blast
      qed
    qed
  qed
qed

text \<open>\<open>poll_flush\<close>: after \<open>Ok\<close> every byte accepted is in the writer inside.\<close>

lemma bw_flush_ok:
  assumes "bw_ok inv b"
  shows "\<exists>p b'. bw_poll_flush wr fl b = ret (p, b') \<and> bw_ok inv b' \<and> bw_capacity b' = bw_capacity b
    \<and> flush_step (bw_out written) (bw_flushed_out flushed) (\<lambda>b. lag (bw_inner b)) b p b'
    \<and> (p = Ready (Inr ()) \<longrightarrow> bw_buf b' = []) \<and> (\<exists>k. bw_buf b' = drop k (bw_buf b))
    \<and> (\<forall>e. p = Ready (Inl e) \<longrightarrow> wr_fails e \<or> e = WriteZero)"
proof -
  from bw_flush_buf_step [OF assms] obtain p c where c: "bw_flush_buf wr b = ret (p, c)" "bw_flushed b p c" by blast
  show ?thesis
  proof (cases "p = Ready (Inr ())")
    case False
    then have "bw_poll_flush wr fl b = ret (p, c)" using c(1) by (cases p; cases "case p of Ready x \<Rightarrow> x") (auto simp: bw_poll_flush_def)
    with False c(2) show ?thesis by (auto simp: bw_flushed_def flush_step_def split: poll.splits sum.splits)
  next
    case True
    with c have s: "bw_ok inv c" "bw_buf c = []" "bw_out written c = bw_out written b" "lag (bw_inner c) \<le> lag (bw_inner b)"
      "bw_capacity c = bw_capacity b" by (auto simp: bw_flushed_def)
    then have "inv (bw_inner c)" by (simp add: bw_ok_def)
    from fl [OF this] obtain q w' where q: "fl (bw_inner c) = ret (q, w')" "inv w'" "flush_step written flushed lag (bw_inner c) q w'" by blast
    define b' where "b' = c\<lparr>bw_inner := w'\<rparr>"
    have "bw_poll_flush wr fl b = ret (q, b')" using c(1) True q(1) by (simp add: bw_poll_flush_def b'_def)
    moreover have "flush_step (bw_out written) (bw_flushed_out flushed) (\<lambda>b. lag (bw_inner b)) b q b'"
      using q(3) s(2-4) by (auto simp: flush_step_def bw_out_def b'_def bw_flushed_out_def split: poll.splits sum.splits)
    moreover have "bw_ok inv b'" "bw_capacity b' = bw_capacity b" "bw_buf b' = []" using s q(2) by (simp_all add: bw_ok_def b'_def)
    moreover have "wr_fails e" if "q = Ready (Inl e)" for e
      using that q(1) \<open>inv (bw_inner c)\<close> unfolding wr_fails_def by blast
    moreover have "\<exists>k. bw_buf b' = drop k (bw_buf b)" by (rule exI [of _ "length (bw_buf b)"]) (simp add: \<open>bw_buf b' = []\<close>)
    ultimately show ?thesis by blast
  qed
qed

lemma bw_writer: "byte_writer (bw_poll_write wr) (bw_poll_flush wr fl) (bw_ok inv) (bw_out written) (bw_flushed_out flushed) (\<lambda>b. lag (bw_inner b))"
proof unfold_locales
  fix b bs
  assume b: "bw_ok inv b"
  show "\<exists>p b'. bw_poll_write wr b bs = ret (p, b') \<and> bw_ok inv b' \<and> write_step (bw_out written) (\<lambda>b. lag (bw_inner b)) b bs p b'"
    by (rule bw_write_step [OF b])
  show "\<exists>p b'. bw_poll_flush wr fl b = ret (p, b') \<and> bw_ok inv b' \<and> flush_step (bw_out written) (bw_flushed_out flushed) (\<lambda>b. lag (bw_inner b)) b p b'"
    using bw_flush_ok [OF b] by blast
qed

end

section \<open>LineWriter\<close>

record 'w LineWriter =
  lw_buf_writer :: "'w BufWriter"

definition lw_with_capacity :: "nat \<Rightarrow> 'w \<Rightarrow> 'w LineWriter" where
  "lw_with_capacity capacity inner = \<lparr>lw_buf_writer = bw_with_capacity capacity inner\<rparr>"

definition lw_new :: "'w \<Rightarrow> 'w LineWriter" where
  "lw_new inner = lw_with_capacity 1024 inner"

text \<open>\<open>memchr::memrchr\<close>: the last position of the byte.\<close>

definition memrchr_law :: "memchr_fn \<Rightarrow> bool" where
  "memrchr_law memrchr \<longleftrightarrow>
     (\<forall>b bs. memrchr b bs = None \<longrightarrow> b \<notin> set bs) \<and>
     (\<forall>b bs i. memrchr b bs = Some i \<longrightarrow> i < length bs \<and> bs ! i = b \<and> b \<notin> set (drop (Suc i) bs))"

definition lw_flush_if_completed_line :: "'w write_fn \<Rightarrow> 'w LineWriter flush_fn" where
  "lw_flush_if_completed_line wr this =
     (let buffer = bw_buf (lw_buf_writer this)
      in if buffer \<noteq> [] \<and> last buffer = 10
         then poll_with (bw_flush_buf wr (lw_buf_writer this)) (\<lambda>b. this\<lparr>lw_buf_writer := b\<rparr>) (\<lambda>p this. ret (p, this))
         else ret (Ready (Inr ()), this))"

text \<open>What of the bytes that the writer inside has not taken goes into the buffer.\<close>

definition lw_tail :: "memchr_fn \<Rightarrow> nat \<Rightarrow> nat \<Rightarrow> nat \<Rightarrow> byte list \<Rightarrow> byte list" where
  "lw_tail memrchr cap newline_index flushed buf =
     (if newline_index \<le> flushed then drop flushed buf
      else if newline_index - flushed \<le> cap then take (newline_index - flushed) (drop flushed buf)
      else let scan_area = take cap (drop flushed buf)
           in case memrchr 10 scan_area of
                Some newline_index \<Rightarrow> take (newline_index + 1) scan_area
              | None \<Rightarrow> scan_area)"

definition lw_poll_write :: "memchr_fn \<Rightarrow> 'w write_fn \<Rightarrow> 'w flush_fn \<Rightarrow> 'w LineWriter write_fn" where
  "lw_poll_write memrchr wr fl this buf =
     (case memrchr 10 buf of
        None \<Rightarrow>
          ready_try (lw_flush_if_completed_line wr this) id (\<lambda>_ this.
            poll_with (bw_poll_write wr (lw_buf_writer this) buf) (\<lambda>b. this\<lparr>lw_buf_writer := b\<rparr>) (\<lambda>p this. ret (p, this)))
      | Some i \<Rightarrow>
          let newline_index = i + 1 in
          ready_try (bw_poll_flush wr fl (lw_buf_writer this)) (\<lambda>b. this\<lparr>lw_buf_writer := b\<rparr>) (\<lambda>_ this.
            let lines = take newline_index buf in
            ready_try (bw_inner_poll_write wr (lw_buf_writer this) lines) (\<lambda>b. this\<lparr>lw_buf_writer := b\<rparr>) (\<lambda>flushed this.
              if flushed = 0 then ret (Ready (Inr 0), this)
              else assertc (flushed \<le> length buf) ''range start index out of range''
                (let tail = lw_tail memrchr (bw_capacity (lw_buf_writer this)) newline_index flushed buf;
                     (buffered, b) = bw_write_to_buf tail (lw_buf_writer this)
                 in ret (Ready (Inr (flushed + buffered)), this\<lparr>lw_buf_writer := b\<rparr>)))))"

definition lw_poll_flush :: "'w write_fn \<Rightarrow> 'w flush_fn \<Rightarrow> 'w LineWriter flush_fn" where
  "lw_poll_flush wr fl this =
     poll_with (bw_poll_flush wr fl (lw_buf_writer this)) (\<lambda>b. this\<lparr>lw_buf_writer := b\<rparr>) (\<lambda>p this. ret (p, this))"

definition lw_poll_close :: "'w write_fn \<Rightarrow> 'w flush_fn \<Rightarrow> 'w LineWriter flush_fn" where
  "lw_poll_close wr close this =
     poll_with (bw_poll_close wr close (lw_buf_writer this)) (\<lambda>b. this\<lparr>lw_buf_writer := b\<rparr>) (\<lambda>p this. ret (p, this))"

text \<open>A line that is complete does not wait behind a beginning of the next one.\<close>

definition lined :: "byte list \<Rightarrow> bool" where
  "lined xs \<longleftrightarrow> 10 \<in> set xs \<longrightarrow> last xs = 10"

definition lw_ok :: "('w \<Rightarrow> bool) \<Rightarrow> 'w LineWriter \<Rightarrow> bool" where
  "lw_ok iv this \<longleftrightarrow> bw_ok iv (lw_buf_writer this) \<and> lined (bw_buf (lw_buf_writer this))"

definition lw_out :: "('w \<Rightarrow> byte list) \<Rightarrow> 'w LineWriter \<Rightarrow> byte list" where
  "lw_out written this = bw_out written (lw_buf_writer this)"

lemma lined_drop: "lined xs \<Longrightarrow> lined (drop k xs)"
  by (cases "drop k xs = []") (auto simp: lined_def dest: in_set_dropD)

lemma lined_free: "10 \<notin> set xs \<Longrightarrow> lined xs"
  by (simp add: lined_def)

lemma memrchr_found:
  assumes "memrchr_law memrchr" and "memrchr b bs = Some i"
  shows "i < length bs" and "bs ! i = b" and "b \<notin> set (drop (Suc i) bs)"
  using assms unfolding memrchr_law_def by blast+

lemma memrchr_absent: "memrchr_law memrchr \<Longrightarrow> memrchr b bs = None \<Longrightarrow> b \<notin> set bs"
  unfolding memrchr_law_def by blast

text \<open>The tail is a beginning of what is left, fits a buffer unless it has no newline, and is \<open>lined\<close>.\<close>

lemma lw_tail_prefix: "\<exists>m. lw_tail memrchr cap nl k bs = take m (drop k bs)"
  by (auto simp: lw_tail_def Let_def take_take split: option.split intro: exI [of _ "length bs"] exI [of _ "nl - k"])

lemma lw_tail_lined:
  assumes "memrchr_law memrchr" and "memrchr 10 bs = Some i" and "k \<le> Suc i"
  shows "lined (take cap (lw_tail memrchr cap (Suc i) k bs))"
proof -
  note nl = memrchr_found [OF assms(1,2)]
  consider "Suc i \<le> k" | "k < Suc i" "Suc i - k \<le> cap" | "k < Suc i" "cap < Suc i - k" by linarith
  then show ?thesis
  proof cases
    case 1
    with assms(3) have "k = Suc i" by simp
    with nl(3) show ?thesis by (auto simp: lw_tail_def intro!: lined_free dest: in_set_takeD)
  next
    case 2
    then have "take cap (lw_tail memrchr cap (Suc i) k bs) = take (Suc i - k) (drop k bs)" by (simp add: lw_tail_def take_take min_def)
    also have "\<dots> = take (i - k) (drop k bs) @ [10]"
      using 2 nl(1,2) by (simp add: Suc_diff_le take_Suc_conv_app_nth)
    finally show ?thesis by (simp add: lined_def)
  next
    case 3
    let ?area = "take cap (drop k bs)"
    show ?thesis
    proof (cases "memrchr 10 ?area")
      case None
      with 3 memrchr_absent [OF assms(1) None] show ?thesis by (auto simp: lw_tail_def Let_def intro!: lined_free dest: in_set_takeD)
    next
      case (Some j)
      note found = memrchr_found [OF assms(1) Some]
      have "take cap (lw_tail memrchr cap (Suc i) k bs) = take (Suc j) ?area"
        using 3 Some by (auto simp: lw_tail_def Let_def take_take min_def)
      also have "\<dots> = take j ?area @ [10]" using found(1,2) by (simp add: take_Suc_conv_app_nth)
      finally show ?thesis by (simp add: lined_def)
    qed
  qed
qed

context byte_writer begin

lemma bw_write_to_buf_lines:
  assumes "bw_ok inv b" and "bw_buf b = []" and "tail = take m bs"
  obtains n b' where "bw_write_to_buf tail b = (n, b')" "bw_ok inv b'" "bw_buf b' = take (bw_capacity b) tail"
    "bw_out written b' = bw_out written b @ take n bs" "n \<le> length bs" "bw_inner b' = bw_inner b"
proof -
  define n where "n = min (bw_capacity b) (length tail)"
  define b' where "b' = b\<lparr>bw_buf := take n tail\<rparr>"
  have w: "bw_written b = 0" using assms(1,2) by (simp add: bw_ok_def)
  have n: "take n tail = take (bw_capacity b) tail" by (simp add: n_def min_def)
  have "take n tail = take n bs" "n \<le> length bs" using assms(3) by (auto simp: n_def take_take min_def)
  moreover have "bw_write_to_buf tail b = (n, b')"
    using assms(2) by (simp add: bw_write_to_buf_def bw_spare_capacity_def Let_def n_def b'_def)
  moreover have "bw_ok inv b'" using assms(1) w by (simp add: bw_ok_def b'_def n_def)
  ultimately show thesis using that [of n b'] n assms(2) w by (simp add: b'_def bw_out_def)
qed

lemma lw_flush_line_step:
  assumes "lw_ok inv l"
  shows "\<exists>p b. lw_flush_if_completed_line wr l = ret (p, l\<lparr>lw_buf_writer := b\<rparr>) \<and> bw_ok inv b \<and> lined (bw_buf b)
    \<and> bw_out written b = lw_out written l \<and> lag (bw_inner b) \<le> lag (bw_inner (lw_buf_writer l))
    \<and> (p = Pending \<longrightarrow> lag (bw_inner b) < lag (bw_inner (lw_buf_writer l)))
    \<and> (p = Ready (Inr ()) \<longrightarrow> 10 \<notin> set (bw_buf b))"
proof (cases "bw_buf (lw_buf_writer l) \<noteq> [] \<and> last (bw_buf (lw_buf_writer l)) = 10")
  case False
  then have "lw_flush_if_completed_line wr l = ret (Ready (Inr ()), l\<lparr>lw_buf_writer := lw_buf_writer l\<rparr>)"
    by (auto simp: lw_flush_if_completed_line_def Let_def)
  moreover have "10 \<notin> set (bw_buf (lw_buf_writer l))" using False assms by (auto simp: lw_ok_def lined_def)
  ultimately show ?thesis using assms
    by (intro exI [of _ "Ready (Inr ())"] exI [of _ "lw_buf_writer l"]) (simp add: lw_ok_def lw_out_def)
next
  case True
  have ok: "bw_ok inv (lw_buf_writer l)" using assms by (simp add: lw_ok_def)
  from bw_flush_buf_step [OF ok] obtain p b where b: "bw_flush_buf wr (lw_buf_writer l) = ret (p, b)" "bw_flushed (lw_buf_writer l) p b"
    by blast
  have "lined (bw_buf b)" using b(2) assms unfolding bw_flushed_def lw_ok_def by (metis lined_drop)
  moreover have "lw_flush_if_completed_line wr l = ret (p, l\<lparr>lw_buf_writer := b\<rparr>)"
    using True b(1) by (simp add: lw_flush_if_completed_line_def Let_def)
  ultimately show ?thesis using b(2) unfolding bw_flushed_def lw_out_def by auto
qed

lemma bw_write_free:
  assumes "bw_ok inv b" and "10 \<notin> set (bw_buf b)" and "10 \<notin> set bs" and "bw_poll_write wr b bs = ret (p, b')"
  shows "10 \<notin> set (bw_buf b')"
proof -
  from bw_flush_buf_step [OF assms(1)] obtain q c where c: "bw_flush_buf wr b = ret (q, c)" "bw_flushed b q c" by blast
  from c(2) have "10 \<notin> set (bw_buf c)" using assms(2) unfolding bw_flushed_def by (metis in_set_dropD)
  moreover have direct: "bw_buf d' = bw_buf d" if "bw_inner_poll_write wr d bs = ret (r, d')" for d d' r
    using that by (auto simp: bw_inner_poll_write_def poll_with_def bindc_def ret_def split: option.splits outcome.splits)
  ultimately show ?thesis using assms(2-4) c(1) unfolding bw_poll_write_def Let_def
    by (cases q; cases "case q of Ready x \<Rightarrow> x") (auto simp: direct split: if_splits)
qed

lemma lw_write_step:
  assumes "memrchr_law memrchr" and "lw_ok inv l"
  shows "\<exists>p l'. lw_poll_write memrchr wr fl l bs = ret (p, l') \<and> lw_ok inv l'
    \<and> write_step (lw_out written) (\<lambda>l. lag (bw_inner (lw_buf_writer l))) l bs p l'"
proof (cases "memrchr 10 bs")
  case None
  from lw_flush_line_step [OF assms(2)] obtain p b where b: "lw_flush_if_completed_line wr l = ret (p, l\<lparr>lw_buf_writer := b\<rparr>)"
    "bw_ok inv b" "lined (bw_buf b)" "bw_out written b = lw_out written l" "lag (bw_inner b) \<le> lag (bw_inner (lw_buf_writer l))"
    "p = Pending \<longrightarrow> lag (bw_inner b) < lag (bw_inner (lw_buf_writer l))" "p = Ready (Inr ()) \<longrightarrow> 10 \<notin> set (bw_buf b)" by blast
  show ?thesis
  proof (cases "p = Ready (Inr ())")
    case False
    then have "lw_poll_write memrchr wr fl l bs = ret (case p of Pending \<Rightarrow> Pending | Ready (Inl e) \<Rightarrow> Ready (Inl e) | Ready (Inr u) \<Rightarrow> Pending, l\<lparr>lw_buf_writer := b\<rparr>)"
      using None b(1) by (cases p; cases "case p of Ready x \<Rightarrow> x") (auto simp: lw_poll_write_def)
    with False b show ?thesis by (auto simp: lw_ok_def lw_out_def write_step_def split: poll.splits sum.splits)
  next
    case True
    from bw_write_step [OF b(2), of bs] obtain q b' where q: "bw_poll_write wr b bs = ret (q, b')" "bw_ok inv b'"
      "write_step (bw_out written) (\<lambda>b. lag (bw_inner b)) b bs q b'" by blast
    have "10 \<notin> set (bw_buf b')" using bw_write_free [OF b(2) _ memrchr_absent [OF assms(1) None] q(1)] b(7) True by blast
    then have "lw_ok inv (l\<lparr>lw_buf_writer := b'\<rparr>)" using q(2) by (simp add: lw_ok_def lined_free)
    moreover have "lw_poll_write memrchr wr fl l bs = ret (q, l\<lparr>lw_buf_writer := b'\<rparr>)"
      using None b(1) True q(1) by (simp add: lw_poll_write_def)
    moreover have "write_step (lw_out written) (\<lambda>l. lag (bw_inner (lw_buf_writer l))) l bs q (l\<lparr>lw_buf_writer := b'\<rparr>)"
      using q(3) b(4,5) by (auto simp: write_step_def lw_out_def split: poll.splits sum.splits)
    ultimately show ?thesis by blast
  qed
next
  case (Some i)
  note nl = memrchr_found [OF assms(1) Some]
  have ok: "bw_ok inv (lw_buf_writer l)" "lined (bw_buf (lw_buf_writer l))" using assms(2) by (simp_all add: lw_ok_def)
  from bw_flush_ok [OF ok(1)] obtain p b where b: "bw_poll_flush wr fl (lw_buf_writer l) = ret (p, b)" "bw_ok inv b"
    "flush_step (bw_out written) (bw_flushed_out flushed) (\<lambda>b. lag (bw_inner b)) (lw_buf_writer l) p b" "p = Ready (Inr ()) \<longrightarrow> bw_buf b = []"
    "\<exists>k. bw_buf b = drop k (bw_buf (lw_buf_writer l))" by blast
  have lined: "lined (bw_buf b)" using b(5) ok(2) by (auto intro: lined_drop)
  show ?thesis
  proof (cases "p = Ready (Inr ())")
    case False
    then have "lw_poll_write memrchr wr fl l bs = ret (case p of Pending \<Rightarrow> Pending | Ready (Inl e) \<Rightarrow> Ready (Inl e) | Ready (Inr u) \<Rightarrow> Pending, l\<lparr>lw_buf_writer := b\<rparr>)"
      using Some b(1) by (cases p; cases "case p of Ready x \<Rightarrow> x") (auto simp: lw_poll_write_def Let_def)
    with False b(2,3) lined show ?thesis
      by (auto simp: lw_ok_def lw_out_def write_step_def flush_step_def split: poll.splits sum.splits)
  next
    case True
    then have empty: "bw_buf b = []" and out: "bw_out written b = lw_out written l" "lag (bw_inner b) \<le> lag (bw_inner (lw_buf_writer l))"
      using b(3,4) by (simp_all add: lw_out_def)
    from bw_direct_step [OF b(2) empty, of "take (Suc i) bs"] obtain q c where
      q: "bw_inner_poll_write wr b (take (Suc i) bs) = ret (q, c)" "bw_ok inv c" "bw_buf c = []"
        "write_step (bw_out written) (\<lambda>b. lag (bw_inner b)) b (take (Suc i) bs) q c" by blast
    show ?thesis
    proof (cases "\<exists>k. q = Ready (Inr (Suc k))")
      case False
      then consider "q = Pending" | e where "q = Ready (Inl e)" | "q = Ready (Inr 0)"
        by (metis not0_implies_Suc poll.exhaust sum.exhaust)
      then have "lw_poll_write memrchr wr fl l bs = ret (q, l\<lparr>lw_buf_writer := c\<rparr>)
          \<and> write_step (lw_out written) (\<lambda>l. lag (bw_inner (lw_buf_writer l))) l bs q (l\<lparr>lw_buf_writer := c\<rparr>)"
        by cases (use Some b(1) True q(1,4) out in \<open>simp_all add: lw_poll_write_def Let_def lw_out_def\<close>)
      then show ?thesis using q(2,3) by (auto simp: lw_ok_def lined_def)
    next
      case True': True
      then obtain k where k: "q = Ready (Inr (Suc k))" by blast
      then have le: "Suc k \<le> Suc i" "Suc k \<le> length bs" and outc: "bw_out written c = bw_out written b @ take (Suc k) bs"
        and lagc: "lag (bw_inner c) \<le> lag (bw_inner b)" using q(4) nl(1) by (auto simp: take_take min_def split: if_splits)
      let ?tail = "lw_tail memrchr (bw_capacity c) (Suc i) (Suc k) bs"
      obtain m where "?tail = take m (drop (Suc k) bs)" using lw_tail_prefix by blast
      from bw_write_to_buf_lines [OF q(2,3) this] obtain n d where d: "bw_write_to_buf ?tail c = (n, d)" "bw_ok inv d"
        "bw_buf d = take (bw_capacity c) ?tail" "bw_out written d = bw_out written c @ take n (drop (Suc k) bs)"
        "n \<le> length (drop (Suc k) bs)" "bw_inner d = bw_inner c" by blast
      have "lw_poll_write memrchr wr fl l bs = ret (Ready (Inr (Suc k + n)), l\<lparr>lw_buf_writer := d\<rparr>)"
        using Some b(1) True q(1) k le d(1) by (simp add: lw_poll_write_def Let_def)
      moreover have "lw_ok inv (l\<lparr>lw_buf_writer := d\<rparr>)"
        using lw_tail_lined [OF assms(1) Some le(1), of "bw_capacity c"] d(2,3) by (simp add: lw_ok_def)
      moreover have "take (Suc k) bs @ take n (drop (Suc k) bs) = take (Suc k + n) bs" by (simp only: take_add)
      then have "write_step (lw_out written) (\<lambda>l. lag (bw_inner (lw_buf_writer l))) l bs (Ready (Inr (Suc k + n))) (l\<lparr>lw_buf_writer := d\<rparr>)"
        using d(4-6) outc lagc out le by (simp add: lw_out_def)
      ultimately show ?thesis by blast
    qed
  qed
qed

lemma lw_writer:
  assumes "memrchr_law memrchr"
  shows "byte_writer (lw_poll_write memrchr wr fl) (lw_poll_flush wr fl) (lw_ok inv) (lw_out written) (\<lambda>l. bw_flushed_out flushed (lw_buf_writer l)) (\<lambda>l. lag (bw_inner (lw_buf_writer l)))"
proof unfold_locales
  fix l bs
  assume l: "lw_ok inv l"
  show "\<exists>p l'. lw_poll_write memrchr wr fl l bs = ret (p, l') \<and> lw_ok inv l'
      \<and> write_step (lw_out written) (\<lambda>l. lag (bw_inner (lw_buf_writer l))) l bs p l'"
    by (rule lw_write_step [OF assms l])
  have ok: "bw_ok inv (lw_buf_writer l)" "lined (bw_buf (lw_buf_writer l))" using l by (simp_all add: lw_ok_def)
  from bw_flush_ok [OF ok(1)] obtain p b where b: "bw_poll_flush wr fl (lw_buf_writer l) = ret (p, b)" "bw_ok inv b"
    "flush_step (bw_out written) (bw_flushed_out flushed) (\<lambda>b. lag (bw_inner b)) (lw_buf_writer l) p b" "\<exists>k. bw_buf b = drop k (bw_buf (lw_buf_writer l))" by blast
  have "lw_poll_flush wr fl l = ret (p, l\<lparr>lw_buf_writer := b\<rparr>)" using b(1) by (simp add: lw_poll_flush_def)
  moreover have "lw_ok inv (l\<lparr>lw_buf_writer := b\<rparr>)" using b(2,4) ok(2) by (auto simp: lw_ok_def intro: lined_drop)
  moreover have "flush_step (lw_out written) (\<lambda>l. bw_flushed_out flushed (lw_buf_writer l)) (\<lambda>l. lag (bw_inner (lw_buf_writer l))) l p (l\<lparr>lw_buf_writer := b\<rparr>)"
    using b(3) by (simp add: flush_step_def lw_out_def split: poll.splits sum.splits)
  ultimately show "\<exists>p l'. lw_poll_flush wr fl l = ret (p, l') \<and> lw_ok inv l'
      \<and> flush_step (lw_out written) (\<lambda>l. bw_flushed_out flushed (lw_buf_writer l)) (\<lambda>l. lag (bw_inner (lw_buf_writer l))) l p l'" by blast
qed

end

text \<open>Over a cursor of a slice.\<close>

interpretation bw_slice: byte_writer "bw_poll_write cursor_slice_poll_write" "bw_poll_flush cursor_slice_poll_write cursor_poll_flush"
    "bw_ok cursor_in" "bw_out cursor_written" "bw_flushed_out (\<lambda>_. True)" "\<lambda>b. 0"
  by (rule slice.bw_writer)

end
