(* ===== verification/Io_Copy.thy ===== *)
theory Io_Copy
  imports Io_Write
begin

text \<open>
  What drives a writer (\<open>futures-util/src/io\<close>): \<open>WriteAll\<close>, \<open>CopyBuf\<close>, \<open>Copy\<close> and \<open>IntoSink\<close>. The lemmas say
  what each has done when it completes, over any reader and writer that keep the contracts of Io_Source and Io_Write,
  and then for the buffered reader and the buffered writer together.
\<close>

section \<open>The futures\<close>

record 'w WriteAll =
  wa_writer :: 'w
  wa_buf :: "byte list"

definition write_all_new :: "'w \<Rightarrow> byte list \<Rightarrow> 'w WriteAll" where
  "write_all_new writer buf = \<lparr>wa_writer = writer, wa_buf = buf\<rparr>"

partial_function (option) write_all_poll :: "'w write_fn \<Rightarrow> 'w WriteAll \<Rightarrow> (unit io poll \<times> 'w WriteAll) comp" where
  "write_all_poll wr this =
     (if wa_buf this \<noteq> [] then
        ready_try (wr (wa_writer this) (wa_buf this)) (\<lambda>w. this\<lparr>wa_writer := w\<rparr>) (\<lambda>n this.
          assertc (n \<le> length (wa_buf this)) ''mid > len''
            (let this = this\<lparr>wa_buf := drop n (wa_buf this)\<rparr>
             in if n = 0 then ret (Ready (Inl WriteZero), this) else write_all_poll wr this))
      else ret (Ready (Inr ()), this))"

record ('r, 'w) CopyBuf =
  cb_reader :: 'r
  cb_writer :: 'w
  cb_amt :: "64 word"

definition copy_buf_new :: "'r \<Rightarrow> 'w \<Rightarrow> ('r, 'w) CopyBuf" where
  "copy_buf_new reader writer = \<lparr>cb_reader = reader, cb_writer = writer, cb_amt = 0\<rparr>"

partial_function (option) copy_buf_poll ::
  "'r fill_fn \<Rightarrow> 'r consume_fn \<Rightarrow> 'w write_fn \<Rightarrow> 'w flush_fn \<Rightarrow> ('r, 'w) CopyBuf \<Rightarrow> ((64 word) io poll \<times> ('r, 'w) CopyBuf) comp" where
  "copy_buf_poll fill consume wr fl this =
     ready_try (fill (cb_reader this)) (\<lambda>r. this\<lparr>cb_reader := r\<rparr>) (\<lambda>buffer this.
       if buffer = [] then
         ready_try (fl (cb_writer this)) (\<lambda>w. this\<lparr>cb_writer := w\<rparr>) (\<lambda>_ this. ret (Ready (Inr (cb_amt this)), this))
       else
         ready_try (wr (cb_writer this) buffer) (\<lambda>w. this\<lparr>cb_writer := w\<rparr>) (\<lambda>i this.
           if i = 0 then ret (Ready (Inl WriteZero), this)
           else bindc (add_usize (cb_amt this) (word_of_nat i)) (\<lambda>amt.
             bindc (consume i (cb_reader this)) (\<lambda>r.
               copy_buf_poll fill consume wr fl (this\<lparr>cb_amt := amt, cb_reader := r\<rparr>)))))"

text \<open>\<open>Copy\<close> is \<open>CopyBuf\<close> over a \<open>BufReader\<close>.\<close>

definition copy_new :: "'r \<Rightarrow> 'w \<Rightarrow> ('r BufReader, 'w) CopyBuf" where
  "copy_new reader writer = copy_buf_new (br_new reader) writer"

definition copy_poll ::
  "'r read_fn \<Rightarrow> 'w write_fn \<Rightarrow> 'w flush_fn \<Rightarrow> ('r BufReader, 'w) CopyBuf \<Rightarrow> ((64 word) io poll \<times> ('r BufReader, 'w) CopyBuf) comp" where
  "copy_poll rd wr fl this = copy_buf_poll (br_poll_fill_buf rd) br_consume wr fl this"

record block =
  bk_offset :: nat
  bk_bytes :: "byte list"

record 'w IntoSink =
  is_writer :: 'w
  is_buffer :: "block option"

definition into_sink_new :: "'w \<Rightarrow> 'w IntoSink" where
  "into_sink_new writer = \<lparr>is_writer = writer, is_buffer = None\<rparr>"

partial_function (option) into_sink_flush_buffer :: "'w write_fn \<Rightarrow> 'w IntoSink \<Rightarrow> (unit io poll \<times> 'w IntoSink) comp" where
  "into_sink_flush_buffer wr this =
     (case is_buffer this of
        Some buffer \<Rightarrow>
          assertc (bk_offset buffer \<le> length (bk_bytes buffer)) ''range start index out of range''
            (ready_try (wr (is_writer this) (drop (bk_offset buffer) (bk_bytes buffer))) (\<lambda>w. this\<lparr>is_writer := w\<rparr>) (\<lambda>written this.
              let buffer = buffer\<lparr>bk_offset := bk_offset buffer + written\<rparr>
              in if bk_offset buffer = length (bk_bytes buffer) then ret (Ready (Inr ()), this\<lparr>is_buffer := None\<rparr>)
                 else into_sink_flush_buffer wr (this\<lparr>is_buffer := Some buffer\<rparr>)))
      | None \<Rightarrow> ret (Ready (Inr ()), this\<lparr>is_buffer := None\<rparr>))"

definition into_sink_poll_ready :: "'w write_fn \<Rightarrow> 'w IntoSink \<Rightarrow> (unit io poll \<times> 'w IntoSink) comp" where
  "into_sink_poll_ready wr this = ready_try (into_sink_flush_buffer wr this) id (\<lambda>_ this. ret (Ready (Inr ()), this))"

definition into_sink_start_send :: "byte list \<Rightarrow> 'w IntoSink \<Rightarrow> (unit io \<times> 'w IntoSink) comp" where
  "into_sink_start_send item this =
     assertc (is_buffer this = None) ''assertion failed: self.buffer.is_none()''
       (ret (Inr (), this\<lparr>is_buffer := Some \<lparr>bk_offset = 0, bk_bytes = item\<rparr>\<rparr>))"

definition into_sink_poll_flush :: "'w write_fn \<Rightarrow> 'w flush_fn \<Rightarrow> 'w IntoSink \<Rightarrow> (unit io poll \<times> 'w IntoSink) comp" where
  "into_sink_poll_flush wr fl this =
     ready_try (into_sink_flush_buffer wr this) id (\<lambda>_ this.
       ready_try (fl (is_writer this)) (\<lambda>w. this\<lparr>is_writer := w\<rparr>) (\<lambda>_ this. ret (Ready (Inr ()), this)))"

definition into_sink_poll_close :: "'w write_fn \<Rightarrow> 'w flush_fn \<Rightarrow> 'w IntoSink \<Rightarrow> (unit io poll \<times> 'w IntoSink) comp" where
  "into_sink_poll_close wr close this =
     ready_try (into_sink_flush_buffer wr this) id (\<lambda>_ this.
       ready_try (close (is_writer this)) (\<lambda>w. this\<lparr>is_writer := w\<rparr>) (\<lambda>_ this. ret (Ready (Inr ()), this)))"

section \<open>What they do\<close>

context byte_writer begin

text \<open>\<open>WriteAll\<close> completes; after \<open>Ok\<close> the bytes are written, all of them and in order.\<close>

definition wrote :: "'w \<times> byte list \<Rightarrow> unit io \<Rightarrow> 'w \<times> byte list \<Rightarrow> bool" where
  "wrote f x g \<longleftrightarrow> inv (fst g) \<and>
     (\<exists>k \<le> length (snd f). written (fst g) = written (fst f) @ take k (snd f) \<and> snd g = drop k (snd f)
        \<and> (x = Inr () \<longrightarrow> k = length (snd f)))
     \<and> (\<forall>e. x = Inl e \<longrightarrow> wr_fails e \<or> e = WriteZero)"

lemma wrote_more:
  assumes "wrote (w', drop n bs) x g" and "written w' = written w @ take n bs" and "n \<le> length bs"
  shows "wrote (w, bs) x g"
proof -
  from assms(1) obtain k where k: "inv (fst g)" "k \<le> length (drop n bs)" "written (fst g) = written w' @ take k (drop n bs)"
    "snd g = drop k (drop n bs)" "x = Inr () \<longrightarrow> k = length (drop n bs)" "\<forall>e. x = Inl e \<longrightarrow> wr_fails e \<or> e = WriteZero"
    unfolding wrote_def by auto
  have "take n bs @ take k (drop n bs) = take (n + k) bs" by (simp only: take_add)
  with k assms(2,3) show ?thesis unfolding wrote_def
    by (intro conjI exI [of _ "n + k"]) (auto simp: add.commute)
qed

lemma write_all_completes:
  assumes "inv (wa_writer f)"
  shows "\<exists>x g. completes (write_all_poll wr) f x g \<and> wrote (wa_writer f, wa_buf f) x (wa_writer g, wa_buf g)"
  using assms
proof (induction "lag (wa_writer f) + length (wa_buf f)" arbitrary: f rule: less_induct)
  case less
  show ?case
  proof (cases "wa_buf f = []")
    case True
    then have "write_all_poll wr f = ret (Ready (Inr ()), f)" by (subst write_all_poll.simps) simp
    then have "completes (write_all_poll wr) f (Inr ()) f" by (rule completes_ready)
    with less.prems True show ?thesis by (auto simp: wrote_def)
  next
    case False
    show ?thesis
      using less.prems
    proof (cases rule: wr_cases [where bs = "wa_buf f"])
      case (pending w')
      define f' where "f' = f\<lparr>wa_writer := w'\<rparr>"
      have step: "write_all_poll wr f = ret (Pending, f')" using False pending by (subst write_all_poll.simps) (simp add: f'_def)
      from less.hyps [of f'] pending obtain x g where g: "completes (write_all_poll wr) f' x g"
        "wrote (w', wa_buf f) x (wa_writer g, wa_buf g)" by (auto simp: f'_def)
      from g(2) pending have "wrote (wa_writer f, wa_buf f) x (wa_writer g, wa_buf g)" by (simp add: wrote_def)
      with completes_pend [OF step g(1)] show ?thesis by blast
    next
      case (err e w')
      then have "write_all_poll wr f = ret (Ready (Inl e), f\<lparr>wa_writer := w'\<rparr>)" using False by (subst write_all_poll.simps) simp
      then have "completes (write_all_poll wr) f (Inl e) (f\<lparr>wa_writer := w'\<rparr>)" by (rule completes_ready)
      with err show ?thesis by (fastforce simp: wrote_def)
    next
      case (ok n w')
      define f' where "f' = f\<lparr>wa_writer := w', wa_buf := drop n (wa_buf f)\<rparr>"
      show ?thesis
      proof (cases "n = 0")
        case True
        then have "write_all_poll wr f = ret (Ready (Inl WriteZero), f')" using False ok by (subst write_all_poll.simps) (simp add: f'_def)
        then have "completes (write_all_poll wr) f (Inl WriteZero) f'" by (rule completes_ready)
        with ok True show ?thesis by (fastforce simp: wrote_def f'_def)
      next
        case n: False
        then have step: "write_all_poll wr f = write_all_poll wr f'" using False ok by (subst write_all_poll.simps) (simp add: f'_def)
        have "length (drop n (wa_buf f)) < length (wa_buf f)" using n False by simp
        with less.hyps [of f'] ok obtain x g where g: "completes (write_all_poll wr) f' x g"
          "wrote (w', drop n (wa_buf f)) x (wa_writer g, wa_buf g)" by (fastforce simp: f'_def)
        from wrote_more [OF g(2) ok(4,3)] completes_cong [OF step g(1)] show ?thesis by blast
      qed
    qed
  qed
qed

end

text \<open>\<open>CopyBuf\<close>: after \<open>Ok(n)\<close> the content of the reader, all \<open>n\<close> bytes of it, is at the end of what was written.\<close>

definition copied ::
  "('r \<Rightarrow> byte list) \<Rightarrow> ('w \<Rightarrow> byte list) \<Rightarrow> ('w \<Rightarrow> bool) \<Rightarrow> ('r, 'w) CopyBuf \<Rightarrow> (64 word) io \<Rightarrow> ('r, 'w) CopyBuf \<Rightarrow> bool" where
  "copied content written flushed f x g \<longleftrightarrow>
     (\<exists>k \<le> length (content (cb_reader f)).
        written (cb_writer g) = written (cb_writer f) @ take k (content (cb_reader f))
        \<and> content (cb_reader g) = drop k (content (cb_reader f)) \<and> unat (cb_amt g) = unat (cb_amt f) + k
        \<and> (\<forall>n. x = Inr n \<longrightarrow> k = length (content (cb_reader f)) \<and> n = cb_amt g \<and> flushed (cb_writer g)))"

lemma copied_more:
  assumes "copied content written flushed f' x g" and "content (cb_reader f') = drop n (content (cb_reader f))"
    and "written (cb_writer f') = written (cb_writer f) @ take n (content (cb_reader f))"
    and "unat (cb_amt f') = unat (cb_amt f) + n" and "n \<le> length (content (cb_reader f))"
  shows "copied content written flushed f x g"
proof -
  let ?c = "content (cb_reader f)"
  from assms(1,2) obtain k where k: "k \<le> length (drop n ?c)" "written (cb_writer g) = written (cb_writer f') @ take k (drop n ?c)"
    "content (cb_reader g) = drop k (drop n ?c)" "unat (cb_amt g) = unat (cb_amt f') + k"
    "\<forall>m. x = Inr m \<longrightarrow> k = length (drop n ?c) \<and> m = cb_amt g \<and> flushed (cb_writer g)" unfolding copied_def by auto
  have "take n ?c @ take k (drop n ?c) = take (n + k) ?c" by (simp only: take_add)
  with k assms(3-5) show ?thesis unfolding copied_def
    by (intro exI [of _ "n + k"]) (auto simp: add.commute)
qed

lemma copied_error: "written (cb_writer g) = written (cb_writer f) \<Longrightarrow> content (cb_reader g) = content (cb_reader f) \<Longrightarrow>
    cb_amt g = cb_amt f \<Longrightarrow> copied content written flushed f (Inl e) g"
  unfolding copied_def by (intro exI [of _ 0]) simp

lemma copy_buf_completes:
  assumes R: "byte_buf_reader rd rinv content rlag fill consume avail" and W: "byte_writer wr fl winv written flushed wlag"
    and "rinv (cb_reader f)" and "winv (cb_writer f)" and "unat (cb_amt f) + length (content (cb_reader f)) < 2 ^ 64"
  shows "\<exists>x g. completes (copy_buf_poll fill consume wr fl) f x g \<and> copied content written flushed f x g
    \<and> rinv (cb_reader g) \<and> winv (cb_writer g)
    \<and> (\<forall>e. x = Inl e \<longrightarrow> byte_buf_reader.fill_fails rinv fill e \<or> byte_writer.wr_fails wr fl winv e \<or> e = WriteZero)"
  using assms(3-5)
proof (induction "rlag (cb_reader f) + wlag (cb_writer f) + length (content (cb_reader f))" arbitrary: f rule: less_induct)
  case less
  let ?p = "copy_buf_poll fill consume wr fl" and ?c = "content (cb_reader f)"
  have ready: ?case if "?p f = ret (Ready x, g)" "copied content written flushed f x g" "rinv (cb_reader g)" "winv (cb_writer g)"
      "\<forall>e. x = Inl e \<longrightarrow> byte_buf_reader.fill_fails rinv fill e \<or> byte_writer.wr_fails wr fl winv e \<or> e = WriteZero" for x g
    using that by (blast intro: completes_ready)
  have wait: ?case if "?p f = ret (Pending, f')" "rinv (cb_reader f')" "winv (cb_writer f')" "content (cb_reader f') = ?c"
      "written (cb_writer f') = written (cb_writer f)" "cb_amt f' = cb_amt f"
      "rlag (cb_reader f') + wlag (cb_writer f') < rlag (cb_reader f) + wlag (cb_writer f)" for f'
  proof -
    from less.hyps [of f'] that less.prems obtain x g where g: "completes ?p f' x g" "copied content written flushed f' x g"
      "rinv (cb_reader g)" "winv (cb_writer g)"
      "\<forall>e. x = Inl e \<longrightarrow> byte_buf_reader.fill_fails rinv fill e \<or> byte_writer.wr_fails wr fl winv e \<or> e = WriteZero" by auto
    from copied_more [OF g(2), of 0 f] that have "copied content written flushed f x g" by simp
    with completes_pend [OF that(1) g(1)] g show ?thesis by blast
  qed
  show ?case
  proof (cases rule: byte_buf_reader.fill_cases [OF R less.prems(1), case_names ok err pending])
    case (pending r')
    then have "?p f = ret (Pending, f\<lparr>cb_reader := r'\<rparr>)" by (subst copy_buf_poll.simps) simp
    then show ?thesis by (rule wait) (use pending less.prems in simp_all)
  next
    case (err e r')
    then have run: "?p f = ret (Ready (Inl e), f\<lparr>cb_reader := r'\<rparr>)" by (subst copy_buf_poll.simps) simp
    have "byte_buf_reader.fill_fails rinv fill e"
      using err(1) less.prems(1) unfolding byte_buf_reader.fill_fails_def [OF R] by blast
    then show ?thesis by (intro ready [OF run]) (use err less.prems in \<open>auto intro: copied_error\<close>)
  next
    case (ok bs r')
    then have keep: "content r' = ?c" "avail r' = bs" "rlag r' \<le> rlag (cb_reader f)" and eof: "bs = [] \<Longrightarrow> ?c = []" by auto
    obtain rest where rest: "?c = bs @ rest" using ok by auto
    define h where "h = f\<lparr>cb_reader := r'\<rparr>"
    show ?thesis
    proof (cases "bs = []")
      case True
      then have run: "?p f = ready_try (fl (cb_writer f)) (\<lambda>w. h\<lparr>cb_writer := w\<rparr>) (\<lambda>_ this. ret (Ready (Inr (cb_amt this)), this))"
        using ok(1) by (subst copy_buf_poll.simps) (simp add: h_def)
      show ?thesis
      proof (cases rule: byte_writer.fl_cases [OF W less.prems(2), case_names ok err pending])
        case pending': (pending w')
        then have "?p f = ret (Pending, h\<lparr>cb_writer := w'\<rparr>)" by (simp add: run)
        then show ?thesis by (rule wait) (use pending' ok keep in \<open>simp_all add: h_def\<close>)
      next
        case err': (err e w')
        then have "?p f = ret (Ready (Inl e), h\<lparr>cb_writer := w'\<rparr>)" by (simp add: run)
        then show ?thesis by (rule ready) (use err' ok keep in \<open>auto simp: h_def intro: copied_error\<close>)
      next
        case ok': (ok w')
        then have "?p f = ret (Ready (Inr (cb_amt f)), h\<lparr>cb_writer := w'\<rparr>)" by (simp add: run h_def)
        then show ?thesis by (rule ready) (use ok' ok keep eof True in \<open>auto simp: h_def copied_def\<close>)
      qed
    next
      case False
      show ?thesis
      proof (cases rule: byte_writer.wr_cases [OF W less.prems(2), where bs = bs, case_names ok err pending])
        case pending': (pending w')
        then have "?p f = ret (Pending, h\<lparr>cb_writer := w'\<rparr>)" using ok(1) False by (subst copy_buf_poll.simps) (simp add: h_def)
        then show ?thesis by (rule wait) (use pending' ok keep in \<open>simp_all add: h_def\<close>)
      next
        case err': (err e w')
        then have "?p f = ret (Ready (Inl e), h\<lparr>cb_writer := w'\<rparr>)" using ok(1) False by (subst copy_buf_poll.simps) (simp add: h_def)
        then show ?thesis by (rule ready) (use err' ok keep in \<open>auto simp: h_def intro: copied_error\<close>)
      next
        case ok': (ok n w')
        show ?thesis
        proof (cases "n = 0")
          case True
          then have "?p f = ret (Ready (Inl WriteZero), h\<lparr>cb_writer := w'\<rparr>)"
            using ok(1) ok'(1) False by (subst copy_buf_poll.simps) (simp add: h_def)
          then show ?thesis by (rule ready) (use ok' ok keep True in \<open>auto simp: h_def intro: copied_error\<close>)
        next
          case n: False
          have len: "n \<le> length ?c" using ok'(3) rest by simp
          obtain r'' where r'': "consume n r' = ret r''" "rinv r''" "content r'' = drop n ?c" "rlag r'' \<le> rlag r'"
            using byte_buf_reader.consume [OF R ok(2), of n] ok'(3) keep by auto
          have small: "n < 2 ^ 64" "unat (cb_amt f) + n < 2 ^ 64" using len less.prems(3) by linarith+
          then have amt: "unat (word_of_nat n :: usize) = n" by (simp add: unat_of_nat)
          define f' where "f' = f\<lparr>cb_writer := w', cb_amt := cb_amt f + word_of_nat n, cb_reader := r''\<rparr>"
          have sum: "unat (cb_amt f') = unat (cb_amt f) + n" using small amt by (simp add: f'_def unat_add_usize)
          have step: "?p f = ?p f'"
            using ok(1) ok'(1) False n r''(1) small amt
            by (subst copy_buf_poll.simps) (simp add: h_def f'_def add_usize_def checked_add_def)
          have "take n bs = take n ?c" using rest ok'(3) by simp
          have "rlag (cb_reader f') + wlag (cb_writer f') + length (content (cb_reader f')) < rlag (cb_reader f) + wlag (cb_writer f) + length ?c"
            using n len r'' ok'(5) keep(3) by (simp add: f'_def)
          from less.hyps [OF this] obtain x g where g: "completes ?p f' x g" "copied content written flushed f' x g"
            "rinv (cb_reader g)" "winv (cb_writer g)"
            "\<forall>e. x = Inl e \<longrightarrow> byte_buf_reader.fill_fails rinv fill e \<or> byte_writer.wr_fails wr fl winv e \<or> e = WriteZero"
            using r'' ok'(2) less.prems(3) sum len by (auto simp: f'_def)
          have "copied content written flushed f x g"
            by (rule copied_more [OF g(2) _ _ sum len]) (use r'' ok' \<open>take n bs = _\<close> in \<open>simp_all add: f'_def\<close>)
          with completes_cong [OF step g(1)] g show ?thesis by blast
        qed
      qed
    qed
  qed
qed

text \<open>\<open>IntoSink\<close>: a block that was given to it is written, by a writer that always takes some bytes of what it is offered.\<close>

definition is_rest :: "'w IntoSink \<Rightarrow> byte list" where
  "is_rest s = (case is_buffer s of None \<Rightarrow> [] | Some b \<Rightarrow> drop (bk_offset b) (bk_bytes b))"

definition is_ok :: "'w IntoSink \<Rightarrow> bool" where
  "is_ok s \<longleftrightarrow> (\<forall>b. is_buffer s = Some b \<longrightarrow> bk_offset b \<le> length (bk_bytes b))"

context byte_writer begin

definition takes_some :: bool where
  "takes_some \<longleftrightarrow> (\<forall>w bs w'. inv w \<longrightarrow> bs \<noteq> [] \<longrightarrow> wr w bs \<noteq> ret (Ready (Inr 0), w'))"

definition sunk :: "'w IntoSink \<Rightarrow> unit io poll \<Rightarrow> 'w IntoSink \<Rightarrow> bool" where
  "sunk s p s' \<longleftrightarrow> inv (is_writer s') \<and> is_ok s' \<and> written (is_writer s') @ is_rest s' = written (is_writer s) @ is_rest s
     \<and> lag (is_writer s') \<le> lag (is_writer s) \<and> (p = Pending \<longrightarrow> lag (is_writer s') < lag (is_writer s))
     \<and> (p = Ready (Inr ()) \<longrightarrow> is_buffer s' = None) \<and> (\<forall>e. p = Ready (Inl e) \<longrightarrow> wr_fails e)"

lemma into_sink_flush_buffer_step:
  assumes takes_some and "inv (is_writer s)" and "is_ok s"
  shows "\<exists>p s'. into_sink_flush_buffer wr s = ret (p, s') \<and> sunk s p s'"
  using assms(2,3)
proof (induction "length (is_rest s)" arbitrary: s rule: less_induct)
  case less
  show ?case
  proof (cases "is_buffer s")
    case None
    then have "into_sink_flush_buffer wr s = ret (Ready (Inr ()), s)" by (subst into_sink_flush_buffer.simps) simp
    with None less.prems show ?thesis by (auto simp: sunk_def is_rest_def)
  next
    case (Some b)
    let ?rest = "drop (bk_offset b) (bk_bytes b)"
    have le: "bk_offset b \<le> length (bk_bytes b)" using less.prems(2) Some by (simp add: is_ok_def)
    show ?thesis
    proof (cases rule: wr_cases [OF less.prems(1), of ?rest, case_names ok err pending])
      case (pending w')
      then have "into_sink_flush_buffer wr s = ret (Pending, s\<lparr>is_writer := w'\<rparr>)"
        using Some le by (subst into_sink_flush_buffer.simps) simp
      with pending less.prems show ?thesis by (auto simp: sunk_def is_rest_def is_ok_def)
    next
      case (err e w')
      then have "into_sink_flush_buffer wr s = ret (Ready (Inl e), s\<lparr>is_writer := w'\<rparr>)"
        using Some le by (subst into_sink_flush_buffer.simps) simp
      with err less.prems show ?thesis by (auto simp: sunk_def is_rest_def is_ok_def)
    next
      case (ok n w')
      show ?thesis
      proof (cases "bk_offset b + n = length (bk_bytes b)")
        case True
        then have "into_sink_flush_buffer wr s = ret (Ready (Inr ()), s\<lparr>is_writer := w', is_buffer := None\<rparr>)"
          using Some le ok by (subst into_sink_flush_buffer.simps) simp
        moreover have "take n ?rest = ?rest" using True by simp
        ultimately show ?thesis using ok Some by (auto simp: sunk_def is_rest_def is_ok_def)
      next
        case False
        define s' where "s' = s\<lparr>is_writer := w', is_buffer := Some (b\<lparr>bk_offset := bk_offset b + n\<rparr>)\<rparr>"
        have run: "into_sink_flush_buffer wr s = into_sink_flush_buffer wr s'"
          using Some le ok False by (subst into_sink_flush_buffer.simps) (simp add: s'_def)
        have "?rest \<noteq> []" using False ok(3) le by auto
        then have "n \<noteq> 0" using assms(1) less.prems(1) ok(1) unfolding takes_some_def by metis
        have is_ok: "is_ok s'" using ok(3) le by (simp add: s'_def is_ok_def)
        have rest: "is_rest s = ?rest" "is_rest s' = drop n ?rest" using Some by (simp_all add: is_rest_def s'_def add.commute)
        have "length (is_rest s') < length (is_rest s)" using \<open>?rest \<noteq> []\<close> \<open>n \<noteq> 0\<close> unfolding rest by simp
        from less.hyps [OF this _ is_ok] ok(2) obtain p t where t: "into_sink_flush_buffer wr s' = ret (p, t)" "sunk s' p t"
          by (auto simp: s'_def)
        have "written (is_writer s') @ is_rest s' = written (is_writer s) @ is_rest s"
          unfolding rest using ok(4) by (simp add: s'_def del: drop_drop)
        with t(2) ok(5) have "sunk s p t" by (auto simp: sunk_def s'_def)
        with run t(1) show ?thesis by auto
      qed
    qed
  qed
qed

text \<open>A block after the other: \<open>poll_ready\<close> until it is \<open>Ok\<close>, and then \<open>start_send\<close>.\<close>

lemma into_sink_sends:
  assumes takes_some and "inv (is_writer s)" and "is_ok s" and "\<And>e. \<not> wr_fails e"
  shows "\<exists>s'. completes (into_sink_poll_ready wr) s (Inr ()) s' \<and> inv (is_writer s') \<and> is_buffer s' = None
    \<and> written (is_writer s') = written (is_writer s) @ is_rest s"
  using assms(2,3)
proof (induction "lag (is_writer s)" arbitrary: s rule: less_induct)
  case less
  from into_sink_flush_buffer_step [OF assms(1) less.prems] obtain p t where
    t: "into_sink_flush_buffer wr s = ret (p, t)" "sunk s p t" by blast
  show ?case
  proof (cases p)
    case Pending
    with t have step: "into_sink_poll_ready wr s = ret (Pending, t)" by (simp add: into_sink_poll_ready_def)
    from less.hyps [of t] t(2) Pending obtain s' where "completes (into_sink_poll_ready wr) t (Inr ()) s'" "inv (is_writer s')"
      "is_buffer s' = None" "written (is_writer s') = written (is_writer t) @ is_rest t" by (auto simp: sunk_def)
    with completes_pend [of "into_sink_poll_ready wr", OF step] t(2) show ?thesis by (auto simp: sunk_def)
  next
    case (Ready x)
    then have x: "x = Inr ()" using t(2) assms(4) by (cases x) (auto simp: sunk_def)
    with Ready t have "into_sink_poll_ready wr s = ret (Ready (Inr ()), t)" by (simp add: into_sink_poll_ready_def)
    moreover have "is_rest t = []" using t(2) Ready x by (simp add: sunk_def is_rest_def)
    ultimately show ?thesis using t(2) Ready x by (auto simp: sunk_def intro: completes_ready)
  qed
qed

end

text \<open>
  A writer that takes nothing, such as a cursor at the end of its slice: \<open>poll_flush_buffer\<close> never returns, where
  \<open>WriteAll\<close>, \<open>CopyBuf\<close> and \<open>BufWriter\<close> answer \<open>WriteZero\<close>.
\<close>

lemma into_sink_no_return:
  assumes "into_sink_flush_buffer wr s = Some y" and "is_buffer s = Some b" and "bk_offset b < length (bk_bytes b)"
    and "\<And>bs. wr (is_writer s) bs = ret (Ready (Inr 0), is_writer s)"
  shows False
  using assms
proof (induction wr s y rule: into_sink_flush_buffer.raw_induct [rotated, consumes 1])
  case (1 rec wr s y)
  have same: "s\<lparr>is_buffer := Some b\<rparr> = s" using 1(3) by (cases s) simp
  have "rec wr (s\<lparr>is_buffer := Some b\<rparr>) = Some y" using 1(2-) by simp
  then have "rec wr s = Some y" unfolding same .
  with 1 show False by blast
qed

lemma into_sink_spins:
  assumes "is_buffer s = Some b" and "bk_offset b < length (bk_bytes b)"
    and "\<And>bs. wr (is_writer s) bs = ret (Ready (Inr 0), is_writer s)"
  shows "into_sink_flush_buffer wr s = None"
  by (rule ccontr) (use into_sink_no_return [where wr = wr and s = s and b = b] assms in blast)

end
