(* ===== verification/Io_Laws.thy ===== *)
theory Io_Laws
  imports Io_Copy
begin

text \<open>
  Laws of the async I/O that span its parts: the lines of what was written as lines, a copy through a buffered reader
  and a buffered writer, reading a chain of a limited reader and another to the end, and the contract of \<open>LineWriter\<close>.
  All of them hold for any reader or writer inside that keeps its contract, whatever sizes it delivers or takes and
  however often it is \<open>Pending\<close>.
\<close>

section \<open>Where errors come from\<close>



lemma io_take_fails:
  assumes "byte_reader rd iv content lag" and "byte_reader.rd_fails (io_take_poll_read rd) (\<lambda>t. iv (iot_inner t)) e"
  shows "byte_reader.rd_fails rd iv e"
  using assms(2) unfolding byte_reader.rd_fails_def [OF byte_reader.io_take_reader [OF assms(1)]]
    byte_reader.rd_fails_def [OF assms(1)]
  by (auto simp: io_take_poll_read_def io_take_less_def ready_try_eq_ret poll_eq_simps split: if_splits)

lemma io_chain_fails:
  assumes "byte_reader rd1 i1 c1 l1" and "byte_reader rd2 i2 c2 l2"
    and "byte_reader.rd_fails (io_chain_poll_read rd1 rd2) (io_chain_inv i1 i2) e"
  shows "byte_reader.rd_fails rd1 i1 e \<or> byte_reader.rd_fails rd2 i2 e"
proof -
  from assms(3) obtain t n t' where t: "io_chain_inv i1 i2 t" "io_chain_poll_read rd1 rd2 t n = ret (Ready (Inl e), t')"
    unfolding byte_reader.rd_fails_def [OF io_chain_reader [OF assms(1,2)]] by blast
  then have "(\<exists>r'. rd1 (ioc_first t) n = ret (Ready (Inl e), r')) \<or> (\<exists>r'. rd2 (ioc_second t) n = ret (Ready (Inl e), r'))"
    by (auto simp: io_chain_poll_read_def io_chain_second_def ready_try_eq_ret poll_eq_simps split: if_splits)
  with t(1) show ?thesis
    unfolding byte_reader.rd_fails_def [OF assms(1)] byte_reader.rd_fails_def [OF assms(2)] io_chain_inv_def by blast
qed

lemma cursor_reader: "byte_reader cursor_poll_read cursor_ok cursor_remaining (\<lambda>_. 0)"
  by (rule cursor.byte_reader_axioms)

lemma cursor_no_fail: "\<not> byte_reader.rd_fails cursor_poll_read cursor_ok e"
  unfolding byte_reader.rd_fails_def [OF cursor_reader] by (simp add: cursor_poll_read_def Let_def)

section \<open>The laws\<close>



text \<open>
  Reading to the end a limited reader chained to another delivers the first's content up to the limit and then
  all of the other's, appended to the vector, and the count of the bytes; it completes.
\<close>

theorem read_chain_to_end:
  assumes "byte_reader rd1 i1 c1 l1" and "byte_reader rd2 i2 c2 l2" and "reserves spare" and "i1 r" and "i2 q"
    and "\<And>e. \<not> byte_reader.rd_fails rd1 i1 e" and "\<And>e. \<not> byte_reader.rd_fails rd2 i2 e"
  shows "\<exists>g. completes (read_to_end_poll spare (io_chain_poll_read (io_take_poll_read rd1) rd2))
      (read_to_end_new (io_chain_new (io_take_new r limit) q) buf) (Inr (min (unat limit) (length (c1 r)) + length (c2 q))) g
    \<and> rte_buf g = buf @ take (unat limit) (c1 r) @ c2 q"
proof -
  note T = byte_reader.io_take_reader [OF assms(1)]
  note R = io_chain_reader [OF T assms(2)]
  let ?f = "read_to_end_new (io_chain_new (io_take_new r limit) q) buf"
  have "io_chain_inv (\<lambda>t. i1 (iot_inner t)) i2 (rte_reader ?f)"
    using assms(4,5) by (simp add: read_to_end_new_def io_chain_inv_def io_chain_new_def io_take_new_def)
  from byte_reader.read_to_end_completes [OF R assms(3) this] obtain x g where
    g: "completes (read_to_end_poll spare (io_chain_poll_read (io_take_poll_read rd1) rd2)) ?f x g"
      "byte_reader.end_read (io_chain_poll_read (io_take_poll_read rd1) rd2) (io_chain_inv (\<lambda>t. i1 (iot_inner t)) i2)
         (io_chain_content (io_take_content c1) c2) (rte_reader ?f, rte_buf ?f) x (rte_reader g, rte_buf g) (rte_start_len ?f)" by blast
  have c: "io_chain_content (io_take_content c1) c2 (rte_reader ?f) = take (unat limit) (c1 r) @ c2 q"
    by (simp add: read_to_end_new_def io_chain_content_def io_chain_new_def io_take_new_def io_take_content_def)
  have "\<not> byte_reader.rd_fails (io_chain_poll_read (io_take_poll_read rd1) rd2) (io_chain_inv (\<lambda>t. i1 (iot_inner t)) i2) e" for e
    using io_chain_fails [OF T assms(2)] io_take_fails [OF assms(1)] assms(6,7) by blast
  with g(2) obtain n where x: "x = Inr n" unfolding byte_reader.end_read_def [OF R] by (cases x) auto
  have "rte_buf g = buf @ cs \<and> n = length cs" if "io_chain_content (io_take_content c1) c2 (rte_reader ?f) = cs" for cs
    using g(2) x that unfolding byte_reader.end_read_def [OF R] by (simp add: read_to_end_new_def)
  from this [OF c] have "rte_buf g = buf @ take (unat limit) (c1 r) @ c2 q"
    "n = min (unat limit) (length (c1 r)) + length (c2 q)" by (simp_all add: min.commute)
  with g(1) x show ?thesis by blast
qed

lemma read_chain_to_end_witness:
  "\<exists>g. completes (read_to_end_poll (\<lambda>n. 32) (io_chain_poll_read (io_take_poll_read cursor_poll_read) cursor_poll_read))
      (read_to_end_new (io_chain_new (io_take_new (cursor_new [1, 2, 3]) 2) (cursor_new [9])) [0]) (Inr 3) g
    \<and> rte_buf g = [0, 1, 2, 9]"
proof -
  let ?c = "cursor_new [1, 2, 3]" and ?d = "cursor_new [9]"
  have "cursor_ok ?c" "cursor_ok ?d" by (simp_all add: cursor_ok_def cursor_new_def)
  moreover have "reserves (\<lambda>n. 32)" by (simp add: reserves_def)
  moreover have "take (unat (2 :: 64 word)) (cursor_remaining ?c) @ cursor_remaining ?d = [1, 2, 9]"
    "min (unat (2 :: 64 word)) (length (cursor_remaining ?c)) + length (cursor_remaining ?d) = 3"
    by (simp_all add: cursor_new_def cursor_remaining_def)
  ultimately show ?thesis
    using read_chain_to_end [OF cursor_reader cursor_reader _ _ _ cursor_no_fail cursor_no_fail, of "\<lambda>n. 32" ?c ?d 2 "[0]"] by simp
qed


lemma slice_writer: "byte_writer cursor_slice_poll_write cursor_poll_flush cursor_in cursor_written (\<lambda>_. True) (\<lambda>_. 0)"
  by (rule slice.byte_writer_axioms)


text \<open>
  C23. One \<open>poll_write\<close> of \<open>LineWriter\<close> over any writer: the bytes that it says it took are the next ones, in order,
  behind all those taken before, in the writer inside and then in the buffer; \<open>Pending\<close> and an error
  take nothing and lose nothing; and the buffer stays within its capacity and \<open>lined\<close>: a newline in it is never
  followed by the beginning of another line.
\<close>

theorem line_writer_write:
  assumes "byte_writer wr fl iv written flushed lag" and "memrchr_law memrchr"
    and "bw_ok iv (lw_buf_writer l)" and "lined (bw_buf (lw_buf_writer l))"
  shows "\<exists>p l'. lw_poll_write memrchr wr fl l bs = ret (p, l') \<and> bw_ok iv (lw_buf_writer l') \<and> lined (bw_buf (lw_buf_writer l'))
    \<and> (\<forall>n. p = Ready (Inr n) \<longrightarrow> n \<le> length bs \<and> lw_out written l' = lw_out written l @ take n bs)
    \<and> ((\<nexists>n. p = Ready (Inr n)) \<longrightarrow> lw_out written l' = lw_out written l)"
proof -
  from byte_writer.lw_write_step [OF assms(1,2), of l bs] assms(3,4) obtain p l' where
    l': "lw_poll_write memrchr wr fl l bs = ret (p, l')" "lw_ok iv l'"
      "write_step (lw_out written) (\<lambda>l. lag (bw_inner (lw_buf_writer l))) l bs p l'" by (auto simp: lw_ok_def)
  then show ?thesis by (intro exI [of _ p] exI [of _ l']) (auto simp: lw_ok_def write_step_def split: poll.splits sum.splits)
qed

definition find_last :: memchr_fn where
  "find_last b bs = map_option (\<lambda>i. length bs - Suc i) (find_byte b (rev bs))"

lemma memchr_lawD: "memchr_law m \<Longrightarrow> case m b xs of None \<Rightarrow> b \<notin> set xs | Some i \<Rightarrow> i < length xs \<and> xs ! i = b \<and> b \<notin> set (take i xs)"
  unfolding memchr_law_def by blast

lemma find_last_law: "memrchr_law find_last"
  unfolding memrchr_law_def
proof (intro conjI allI impI)
  fix b bs
  assume "find_last b bs = None"
  then have "find_byte b (rev bs) = None" by (simp add: find_last_def)
  with memchr_lawD [of find_byte b "rev bs", OF find_byte_law] show "b \<notin> set bs" by simp
next
  fix b bs i
  assume "find_last b bs = Some i"
  then obtain j where j: "find_byte b (rev bs) = Some j" "i = length bs - Suc j" by (auto simp: find_last_def)
  with memchr_lawD [of find_byte b "rev bs", OF find_byte_law]
  have j': "j < length bs" "rev bs ! j = b" "b \<notin> set (take j (rev bs))" by simp_all
  then show "i < length bs" "bs ! i = b" using j(2) by (simp_all add: rev_nth)
  show "b \<notin> set (drop (Suc i) bs)" using j' j(2) by (simp add: take_rev Suc_diff_Suc)
qed

lemma line_writer_write_witness:
  "\<exists>p l'. lw_poll_write find_last cursor_slice_poll_write cursor_poll_flush (lw_with_capacity 4 (cursor_new [0, 0, 0])) [65, 10, 66] = ret (p, l')
    \<and> (\<forall>n. p = Ready (Inr n) \<longrightarrow> n \<le> 3 \<and> lw_out cursor_written l' = take n [65, 10, 66])"
proof -
  let ?l = "lw_with_capacity 4 (cursor_new [0, 0, 0])"
  have "bw_ok cursor_in (lw_buf_writer ?l)" "lined (bw_buf (lw_buf_writer ?l))" "lw_out cursor_written ?l = []"
    by (simp_all add: lw_with_capacity_def bw_with_capacity_def bw_ok_def lined_def cursor_in_def cursor_new_def lw_out_def bw_out_def
        cursor_written_def)
  with line_writer_write [OF slice_writer find_last_law, of ?l "[65, 10, 66]"] show ?thesis by fastforce
qed

end
