(* ===== verification/Io_Seek.thy ===== *)
theory Io_Seek
  imports Io_Laws
begin

text \<open>
  Seeking (\<open>futures-util/src/io\<close>): \<open>Seek\<close>, and \<open>BufReader\<close>'s \<open>poll_seek\<close>, \<open>poll_seek_relative\<close> and
  \<open>SeekRelative\<close>. The locale \<open>byte_seeker\<close> states what \<open>AsyncSeek\<close> promises of a reader over fixed data. A buffered
  reader keeps that promise for its own position, which is the inner reader's less what is buffered.
\<close>

section \<open>The trait\<close>

type_synonym 'r seek_fn = "'r \<Rightarrow> SeekFrom \<Rightarrow> ((64 word) io poll \<times> 'r) comp"

text \<open>The position that \<open>pos\<close> means, over \<open>xs\<close> from \<open>p\<close>.\<close>

definition seek_target :: "byte list \<Rightarrow> nat \<Rightarrow> SeekFrom \<Rightarrow> int" where
  "seek_target xs p pos =
     (case pos of
        SeekStart n \<Rightarrow> uint n
      | SeekEnd n \<Rightarrow> int (length xs) + sint n
      | SeekCurrent n \<Rightarrow> int p + sint n)"

text \<open>One \<open>poll_seek\<close>: after \<open>Ok\<close> the position is the one asked for and is the answer; otherwise it is as before.\<close>

definition seek_step ::
  "('r \<Rightarrow> byte list) \<Rightarrow> ('r \<Rightarrow> nat) \<Rightarrow> ('r \<Rightarrow> nat) \<Rightarrow> 'r \<Rightarrow> SeekFrom \<Rightarrow> (64 word) io poll \<Rightarrow> 'r \<Rightarrow> bool" where
  "seek_step data at lag r pos p r' \<longleftrightarrow>
     data r' = data r \<and>
     (case p of
        Ready (Inr n) \<Rightarrow> at r' = unat n \<and> int (at r') = seek_target (data r) (at r) pos \<and> lag r' \<le> lag r
      | Ready (Inl e) \<Rightarrow> at r' = at r \<and> lag r' \<le> lag r
      | Pending \<Rightarrow> at r' = at r \<and> lag r' < lag r)"

lemma seek_step_simps [simp]:
  "seek_step data at lag r pos (Ready (Inr n)) r' \<longleftrightarrow>
     data r' = data r \<and> at r' = unat n \<and> int (at r') = seek_target (data r) (at r) pos \<and> lag r' \<le> lag r"
  "seek_step data at lag r pos (Ready (Inl e)) r' \<longleftrightarrow> data r' = data r \<and> at r' = at r \<and> lag r' \<le> lag r"
  "seek_step data at lag r pos Pending r' \<longleftrightarrow> data r' = data r \<and> at r' = at r \<and> lag r' < lag r"
  by (auto simp: seek_step_def)

locale byte_seeker = byte_reader +
  fixes sk :: "'a seek_fn" and data :: "'a \<Rightarrow> byte list" and at :: "'a \<Rightarrow> nat"
  assumes content_at: "inv r \<Longrightarrow> content r = drop (at r) (data r)"
    and rd_at: "inv r \<Longrightarrow> rd r n = ret (p, r') \<Longrightarrow>
      data r' = data r \<and> at r' = at r + (case p of Ready (Inr bs) \<Rightarrow> length bs | _ \<Rightarrow> 0)"
    and sk: "inv r \<Longrightarrow> \<exists>p r'. sk r pos = ret (p, r') \<and> inv r' \<and> seek_step data at lag r pos p r'"
begin

lemma sk_cases:
  assumes "inv r"
  obtains (ok) n r' where "sk r pos = ret (Ready (Inr n), r')" "inv r'" "data r' = data r" "at r' = unat n"
      "int (at r') = seek_target (data r) (at r) pos" "lag r' \<le> lag r"
    | (err) e r' where "sk r pos = ret (Ready (Inl e), r')" "inv r'" "data r' = data r" "at r' = at r" "lag r' \<le> lag r"
    | (pending) r' where "sk r pos = ret (Pending, r')" "inv r'" "data r' = data r" "at r' = at r" "lag r' < lag r"
proof -
  from sk [OF assms, of pos] obtain p r' where p: "sk r pos = ret (p, r')" "inv r'" "seek_step data at lag r pos p r'" by blast
  show thesis
  proof (cases p)
    case (Ready x)
    with p ok err show thesis by (cases x) auto
  next
    case Pending
    with p pending show thesis by auto
  qed
qed

end

section \<open>Cursor and the futures\<close>

record 'r SeekFut =
  sf_seek :: 'r
  sf_pos :: SeekFrom

definition seek_fut_new :: "'r \<Rightarrow> SeekFrom \<Rightarrow> 'r SeekFut" where
  "seek_fut_new s pos = \<lparr>sf_seek = s, sf_pos = pos\<rparr>"

definition seek_fut_poll :: "'r seek_fn \<Rightarrow> ('r SeekFut, (64 word) io) pollfn" where
  "seek_fut_poll sk this = poll_with (sk (sf_seek this) (sf_pos this)) (\<lambda>r. this\<lparr>sf_seek := r\<rparr>) (\<lambda>p this. ret (p, this))"

definition cursor_at :: "cursor \<Rightarrow> nat" where
  "cursor_at c = unat (cu_pos c)"

text \<open>A cursor's position stays in range of 64 bits, as long as it is where \<open>read\<close> and \<open>seek\<close> put it.\<close>

lemma cursor_seek_ok: "cursor_ok c \<Longrightarrow>
    \<exists>p c'. cursor_poll_seek c pos = ret (p, c') \<and> cursor_ok c' \<and> seek_step cu_inner cursor_at (\<lambda>_. 0) c pos p c'"
  by (auto simp: cursor_poll_seek_def Let_def cursor_ok_def cursor_at_def seek_target_def uint_word_of_int_eq take_bit_int_eq_self
      split: SeekFrom.splits)

lemma cursor_read_at:
  assumes "cursor_poll_read c n = ret (p, c')" and "cursor_ok c"
  shows "cu_inner c' = cu_inner c \<and> cursor_at c' = cursor_at c + (case p of Ready (Inr bs) \<Rightarrow> length bs | _ \<Rightarrow> 0)"
proof -
  let ?k = "length (take n (cursor_remaining c))"
  from assms(1) have p: "p = Ready (Inr (take n (cursor_remaining c)))" "c' = c\<lparr>cu_pos := cu_pos c + word_of_nat ?k\<rparr>"
    by (simp_all add: cursor_poll_read_def Let_def)
  have "cursor_at c' = cursor_at c + ?k"
  proof (cases "?k = 0")
    case True
    then show ?thesis unfolding p(2) True by (simp add: cursor_at_def)
  next
    case False
    define k where "k = ?k"
    have "unat (cu_pos c) + k < 2 ^ 63" unfolding k_def
      using False assms(2) by (auto simp: cursor_remaining_def cursor_ok_def min_def split: if_splits)
    then have "k < 2 ^ 64" "unat (cu_pos c) + k < 2 ^ 64" by simp_all
    then show ?thesis unfolding p(2) cursor_at_def k_def [symmetric] by (simp add: unat_add_usize unat_of_nat)
  qed
  then show ?thesis by (simp add: p)
qed

section \<open>BufReader\<close>

text \<open>\<open>i64::checked_sub\<close>.\<close>

definition checked_sub_i64 :: "64 word \<Rightarrow> 64 word \<Rightarrow> (64 word) option" where
  "checked_sub_i64 a b = (if - (2 ^ 63) \<le> sint a - sint b \<and> sint a - sint b < 2 ^ 63 then Some (a - b) else None)"

definition br_poll_seek :: "'r seek_fn \<Rightarrow> 'r BufReader seek_fn" where
  "br_poll_seek sk this pos =
     (let finish = (\<lambda>result (this :: 'r BufReader). ret (Ready (Inr result), br_discard_buffer this))
      in case pos of
        SeekCurrent n \<Rightarrow>
          assertc (br_pos this \<le> br_cap this) ''attempt to subtract with overflow''
            (let remainder = word_of_nat (br_cap this - br_pos this)
             in case checked_sub_i64 n remainder of
                  Some offset \<Rightarrow> ready_try (sk (br_inner this) (SeekCurrent offset)) (\<lambda>r. this\<lparr>br_inner := r\<rparr>) finish
                | None \<Rightarrow>
                    ready_try (sk (br_inner this) (SeekCurrent (- remainder))) (\<lambda>r. this\<lparr>br_inner := r\<rparr>) (\<lambda>_ this.
                      let this = br_discard_buffer this
                      in ready_try (sk (br_inner this) (SeekCurrent n)) (\<lambda>r. this\<lparr>br_inner := r\<rparr>) finish))
      | _ \<Rightarrow> ready_try (sk (br_inner this) pos) (\<lambda>r. this\<lparr>br_inner := r\<rparr>) finish)"

text \<open>\<open>-offset\<close> overflows for the least \<open>i64\<close>.\<close>

definition I64_MIN :: "64 word" where
  "I64_MIN = word_of_int (- (2 ^ 63))"

definition br_poll_seek_relative :: "'r seek_fn \<Rightarrow> 'r BufReader \<Rightarrow> 64 word \<Rightarrow> (unit io poll \<times> 'r BufReader) comp" where
  "br_poll_seek_relative sk this offset =
     (let slow = poll_with (br_poll_seek sk this (SeekCurrent offset)) id (\<lambda>p this. ret (map_poll (map_sum id (\<lambda>_. ())) p, this));
          pos = br_pos this
      in if sint offset < 0 then
           assertc (offset \<noteq> I64_MIN) ''attempt to negate with overflow''
             (if unat (- offset) \<le> pos then ret (Ready (Inr ()), this\<lparr>br_pos := pos - unat (- offset)\<rparr>) else slow)
         else if pos + unat offset < 2 ^ 64 \<and> pos + unat offset \<le> br_cap this
              then ret (Ready (Inr ()), this\<lparr>br_pos := pos + unat offset\<rparr>)
              else slow)"

record 'r SeekRelative =
  sr_inner :: "'r BufReader"
  sr_offset :: "64 word"
  sr_first :: bool

definition br_seek_relative :: "'r BufReader \<Rightarrow> 64 word \<Rightarrow> 'r SeekRelative" where
  "br_seek_relative this offset = \<lparr>sr_inner = this, sr_offset = offset, sr_first = True\<rparr>"

definition seek_relative_poll :: "'r seek_fn \<Rightarrow> ('r SeekRelative, unit io) pollfn" where
  "seek_relative_poll sk this =
     (let offset = sr_offset this
      in if sr_first this
         then let this = this\<lparr>sr_first := False\<rparr>
              in poll_with (br_poll_seek_relative sk (sr_inner this) offset) (\<lambda>b. this\<lparr>sr_inner := b\<rparr>) (\<lambda>p this. ret (p, this))
         else poll_with (br_poll_seek sk (sr_inner this) (SeekCurrent offset)) (\<lambda>b. this\<lparr>sr_inner := b\<rparr>)
                (\<lambda>p this. ret (map_poll (map_sum id (\<lambda>_. ())) p, this)))"

text \<open>
  The position of a buffered reader, and what makes a seek within the buffer right: the buffer still holds the
  data before the inner reader's position.
\<close>

definition br_at :: "('r \<Rightarrow> nat) \<Rightarrow> 'r BufReader \<Rightarrow> nat" where
  "br_at at this = at (br_inner this) - (br_cap this - br_pos this)"

definition br_aligned :: "('r \<Rightarrow> byte list) \<Rightarrow> ('r \<Rightarrow> nat) \<Rightarrow> 'r BufReader \<Rightarrow> bool" where
  "br_aligned data at this \<longleftrightarrow> br_cap this \<le> at (br_inner this)
     \<and> take (br_cap this) (br_buffer this) = take (br_cap this) (drop (at (br_inner this) - br_cap this) (data (br_inner this)))"

definition br_seek_ok :: "('r \<Rightarrow> bool) \<Rightarrow> ('r \<Rightarrow> byte list) \<Rightarrow> ('r \<Rightarrow> nat) \<Rightarrow> 'r BufReader \<Rightarrow> bool" where
  "br_seek_ok iv data at this \<longleftrightarrow> br_ok iv this \<and> br_aligned data at this"

lemma br_aligned_empty: "br_aligned data at (br_discard_buffer b)"
  by (simp add: br_aligned_def br_discard_buffer_def)

lemma sint_sub_i64:
  assumes "checked_sub_i64 a b = Some c"
  shows "sint c = sint a - sint b"
  using assms by (auto simp: checked_sub_i64_def sint_word_ariths signed_take_bit_int_eq_self split: if_splits)

lemma sint_of_small: "k < 2 ^ 63 \<Longrightarrow> sint (word_of_nat k :: 64 word) = int k"
  by (simp add: signed_of_nat signed_take_bit_int_eq_self)

lemma sint_minus_small:
  assumes "k < 2 ^ 63"
  shows "sint (- (word_of_nat k :: 64 word)) = - int k"
  using assms by (simp add: sint_word_ariths sint_of_small signed_take_bit_int_eq_self)

text \<open>The signed value of an offset and the unsigned one.\<close>

lemma sint_nonneg_unat: "0 \<le> sint (w :: 64 word) \<Longrightarrow> int (unat w) = sint w"
proof -
  assume "0 \<le> sint w"
  then have "\<not> bit (uint w) 63" by (simp add: sint_uint)
  then have "take_bit (Suc 63) (uint w) = take_bit 63 (uint w)" by (simp only: take_bit_Suc_from_most) simp
  moreover have "take_bit (Suc 63) (uint w) = uint w" by (rule take_bit_int_eq_self) (use uint_lt2p [of w] in simp_all)
  ultimately show ?thesis using \<open>\<not> bit (uint w) 63\<close> by (simp add: sint_uint signed_take_bit_eq_if_positive)
qed

lemma unat_minus_neg:
  assumes "sint (w :: 64 word) < 0" and "w \<noteq> I64_MIN"
  shows "int (unat (- w)) = - sint w"
proof -
  have "- (2 ^ 63) \<le> sint w" using sint_ge [of w] by simp
  moreover have "sint w \<noteq> - (2 ^ 63)" 
  proof
    assume "sint w = - (2 ^ 63)"
    then have "word_of_int (sint w) = I64_MIN" by (simp only: I64_MIN_def)
    with assms(2) show False by simp
  qed
  ultimately have "sint (- w) = - sint w" using assms(1)
    by (simp add: sint_word_ariths signed_take_bit_int_eq_self)
  with assms(1) sint_nonneg_unat [of "- w"] show ?thesis by simp
qed

context byte_seeker begin

lemma br_content_at:
  assumes "br_seek_ok inv data at b"
  shows "br_content content b = drop (br_at at b) (data (br_inner b))"
proof -
  let ?xs = "drop (at (br_inner b) - br_cap b) (data (br_inner b))"
  have b: "inv (br_inner b)" "br_pos b \<le> br_cap b" "br_cap b \<le> at (br_inner b)" "take (br_cap b) (br_buffer b) = take (br_cap b) ?xs"
    using assms by (auto simp: br_seek_ok_def br_ok_def br_aligned_def)
  have "content (br_inner b) = drop (br_cap b) ?xs" using content_at [OF b(1)] b(3) by simp
  moreover have "br_slice b = drop (br_pos b) (take (br_cap b) ?xs)" using b(4) by (simp add: br_slice_def)
  moreover have "drop k (take c ys) @ drop c ys = drop k ys" if "k \<le> c" for k c and ys :: "byte list"
    using that by (metis append_take_drop_id drop_append drop_drop le_add_diff_inverse2 append_Nil2 drop_take length_drop take_drop)
  ultimately have "br_content content b = drop (br_pos b) ?xs" using b(2) by (simp add: br_content_def del: drop_drop)
  moreover have "br_pos b + (at (br_inner b) - br_cap b) = br_at at b" using b(2,3) by (simp add: br_at_def)
  ultimately show ?thesis by (simp add: add.commute)
qed

text \<open>Filling keeps the position; consuming moves it.\<close>

lemma br_fill_at:
  assumes "br_seek_ok inv data at b" and "br_poll_fill_buf rd b = ret (p, b')"
  shows "br_seek_ok inv data at b' \<and> br_at at b' = br_at at b \<and> data (br_inner b') = data (br_inner b)"
proof (cases "br_cap b \<le> br_pos b")
  case False
  with assms show ?thesis by (simp add: br_poll_fill_buf_def)
next
  case True
  then have eq: "br_pos b = br_cap b" and inv: "inv (br_inner b)" and ok: "br_ok inv b" "br_aligned data at b"
    using assms(1) by (auto simp: br_seek_ok_def br_ok_def)
  from br_fills [OF ok(1)] assms(2) have ok': "br_ok inv b'" by auto
  show ?thesis
  proof (cases rule: rd_cases [OF inv, of "length (br_buffer b)", case_names ok err pending])
    case (ok bs r')
    then have b': "b' = b\<lparr>br_inner := r', br_buffer := bs @ drop (length bs) (br_buffer b), br_cap := length bs, br_pos := 0\<rparr>"
      using assms(2) True eq by (simp add: br_poll_fill_buf_def Let_def)
    have r': "data r' = data (br_inner b)" "at r' = at (br_inner b) + length bs" using rd_at [OF inv ok(1)] by simp_all
    have "drop (at (br_inner b)) (data (br_inner b)) = bs @ content r'" using ok(3) content_at [OF inv] by simp
    then have "br_aligned data at b'" using r' by (simp add: br_aligned_def b')
    moreover have "br_at at b' = br_at at b" using r' eq by (simp add: br_at_def b')
    ultimately show ?thesis using ok' r' by (simp add: br_seek_ok_def b')
  next
    case (err e r')
    then have "b' = b\<lparr>br_inner := r'\<rparr>" using assms(2) True eq by (simp add: br_poll_fill_buf_def)
    with rd_at [OF inv err(1)] ok ok' show ?thesis by (simp add: br_seek_ok_def br_aligned_def br_at_def)
  next
    case (pending r')
    then have "b' = b\<lparr>br_inner := r'\<rparr>" using assms(2) True eq by (simp add: br_poll_fill_buf_def)
    with rd_at [OF inv pending(1)] ok ok' show ?thesis by (simp add: br_seek_ok_def br_aligned_def br_at_def)
  qed
qed

lemma br_consume_at:
  assumes "br_seek_ok inv data at b" and "n \<le> length (br_slice b)"
  shows "\<exists>b'. br_consume n b = ret b' \<and> br_seek_ok inv data at b' \<and> br_at at b' = br_at at b + n \<and> br_inner b' = br_inner b"
proof -
  have ok: "br_ok inv b" using assms(1) by (simp add: br_seek_ok_def)
  then have "n \<le> br_cap b - br_pos b" "br_pos b \<le> br_cap b" using assms(2) br_length_slice [OF ok] by (simp_all add: br_ok_def)
  moreover have "br_cap b \<le> at (br_inner b)" using assms(1) by (simp add: br_seek_ok_def br_aligned_def)
  ultimately show ?thesis using br_consume_ok [OF ok assms(2)] assms(1)
    by (simp add: br_seek_ok_def br_at_def br_aligned_def)
qed

lemma br_read_at:
  assumes "br_seek_ok inv data at b" and "br_poll_read rd b n = ret (p, b')"
  shows "br_seek_ok inv data at b' \<and> data (br_inner b') = data (br_inner b)
    \<and> br_at at b' = br_at at b + (case p of Ready (Inr bs) \<Rightarrow> length bs | _ \<Rightarrow> 0)"
proof (cases "br_pos b = br_cap b \<and> length (br_buffer b) \<le> n")
  case True
  have inv: "inv (br_inner b)" and ok: "br_ok inv b" using assms(1) by (simp_all add: br_seek_ok_def br_ok_def)
  from rd [OF inv, of n] obtain q r' where q: "rd (br_inner b) n = ret (q, r')" "inv r'" by blast
  note r' = rd_at [OF inv q(1)]
  show ?thesis
  proof (cases q)
    case Pending
    with q(1) True assms(2) have "p = Pending" "b' = b\<lparr>br_inner := r'\<rparr>" by (auto simp: br_poll_read_def)
    with r' Pending assms(1) q(2) show ?thesis by (simp add: br_seek_ok_def br_ok_def br_aligned_def br_at_def)
  next
    case (Ready x)
    with q(1) True assms(2) have "p = Ready x" "b' = br_discard_buffer (b\<lparr>br_inner := r'\<rparr>)" by (auto simp: br_poll_read_def)
    with r' Ready ok q(2) True show ?thesis
      by (simp add: br_seek_ok_def br_ok_def br_aligned_empty br_at_def) (simp add: br_discard_buffer_def)
  qed
next
  case False
  have ok: "br_ok inv b" using assms(1) by (simp add: br_seek_ok_def)
  from br_fills [OF ok] obtain q u where u: "br_poll_fill_buf rd b = ret (q, u)"
    "fill_step (br_content content) (\<lambda>t. lag (br_inner t)) br_slice b q u" by blast
  note at = br_fill_at [OF assms(1) u(1)]
  show ?thesis
  proof (cases "\<exists>rem. q = Ready (Inr rem)")
    case False
    then consider "q = Pending" | e where "q = Ready (Inl e)" by (metis poll.exhaust sum.exhaust)
    then show ?thesis by cases (use \<open>\<not> (br_pos b = _ \<and> _)\<close> u(1) assms(2) at in \<open>auto simp: br_poll_read_def\<close>)
  next
    case True
    then obtain rem where rem: "q = Ready (Inr rem)" by blast
    then have len: "length (take n rem) \<le> length (br_slice u)" using u(2) by simp
    from br_consume_at [OF conjunct1 [OF at] len] obtain v where v: "br_consume (length (take n rem)) u = ret v"
      "br_seek_ok inv data at v" "br_at at v = br_at at u + length (take n rem)" "br_inner v = br_inner u" by blast
    have "p = Ready (Inr (take n rem))" "b' = v"
      using assms(2) False u(1) v(1) rem by (auto simp: br_poll_read_def Let_def)
    with v at show ?thesis by simp
  qed
qed

lemma br_at_inner:
  assumes "br_seek_ok inv data at b"
  shows "int (br_at at b) = int (at (br_inner b)) - int (br_cap b - br_pos b)" and "br_cap b - br_pos b < 2 ^ 63"
  using assms by (auto simp: br_seek_ok_def br_ok_def br_aligned_def br_at_def of_nat_diff)

abbreviation br_seeks :: "'a BufReader \<Rightarrow> SeekFrom \<Rightarrow> (64 word) io poll \<Rightarrow> 'a BufReader \<Rightarrow> bool" where
  "br_seeks \<equiv> seek_step (\<lambda>b. data (br_inner b)) (br_at at) (\<lambda>b. lag (br_inner b))"

text \<open>A seek of the inner reader to the place meant.\<close>

lemma br_seek_inner:
  assumes "br_seek_ok inv data at b"
    and "seek_target (data (br_inner b)) (at (br_inner b)) pos' = seek_target (data (br_inner b)) (br_at at b) pos"
  shows "\<exists>p b'. ready_try (sk (br_inner b) pos') (\<lambda>r. b\<lparr>br_inner := r\<rparr>) (\<lambda>result this. ret (Ready (Inr result), br_discard_buffer this)) = ret (p, b')
    \<and> br_seek_ok inv data at b' \<and> br_seeks b pos p b'"
proof -
  have inv: "inv (br_inner b)" and ok: "br_ok inv b" using assms(1) by (simp_all add: br_seek_ok_def br_ok_def)
  show ?thesis
  proof (cases rule: sk_cases [OF inv, of pos', case_names ok err pending])
    case (ok n r')
    have "br_seek_ok inv data at (br_discard_buffer (b\<lparr>br_inner := r'\<rparr>))"
      using \<open>br_ok inv b\<close> ok(2) by (simp add: br_seek_ok_def br_aligned_empty) (simp add: br_ok_def br_discard_buffer_def)
    with ok assms(2) show ?thesis by (simp add: br_at_def br_discard_buffer_def)
  qed (use assms(1) in \<open>simp_all add: br_seek_ok_def br_ok_def br_aligned_def br_at_def\<close>)
qed

lemma br_seek_step:
  assumes "br_seek_ok inv data at b"
  shows "\<exists>p b'. br_poll_seek sk b pos = ret (p, b') \<and> br_seek_ok inv data at b' \<and> br_seeks b pos p b'"
proof (cases "\<exists>n. pos = SeekCurrent n")
  case False
  then have "br_poll_seek sk b pos = ready_try (sk (br_inner b) pos) (\<lambda>r. b\<lparr>br_inner := r\<rparr>)
      (\<lambda>result this. ret (Ready (Inr result), br_discard_buffer this))"
    by (cases pos) (simp_all add: br_poll_seek_def Let_def)
  moreover have "seek_target xs k pos = seek_target xs k' pos" for xs k k'
    using False by (cases pos) (simp_all add: seek_target_def)
  ultimately show ?thesis using br_seek_inner [OF assms, of pos pos] by presburger
next
  case True
  then obtain n where n: "pos = SeekCurrent n" by blast
  let ?rem = "br_cap b - br_pos b" and ?fin = "\<lambda>result this. ret (Ready (Inr result), br_discard_buffer this)"
  note at = br_at_inner [OF assms]
  have inv: "inv (br_inner b)" and okb: "br_ok inv b" and le: "br_pos b \<le> br_cap b"
    using assms by (simp_all add: br_seek_ok_def br_ok_def)
  show ?thesis
  proof (cases "checked_sub_i64 n (word_of_nat ?rem)")
    case (Some offset)
    then have run: "br_poll_seek sk b pos = ready_try (sk (br_inner b) (SeekCurrent offset)) (\<lambda>r. b\<lparr>br_inner := r\<rparr>) ?fin"
      using le by (simp add: br_poll_seek_def n)
    have "sint offset = sint n - int ?rem" using sint_sub_i64 [OF Some] sint_of_small [OF at(2)] by simp
    then have "seek_target (data (br_inner b)) (at (br_inner b)) (SeekCurrent offset) = seek_target (data (br_inner b)) (br_at at b) pos"
      using at(1) by (simp add: seek_target_def n)
    from br_seek_inner [OF assms this] show ?thesis unfolding run .
  next
    case None
    define bk where "bk = SeekCurrent (- word_of_nat ?rem)"
    have run: "br_poll_seek sk b pos = ready_try (sk (br_inner b) bk) (\<lambda>r. b\<lparr>br_inner := r\<rparr>) (\<lambda>_ this.
        let this = br_discard_buffer this
        in ready_try (sk (br_inner this) (SeekCurrent n)) (\<lambda>r. this\<lparr>br_inner := r\<rparr>) ?fin)"
      using le None by (simp add: br_poll_seek_def n bk_def)
    show ?thesis
    proof (cases rule: sk_cases [OF inv, of bk, case_names ok err pending])
      case (ok m r')
      define c where "c = br_discard_buffer (b\<lparr>br_inner := r'\<rparr>)"
      have run': "br_poll_seek sk b pos = ready_try (sk (br_inner c) (SeekCurrent n)) (\<lambda>r. c\<lparr>br_inner := r\<rparr>) ?fin"
        unfolding run ok(1) c_def by (simp only: ready_try_simps Let_def)
      have "int (at r') = int (br_at at b)"
        using ok(5) at sint_minus_small [OF at(2)] by (simp add: seek_target_def bk_def)
      then have "at r' = br_at at b" by linarith
      then have same: "at (br_inner c) = br_at at b" "br_at at c = br_at at b" "data (br_inner c) = data (br_inner b)"
        "lag (br_inner c) \<le> lag (br_inner b)" using ok(3,6) by (simp_all add: c_def br_discard_buffer_def br_at_def)
      have "br_seek_ok inv data at c"
        using okb ok(2) unfolding c_def by (simp add: br_seek_ok_def br_aligned_empty) (simp add: br_ok_def br_discard_buffer_def)
      moreover have "seek_target (data (br_inner c)) (at (br_inner c)) (SeekCurrent n) = seek_target (data (br_inner c)) (br_at at c) pos"
        using same by (simp add: n)
      ultimately obtain p b' where "br_poll_seek sk b pos = ret (p, b')" "br_seek_ok inv data at b'" "br_seeks c pos p b'"
        unfolding run' using br_seek_inner by blast
      moreover have "br_seeks b pos p b'" using \<open>br_seeks c pos p b'\<close> same
        by (auto simp: seek_step_def split: poll.splits sum.splits)
      ultimately show ?thesis by blast
    next
      case (err e r')
      then show ?thesis using assms unfolding run by (simp add: br_seek_ok_def br_ok_def br_aligned_def br_at_def)
    next
      case (pending r')
      then show ?thesis using assms unfolding run by (simp add: br_seek_ok_def br_ok_def br_aligned_def br_at_def)
    qed
  qed
qed

text \<open>\<open>poll_seek_relative\<close>, except from the least offset.\<close>

lemma br_seek_relative_step:
  assumes "br_seek_ok inv data at b" and "offset \<noteq> I64_MIN"
  shows "\<exists>p b'. br_poll_seek_relative sk b offset = ret (p, b') \<and> br_seek_ok inv data at b' \<and> data (br_inner b') = data (br_inner b)
    \<and> (p = Ready (Inr ()) \<longrightarrow> int (br_at at b') = int (br_at at b) + sint offset \<and> lag (br_inner b') \<le> lag (br_inner b))
    \<and> (\<forall>e. p = Ready (Inl e) \<longrightarrow> br_at at b' = br_at at b \<and> lag (br_inner b') \<le> lag (br_inner b))
    \<and> (p = Pending \<longrightarrow> br_at at b' = br_at at b \<and> lag (br_inner b') < lag (br_inner b))" (is "?goal (br_poll_seek_relative sk b offset)")
proof -
  have b: "br_pos b \<le> br_cap b" "br_cap b \<le> at (br_inner b)" "br_cap b < 2 ^ 63"
    using assms(1) by (auto simp: br_seek_ok_def br_ok_def br_aligned_def)
  have move: "?goal (ret (Ready (Inr ()), b\<lparr>br_pos := k\<rparr>))" if "int k = int (br_pos b) + sint offset" "k \<le> br_cap b" for k
  proof -
    have "int (br_at at (b\<lparr>br_pos := k\<rparr>)) = int (br_at at b) + sint offset" using that b by (simp add: br_at_def of_nat_diff)
    with assms(1) that(2) show ?thesis by (auto simp: br_seek_ok_def br_ok_def br_aligned_def)
  qed
  have slow: "?goal (poll_with (br_poll_seek sk b (SeekCurrent offset)) id (\<lambda>p this. ret (map_poll (map_sum id (\<lambda>_. ())) p, this)))"
  proof -
    from br_seek_step [OF assms(1), of "SeekCurrent offset"] obtain p b' where
      p: "br_poll_seek sk b (SeekCurrent offset) = ret (p, b')" "br_seek_ok inv data at b'" "br_seeks b (SeekCurrent offset) p b'" by blast
    show ?thesis unfolding p(1) using p(2,3) by (cases p; cases "case p of Ready x \<Rightarrow> x") (auto simp: seek_target_def)
  qed
  show ?thesis
  proof (cases "sint offset < 0")
    case True
    have neg: "int (unat (- offset)) = - sint offset" using True assms(2) by (rule unat_minus_neg)
    show ?thesis
    proof (cases "unat (- offset) \<le> br_pos b")
      case le: True
      then have "br_poll_seek_relative sk b offset = ret (Ready (Inr ()), b\<lparr>br_pos := br_pos b - unat (- offset)\<rparr>)"
        using True assms(2) by (simp add: br_poll_seek_relative_def Let_def)
      with move [of "br_pos b - unat (- offset)"] le neg b(1) show ?thesis by (simp add: of_nat_diff)
    next
      case False
      with True assms(2) slow show ?thesis by (simp add: br_poll_seek_relative_def Let_def)
    qed
  next
    case False
    then have pos: "int (unat offset) = sint offset" by (intro sint_nonneg_unat) simp
    show ?thesis
    proof (cases "br_pos b + unat offset < 2 ^ 64 \<and> br_pos b + unat offset \<le> br_cap b")
      case True
      then have "br_poll_seek_relative sk b offset = ret (Ready (Inr ()), b\<lparr>br_pos := br_pos b + unat offset\<rparr>)"
        using False by (simp add: br_poll_seek_relative_def Let_def)
      with move [of "br_pos b + unat offset"] True pos show ?thesis by simp
    next
      case far: False
      then show ?thesis using False slow by (auto simp: br_poll_seek_relative_def Let_def)
    qed
  qed
qed

lemma br_seeker:
  "byte_seeker (br_poll_read rd) (br_seek_ok inv data at) (br_content content) (\<lambda>b. lag (br_inner b))
     (br_poll_seek sk) (\<lambda>b. data (br_inner b)) (br_at at)"
proof unfold_locales
  fix b n
  assume b: "br_seek_ok inv data at b"
  then have ok: "br_ok inv b" by (simp add: br_seek_ok_def)
  show "\<exists>p b'. br_poll_read rd b n = ret (p, b') \<and> br_seek_ok inv data at b'
      \<and> read_step (br_content content) (\<lambda>b. lag (br_inner b)) b n p b'"
    using br_reads [OF ok, of n] br_read_at [OF b] by blast
  show "br_content content b = drop (br_at at b) (data (br_inner b))" by (rule br_content_at [OF b])
  fix p b'
  assume "br_poll_read rd b n = ret (p, b')"
  with br_read_at [OF b] show "data (br_inner b') = data (br_inner b) \<and>
      br_at at b' = br_at at b + (case p of Ready (Inr bs) \<Rightarrow> length bs | _ \<Rightarrow> 0)" by blast
next
  fix b pos
  assume "br_seek_ok inv data at b"
  then show "\<exists>p b'. br_poll_seek sk b pos = ret (p, b') \<and> br_seek_ok inv data at b' \<and> br_seeks b pos p b'" by (rule br_seek_step)
qed

text \<open>\<open>SeekRelative\<close> completes, having moved by the offset or, after an error, not at all.\<close>

lemma seek_relative_completes:
  assumes "br_seek_ok inv data at (sr_inner f)" and "sr_first f \<Longrightarrow> sr_offset f \<noteq> I64_MIN"
  shows "\<exists>x g. completes (seek_relative_poll sk) f x g \<and> br_seek_ok inv data at (sr_inner g)
    \<and> data (br_inner (sr_inner g)) = data (br_inner (sr_inner f))
    \<and> int (br_at at (sr_inner g)) = int (br_at at (sr_inner f)) + (case x of Inr _ \<Rightarrow> sint (sr_offset f) | Inl _ \<Rightarrow> 0)"
  using assms
proof (induction "lag (br_inner (sr_inner f))" arbitrary: f rule: less_induct)
  case less
  let ?b = "sr_inner f"
  have "\<exists>p b'. seek_relative_poll sk f = ret (p, f\<lparr>sr_first := False, sr_inner := b'\<rparr>) \<and> br_seek_ok inv data at b' \<and> data (br_inner b') = data (br_inner ?b)
    \<and> (p = Ready (Inr ()) \<longrightarrow> int (br_at at b') = int (br_at at ?b) + sint (sr_offset f))
    \<and> (\<forall>e. p = Ready (Inl e) \<longrightarrow> br_at at b' = br_at at ?b)
    \<and> (p = Pending \<longrightarrow> br_at at b' = br_at at ?b \<and> lag (br_inner b') < lag (br_inner ?b))"
  proof (cases "sr_first f")
    case True
    from br_seek_relative_step [OF less.prems(1) less.prems(2) [OF True]] obtain p b' where
      p: "br_poll_seek_relative sk ?b (sr_offset f) = ret (p, b')" "br_seek_ok inv data at b'" "data (br_inner b') = data (br_inner ?b)"
      "p = Ready (Inr ()) \<longrightarrow> int (br_at at b') = int (br_at at ?b) + sint (sr_offset f)"
      "\<forall>e. p = Ready (Inl e) \<longrightarrow> br_at at b' = br_at at ?b"
      "p = Pending \<longrightarrow> br_at at b' = br_at at ?b \<and> lag (br_inner b') < lag (br_inner ?b)" by blast
    then show ?thesis using True by (auto simp: seek_relative_poll_def)
  next
    case False
    from br_seek_step [OF less.prems(1), of "SeekCurrent (sr_offset f)"] obtain p b' where
      p: "br_poll_seek sk ?b (SeekCurrent (sr_offset f)) = ret (p, b')" "br_seek_ok inv data at b'"
        "br_seeks ?b (SeekCurrent (sr_offset f)) p b'" by blast
    have "f\<lparr>sr_first := False, sr_inner := b'\<rparr> = f\<lparr>sr_inner := b'\<rparr>" using False by (cases f) simp
    then have "seek_relative_poll sk f = ret (map_poll (map_sum id (\<lambda>_. ())) p, f\<lparr>sr_first := False, sr_inner := b'\<rparr>)"
      using False p(1) by (simp add: seek_relative_poll_def)
    moreover have "(map_poll (map_sum id (\<lambda>_. ())) p = Ready (Inr ()) \<longrightarrow> int (br_at at b') = int (br_at at ?b) + sint (sr_offset f))
        \<and> (\<forall>e. map_poll (map_sum id (\<lambda>_. ())) p = Ready (Inl e) \<longrightarrow> br_at at b' = br_at at ?b)
        \<and> (map_poll (map_sum id (\<lambda>_. ())) p = Pending \<longrightarrow> br_at at b' = br_at at ?b \<and> lag (br_inner b') < lag (br_inner ?b))
        \<and> data (br_inner b') = data (br_inner ?b)"
      using p(3) by (auto simp: seek_step_def seek_target_def split: poll.splits sum.splits)
    ultimately show ?thesis using p(2) by blast
  qed
  then obtain p b' where p: "seek_relative_poll sk f = ret (p, f\<lparr>sr_first := False, sr_inner := b'\<rparr>)" "br_seek_ok inv data at b'"
    "data (br_inner b') = data (br_inner ?b)"
    "p = Ready (Inr ()) \<longrightarrow> int (br_at at b') = int (br_at at ?b) + sint (sr_offset f)"
    "\<forall>e. p = Ready (Inl e) \<longrightarrow> br_at at b' = br_at at ?b"
    "p = Pending \<longrightarrow> br_at at b' = br_at at ?b \<and> lag (br_inner b') < lag (br_inner ?b)" by blast
  show ?case
  proof (cases p)
    case (Ready x)
    with p(1) have "completes (seek_relative_poll sk) f x (f\<lparr>sr_first := False, sr_inner := b'\<rparr>)" by (simp add: completes_ready)
    moreover have "int (br_at at b') = int (br_at at ?b) + (case x of Inr _ \<Rightarrow> sint (sr_offset f) | Inl _ \<Rightarrow> 0)"
      using p(4,5) Ready by (cases x) auto
    ultimately show ?thesis using p(2,3) by fastforce
  next
    case Pending
    define f' where "f' = f\<lparr>sr_first := False, sr_inner := b'\<rparr>"
    have step: "seek_relative_poll sk f = ret (Pending, f')" using p(1) Pending by (simp add: f'_def)
    have f': "sr_offset f' = sr_offset f" "sr_inner f' = b'" "\<not> sr_first f'" by (simp_all add: f'_def)
    have "lag (br_inner (sr_inner f')) < lag (br_inner ?b)" using p(6) Pending f' by simp
    from less.hyps [OF this] p(2) f' obtain x g where "completes (seek_relative_poll sk) f' x g" "br_seek_ok inv data at (sr_inner g)"
      "data (br_inner (sr_inner g)) = data (br_inner b')"
      "int (br_at at (sr_inner g)) = int (br_at at b') + (case x of Inr _ \<Rightarrow> sint (sr_offset f) | Inl _ \<Rightarrow> 0)" by metis
    with completes_pend [of "seek_relative_poll sk", OF step] p(3,6) Pending show ?thesis by metis
  qed
qed

end

text \<open>The negation of the least \<open>i64\<close> panics where overflow is checked.\<close>

lemma br_seek_relative_min: "\<exists>m. br_poll_seek_relative sk b I64_MIN = panic m"
  by (intro exI) (simp add: br_poll_seek_relative_def Let_def I64_MIN_def)

section \<open>Over a cursor\<close>

text \<open>A cursor that has been read to its end only: \<open>read\<close> leaves it where it is, and a seek stays below \<open>2^64\<close>.\<close>

interpretation cursor_seek: byte_seeker cursor_poll_read cursor_ok cursor_remaining "\<lambda>_. 0" cursor_poll_seek cu_inner cursor_at
proof unfold_locales
  fix c pos
  assume c: "cursor_ok c"
  show "cursor_remaining c = drop (cursor_at c) (cu_inner c)" by (simp add: cursor_remaining_def cursor_at_def min_def)
  show "\<exists>p c'. cursor_poll_seek c pos = ret (p, c') \<and> cursor_ok c' \<and> seek_step cu_inner cursor_at (\<lambda>_. 0) c pos p c'"
    by (rule cursor_seek_ok [OF c])
  fix n p c'
  assume "cursor_poll_read c n = ret (p, c')"
  then show "cu_inner c' = cu_inner c \<and> cursor_at c' = cursor_at c + (case p of Ready (Inr bs) \<Rightarrow> length bs | _ \<Rightarrow> 0)"
    using c by (rule cursor_read_at)
qed

interpretation br_cursor_seek: byte_seeker "br_poll_read cursor_poll_read" "br_seek_ok cursor_ok cu_inner cursor_at"
    "br_content cursor_remaining" "\<lambda>_. 0" "br_poll_seek cursor_poll_seek" "\<lambda>b. cu_inner (br_inner b)" "br_at cursor_at"
  by (rule cursor_seek.br_seeker)

section \<open>The law\<close>

text \<open>
  C22. \<open>seek_relative\<close> of a \<open>BufReader\<close> over any seekable reader completes. After \<open>Ok\<close> the reader stands \<open>offset\<close>
  bytes further in the data (or before, for a negative one), whether the place was in the buffer, where nothing but the
  buffer position changes, or outside, where it is discarded, and in one inner seek or in two; after an error it
  stands where it was. In either case what is read next are the data from there.
\<close>

theorem seek_relative_correct:
  assumes "byte_seeker rd iv content lag sk data at" and "br_seek_ok iv data at b" and "offset \<noteq> I64_MIN"
  shows "\<exists>x g. completes (seek_relative_poll sk) (br_seek_relative b offset) x g
    \<and> br_seek_ok iv data at (sr_inner g) \<and> data (br_inner (sr_inner g)) = data (br_inner b)
    \<and> int (br_at at (sr_inner g)) = int (br_at at b) + (case x of Inr _ \<Rightarrow> sint offset | Inl _ \<Rightarrow> 0)
    \<and> br_content content (sr_inner g) = drop (br_at at (sr_inner g)) (data (br_inner b))"
proof -
  have "br_seek_ok iv data at (sr_inner (br_seek_relative b offset))" using assms(2) by (simp add: br_seek_relative_def)
  have f: "sr_inner (br_seek_relative b offset) = b" "sr_offset (br_seek_relative b offset) = offset"
    by (simp_all add: br_seek_relative_def)
  from byte_seeker.seek_relative_completes [OF assms(1) \<open>br_seek_ok iv data at (sr_inner _)\<close>] assms(3) obtain x g where
    g: "completes (seek_relative_poll sk) (br_seek_relative b offset) x g" "br_seek_ok iv data at (sr_inner g)"
      "data (br_inner (sr_inner g)) = data (br_inner b)"
      "int (br_at at (sr_inner g)) = int (br_at at b) + (case x of Inr _ \<Rightarrow> sint offset | Inl _ \<Rightarrow> 0)"
    unfolding f by blast
  with byte_seeker.br_content_at [OF assms(1) g(2)] show ?thesis by auto
qed

lemma cursor_seeker: "byte_seeker cursor_poll_read cursor_ok cursor_remaining (\<lambda>_. 0) cursor_poll_seek cu_inner cursor_at"
  by (rule cursor_seek.byte_seeker_axioms)

lemma seek_relative_correct_witness:
  "\<exists>x g. completes (seek_relative_poll cursor_poll_seek)
      (br_seek_relative \<lparr>br_inner = \<lparr>cu_inner = [1, 2, 3, 4, 5], cu_pos = 4\<rparr>, br_buffer = [3, 4, 0], br_pos = 1, br_cap = 2\<rparr> (- 2)) x g
    \<and> (\<forall>u. x = Inr u \<longrightarrow> br_content cursor_remaining (sr_inner g) = [2, 3, 4, 5])"
proof -
  let ?b = "\<lparr>br_inner = \<lparr>cu_inner = [1, 2, 3, 4, 5], cu_pos = 4\<rparr>, br_buffer = [3, 4, 0], br_pos = 1, br_cap = 2\<rparr> :: cursor BufReader"
  have "br_seek_ok cursor_ok cu_inner cursor_at ?b" "- 2 \<noteq> I64_MIN" "br_at cursor_at ?b = 3"
    by (simp_all add: br_seek_ok_def br_ok_def cursor_ok_def br_aligned_def cursor_at_def I64_MIN_def br_at_def)
  from seek_relative_correct [OF cursor_seeker this(1,2)] this(3) obtain x g where
    g: "completes (seek_relative_poll cursor_poll_seek) (br_seek_relative ?b (- 2)) x g"
      "int (br_at cursor_at (sr_inner g)) = 3 + (case x of Inr _ \<Rightarrow> sint (- 2 :: 64 word) | Inl _ \<Rightarrow> 0)"
      "br_content cursor_remaining (sr_inner g) = drop (br_at cursor_at (sr_inner g)) [1, 2, 3, 4, 5]" by auto
  have "br_content cursor_remaining (sr_inner g) = [2, 3, 4, 5]" if "x = Inr u" for u
  proof -
    have "int (br_at cursor_at (sr_inner g)) = 1" using g(2) that by simp
    then have "br_at cursor_at (sr_inner g) = 1" by linarith
    with g(3) show ?thesis by simp
  qed
  with g(1) show ?thesis by blast
qed

end
