(* ===== verification/Future_Set.thy ===== *)
theory Future_Set
  imports Stream_Map Future_Combinators "HOL-Library.Multiset"
begin

text \<open>
  What the streams that run many futures at once ask of the set that holds them, as the locale \<open>future_set\<close>, and
  \<open>FuturesUnordered\<close> on one thread as a provider: the ready-to-run queue is a list, and every task that answered
  \<open>Pending\<close> has been woken again by the next poll. Wake-ups from other threads, at any point, are the matter of
  Futures_Unordered.
\<close>

section \<open>The contract\<close>

text \<open>
  \<open>holds n q M\<close>: the futures in the set will resolve to the values \<open>M\<close>, after at most \<open>n\<close> polls in all. A poll that
  left the set as \<open>q'\<close>: it takes a value out, says that there is none, or some future has come closer to its value.
\<close>

definition set_step :: "(nat \<Rightarrow> 'q \<Rightarrow> 'o multiset \<Rightarrow> bool) \<Rightarrow> nat \<Rightarrow> 'o multiset \<Rightarrow> 'o option poll \<Rightarrow> 'q \<Rightarrow> bool" where
  "set_step holds n M p q' \<longleftrightarrow>
     (\<forall>y. p = Ready (Some y) \<longrightarrow> (\<exists>n' M'. n' \<le> n \<and> M = add_mset y M' \<and> holds n' q' M'))
     \<and> (p = Ready None \<longrightarrow> M = {#} \<and> holds n q' M)
     \<and> (p = Pending \<longrightarrow> M \<noteq> {#} \<and> (\<exists>n'<n. holds n' q' M))"

lemma set_step_simps [simp]:
  "set_step holds n M (Ready (Some y)) q' \<longleftrightarrow> (\<exists>n' M'. n' \<le> n \<and> M = add_mset y M' \<and> holds n' q' M')"
  "set_step holds n M (Ready None) q' \<longleftrightarrow> M = {#} \<and> holds n q' M"
  "set_step holds n M Pending q' \<longleftrightarrow> M \<noteq> {#} \<and> (\<exists>n'<n. holds n' q' M)"
  by (simp_all add: set_step_def)

locale future_set =
  fixes poll_next :: "('q, 'o option) pollfn" and push :: "'f \<Rightarrow> 'q \<Rightarrow> 'q" and size_of :: "'q \<Rightarrow> nat"
    and holds :: "nat \<Rightarrow> 'q \<Rightarrow> 'o multiset \<Rightarrow> bool" and val :: "nat \<Rightarrow> 'f \<Rightarrow> 'o \<Rightarrow> bool"
  assumes holds_poll: "holds n q M \<Longrightarrow> \<exists>p q'. poll_next q = ret (p, q') \<and> set_step holds n M p q'"
    and holds_push: "holds n q M \<Longrightarrow> val k f v \<Longrightarrow> holds (n + k) (push f q) (add_mset v M)"
    and holds_size: "holds n q M \<Longrightarrow> size_of q = size M"
begin

lemma poll_cases:
  assumes "holds n q M"
  obtains (item) y q' n' M' where "poll_next q = ret (Ready (Some y), q')" "n' \<le> n" "M = add_mset y M'" "holds n' q' M'"
    | (ended) q' where "poll_next q = ret (Ready None, q')" "M = {#}" "holds n q' M"
    | (wait) q' n' where "poll_next q = ret (Pending, q')" "M \<noteq> {#}" "n' < n" "holds n' q' M"
proof -
  from holds_poll [OF assms] obtain p q' where p: "poll_next q = ret (p, q')" "set_step holds n M p q'" by blast
  show thesis
  proof (cases p)
    case (Ready x)
    with p item ended show thesis by (cases x) auto
  next
    case Pending
    with p wait show thesis by auto
  qed
qed

end

section \<open>FuturesUnordered on one thread\<close>

record 'f FutureSet =
  fs_ready :: "'f list"
  fs_waiting :: "'f list"
  fs_is_terminated :: bool

definition fs_new :: "'f FutureSet" where
  "fs_new = \<lparr>fs_ready = [], fs_waiting = [], fs_is_terminated = False\<rparr>"

definition fs_len :: "'f FutureSet \<Rightarrow> nat" where
  "fs_len this = length (fs_ready this) + length (fs_waiting this)"

definition fs_push :: "'f \<Rightarrow> 'f FutureSet \<Rightarrow> 'f FutureSet" where
  "fs_push future this = this\<lparr>fs_is_terminated := False, fs_ready := fs_ready this @ [future]\<rparr>"

definition fs_clear :: "'f FutureSet \<Rightarrow> 'f FutureSet" where
  "fs_clear this = fs_new"

definition fs_wake_all :: "'f FutureSet \<Rightarrow> 'f FutureSet" where
  "fs_wake_all this = this\<lparr>fs_ready := fs_ready this @ fs_waiting this, fs_waiting := []\<rparr>"

text \<open>
  The loop of \<open>poll_next\<close>, over the ready-to-run queue: each future is polled once, none wakes itself while
  it is polled, and the call gives up when \<open>len\<close> futures have been polled.
\<close>

primrec fs_loop :: "('f, 'o) pollfn \<Rightarrow> nat \<Rightarrow> 'f list \<Rightarrow> nat \<Rightarrow> 'f FutureSet \<Rightarrow> ('o option poll \<times> 'f FutureSet) comp" where
  "fs_loop poll len [] polled this =
     (if fs_waiting this = [] then ret (Ready None, this\<lparr>fs_ready := [], fs_is_terminated := True\<rparr>)
      else ret (Pending, this\<lparr>fs_ready := []\<rparr>))"
| "fs_loop poll len (future # queue) polled this =
     bindc (poll future) (\<lambda>(res, future).
       let polled = polled + 1 in
       case res of
         Pending \<Rightarrow>
           let this = this\<lparr>fs_waiting := fs_waiting this @ [future]\<rparr>
           in if polled = len then ret (Pending, this\<lparr>fs_ready := queue\<rparr>) else fs_loop poll len queue polled this
       | Ready output \<Rightarrow> ret (Ready (Some output), this\<lparr>fs_ready := queue\<rparr>))"

definition fs_poll_next :: "('f, 'o) pollfn \<Rightarrow> ('f FutureSet, 'o option) pollfn" where
  "fs_poll_next poll this = fs_loop poll (fs_len this) (fs_ready this) 0 this"

definition fs_poll_woken :: "('f, 'o) pollfn \<Rightarrow> ('f FutureSet, 'o option) pollfn" where
  "fs_poll_woken poll this = fs_poll_next poll (fs_wake_all this)"

definition fs_holds :: "('f, 'o) pollfn \<Rightarrow> nat \<Rightarrow> 'f FutureSet \<Rightarrow> 'o multiset \<Rightarrow> bool" where
  "fs_holds poll n this M \<longleftrightarrow> (\<exists>xs. futs_in poll n (fs_ready this @ fs_waiting this) xs \<and> M = mset xs)"

lemma set_step_mono:
  assumes "set_step H m M p q" and "m \<le> n" and "\<And>i j q M. H i q M \<Longrightarrow> i \<le> j \<Longrightarrow> H j q M"
  shows "set_step H n M p q"
proof -
  consider "p = Pending" | "p = Ready None" | y where "p = Ready (Some y)" by (metis poll.exhaust option.exhaust)
  then show ?thesis
    by cases (use assms(1,2) assms(3) [of m q M n] in \<open>auto dest: less_le_trans intro: le_trans\<close>)
qed

lemma futs_in_mono: "futs_in p m fs xs \<Longrightarrow> m \<le> n \<Longrightarrow> futs_in p n fs xs"
  by (cases fs) (simp_all, blast intro: order_trans)

lemma fs_holds_mono: "fs_holds p i s M \<Longrightarrow> i \<le> j \<Longrightarrow> fs_holds p j s M"
  unfolding fs_holds_def by (blast intro: futs_in_mono)

lemma futs_in_ConsI: "resolves_in p i f y \<Longrightarrow> futs_in p j fs ys \<Longrightarrow> i + j \<le> n \<Longrightarrow> futs_in p n (f # fs) (y # ys)"
  by auto

lemma futs_in_length: "futs_in p n fs xs \<Longrightarrow> length xs = length fs"
  by (induction fs arbitrary: n xs) auto

lemma futs_in_append:
  "futs_in p n (fs @ gs) xs \<longleftrightarrow> (\<exists>i j ys zs. xs = ys @ zs \<and> futs_in p i fs ys \<and> futs_in p j gs zs \<and> i + j \<le> n)"
proof (induction fs arbitrary: n xs)
  case Nil
  show ?case
  proof
    assume "futs_in p n ([] @ gs) xs"
    then show "\<exists>i j ys zs. xs = ys @ zs \<and> futs_in p i [] ys \<and> futs_in p j gs zs \<and> i + j \<le> n"
      by (intro exI [of _ 0] exI [of _ n] exI [of _ "[]"] exI [of _ xs]) simp
  qed (auto intro: futs_in_mono)
next
  case (Cons f fs)
  show ?case
  proof
    assume "futs_in p n ((f # fs) @ gs) xs"
    then obtain i j y ys where 1: "xs = y # ys" "resolves_in p i f y" "futs_in p j (fs @ gs) ys" "i + j \<le> n" by auto
    from 1(3) obtain a b zs ws where "ys = zs @ ws" "futs_in p a fs zs" "futs_in p b gs ws" "a + b \<le> j" unfolding Cons.IH by blast
    with 1 show "\<exists>i j ys zs. xs = ys @ zs \<and> futs_in p i (f # fs) ys \<and> futs_in p j gs zs \<and> i + j \<le> n"
      by (intro exI [of _ "i + a"] exI [of _ b] exI [of _ "y # zs"] exI [of _ ws]) auto
  next
    assume "\<exists>i j ys zs. xs = ys @ zs \<and> futs_in p i (f # fs) ys \<and> futs_in p j gs zs \<and> i + j \<le> n"
    then obtain i j a b y ys zs where "xs = y # ys @ zs" "resolves_in p a f y" "futs_in p b fs ys" "a + b \<le> i"
      "futs_in p j gs zs" "i + j \<le> n" by auto
    moreover from this have "futs_in p (b + j) (fs @ gs) (ys @ zs)" unfolding Cons.IH by blast
    ultimately have "futs_in p n (f # (fs @ gs)) (y # (ys @ zs))" by (intro futs_in_ConsI [where i = a and j = "b + j"]) auto
    with \<open>xs = _\<close> show "futs_in p n ((f # fs) @ gs) xs" by simp
  qed
qed

lemma futs_in_appendI: "futs_in p i fs ys \<Longrightarrow> futs_in p j gs zs \<Longrightarrow> i + j \<le> n \<Longrightarrow> futs_in p n (fs @ gs) (ys @ zs)"
  unfolding futs_in_append by blast

text \<open>The loop, with something in the queue or nothing at all.\<close>

lemma fs_loop_step:
  assumes "futs_in poll n (queue @ fs_waiting s) xs" and "polled = length (fs_waiting s)"
    and "len = length (fs_waiting s) + length queue" and "queue = [] \<Longrightarrow> fs_waiting s = []"
  shows "\<exists>p s'. fs_loop poll len queue polled s = ret (p, s') \<and> set_step (fs_holds poll) n (mset xs) p s'"
  using assms
proof (induction queue arbitrary: n s polled xs)
  case Nil
  then show ?case by (simp add: fs_holds_def)
next
  case (Cons f queue)
  from Cons.prems(1) obtain i j y ys where xs: "xs = y # ys" "resolves_in poll i f y" "futs_in poll j (queue @ fs_waiting s) ys" "i + j \<le> n"
    by auto
  from xs(2) show ?case
  proof (cases rule: resolves_in_step)
    case (now t)
    then have "fs_loop poll len (f # queue) polled s = ret (Ready (Some y), s\<lparr>fs_ready := queue\<rparr>)" by simp
    moreover have "fs_holds poll j (s\<lparr>fs_ready := queue\<rparr>) (mset ys)" using xs(3) by (auto simp: fs_holds_def)
    ultimately show ?thesis using xs by (auto intro!: exI [of _ j])
  next
    case (later t k)
    define s' where "s' = s\<lparr>fs_waiting := fs_waiting s @ [t]\<rparr>"
    have "futs_in poll (j + k) ((queue @ fs_waiting s) @ [t]) (ys @ [y])"
      by (rule futs_in_appendI [OF xs(3), where j = k]) (use later(2) in \<open>auto intro: futs_in_ConsI [where j = 0]\<close>)
    then have held: "futs_in poll (j + k) (queue @ fs_waiting s') (ys @ [y])" by (simp add: s'_def)
    have less: "j + k < n" using xs(4) later(3) by simp
    have run: "fs_loop poll len (f # queue) polled s =
        (if polled + 1 = len then ret (Pending, s'\<lparr>fs_ready := queue\<rparr>) else fs_loop poll len queue (polled + 1) s')"
      using later(1) by (simp add: s'_def)
    show ?thesis
    proof (cases "polled + 1 = len")
      case True
      have "fs_holds poll (j + k) (s'\<lparr>fs_ready := queue\<rparr>) (mset xs)"
        using held xs(1) by (auto simp: fs_holds_def intro!: exI [of _ "ys @ [y]"])
      with True less run xs(1) show ?thesis by auto
    next
      case False
      then have "queue \<noteq> []" using Cons.prems(2,3) by auto
      then obtain p t' where t': "fs_loop poll len queue (polled + 1) s' = ret (p, t')"
        "set_step (fs_holds poll) (j + k) (mset (ys @ [y])) p t'"
        using Cons.IH [OF held, of "polled + 1"] Cons.prems(2,3) by (auto simp: s'_def)
      have "set_step (fs_holds poll) n (mset xs) p t'"
        using set_step_mono [OF t'(2) _ fs_holds_mono, of n] less xs(1) by simp
      with False run t'(1) show ?thesis by auto
    qed
  qed
qed

lemma fs_wake_holds: "fs_holds poll n (fs_wake_all s) M \<longleftrightarrow> fs_holds poll n s M"
  by (simp add: fs_holds_def fs_wake_all_def)

lemma fs_future_set: "future_set (fs_poll_woken poll) fs_push fs_len (fs_holds poll) (resolves_in poll)"
proof unfold_locales
  fix n s M
  assume "fs_holds poll n s M"
  then obtain xs where xs: "futs_in poll n (fs_ready (fs_wake_all s) @ fs_waiting (fs_wake_all s)) xs" "M = mset xs"
    by (auto simp: fs_holds_def fs_wake_all_def)
  have empty: "fs_waiting (fs_wake_all s) = []" by (simp add: fs_wake_all_def)
  show "\<exists>p s'. fs_poll_woken poll s = ret (p, s') \<and> set_step (fs_holds poll) n M p s'"
    unfolding fs_poll_woken_def fs_poll_next_def xs(2) by (rule fs_loop_step [OF xs(1)]) (simp_all add: empty fs_len_def)
next
  fix n s M k f v
  assume "fs_holds poll n s M" "resolves_in poll k f v"
  then obtain xs where xs: "futs_in poll n (fs_ready s @ fs_waiting s) xs" "M = mset xs" by (auto simp: fs_holds_def)
  from xs(1) obtain i j ys zs where "xs = ys @ zs" "futs_in poll i (fs_ready s) ys" "futs_in poll j (fs_waiting s) zs" "i + j \<le> n"
    unfolding futs_in_append by blast
  moreover from this \<open>resolves_in poll k f v\<close> have "futs_in poll (n + k) (fs_ready s @ (f # fs_waiting s)) (ys @ (v # zs))"
    by (intro futs_in_appendI [where i = i and j = "k + j"] futs_in_ConsI) auto
  ultimately show "fs_holds poll (n + k) (fs_push f s) (add_mset v M)"
    using xs(2) by (auto simp: fs_holds_def fs_push_def intro!: exI [of _ "ys @ v # zs"])
next
  fix n s M
  assume "fs_holds poll n s M"
  then show "fs_len s = size M" by (auto simp: fs_holds_def fs_len_def dest!: futs_in_length)
qed

text \<open>A set of futures that are ready from the start.\<close>

interpretation ready_set: future_set "fs_poll_woken ready_poll_fut" fs_push fs_len "fs_holds ready_poll_fut" "resolves_in ready_poll_fut"
  by (rule fs_future_set)

end
