(* ===== verification/Ordered_Futures.thy ===== *)
theory Ordered_Futures
  imports Future_Set
begin

text \<open>
  \<open>FuturesOrdered\<close> (\<open>futures-util/src/stream/futures_ordered.rs\<close>), which runs the futures pushed to it all at once and
  yields their outputs in order: over any \<open>future_set\<close> it is a double-ended queue of values. The heap of outputs that
  came too early is a list sorted by index, \<open>std::collections::BinaryHeap\<close> being a priority queue; the indices are \<open>i64\<close>s, with their range
  written out.
\<close>

section \<open>The code\<close>

record 't OrderWrapper =
  ow_data :: 't
  ow_index :: int

definition order_wrapper_poll :: "('f, 'v) pollfn \<Rightarrow> ('f OrderWrapper, 'v OrderWrapper) pollfn" where
  "order_wrapper_poll poll this =
     (let index = ow_index this
      in ready_poll (poll (ow_data this)) (\<lambda>data. this\<lparr>ow_data := data\<rparr>)
           (\<lambda>output this. ret (Ready \<lparr>ow_data = output, ow_index = index\<rparr>, this)))"

record ('q, 'v) FuturesOrdered =
  fo_in_progress :: 'q
  fo_queued :: "'v OrderWrapper list"
  fo_incoming :: int
  fo_outgoing :: int

definition fo_new :: "'q \<Rightarrow> ('q, 'v) FuturesOrdered" where
  "fo_new q = \<lparr>fo_in_progress = q, fo_queued = [], fo_incoming = 0, fo_outgoing = 0\<rparr>"

definition fo_len :: "('q \<Rightarrow> nat) \<Rightarrow> ('q, 'v) FuturesOrdered \<Rightarrow> nat" where
  "fo_len size_of this = size_of (fo_in_progress this) + length (fo_queued this)"

definition fo_is_empty :: "('q \<Rightarrow> nat) \<Rightarrow> ('q, 'v) FuturesOrdered \<Rightarrow> bool" where
  "fo_is_empty size_of this \<longleftrightarrow> size_of (fo_in_progress this) = 0 \<and> fo_queued this = []"

text \<open>\<open>+=\<close> and \<open>-=\<close> on \<open>i64\<close>.\<close>

definition add_i64 :: "int \<Rightarrow> int \<Rightarrow> int comp" where
  "add_i64 a b = (if - (2 ^ 63) \<le> a + b \<and> a + b < 2 ^ 63 then ret (a + b) else panic ''attempt to add with overflow'')"

definition fo_push_back ::
  "('f OrderWrapper \<Rightarrow> 'q \<Rightarrow> 'q) \<Rightarrow> 'f \<Rightarrow> ('q, 'v) FuturesOrdered \<Rightarrow> ('q, 'v) FuturesOrdered comp" where
  "fo_push_back push future this =
     (let wrapped = \<lparr>ow_data = future, ow_index = fo_incoming this\<rparr>
      in bindc (add_i64 (fo_incoming this) 1) (\<lambda>next.
           ret (this\<lparr>fo_incoming := next, fo_in_progress := push wrapped (fo_in_progress this)\<rparr>)))"

definition fo_push_front ::
  "('f OrderWrapper \<Rightarrow> 'q \<Rightarrow> 'q) \<Rightarrow> 'f \<Rightarrow> ('q, 'v) FuturesOrdered \<Rightarrow> ('q, 'v) FuturesOrdered comp" where
  "fo_push_front push future this =
     bindc (add_i64 (fo_outgoing this) (- 1)) (\<lambda>index.
       let wrapped = \<lparr>ow_data = future, ow_index = index\<rparr>
       in ret (this\<lparr>fo_outgoing := index, fo_in_progress := push wrapped (fo_in_progress this)\<rparr>))"

definition fo_clear :: "('q \<Rightarrow> 'q) \<Rightarrow> ('q, 'v) FuturesOrdered \<Rightarrow> ('q, 'v) FuturesOrdered" where
  "fo_clear clear this = this\<lparr>fo_in_progress := clear (fo_in_progress this), fo_queued := [], fo_incoming := 0, fo_outgoing := 0\<rparr>"

partial_function (option) fo_loop ::
  "('q, 'v OrderWrapper option) pollfn \<Rightarrow> ('q, 'v) FuturesOrdered \<Rightarrow> ('v option poll \<times> ('q, 'v) FuturesOrdered) comp" where
  "fo_loop poll this =
     ready_poll (poll (fo_in_progress this)) (\<lambda>q. this\<lparr>fo_in_progress := q\<rparr>) (\<lambda>res this.
       case res of
         Some output \<Rightarrow>
           if ow_index output = fo_outgoing this
           then bindc (add_i64 (fo_outgoing this) 1) (\<lambda>next. ret (Ready (Some (ow_data output)), this\<lparr>fo_outgoing := next\<rparr>))
           else fo_loop poll (this\<lparr>fo_queued := insort_key ow_index output (fo_queued this)\<rparr>)
       | None \<Rightarrow> ret (Ready None, this))"

definition fo_poll_next :: "('q, 'v OrderWrapper option) pollfn \<Rightarrow> (('q, 'v) FuturesOrdered, 'v option) pollfn" where
  "fo_poll_next poll this =
     (case fo_queued this of
        next_output # rest \<Rightarrow>
          if ow_index next_output = fo_outgoing this
          then bindc (add_i64 (fo_outgoing this) 1) (\<lambda>next.
                 ret (Ready (Some (ow_data next_output)), this\<lparr>fo_outgoing := next, fo_queued := rest\<rparr>))
          else fo_loop poll this
      | [] \<Rightarrow> fo_loop poll this)"

definition fo_size_hint :: "('q \<Rightarrow> nat) \<Rightarrow> ('q, 'v) FuturesOrdered \<Rightarrow> hint" where
  "fo_size_hint size_of this = (let len = word_of_nat (fo_len size_of this) in (len, Some len))"

definition fo_is_terminated :: "('q \<Rightarrow> bool) \<Rightarrow> ('q, 'v) FuturesOrdered \<Rightarrow> bool" where
  "fo_is_terminated is_terminated this \<longleftrightarrow> is_terminated (fo_in_progress this) \<and> fo_queued this = []"

text \<open>\<open>extend\<close> and \<open>collect\<close>.\<close>

primrec fo_extend ::
  "('f OrderWrapper \<Rightarrow> 'q \<Rightarrow> 'q) \<Rightarrow> 'f list \<Rightarrow> ('q, 'v) FuturesOrdered \<Rightarrow> ('q, 'v) FuturesOrdered comp" where
  "fo_extend push [] this = ret this"
| "fo_extend push (item # items) this = bindc (fo_push_back push item this) (fo_extend push items)"

definition fo_from_iter :: "('f OrderWrapper \<Rightarrow> 'q \<Rightarrow> 'q) \<Rightarrow> 'q \<Rightarrow> 'f list \<Rightarrow> ('q, 'v) FuturesOrdered comp" where
  "fo_from_iter push q items = fo_extend push items (fo_new q)"

section \<open>The order of the outputs\<close>

primrec wrap_from :: "int \<Rightarrow> 'v list \<Rightarrow> 'v OrderWrapper list" where
  "wrap_from i [] = []"
| "wrap_from i (x # xs) = \<lparr>ow_data = x, ow_index = i\<rparr> # wrap_from (i + 1) xs"

lemma wrap_from_length [simp]: "length (wrap_from i xs) = length xs"
  by (induction xs arbitrary: i) auto

lemma wrap_from_index: "w \<in> set (wrap_from i xs) \<Longrightarrow> i \<le> ow_index w"
  by (induction xs arbitrary: i) force+

lemma wrap_from_append: "wrap_from i (xs @ ys) = wrap_from i xs @ wrap_from (i + int (length xs)) ys"
  by (induction xs arbitrary: i) (simp_all add: ac_simps)

text \<open>The output with the first index is the first value, and the rest are the others.\<close>

lemma wrap_from_first:
  assumes "add_mset w M = mset (wrap_from i xs)" and "ow_index w = i"
  shows "\<exists>xs'. xs = ow_data w # xs' \<and> M = mset (wrap_from (i + 1) xs')"
proof (cases xs)
  case Nil
  with assms show ?thesis by simp
next
  case (Cons x xs')
  have "w \<in> set (wrap_from i xs)" using assms(1) by (metis set_mset_mset union_single_eq_member)
  moreover have "w \<notin> set (wrap_from (i + 1) xs')" using wrap_from_index [of w "i + 1" xs'] assms(2) by auto
  ultimately have "w = \<lparr>ow_data = x, ow_index = i\<rparr>" by (simp add: Cons)
  with assms(1) show ?thesis by (simp add: Cons)
qed

text \<open>\<open>fo_step H n xs p s\<close>: what a poll that yields from the front of \<open>xs\<close> may do.\<close>

definition fo_step :: "(nat \<Rightarrow> 's \<Rightarrow> 'v list \<Rightarrow> bool) \<Rightarrow> nat \<Rightarrow> 'v list \<Rightarrow> 'v option poll \<Rightarrow> 's \<Rightarrow> bool" where
  "fo_step H n xs p s' \<longleftrightarrow>
     (\<forall>y. p = Ready (Some y) \<longrightarrow> (\<exists>n' xs'. n' \<le> n \<and> xs = y # xs' \<and> H n' s' xs'))
     \<and> (p = Ready None \<longrightarrow> xs = [] \<and> H n s' [])
     \<and> (p = Pending \<longrightarrow> xs \<noteq> [] \<and> (\<exists>n'<n. H n' s' xs))"

lemma fo_step_simps [simp]:
  "fo_step H n xs (Ready (Some y)) s' \<longleftrightarrow> (\<exists>n' xs'. n' \<le> n \<and> xs = y # xs' \<and> H n' s' xs')"
  "fo_step H n xs (Ready None) s' \<longleftrightarrow> xs = [] \<and> H n s' []"
  "fo_step H n xs Pending s' \<longleftrightarrow> xs \<noteq> [] \<and> (\<exists>n'<n. H n' s' xs)"
  by (simp_all add: fo_step_def)

lemma fo_step_mono:
  assumes "fo_step H m xs p s" and "xs \<noteq> []" and "m \<le> n"
  shows "fo_step H n xs p s"
proof -
  consider "p = Pending" | "p = Ready None" | y where "p = Ready (Some y)" by (metis poll.exhaust option.exhaust)
  then show ?thesis by cases (use assms in \<open>auto dest: less_le_trans intro: le_trans\<close>)
qed

definition fo_holds ::
  "(nat \<Rightarrow> 'q \<Rightarrow> 'v OrderWrapper multiset \<Rightarrow> bool) \<Rightarrow> nat \<Rightarrow> ('q, 'v) FuturesOrdered \<Rightarrow> 'v list \<Rightarrow> bool" where
  "fo_holds holds n this xs \<longleftrightarrow>
     (\<exists>M. holds n (fo_in_progress this) M \<and> M + mset (fo_queued this) = mset (wrap_from (fo_outgoing this) xs))
     \<and> sorted (map ow_index (fo_queued this))
     \<and> fo_incoming this = fo_outgoing this + int (length xs) \<and> - (2 ^ 63) \<le> fo_outgoing this \<and> fo_incoming this < 2 ^ 63"

locale ordered_set = future_set poll_next push size_of holds val
  for poll_next :: "('q, 'v OrderWrapper option) pollfn" and push :: "'f OrderWrapper \<Rightarrow> 'q \<Rightarrow> 'q" and size_of holds val +
  fixes fval :: "nat \<Rightarrow> 'f \<Rightarrow> 'v \<Rightarrow> bool"
  assumes val_wrap: "fval k f v \<Longrightarrow> val k \<lparr>ow_data = f, ow_index = i\<rparr> \<lparr>ow_data = v, ow_index = i\<rparr>"
begin

lemma fo_push_back_holds:
  assumes "fo_holds holds n s xs" and "fval k f v" and "fo_incoming s < 2 ^ 63 - 1"
  shows "\<exists>s'. fo_push_back push f s = ret s' \<and> fo_holds holds (n + k) s' (xs @ [v]) \<and> fo_incoming s' = fo_incoming s + 1"
proof -
  define s' where "s' = s\<lparr>fo_incoming := fo_incoming s + 1, fo_in_progress := push \<lparr>ow_data = f, ow_index = fo_incoming s\<rparr> (fo_in_progress s)\<rparr>"
  from assms(1) obtain M where M: "holds n (fo_in_progress s) M" "M + mset (fo_queued s) = mset (wrap_from (fo_outgoing s) xs)"
    "sorted (map ow_index (fo_queued s))" "fo_incoming s = fo_outgoing s + int (length xs)" "- (2 ^ 63) \<le> fo_outgoing s"
    by (auto simp: fo_holds_def)
  have "fo_push_back push f s = ret s'" using assms(3) M(4,5) by (simp add: fo_push_back_def add_i64_def s'_def)
  moreover have "fo_holds holds (n + k) s' (xs @ [v])"
    using holds_push [OF M(1) val_wrap [OF assms(2), of "fo_incoming s"]] M assms(3)
    by (auto simp: fo_holds_def s'_def wrap_from_append intro!: exI [of _ "add_mset \<lparr>ow_data = v, ow_index = fo_incoming s\<rparr> M"])
  ultimately show ?thesis by (simp add: s'_def)
qed

lemma fo_push_front_holds:
  assumes "fo_holds holds n s xs" and "fval k f v" and "- (2 ^ 63) < fo_outgoing s"
  shows "\<exists>s'. fo_push_front push f s = ret s' \<and> fo_holds holds (n + k) s' (v # xs)"
proof -
  define s' where "s' = s\<lparr>fo_outgoing := fo_outgoing s - 1, fo_in_progress := push \<lparr>ow_data = f, ow_index = fo_outgoing s - 1\<rparr> (fo_in_progress s)\<rparr>"
  from assms(1) obtain M where M: "holds n (fo_in_progress s) M" "M + mset (fo_queued s) = mset (wrap_from (fo_outgoing s) xs)"
    "sorted (map ow_index (fo_queued s))" "fo_incoming s = fo_outgoing s + int (length xs)" "fo_incoming s < 2 ^ 63"
    by (auto simp: fo_holds_def)
  have "fo_push_front push f s = ret s'" using assms(3) M(4,5) by (simp add: fo_push_front_def add_i64_def s'_def)
  moreover have "fo_holds holds (n + k) s' (v # xs)"
    using holds_push [OF M(1) val_wrap [OF assms(2), of "fo_outgoing s - 1"]] M assms(3)
    by (auto simp: fo_holds_def s'_def intro!: exI [of _ "add_mset \<lparr>ow_data = v, ow_index = fo_outgoing s - 1\<rparr> M"])
  ultimately show ?thesis by simp
qed

lemma fo_size:
  assumes "fo_holds holds n s xs"
  shows "fo_len size_of s = length xs"
proof -
  from assms obtain M where M: "holds n (fo_in_progress s) M" "M + mset (fo_queued s) = mset (wrap_from (fo_outgoing s) xs)"
    by (auto simp: fo_holds_def)
  from M(2) have "size M + length (fo_queued s) = length xs" by (metis size_mset size_union wrap_from_length)
  with holds_size [OF M(1)] show ?thesis by (simp add: fo_len_def)
qed

text \<open>The loop, when the next output is not yet there.\<close>

lemma fo_loop_step:
  assumes "holds n (fo_in_progress s) M" and "M + mset (fo_queued s) = mset (wrap_from (fo_outgoing s) xs)"
    and "sorted (map ow_index (fo_queued s))" and "fo_incoming s = fo_outgoing s + int (length xs)"
    and "- (2 ^ 63) \<le> fo_outgoing s" and "fo_incoming s < 2 ^ 63" and "\<forall>w \<in> set (fo_queued s). ow_index w \<noteq> fo_outgoing s"
  shows "\<exists>p s'. fo_loop poll_next s = ret (p, s') \<and> fo_step (fo_holds holds) n xs p s' \<and> fo_incoming s' = fo_incoming s"
  using assms
proof (induction "size M" arbitrary: n M s rule: less_induct)
  case less
  show ?case
  proof (cases rule: poll_cases [OF less.prems(1), case_names item ended wait])
    case (wait q' n')
    have "xs \<noteq> []" using wait(2) less.prems(2) by auto
    moreover have "fo_loop poll_next s = ret (Pending, s\<lparr>fo_in_progress := q'\<rparr>)" using wait(1) by (subst fo_loop.simps) simp
    moreover have "fo_holds holds n' (s\<lparr>fo_in_progress := q'\<rparr>) xs" using wait(4) less.prems by (auto simp: fo_holds_def)
    ultimately show ?thesis using wait(3) by auto
  next
    case (ended q')
    have "xs = []"
    proof (cases xs)
      case (Cons x xs')
      then have "\<lparr>ow_data = x, ow_index = fo_outgoing s\<rparr> \<in># mset (fo_queued s)" using less.prems(2) ended(2) by simp
      with less.prems(7) show ?thesis by auto
    qed
    moreover have "fo_loop poll_next s = ret (Ready None, s\<lparr>fo_in_progress := q'\<rparr>)" using ended(1) by (subst fo_loop.simps) simp
    moreover have "fo_holds holds n (s\<lparr>fo_in_progress := q'\<rparr>) xs" using ended(3) less.prems by (auto simp: fo_holds_def)
    ultimately show ?thesis by auto
  next
    case (item y q' n' M')
    define t where "t = s\<lparr>fo_in_progress := q'\<rparr>"
    show ?thesis
    proof (cases "ow_index y = fo_outgoing s")
      case True
      then obtain xs' where xs': "xs = ow_data y # xs'" "M' + mset (fo_queued s) = mset (wrap_from (fo_outgoing s + 1) xs')"
        using wrap_from_first [of y "M' + mset (fo_queued s)" "fo_outgoing s" xs] less.prems(2) item(3) by auto
      have "fo_loop poll_next s = ret (Ready (Some (ow_data y)), t\<lparr>fo_outgoing := fo_outgoing s + 1\<rparr>)"
        using item(1) True less.prems(4-6) xs'(1) by (subst fo_loop.simps) (simp add: t_def add_i64_def)
      moreover have "fo_holds holds n' (t\<lparr>fo_outgoing := fo_outgoing s + 1\<rparr>) xs'"
        using item(4) xs' less.prems by (auto simp: fo_holds_def t_def)
      ultimately show ?thesis using item(2) xs'(1) by (auto simp: t_def)
    next
      case False
      define u where "u = t\<lparr>fo_queued := insort_key ow_index y (fo_queued s)\<rparr>"
      have run: "fo_loop poll_next s = fo_loop poll_next u" using item(1) False by (subst fo_loop.simps) (simp add: t_def u_def)
      have "size M' < size M" using item(3) by simp
      moreover have "holds n' (fo_in_progress u) M'" using item(4) by (simp add: u_def t_def)
      moreover have "M' + mset (fo_queued u) = mset (wrap_from (fo_outgoing u) xs)" using less.prems(2) item(3) by (simp add: u_def t_def)
      moreover have "sorted (map ow_index (fo_queued u))" using less.prems(3) by (simp add: u_def sorted_insort_key)
      moreover have "fo_incoming u = fo_outgoing u + int (length xs)" "- (2 ^ 63) \<le> fo_outgoing u" "fo_incoming u < 2 ^ 63"
        using less.prems(4-6) by (simp_all add: u_def t_def)
      moreover have "\<forall>w \<in> set (fo_queued u). ow_index w \<noteq> fo_outgoing u" using less.prems(7) False by (simp add: u_def t_def set_insort_key)
      ultimately obtain p s' where s': "fo_loop poll_next u = ret (p, s')" "fo_step (fo_holds holds) n' xs p s'" "fo_incoming s' = fo_incoming u"
        using less.hyps [of M' n' u] by blast
      have "xs \<noteq> []" using less.prems(2) item(3) by auto
      from fo_step_mono [OF s'(2) this item(2)] have "fo_step (fo_holds holds) n xs p s'" .
      with run s' show ?thesis by (auto simp: u_def t_def)
    qed
  qed
qed

lemma fo_poll_step:
  assumes "fo_holds holds n s xs"
  shows "\<exists>p s'. fo_poll_next poll_next s = ret (p, s') \<and> fo_step (fo_holds holds) n xs p s' \<and> fo_incoming s' = fo_incoming s"
proof -
  from assms obtain M where M: "holds n (fo_in_progress s) M" "M + mset (fo_queued s) = mset (wrap_from (fo_outgoing s) xs)"
    "sorted (map ow_index (fo_queued s))" "fo_incoming s = fo_outgoing s + int (length xs)" "- (2 ^ 63) \<le> fo_outgoing s" "fo_incoming s < 2 ^ 63"
    by (auto simp: fo_holds_def)
  show ?thesis
  proof (cases "\<exists>w ws. fo_queued s = w # ws \<and> ow_index w = fo_outgoing s")
    case True
    then obtain w ws where w: "fo_queued s = w # ws" "ow_index w = fo_outgoing s" by blast
    then obtain xs' where xs': "xs = ow_data w # xs'" "M + mset ws = mset (wrap_from (fo_outgoing s + 1) xs')"
      using wrap_from_first [of w "M + mset ws" "fo_outgoing s" xs] M(2) by auto
    define s' where "s' = s\<lparr>fo_outgoing := fo_outgoing s + 1, fo_queued := ws\<rparr>"
    have "fo_poll_next poll_next s = ret (Ready (Some (ow_data w)), s')"
      using w M(4-6) xs'(1) by (simp add: fo_poll_next_def add_i64_def s'_def)
    moreover have "fo_holds holds n s' xs'" using M w xs' by (auto simp: fo_holds_def s'_def)
    ultimately show ?thesis using xs'(1) by (auto simp: s'_def)
  next
    case False
    have "ow_index w \<noteq> fo_outgoing s" if "w \<in> set (fo_queued s)" for w
    proof (cases "fo_queued s")
      case (Cons v ws)
      have "v \<in># mset (wrap_from (fo_outgoing s) xs)" unfolding M(2) [symmetric] by (simp add: Cons)
      then have "fo_outgoing s < ow_index v" using False Cons wrap_from_index [of v "fo_outgoing s" xs] by fastforce
      then show ?thesis using M(3) that Cons by auto
    qed (use that in simp)
    then have "\<exists>p s'. fo_loop poll_next s = ret (p, s') \<and> fo_step (fo_holds holds) n xs p s' \<and> fo_incoming s' = fo_incoming s"
      by (intro fo_loop_step [OF M]) blast
    moreover have "fo_poll_next poll_next s = fo_loop poll_next s" using False by (auto simp: fo_poll_next_def split: list.split)
    ultimately show ?thesis by simp
  qed
qed

end

section \<open>Over the set on one thread\<close>

lemma order_wrapper_resolves:
  "resolves_in poll k f v \<Longrightarrow> resolves_in (order_wrapper_poll poll) k \<lparr>ow_data = f, ow_index = i\<rparr> \<lparr>ow_data = v, ow_index = i\<rparr>"
proof (induction rule: resolves_in.induct)
  case (resolves_in_ready s x t)
  then show ?case by (intro resolves_in.resolves_in_ready) (simp add: order_wrapper_poll_def)
next
  case (resolves_in_pend s s' n x)
  then show ?case by (intro resolves_in.resolves_in_pend) (auto simp: order_wrapper_poll_def)
qed

lemma fs_ordered_set:
  "ordered_set (fs_poll_woken (order_wrapper_poll poll)) fs_push fs_len (fs_holds (order_wrapper_poll poll))
     (resolves_in (order_wrapper_poll poll)) (resolves_in poll)"
  by (rule ordered_set.intro [OF fs_future_set]) (unfold_locales, rule order_wrapper_resolves)

text \<open>A set of futures that are ready from the start.\<close>

interpretation ready_ordered: ordered_set "fs_poll_woken (order_wrapper_poll ready_poll_fut)" fs_push fs_len
    "fs_holds (order_wrapper_poll ready_poll_fut)" "resolves_in (order_wrapper_poll ready_poll_fut)" "resolves_in ready_poll_fut"
  by (rule fs_ordered_set)

end
