(* ===== verification/Buffered_Streams.thy ===== *)
theory Buffered_Streams
  imports Ordered_Futures
begin

text \<open>
  \<open>Buffered\<close> and \<open>BufferUnordered\<close> (\<open>futures-util/src/stream/stream/{buffered,buffer_unordered}.rs\<close>): the futures that a
  stream yields are run, up to \<open>max\<close> at a time, in a \<open>FuturesOrdered\<close> or a \<open>FuturesUnordered\<close>. Both fill their
  queue in the same way, which is one definition and one lemma here.
\<close>

section \<open>Filling the queue\<close>

text \<open>\<open>this.max.map(|max| this.in_progress_queue.len() < max.get()).unwrap_or(true)\<close>.\<close>

definition has_room :: "nat option \<Rightarrow> nat \<Rightarrow> bool" where
  "has_room limit len = (case limit of Some m \<Rightarrow> len < m | None \<Rightarrow> True)"

partial_function (option) fill_queue ::
  "('st, 'f option) pollfn \<Rightarrow> ('f \<Rightarrow> 'q \<Rightarrow> 'q comp) \<Rightarrow> ('q \<Rightarrow> nat) \<Rightarrow> nat option \<Rightarrow> 'st Fuse \<times> 'q \<Rightarrow> ('st Fuse \<times> 'q) comp" where
  "fill_queue poll push size_of limit this = (case this of (stream, queue) \<Rightarrow>
     if has_room limit (size_of queue) then
       bindc (fuse_poll_next poll stream) (\<lambda>(res, stream).
         case res of
           Ready (Some fut) \<Rightarrow> bindc (push fut queue) (\<lambda>queue. fill_queue poll push size_of limit (stream, queue))
         | _ \<Rightarrow> ret (stream, queue))
     else ret (stream, queue))"

text \<open>\<open>n.and_then(NonZeroUsize::new)\<close>: zero is no limit.\<close>

definition non_zero :: "nat option \<Rightarrow> nat option" where
  "non_zero n = (case n of Some m \<Rightarrow> if m = 0 then None else Some m | None \<Rightarrow> None)"

section \<open>Buffered\<close>

record ('st, 'q, 'v) Buffered =
  bf_stream :: "'st Fuse"
  bf_queue :: "('q, 'v) FuturesOrdered"
  bf_max :: "nat option"



definition buffered_size_hint :: "('st \<Rightarrow> hint) \<Rightarrow> ('q \<Rightarrow> nat) \<Rightarrow> ('st, 'q, 'v) Buffered \<Rightarrow> hint" where
  "buffered_size_hint size_hint size_of this =
     (let queue_len = word_of_nat (fo_len size_of (bf_queue this));
          (lower, upper) = fuse_size_hint size_hint (bf_stream this);
          lower = saturating_add lower queue_len;
          upper = (case upper of Some x \<Rightarrow> checked_add x queue_len | None \<Rightarrow> None)
      in (lower, upper))"

definition buffered_is_terminated :: "('q \<Rightarrow> bool) \<Rightarrow> ('st, 'q, 'v) Buffered \<Rightarrow> bool" where
  "buffered_is_terminated is_terminated this \<longleftrightarrow> fuse_is_done (bf_stream this) \<and> fo_is_terminated is_terminated (bf_queue this)"

section \<open>BufferUnordered\<close>

record ('st, 'q) BufferUnordered =
  bu_stream :: "'st Fuse"
  bu_queue :: 'q
  bu_max :: "nat option"

definition buffer_unordered_new :: "'q \<Rightarrow> 'st \<Rightarrow> nat option \<Rightarrow> ('st, 'q) BufferUnordered" where
  "buffer_unordered_new q stream n = \<lparr>bu_stream = fuse_new stream, bu_queue = q, bu_max = non_zero n\<rparr>"

definition buffer_unordered_poll_next ::
  "('st, 'f option) pollfn \<Rightarrow> ('q, 'v option) pollfn \<Rightarrow> ('f \<Rightarrow> 'q \<Rightarrow> 'q) \<Rightarrow> ('q \<Rightarrow> nat) \<Rightarrow> (('st, 'q) BufferUnordered, 'v option) pollfn" where
  "buffer_unordered_poll_next poll poll_set push size_of this =
     bindc (fill_queue poll (\<lambda>f q. ret (push f q)) size_of (bu_max this) (bu_stream this, bu_queue this)) (\<lambda>(stream, queue).
       let this = this\<lparr>bu_stream := stream, bu_queue := queue\<rparr>
       in poll_with (poll_set (bu_queue this)) (\<lambda>queue. this\<lparr>bu_queue := queue\<rparr>) (\<lambda>x this.
            case x of
              Ready None \<Rightarrow> if fuse_is_done (bu_stream this) then ret (Ready None, this) else ret (Pending, this)
            | _ \<Rightarrow> ret (x, this)))"

definition buffer_unordered_size_hint :: "('st \<Rightarrow> hint) \<Rightarrow> ('q \<Rightarrow> nat) \<Rightarrow> ('st, 'q) BufferUnordered \<Rightarrow> hint" where
  "buffer_unordered_size_hint size_hint size_of this =
     (let queue_len = word_of_nat (size_of (bu_queue this));
          (lower, upper) = fuse_size_hint size_hint (bu_stream this);
          lower = saturating_add lower queue_len;
          upper = (case upper of Some x \<Rightarrow> checked_add x queue_len | None \<Rightarrow> None)
      in (lower, upper))"

definition buffer_unordered_is_terminated :: "('q \<Rightarrow> bool) \<Rightarrow> ('st, 'q) BufferUnordered \<Rightarrow> bool" where
  "buffer_unordered_is_terminated is_terminated this \<longleftrightarrow> is_terminated (bu_queue this) \<and> fuse_is_terminated (bu_stream this)"

section \<open>What filling does\<close>

text \<open>
  \<open>H r n q xs\<close>: the queue holds futures for the values \<open>xs\<close>, which take at most \<open>n\<close> polls, and takes \<open>r\<close> more. After
  filling there is a reason why it stopped: it is full, the stream is pending (and has been polled), or has ended.
\<close>

definition filled :: "nat option \<Rightarrow> ('q \<Rightarrow> nat) \<Rightarrow> nat \<Rightarrow> nat \<Rightarrow> 'st Fuse \<Rightarrow> 'q \<Rightarrow> nat \<Rightarrow> nat \<Rightarrow> 'v list \<Rightarrow> bool" where
  "filled limit size_of k n st' q' k' n' vs' \<longleftrightarrow>
     (k' < k \<or> k' = k \<and> n' = n) \<and> (\<not> has_room limit (size_of q') \<or> \<not> fuse_done st' \<and> k' < k \<or> fuse_done st' \<and> vs' = [])
     \<and> (\<forall>m. limit = Some m \<longrightarrow> size_of q' \<le> m)"

lemma fuse_run_live: "fuse_run p n m xs \<Longrightarrow> \<not> fuse_done m \<Longrightarrow> 0 < n"
  by (auto simp: fuse_run_def elim: ends_in.cases)

lemma fill_queue_fills:
  assumes push: "\<forall>r n q xs k f v. H (Suc r) n q xs \<longrightarrow> fval k f v \<longrightarrow> (\<exists>q'. push f q = ret q' \<and> H r (n + k) q' (xs @ [v]))"
    and size: "\<forall>r n q xs. H r n q xs \<longrightarrow> size_of q = length xs"
    and "fuse_run p k st fs" and "list_all2 (\<lambda>f v. \<exists>j. fval j f v) fs vs" and "H (length fs) n q xs"
    and "\<forall>m. limit = Some m \<longrightarrow> size_of q \<le> m"
  shows "\<exists>st' q' k' n' fs' vs' xs'. fill_queue p push size_of limit (st, q) = ret (st', q')
    \<and> fuse_run p k' st' fs' \<and> list_all2 (\<lambda>f v. \<exists>j. fval j f v) fs' vs' \<and> H (length fs') n' q' xs' \<and> xs' @ vs' = xs @ vs
    \<and> filled limit size_of k n st' q' k' n' vs'"
  using assms(3-6)
proof (induction k arbitrary: st q fs vs xs n rule: less_induct)
  case (less k)
  show ?case
  proof (cases "has_room limit (size_of q)")
    case False
    then have "fill_queue p push size_of limit (st, q) = ret (st, q)" by (subst fill_queue.simps) simp
    with False less.prems show ?thesis by (intro exI conjI) (assumption | rule refl | simp add: filled_def)+
  next
    case room: True
    show ?thesis
      using less.prems(1)
    proof (cases rule: fuse_run_step)
      case (ended st')
      then have "vs = []" using less.prems(2) by simp
      have "0 < k \<or> k = 0" by auto
      have run: "fill_queue p push size_of limit (st, q) = ret (st', q)" using room ended by (subst fill_queue.simps) simp
      have "filled limit size_of k n st' q 0 n []" using ended less.prems(4) by (auto simp: filled_def)
      moreover have "xs @ [] = xs @ vs" using \<open>vs = []\<close> by simp
      moreover have "H (length ([] :: _ list)) n q xs" using less.prems(3) ended(4) by simp
      moreover have "list_all2 (\<lambda>f v. \<exists>j. fval j f v) [] []" by simp
      ultimately show ?thesis using run ended(2) by metis
    next
      case (pend st' k')
      have run: "fill_queue p push size_of limit (st, q) = ret (st', q)" using room pend by (subst fill_queue.simps) simp
      have "filled limit size_of k n st' q k' n vs" using pend less.prems(4) by (auto simp: filled_def)
      with run pend(2) less.prems(2,3) show ?thesis by metis
    next
      case (item st' k' f fs')
      from less.prems(2) item(5) obtain v vs' j where v: "vs = v # vs'" "fval j f v" "list_all2 (\<lambda>f v. \<exists>j. fval j f v) fs' vs'"
        by (auto simp: list_all2_Cons1)
      have "H (Suc (length fs')) n q xs" using less.prems(3) item(5) by simp
      from push [rule_format, OF this v(2)] obtain q' where q': "push f q = ret q'" "H (length fs') (n + j) q' (xs @ [v])" by blast
      have "\<forall>m. limit = Some m \<longrightarrow> size_of q' \<le> m"
        using room size [rule_format, OF q'(2)] size [rule_format, OF less.prems(3)] by (auto simp: has_room_def)
      with less.IH [of k' st' fs' vs' "n + j" q' "xs @ [v]"] item v q' obtain st'' q'' k'' n'' fs'' vs'' xs'' where
        r: "fill_queue p push size_of limit (st', q') = ret (st'', q'')" "fuse_run p k'' st'' fs''"
          "list_all2 (\<lambda>f v. \<exists>j. fval j f v) fs'' vs''" "H (length fs'') n'' q'' xs''" "xs'' @ vs'' = (xs @ [v]) @ vs'"
          "filled limit size_of k' (n + j) st'' q'' k'' n'' vs''" by (metis lessI)
      have "fill_queue p push size_of limit (st, q) = ret (st'', q'')"
        using room item(1) q'(1) r(1) by (subst fill_queue.simps) simp
      moreover have "filled limit size_of k n st'' q'' k'' n'' vs''" using r(6) item(4) by (auto simp: filled_def)
      moreover have "xs'' @ vs'' = xs @ vs" using r(5) v(1) by simp
      ultimately show ?thesis using r(2-4) by metis
    qed
  qed
qed

section \<open>Runs\<close>

text \<open>
  \<open>run_step B k n rest r b'\<close>: a poll from a state of rank \<open>(k, n)\<close> with the values \<open>rest\<close> to come, in the order
  that \<open>picks\<close> allows (a value and the rest without it).
\<close>

definition run_step ::
  "('v list \<Rightarrow> 'v \<Rightarrow> 'v list \<Rightarrow> bool) \<Rightarrow> (nat \<Rightarrow> nat \<Rightarrow> 'b \<Rightarrow> 'v list \<Rightarrow> bool) \<Rightarrow> nat \<Rightarrow> nat \<Rightarrow> 'v list \<Rightarrow> 'v option poll \<Rightarrow> 'b \<Rightarrow> bool" where
  "run_step picks B k n rest r b' \<longleftrightarrow>
     (\<forall>y. r = Ready (Some y) \<longrightarrow> (\<exists>k' n' rest'. (k' < k \<or> k' = k \<and> n' \<le> n) \<and> picks rest y rest' \<and> length rest = Suc (length rest') \<and> B k' n' b' rest'))
     \<and> (r = Ready None \<longrightarrow> rest = [] \<and> (\<exists>k' n'. B k' n' b' []))
     \<and> (r = Pending \<longrightarrow> (\<exists>k' n'. (k' < k \<or> k' = k \<and> n' < n) \<and> B k' n' b' rest))"

lemma run_step_item:
  "picks rest y rest' \<Longrightarrow> length rest = Suc (length rest') \<Longrightarrow> B k' n' b' rest' \<Longrightarrow> k' < k \<or> k' = k \<and> n' \<le> n \<Longrightarrow>
    run_step picks B k n rest (Ready (Some y)) b'"
  unfolding run_step_def by blast

lemma run_step_wait: "B k' n' b' rest \<Longrightarrow> k' < k \<or> k' = k \<and> n' < n \<Longrightarrow> run_step picks B k n rest Pending b'"
  unfolding run_step_def by blast

lemma run_step_ends:
  assumes step: "\<And>k n b rest. B k n b rest \<Longrightarrow> \<exists>r b'. p b = ret (r, b') \<and> run_step picks B k n rest r b'"
    and Nil: "Q [] []" and Cons: "\<And>rest y rest' ys. picks rest y rest' \<Longrightarrow> Q rest' ys \<Longrightarrow> Q rest (y # ys)"
    and "B k n b rest"
  shows "\<exists>ys t. ends p b ys t \<and> Q rest ys"
  using assms(4)
proof (induction "(k, n + length rest)" arbitrary: k n b rest rule: wf_induct_rule [OF wf_lex_prod [OF wf_less_than wf_less_than]])
  case 1
  note IH = 1(1) and B = 1(2)
  from step [OF B] obtain r b' where r: "p b = ret (r, b')" "run_step picks B k n rest r b'" by blast
  consider (item) y where "r = Ready (Some y)" | (ended) "r = Ready None" | (wait) "r = Pending"
    by (metis poll.exhaust option.exhaust)
  then show ?case
  proof cases
    case item
    with r(2) obtain k' n' rest' where n: "k' < k \<or> k' = k \<and> n' \<le> n" "picks rest y rest'" "length rest = Suc (length rest')" "B k' n' b' rest'"
      by (auto simp: run_step_def)
    then have "((k', n' + length rest'), (k, n + length rest)) \<in> less_than <*lex*> less_than" by auto
    from IH [OF this n(4)] obtain ys t where "ends p b' ys t" "Q rest' ys" by blast
    with r(1) item Cons [OF n(2)] show ?thesis by (blast intro: ends_item)
  next
    case ended
    with r Nil show ?thesis by (auto simp: run_step_def intro: ends_end)
  next
    case wait
    with r(2) obtain k' n' where n: "k' < k \<or> k' = k \<and> n' < n" "B k' n' b' rest" by (auto simp: run_step_def)
    then have "((k', n' + length rest), (k, n + length rest)) \<in> less_than <*lex*> less_than" by auto
    from IH [OF this n(2)] obtain ys t where "ends p b' ys t" "Q rest ys" by blast
    with r(1) wait show ?thesis by (blast intro: ends_pend)
  qed
qed

text \<open>What holds in each state, holds at each point of a run.\<close>

lemma run_step_gives:
  assumes step: "\<And>k n b rest. B k n b rest \<Longrightarrow> \<exists>r b'. p b = ret (r, b') \<and> run_step picks B k n rest r b'"
    and "gives p b ys b'" and "B k n b rest"
  shows "\<exists>k' n' rest'. B k' n' b' rest'"
  using assms(2,3)
proof (induction arbitrary: k n rest rule: gives.induct)
  case (gives_pend s s' xs t)
  from step [OF gives_pend.prems] gives_pend.hyps(1) have "run_step picks B k n rest Pending s'" by auto
  then show ?case using gives_pend.IH by (auto simp: run_step_def)
next
  case (gives_item s x s' xs t)
  from step [OF gives_item.prems] gives_item.hyps(1) have "run_step picks B k n rest (Ready (Some x)) s'" by auto
  then show ?case using gives_item.IH by (auto simp: run_step_def)
qed blast



definition unordered_holds ::
  "('st, 'f option) pollfn \<Rightarrow> ('q \<Rightarrow> nat) \<Rightarrow> (nat \<Rightarrow> 'q \<Rightarrow> 'v multiset \<Rightarrow> bool) \<Rightarrow> (nat \<Rightarrow> 'f \<Rightarrow> 'v \<Rightarrow> bool) \<Rightarrow> nat option
     \<Rightarrow> nat \<Rightarrow> nat \<Rightarrow> ('st, 'q) BufferUnordered \<Rightarrow> 'v list \<Rightarrow> bool" where
  "unordered_holds p size_of holds val limit k n b rest \<longleftrightarrow>
     (\<exists>fs vs xs. fuse_run p k (bu_stream b) fs \<and> list_all2 (\<lambda>f v. \<exists>j. val j f v) fs vs \<and> holds n (bu_queue b) (mset xs) \<and> rest = xs @ vs)
     \<and> bu_max b = limit \<and> (\<forall>m. limit = Some m \<longrightarrow> 0 < m \<and> size_of (bu_queue b) \<le> m)"

lemma buffer_unordered_step:
  assumes O: "future_set poll_set push size_of holds val" and "unordered_holds p size_of holds val limit k n b rest"
  shows "\<exists>r b'. buffer_unordered_poll_next p poll_set push size_of b = ret (r, b')
    \<and> run_step (\<lambda>rest y rest'. mset rest = add_mset y (mset rest')) (unordered_holds p size_of holds val limit) k n rest r b'"
proof -
  define H where "H r n q xs \<longleftrightarrow> holds n q (mset xs)" for r :: nat and n q xs
  have push: "\<forall>r n q xs k f v. H (Suc r) n q xs \<longrightarrow> val k f v \<longrightarrow> (\<exists>q'. ret (push f q) = ret q' \<and> H r (n + k) q' (xs @ [v]))"
    using future_set.holds_push [OF O] by (auto simp: H_def)
  have size: "\<forall>r n q xs. H r n q xs \<longrightarrow> size_of q = length xs" using future_set.holds_size [OF O] by (auto simp: H_def)
  from assms(2) obtain fs vs xs where b: "fuse_run p k (bu_stream b) fs" "list_all2 (\<lambda>f v. \<exists>j. val j f v) fs vs"
    "H (length fs) n (bu_queue b) xs" "rest = xs @ vs" and m: "\<forall>m. bu_max b = Some m \<longrightarrow> size_of (bu_queue b) \<le> m" "bu_max b \<noteq> Some 0" "bu_max b = limit"
    by (auto simp: unordered_holds_def H_def)
  from fill_queue_fills [OF push size b(1-3) m(1)] obtain st q k' n' fs' vs' xs' where
    fill: "fill_queue p (\<lambda>f q. ret (push f q)) size_of (bu_max b) (bu_stream b, bu_queue b) = ret (st, q)"
      "fuse_run p k' st fs'" "list_all2 (\<lambda>f v. \<exists>j. val j f v) fs' vs'" "H (length fs') n' q xs'" "xs' @ vs' = xs @ vs"
      "filled (bu_max b) size_of k n st q k' n' vs'" by (elim exE conjE) (rule that)
  have hold: "holds n' q (mset xs')" using fill(4) by (simp add: H_def)
  have rank: "k' < k \<or> k' = k \<and> n' = n" and le: "\<forall>m. bu_max b = Some m \<longrightarrow> size_of q \<le> m" using fill(6) by (simp_all add: filled_def)
  have keep: "unordered_holds p size_of holds val limit k' j (b\<lparr>bu_stream := st, bu_queue := q'\<rparr>) (ys @ vs')" if "holds j q' (mset ys)" "size_of q' \<le> size_of q" for j q' ys
  proof -
    have "\<forall>m. bu_max b = Some m \<longrightarrow> 0 < m \<and> size_of q' \<le> m" using le that(2) m(2) by (auto intro: le_trans)
    then show ?thesis unfolding unordered_holds_def using fill(2,3) that(1)
      by (intro conjI exI [of _ fs'] exI [of _ vs'] exI [of _ ys]) (use m(3) in simp_all)
  qed
  have run: "buffer_unordered_poll_next p poll_set push size_of b =
      poll_with (poll_set q) (\<lambda>q. b\<lparr>bu_stream := st, bu_queue := q\<rparr>) (\<lambda>x this.
            case x of
              Ready None \<Rightarrow> if fuse_is_done (bu_stream this) then ret (Ready None, this) else ret (Pending, this)
            | _ \<Rightarrow> ret (x, this))"
    using fill(1) by (simp add: buffer_unordered_poll_next_def)
  show ?thesis
  proof (cases rule: future_set.poll_cases [OF O hold, case_names item ended wait])
    case (item y q' j M')
    obtain ys where ys: "M' = mset ys" by (metis ex_mset)
    define b' where "b' = b\<lparr>bu_stream := st, bu_queue := q'\<rparr>"
    have "buffer_unordered_poll_next p poll_set push size_of b = ret (Ready (Some y), b')" by (simp add: run item(1) b'_def)
    moreover have "size_of q' \<le> size_of q" using future_set.holds_size [OF O hold] future_set.holds_size [OF O item(4)] item(3) by simp
    then have "unordered_holds p size_of holds val limit k' j b' (ys @ vs')" using keep [of j q' ys] item(4) ys by (simp add: b'_def)
    moreover have "mset rest = add_mset y (mset (ys @ vs'))" using b(4) fill(5) item(3) ys by (metis mset_append union_mset_add_mset_left)
    moreover from this have "length rest = Suc (length (ys @ vs'))" by (metis size_add_mset size_mset)
    moreover have "k' < k \<or> k' = k \<and> j \<le> n" using rank item(2) by auto
    ultimately have "run_step (\<lambda>rest y rest'. mset rest = add_mset y (mset rest')) (unordered_holds p size_of holds val limit) k n rest (Ready (Some y)) b'"
      by (intro run_step_item)
    with \<open>_ = ret (Ready (Some y), b')\<close> show ?thesis by blast
  next
    case (wait q' j)
    define b' where "b' = b\<lparr>bu_stream := st, bu_queue := q'\<rparr>"
    have "buffer_unordered_poll_next p poll_set push size_of b = ret (Pending, b')" by (simp add: run wait(1) b'_def)
    moreover have "unordered_holds p size_of holds val limit k' j b' rest" using keep [OF wait(4)] b(4) fill(5) future_set.holds_size [OF O hold] future_set.holds_size [OF O wait(4)] by (simp add: b'_def)
    moreover have "k' < k \<or> k' = k \<and> j < n" using rank wait(3) by auto
    ultimately show ?thesis by (blast intro: run_step_wait)
  next
    case (ended q')
    then have xs': "xs' = []" by simp
    define b' where "b' = b\<lparr>bu_stream := st, bu_queue := q'\<rparr>"
    have "has_room (bu_max b) (size_of q)" using size [rule_format, OF fill(4)] xs' m(2) by (auto simp: has_room_def split: option.split)
    then have live: "\<not> fuse_done st \<and> k' < k \<or> fuse_done st \<and> vs' = []" using fill(6) by (auto simp: filled_def)
    have kept: "unordered_holds p size_of holds val limit k' n' b' vs'" using keep [of n' q' "[]"] ended(3) xs' future_set.holds_size [OF O hold] future_set.holds_size [OF O ended(3)] by (simp add: b'_def)
    have rest: "rest = vs'" using b(4) fill(5) xs' by simp
    define r where "r = (if fuse_done st then Ready None else Pending :: 'b option poll)"
    have "buffer_unordered_poll_next p poll_set push size_of b = ret (r, b')"
      by (simp add: run ended(1) b'_def r_def fuse_is_done_def)
    moreover have "run_step (\<lambda>rest y rest'. mset rest = add_mset y (mset rest')) (unordered_holds p size_of holds val limit) k n rest r b'"
      using live rest kept by (auto simp: run_step_def r_def)
    ultimately show ?thesis by blast
  qed
qed

section \<open>The laws\<close>



lemma ready_resolves_in: "resolves_in ready_poll_fut 1 (Some v) v"
  using resolves_in.resolves_in_ready [of ready_poll_fut "Some v" v None] by (simp add: ready_poll_fut_def)




text \<open>
  \<open>BufferUnordered\<close> over a stream of futures yields the value of each exactly once, in whatever order they complete, and then ends;
  and at every moment it runs at most \<open>n\<close> of them.
\<close>

theorem buffer_unordered_all:
  assumes "future_set poll_set push size_of holds val" and "holds 0 q {#}" and "ends p st fs t"
    and "list_all2 (\<lambda>f v. \<exists>k. val k f v) fs vs" and "0 < m"
  shows "(\<exists>ys u. ends (buffer_unordered_poll_next p poll_set push size_of) (buffer_unordered_new q st (Some m)) ys u \<and> mset ys = mset vs)
    \<and> (\<forall>ys b. gives (buffer_unordered_poll_next p poll_set push size_of) (buffer_unordered_new q st (Some m)) ys b \<longrightarrow> size_of (bu_queue b) \<le> m)"
proof -
  obtain k where k: "fuse_run p k (fuse_new st) fs" using fuse_run_new [OF assms(3)] by blast
  have start: "unordered_holds p size_of holds val (Some m) k 0 (buffer_unordered_new q st (Some m)) vs"
    unfolding unordered_holds_def
    by (intro conjI exI [of _ fs] exI [of _ vs] exI [of _ "[]"])
      (use k assms(2,4,5) future_set.holds_size [OF assms(1,2)] in \<open>auto simp: buffer_unordered_new_def non_zero_def\<close>)
  note step = buffer_unordered_step [OF assms(1)]
  from run_step_ends [where Q = "\<lambda>rest ys. mset ys = mset rest", OF step _ _ start]
  have "\<exists>ys u. ends (buffer_unordered_poll_next p poll_set push size_of) (buffer_unordered_new q st (Some m)) ys u \<and> mset ys = mset vs" by auto
  moreover have "size_of (bu_queue b) \<le> m"
    if "gives (buffer_unordered_poll_next p poll_set push size_of) (buffer_unordered_new q st (Some m)) ys b" for ys b
    using run_step_gives [OF step that start] by (auto simp: unordered_holds_def)
  ultimately show ?thesis by blast
qed

lemma buffer_unordered_all_witness:
  "\<exists>ys u. ends (buffer_unordered_poll_next iter_poll_next (fs_poll_woken ready_poll_fut) fs_push fs_len)
     (buffer_unordered_new fs_new (iter [Some (1 :: int), Some 2, Some 3]) (Some 2)) ys u \<and> mset ys = {#1, 2, 3#}"
proof -
  have "list_all2 (\<lambda>f v. \<exists>k. resolves_in ready_poll_fut k f v) [Some (1 :: int), Some 2, Some 3] [1, 2, 3]"
    using ready_resolves_in by (auto intro!: exI [of _ "1 :: nat"])
  moreover have "fs_holds ready_poll_fut 0 fs_new ({#} :: int multiset)" by (simp add: fs_holds_def fs_new_def)
  ultimately show ?thesis
    using buffer_unordered_all [OF fs_future_set _ iter_ends, of ready_poll_fut fs_new "[Some (1 :: int), Some 2, Some 3]" "[1, 2, 3]" 2] by simp
qed

end
