(* ===== verification/Sinks.thy ===== *)
theory Sinks
  imports Stream_Map Future_Combinators "HOL-Library.Product_Lexorder" "HOL-Library.Sublist"
begin

text \<open>
  The sinks of \<open>futures-sink\<close> and \<open>futures-util/src/sink\<close>: what the \<open>Sink\<close> trait promises, as the locale
  \<open>sink\<close>; the sinks that are their own end (\<open>Vec\<close> and \<open>VecDeque\<close>, \<open>drain\<close>); and the adapters
  \<open>buffer\<close>, \<open>fanout\<close> and \<open>sink_map_err\<close>, each of which is shown to keep the promises over any sink that
  keeps them. Sink_With has the adapters that transform the items.
\<close>

section \<open>The contract\<close>

type_synonym ('s, 'e) sink_poll = "'s \<Rightarrow> (('e + unit) poll \<times> 's) comp"
type_synonym ('s, 'a, 'e) send_fn = "'a \<Rightarrow> 's \<Rightarrow> (('e + unit) \<times> 's) comp"

text \<open>
  \<open>holds r s xs\<close>: the sink in state \<open>s\<close> has accepted the items \<open>xs\<close>, in this order; \<open>r\<close> goes down with every
  \<open>Pending\<close>. A poll of a sink: it is \<open>Ready(Ok)\<close> and what was polled for holds, it is \<open>Pending\<close> and closer
  to it, or it has failed, and then a beginning of what was accepted is all that got through.
\<close>

definition sink_step ::
  "('r :: wellorder \<Rightarrow> 's \<Rightarrow> 'a list \<Rightarrow> bool) \<Rightarrow> ('s \<Rightarrow> 'a list \<Rightarrow> 'e \<Rightarrow> bool) \<Rightarrow> ('r \<Rightarrow> 's \<Rightarrow> 'a list \<Rightarrow> bool)
   \<Rightarrow> 'r \<Rightarrow> 'a list \<Rightarrow> ('e + unit) poll \<Rightarrow> 's \<Rightarrow> bool" where
  "sink_step holds failed ok r xs p s' \<longleftrightarrow>
     (p = Pending \<longrightarrow> (\<exists>r'<r. holds r' s' xs))
     \<and> (p = Ready (Inr ()) \<longrightarrow> (\<exists>r'\<le>r. ok r' s' xs))
     \<and> (\<forall>e. p = Ready (Inl e) \<longrightarrow> (\<exists>ys. prefix ys xs \<and> failed s' ys e))"

lemma sink_step_simps [simp]:
  "sink_step holds failed ok r xs Pending s' \<longleftrightarrow> (\<exists>r'<r. holds r' s' xs)"
  "sink_step holds failed ok r xs (Ready (Inr u)) s' \<longleftrightarrow> (\<exists>r'\<le>r. ok r' s' xs)"
  "sink_step holds failed ok r xs (Ready (Inl e)) s' \<longleftrightarrow> (\<exists>ys. prefix ys xs \<and> failed s' ys e)"
  by (simp_all add: sink_step_def)

definition sent :: "('r :: wellorder \<Rightarrow> 's \<Rightarrow> 'a list \<Rightarrow> bool) \<Rightarrow> ('s \<Rightarrow> 'a list \<Rightarrow> 'e \<Rightarrow> bool) \<Rightarrow> 'a list \<Rightarrow> 'e + unit \<Rightarrow> 's \<Rightarrow> bool" where
  "sent holds failed xs q s' \<longleftrightarrow>
     (q = Inr () \<longrightarrow> (\<exists>r. holds r s' xs)) \<and> (\<forall>e. q = Inl e \<longrightarrow> (\<exists>ys. prefix ys xs \<and> failed s' ys e))"

lemma sent_simps [simp]:
  "sent holds failed xs (Inr u) s' \<longleftrightarrow> (\<exists>r. holds r s' xs)"
  "sent holds failed xs (Inl e) s' \<longleftrightarrow> (\<exists>ys. prefix ys xs \<and> failed s' ys e)"
  by (simp_all add: sent_def)

lemma sink_step_cases:
  assumes "sink_step holds failed ok r xs p s'"
  obtains (ok) r' where "p = Ready (Inr ())" "r' \<le> r" "ok r' s' xs"
    | (err) e ys where "p = Ready (Inl e)" "prefix ys xs" "failed s' ys e"
    | (pending) r' where "p = Pending" "r' < r" "holds r' s' xs"
proof (cases p)
  case (Ready x)
  with assms ok err show thesis by (cases x) auto
next
  case Pending
  with assms pending show thesis by auto
qed

lemma sink_step_mono:
  assumes "sink_step H F K r xs p s" and "r \<le> r'" and "\<And>k. K k s xs \<Longrightarrow> K' k s xs"
  shows "sink_step H F K' r' xs p s"
  using assms(1)
proof (cases rule: sink_step_cases)
  case (ok k)
  with assms(2,3) show ?thesis by (auto intro: order_trans)
next
  case (pending k)
  then have "k < r'" using assms(2) by (rule_tac less_le_trans)
  with pending show ?thesis by auto
qed auto

lemma ok_stepI:
  "m = ret (Ready (Inr ()), s) \<Longrightarrow> r' \<le> r \<Longrightarrow> K r' s xs \<Longrightarrow> \<exists>p s'. m = ret (p, s') \<and> sink_step H F K r xs p s'"
  and err_stepI:
  "m = ret (Ready (Inl e), s) \<Longrightarrow> prefix ys xs \<Longrightarrow> F s ys e \<Longrightarrow> \<exists>p s'. m = ret (p, s') \<and> sink_step H F K r xs p s'"
  and pending_stepI:
  "m = ret (Pending, s) \<Longrightarrow> r' < r \<Longrightarrow> H r' s xs \<Longrightarrow> \<exists>p s'. m = ret (p, s') \<and> sink_step H F K r xs p s'"
  unfolding sink_step_def by blast+

text \<open>A poll whose answer is handed on, with the state of the adapter around that of the sink.\<close>

lemma wrap_step:
  assumes "sink_step H F K r xs p s" and "m = ret (p, u)" and "\<And>i. i < r \<Longrightarrow> H i s xs \<Longrightarrow> wr i < k \<and> H' (wr i) u xs'"
    and "\<And>i. i \<le> r \<Longrightarrow> K i s xs \<Longrightarrow> wr i \<le> k \<and> K' (wr i) u xs'"
    and "\<And>e ys. prefix ys xs \<Longrightarrow> F s ys e \<Longrightarrow> \<exists>zs. prefix zs xs' \<and> F' u zs e"
  shows "\<exists>p u. m = ret (p, u) \<and> sink_step H' F' K' k xs' p u"
  using assms(1)
proof (cases rule: sink_step_cases)
  case (ok i)
  with assms(2) assms(4) [of i] show ?thesis by (intro ok_stepI [of _ u "wr i"]) auto
next
  case (err e ys)
  with assms(5) [of ys e] obtain zs where "prefix zs xs'" "F' u zs e" by blast
  then show ?thesis using err assms(2) by (intro err_stepI [of _ e u zs]) auto
next
  case (pending i)
  with assms(2) assms(3) [of i] show ?thesis by (intro pending_stepI [of _ u "wr i"]) auto
qed

lemma prefix_more: "prefix zs (ys @ [x]) \<Longrightarrow> prefix zs (ys @ x # xs)"
  using prefix_prefix [of zs "ys @ [x]" xs] by simp

text \<open>
  \<open>start_send\<close> may be called when \<open>poll_ready\<close> has answered \<open>Ready(Ok)\<close>. A sink that is being closed still
  answers \<open>poll_ready\<close>: \<open>Buffer::poll_close\<close> calls it.
\<close>

locale sink =
  fixes poll_ready :: "('s, 'e) sink_poll" and start_send :: "('s, 'a, 'e) send_fn"
    and poll_flush :: "('s, 'e) sink_poll" and poll_close :: "('s, 'e) sink_poll"
    and holds :: "'r :: wellorder \<Rightarrow> 's \<Rightarrow> 'a list \<Rightarrow> bool" and ready :: "'r \<Rightarrow> 's \<Rightarrow> 'a list \<Rightarrow> bool"
    and flushed :: "'r \<Rightarrow> 's \<Rightarrow> 'a list \<Rightarrow> bool" and closed :: "'r \<Rightarrow> 's \<Rightarrow> 'a list \<Rightarrow> bool"
    and failed :: "'s \<Rightarrow> 'a list \<Rightarrow> 'e \<Rightarrow> bool"
  assumes poll_ready: "holds r s xs \<Longrightarrow> \<exists>p s'. poll_ready s = ret (p, s') \<and> sink_step holds failed ready r xs p s'"
    and start_send: "ready r s xs \<Longrightarrow> \<exists>q s'. start_send x s = ret (q, s') \<and> sent holds failed (xs @ [x]) q s'"
    and poll_flush: "holds r s xs \<Longrightarrow> \<exists>p s'. poll_flush s = ret (p, s') \<and> sink_step holds failed flushed r xs p s'"
    and poll_close: "holds r s xs \<Longrightarrow> \<exists>p s'. poll_close s = ret (p, s') \<and> sink_step holds failed closed r xs p s'"
    and ready_holds: "ready r s xs \<Longrightarrow> holds r s xs"
    and flushed_holds: "flushed r s xs \<Longrightarrow> holds r s xs"
begin

lemma ready_cases:
  assumes "holds r s xs"
  obtains (ok) r' s' where "poll_ready s = ret (Ready (Inr ()), s')" "r' \<le> r" "ready r' s' xs"
    | (err) e ys s' where "poll_ready s = ret (Ready (Inl e), s')" "prefix ys xs" "failed s' ys e"
    | (pending) r' s' where "poll_ready s = ret (Pending, s')" "r' < r" "holds r' s' xs"
  using poll_ready [OF assms] by (elim exE conjE sink_step_cases) (use that in auto)

lemma flush_cases:
  assumes "holds r s xs"
  obtains (ok) r' s' where "poll_flush s = ret (Ready (Inr ()), s')" "r' \<le> r" "flushed r' s' xs"
    | (err) e ys s' where "poll_flush s = ret (Ready (Inl e), s')" "prefix ys xs" "failed s' ys e"
    | (pending) r' s' where "poll_flush s = ret (Pending, s')" "r' < r" "holds r' s' xs"
  using poll_flush [OF assms] by (elim exE conjE sink_step_cases) (use that in auto)

lemma close_cases:
  assumes "holds r s xs"
  obtains (ok) r' s' where "poll_close s = ret (Ready (Inr ()), s')" "r' \<le> r" "closed r' s' xs"
    | (err) e ys s' where "poll_close s = ret (Ready (Inl e), s')" "prefix ys xs" "failed s' ys e"
    | (pending) r' s' where "poll_close s = ret (Pending, s')" "r' < r" "holds r' s' xs"
  using poll_close [OF assms] by (elim exE conjE sink_step_cases) (use that in auto)

lemma send_cases:
  assumes "ready r s xs"
  obtains (ok) r' s' where "start_send x s = ret (Inr (), s')" "holds r' s' (xs @ [x])"
    | (err) e ys s' where "start_send x s = ret (Inl e, s')" "prefix ys (xs @ [x])" "failed s' ys e"
proof -
  from start_send [OF assms] obtain q s' where q: "start_send x s = ret (q, s')" "sent holds failed (xs @ [x]) q s'" by blast
  with ok err show thesis by (cases q) auto
qed

end

text \<open>A sink that still answers when it has been closed, as \<open>Fanout::poll_close\<close> needs it.\<close>

locale closable_sink = sink +
  assumes closed_holds: "closed r s xs \<Longrightarrow> holds r s xs"

section \<open>Vec, VecDeque, drain\<close>

definition vec_poll :: "('a list, 'e) sink_poll" where
  "vec_poll this = ret (Ready (Inr ()), this)"

definition vec_start_send :: "('a list, 'a, 'e) send_fn" where
  "vec_start_send item this = ret (Inr (), this @ [item])"

definition drain_poll :: "(unit, 'e) sink_poll" where
  "drain_poll this = ret (Ready (Inr ()), this)"

definition drain_start_send :: "(unit, 'a, 'e) send_fn" where
  "drain_start_send item this = ret (Inr (), this)"

definition vec_holds :: "nat \<Rightarrow> 'a list \<Rightarrow> 'a list \<Rightarrow> bool" where
  "vec_holds r s xs \<longleftrightarrow> s = xs"

definition never_failed :: "'s \<Rightarrow> 'a list \<Rightarrow> 'e \<Rightarrow> bool" where
  "never_failed s xs e = False"

definition drain_holds :: "nat \<Rightarrow> unit \<Rightarrow> 'a list \<Rightarrow> bool" where
  "drain_holds r s xs = True"

interpretation vec: closable_sink vec_poll vec_start_send vec_poll vec_poll vec_holds vec_holds vec_holds vec_holds never_failed
  by unfold_locales (auto simp: vec_poll_def vec_start_send_def vec_holds_def)

interpretation drain: closable_sink drain_poll drain_start_send drain_poll drain_poll
  drain_holds drain_holds drain_holds drain_holds never_failed
  by unfold_locales (auto simp: drain_poll_def drain_start_send_def drain_holds_def)

section \<open>buffer\<close>

record ('s, 'a) Buffer =
  bf_sink :: 's
  bf_buf :: "'a list"
  bf_capacity :: usize

definition buffer_new :: "'s \<Rightarrow> usize \<Rightarrow> ('s, 'a) Buffer" where
  "buffer_new si capacity = \<lparr>bf_sink = si, bf_buf = [], bf_capacity = capacity\<rparr>"

primrec buffer_drain ::
  "('s, 'e) sink_poll \<Rightarrow> ('s, 'a, 'e) send_fn \<Rightarrow> 'a list \<Rightarrow> (('s, 'a) Buffer, 'e) sink_poll" where
  "buffer_drain pr ss [] this = ret (Ready (Inr ()), this\<lparr>bf_buf := []\<rparr>)"
| "buffer_drain pr ss (item # buf) this =
     bindc (ss item (bf_sink this)) (\<lambda>(r, si).
       let this = this\<lparr>bf_sink := si, bf_buf := buf\<rparr> in
       case r of
         Inl e \<Rightarrow> ret (Ready (Inl e), this)
       | Inr _ \<Rightarrow>
           if buf \<noteq> [] then ready_try (pr (bf_sink this)) (\<lambda>si. this\<lparr>bf_sink := si\<rparr>) (\<lambda>_ this. buffer_drain pr ss buf this)
           else buffer_drain pr ss buf this)"

definition buffer_try_empty :: "('s, 'e) sink_poll \<Rightarrow> ('s, 'a, 'e) send_fn \<Rightarrow> (('s, 'a) Buffer, 'e) sink_poll" where
  "buffer_try_empty pr ss this =
     ready_try (pr (bf_sink this)) (\<lambda>si. this\<lparr>bf_sink := si\<rparr>) (\<lambda>_ this. buffer_drain pr ss (bf_buf this) this)"

definition buffer_poll_ready :: "('s, 'e) sink_poll \<Rightarrow> ('s, 'a, 'e) send_fn \<Rightarrow> (('s, 'a) Buffer, 'e) sink_poll" where
  "buffer_poll_ready pr ss this =
     (if bf_capacity this = 0 then poll_with (pr (bf_sink this)) (\<lambda>si. this\<lparr>bf_sink := si\<rparr>) (\<lambda>p this. ret (p, this))
      else poll_with (buffer_try_empty pr ss this) id (\<lambda>p this.
        case p of
          Ready (Inl e) \<Rightarrow> ret (Ready (Inl e), this)
        | _ \<Rightarrow> ret (if unat (bf_capacity this) \<le> length (bf_buf this) then Pending else Ready (Inr ()), this)))"

definition buffer_start_send :: "('s, 'a, 'e) send_fn \<Rightarrow> (('s, 'a) Buffer, 'a, 'e) send_fn" where
  "buffer_start_send ss item this =
     (if bf_capacity this = 0 then bindc (ss item (bf_sink this)) (\<lambda>(r, si). ret (r, this\<lparr>bf_sink := si\<rparr>))
      else ret (Inr (), this\<lparr>bf_buf := bf_buf this @ [item]\<rparr>))"

text \<open>\<open>poll_flush\<close> and \<open>poll_close\<close> have the same body; \<open>pf\<close> is the inner sink's.\<close>

definition buffer_poll_flush ::
  "('s, 'e) sink_poll \<Rightarrow> ('s, 'a, 'e) send_fn \<Rightarrow> ('s, 'e) sink_poll \<Rightarrow> (('s, 'a) Buffer, 'e) sink_poll" where
  "buffer_poll_flush pr ss pf this =
     ready_try (buffer_try_empty pr ss this) id (\<lambda>_ this.
       assertc (bf_buf this = []) ''assertion failed: self.buf.is_empty()''
         (poll_with (pf (bf_sink this)) (\<lambda>si. this\<lparr>bf_sink := si\<rparr>) (\<lambda>p this. ret (p, this))))"

definition buffer_poll_close ::
  "('s, 'e) sink_poll \<Rightarrow> ('s, 'a, 'e) send_fn \<Rightarrow> ('s, 'e) sink_poll \<Rightarrow> (('s, 'a) Buffer, 'e) sink_poll" where
  "buffer_poll_close pr ss pc this =
     ready_try (buffer_try_empty pr ss this) id (\<lambda>_ this.
       assertc (bf_buf this = []) ''assertion failed: self.buf.is_empty()''
         (poll_with (pc (bf_sink this)) (\<lambda>si. this\<lparr>bf_sink := si\<rparr>) (\<lambda>p this. ret (p, this))))"

text \<open>What the buffered sink has accepted is what the sink inside has, and then the buffer.\<close>

definition buffer_holds ::
  "('r :: wellorder \<Rightarrow> 's \<Rightarrow> 'a list \<Rightarrow> bool) \<Rightarrow> usize \<Rightarrow> nat \<times> 'r \<Rightarrow> ('s, 'a) Buffer \<Rightarrow> 'a list \<Rightarrow> bool" where
  "buffer_holds H cap k s xs \<longleftrightarrow>
     (\<exists>ys. H (snd k) (bf_sink s) ys \<and> xs = ys @ bf_buf s \<and> fst k = length (bf_buf s) \<and> bf_capacity s = cap
       \<and> length (bf_buf s) \<le> unat cap)"

definition buffer_is_ready ::
  "('r :: wellorder \<Rightarrow> 's \<Rightarrow> 'a list \<Rightarrow> bool) \<Rightarrow> ('r \<Rightarrow> 's \<Rightarrow> 'a list \<Rightarrow> bool) \<Rightarrow> usize \<Rightarrow> nat \<times> 'r \<Rightarrow> ('s, 'a) Buffer \<Rightarrow> 'a list \<Rightarrow> bool" where
  "buffer_is_ready H R cap k s xs \<longleftrightarrow>
     (if cap = 0 then buffer_holds R cap k s xs else buffer_holds H cap k s xs \<and> length (bf_buf s) < unat cap)"

definition buffer_empty ::
  "('r :: wellorder \<Rightarrow> 's \<Rightarrow> 'a list \<Rightarrow> bool) \<Rightarrow> usize \<Rightarrow> nat \<times> 'r \<Rightarrow> ('s, 'a) Buffer \<Rightarrow> 'a list \<Rightarrow> bool" where
  "buffer_empty F cap k s xs \<longleftrightarrow> bf_buf s = [] \<and> buffer_holds F cap k s xs"

context sink begin

abbreviation buffer_fails :: "('s, 'a) Buffer \<Rightarrow> 'a list \<Rightarrow> 'e \<Rightarrow> bool" where
  "buffer_fails s ys e \<equiv> failed (bf_sink s) ys e"

lemma buffer_drain_step:
  assumes "ready r (bf_sink s) ys" and "length buf \<le> unat (bf_capacity s)"
  shows "\<exists>p s'. buffer_drain poll_ready start_send buf s = ret (p, s') \<and>
    sink_step (buffer_holds holds (bf_capacity s)) buffer_fails
      (\<lambda>k s' xs. bf_buf s' = [] \<and> buffer_holds holds (bf_capacity s) k s' xs) (length buf, r) (ys @ buf) p s'"
  using assms
proof (induction buf arbitrary: r s ys)
  case Nil
  then show ?case by (auto simp: buffer_holds_def dest: ready_holds intro!: exI [of _ "0 :: nat"] exI [of _ r])
next
  case (Cons item buf)
  show ?case
  proof (cases rule: send_cases [OF Cons.prems(1), of item, case_names ok err])
    case (err e zs t)
    from err(1,3) prefix_more [OF err(2), of buf] show ?thesis by auto
  next
    case (ok r' t)
    define u where "u = s\<lparr>bf_sink := t, bf_buf := buf\<rparr>"
    show ?thesis
    proof (cases "buf = []")
      case True
      with ok show ?thesis
        by (auto simp: buffer_holds_def Let_def less_eq_prod_def intro!: exI [of _ "0 :: nat"] exI [of _ r'])
    next
      case False
      note run = ok(1) False u_def [symmetric]
      show ?thesis
      proof (cases rule: ready_cases [OF ok(2), case_names ok2 err pending])
        case (ok2 r2 t2)
        define v where "v = u\<lparr>bf_sink := t2\<rparr>"
        have "ready r2 (bf_sink v) (ys @ [item])" "length buf \<le> unat (bf_capacity v)"
          using ok2 Cons.prems(2) by (simp_all add: v_def u_def)
        from Cons.IH [OF this] obtain p s' where p: "buffer_drain poll_ready start_send buf v = ret (p, s')"
          "sink_step (buffer_holds holds (bf_capacity v)) buffer_fails
            (\<lambda>k s' xs. bf_buf s' = [] \<and> buffer_holds holds (bf_capacity v) k s' xs) (length buf, r2) ((ys @ [item]) @ buf) p s'" by blast
        have "buffer_drain poll_ready start_send (item # buf) s = ret (p, s')"
          using run ok2(1) p(1) by (simp add: Let_def v_def u_def)
        moreover have "sink_step (buffer_holds holds (bf_capacity s)) buffer_fails
            (\<lambda>k s' xs. bf_buf s' = [] \<and> buffer_holds holds (bf_capacity s) k s' xs) (length (item # buf), r) (ys @ item # buf) p s'"
          by (rule sink_step_mono [where r = "(length buf, r2)"])
            (use p(2) in \<open>simp_all add: v_def u_def less_eq_prod_def\<close>)
        ultimately show ?thesis by blast
      next
        case (err e zs t2)
        then have "prefix zs (ys @ item # buf)" by (simp add: prefix_more)
        with err run show ?thesis by (auto simp: Let_def u_def)
      next
        case (pending r2 t2)
        with run Cons.prems(2) show ?thesis
          by (auto simp: Let_def u_def buffer_holds_def intro!: exI [of _ "length buf"] exI [of _ r2] exI [of _ "ys @ [item]"])
      qed
    qed
  qed
qed

lemma buffer_try_empty_step:
  assumes "buffer_holds holds cap k s xs"
  shows "\<exists>p s'. buffer_try_empty poll_ready start_send s = ret (p, s') \<and>
    sink_step (buffer_holds holds cap) buffer_fails (\<lambda>k s' xs. bf_buf s' = [] \<and> buffer_holds holds cap k s' xs) k xs p s'"
proof -
  obtain ys where ys: "holds (snd k) (bf_sink s) ys" "xs = ys @ bf_buf s" "k = (length (bf_buf s), snd k)"
    "bf_capacity s = cap" "length (bf_buf s) \<le> unat cap"
    using assms unfolding buffer_holds_def by (metis prod.collapse)
  show ?thesis
  proof (cases rule: ready_cases [OF ys(1), case_names ok err pending])
    case (ok r' t)
    let ?u = "s\<lparr>bf_sink := t\<rparr>"
    have "ready r' (bf_sink ?u) ys" "length (bf_buf s) \<le> unat (bf_capacity ?u)" using ok ys by simp_all
    from buffer_drain_step [OF this] obtain p s' where
      p: "buffer_drain poll_ready start_send (bf_buf s) ?u = ret (p, s')"
        "sink_step (buffer_holds holds cap) buffer_fails
          (\<lambda>k s' xs. bf_buf s' = [] \<and> buffer_holds holds cap k s' xs) (length (bf_buf s), r') xs p s'"
      using ys by auto
    have "(length (bf_buf s), r') \<le> k" using ok(2) by (subst ys(3)) (simp add: less_eq_prod_def)
    with p(2) have "sink_step (buffer_holds holds cap) buffer_fails
          (\<lambda>k s' xs. bf_buf s' = [] \<and> buffer_holds holds cap k s' xs) k xs p s'"
      by (rule sink_step_mono)
    then show ?thesis using p(1) ok(1) by (simp add: buffer_try_empty_def)
  next
    case (err e zs t)
    from err(1,3) prefix_prefix [OF err(2), of "bf_buf s"] ys(2) show ?thesis by (auto simp: buffer_try_empty_def)
  next
    case (pending r' t)
    then have "(length (bf_buf s), r') < k" by (subst ys(3)) (simp add: less_prod_def)
    moreover have "buffer_holds holds cap (length (bf_buf s), r') (s\<lparr>bf_sink := t\<rparr>) xs"
      using pending ys by (auto simp: buffer_holds_def)
    ultimately show ?thesis using pending by (auto simp: buffer_try_empty_def)
  qed
qed


lemma buffer_poll_ready_step:
  assumes "buffer_holds holds cap k s xs"
  shows "\<exists>p s'. buffer_poll_ready poll_ready start_send s = ret (p, s') \<and>
    sink_step (buffer_holds holds cap) buffer_fails (buffer_is_ready holds ready cap) k xs p s'"
proof (cases "cap = 0")
  case True
  then have ys: "holds (snd k) (bf_sink s) xs" "k = (0, snd k)" "bf_buf s = []" "bf_capacity s = 0"
    using assms by (auto simp: buffer_holds_def prod_eq_iff)
  show ?thesis
  proof (cases rule: ready_cases [OF ys(1), case_names ok err pending])
    case (ok r' t)
    then have "(0, r') \<le> k" by (subst ys(2)) (simp add: less_eq_prod_def)
    with ok ys True show ?thesis by (auto simp: buffer_poll_ready_def buffer_is_ready_def buffer_holds_def)
  next
    case (pending r' t)
    then have "(0, r') < k" by (subst ys(2)) (simp add: less_prod_def)
    with pending ys True show ?thesis by (auto simp: buffer_poll_ready_def buffer_holds_def)
  qed (use ys in \<open>auto simp: buffer_poll_ready_def\<close>)
next
  case False
  then have pos: "0 < unat cap" by (simp add: unat_gt_0)
  from buffer_try_empty_step [OF assms] obtain p s' where
    p: "buffer_try_empty poll_ready start_send s = ret (p, s')"
      "sink_step (buffer_holds holds cap) buffer_fails (\<lambda>k s' xs. bf_buf s' = [] \<and> buffer_holds holds cap k s' xs) k xs p s'" by blast
  have c: "bf_capacity s = cap" using assms by (auto simp: buffer_holds_def)
  from p(2) show ?thesis
  proof (cases rule: sink_step_cases)
    case (ok k')
    then have "bf_capacity s' = cap" by (auto simp: buffer_holds_def)
    with ok p(1) c False pos have "buffer_poll_ready poll_ready start_send s = ret (Ready (Inr ()), s')"
      "buffer_is_ready holds ready cap k' s' xs" by (simp_all add: buffer_poll_ready_def buffer_is_ready_def)
    then show ?thesis by (rule ok_stepI [OF _ ok(2)])
  next
    case (err e ys)
    with p(1) c False show ?thesis by (auto simp: buffer_poll_ready_def)
  next
    case (pending k')
    then have "bf_capacity s' = cap" by (auto simp: buffer_holds_def)
    show ?thesis
    proof (cases "unat cap \<le> length (bf_buf s')")
      case True
      with pending p(1) c False \<open>bf_capacity s' = cap\<close> have "buffer_poll_ready poll_ready start_send s = ret (Pending, s')"
        by (simp add: buffer_poll_ready_def)
      then show ?thesis by (rule pending_stepI [OF _ pending(2)]) (rule pending(3))
    next
      case False2: False
      with pending p(1) c False \<open>bf_capacity s' = cap\<close> have "buffer_poll_ready poll_ready start_send s = ret (Ready (Inr ()), s')"
        "buffer_is_ready holds ready cap k' s' xs" by (simp_all add: buffer_poll_ready_def buffer_is_ready_def)
      then show ?thesis by (rule ok_stepI [OF _ less_imp_le [OF pending(2)]])
    qed
  qed
qed

lemma buffer_start_send_step:
  assumes "buffer_is_ready holds ready cap k s xs"
  shows "\<exists>q s'. buffer_start_send start_send x s = ret (q, s') \<and> sent (buffer_holds holds cap) buffer_fails (xs @ [x]) q s'"
proof (cases "cap = 0")
  case True
  with assms have s: "ready (snd k) (bf_sink s) xs" "bf_buf s = []" "bf_capacity s = 0"
    by (auto simp: buffer_is_ready_def buffer_holds_def)
  show ?thesis
  proof (cases rule: send_cases [OF s(1), of x, case_names ok err])
    case (ok r' t)
    with s True show ?thesis
      by (auto simp: buffer_start_send_def buffer_holds_def)
  qed (use s in \<open>auto simp: buffer_start_send_def\<close>)
next
  case False
  with assms show ?thesis by (auto simp: buffer_is_ready_def buffer_holds_def buffer_start_send_def)
qed

lemma buffer_finish_step:
  assumes "buffer_holds holds cap k s xs"
    and pf: "\<And>r s xs. holds r s xs \<Longrightarrow> \<exists>p s'. pf s = ret (p, s') \<and> sink_step holds failed done' r xs p s'"
  shows "\<exists>p s'. buffer_poll_flush poll_ready start_send pf s = ret (p, s') \<and>
    sink_step (buffer_holds holds cap) buffer_fails (buffer_empty done' cap) k xs p s'"
proof -
  from buffer_try_empty_step [OF assms(1)] obtain p s' where
    p: "buffer_try_empty poll_ready start_send s = ret (p, s')"
      "sink_step (buffer_holds holds cap) buffer_fails (\<lambda>k s' xs. bf_buf s' = [] \<and> buffer_holds holds cap k s' xs) k xs p s'" by blast
  from p(2) show ?thesis
  proof (cases rule: sink_step_cases)
    case (ok k')
    then have ys: "holds (snd k') (bf_sink s') xs" "bf_buf s' = []" "bf_capacity s' = cap" "k' = (0, snd k')"
      by (auto simp: buffer_holds_def prod_eq_iff)
    from pf [OF ys(1)] obtain p2 t where p2: "pf (bf_sink s') = ret (p2, t)" "sink_step holds failed done' (snd k') xs p2 t" by blast
    have run: "buffer_poll_flush poll_ready start_send pf s = ret (p2, s'\<lparr>bf_sink := t\<rparr>)"
      using p(1) ok p2(1) ys by (simp add: buffer_poll_flush_def)
    show ?thesis
    proof (rule wrap_step [OF p2(2) run, where wr = "\<lambda>i. (0, i)"])
      show "(0, i) < k \<and> buffer_holds holds cap (0, i) (s'\<lparr>bf_sink := t\<rparr>) xs" if "i < snd k'" "holds i t xs" for i
        using that ys ok(2) by (auto simp: buffer_holds_def less_prod_def less_eq_prod_def)
      show "(0, i) \<le> k \<and> buffer_empty done' cap (0, i) (s'\<lparr>bf_sink := t\<rparr>) xs" if "i \<le> snd k'" "done' i t xs" for i
        using that ys ok(2) by (auto simp: buffer_holds_def buffer_empty_def less_eq_prod_def)
    qed auto
  next
    case (err e zs)
    with p(1) show ?thesis by (simp add: buffer_poll_flush_def) blast
  next
    case (pending k')
    with p(1) have "buffer_poll_flush poll_ready start_send pf s = ret (Pending, s')" by (simp add: buffer_poll_flush_def)
    then show ?thesis by (rule pending_stepI [OF _ pending(2)]) (rule pending(3))
  qed
qed

theorem buffer_sink:
  "sink (buffer_poll_ready poll_ready start_send) (buffer_start_send start_send)
     (buffer_poll_flush poll_ready start_send poll_flush) (buffer_poll_close poll_ready start_send poll_close)
     (buffer_holds holds cap) (buffer_is_ready holds ready cap) (buffer_empty flushed cap) (buffer_empty closed cap) buffer_fails"
proof
  show "\<exists>p s'. buffer_poll_close poll_ready start_send poll_close s = ret (p, s') \<and>
      sink_step (buffer_holds holds cap) buffer_fails (buffer_empty closed cap) r xs p s'" if "buffer_holds holds cap r s xs" for r s xs
    using buffer_finish_step [OF that poll_close] by (simp add: buffer_poll_close_def buffer_poll_flush_def)
  show "buffer_holds holds cap r s xs" if "buffer_is_ready holds ready cap r s xs" for r s xs
    using that by (auto simp: buffer_is_ready_def buffer_holds_def dest: ready_holds split: if_splits)
  show "buffer_holds holds cap r s xs" if "buffer_empty flushed cap r s xs" for r s xs
    using that by (auto simp: buffer_empty_def buffer_holds_def dest: flushed_holds)
  show "\<exists>p s'. buffer_poll_flush poll_ready start_send poll_flush s = ret (p, s') \<and>
      sink_step (buffer_holds holds cap) buffer_fails (buffer_empty flushed cap) r xs p s'" if "buffer_holds holds cap r s xs" for r s xs
    by (rule buffer_finish_step [OF that poll_flush])
qed (fact buffer_poll_ready_step buffer_start_send_step)+

end

section \<open>fanout\<close>

record ('s1, 's2) Fanout =
  fn_sink1 :: 's1
  fn_sink2 :: 's2

definition fanout_new :: "'s1 \<Rightarrow> 's2 \<Rightarrow> ('s1, 's2) Fanout" where
  "fanout_new sink1 sink2 = \<lparr>fn_sink1 = sink1, fn_sink2 = sink2\<rparr>"

text \<open>The body of \<open>poll_ready\<close>, \<open>poll_flush\<close> and \<open>poll_close\<close>, which differ in the method they call on the two sinks.\<close>

definition fanout_both :: "('s1, 'e) sink_poll \<Rightarrow> ('s2, 'e) sink_poll \<Rightarrow> (('s1, 's2) Fanout, 'e) sink_poll" where
  "fanout_both poll1 poll2 this =
     poll_with (poll1 (fn_sink1 this)) (\<lambda>s. this\<lparr>fn_sink1 := s\<rparr>) (\<lambda>p this.
       case p of Ready (Inl e) \<Rightarrow> ret (Ready (Inl e), this) | _ \<Rightarrow>
         let sink1_ready = (p \<noteq> Pending) in
         poll_with (poll2 (fn_sink2 this)) (\<lambda>s. this\<lparr>fn_sink2 := s\<rparr>) (\<lambda>p this.
           case p of Ready (Inl e) \<Rightarrow> ret (Ready (Inl e), this) | _ \<Rightarrow>
             let sink2_ready = (p \<noteq> Pending) in
             let ready = (sink1_ready \<and> sink2_ready) in
             if ready then ret (Ready (Inr ()), this) else ret (Pending, this)))"

definition fanout_poll_ready :: "('s1, 'e) sink_poll \<Rightarrow> ('s2, 'e) sink_poll \<Rightarrow> (('s1, 's2) Fanout, 'e) sink_poll" where
  "fanout_poll_ready pr1 pr2 this = fanout_both pr1 pr2 this"

definition fanout_poll_flush :: "('s1, 'e) sink_poll \<Rightarrow> ('s2, 'e) sink_poll \<Rightarrow> (('s1, 's2) Fanout, 'e) sink_poll" where
  "fanout_poll_flush pf1 pf2 this = fanout_both pf1 pf2 this"

definition fanout_poll_close :: "('s1, 'e) sink_poll \<Rightarrow> ('s2, 'e) sink_poll \<Rightarrow> (('s1, 's2) Fanout, 'e) sink_poll" where
  "fanout_poll_close pc1 pc2 this = fanout_both pc1 pc2 this"

definition fanout_start_send :: "('s1, 'a, 'e) send_fn \<Rightarrow> ('s2, 'a, 'e) send_fn \<Rightarrow> (('s1, 's2) Fanout, 'a, 'e) send_fn" where
  "fanout_start_send ss1 ss2 item this =
     bindc (ss1 item (fn_sink1 this)) (\<lambda>(r, s).
       let this = this\<lparr>fn_sink1 := s\<rparr> in
       case r of
         Inl e \<Rightarrow> ret (Inl e, this)
       | Inr _ \<Rightarrow>
           bindc (ss2 item (fn_sink2 this)) (\<lambda>(r, s).
             let this = this\<lparr>fn_sink2 := s\<rparr> in
             case r of Inl e \<Rightarrow> ret (Inl e, this) | Inr _ \<Rightarrow> ret (Inr (), this)))"

text \<open>Both sinks have accepted the same items; one of them may have failed.\<close>

definition fanout_holds ::
  "('r1 \<Rightarrow> 's1 \<Rightarrow> 'a list \<Rightarrow> bool) \<Rightarrow> ('r2 \<Rightarrow> 's2 \<Rightarrow> 'a list \<Rightarrow> bool) \<Rightarrow> 'r1 \<times> 'r2 \<Rightarrow> ('s1, 's2) Fanout \<Rightarrow> 'a list \<Rightarrow> bool" where
  "fanout_holds H1 H2 k s xs \<longleftrightarrow> H1 (fst k) (fn_sink1 s) xs \<and> H2 (snd k) (fn_sink2 s) xs"

definition fanout_failed ::
  "('s1 \<Rightarrow> 'a list \<Rightarrow> 'e \<Rightarrow> bool) \<Rightarrow> ('s2 \<Rightarrow> 'a list \<Rightarrow> 'e \<Rightarrow> bool) \<Rightarrow> ('s1, 's2) Fanout \<Rightarrow> 'a list \<Rightarrow> 'e \<Rightarrow> bool" where
  "fanout_failed X1 X2 s ys e \<longleftrightarrow> X1 (fn_sink1 s) ys e \<or> X2 (fn_sink2 s) ys e"

lemma fanout_both_step:
  assumes p1: "\<exists>p s'. poll1 (fn_sink1 s) = ret (p, s') \<and> sink_step H1 X1 K1 (fst k) xs p s'"
    and p2: "\<exists>p s'. poll2 (fn_sink2 s) = ret (p, s') \<and> sink_step H2 X2 K2 (snd k) xs p s'"
    and K1: "\<And>r s. K1 r s xs \<Longrightarrow> H1 r s xs" and K2: "\<And>r s. K2 r s xs \<Longrightarrow> H2 r s xs"
  shows "\<exists>p s'. fanout_both poll1 poll2 s = ret (p, s') \<and>
    sink_step (fanout_holds H1 H2) (fanout_failed X1 X2) (fanout_holds K1 K2) k xs p s'"
proof -
  obtain p s1 where s1: "poll1 (fn_sink1 s) = ret (p, s1)" "sink_step H1 X1 K1 (fst k) xs p s1" using p1 by blast
  obtain q s2 where s2: "poll2 (fn_sink2 s) = ret (q, s2)" "sink_step H2 X2 K2 (snd k) xs q s2" using p2 by blast
  let ?t = "s\<lparr>fn_sink1 := s1, fn_sink2 := s2\<rparr>"
  from s1(2) show ?thesis
  proof (cases rule: sink_step_cases)
    case (err e ys)
    then show ?thesis
      by (intro err_stepI [of _ e "s\<lparr>fn_sink1 := s1\<rparr>" ys]) (use s1 in \<open>simp_all add: fanout_both_def fanout_failed_def\<close>)
  next
    case (ok r1)
    note run1 = s1(1) ok(1)
    from s2(2) show ?thesis
    proof (cases rule: sink_step_cases)
      case (err e ys)
      then show ?thesis
        by (intro err_stepI [of _ e ?t ys]) (use run1 s2 in \<open>simp_all add: fanout_both_def fanout_failed_def\<close>)
    next
      case ok2: (ok r2)
      then show ?thesis
        by (intro ok_stepI [of _ ?t "(r1, r2)"])
          (use run1 s2 ok in \<open>simp_all add: fanout_both_def fanout_holds_def less_eq_prod_def less_le\<close>)
    next
      case (pending r2)
      then show ?thesis
        by (intro pending_stepI [of _ ?t "(r1, r2)"])
          (use run1 s2 ok K1 in \<open>simp_all add: fanout_both_def fanout_holds_def less_prod_def\<close>)
    qed
  next
    case (pending r1)
    note run1 = s1(1) pending(1)
    from s2(2) show ?thesis
    proof (cases rule: sink_step_cases)
      case (err e ys)
      then show ?thesis
        by (intro err_stepI [of _ e ?t ys]) (use run1 s2 in \<open>simp_all add: fanout_both_def fanout_failed_def\<close>)
    next
      case (ok r2)
      then show ?thesis
        by (intro pending_stepI [of _ ?t "(r1, r2)"])
          (use run1 s2 pending K2 in \<open>simp_all add: fanout_both_def fanout_holds_def less_prod_def less_le\<close>)
    next
      case pending2: (pending r2)
      then show ?thesis
        by (intro pending_stepI [of _ ?t "(r1, r2)"])
          (use run1 s2 pending in \<open>simp_all add: fanout_both_def fanout_holds_def less_prod_def less_le\<close>)
    qed
  qed
qed

lemma fanout_sink:
  assumes S1: "closable_sink pr1 ss1 pf1 pc1 H1 R1 F1 C1 X1" and S2: "closable_sink pr2 ss2 pf2 pc2 H2 R2 F2 C2 X2"
  shows "closable_sink (fanout_poll_ready pr1 pr2) (fanout_start_send ss1 ss2) (fanout_poll_flush pf1 pf2) (fanout_poll_close pc1 pc2)
    (fanout_holds H1 H2) (fanout_holds R1 R2) (fanout_holds F1 F2) (fanout_holds C1 C2) (fanout_failed X1 X2)"
proof
  note A = closable_sink.axioms(1) [OF S1] and B = closable_sink.axioms(1) [OF S2]
  note KA = sink.ready_holds [OF A] sink.flushed_holds [OF A] closable_sink.closed_holds [OF S1]
  note KB = sink.ready_holds [OF B] sink.flushed_holds [OF B] closable_sink.closed_holds [OF S2]
  fix k s xs
  show "fanout_holds R1 R2 k s xs \<Longrightarrow> fanout_holds H1 H2 k s xs" "fanout_holds F1 F2 k s xs \<Longrightarrow> fanout_holds H1 H2 k s xs"
    "fanout_holds C1 C2 k s xs \<Longrightarrow> fanout_holds H1 H2 k s xs"
    by (simp_all add: fanout_holds_def KA KB)
  {
    assume "fanout_holds H1 H2 k s xs"
    then have H: "H1 (fst k) (fn_sink1 s) xs" "H2 (snd k) (fn_sink2 s) xs" by (simp_all add: fanout_holds_def)
    show "\<exists>p s'. fanout_poll_ready pr1 pr2 s = ret (p, s') \<and>
        sink_step (fanout_holds H1 H2) (fanout_failed X1 X2) (fanout_holds R1 R2) k xs p s'"
      unfolding fanout_poll_ready_def
      by (rule fanout_both_step) (fact sink.poll_ready [OF A H(1)] sink.poll_ready [OF B H(2)] KA(1) KB(1))+
    show "\<exists>p s'. fanout_poll_flush pf1 pf2 s = ret (p, s') \<and>
        sink_step (fanout_holds H1 H2) (fanout_failed X1 X2) (fanout_holds F1 F2) k xs p s'"
      unfolding fanout_poll_flush_def
      by (rule fanout_both_step) (fact sink.poll_flush [OF A H(1)] sink.poll_flush [OF B H(2)] KA(2) KB(2))+
    show "\<exists>p s'. fanout_poll_close pc1 pc2 s = ret (p, s') \<and>
        sink_step (fanout_holds H1 H2) (fanout_failed X1 X2) (fanout_holds C1 C2) k xs p s'"
      unfolding fanout_poll_close_def
      by (rule fanout_both_step) (fact sink.poll_close [OF A H(1)] sink.poll_close [OF B H(2)] KA(3) KB(3))+
  }
  show "\<exists>q s'. fanout_start_send ss1 ss2 x s = ret (q, s') \<and>
      sent (fanout_holds H1 H2) (fanout_failed X1 X2) (xs @ [x]) q s'" if "fanout_holds R1 R2 k s xs" for x
  proof -
    from that have R: "R1 (fst k) (fn_sink1 s) xs" "R2 (snd k) (fn_sink2 s) xs" by (simp_all add: fanout_holds_def)
    show ?thesis
    proof (cases rule: sink.send_cases [OF A R(1), of x, case_names ok err])
      case ok1: (ok r1 s1)
      show ?thesis
      proof (cases rule: sink.send_cases [OF B R(2), of x, case_names ok err])
        case (ok r2 s2)
        with ok1 show ?thesis by (auto simp: fanout_start_send_def fanout_holds_def Let_def)
      next
        case (err e ys s2)
        with ok1 show ?thesis by (auto simp: fanout_start_send_def fanout_failed_def Let_def simp del: prefix_snoc)
      qed
    next
      case (err e ys s1)
      then show ?thesis by (auto simp: fanout_start_send_def fanout_failed_def Let_def simp del: prefix_snoc)
    qed
  qed
qed

section \<open>sink_map_err and sink_err_into\<close>

text \<open>The closure is a \<open>FnOnce\<close>: it is taken by the first error. \<open>SinkErrInto\<close> is this sink with \<open>Into::into\<close>.\<close>

record ('s, 'c) SinkMapErr =
  me_sink :: 's
  me_f :: "'c option"

definition sink_map_err_new :: "'s \<Rightarrow> 'c \<Rightarrow> ('s, 'c) SinkMapErr" where
  "sink_map_err_new si f = \<lparr>me_sink = si, me_f = Some f\<rparr>"

definition map_err_take ::
  "('c \<Rightarrow> 'e \<Rightarrow> 'd comp) \<Rightarrow> 'e + unit \<Rightarrow> ('s, 'c) SinkMapErr \<Rightarrow> (('d + unit) \<times> ('s, 'c) SinkMapErr) comp" where
  "map_err_take f r this =
     (case r of
        Inr u \<Rightarrow> ret (Inr u, this)
      | Inl e \<Rightarrow>
          (case me_f this of
             Some c \<Rightarrow> bindc (f c e) (\<lambda>d. ret (Inl d, this\<lparr>me_f := None\<rparr>))
           | None \<Rightarrow> panic ''polled MapErr after completion''))"

definition sink_map_err_poll ::
  "('c \<Rightarrow> 'e \<Rightarrow> 'd comp) \<Rightarrow> ('s, 'e) sink_poll \<Rightarrow> (('s, 'c) SinkMapErr, 'd) sink_poll" where
  "sink_map_err_poll f p this =
     ready_poll (p (me_sink this)) (\<lambda>s. this\<lparr>me_sink := s\<rparr>) (\<lambda>r this.
       bindc (map_err_take f r this) (\<lambda>(r, this). ret (Ready r, this)))"

definition sink_map_err_start_send ::
  "('c \<Rightarrow> 'e \<Rightarrow> 'd comp) \<Rightarrow> ('s, 'a, 'e) send_fn \<Rightarrow> (('s, 'c) SinkMapErr, 'a, 'd) send_fn" where
  "sink_map_err_start_send f ss item this =
     bindc (ss item (me_sink this)) (\<lambda>(r, s). map_err_take f r (this\<lparr>me_sink := s\<rparr>))"

definition map_err_holds :: "('r \<Rightarrow> 's \<Rightarrow> 'a list \<Rightarrow> bool) \<Rightarrow> 'r \<Rightarrow> ('s, 'c) SinkMapErr \<Rightarrow> 'a list \<Rightarrow> bool" where
  "map_err_holds H r s xs \<longleftrightarrow> me_f s \<noteq> None \<and> H r (me_sink s) xs"

definition map_err_failed :: "('e \<Rightarrow> 'd) \<Rightarrow> ('s \<Rightarrow> 'a list \<Rightarrow> 'e \<Rightarrow> bool) \<Rightarrow> ('s, 'c) SinkMapErr \<Rightarrow> 'a list \<Rightarrow> 'd \<Rightarrow> bool" where
  "map_err_failed h X s ys d \<longleftrightarrow> me_f s = None \<and> (\<exists>e. d = h e \<and> X (me_sink s) ys e)"

lemma map_err_poll_step:
  assumes "me_f s \<noteq> None" and f: "\<And>c e. f c e = ret (h e)"
    and p: "\<exists>q s'. p (me_sink s) = ret (q, s') \<and> sink_step H X K r xs q s'"
  shows "\<exists>q s'. sink_map_err_poll f p s = ret (q, s') \<and>
    sink_step (map_err_holds H) (map_err_failed h X) (map_err_holds K) r xs q s'"
proof -
  obtain q t where t: "p (me_sink s) = ret (q, t)" "sink_step H X K r xs q t" using p by blast
  let ?u = "s\<lparr>me_sink := t\<rparr>"
  from t(2) show ?thesis
  proof (cases rule: sink_step_cases)
    case (ok i)
    then show ?thesis
      by (intro ok_stepI [of _ ?u i]) (use t assms(1) in \<open>simp_all add: sink_map_err_poll_def map_err_take_def map_err_holds_def\<close>)
  next
    case (err e ys)
    then show ?thesis
      by (intro err_stepI [of _ "h e" "?u\<lparr>me_f := None\<rparr>" ys])
        (use t assms(1) in \<open>auto simp: sink_map_err_poll_def map_err_take_def map_err_failed_def f\<close>)
  next
    case (pending i)
    then show ?thesis
      by (intro pending_stepI [of _ ?u i]) (use t assms(1) in \<open>simp_all add: sink_map_err_poll_def map_err_holds_def\<close>)
  qed
qed

context sink begin

lemma map_err_sink:
  fixes f :: "'c \<Rightarrow> 'e \<Rightarrow> 'd comp"
  assumes f: "\<And>c e. f c e = ret (h e)"
  shows "sink (sink_map_err_poll f poll_ready) (sink_map_err_start_send f start_send) (sink_map_err_poll f poll_flush)
    (sink_map_err_poll f poll_close) (map_err_holds holds) (map_err_holds ready) (map_err_holds flushed) (map_err_holds closed)
    (map_err_failed h failed)"
proof
  fix r xs and s :: "('s, 'c) SinkMapErr"
  show "map_err_holds ready r s xs \<Longrightarrow> map_err_holds holds r s xs" "map_err_holds flushed r s xs \<Longrightarrow> map_err_holds holds r s xs"
    by (simp_all add: map_err_holds_def ready_holds flushed_holds)
  {
    assume "map_err_holds holds r s xs"
    then have H: "me_f s \<noteq> None" "holds r (me_sink s) xs" by (simp_all add: map_err_holds_def)
    show "\<exists>q s'. sink_map_err_poll f poll_ready s = ret (q, s') \<and>
        sink_step (map_err_holds holds) (map_err_failed h failed) (map_err_holds ready) r xs q s'"
      by (rule map_err_poll_step) (fact H(1) f poll_ready [OF H(2)])+
    show "\<exists>q s'. sink_map_err_poll f poll_flush s = ret (q, s') \<and>
        sink_step (map_err_holds holds) (map_err_failed h failed) (map_err_holds flushed) r xs q s'"
      by (rule map_err_poll_step) (fact H(1) f poll_flush [OF H(2)])+
    show "\<exists>q s'. sink_map_err_poll f poll_close s = ret (q, s') \<and>
        sink_step (map_err_holds holds) (map_err_failed h failed) (map_err_holds closed) r xs q s'"
      by (rule map_err_poll_step) (fact H(1) f poll_close [OF H(2)])+
  }
  show "\<exists>q s'. sink_map_err_start_send f start_send x s = ret (q, s') \<and>
      sent (map_err_holds holds) (map_err_failed h failed) (xs @ [x]) q s'" if R: "map_err_holds ready r s xs" for x
  proof -
    obtain c where R: "me_f s = Some c" "ready r (me_sink s) xs" using R by (auto simp: map_err_holds_def)
    show ?thesis
    proof (cases rule: send_cases [OF R(2), of x, case_names ok err])
      case (ok r' t)
      with R(1) show ?thesis by (auto simp: sink_map_err_start_send_def map_err_take_def map_err_holds_def)
    next
      case (err e ys t)
      then have "sink_map_err_start_send f start_send x s = ret (Inl (h e), s\<lparr>me_sink := t, me_f := None\<rparr>)"
        using R(1) by (simp add: sink_map_err_start_send_def map_err_take_def f)
      with err show ?thesis by (auto simp: map_err_failed_def simp del: prefix_snoc)
    qed
  qed
qed

end

end
