(* ===== verification/Sink_With.thy ===== *)
theory Sink_With
  imports Sinks
begin

text \<open>
  The sinks that run a closure on what they are given, \<open>futures-util/src/sink/{with, with_flat_map,
  unfold}.rs\<close>. \<open>with\<close> sends what the future of an item resolves to, \<open>with_flat_map\<close> all the items of a
  stream, \<open>unfold\<close> is a sink of its own that folds. Each keeps the contract \<open>sink\<close>.
\<close>

section \<open>with\<close>

text \<open>\<open>E::from\<close> on the error of a result, as \<open>?\<close> applies it.\<close>

definition from_err :: "('e \<Rightarrow> 'd) \<Rightarrow> (('e + 'a) poll \<times> 's) comp \<Rightarrow> (('d + 'a) poll \<times> 's) comp" where
  "from_err from m = bindc m (\<lambda>(p, s). ret (case p of Ready r \<Rightarrow> Ready (map_sum from id r) | Pending \<Rightarrow> Pending, s))"

lemma from_err_ret [simp, comp_simps]:
  "from_err h (ret (p, s)) = ret (case p of Ready r \<Rightarrow> Ready (map_sum h id r) | Pending \<Rightarrow> Pending, s)"
  by (simp add: from_err_def)

record ('s, 'fut, 'c) With =
  wi_sink :: 's
  wi_f :: 'c
  wi_state :: "'fut option"

definition with_new :: "'s \<Rightarrow> 'c \<Rightarrow> ('s, 'fut, 'c) With" where
  "with_new si f = \<lparr>wi_sink = si, wi_f = f, wi_state = None\<rparr>"

definition with_poll ::
  "('e \<Rightarrow> 'd) \<Rightarrow> ('fut, 'd + 'a) pollfn \<Rightarrow> ('s, 'a, 'e) send_fn \<Rightarrow> (('s, 'fut, 'c) With, 'd) sink_poll" where
  "with_poll from q ss this =
     (case wi_state this of
        None \<Rightarrow> ret (Ready (Inr ()), this)
      | Some fut \<Rightarrow>
          ready_try (q fut) (\<lambda>fut. this\<lparr>wi_state := Some fut\<rparr>) (\<lambda>item this.
            let this = this\<lparr>wi_state := None\<rparr> in
            bindc (ss item (wi_sink this)) (\<lambda>(r, s). ret (Ready (map_sum from id r), this\<lparr>wi_sink := s\<rparr>))))"

definition with_poll_ready ::
  "('e \<Rightarrow> 'd) \<Rightarrow> ('fut, 'd + 'a) pollfn \<Rightarrow> ('s, 'a, 'e) send_fn \<Rightarrow> ('s, 'e) sink_poll \<Rightarrow> (('s, 'fut, 'c) With, 'd) sink_poll" where
  "with_poll_ready from q ss pr this =
     ready_try (with_poll from q ss this) id (\<lambda>_ this.
       ready_try (from_err from (pr (wi_sink this))) (\<lambda>s. this\<lparr>wi_sink := s\<rparr>) (\<lambda>_ this. ret (Ready (Inr ()), this)))"

definition with_start_send :: "('c, 'u, 'fut) fnmut \<Rightarrow> (('s, 'fut, 'c) With, 'u, 'd) send_fn" where
  "with_start_send f item this =
     assertc (wi_state this = None) ''assertion failed: this.state.is_none()''
       (bindc (f (wi_f this) item) (\<lambda>(fut, c). ret (Inr (), this\<lparr>wi_f := c, wi_state := Some fut\<rparr>)))"

definition with_poll_flush ::
  "('e \<Rightarrow> 'd) \<Rightarrow> ('fut, 'd + 'a) pollfn \<Rightarrow> ('s, 'a, 'e) send_fn \<Rightarrow> ('s, 'e) sink_poll \<Rightarrow> (('s, 'fut, 'c) With, 'd) sink_poll" where
  "with_poll_flush from q ss pf this =
     ready_try (with_poll from q ss this) id (\<lambda>_ this.
       ready_try (from_err from (pf (wi_sink this))) (\<lambda>s. this\<lparr>wi_sink := s\<rparr>) (\<lambda>_ this. ret (Ready (Inr ()), this)))"

definition with_poll_close ::
  "('e \<Rightarrow> 'd) \<Rightarrow> ('fut, 'd + 'a) pollfn \<Rightarrow> ('s, 'a, 'e) send_fn \<Rightarrow> ('s, 'e) sink_poll \<Rightarrow> (('s, 'fut, 'c) With, 'd) sink_poll" where
  "with_poll_close from q ss pc this =
     ready_try (with_poll from q ss this) id (\<lambda>_ this.
       ready_try (from_err from (pc (wi_sink this))) (\<lambda>s. this\<lparr>wi_sink := s\<rparr>) (\<lambda>_ this. ret (Ready (Inr ()), this)))"

text \<open>
  \<open>g u\<close> is what the future of \<open>u\<close> resolves to. The sink inside has accepted the values of the items, all but the
  last when its future is still running; then \<open>poll_ready\<close> of the sink inside has been \<open>Ready(Ok)\<close>.
\<close>

definition with_idle ::
  "('u \<Rightarrow> 'd + 'a) \<Rightarrow> ('r \<Rightarrow> 's \<Rightarrow> 'a list \<Rightarrow> bool) \<Rightarrow> nat \<times> 'r \<Rightarrow> ('s, 'fut, 'c) With \<Rightarrow> 'u list \<Rightarrow> bool" where
  "with_idle g K k s us \<longleftrightarrow> wi_state s = None \<and> fst k = 0 \<and> (\<exists>ys. map g us = map Inr ys \<and> K (snd k) (wi_sink s) ys)"

definition with_holds ::
  "('fut, 'd + 'a) pollfn \<Rightarrow> ('u \<Rightarrow> 'd + 'a) \<Rightarrow> ('r \<Rightarrow> 's \<Rightarrow> 'a list \<Rightarrow> bool) \<Rightarrow> ('r \<Rightarrow> 's \<Rightarrow> 'a list \<Rightarrow> bool)
   \<Rightarrow> nat \<times> 'r \<Rightarrow> ('s, 'fut, 'c) With \<Rightarrow> 'u list \<Rightarrow> bool" where
  "with_holds q g H R k s us \<longleftrightarrow>
     with_idle g H k s us
     \<or> (\<exists>fut x ys. wi_state s = Some fut \<and> resolves_in q (fst k) fut x \<and> map g us = map Inr ys @ [x] \<and> R (snd k) (wi_sink s) ys)"

definition with_failed ::
  "('e \<Rightarrow> 'd) \<Rightarrow> ('u \<Rightarrow> 'd + 'a) \<Rightarrow> ('r \<Rightarrow> 's \<Rightarrow> 'a list \<Rightarrow> bool) \<Rightarrow> ('s \<Rightarrow> 'a list \<Rightarrow> 'e \<Rightarrow> bool)
   \<Rightarrow> ('s, 'fut, 'c) With \<Rightarrow> 'u list \<Rightarrow> 'd \<Rightarrow> bool" where
  "with_failed from g R X s us d \<longleftrightarrow>
     (\<exists>ys e. d = from e \<and> prefix (map Inr ys) (map g us) \<and> X (wi_sink s) ys e)
     \<or> (\<exists>ys r. prefix (map Inr ys @ [Inl d]) (map g us) \<and> R r (wi_sink s) ys)"

context sink begin

abbreviation with_ok :: "('fut, 'd + 'a) pollfn \<Rightarrow> ('u \<Rightarrow> 'd + 'a) \<Rightarrow> nat \<times> 'r \<Rightarrow> ('s, 'fut, 'c) With \<Rightarrow> 'u list \<Rightarrow> bool" where
  "with_ok q g \<equiv> with_holds q g holds ready"

lemma resolves_in_pos: "resolves_in p n s x \<Longrightarrow> 0 < n"
  by (cases rule: resolves_in.cases) auto

lemma with_failedI:
  "X (wi_sink s) zs e \<Longrightarrow> prefix zs ys \<Longrightarrow> map g us = map Inr ys \<Longrightarrow> with_failed from g R X s us (from e)"
  unfolding with_failed_def by (metis map_mono_prefix)

lemma with_poll_step:
  assumes "with_ok q g k s us"
  shows "\<exists>p s'. with_poll from q start_send s = ret (p, s') \<and>
    sink_step (with_ok q g) (with_failed from g ready failed) (with_idle g holds) k us p s'"
proof (rule assms [unfolded with_holds_def, THEN disjE]; (elim exE conjE)?)
  assume "with_idle g holds k s us"
  then show ?thesis by (intro ok_stepI [of _ s k]) (simp_all add: with_idle_def with_poll_def)
next
  fix fut x ys assume s: "wi_state s = Some fut" "resolves_in q (fst k) fut x" "map g us = map Inr ys @ [x]" "ready (snd k) (wi_sink s) ys"
  from s(2) show ?thesis
  proof (cases rule: resolves_in_step)
    case (later t n)
    then have "(n, snd k) < k" by (cases k) (simp add: less_prod_def)
    moreover have "with_ok q g (n, snd k) (s\<lparr>wi_state := Some t\<rparr>) us" using later s by (auto simp: with_holds_def)
    ultimately show ?thesis
      by (intro pending_stepI [of _ "s\<lparr>wi_state := Some t\<rparr>" "(n, snd k)"]) (use s later in \<open>simp_all add: with_poll_def\<close>)
  next
    case (now t)
    show ?thesis
    proof (cases x)
      case (Inl d)
      have "with_failed from g ready failed (s\<lparr>wi_state := Some t\<rparr>) us d"
        using s Inl unfolding with_failed_def by (intro disjI2 exI [of _ ys] exI [of _ "snd k"]) simp
      then show ?thesis
        by (intro err_stepI [of _ d "s\<lparr>wi_state := Some t\<rparr>" us]) (use s now Inl in \<open>simp_all add: with_poll_def\<close>)
    next
      case (Inr item)
      show ?thesis
      proof (cases rule: send_cases [OF s(4), of item, case_names ok err])
        case (ok r' u)
        have "(0, r') \<le> k" using resolves_in_pos [OF s(2)] by (cases k) (auto simp: less_eq_prod_def)
        moreover have "with_idle g holds (0, r') (s\<lparr>wi_state := None, wi_sink := u\<rparr>) us"
          using ok s Inr by (auto simp: with_idle_def intro!: exI [of _ "ys @ [item]"])
        ultimately show ?thesis
          by (intro ok_stepI [of _ "s\<lparr>wi_state := None, wi_sink := u\<rparr>" "(0, r')"])
            (use s now Inr ok in \<open>simp_all add: with_poll_def\<close>)
      next
        case (err e zs u)
        have "with_failed from g ready failed (s\<lparr>wi_state := None, wi_sink := u\<rparr>) us (from e)"
          by (rule with_failedI [where ys = "ys @ [item]", OF _ err(2)]) (use err s Inr in simp_all)
        then show ?thesis
          by (intro err_stepI [of _ "from e" "s\<lparr>wi_state := None, wi_sink := u\<rparr>" us])
            (use s now Inr err in \<open>simp_all add: with_poll_def\<close>)
      qed
    qed
  qed
qed

lemma with_finish_step:
  assumes "with_ok q g k s us"
    and pf: "\<And>r s xs. holds r s xs \<Longrightarrow> \<exists>p s'. pf s = ret (p, s') \<and> sink_step holds failed K r xs p s'"
  shows "\<exists>p s'. with_poll_flush from q start_send pf s = ret (p, s') \<and>
    sink_step (with_ok q g) (with_failed from g ready failed) (with_idle g K) k us p s'"
proof -
  from with_poll_step [OF assms(1)] obtain p s' where
    p: "with_poll from q start_send s = ret (p, s')"
      "sink_step (with_ok q g) (with_failed from g ready failed) (with_idle g holds) k us p s'" by blast
  from p(2) show ?thesis
  proof (cases rule: sink_step_cases)
    case (err e zs)
    then show ?thesis by (intro err_stepI [of _ e s' zs]) (use p(1) in \<open>simp_all add: with_poll_flush_def\<close>)
  next
    case (pending k')
    then show ?thesis by (intro pending_stepI [of _ s' k']) (use p(1) in \<open>simp_all add: with_poll_flush_def\<close>)
  next
    case (ok k')
    then obtain ys where ys: "wi_state s' = None" "fst k' = 0" "map g us = map Inr ys" "holds (snd k') (wi_sink s') ys"
      by (auto simp: with_idle_def)
    from pf [OF ys(4)] obtain p2 t where p2: "pf (wi_sink s') = ret (p2, t)" "sink_step holds failed K (snd k') ys p2 t" by blast
    let ?u = "s'\<lparr>wi_sink := t\<rparr>"
    have lt: "(0, i) < k" if "i < snd k'" for i using that ok(2) ys(2) by (cases k') (auto simp: less_prod_def less_eq_prod_def)
    have le: "(0, i) \<le> k" if "i \<le> snd k'" for i using that ok(2) ys(2) by (cases k') (auto simp: less_eq_prod_def)
    from p2(2) show ?thesis
    proof (cases rule: sink_step_cases)
      case ok2: (ok i)
      then show ?thesis
        by (intro ok_stepI [of _ ?u "(0, i)"]) (use p(1) ok ys p2(1) le in \<open>auto simp: with_poll_flush_def with_idle_def\<close>)
    next
      case (err e zs)
      then have "with_failed from g ready failed ?u us (from e)" using with_failedI [of failed ?u zs e ys g us _ ready] ys(3) by simp
      then show ?thesis
        by (intro err_stepI [of _ "from e" ?u us]) (use p(1) ok ys p2(1) err in \<open>simp_all add: with_poll_flush_def\<close>)
    next
      case (pending i)
      then show ?thesis
        by (intro pending_stepI [of _ ?u "(0, i)"])
          (use p(1) ok ys p2(1) lt in \<open>auto simp: with_poll_flush_def with_holds_def with_idle_def\<close>)
    qed
  qed
qed

lemma with_sink:
  fixes f :: "('c, 'u, 'fut) fnmut" and q :: "('fut, 'd + 'a) pollfn"
  assumes f: "computes f q g"
  shows "sink (with_poll_ready from q start_send poll_ready) (with_start_send f) (with_poll_flush from q start_send poll_flush)
    (with_poll_close from q start_send poll_close) (with_ok q g) (with_idle g ready) (with_idle g flushed) (with_idle g closed)
    (with_failed from g ready failed)"
proof
  fix k us and s :: "('s, 'fut, 'c) With"
  show "with_idle g ready k s us \<Longrightarrow> with_ok q g k s us" "with_idle g flushed k s us \<Longrightarrow> with_ok q g k s us"
    by (auto simp: with_holds_def with_idle_def ready_holds flushed_holds)
  {
    assume H: "with_ok q g k s us"
    show "\<exists>p s'. with_poll_ready from q start_send poll_ready s = ret (p, s') \<and>
        sink_step (with_ok q g) (with_failed from g ready failed) (with_idle g ready) k us p s'"
      using with_finish_step [OF H poll_ready] by (simp add: with_poll_ready_def with_poll_flush_def)
    show "\<exists>p s'. with_poll_flush from q start_send poll_flush s = ret (p, s') \<and>
        sink_step (with_ok q g) (with_failed from g ready failed) (with_idle g flushed) k us p s'"
      by (rule with_finish_step [OF H poll_flush])
    show "\<exists>p s'. with_poll_close from q start_send poll_close s = ret (p, s') \<and>
        sink_step (with_ok q g) (with_failed from g ready failed) (with_idle g closed) k us p s'"
      using with_finish_step [OF H poll_close] by (simp add: with_poll_close_def with_poll_flush_def)
  }
  show "\<exists>p s'. with_start_send f x s = ret (p, s') \<and> sent (with_ok q g) (with_failed from g ready failed) (us @ [x]) p s'"
    if R: "with_idle g ready k s us" for x
  proof -
    obtain ys where ys: "wi_state s = None" "map g us = map Inr ys" "ready (snd k) (wi_sink s) ys"
      using R by (auto simp: with_idle_def)
    obtain fut c where fc: "f (wi_f s) x = ret (fut, c)" "resolves q fut (g x)" by (rule computesE [OF f])
    obtain n where "resolves_in q n fut (g x)" using resolves_resolves_in [OF fc(2)] by blast
    then have "with_ok q g (n, snd k) (s\<lparr>wi_f := c, wi_state := Some fut\<rparr>) (us @ [x])"
      using ys by (auto simp: with_holds_def)
    then show ?thesis using ys fc by (auto simp: with_start_send_def)
  qed
qed

end

section \<open>with_flat_map\<close>

text \<open>\<open>sink.start_send(item)?\<close> where the method goes on after it.\<close>

definition send_try ::
  "(('e + unit) \<times> 's) comp \<Rightarrow> ('s \<Rightarrow> 't) \<Rightarrow> ('t \<Rightarrow> (('e + 'b) poll \<times> 't) comp) \<Rightarrow> (('e + 'b) poll \<times> 't) comp" where
  "send_try m upd k = bindc m (\<lambda>(r, s). case r of Inl e \<Rightarrow> ret (Ready (Inl e), upd s) | Inr _ \<Rightarrow> k (upd s))"

lemma send_try_simps [simp, comp_simps]:
  "send_try (ret (Inl e, s)) upd k = ret (Ready (Inl e), upd s)"
  "send_try (ret (Inr u, s)) upd k = k (upd s)"
  by (simp_all add: send_try_def)

lemma send_try_mono [partial_function_mono]:
  assumes "mono_option B" and "\<And>t. mono_option (\<lambda>f. C t f)"
  shows "mono_option (\<lambda>f. send_try (B f) upd (\<lambda>t. C t f))"
  unfolding send_try_def
proof (rule bindc_mono [OF assms(1)])
  fix y :: "('c + unit) \<times> 'd"
  obtain r s where "y = (r, s)" by (cases y)
  then show "mono_option (\<lambda>f. case y of (r, s) \<Rightarrow> case r of Inl e \<Rightarrow> ret (Ready (Inl e), upd s) | Inr _ \<Rightarrow> C (upd s) f)"
    using assms(2) by (cases r) (simp_all add: monotone_def flat_ord_def)
qed

record ('s, 'st, 'a, 'c) WithFlatMap =
  wf_sink :: 's
  wf_f :: 'c
  wf_stream :: "'st option"
  wf_buffer :: "'a option"

definition with_flat_map_new :: "'s \<Rightarrow> 'c \<Rightarrow> ('s, 'st, 'a, 'c) WithFlatMap" where
  "with_flat_map_new si f = \<lparr>wf_sink = si, wf_f = f, wf_stream = None, wf_buffer = None\<rparr>"

text \<open>The \<open>while let\<close> over the items of the current stream; \<open>st\<close> is that stream.\<close>

partial_function (option) with_flat_map_items ::
  "('st, ('e + 'a) option) pollfn \<Rightarrow> ('s, 'e) sink_poll \<Rightarrow> ('s, 'a, 'e) send_fn \<Rightarrow> 'st \<Rightarrow> (('s, 'st, 'a, 'c) WithFlatMap, 'e) sink_poll" where
  "with_flat_map_items p pr ss st this =
     bindc (p st) (\<lambda>(r, st).
       let this = this\<lparr>wf_stream := Some st\<rparr> in
       case r of
         Pending \<Rightarrow> ret (Pending, this)
       | Ready None \<Rightarrow> ret (Ready (Inr ()), this)
       | Ready (Some (Inl e)) \<Rightarrow> ret (Ready (Inl e), this)
       | Ready (Some (Inr item)) \<Rightarrow>
           poll_with (pr (wf_sink this)) (\<lambda>s. this\<lparr>wf_sink := s\<rparr>) (\<lambda>q this.
             case q of
               Ready (Inl e) \<Rightarrow> ret (Ready (Inl e), this)
             | Ready (Inr _) \<Rightarrow>
                 send_try (ss item (wf_sink this)) (\<lambda>s. this\<lparr>wf_sink := s\<rparr>) (\<lambda>this. with_flat_map_items p pr ss st this)
             | Pending \<Rightarrow> ret (Pending, this\<lparr>wf_buffer := Some item\<rparr>)))"

definition with_flat_map_try_empty_stream ::
  "('st, ('e + 'a) option) pollfn \<Rightarrow> ('s, 'e) sink_poll \<Rightarrow> ('s, 'a, 'e) send_fn \<Rightarrow> (('s, 'st, 'a, 'c) WithFlatMap, 'e) sink_poll" where
  "with_flat_map_try_empty_stream p pr ss this =
     (let stream = \<lambda>this.
        ready_try (case wf_stream this of Some st \<Rightarrow> with_flat_map_items p pr ss st this | None \<Rightarrow> ret (Ready (Inr ()), this)) id
          (\<lambda>_ this. ret (Ready (Inr ()), this\<lparr>wf_stream := None\<rparr>))
      in case wf_buffer this of
           Some item \<Rightarrow>
             ready_try (pr (wf_sink this)) (\<lambda>s. this\<lparr>wf_sink := s\<rparr>) (\<lambda>_ this.
               let this = this\<lparr>wf_buffer := None\<rparr> in
               send_try (ss item (wf_sink this)) (\<lambda>s. this\<lparr>wf_sink := s\<rparr>) stream)
         | None \<Rightarrow> stream this)"

definition with_flat_map_poll_ready ::
  "('st, ('e + 'a) option) pollfn \<Rightarrow> ('s, 'e) sink_poll \<Rightarrow> ('s, 'a, 'e) send_fn \<Rightarrow> (('s, 'st, 'a, 'c) WithFlatMap, 'e) sink_poll" where
  "with_flat_map_poll_ready p pr ss this = with_flat_map_try_empty_stream p pr ss this"

definition with_flat_map_start_send :: "('c, 'u, 'st) fnmut \<Rightarrow> (('s, 'st, 'a, 'c) WithFlatMap, 'u, 'e) send_fn" where
  "with_flat_map_start_send f item this =
     assertc (wf_stream this = None) ''assertion failed: this.stream.is_none()''
       (bindc (f (wf_f this) item) (\<lambda>(st, c). ret (Inr (), this\<lparr>wf_f := c, wf_stream := Some st\<rparr>)))"

definition with_flat_map_poll_flush ::
  "('st, ('e + 'a) option) pollfn \<Rightarrow> ('s, 'e) sink_poll \<Rightarrow> ('s, 'a, 'e) send_fn \<Rightarrow> ('s, 'e) sink_poll
   \<Rightarrow> (('s, 'st, 'a, 'c) WithFlatMap, 'e) sink_poll" where
  "with_flat_map_poll_flush p pr ss pf this =
     ready_try (with_flat_map_try_empty_stream p pr ss this) id (\<lambda>_ this.
       poll_with (pf (wf_sink this)) (\<lambda>s. this\<lparr>wf_sink := s\<rparr>) (\<lambda>r this. ret (r, this)))"

definition with_flat_map_poll_close ::
  "('st, ('e + 'a) option) pollfn \<Rightarrow> ('s, 'e) sink_poll \<Rightarrow> ('s, 'a, 'e) send_fn \<Rightarrow> ('s, 'e) sink_poll
   \<Rightarrow> (('s, 'st, 'a, 'c) WithFlatMap, 'e) sink_poll" where
  "with_flat_map_poll_close p pr ss pc this =
     ready_try (with_flat_map_try_empty_stream p pr ss this) id (\<lambda>_ this.
       poll_with (pc (wf_sink this)) (\<lambda>s. this\<lparr>wf_sink := s\<rparr>) (\<lambda>r this. ret (r, this)))"

text \<open>
  \<open>g u\<close> is what the stream of \<open>u\<close> yields. The sink inside has a beginning of the values of all items; the next one
  may be in the buffer, and the rest is still in the stream.
\<close>

definition flat_idle ::
  "('u \<Rightarrow> ('e + 'a) list) \<Rightarrow> ('r \<Rightarrow> 's \<Rightarrow> 'a list \<Rightarrow> bool) \<Rightarrow> nat \<times> nat \<times> 'r \<Rightarrow> ('s, 'st, 'a, 'c) WithFlatMap \<Rightarrow> 'u list \<Rightarrow> bool" where
  "flat_idle g K k s us \<longleftrightarrow> wf_stream s = None \<and> wf_buffer s = None \<and> fst k = 0 \<and> fst (snd k) = 0 \<and>
     (\<exists>ys. concat (map g us) = map Inr ys \<and> K (snd (snd k)) (wf_sink s) ys)"

definition flat_busy ::
  "('st, ('e + 'a) option) pollfn \<Rightarrow> ('u \<Rightarrow> ('e + 'a) list) \<Rightarrow> ('r \<Rightarrow> 's \<Rightarrow> 'a list \<Rightarrow> bool)
   \<Rightarrow> nat \<times> nat \<times> 'r \<Rightarrow> ('s, 'st, 'a, 'c) WithFlatMap \<Rightarrow> 'u list \<Rightarrow> bool" where
  "flat_busy p g H k s us \<longleftrightarrow>
     (\<exists>st ys rest t. wf_stream s = Some st \<and> ends_in p (fst k) st rest t \<and> fst (snd k) = of_bool (wf_buffer s \<noteq> None)
        \<and> H (snd (snd k)) (wf_sink s) ys \<and> concat (map g us) = map Inr (ys @ opt_list (wf_buffer s)) @ rest)"

definition flat_holds ::
  "('st, ('e + 'a) option) pollfn \<Rightarrow> ('u \<Rightarrow> ('e + 'a) list) \<Rightarrow> ('r \<Rightarrow> 's \<Rightarrow> 'a list \<Rightarrow> bool)
   \<Rightarrow> nat \<times> nat \<times> 'r \<Rightarrow> ('s, 'st, 'a, 'c) WithFlatMap \<Rightarrow> 'u list \<Rightarrow> bool" where
  "flat_holds p g H k s us \<longleftrightarrow> flat_idle g H k s us \<or> flat_busy p g H k s us"

definition flat_failed ::
  "('u \<Rightarrow> ('e + 'a) list) \<Rightarrow> ('r \<Rightarrow> 's \<Rightarrow> 'a list \<Rightarrow> bool) \<Rightarrow> ('s \<Rightarrow> 'a list \<Rightarrow> 'e \<Rightarrow> bool)
   \<Rightarrow> ('s, 'st, 'a, 'c) WithFlatMap \<Rightarrow> 'u list \<Rightarrow> 'e \<Rightarrow> bool" where
  "flat_failed g H X s us e \<longleftrightarrow>
     (\<exists>ys. prefix (map Inr ys) (concat (map g us)) \<and> X (wf_sink s) ys e)
     \<or> (\<exists>ys r. prefix (map Inr ys @ [Inl e]) (concat (map g us)) \<and> H r (wf_sink s) ys)"

text \<open>The stream has been emptied but is still there: \<open>this.stream.set(None)\<close> comes next.\<close>

definition flat_drained ::
  "('u \<Rightarrow> ('e + 'a) list) \<Rightarrow> ('r \<Rightarrow> 's \<Rightarrow> 'a list \<Rightarrow> bool) \<Rightarrow> nat \<times> nat \<times> 'r \<Rightarrow> ('s, 'st, 'a, 'c) WithFlatMap \<Rightarrow> 'u list \<Rightarrow> bool" where
  "flat_drained g K k s us \<longleftrightarrow> flat_idle g K k (s\<lparr>wf_stream := None\<rparr>) us"

context sink begin

lemma flat_failedI:
  assumes "failed (wf_sink s) zs e" and "prefix zs ys" and "concat (map g us) = map Inr ys @ rest"
  shows "flat_failed g holds failed s us e"
proof -
  have "prefix (map Inr zs) (map Inr ys @ rest)" using map_mono_prefix [OF assms(2)] by (rule prefix_prefix)
  with assms show ?thesis unfolding flat_failed_def by auto
qed

lemma flat_busyI:
  "wf_stream s = Some st \<Longrightarrow> ends_in p n st rest t \<Longrightarrow> H r (wf_sink s) ys \<Longrightarrow> b = of_bool (wf_buffer s \<noteq> None)
   \<Longrightarrow> concat (map g us) = map Inr (ys @ opt_list (wf_buffer s)) @ rest \<Longrightarrow> flat_holds p g H (n, b, r) s us"
  unfolding flat_holds_def flat_busy_def by auto

lemma flat_items_step:
  assumes "ends_in p n st rest t" and "holds r (wf_sink s) ys" and "wf_buffer s = None"
    and "concat (map g us) = map Inr ys @ rest"
  shows "\<exists>q s'. with_flat_map_items p poll_ready start_send st s = ret (q, s') \<and>
    sink_step (flat_holds p g holds) (flat_failed g holds failed) (flat_drained g holds) (n, 0, r) us q s'"
  using assms
proof (induction arbitrary: s ys r rule: ends_in.induct)
  case (ends_in_end st t)
  then show ?case
    by (intro ok_stepI [of _ "s\<lparr>wf_stream := Some t\<rparr>" "(0, 0, r)"])
      (subst with_flat_map_items.simps, simp_all add: flat_drained_def flat_idle_def less_eq_prod_def)
next
  case (ends_in_pend st st' n rest t)
  then show ?case
    by (intro pending_stepI [of _ "s\<lparr>wf_stream := Some st'\<rparr>" "(n, 0, r)"])
      (subst with_flat_map_items.simps, use ends_in_pend in \<open>auto simp: less_prod_def intro: flat_busyI\<close>)
next
  case (ends_in_item st x st' n rest t)
  let ?s = "s\<lparr>wf_stream := Some st'\<rparr>"
  note run = with_flat_map_items.simps [of p poll_ready start_send st s] ends_in_item.hyps(1)
  show ?case
  proof (cases x)
    case (Inl e)
    have "flat_failed g holds failed ?s us e"
      using ends_in_item.prems Inl unfolding flat_failed_def by (intro disjI2 exI [of _ ys] exI [of _ r]) simp
    then show ?thesis by (intro err_stepI [of _ e ?s us]) (use run Inl in simp_all)
  next
    case (Inr item)
    show ?thesis
    proof (cases rule: ready_cases [OF ends_in_item.prems(1), case_names ok err pending])
      case (err e zs u)
      have "flat_failed g holds failed (?s\<lparr>wf_sink := u\<rparr>) us e"
        by (rule flat_failedI [OF _ err(2) ends_in_item.prems(3)]) (use err in simp)
      then show ?thesis by (intro err_stepI [of _ e "?s\<lparr>wf_sink := u\<rparr>" us]) (use run Inr err in simp_all)
    next
      case (pending r' u)
      then show ?thesis
        by (intro pending_stepI [of _ "?s\<lparr>wf_sink := u, wf_buffer := Some item\<rparr>" "(n, 1, r')"])
          (use run Inr ends_in_item in \<open>auto simp: less_prod_def intro: flat_busyI [where ys = ys]\<close>)
    next
      case (ok r' u)
      show ?thesis
      proof (cases rule: send_cases [OF ok(3), of item, case_names ok err])
        case (err e zs v)
        have "flat_failed g holds failed (?s\<lparr>wf_sink := v\<rparr>) us e"
          by (rule flat_failedI [OF _ err(2), where rest = rest]) (use err ends_in_item.prems(3) Inr in simp_all)
        then show ?thesis by (intro err_stepI [of _ e "?s\<lparr>wf_sink := v\<rparr>" us]) (use run Inr err ok in simp_all)
      next
        case ok2: (ok r2 v)
        let ?u = "?s\<lparr>wf_sink := v\<rparr>"
        have "concat (map g us) = map Inr (ys @ [item]) @ rest" using ends_in_item.prems(3) Inr by simp
        with ok2(2) ends_in_item.prems(2) obtain q s' where
          q: "with_flat_map_items p poll_ready start_send st' ?u = ret (q, s')"
            "sink_step (flat_holds p g holds) (flat_failed g holds failed) (flat_drained g holds) (n, 0, r2) us q s'"
          using ends_in_item.IH [of r2 ?u "ys @ [item]"] by auto
        have "sink_step (flat_holds p g holds) (flat_failed g holds failed) (flat_drained g holds) (Suc n, 0, r) us q s'"
          by (rule sink_step_mono [OF q(2)]) (simp_all add: less_eq_prod_def)
        then show ?thesis using run Inr ok ok2 q(1) by simp
      qed
    qed
  qed
qed

lemma flat_stream_step:
  assumes "flat_holds p g holds k s us" and "wf_buffer s = None"
  shows "\<exists>q s'. ready_try (case wf_stream s of Some st \<Rightarrow> with_flat_map_items p poll_ready start_send st s | None \<Rightarrow> ret (Ready (Inr ()), s)) id
          (\<lambda>_ this. ret (Ready (Inr ()), this\<lparr>wf_stream := None\<rparr>)) = ret (q, s') \<and>
    sink_step (flat_holds p g holds) (flat_failed g holds failed) (flat_idle g holds) k us q s'"
proof (rule assms(1) [unfolded flat_holds_def, THEN disjE])
  assume "flat_idle g holds k s us"
  then have "ready_try (case wf_stream s of Some st \<Rightarrow> with_flat_map_items p poll_ready start_send st s | None \<Rightarrow> ret (Ready (Inr ()), s)) id
          (\<lambda>_ this. ret (Ready (Inr ()), this\<lparr>wf_stream := None\<rparr>)) = ret (Ready (Inr ()), s)" "flat_idle g holds k s us"
    by (simp_all add: flat_idle_def)
  then show "?thesis" by (intro ok_stepI [of _ s k]) simp_all
next
  assume "flat_busy p g holds k s us"
  then obtain st ys rest t where b: "wf_stream s = Some st" "ends_in p (fst k) st rest t" "holds (snd (snd k)) (wf_sink s) ys"
    "concat (map g us) = map Inr ys @ rest" "k = (fst k, 0, snd (snd k))" using assms(2) by (auto simp: flat_busy_def prod_eq_iff)
  from flat_items_step [OF b(2,3) assms(2) b(4)] obtain q s' where
    q: "with_flat_map_items p poll_ready start_send st s = ret (q, s')"
      "sink_step (flat_holds p g holds) (flat_failed g holds failed) (flat_drained g holds) k us q s'" using b(5) by auto
  from q(2) show ?thesis
  proof (cases rule: sink_step_cases)
    case (ok i)
    then show ?thesis by (intro ok_stepI [of _ "s'\<lparr>wf_stream := None\<rparr>" i]) (use q b in \<open>simp_all add: flat_drained_def\<close>)
  next
    case (err e zs)
    then show ?thesis by (intro err_stepI [of _ e s' zs]) (use q b in simp_all)
  next
    case (pending i)
    then show ?thesis by (intro pending_stepI [of _ s' i]) (use q b in simp_all)
  qed
qed

lemma flat_try_empty_step:
  assumes H: "flat_holds p g holds k s us"
  shows "\<exists>q s'. with_flat_map_try_empty_stream p poll_ready start_send s = ret (q, s') \<and>
    sink_step (flat_holds p g holds) (flat_failed g holds failed) (flat_idle g holds) k us q s'"
proof (cases "wf_buffer s")
  case None
  with flat_stream_step [OF H] show ?thesis by (simp add: with_flat_map_try_empty_stream_def)
next
  case (Some item)
  with H obtain st ys rest t where b: "wf_stream s = Some st" "ends_in p (fst k) st rest t" "holds (snd (snd k)) (wf_sink s) ys"
    "concat (map g us) = map Inr (ys @ [item]) @ rest" "k = (fst k, 1, snd (snd k))"
    by (auto simp: flat_holds_def flat_idle_def flat_busy_def prod_eq_iff)
  show ?thesis
  proof (cases rule: ready_cases [OF b(3), case_names ok err pending])
    case (err e zs u)
    have "flat_failed g holds failed (s\<lparr>wf_sink := u\<rparr>) us e"
      by (rule flat_failedI [OF _ err(2), where rest = "Inr item # rest"]) (use err b(4) in simp_all)
    then show ?thesis
      by (intro err_stepI [of _ e "s\<lparr>wf_sink := u\<rparr>" us]) (use Some err in \<open>simp_all add: with_flat_map_try_empty_stream_def\<close>)
  next
    case (pending r' u)
    have "flat_holds p g holds (fst k, 1, r') (s\<lparr>wf_sink := u\<rparr>) us"
      by (rule flat_busyI [where ys = ys and rest = rest and st = st and t = t]) (use b pending Some in simp_all)
    moreover have "(fst k, 1, r') < k" using pending(2) by (subst b(5)) (simp add: less_prod_def)
    ultimately show ?thesis
      by (intro pending_stepI [of _ "s\<lparr>wf_sink := u\<rparr>" "(fst k, 1, r')"])
        (use Some pending in \<open>simp_all add: with_flat_map_try_empty_stream_def\<close>)
  next
    case (ok r' u)
    show ?thesis
    proof (cases rule: send_cases [OF ok(3), of item, case_names ok err])
      case (err e zs v)
      have "flat_failed g holds failed (s\<lparr>wf_buffer := None, wf_sink := v\<rparr>) us e"
        by (rule flat_failedI [OF _ err(2), where rest = rest]) (use err b(4) in simp_all)
      then show ?thesis
        by (intro err_stepI [of _ e "s\<lparr>wf_buffer := None, wf_sink := v\<rparr>" us])
          (use Some err ok in \<open>simp_all add: with_flat_map_try_empty_stream_def\<close>)
    next
      case ok2: (ok r2 v)
      let ?u = "s\<lparr>wf_buffer := None, wf_sink := v\<rparr>"
      have "flat_holds p g holds (fst k, 0, r2) ?u us"
        by (rule flat_busyI [where ys = "ys @ [item]" and rest = rest and st = st and t = t]) (use b ok2 in simp_all)
      from flat_stream_step [OF this] obtain q s' where q:
        "ready_try (case wf_stream ?u of Some st \<Rightarrow> with_flat_map_items p poll_ready start_send st ?u | None \<Rightarrow> ret (Ready (Inr ()), ?u)) id
          (\<lambda>_ this. ret (Ready (Inr ()), this\<lparr>wf_stream := None\<rparr>)) = ret (q, s')"
        "sink_step (flat_holds p g holds) (flat_failed g holds failed) (flat_idle g holds) (fst k, 0, r2) us q s'" by auto
      have "sink_step (flat_holds p g holds) (flat_failed g holds failed) (flat_idle g holds) k us q s'"
        by (rule sink_step_mono [OF q(2)]) (subst b(5), simp_all add: less_eq_prod_def)
      then show ?thesis using Some ok ok2 q(1) b(1) by (simp add: with_flat_map_try_empty_stream_def)
    qed
  qed
qed

lemma flat_finish_step:
  assumes "flat_holds p g holds k s us"
    and pf: "\<And>r s xs. holds r s xs \<Longrightarrow> \<exists>p s'. pf s = ret (p, s') \<and> sink_step holds failed K r xs p s'"
  shows "\<exists>q s'. with_flat_map_poll_flush p poll_ready start_send pf s = ret (q, s') \<and>
    sink_step (flat_holds p g holds) (flat_failed g holds failed) (flat_idle g K) k us q s'"
proof -
  from flat_try_empty_step [OF assms(1)] obtain q s' where
    q: "with_flat_map_try_empty_stream p poll_ready start_send s = ret (q, s')"
      "sink_step (flat_holds p g holds) (flat_failed g holds failed) (flat_idle g holds) k us q s'" by blast
  from q(2) show ?thesis
  proof (cases rule: sink_step_cases)
    case (err e zs)
    then show ?thesis by (intro err_stepI [of _ e s' zs]) (use q(1) in \<open>simp_all add: with_flat_map_poll_flush_def\<close>)
  next
    case (pending i)
    then show ?thesis by (intro pending_stepI [of _ s' i]) (use q(1) in \<open>simp_all add: with_flat_map_poll_flush_def\<close>)
  next
    case (ok i)
    then obtain ys where ys: "wf_stream s' = None" "wf_buffer s' = None" "concat (map g us) = map Inr ys"
      "holds (snd (snd i)) (wf_sink s') ys" "i = (0, 0, snd (snd i))" by (auto simp: flat_idle_def prod_eq_iff)
    from pf [OF ys(4)] obtain p2 t where p2: "pf (wf_sink s') = ret (p2, t)" "sink_step holds failed K (snd (snd i)) ys p2 t" by blast
    have lt: "(0, 0, j) < k" if "j < snd (snd i)" for j
    proof -
      have "(0, 0, j) < i" using that by (subst ys(5)) (simp add: less_prod_def)
      then show ?thesis using ok(2) by (rule less_le_trans)
    qed
    have le: "(0, 0, j) \<le> k" if "j \<le> snd (snd i)" for j
    proof -
      have "(0, 0, j) \<le> i" using that by (subst ys(5)) (simp add: less_eq_prod_def)
      then show ?thesis using ok(2) by (rule order_trans)
    qed
    have er: "\<exists>zs. prefix zs us \<and> flat_failed g holds failed (s'\<lparr>wf_sink := t\<rparr>) zs e" if "prefix zs ys" "failed t zs e" for zs e
      by (intro exI [of _ us] conjI flat_failedI [OF _ that(1), where rest = "[]"]) (use that ys in simp_all)
    show ?thesis
      by (rule wrap_step [OF p2(2), where wr = "\<lambda>j. (0, 0, j)" and u = "s'\<lparr>wf_sink := t\<rparr>"])
        (use q(1) ok p2(1) ys lt le er in \<open>auto simp: with_flat_map_poll_flush_def flat_holds_def flat_idle_def\<close>)
  qed
qed

lemma with_flat_map_sink:
  fixes f :: "('c, 'u, 'st) fnmut" and p :: "('st, ('e + 'a) option) pollfn"
  assumes f: "\<And>c x. \<exists>st c' t. f c x = ret (st, c') \<and> ends p st (g x) t"
  shows "sink (with_flat_map_poll_ready p poll_ready start_send) (with_flat_map_start_send f)
    (with_flat_map_poll_flush p poll_ready start_send poll_flush) (with_flat_map_poll_close p poll_ready start_send poll_close)
    (flat_holds p g holds) (flat_idle g holds) (flat_idle g flushed) (flat_idle g closed) (flat_failed g holds failed)"
proof
  fix k us and s :: "('s, 'st, 'a, 'c) WithFlatMap"
  show "flat_idle g holds k s us \<Longrightarrow> flat_holds p g holds k s us" "flat_idle g flushed k s us \<Longrightarrow> flat_holds p g holds k s us"
    by (auto simp: flat_holds_def flat_idle_def flushed_holds)
  {
    assume H: "flat_holds p g holds k s us"
    show "\<exists>q s'. with_flat_map_poll_ready p poll_ready start_send s = ret (q, s') \<and>
        sink_step (flat_holds p g holds) (flat_failed g holds failed) (flat_idle g holds) k us q s'"
      using flat_try_empty_step [OF H] by (simp add: with_flat_map_poll_ready_def)
    show "\<exists>q s'. with_flat_map_poll_flush p poll_ready start_send poll_flush s = ret (q, s') \<and>
        sink_step (flat_holds p g holds) (flat_failed g holds failed) (flat_idle g flushed) k us q s'"
      by (rule flat_finish_step [OF H poll_flush])
    show "\<exists>q s'. with_flat_map_poll_close p poll_ready start_send poll_close s = ret (q, s') \<and>
        sink_step (flat_holds p g holds) (flat_failed g holds failed) (flat_idle g closed) k us q s'"
      using flat_finish_step [OF H poll_close] by (simp add: with_flat_map_poll_close_def with_flat_map_poll_flush_def)
  }
  show "\<exists>q s'. with_flat_map_start_send f x s = ret (q, s') \<and> sent (flat_holds p g holds) (flat_failed g holds failed) (us @ [x]) q s'"
    if R: "flat_idle g holds k s us" for x
  proof -
    obtain ys where ys: "wf_stream s = None" "wf_buffer s = None" "concat (map g us) = map Inr ys" "holds (snd (snd k)) (wf_sink s) ys"
      using R by (auto simp: flat_idle_def)
    obtain st c t where fc: "f (wf_f s) x = ret (st, c)" "ends p st (g x) t" using f by blast
    obtain n where n: "ends_in p n st (g x) t" using ends_ends_in [OF fc(2)] by blast
    have "flat_holds p g holds (n, 0, snd (snd k)) (s\<lparr>wf_f := c, wf_stream := Some st\<rparr>) (us @ [x])"
      by (rule flat_busyI [where ys = ys and st = st and rest = "g x", OF _ n]) (use ys in simp_all)
    then show ?thesis using ys fc by (auto simp: with_flat_map_start_send_def)
  qed
qed

end

section \<open>sink::unfold\<close>

record ('c, 't, 'fut) SinkUnfold =
  su_function :: 'c
  su_state :: "('t, 'fut) UnfoldState"

definition sink_unfold :: "'t \<Rightarrow> 'c \<Rightarrow> ('c, 't, 'fut) SinkUnfold" where
  "sink_unfold init function = \<lparr>su_function = function, su_state = UnfoldValue init\<rparr>"

definition sink_unfold_poll_flush :: "('fut, 'e + 't) pollfn \<Rightarrow> (('c, 't, 'fut) SinkUnfold, 'e) sink_poll" where
  "sink_unfold_poll_flush q this =
     (case unfold_project_future (su_state this) of
        Some future \<Rightarrow>
          ready_poll (q future) (\<lambda>future. this\<lparr>su_state := UnfoldFuture future\<rparr>) (\<lambda>r this.
            case r of
              Inr state \<Rightarrow> ret (Ready (Inr ()), this\<lparr>su_state := UnfoldValue state\<rparr>)
            | Inl err \<Rightarrow> ret (Ready (Inl err), this\<lparr>su_state := UnfoldEmpty\<rparr>))
      | None \<Rightarrow> ret (Ready (Inr ()), this))"

definition sink_unfold_poll_ready :: "('fut, 'e + 't) pollfn \<Rightarrow> (('c, 't, 'fut) SinkUnfold, 'e) sink_poll" where
  "sink_unfold_poll_ready q this = sink_unfold_poll_flush q this"

definition sink_unfold_poll_close :: "('fut, 'e + 't) pollfn \<Rightarrow> (('c, 't, 'fut) SinkUnfold, 'e) sink_poll" where
  "sink_unfold_poll_close q this = sink_unfold_poll_flush q this"

definition sink_unfold_start_send ::
  "('c \<Rightarrow> 't \<Rightarrow> 'a \<Rightarrow> ('fut \<times> 'c) comp) \<Rightarrow> (('c, 't, 'fut) SinkUnfold, 'a, 'e) send_fn" where
  "sink_unfold_start_send function item this =
     (case unfold_take_value (su_state this) of
        (Some v, u) \<Rightarrow>
          bindc (function (su_function this) v item) (\<lambda>(future, c).
            ret (Inr (), this\<lparr>su_function := c, su_state := UnfoldFuture future\<rparr>))
      | (None, u) \<Rightarrow> panic ''start_send called without poll_ready being called first'')"

text \<open>What a run of the sink computes: the function folded over the items, up to its first error.\<close>

primrec fold_result :: "('t \<Rightarrow> 'a \<Rightarrow> 'e + 't) \<Rightarrow> 't \<Rightarrow> 'a list \<Rightarrow> 'e + 't" where
  "fold_result g t [] = Inr t"
| "fold_result g t (x # xs) = (case g t x of Inl e \<Rightarrow> Inl e | Inr u \<Rightarrow> fold_result g u xs)"

lemma fold_result_append:
  "fold_result g t (xs @ ys) = (case fold_result g t xs of Inl e \<Rightarrow> Inl e | Inr u \<Rightarrow> fold_result g u ys)"
  by (induction xs arbitrary: t) (auto split: sum.splits)

definition sink_unfold_value :: "('t \<Rightarrow> 'a \<Rightarrow> 'e + 't) \<Rightarrow> 't \<Rightarrow> nat \<Rightarrow> ('c, 't, 'fut) SinkUnfold \<Rightarrow> 'a list \<Rightarrow> bool" where
  "sink_unfold_value g t0 k s xs \<longleftrightarrow> (\<exists>v. su_state s = UnfoldValue v \<and> fold_result g t0 xs = Inr v)"

definition sink_unfold_holds ::
  "('fut, 'e + 't) pollfn \<Rightarrow> ('t \<Rightarrow> 'a \<Rightarrow> 'e + 't) \<Rightarrow> 't \<Rightarrow> nat \<Rightarrow> ('c, 't, 'fut) SinkUnfold \<Rightarrow> 'a list \<Rightarrow> bool" where
  "sink_unfold_holds q g t0 k s xs \<longleftrightarrow>
     sink_unfold_value g t0 k s xs
     \<or> (\<exists>fut x ys v. su_state s = UnfoldFuture fut \<and> xs = ys @ [x] \<and> fold_result g t0 ys = Inr v \<and> resolves_in q k fut (g v x))"

definition sink_unfold_failed :: "('t \<Rightarrow> 'a \<Rightarrow> 'e + 't) \<Rightarrow> 't \<Rightarrow> ('c, 't, 'fut) SinkUnfold \<Rightarrow> 'a list \<Rightarrow> 'e \<Rightarrow> bool" where
  "sink_unfold_failed g t0 s xs e \<longleftrightarrow> su_state s = UnfoldEmpty \<and> fold_result g t0 xs = Inl e"

lemmas sink_unfold_defs = sink_unfold_poll_flush_def unfold_project_future_def sink_unfold_value_def

lemma sink_unfold_flush_step:
  assumes "sink_unfold_holds q g t0 k s xs"
  shows "\<exists>p s'. sink_unfold_poll_flush q s = ret (p, s') \<and>
    sink_step (sink_unfold_holds q g t0) (sink_unfold_failed g t0) (sink_unfold_value g t0) k xs p s'"
proof (rule assms [unfolded sink_unfold_holds_def, THEN disjE]; (elim exE conjE)?)
  assume "sink_unfold_value g t0 k s xs"
  then show ?thesis by (intro ok_stepI [of _ s k]) (auto simp: sink_unfold_defs)
next
  fix fut x ys v assume s: "su_state s = UnfoldFuture fut" "xs = ys @ [x]" "fold_result g t0 ys = Inr v" "resolves_in q k fut (g v x)"
  from s(4) show ?thesis
  proof (cases rule: resolves_in_step)
    case (later t n)
    then show ?thesis
      by (intro pending_stepI [of _ "s\<lparr>su_state := UnfoldFuture t\<rparr>" n])
        (use s in \<open>auto simp: sink_unfold_poll_flush_def unfold_project_future_def sink_unfold_holds_def\<close>)
  next
    case (now t)
    show ?thesis
    proof (cases "g v x")
      case (Inl e)
      then show ?thesis
        by (intro err_stepI [of _ e "s\<lparr>su_state := UnfoldEmpty\<rparr>" xs])
          (use s now in \<open>simp_all add: sink_unfold_defs sink_unfold_failed_def fold_result_append\<close>)
    next
      case (Inr u)
      then show ?thesis
        by (intro ok_stepI [of _ "s\<lparr>su_state := UnfoldValue u\<rparr>" k])
          (use s now in \<open>simp_all add: sink_unfold_defs fold_result_append\<close>)
    qed
  qed
qed

lemma sink_unfold_sink:
  fixes f :: "'c \<Rightarrow> 't \<Rightarrow> 'a \<Rightarrow> ('fut \<times> 'c) comp" and q :: "('fut, 'e + 't) pollfn"
  assumes f: "\<And>c t x. \<exists>fut c'. f c t x = ret (fut, c') \<and> resolves q fut (g t x)"
  shows "sink (sink_unfold_poll_ready q) (sink_unfold_start_send f) (sink_unfold_poll_flush q) (sink_unfold_poll_close q)
    (sink_unfold_holds q g t0) (sink_unfold_value g t0) (sink_unfold_value g t0) (sink_unfold_value g t0) (sink_unfold_failed g t0)"
proof
  fix k xs and s :: "('c, 't, 'fut) SinkUnfold"
  show "\<exists>p s'. sink_unfold_start_send f x s = ret (p, s') \<and> sent (sink_unfold_holds q g t0) (sink_unfold_failed g t0) (xs @ [x]) p s'"
    if R: "sink_unfold_value g t0 k s xs" for x
  proof -
    obtain v where v: "su_state s = UnfoldValue v" "fold_result g t0 xs = Inr v" using R by (auto simp: sink_unfold_value_def)
    obtain fut c where fc: "f (su_function s) v x = ret (fut, c)" "resolves q fut (g v x)" using f by blast
    obtain n where "resolves_in q n fut (g v x)" using resolves_resolves_in [OF fc(2)] by blast
    then have "sink_unfold_holds q g t0 n (s\<lparr>su_function := c, su_state := UnfoldFuture fut\<rparr>) (xs @ [x])"
      using v by (auto simp: sink_unfold_holds_def)
    then show ?thesis using v fc by (auto simp: sink_unfold_start_send_def unfold_take_value_def)
  qed
qed (unfold sink_unfold_poll_ready_def sink_unfold_poll_close_def,
    (rule sink_unfold_flush_step, assumption)+, simp_all add: sink_unfold_holds_def)

text \<open>After an error the sink says that it is ready, and \<open>start_send\<close> panics.\<close>

lemma sink_unfold_after_error:
  assumes "sink_unfold_failed g t0 s xs e"
  shows "sink_unfold_poll_ready q s = ret (Ready (Inr ()), s)"
    and "sink_unfold_start_send f x s = panic ''start_send called without poll_ready being called first''"
  using assms by (simp_all add: sink_unfold_failed_def sink_unfold_poll_ready_def sink_unfold_poll_flush_def
      unfold_project_future_def sink_unfold_start_send_def unfold_take_value_def)

end
