(* ===== verification/Try_Core.thy ===== *)
theory Try_Core
  imports Stream_Map Future_Combinators "HOL-Library.Product_Lexorder"
begin

text \<open>
  Streams of results, for the adapters of \<open>TryStreamExt\<close> and the futures that send a stream into a sink: \<open>?\<close> on
  what \<open>try_poll_next\<close> returns, the items before the first error, and the rule that a component whose every \<open>Pending\<close> lowers a rank
  completes. The locale \<open>item_source\<close> is what a consumer asks of the stream it takes items from.
\<close>

section \<open>Completion by a rank\<close>

lemma rank_completes:
  fixes m :: "'m :: wellorder"
  assumes step: "\<And>m s. iv m s \<Longrightarrow> \<exists>r s'. p s = ret (r, s') \<and> (\<forall>x. r = Ready x \<longrightarrow> Q x s') \<and> (r = Pending \<longrightarrow> (\<exists>m'<m. iv m' s'))"
    and "iv m s"
  shows "\<exists>x t. completes p s x t \<and> Q x t"
  using assms(2)
proof (induction m arbitrary: s rule: less_induct)
  case (less m)
  from step [OF less.prems] obtain r s' where r: "p s = ret (r, s')" "\<forall>x. r = Ready x \<longrightarrow> Q x s'"
    "r = Pending \<longrightarrow> (\<exists>m'<m. iv m' s')" by blast
  show ?case
  proof (cases r)
    case (Ready x)
    with r show ?thesis by (auto intro: completes_ready)
  next
    case Pending
    with r obtain m' where "m' < m" "iv m' s'" by blast
    from less.IH [OF this] obtain x t where "completes p s' x t" "Q x t" by blast
    moreover have "completes p s x t" using r(1) Pending \<open>completes p s' x t\<close> by (auto intro: completes_pend)
    ultimately show ?thesis by blast
  qed
qed

section \<open>Results\<close>

text \<open>\<open>?\<close> on a \<open>Poll<Option<Result<T, E>>>\<close>, and \<open>stream.try_poll_next(cx)?\<close>.\<close>

definition question :: "('e + 'a) option poll \<Rightarrow> ('e + 'a option) poll" where
  "question r =
     (case r of
        Pending \<Rightarrow> Pending
      | Ready None \<Rightarrow> Ready (Inr None)
      | Ready (Some (Inl e)) \<Rightarrow> Ready (Inl e)
      | Ready (Some (Inr x)) \<Rightarrow> Ready (Inr (Some x)))"

lemma question_simps [simp, comp_simps]:
  "question Pending = Pending" "question (Ready None) = Ready (Inr None)"
  "question (Ready (Some (Inl e))) = Ready (Inl e)" "question (Ready (Some (Inr x))) = Ready (Inr (Some x))"
  by (simp_all add: question_def)

definition try_next :: "('st, ('e + 'a) option) pollfn \<Rightarrow> ('st, 'e + 'a option) pollfn" where
  "try_next p st = bindc (p st) (\<lambda>(r, st). ret (question r, st))"

lemma try_next_ret [simp, comp_simps]: "p st = ret (r, st') \<Longrightarrow> try_next p st = ret (question r, st')"
  by (simp add: try_next_def)

text \<open>The same shape for a stream whose items are no results.\<close>

definition plain_next :: "('st, 'a option) pollfn \<Rightarrow> ('st, 'e + 'a option) pollfn" where
  "plain_next p st = bindc (p st) (\<lambda>(r, st). ret (case r of Ready x \<Rightarrow> Ready (Inr x) | Pending \<Rightarrow> Pending, st))"

text \<open>The values before the first error, and that error.\<close>

fun oks :: "('e + 'a) list \<Rightarrow> 'a list" where
  "oks [] = []"
| "oks (Inl e # xs) = []"
| "oks (Inr x # xs) = x # oks xs"

fun first_err :: "('e + 'a) list \<Rightarrow> 'e option" where
  "first_err [] = None"
| "first_err (Inl e # xs) = Some e"
| "first_err (Inr x # xs) = first_err xs"

lemma oks_map_Inr [simp]: "oks (map Inr ys) = ys" and first_err_map_Inr [simp]: "first_err (map Inr ys) = None"
  by (induction ys) auto

section \<open>A source of items\<close>

text \<open>\<open>N k st xs\<close>: the source in state \<open>st\<close> still yields \<open>xs\<close>, and ends, in \<open>k\<close> more polls; after its end it stays ended.\<close>

definition source_step ::
  "(nat \<Rightarrow> 'st \<Rightarrow> ('e + 'a) list \<Rightarrow> bool) \<Rightarrow> nat \<Rightarrow> ('e + 'a) list \<Rightarrow> ('e + 'a option) poll \<Rightarrow> 'st \<Rightarrow> bool" where
  "source_step N k xs r st' \<longleftrightarrow>
     (r = Pending \<longrightarrow> (\<exists>k'<k. N k' st' xs))
     \<and> (\<forall>e. r = Ready (Inl e) \<longrightarrow> (\<exists>zs. xs = Inl e # zs))
     \<and> (r = Ready (Inr None) \<longrightarrow> xs = [] \<and> (\<exists>k'\<le>k. N k' st' []))
     \<and> (\<forall>x. r = Ready (Inr (Some x)) \<longrightarrow> (\<exists>k'<k. \<exists>zs. xs = Inr x # zs \<and> N k' st' zs))"

locale item_source =
  fixes next_item :: "('st, 'e + 'a option) pollfn" and N :: "nat \<Rightarrow> 'st \<Rightarrow> ('e + 'a) list \<Rightarrow> bool"
  assumes next_item: "N k st xs \<Longrightarrow> \<exists>r st'. next_item st = ret (r, st') \<and> source_step N k xs r st'"
begin

lemma next_cases:
  assumes "N k st xs"
  obtains (err) e zs st' where "next_item st = ret (Ready (Inl e), st')" "xs = Inl e # zs"
    | (ended) k' st' where "next_item st = ret (Ready (Inr None), st')" "xs = []" "k' \<le> k" "N k' st' []"
    | (item) x zs k' st' where "next_item st = ret (Ready (Inr (Some x)), st')" "xs = Inr x # zs" "k' < k" "N k' st' zs"
    | (pending) k' st' where "next_item st = ret (Pending, st')" "k' < k" "N k' st' xs"
proof -
  from next_item [OF assms] obtain r st' where r: "next_item st = ret (r, st')" "source_step N k xs r st'" by blast
  consider "r = Pending" | e where "r = Ready (Inl e)" | "r = Ready (Inr None)" | x where "r = Ready (Inr (Some x))"
    by (metis poll.exhaust sumE option.exhaust)
  then show thesis
    by cases (use r that in \<open>auto simp: source_step_def\<close>)
qed

end

definition results_left :: "('st, ('e + 'a) option) pollfn \<Rightarrow> nat \<Rightarrow> 'st Fuse \<Rightarrow> ('e + 'a) list \<Rightarrow> bool" where
  "results_left p k st xs \<longleftrightarrow> fuse_run p k st xs"

definition items_left :: "('st, 'a option) pollfn \<Rightarrow> nat \<Rightarrow> 'st Fuse \<Rightarrow> ('e + 'a) list \<Rightarrow> bool" where
  "items_left p k st xs \<longleftrightarrow> (\<exists>ys. xs = map Inr ys \<and> fuse_run p k st ys)"

interpretation try_fuse: item_source "try_next (fuse_poll_next p)" "results_left p" for p
proof
  fix k st xs assume "results_left p k st xs"
  then have "fuse_run p k st xs" by (simp add: results_left_def)
  then show "\<exists>r st'. try_next (fuse_poll_next p) st = ret (r, st') \<and> source_step (results_left p) k xs r st'"
  proof (cases rule: fuse_run_step)
    case (ended m')
    then show ?thesis by (auto simp: source_step_def results_left_def)
  next
    case (pend m' n')
    then show ?thesis by (auto simp: source_step_def results_left_def)
  next
    case (item m' n' x xs')
    then show ?thesis by (cases x) (auto simp: source_step_def results_left_def)
  qed
qed

interpretation plain_fuse: item_source "plain_next (fuse_poll_next p)" "items_left p" for p :: "('st, 'a option) pollfn"
proof
  fix k st and xs :: "('e + 'a) list" assume "items_left p k st xs"
  then obtain ys where ys: "xs = map Inr ys" "fuse_run p k st ys" by (auto simp: items_left_def)
  from ys(2) show "\<exists>r st'. plain_next (fuse_poll_next p) st = ret (r, st') \<and> source_step (items_left p) k xs r st'"
  proof (cases rule: fuse_run_step)
    case (ended m')
    then show ?thesis using ys(1) by (auto simp: source_step_def items_left_def plain_next_def)
  next
    case (pend m' n')
    then show ?thesis using ys(1) by (auto simp: source_step_def items_left_def plain_next_def)
  next
    case (item m' n' x xs')
    then show ?thesis using ys(1) by (auto simp: source_step_def items_left_def plain_next_def)
  qed
qed

end
