(* ===== verification/Sink_Send.thy ===== *)
theory Sink_Send
  imports Sink_With Try_Core
begin

text \<open>
  The futures that put items into a sink: \<open>feed\<close>, \<open>send\<close>, \<open>flush\<close>, \<open>close\<close> and \<open>send_all\<close> of \<open>SinkExt\<close>
  (\<open>futures-util/src/sink\<close>) and \<open>forward\<close> and \<open>try_forward\<close> of the stream traits
  (\<open>stream/stream/forward.rs\<close>, \<open>stream/try_stream/try_forward.rs\<close>).
\<close>

section \<open>feed, send, flush, close\<close>

record ('s, 'a) Feed =
  fd_sink :: 's
  fd_item :: "'a option"

definition feed_new :: "'s \<Rightarrow> 'a \<Rightarrow> ('s, 'a) Feed" where
  "feed_new si item = \<lparr>fd_sink = si, fd_item = Some item\<rparr>"

definition feed_is_item_pending :: "('s, 'a) Feed \<Rightarrow> bool" where
  "feed_is_item_pending this \<longleftrightarrow> fd_item this \<noteq> None"

definition feed_poll :: "('s, 'e) sink_poll \<Rightarrow> ('s, 'a, 'e) send_fn \<Rightarrow> (('s, 'a) Feed, 'e + unit) pollfn" where
  "feed_poll pr ss this =
     ready_try (pr (fd_sink this)) (\<lambda>s. this\<lparr>fd_sink := s\<rparr>) (\<lambda>_ this.
       case fd_item this of
         None \<Rightarrow> panic ''polled Feed after completion''
       | Some item \<Rightarrow>
           let this = this\<lparr>fd_item := None\<rparr> in
           send_try (ss item (fd_sink this)) (\<lambda>s. this\<lparr>fd_sink := s\<rparr>) (\<lambda>this. ret (Ready (Inr ()), this)))"

record ('s, 'a) Send =
  sn_feed :: "('s, 'a) Feed"

definition send_new :: "'s \<Rightarrow> 'a \<Rightarrow> ('s, 'a) Send" where
  "send_new si item = \<lparr>sn_feed = feed_new si item\<rparr>"

definition send_flush :: "('s, 'e) sink_poll \<Rightarrow> (('s, 'a) Send, 'e + unit) pollfn" where
  "send_flush pf this =
     ready_try (pf (fd_sink (sn_feed this))) (\<lambda>s. this\<lparr>sn_feed := (sn_feed this)\<lparr>fd_sink := s\<rparr>\<rparr>) (\<lambda>_ this. ret (Ready (Inr ()), this))"

definition send_poll :: "('s, 'e) sink_poll \<Rightarrow> ('s, 'a, 'e) send_fn \<Rightarrow> ('s, 'e) sink_poll \<Rightarrow> (('s, 'a) Send, 'e + unit) pollfn" where
  "send_poll pr ss pf this =
     (if feed_is_item_pending (sn_feed this) then
        ready_try (feed_poll pr ss (sn_feed this)) (\<lambda>feed. this\<lparr>sn_feed := feed\<rparr>) (\<lambda>_ this.
          assertc (\<not> feed_is_item_pending (sn_feed this)) ''assertion failed: !this.feed.is_item_pending()'' (send_flush pf this))
      else send_flush pf this)"

text \<open>The futures \<open>Flush\<close> and \<open>Close\<close> hold a reference to the sink and poll it.\<close>

definition flush_poll :: "('s, 'e) sink_poll \<Rightarrow> ('s, 'e + unit) pollfn" where
  "flush_poll pf si = pf si"

definition close_poll :: "('s, 'e) sink_poll \<Rightarrow> ('s, 'e + unit) pollfn" where
  "close_poll pc si = pc si"

section \<open>send_all\<close>

record ('s, 'st, 'a) SendAll =
  sa_sink :: 's
  sa_stream :: "'st Fuse"
  sa_buffered :: "'a option"


definition send_all_try_start_send ::
  "('s, 'e) sink_poll \<Rightarrow> ('s, 'a, 'e) send_fn \<Rightarrow> 'a \<Rightarrow> (('s, 'st, 'a) SendAll, 'e + unit) pollfn" where
  "send_all_try_start_send pr ss item this =
     assertc (sa_buffered this = None) ''assertion failed: this.buffered.is_none()''
       (poll_with (pr (sa_sink this)) (\<lambda>s. this\<lparr>sa_sink := s\<rparr>) (\<lambda>p this.
          case p of
            Ready (Inl e) \<Rightarrow> ret (Ready (Inl e), this)
          | Ready (Inr _) \<Rightarrow> bindc (ss item (sa_sink this)) (\<lambda>(r, s). ret (Ready r, this\<lparr>sa_sink := s\<rparr>))
          | Pending \<Rightarrow> ret (Pending, this\<lparr>sa_buffered := Some item\<rparr>)))"

partial_function (option) send_all_loop ::
  "('st Fuse, 'e + 'a option) pollfn \<Rightarrow> ('s, 'e) sink_poll \<Rightarrow> ('s, 'a, 'e) send_fn \<Rightarrow> ('s, 'e) sink_poll
   \<Rightarrow> (('s, 'st, 'a) SendAll, 'e + unit) pollfn" where
  "send_all_loop next_item pr ss pf this =
     poll_with (next_item (sa_stream this)) (\<lambda>st. this\<lparr>sa_stream := st\<rparr>) (\<lambda>r this.
       case r of
         Ready (Inl e) \<Rightarrow> ret (Ready (Inl e), this)
       | Ready (Inr (Some item)) \<Rightarrow>
           ready_try (send_all_try_start_send pr ss item this) id (\<lambda>_ this. send_all_loop next_item pr ss pf this)
       | Ready (Inr None) \<Rightarrow>
           ready_try (pf (sa_sink this)) (\<lambda>s. this\<lparr>sa_sink := s\<rparr>) (\<lambda>_ this. ret (Ready (Inr ()), this))
       | Pending \<Rightarrow>
           ready_try (pf (sa_sink this)) (\<lambda>s. this\<lparr>sa_sink := s\<rparr>) (\<lambda>_ this. ret (Pending, this)))"

definition send_all_with ::
  "('st Fuse, 'e + 'a option) pollfn \<Rightarrow> ('s, 'e) sink_poll \<Rightarrow> ('s, 'a, 'e) send_fn \<Rightarrow> ('s, 'e) sink_poll
   \<Rightarrow> (('s, 'st, 'a) SendAll, 'e + unit) pollfn" where
  "send_all_with next_item pr ss pf this =
     (case sa_buffered this of
        Some item \<Rightarrow>
          ready_try (send_all_try_start_send pr ss item (this\<lparr>sa_buffered := None\<rparr>)) id (\<lambda>_ this. send_all_loop next_item pr ss pf this)
      | None \<Rightarrow> send_all_loop next_item pr ss pf this)"


section \<open>forward and try_forward\<close>

text \<open>
  \<open>sink.set(None)\<close> drops the sink; \<open>Dropped s\<close> is that \<open>None\<close>, and keeps in \<open>s\<close>, for the theorems only, the value that was dropped.
\<close>

datatype 's slot = Held 's | Dropped 's

primrec slot_value :: "'s slot \<Rightarrow> 's" where
  "slot_value (Held s) = s"
| "slot_value (Dropped s) = s"

record ('s, 'st, 'a) Forward =
  fw_sink :: "'s slot"
  fw_stream :: "'st Fuse"
  fw_buffered_item :: "'a option"

definition forward_new :: "'st \<Rightarrow> 's \<Rightarrow> ('s, 'st, 'a) Forward" where
  "forward_new stream si = \<lparr>fw_sink = Held si, fw_stream = fuse_new stream, fw_buffered_item = None\<rparr>"

definition forward_is_terminated :: "('s, 'st, 'a) Forward \<Rightarrow> bool" where
  "forward_is_terminated this \<longleftrightarrow> (case fw_sink this of Held _ \<Rightarrow> False | Dropped _ \<Rightarrow> True)"

definition forward_send :: "('s, 'e) sink_poll \<Rightarrow> ('s, 'a, 'e) send_fn \<Rightarrow> (('s, 'st, 'a) Forward, 'e + unit) pollfn" where
  "forward_send pr ss this =
     (case fw_buffered_item this of
        Some item \<Rightarrow>
          ready_try (pr (slot_value (fw_sink this))) (\<lambda>s. this\<lparr>fw_sink := Held s\<rparr>) (\<lambda>_ this.
            let this = this\<lparr>fw_buffered_item := None\<rparr> in
            send_try (ss item (slot_value (fw_sink this))) (\<lambda>s. this\<lparr>fw_sink := Held s\<rparr>) (\<lambda>this. ret (Ready (Inr ()), this)))
      | None \<Rightarrow> ret (Ready (Inr ()), this))"

partial_function (option) forward_loop ::
  "('st Fuse, 'e + 'a option) pollfn \<Rightarrow> ('s, 'e) sink_poll \<Rightarrow> ('s, 'a, 'e) send_fn \<Rightarrow> ('s, 'e) sink_poll \<Rightarrow> ('s, 'e) sink_poll
   \<Rightarrow> (('s, 'st, 'a) Forward, 'e + unit) pollfn" where
  "forward_loop next_item pr ss pf pc this =
     ready_try (forward_send pr ss this) id (\<lambda>_ this.
       poll_with (next_item (fw_stream this)) (\<lambda>st. this\<lparr>fw_stream := st\<rparr>) (\<lambda>r this.
         case r of
           Ready (Inl e) \<Rightarrow> ret (Ready (Inl e), this)
         | Ready (Inr (Some item)) \<Rightarrow> forward_loop next_item pr ss pf pc (this\<lparr>fw_buffered_item := Some item\<rparr>)
         | Ready (Inr None) \<Rightarrow>
             ready_try (pc (slot_value (fw_sink this))) (\<lambda>s. this\<lparr>fw_sink := Held s\<rparr>)
               (\<lambda>_ this. ret (Ready (Inr ()), this\<lparr>fw_sink := Dropped (slot_value (fw_sink this))\<rparr>))
         | Pending \<Rightarrow>
             ready_try (pf (slot_value (fw_sink this))) (\<lambda>s. this\<lparr>fw_sink := Held s\<rparr>) (\<lambda>_ this. ret (Pending, this))))"

definition forward_with ::
  "string \<Rightarrow> ('st Fuse, 'e + 'a option) pollfn \<Rightarrow> ('s, 'e) sink_poll \<Rightarrow> ('s, 'a, 'e) send_fn \<Rightarrow> ('s, 'e) sink_poll \<Rightarrow> ('s, 'e) sink_poll
   \<Rightarrow> (('s, 'st, 'a) Forward, 'e + unit) pollfn" where
  "forward_with msg next_item pr ss pf pc this =
     (case fw_sink this of Dropped _ \<Rightarrow> panic msg | Held _ \<Rightarrow> forward_loop next_item pr ss pf pc this)"

definition forward_poll ::
  "('st, 'a option) pollfn \<Rightarrow> ('s, 'e) sink_poll \<Rightarrow> ('s, 'a, 'e) send_fn \<Rightarrow> ('s, 'e) sink_poll \<Rightarrow> ('s, 'e) sink_poll
   \<Rightarrow> (('s, 'st, 'a) Forward, 'e + unit) pollfn" where
  "forward_poll p pr ss pf pc this =
     forward_with ''polled `Forward` after completion'' (plain_next (fuse_poll_next p)) pr ss pf pc this"

definition try_forward_poll ::
  "('st, ('e + 'a) option) pollfn \<Rightarrow> ('s, 'e) sink_poll \<Rightarrow> ('s, 'a, 'e) send_fn \<Rightarrow> ('s, 'e) sink_poll \<Rightarrow> ('s, 'e) sink_poll
   \<Rightarrow> (('s, 'st, 'a) Forward, 'e + unit) pollfn" where
  "try_forward_poll p pr ss pf pc this =
     forward_with ''polled `TryForward` after completion'' (try_next (fuse_poll_next p)) pr ss pf pc this"

section \<open>What they deliver\<close>

text \<open>How a run of one of them ends, when the items up to the first error of the stream are \<open>T\<close> and that error is \<open>e\<close>.\<close>

definition delivered ::
  "('s \<Rightarrow> 'a list \<Rightarrow> bool) \<Rightarrow> ('s \<Rightarrow> 'a list \<Rightarrow> bool) \<Rightarrow> ('s \<Rightarrow> 'a list \<Rightarrow> 'e \<Rightarrow> bool)
   \<Rightarrow> 'a list \<Rightarrow> 'e option \<Rightarrow> 'e + unit \<Rightarrow> 's \<Rightarrow> bool" where
  "delivered finished accepted failed T e x s \<longleftrightarrow>
     (x = Inr () \<longrightarrow> e = None \<and> finished s T)
     \<and> (\<forall>d. x = Inl d \<longrightarrow> (e = Some d \<and> accepted s T) \<or> (\<exists>ys. prefix ys T \<and> failed s ys d))"

lemma delivered_simps [simp]:
  "delivered fin acc failed T e (Inr u) s \<longleftrightarrow> e = None \<and> fin s T"
  "delivered fin acc failed T e (Inl d) s \<longleftrightarrow> (e = Some d \<and> acc s T) \<or> (\<exists>ys. prefix ys T \<and> failed s ys d)"
  by (simp_all add: delivered_def)

locale forwarding = item_source next_item N + sink poll_ready start_send poll_flush poll_close holds ready flushed closed failed
  for next_item :: "('st Fuse, 'e + 'a option) pollfn" and N :: "nat \<Rightarrow> 'st Fuse \<Rightarrow> ('e + 'a) list \<Rightarrow> bool"
    and poll_ready :: "('s, 'e) sink_poll" and start_send :: "('s, 'a, 'e) send_fn"
    and poll_flush :: "('s, 'e) sink_poll" and poll_close :: "('s, 'e) sink_poll"
    and holds :: "'r :: wellorder \<Rightarrow> 's \<Rightarrow> 'a list \<Rightarrow> bool" and ready :: "'r \<Rightarrow> 's \<Rightarrow> 'a list \<Rightarrow> bool"
    and flushed :: "'r \<Rightarrow> 's \<Rightarrow> 'a list \<Rightarrow> bool" and closed :: "'r \<Rightarrow> 's \<Rightarrow> 'a list \<Rightarrow> bool"
    and failed :: "'s \<Rightarrow> 'a list \<Rightarrow> 'e \<Rightarrow> bool"
begin

abbreviation accepted :: "'s \<Rightarrow> 'a list \<Rightarrow> bool" where "accepted s xs \<equiv> \<exists>r. holds r s xs"
abbreviation all_flushed :: "'s \<Rightarrow> 'a list \<Rightarrow> bool" where "all_flushed s xs \<equiv> \<exists>r. flushed r s xs"
abbreviation all_closed :: "'s \<Rightarrow> 'a list \<Rightarrow> bool" where "all_closed s xs \<equiv> \<exists>r. closed r s xs"

text \<open>
  A moment of a run: the sink has \<open>zs\<close>, one item may wait in the buffer, the stream still has \<open>xs\<close>. A \<open>Pending\<close> lowers the
  triple of the polls left in the stream, the buffer and the rank of the sink.
\<close>

definition moment :: "'a list \<Rightarrow> 'e option \<Rightarrow> nat \<times> nat \<times> 'r \<Rightarrow> 's \<Rightarrow> 'st Fuse \<Rightarrow> 'a option \<Rightarrow> bool" where
  "moment T e m si st b \<longleftrightarrow>
     (\<exists>zs xs. N (fst m) st xs \<and> holds (snd (snd m)) si zs \<and> zs @ opt_list b @ oks xs = T \<and> first_err xs = e
        \<and> fst (snd m) = of_bool (b \<noteq> None))"

lemma momentI:
  "N k st xs \<Longrightarrow> holds r si zs \<Longrightarrow> zs @ opt_list b @ oks xs = T \<Longrightarrow> first_err xs = e \<Longrightarrow> j = of_bool (b \<noteq> None)
   \<Longrightarrow> moment T e (k, j, r) si st b"
  unfolding moment_def by auto

abbreviation sa_moment :: "'a list \<Rightarrow> 'e option \<Rightarrow> nat \<times> nat \<times> 'r \<Rightarrow> ('s, 'st, 'a) SendAll \<Rightarrow> bool" where
  "sa_moment T e m g \<equiv> moment T e m (sa_sink g) (sa_stream g) (sa_buffered g)"

definition sa_out :: "'a list \<Rightarrow> 'e option \<Rightarrow> nat \<times> nat \<times> 'r \<Rightarrow> ('e + unit) poll \<Rightarrow> ('s, 'st, 'a) SendAll \<Rightarrow> bool" where
  "sa_out T e m p g \<longleftrightarrow>
     (\<forall>x. p = Ready x \<longrightarrow> delivered all_flushed accepted failed T e x (sa_sink g))
     \<and> (p = Pending \<longrightarrow> (\<exists>m'<m. sa_moment T e m' g))"

lemma sa_out_mono: "sa_out T e m p g \<Longrightarrow> m \<le> m' \<Longrightarrow> sa_out T e m' p g"
  unfolding sa_out_def by (blast intro: less_le_trans)

lemma sa_out_err: "prefix ys T \<Longrightarrow> failed (sa_sink g) ys d \<Longrightarrow> sa_out T e m (Ready (Inl d)) g"
  by (auto simp: sa_out_def)

lemma sa_out_pend: "sa_moment T e m' g \<Longrightarrow> m' < m \<Longrightarrow> sa_out T e m Pending g"
  unfolding sa_out_def by blast

text \<open>Sending one item: the outcome of the call goes on to \<open>k\<close>, or ends the poll.\<close>

lemma send_all_item:
  assumes "holds r (sa_sink g) zs" and "sa_buffered g = None" and "N n (sa_stream g) xs"
    and "zs @ item # oks xs = T" and "first_err xs = e" and "\<And>i. i < r \<Longrightarrow> (n, Suc 0, i) < m"
    and go: "\<And>i s. holds i s (zs @ [item]) \<Longrightarrow> \<exists>p g'. k (g\<lparr>sa_sink := s\<rparr>) = ret (p, g') \<and> sa_out T e m p g'"
    and "m' = ready_try (send_all_try_start_send poll_ready start_send item g) id (\<lambda>_. k)"
  shows "\<exists>p g'. m' = ret (p, g') \<and> sa_out T e m p g'"
proof (cases rule: ready_cases [OF assms(1), case_names ok err pending])
  case (err d ys s)
  then have "prefix ys T" using assms(4) by (auto intro: prefix_prefix)
  then show ?thesis using err assms(2,8) by (auto simp: send_all_try_start_send_def intro: sa_out_err)
next
  case (pending i s)
  have "moment T e (n, Suc 0, i) s (sa_stream g) (Some item)"
    by (rule momentI [OF assms(3) pending(3)]) (use assms in simp_all)
  then have "sa_out T e m Pending (g\<lparr>sa_sink := s, sa_buffered := Some item\<rparr>)"
    by (intro sa_out_pend [of _ _ "(n, Suc 0, i)"]) (simp_all add: assms(6) pending(2))
  then show ?thesis using pending assms(2,8) by (simp add: send_all_try_start_send_def)
next
  case (ok i s)
  show ?thesis
  proof (cases rule: send_cases [OF ok(3), of item, case_names ok err])
    case (err d ys u)
    then have "prefix ys T" using assms(4) prefix_more [OF err(2), of "oks xs"] by simp
    then show ?thesis using err ok assms(2,8) by (auto simp: send_all_try_start_send_def intro: sa_out_err)
  next
    case ok2: (ok i2 u)
    show ?thesis using go [OF ok2(2)] ok ok2 assms(2,8) by (simp add: send_all_try_start_send_def)
  qed
qed

lemma send_all_loop_step:
  assumes "N n (sa_stream g) xs" and "holds r (sa_sink g) zs" and "sa_buffered g = None"
    and "zs @ oks xs = T" and "first_err xs = e"
  shows "\<exists>p g'. send_all_loop next_item poll_ready start_send poll_flush g = ret (p, g') \<and> sa_out T e (n, 0, r) p g'"
  using assms
proof (induction n arbitrary: g xs r zs rule: less_induct)
  case (less n)
  note run = send_all_loop.simps [of next_item poll_ready start_send poll_flush g]
  show ?case
  proof (cases rule: next_cases [OF less.prems(1), case_names err ended item pending])
    case (err d xs' st)
    then show ?thesis using less.prems run by (auto simp: sa_out_def)
  next
    case (ended n' st)
    then have T: "zs = T" "e = None" using less.prems by simp_all
    show ?thesis
    proof (cases rule: flush_cases [OF less.prems(2), case_names ok err pending])
      case (ok i s)
      then show ?thesis using run ended T by (auto simp: sa_out_def)
    next
      case (err d ys s)
      then show ?thesis using run ended T by (auto intro: sa_out_err)
    next
      case (pending i s)
      have "moment T e (n', 0, i) s st None" by (rule momentI [OF ended(4) pending(3)]) (use T in simp_all)
      moreover have "(n', 0 :: nat, i) < (n, 0, r)" using ended(3) pending(2) by (auto simp: less_prod_def)
      ultimately have "sa_out T e (n, 0, r) Pending (g\<lparr>sa_stream := st, sa_sink := s\<rparr>)"
        using less.prems(3) by (intro sa_out_pend [of _ _ "(n', 0, i)"]) simp_all
      then show ?thesis using run ended pending by simp
    qed
  next
    case (item x xs' n' st)
    let ?g = "g\<lparr>sa_stream := st\<rparr>"
    have eq: "send_all_loop next_item poll_ready start_send poll_flush g =
        ready_try (send_all_try_start_send poll_ready start_send x ?g) id
          (\<lambda>_. send_all_loop next_item poll_ready start_send poll_flush)" using run item by simp
    show ?thesis
    proof (rule send_all_item [OF _ _ _ _ _ _ _ eq])
      show "\<exists>p g'. send_all_loop next_item poll_ready start_send poll_flush (?g\<lparr>sa_sink := s\<rparr>) = ret (p, g') \<and> sa_out T e (n, 0, r) p g'"
        if h: "holds i s (zs @ [x])" for i s
      proof -
        from less.IH [OF item(3), of "?g\<lparr>sa_sink := s\<rparr>" xs' i "zs @ [x]"] h item less.prems obtain p g' where
          "send_all_loop next_item poll_ready start_send poll_flush (?g\<lparr>sa_sink := s\<rparr>) = ret (p, g')" "sa_out T e (n', 0, i) p g'" by auto
        moreover have "(n', 0 :: nat, i) \<le> (n, 0, r)" using item(3) by (simp add: less_eq_prod_def)
        ultimately show ?thesis using sa_out_mono by blast
      qed
    qed (use item less.prems in \<open>simp_all add: less_prod_def\<close>)
  next
    case (pending n' st)
    have lt: "(n', 0 :: nat, i) < (n, 0, r)" for i using pending(2) by (simp add: less_prod_def)
    have out: "sa_out T e (n, 0, r) Pending (g\<lparr>sa_stream := st, sa_sink := s\<rparr>)" if "holds i s zs" for i s
      by (rule sa_out_pend [OF _ lt [of i]]) (use momentI [OF pending(3) that, of None] less.prems in simp)
    show ?thesis
    proof (cases rule: flush_cases [OF less.prems(2), case_names ok err pending])
      case (ok i s)
      then show ?thesis using run pending out [OF flushed_holds [OF ok(3)]] by simp
    next
      case (err d ys s)
      then have "prefix ys T" using less.prems by (auto intro: prefix_prefix)
      then show ?thesis using run pending err by (auto intro: sa_out_err)
    next
      case pending2: (pending i s)
      then show ?thesis using run pending out [OF pending2(3)] by simp
    qed
  qed
qed

lemma send_all_step:
  assumes "sa_moment T e m g"
  shows "\<exists>p g'. send_all_with next_item poll_ready start_send poll_flush g = ret (p, g') \<and> sa_out T e m p g'"
proof -
  obtain zs xs where z: "N (fst m) (sa_stream g) xs" "holds (snd (snd m)) (sa_sink g) zs" "zs @ opt_list (sa_buffered g) @ oks xs = T"
    "first_err xs = e" "m = (fst m, of_bool (sa_buffered g \<noteq> None), snd (snd m))"
    using assms by (auto simp: moment_def prod_eq_iff)
  show ?thesis
  proof (cases "sa_buffered g")
    case None
    with send_all_loop_step [OF z(1,2) None] z(3,4,5) show ?thesis by (auto simp: send_all_with_def)
  next
    case (Some item)
    let ?g = "g\<lparr>sa_buffered := None\<rparr>"
    have m: "m = (fst m, Suc 0, snd (snd m))" using z(5) Some by simp
    have eq: "send_all_with next_item poll_ready start_send poll_flush g =
        ready_try (send_all_try_start_send poll_ready start_send item ?g) id
          (\<lambda>_. send_all_loop next_item poll_ready start_send poll_flush)" using Some by (simp add: send_all_with_def)
    show ?thesis
    proof (rule send_all_item [OF _ _ _ _ z(4) _ _ eq])
      show "\<exists>p g'. send_all_loop next_item poll_ready start_send poll_flush (?g\<lparr>sa_sink := s\<rparr>) = ret (p, g') \<and> sa_out T e m p g'"
        if h: "holds i s (zs @ [item])" for i s
      proof -
        from send_all_loop_step [of "fst m" "?g\<lparr>sa_sink := s\<rparr>" xs i "zs @ [item]" T e] h z Some obtain p g' where
          "send_all_loop next_item poll_ready start_send poll_flush (?g\<lparr>sa_sink := s\<rparr>) = ret (p, g')" "sa_out T e (fst m, 0, i) p g'" by auto
        moreover have "(fst m, 0, i) \<le> m" by (subst (2) m) (simp add: less_eq_prod_def)
        ultimately show ?thesis using sa_out_mono by blast
      qed
      show "(fst m, Suc 0, i) < m" if "i < snd (snd m)" for i using that by (subst (2) m) (simp add: less_prod_def)
    qed (use z Some in simp_all)
  qed
qed

lemma send_all_completes:
  assumes "N n (sa_stream g) xs" and "holds r (sa_sink g) zs" and "sa_buffered g = None"
  shows "\<exists>x g'. completes (send_all_with next_item poll_ready start_send poll_flush) g x g'
    \<and> delivered all_flushed accepted failed (zs @ oks xs) (first_err xs) x (sa_sink g')"
proof (rule rank_completes [where iv = "sa_moment (zs @ oks xs) (first_err xs)"])
  show "sa_moment (zs @ oks xs) (first_err xs) (n, 0, r) g"
    by (rule momentI [OF assms(1,2)]) (simp_all add: assms(3))
qed (use send_all_step in \<open>auto simp: sa_out_def simp del: split_paired_Ex\<close>)

text \<open>\<open>forward\<close> and \<open>try_forward\<close>, in the same way.\<close>

abbreviation fw_moment :: "'a list \<Rightarrow> 'e option \<Rightarrow> nat \<times> nat \<times> 'r \<Rightarrow> ('s, 'st, 'a) Forward \<Rightarrow> bool" where
  "fw_moment T e m g \<equiv> (\<exists>s. fw_sink g = Held s \<and> moment T e m s (fw_stream g) (fw_buffered_item g))"

definition fw_out :: "'a list \<Rightarrow> 'e option \<Rightarrow> nat \<times> nat \<times> 'r \<Rightarrow> ('e + unit) poll \<Rightarrow> ('s, 'st, 'a) Forward \<Rightarrow> bool" where
  "fw_out T e m p g \<longleftrightarrow>
     (\<forall>x. p = Ready x \<longrightarrow> delivered all_closed accepted failed T e x (slot_value (fw_sink g)) \<and> (forward_is_terminated g \<longleftrightarrow> x = Inr ()))
     \<and> (p = Pending \<longrightarrow> (\<exists>m'<m. fw_moment T e m' g))"

lemma fw_out_mono: "fw_out T e m p g \<Longrightarrow> m \<le> m' \<Longrightarrow> fw_out T e m' p g"
  unfolding fw_out_def by (blast intro: less_le_trans)

lemma fw_out_err: "prefix ys T \<Longrightarrow> fw_sink g = Held s \<Longrightarrow> failed s ys d \<Longrightarrow> fw_out T e m (Ready (Inl d)) g"
  by (auto simp: fw_out_def forward_is_terminated_def)

lemma fw_out_pend: "moment T e m' s (fw_stream g) (fw_buffered_item g) \<Longrightarrow> fw_sink g = Held s \<Longrightarrow> m' < m \<Longrightarrow> fw_out T e m Pending g"
  unfolding fw_out_def by blast

text \<open>The step that writes the buffered item: afterwards nothing is buffered, or the call ends there.\<close>

lemma forward_send_step:
  assumes "fw_sink g = Held s" and "holds r s zs" and "N n (fw_stream g) xs" and "zs @ opt_list (fw_buffered_item g) @ oks xs = T"
    and "first_err xs = e" and m: "m = (n, of_bool (fw_buffered_item g \<noteq> None), r)"
    and go: "\<And>i s zs. holds i s zs \<Longrightarrow> zs @ oks xs = T \<Longrightarrow> (n, 0, i) \<le> m
      \<Longrightarrow> \<exists>p g'. k (g\<lparr>fw_sink := Held s, fw_buffered_item := None\<rparr>) = ret (p, g') \<and> fw_out T e m p g'"
  shows "\<exists>p g'. ready_try (forward_send poll_ready start_send g) id (\<lambda>_. k) = ret (p, g') \<and> fw_out T e m p g'"
proof (cases "fw_buffered_item g")
  case None
  then have same: "g\<lparr>fw_sink := Held s, fw_buffered_item := None\<rparr> = g" using assms(1) by (cases g) simp
  from go [OF assms(2)] assms(4) m None show ?thesis unfolding same by (simp add: forward_send_def None)
next
  case (Some item)
  show ?thesis
  proof (cases rule: ready_cases [OF assms(2), case_names ok err pending])
    case (err d ys s')
    then have "prefix ys T" using assms(4) by (auto intro: prefix_prefix)
    then show ?thesis using err assms(1) Some by (auto simp: forward_send_def intro: fw_out_err)
  next
    case (pending i s')
    have "moment T e (n, Suc 0, i) s' (fw_stream g) (fw_buffered_item g)"
      by (rule momentI [OF assms(3) pending(3) assms(4,5)]) (simp add: Some)
    then have "fw_out T e m Pending (g\<lparr>fw_sink := Held s'\<rparr>)"
      by (rule_tac fw_out_pend [of _ _ "(n, Suc 0, i)" s']) (simp_all add: m Some pending(2) less_prod_def)
    then show ?thesis using pending assms(1) Some by (simp add: forward_send_def)
  next
    case (ok i s')
    show ?thesis
    proof (cases rule: send_cases [OF ok(3), of item, case_names ok err])
      case (err d ys u)
      then have "prefix ys T" using assms(4) prefix_more [OF err(2), of "oks xs"] Some by simp
      then show ?thesis using err ok assms(1) Some by (auto simp: forward_send_def Let_def intro: fw_out_err)
    next
      case ok2: (ok i2 u)
      have "\<exists>p g'. k (g\<lparr>fw_sink := Held u, fw_buffered_item := None\<rparr>) = ret (p, g') \<and> fw_out T e m p g'"
        by (rule go [OF ok2(2)]) (use assms(4) Some m in \<open>simp_all add: less_eq_prod_def\<close>)
      moreover have "g\<lparr>fw_sink := Held u, fw_buffered_item := None\<rparr> = g\<lparr>fw_buffered_item := None, fw_sink := Held u\<rparr>" by simp
      ultimately show ?thesis using ok ok2 assms(1) Some by (simp add: forward_send_def Let_def)
    qed
  qed
qed

lemma forward_loop_step:
  assumes "fw_sink g = Held s" and "holds r s zs" and "N n (fw_stream g) xs" and "zs @ opt_list (fw_buffered_item g) @ oks xs = T"
    and "first_err xs = e"
  shows "\<exists>p g'. forward_loop next_item poll_ready start_send poll_flush poll_close g = ret (p, g')
    \<and> fw_out T e (n, of_bool (fw_buffered_item g \<noteq> None), r) p g'"
  using assms
proof (induction n arbitrary: g s r zs xs rule: less_induct)
  case (less n)
  let ?m = "(n, of_bool (fw_buffered_item g \<noteq> None) :: nat, r)"
  show ?case
  proof (subst forward_loop.simps, rule forward_send_step [OF less.prems refl])
    fix i s' zs' assume h: "holds i s' zs'" "zs' @ oks xs = T" "(n, 0, i) \<le> ?m"
    let ?g = "g\<lparr>fw_sink := Held s', fw_buffered_item := None\<rparr>"
    let ?F = "\<lambda>this. poll_with (next_item (fw_stream this)) (\<lambda>st. this\<lparr>fw_stream := st\<rparr>) (\<lambda>r this.
         case r of
           Ready (Inl e) \<Rightarrow> ret (Ready (Inl e), this)
         | Ready (Inr (Some item)) \<Rightarrow> forward_loop next_item poll_ready start_send poll_flush poll_close (this\<lparr>fw_buffered_item := Some item\<rparr>)
         | Ready (Inr None) \<Rightarrow>
             ready_try (poll_close (slot_value (fw_sink this))) (\<lambda>s. this\<lparr>fw_sink := Held s\<rparr>)
               (\<lambda>_ this. ret (Ready (Inr ()), this\<lparr>fw_sink := Dropped (slot_value (fw_sink this))\<rparr>))
         | Pending \<Rightarrow>
             ready_try (poll_flush (slot_value (fw_sink this))) (\<lambda>s. this\<lparr>fw_sink := Held s\<rparr>) (\<lambda>_ this. ret (Pending, this)))"
    show "\<exists>p g'. ?F ?g = ret (p, g') \<and> fw_out T e ?m p g'"
    proof (cases rule: next_cases [OF less.prems(3), case_names err ended item pending])
      case (err d xs' st)
      then show ?thesis using h less.prems(5) by (auto simp: fw_out_def forward_is_terminated_def)
    next
      case (ended n' st)
      then have T: "zs' = T" "e = None" using h less.prems(5) by simp_all
      show ?thesis
      proof (cases rule: close_cases [OF h(1), case_names ok err pending])
        case (ok j u)
        then show ?thesis using ended T by (auto simp: fw_out_def forward_is_terminated_def)
      next
        case (err d ys u)
        then show ?thesis using ended T by (auto intro: fw_out_err)
      next
        case (pending j u)
        have "moment T e (n', 0, j) u st None" by (rule momentI [OF ended(4) pending(3)]) (use T in simp_all)
        moreover have "(n', 0 :: nat, j) < (n, 0, i)" using ended(3) pending(2) by (auto simp: less_prod_def)
        from less_le_trans [OF this h(3)] have "(n', 0, j) < ?m" .
        ultimately show ?thesis using ended pending by (auto intro: fw_out_pend [of _ _ "(n', 0, j)" u])
      qed
    next
      case (item x xs' n' st)
      let ?h = "?g\<lparr>fw_stream := st, fw_buffered_item := Some x\<rparr>"
      have "\<exists>p g'. forward_loop next_item poll_ready start_send poll_flush poll_close ?h = ret (p, g')
          \<and> fw_out T e (n', of_bool (fw_buffered_item ?h \<noteq> None), i) p g'"
        by (rule less.IH [OF item(3), of ?h s' i zs' xs']) (use item h less.prems(5) in simp_all)
      then obtain p g' where p: "forward_loop next_item poll_ready start_send poll_flush poll_close ?h = ret (p, g')"
        "fw_out T e (n', Suc 0, i) p g'" by auto
      have "(n', Suc 0, i) \<le> ?m" using item(3) by (simp add: less_eq_prod_def)
      from fw_out_mono [OF p(2) this] p(1) item(1) show ?thesis by simp
    next
      case (pending n' st)
      have out: "fw_out T e ?m Pending (g\<lparr>fw_sink := Held u, fw_buffered_item := None, fw_stream := st\<rparr>)" if u: "holds j u zs'" for j u
      proof (rule fw_out_pend [of _ _ "(n', 0, j)" u])
        show "(n', 0, j) < ?m" using pending(2) by (simp add: less_prod_def)
      qed (use momentI [OF pending(3) u, of None] h less.prems(5) in simp_all)
      have sw: "g\<lparr>fw_sink := Held u, fw_buffered_item := None, fw_stream := st\<rparr>
          = g\<lparr>fw_buffered_item := None, fw_stream := st, fw_sink := Held u\<rparr>" for u by simp
      show ?thesis
      proof (cases rule: flush_cases [OF h(1), case_names ok err pending])
        case (ok j u)
        then show ?thesis using pending out [OF flushed_holds [OF ok(3)]] by (simp add: sw)
      next
        case (err d ys u)
        then have "prefix ys T" using h by (auto intro: prefix_prefix)
        then show ?thesis using pending err by (auto intro: fw_out_err)
      next
        case pending2: (pending j u)
        then show ?thesis using pending out [OF pending2(3)] by (simp add: sw)
      qed
    qed
  qed
qed

lemma forward_completes:
  assumes "N n (fw_stream g) xs" and "holds r s zs" and "fw_sink g = Held s" and "fw_buffered_item g = None"
  shows "\<exists>x g'. completes (forward_with msg next_item poll_ready start_send poll_flush poll_close) g x g'
    \<and> delivered all_closed accepted failed (zs @ oks xs) (first_err xs) x (slot_value (fw_sink g'))
    \<and> (forward_is_terminated g' \<longleftrightarrow> x = Inr ())"
proof (rule rank_completes [where iv = "fw_moment (zs @ oks xs) (first_err xs)"])
  show "fw_moment (zs @ oks xs) (first_err xs) (n, 0, r) g"
  proof -
    have "moment (zs @ oks xs) (first_err xs) (n, 0, r) s (fw_stream g) None" by (rule momentI [OF assms(1,2)]) simp_all
    with assms(3,4) show ?thesis by simp
  qed
  fix m g assume "fw_moment (zs @ oks xs) (first_err xs) m g"
  then obtain s zs' xs' where z: "fw_sink g = Held s" "N (fst m) (fw_stream g) xs'" "holds (snd (snd m)) s zs'"
    "zs' @ opt_list (fw_buffered_item g) @ oks xs' = zs @ oks xs" "first_err xs' = first_err xs"
    "m = (fst m, of_bool (fw_buffered_item g \<noteq> None), snd (snd m))" by (auto simp: moment_def prod_eq_iff)
  from forward_loop_step [OF z(1,3,2,4,5)] obtain p g' where
    "forward_loop next_item poll_ready start_send poll_flush poll_close g = ret (p, g')" "fw_out (zs @ oks xs) (first_err xs) m p g'"
    using z(6) by auto
  then show "\<exists>p g'. forward_with msg next_item poll_ready start_send poll_flush poll_close g = ret (p, g')
      \<and> (\<forall>x. p = Ready x \<longrightarrow> delivered all_closed accepted failed (zs @ oks xs) (first_err xs) x (slot_value (fw_sink g'))
           \<and> (forward_is_terminated g' \<longleftrightarrow> x = Inr ()))
      \<and> (p = Pending \<longrightarrow> (\<exists>m'<m. fw_moment (zs @ oks xs) (first_err xs) m' g'))"
    unfolding fw_out_def forward_with_def z(1) by simp
qed

end

section \<open>Feed and Send\<close>

context sink begin

text \<open>\<open>send\<close>: after \<open>Ok\<close> the item has been accepted behind what was there, and everything is flushed.\<close>

definition send_moment :: "'a list \<Rightarrow> 'a \<Rightarrow> nat \<times> 'r \<Rightarrow> ('s, 'a) Send \<Rightarrow> bool" where
  "send_moment zs item m g \<longleftrightarrow>
     (fst m = 1 \<and> fd_item (sn_feed g) = Some item \<and> holds (snd m) (fd_sink (sn_feed g)) zs)
     \<or> (fst m = 0 \<and> fd_item (sn_feed g) = None \<and> holds (snd m) (fd_sink (sn_feed g)) (zs @ [item]))"

definition send_end :: "'a list \<Rightarrow> 'a \<Rightarrow> 'e + unit \<Rightarrow> ('s, 'a) Send \<Rightarrow> bool" where
  "send_end zs item x g \<longleftrightarrow>
     delivered (\<lambda>s xs. \<exists>r. flushed r s xs) (\<lambda>s xs. False) failed (zs @ [item]) None x (fd_sink (sn_feed g))"

lemma send_flush_step:
  assumes "holds r (fd_sink (sn_feed g)) (zs @ [item])" and "fd_item (sn_feed g) = None"
  shows "\<exists>p g'. send_flush poll_flush g = ret (p, g') \<and> (\<forall>x. p = Ready x \<longrightarrow> send_end zs item x g')
    \<and> (p = Pending \<longrightarrow> (\<exists>r'<r. send_moment zs item (0, r') g'))"
  by (cases rule: flush_cases [OF assms(1)])
    (use assms(2) in \<open>auto simp: send_flush_def send_end_def send_moment_def simp del: prefix_snoc\<close>)

lemma send_step:
  assumes "send_moment zs item m g"
  shows "\<exists>p g'. send_poll poll_ready start_send poll_flush g = ret (p, g') \<and> (\<forall>x. p = Ready x \<longrightarrow> send_end zs item x g')
    \<and> (p = Pending \<longrightarrow> (\<exists>m'<m. send_moment zs item m' g'))"
proof (cases "fd_item (sn_feed g)")
  case None
  with assms have h: "m = (0, snd m)" "holds (snd m) (fd_sink (sn_feed g)) (zs @ [item])" by (auto simp: send_moment_def prod_eq_iff)
  from send_flush_step [OF h(2) None] obtain p g' where p: "send_flush poll_flush g = ret (p, g')"
    "\<forall>x. p = Ready x \<longrightarrow> send_end zs item x g'" "p = Pending \<longrightarrow> (\<exists>r'. r' < snd m \<and> send_moment zs item (0, r') g')" by blast
  have "(0, r') < m" if "r' < snd m" for r' using that by (subst h(1)) (simp add: less_prod_def)
  with p None show ?thesis by (auto simp: send_poll_def feed_is_item_pending_def simp del: split_paired_Ex)
next
  case (Some it)
  with assms have h: "it = item" "m = (1, snd m)" "holds (snd m) (fd_sink (sn_feed g)) zs" by (auto simp: send_moment_def prod_eq_iff)
  have lt: "(0, i) < m" for i by (subst h(2)) (simp add: less_prod_def)
  show ?thesis
  proof (cases rule: ready_cases [OF h(3), case_names ok err pending])
    case (err d ys s)
    then have "\<exists>ys. prefix ys (zs @ [item]) \<and> failed s ys d" using prefix_prefix by blast
    with err(1) Some h(1) show ?thesis
      by (auto simp: send_poll_def feed_poll_def feed_is_item_pending_def send_end_def simp del: prefix_snoc)
  next
    case (pending i s)
    then have "(1, i) < m" by (subst h(2)) (simp add: less_prod_def)
    moreover have "send_moment zs item (1, i) (g\<lparr>sn_feed := (sn_feed g)\<lparr>fd_sink := s\<rparr>\<rparr>)"
      using pending Some h by (simp add: send_moment_def)
    ultimately show ?thesis using pending Some
      by (auto simp: send_poll_def feed_poll_def feed_is_item_pending_def simp del: split_paired_Ex)
  next
    case (ok i s)
    show ?thesis
    proof (cases rule: send_cases [OF ok(3), of item, case_names ok err])
      case (err d ys u)
      with ok Some h(1) show ?thesis
        by (auto simp: send_poll_def feed_poll_def feed_is_item_pending_def send_end_def Let_def simp del: prefix_snoc)
    next
      case ok2: (ok j u)
      let ?g = "g\<lparr>sn_feed := (sn_feed g)\<lparr>fd_item := None, fd_sink := u\<rparr>\<rparr>"
      have eq: "send_poll poll_ready start_send poll_flush g = send_flush poll_flush ?g"
        using ok ok2 Some h(1) by (simp add: send_poll_def feed_poll_def feed_is_item_pending_def Let_def)
      from send_flush_step [of j ?g zs item] ok2(2) obtain p g' where p: "send_flush poll_flush ?g = ret (p, g')"
        "\<forall>x. p = Ready x \<longrightarrow> send_end zs item x g'" "p = Pending \<longrightarrow> (\<exists>r'<j. send_moment zs item (0, r') g')" by auto
      show ?thesis unfolding eq using p lt by (auto simp del: split_paired_Ex)
    qed
  qed
qed

lemma send_completes:
  assumes "holds r s zs"
  shows "\<exists>x g. completes (send_poll poll_ready start_send poll_flush) (send_new s item) x g \<and> send_end zs item x g"
  by (rule rank_completes [where iv = "send_moment zs item" and m = "(1, r)"])
    (use send_step assms in \<open>auto simp: send_moment_def send_new_def feed_new_def simp del: split_paired_Ex\<close>)

end

section \<open>Into any sink, through the adapters\<close>

interpretation to_vec: forwarding "plain_next (fuse_poll_next p)" "items_left p" vec_poll vec_start_send vec_poll vec_poll
  vec_holds vec_holds vec_holds vec_holds never_failed for p :: "('st, 'a option) pollfn"
  by (intro forwarding.intro plain_fuse.item_source_axioms vec.sink_axioms)

interpretation all_to_vec: forwarding "try_next (fuse_poll_next p)" "results_left p" vec_poll vec_start_send vec_poll vec_poll
  vec_holds vec_holds vec_holds vec_holds never_failed for p :: "('st, ('e + 'a) option) pollfn"
  by (intro forwarding.intro try_fuse.item_source_axioms vec.sink_axioms)

text \<open>
  C25. \<open>stream.forward(sink.buffer(n))\<close>, over any sink that keeps the contract: it completes; after \<open>Ok\<close> the sink has been closed
  and dropped, with every item of the stream behind what it had, in order, and none left in the buffer. After an error, it
  is the sink's, and what got through is a beginning of that.
\<close>

theorem forward_buffered:
  assumes S: "sink pr ss pf pc holds ready flushed closed failed" and "holds r si zs" and "ends p st xs t"
  shows "\<exists>x g. completes (forward_poll p (buffer_poll_ready pr ss) (buffer_start_send ss) (buffer_poll_flush pr ss pf) (buffer_poll_close pr ss pc))
      (forward_new st (buffer_new si cap)) x g
    \<and> (x = Inr () \<longrightarrow> (\<exists>b r'. fw_sink g = Dropped b \<and> bf_buf b = [] \<and> closed r' (bf_sink b) (zs @ xs)))
    \<and> (\<forall>e. x = Inl e \<longrightarrow> (\<exists>b ys. fw_sink g = Held b \<and> prefix ys (zs @ xs) \<and> failed (bf_sink b) ys e))"
proof -
  note F = forwarding.intro [OF plain_fuse.item_source_axioms [where p = p] sink.buffer_sink [OF S, where cap = cap]]
  obtain k where "fuse_run p k (fuse_new st) xs" using fuse_run_new [OF assms(3)] by blast
  then have "items_left p k (fw_stream (forward_new st (buffer_new si cap))) (map Inr xs)"
    by (auto simp: items_left_def forward_new_def)
  moreover have "buffer_holds holds cap (0, r) (buffer_new si cap) zs" using assms(2) by (simp add: buffer_holds_def buffer_new_def)
  ultimately obtain x g where g: "completes (forward_poll p (buffer_poll_ready pr ss) (buffer_start_send ss) (buffer_poll_flush pr ss pf)
        (buffer_poll_close pr ss pc)) (forward_new st (buffer_new si cap)) x g"
    "delivered (\<lambda>s xs. \<exists>r. buffer_empty closed cap r s xs) (\<lambda>s xs. \<exists>r. buffer_holds holds cap r s xs)
       (\<lambda>s ys e. failed (bf_sink s) ys e) (zs @ xs) None x (slot_value (fw_sink g))" "forward_is_terminated g \<longleftrightarrow> x = Inr ()"
    using forwarding.forward_completes [OF F, where n = k and g = "forward_new st (buffer_new si cap)" and xs = "map Inr xs"
        and r = "(0, r)" and s = "buffer_new si cap" and zs = zs and msg = "''polled `Forward` after completion''"]
    unfolding forward_poll_def [abs_def] oks_map_Inr first_err_map_Inr by (auto simp: forward_new_def)
  show ?thesis
  proof (rule exI [of _ x], rule exI [of _ g], intro conjI allI impI)
    show "completes (forward_poll p (buffer_poll_ready pr ss) (buffer_start_send ss) (buffer_poll_flush pr ss pf)
        (buffer_poll_close pr ss pc)) (forward_new st (buffer_new si cap)) x g" by (rule g(1))
    show "\<exists>b r'. fw_sink g = Dropped b \<and> bf_buf b = [] \<and> closed r' (bf_sink b) (zs @ xs)" if "x = Inr ()"
      using g(2,3) that by (cases "fw_sink g") (auto simp: forward_is_terminated_def buffer_empty_def buffer_holds_def)
    show "\<exists>b ys. fw_sink g = Held b \<and> prefix ys (zs @ xs) \<and> failed (bf_sink b) ys e" if "x = Inl e" for e
      using g(2,3) that by (cases "fw_sink g") (auto simp: forward_is_terminated_def)
  qed
qed

lemma forward_buffered_witness:
  "\<exists>x g. completes (forward_poll iter_poll_next (buffer_poll_ready vec_poll vec_start_send) (buffer_start_send vec_start_send)
       (buffer_poll_flush vec_poll vec_start_send vec_poll) (buffer_poll_close vec_poll vec_start_send vec_poll))
      (forward_new (iter [1, 2, 3 :: int]) (buffer_new [0] 2)) x g
    \<and> (x = (Inr () :: unit + unit) \<longrightarrow> (\<exists>b. fw_sink g = Dropped b \<and> bf_sink b = [0, 1, 2, 3]))"
  using forward_buffered [OF vec.sink_axioms _ iter_ends, of 0 "[0 :: int]" "[0]" "[1, 2, 3]" 2] by (auto simp: vec_holds_def)



end
