(* ===== verification/Bi_Lock.thy ===== *)
theory Bi_Lock
  imports Futures_Prelude
begin

text \<open>
  \<open>BiLock\<close> (\<open>futures-util/src/lock/bilock.rs\<close>), the lock between the two halves of a split stream or socket. The two
  halves run \<open>poll_lock\<close> and the drop of the guard concurrently; every access to the atomic pointer \<open>state\<close> is one step, and the steps of
  the halves interleave in any order. The boxed wakers live in a heap of addresses: \<open>Box::new\<close> takes any address that is free, and
  using or freeing an address that is not allocated is the fault \<open>BFault\<close>, so the theorems also say that the unsafe code neither
  frees a waker twice nor leaks one.
\<close>

section \<open>State and steps\<close>

text \<open>A half is \<open>False\<close> or \<open>True\<close>. \<open>0\<close> and \<open>1\<close> are the pointers \<open>null\<close> and \<open>invalid_ptr(1)\<close>; an address is at least 2.\<close>

type_synonym half = bool
type_synonym addr = nat

text \<open>
  Program counters, with the locals alive there: the waker of the context, and the box in \<open>waker\<close> or \<open>me\<close>. \<open>BParked\<close>: the last
  poll returned \<open>Pending\<close>. \<open>BHold\<close>: the half has a \<open>BiLockGuard\<close>; \<open>BUnlock\<close>, \<open>BWake\<close>: it is being dropped.
\<close>

datatype bl_pc = BIdle | BSwap nat "addr option" | BCas nat addr | BParked nat | BHold | BUnlock | BWake addr | BPanic | BFault

record 'v bl =
  bl_state :: nat
  bl_value :: 'v
  bl_heap :: "addr \<Rightarrow> nat option"
  bl_pc :: "half \<Rightarrow> bl_pc"
  bl_woken :: "half \<Rightarrow> bool"

definition bl_goto :: "half \<Rightarrow> bl_pc \<Rightarrow> 'v bl \<Rightarrow> 'v bl" where
  "bl_goto i l s = s\<lparr>bl_pc := (bl_pc s)(i := l)\<rparr>"

text \<open>A wake-up of the task \<open>w\<close>: the ghost \<open>bl_woken i\<close> says that the half \<open>i\<close> has been notified since its last poll returned \<open>Pending\<close>.\<close>

definition bl_wake :: "nat \<Rightarrow> 'v bl \<Rightarrow> 'v bl" where
  "bl_wake w s = s\<lparr>bl_woken := \<lambda>i. bl_woken s i \<or> bl_pc s i = BParked w\<rparr>"

definition bl_new :: "'v \<Rightarrow> 'v bl" where
  "bl_new t = \<lparr>bl_state = 0, bl_value = t, bl_heap = (\<lambda>_. None), bl_pc = (\<lambda>_. BIdle), bl_woken = (\<lambda>_. False)\<rparr>"

text \<open>Dropping the local \<open>waker\<close>, and going on if what it held was allocated.\<close>

definition bl_drop_box :: "half \<Rightarrow> addr option \<Rightarrow> 'v bl \<Rightarrow> ('v bl \<Rightarrow> 'v bl) \<Rightarrow> 'v bl" where
  "bl_drop_box i b s k =
     (case b of
        None \<Rightarrow> k s
      | Some n \<Rightarrow> if bl_heap s n = None then bl_goto i BFault s else k (s\<lparr>bl_heap := (bl_heap s)(n := None)\<rparr>))"

text \<open>\<open>BiLock::poll_lock\<close>; \<open>a\<close> is the address \<open>Box::new\<close> returns if it is called.\<close>

fun bl_poll_lock :: "half \<Rightarrow> addr \<Rightarrow> bl_pc \<Rightarrow> 'v bl \<Rightarrow> 'v bl" where
  "bl_poll_lock i a (BSwap w b) s =
     (let n = bl_state s; s = s\<lparr>bl_state := 1\<rparr> in
      if n = 0 then bl_drop_box i b s (bl_goto i BHold)
      else if n = 1 then
        (case b of
           Some me \<Rightarrow> bl_goto i (BCas w me) s
         | None \<Rightarrow> bl_goto i (BCas w a) (s\<lparr>bl_heap := (bl_heap s)(a := Some w)\<rparr>))
      else if bl_heap s n = None then bl_goto i BFault s
      else bl_drop_box i b s (\<lambda>s. bl_goto i (BCas w n) (s\<lparr>bl_heap := (bl_heap s)(n := Some w)\<rparr>)))"
| "bl_poll_lock i a (BCas w me) s =
     (if bl_state s = 1 then bl_goto i (BParked w) (s\<lparr>bl_state := me\<rparr>)
      else if bl_state s = 0 then bl_goto i (BSwap w (Some me)) s
      else bl_goto i BPanic s)"
| "bl_poll_lock i a l s = s"

text \<open>\<open>BiLock::unlock\<close>, the drop of the guard.\<close>

fun bl_unlock :: "half \<Rightarrow> bl_pc \<Rightarrow> 'v bl \<Rightarrow> 'v bl" where
  "bl_unlock i BUnlock s =
     (let n = bl_state s; s = s\<lparr>bl_state := 0\<rparr> in
      if n = 0 then bl_goto i BPanic s
      else if n = 1 then bl_goto i BIdle s
      else bl_goto i (BWake n) s)"
| "bl_unlock i (BWake n) s =
     (case bl_heap s n of
        None \<Rightarrow> bl_goto i BFault s
      | Some w \<Rightarrow> bl_goto i BIdle (bl_wake w (s\<lparr>bl_heap := (bl_heap s)(n := None)\<rparr>)))"
| "bl_unlock i l s = s"

definition bl_exec :: "half \<Rightarrow> addr \<Rightarrow> 'v bl \<Rightarrow> 'v bl" where
  "bl_exec i a s =
     (case bl_pc s i of
        BUnlock \<Rightarrow> bl_unlock i BUnlock s
      | BWake n \<Rightarrow> bl_unlock i (BWake n) s
      | l \<Rightarrow> bl_poll_lock i a l s)"

text \<open>
  \<open>reunite\<close>, and the end of both handles: \<open>Inner::into_value\<close> takes the value, and \<open>Inner::drop\<close> asserts that the state is null.
\<close>

definition bl_reunite :: "'v bl \<Rightarrow> 'v comp" where
  "bl_reunite s = assertc (bl_state s = 0) ''assertion failed: self.state.load(SeqCst).is_null()'' (ret (bl_value s))"

text \<open>A half that is in no call may poll, with any waker; the half with the guard may change the value and drop the guard.\<close>

inductive bl_step :: "'v bl \<Rightarrow> 'v bl \<Rightarrow> bool" where
  bl_poll: "bl_pc s i = BIdle \<or> (\<exists>v. bl_pc s i = BParked v) \<Longrightarrow>
    bl_step s (bl_goto i (BSwap w None) (s\<lparr>bl_woken := (bl_woken s)(i := False)\<rparr>))"
| bl_run: "2 \<le> a \<Longrightarrow> bl_heap s a = None \<Longrightarrow> bl_step s (bl_exec i a s)"
| bl_write: "bl_pc s i = BHold \<Longrightarrow> bl_step s (s\<lparr>bl_value := v\<rparr>)"
| bl_release: "bl_pc s i = BHold \<Longrightarrow> bl_step s (bl_goto i BUnlock s)"

abbreviation bl_reach :: "'v \<Rightarrow> 'v bl \<Rightarrow> bool" where
  "bl_reach t \<equiv> reach (\<lambda>s. s = bl_new t) bl_step"

section \<open>The invariant\<close>

text \<open>The half has the lock; the boxes it owns through its locals; the box the state owns.\<close>

definition bl_holding :: "bl_pc \<Rightarrow> bool" where
  "bl_holding l \<longleftrightarrow> l = BHold \<or> l = BUnlock"

fun bl_owns :: "bl_pc \<Rightarrow> addr set" where
  "bl_owns (BSwap w b) = set_option b"
| "bl_owns (BCas w n) = {n}"
| "bl_owns (BWake n) = {n}"
| "bl_owns l = {}"

text \<open>The box in a local holds the waker of the call.\<close>

fun bl_box_ok :: "bl_pc \<Rightarrow> (addr \<Rightarrow> nat option) \<Rightarrow> bool" where
  "bl_box_ok (BSwap w (Some n)) h \<longleftrightarrow> h n = Some w"
| "bl_box_ok (BCas w n) h \<longleftrightarrow> h n = Some w"
| "bl_box_ok l h \<longleftrightarrow> True"

lemma bl_box_ok_upd: "n \<notin> bl_owns l \<Longrightarrow> bl_box_ok l (h(n := x)) = bl_box_ok l h"
  by (induction l h rule: bl_box_ok.induct) auto

text \<open>The half whose waker is in the state: it is parked, or at the start of another poll.\<close>

fun bl_waits :: "bl_pc \<Rightarrow> nat option \<Rightarrow> bool" where
  "bl_waits (BParked w) c \<longleftrightarrow> c = Some w"
| "bl_waits (BSwap w None) c \<longleftrightarrow> True"
| "bl_waits l c \<longleftrightarrow> False"

text \<open>The half at \<open>q\<close> is about to wake the task \<open>w\<close>.\<close>

fun bl_waking :: "bl_pc \<Rightarrow> nat \<Rightarrow> (addr \<Rightarrow> nat option) \<Rightarrow> bool" where
  "bl_waking (BWake n) w h \<longleftrightarrow> h n = Some w"
| "bl_waking l w h \<longleftrightarrow> False"

fun bl_parked_ok :: "bl_pc \<Rightarrow> bl_pc \<Rightarrow> nat \<Rightarrow> (addr \<Rightarrow> nat option) \<Rightarrow> bool \<Rightarrow> bool" where
  "bl_parked_ok (BParked w) q st h woken \<longleftrightarrow> woken \<or> 2 \<le> st \<or> bl_waking q w h"
| "bl_parked_ok l q st h woken \<longleftrightarrow> True"

definition bl_is_parked :: "bl_pc \<Rightarrow> bool" where
  "bl_is_parked l \<longleftrightarrow> (case l of BParked w \<Rightarrow> True | _ \<Rightarrow> False)"

lemma bl_is_parked_simps [simp]:
  "bl_is_parked (BParked w)" "\<not> bl_is_parked BIdle" "\<not> bl_is_parked (BSwap w b)" "\<not> bl_is_parked (BCas w n)"
  "\<not> bl_is_parked BHold" "\<not> bl_is_parked BUnlock" "\<not> bl_is_parked (BWake n)" "\<not> bl_is_parked BPanic" "\<not> bl_is_parked BFault"
  by (simp_all add: bl_is_parked_def)

lemma bl_parked_ok_quiet [simp]:
  "bl_parked_ok p BIdle st h k \<longleftrightarrow> (bl_is_parked p \<longrightarrow> k \<or> 2 \<le> st)"
  "bl_parked_ok p (BSwap w b) st h k \<longleftrightarrow> (bl_is_parked p \<longrightarrow> k \<or> 2 \<le> st)"
  "bl_parked_ok p (BCas w n) st h k \<longleftrightarrow> (bl_is_parked p \<longrightarrow> k \<or> 2 \<le> st)"
  "bl_parked_ok p (BParked w) st h k \<longleftrightarrow> (bl_is_parked p \<longrightarrow> k \<or> 2 \<le> st)"
  "bl_parked_ok p BHold st h k \<longleftrightarrow> (bl_is_parked p \<longrightarrow> k \<or> 2 \<le> st)"
  "bl_parked_ok p BUnlock st h k \<longleftrightarrow> (bl_is_parked p \<longrightarrow> k \<or> 2 \<le> st)"
  by (cases p; simp; fail)+

lemma bl_holding_not_parked: "bl_holding l \<Longrightarrow> \<not> bl_is_parked l"
  by (auto simp: bl_holding_def)

lemma bl_parked_okI: "woken \<or> 2 \<le> st \<Longrightarrow> bl_parked_ok p q st h woken"
  by (cases p) auto

lemma bl_waking_upd: "n \<notin> bl_owns q \<Longrightarrow> bl_waking q w (h(n := x)) = bl_waking q w h"
  by (cases q) auto

lemma bl_parked_ok_upd: "n \<notin> bl_owns q \<Longrightarrow> bl_parked_ok p q st (h(n := x)) k = bl_parked_ok p q st h k"
  by (cases p) (auto simp: bl_waking_upd)

definition bl_boxed :: "nat \<Rightarrow> addr set" where
  "bl_boxed st = (if 2 \<le> st then {st} else {})"

text \<open>
  What holds from the view of a half at \<open>p\<close> with the other at \<open>q\<close>. Parked, it has been woken, or its waker is where the other half
  will find it, or the other half is about to wake it.
\<close>

definition bl_view :: "bl_pc \<Rightarrow> bl_pc \<Rightarrow> nat \<Rightarrow> (addr \<Rightarrow> nat option) \<Rightarrow> bool \<Rightarrow> bool" where
  "bl_view p q st h woken \<longleftrightarrow>
     p \<noteq> BPanic \<and> p \<noteq> BFault
     \<and> \<not> (bl_holding p \<and> bl_holding q) \<and> (st = 0 \<longleftrightarrow> \<not> bl_holding p \<and> \<not> bl_holding q)
     \<and> bl_owns p \<inter> bl_owns q = {} \<and> bl_owns p \<inter> bl_boxed st = {}
     \<and> dom h = bl_owns p \<union> bl_owns q \<union> bl_boxed st \<and> (\<forall>a \<in> dom h. 2 \<le> a)
     \<and> (2 \<le> st \<longrightarrow> bl_holding q \<and> bl_waits p (h st) \<or> bl_holding p \<and> bl_waits q (h st))
     \<and> bl_box_ok p h
     \<and> bl_parked_ok p q st h woken"

definition bl_inv :: "'v bl \<Rightarrow> bool" where
  "bl_inv s \<longleftrightarrow> (\<forall>i. bl_view (bl_pc s i) (bl_pc s (\<not> i)) (bl_state s) (bl_heap s) (bl_woken s i))"

lemma bl_goto_simps [simp]:
  "bl_pc (bl_goto i l s) = (bl_pc s)(i := l)" "bl_state (bl_goto i l s) = bl_state s" "bl_value (bl_goto i l s) = bl_value s"
  "bl_heap (bl_goto i l s) = bl_heap s" "bl_woken (bl_goto i l s) = bl_woken s"
  by (simp_all add: bl_goto_def)

lemma bl_wake_simps [simp]:
  "bl_pc (bl_wake w s) = bl_pc s" "bl_state (bl_wake w s) = bl_state s" "bl_value (bl_wake w s) = bl_value s"
  "bl_heap (bl_wake w s) = bl_heap s" "bl_woken (bl_wake w s) i = (bl_woken s i \<or> bl_pc s i = BParked w)"
  by (simp_all add: bl_wake_def)

lemma bl_holding_simps [simp]:
  "bl_holding BHold" "bl_holding BUnlock" "\<not> bl_holding BIdle" "\<not> bl_holding (BSwap w b)" "\<not> bl_holding (BCas w n)"
  "\<not> bl_holding (BParked w)" "\<not> bl_holding (BWake n)"
  by (simp_all add: bl_holding_def)

lemma bl_inv_halves:
  "bl_inv s \<longleftrightarrow> bl_view (bl_pc s i) (bl_pc s (\<not> i)) (bl_state s) (bl_heap s) (bl_woken s i)
    \<and> bl_view (bl_pc s (\<not> i)) (bl_pc s i) (bl_state s) (bl_heap s) (bl_woken s (\<not> i))"
proof -
  have "(\<forall>j. P j) \<longleftrightarrow> P i \<and> P (\<not> i)" for P :: "bool \<Rightarrow> bool"
    by (cases i) (auto simp: all_bool_eq)
  then show ?thesis unfolding bl_inv_def by simp
qed

lemma bl_inv_new: "bl_inv (bl_new t)"
  by (simp add: bl_inv_def bl_new_def bl_view_def bl_boxed_def)

lemma bl_holdingE: "bl_holding l \<Longrightarrow> (l = BHold \<Longrightarrow> P) \<Longrightarrow> (l = BUnlock \<Longrightarrow> P) \<Longrightarrow> P"
  by (auto simp: bl_holding_def)

text \<open>The start of a poll, and the wake-up at the end of \<open>unlock\<close>, from the view of either half.\<close>

lemma bl_view_poll: "bl_view (BParked v) q st h k \<Longrightarrow> bl_view (BSwap w None) q st h False"
  unfolding bl_view_def by (elim conjE, intro conjI) auto

lemma bl_view_poll_idle: "bl_view BIdle q st h k \<Longrightarrow> bl_view (BSwap w None) q st h False"
  unfolding bl_view_def by (elim conjE, intro conjI) auto

lemma bl_view_poll_other: "bl_view q (BParked v) st h k \<Longrightarrow> bl_view q (BSwap w None) st h k"
  unfolding bl_view_def by (elim conjE, intro conjI) auto

lemma bl_view_poll_idle_other: "bl_view q BIdle st h k \<Longrightarrow> bl_view q (BSwap w None) st h k"
  unfolding bl_view_def by (elim conjE, intro conjI) auto

lemma bl_boxed_not: "n \<notin> bl_boxed st \<Longrightarrow> 2 \<le> st \<Longrightarrow> st \<noteq> n"
  by (auto simp: bl_boxed_def)

lemma bl_view_wake:
  assumes "bl_view (BWake n) q st h k" and "h n = Some w"
  shows "bl_view BIdle q st (h(n := None)) k"
proof -
  have n: "n \<notin> bl_owns q" "n \<notin> bl_boxed st" using assms by (simp_all add: bl_view_def)
  show ?thesis
    using assms n bl_boxed_not [OF n(2)] unfolding bl_view_def by (elim conjE, intro conjI) (auto simp: bl_box_ok_upd)
qed

lemma bl_view_wake_other:
  assumes "bl_view q (BWake n) st h k" and "h n = Some w"
  shows "bl_view q BIdle st (h(n := None)) (k \<or> q = BParked w)"
proof -
  have n: "n \<notin> bl_owns q" using assms by (simp add: bl_view_def)
  have "\<not> 2 \<le> st" using assms by (simp add: bl_view_def)
  then have b: "bl_boxed st = {}" by (simp add: bl_boxed_def)
  have "bl_is_parked q \<longrightarrow> (k \<or> q = BParked w) \<or> 2 \<le> st"
    using assms by (cases q) (auto simp: bl_view_def)
  then show ?thesis
    using assms n b unfolding bl_view_def by (elim conjE, intro conjI) (auto simp: bl_box_ok_upd)
qed

text \<open>The drop of a guard, and the swap of \<open>unlock\<close>.\<close>

lemma bl_view_release: "bl_view BHold q st h k \<Longrightarrow> bl_view BUnlock q st h k"
  unfolding bl_view_def by (elim conjE, intro conjI) auto

lemma bl_view_release_other: "bl_view q BHold st h k \<Longrightarrow> bl_view q BUnlock st h k"
  unfolding bl_view_def by (elim conjE, intro conjI) auto

lemma bl_boxed_simps [simp]: "bl_boxed 0 = {}" "bl_boxed (Suc 0) = {}"
  by (simp_all add: bl_boxed_def)

lemma bl_view_unlock: "bl_view BUnlock q (Suc 0) h k \<Longrightarrow> bl_view BIdle q 0 h k"
  unfolding bl_view_def by (elim conjE, intro conjI) auto

lemma bl_view_unlock_other: "bl_view q BUnlock (Suc 0) h k \<Longrightarrow> bl_view q BIdle 0 h k"
  unfolding bl_view_def by (elim conjE, intro conjI) auto

lemma bl_waits_owns: "bl_waits l c \<Longrightarrow> bl_owns l = {}"
  by (induction l c rule: bl_waits.induct) auto

lemma bl_view_unlock_box:
  assumes "bl_view BUnlock q st h k" and "2 \<le> st"
  shows "bl_view (BWake st) q 0 h k"
proof -
  have "bl_boxed st = {st}" using assms(2) by (simp add: bl_boxed_def)
  then show ?thesis using assms unfolding bl_view_def by (elim conjE, intro conjI) (auto dest: bl_waits_owns)
qed

lemma bl_view_unlock_box_other:
  assumes "bl_view q BUnlock st h k" and "2 \<le> st"
  shows "bl_view q (BWake st) 0 h k"
proof -
  have b: "bl_boxed st = {st}" using assms(2) by (simp add: bl_boxed_def)
  have "bl_parked_ok q (BWake st) 0 h k" using assms by (cases q) (auto simp: bl_view_def)
  then show ?thesis using assms b unfolding bl_view_def by (elim conjE, intro conjI) auto
qed

lemma bl_inv_exec:
  assumes "bl_inv s" and "2 \<le> a" and "bl_heap s a = None"
  shows "bl_inv (bl_exec i a s)"
proof -
  define p q st h where d: "p = bl_pc s i" "q = bl_pc s (\<not> i)" "st = bl_state s" "h = bl_heap s"
  have v: "bl_view p q st h (bl_woken s i)" "bl_view q p st h (bl_woken s (\<not> i))"
    using assms(1) unfolding bl_inv_halves [of s i] d by blast+
  have fresh: "a \<notin> bl_owns q" using v(1) assms(3) d by (auto simp: bl_view_def)
  note defs = bl_inv_halves [of _ i] bl_exec_def Let_def bl_view_def bl_boxed_def bl_drop_box_def bl_box_ok_upd bl_holding_not_parked
  show ?thesis
  proof (cases p)
    case (BSwap w b)
    consider "st = 0" | "st = 1" "b = None" | n where "st = 1" "b = Some n" | "2 \<le> st"
      by (cases b; cases "2 \<le> st"; cases "st = 0") auto
    then show ?thesis
    proof cases
      case 1
      show ?thesis
      proof (cases b)
        case None
        then show ?thesis using 1 BSwap v d by (auto simp: defs)
      next
        case (Some n)
        then show ?thesis using 1 BSwap v d by (auto simp: defs)
      qed
    next
      case 2
      then show ?thesis using BSwap v d assms(2,3) fresh by (auto simp: defs)
    next
      case 3
      then show ?thesis using BSwap v d assms(2,3) by (auto simp: defs)
    next
      case 4
      show ?thesis
      proof (cases b)
        case None
        then show ?thesis using 4 BSwap v d by (auto simp: defs)
      next
        case (Some n)
        then show ?thesis using 4 BSwap v d by (auto simp: defs)
      qed
    qed
  next
    case (BCas w n)
    then show ?thesis using v d by (auto simp: defs)
  next
    case BUnlock
    have "st \<noteq> 0" using v(1) BUnlock by (simp add: bl_view_def)
    then consider "st = Suc 0" | "2 \<le> st" by linarith
    then show ?thesis
    proof cases
      case 1
      then have "bl_exec i a s = bl_goto i BIdle (s\<lparr>bl_state := 0\<rparr>)" using BUnlock d by (simp add: bl_exec_def)
      then show ?thesis using bl_view_unlock bl_view_unlock_other v BUnlock 1 d by (simp add: bl_inv_halves [of _ i])
    next
      case 2
      then have "bl_exec i a s = bl_goto i (BWake st) (s\<lparr>bl_state := 0\<rparr>)" using BUnlock d by (simp add: bl_exec_def)
      then show ?thesis using bl_view_unlock_box [OF v(1) [unfolded BUnlock] 2] bl_view_unlock_box_other [OF v(2) [unfolded BUnlock] 2] d
        by (simp add: bl_inv_halves [of _ i])
    qed
  next
    case (BWake n)
    then obtain w where w: "h n = Some w" using v(1) by (auto simp: bl_view_def)
    then have "bl_exec i a s = bl_goto i BIdle (bl_wake w (s\<lparr>bl_heap := h(n := None)\<rparr>))"
      using BWake d by (simp add: bl_exec_def)
    then show ?thesis using bl_view_wake [OF v(1) [unfolded BWake] w] bl_view_wake_other [OF v(2) [unfolded BWake] w] BWake d
      by (simp add: bl_inv_halves [of _ i])
  qed (use assms(1) d in \<open>auto simp: bl_exec_def\<close>)
qed

lemma bl_inv_step:
  assumes "bl_inv s" and "bl_step s t"
  shows "bl_inv t"
  using assms(2)
proof cases
  case (bl_poll i w)
  have v: "bl_view (bl_pc s i) (bl_pc s (\<not> i)) (bl_state s) (bl_heap s) (bl_woken s i)"
      "bl_view (bl_pc s (\<not> i)) (bl_pc s i) (bl_state s) (bl_heap s) (bl_woken s (\<not> i))"
    using assms(1) unfolding bl_inv_halves [of s i] by blast+
  from bl_poll(2) have "bl_view (BSwap w None) (bl_pc s (\<not> i)) (bl_state s) (bl_heap s) False"
      "bl_view (bl_pc s (\<not> i)) (BSwap w None) (bl_state s) (bl_heap s) (bl_woken s (\<not> i))"
    using v by (metis bl_view_poll bl_view_poll_idle, metis bl_view_poll_other bl_view_poll_idle_other)
  then show ?thesis unfolding bl_poll(1) bl_inv_halves [of _ i] by simp
next
  case (bl_run a i)
  with assms(1) show ?thesis by (auto intro: bl_inv_exec)
next
  case (bl_write i v)
  with assms(1) show ?thesis by (simp add: bl_inv_def)
next
  case (bl_release i)
  then have "bl_view BHold (bl_pc s (\<not> i)) (bl_state s) (bl_heap s) (bl_woken s i)"
      "bl_view (bl_pc s (\<not> i)) BHold (bl_state s) (bl_heap s) (bl_woken s (\<not> i))"
    using assms(1) unfolding bl_inv_halves [of s i] by auto
  then show ?thesis using bl_release bl_view_release bl_view_release_other by (simp add: bl_inv_halves [of _ i])
qed

lemma bl_reach_inv:
  assumes "bl_reach t s"
  shows "bl_inv s"
  using assms
proof (rule reach_invariant)
qed (auto intro: bl_inv_new bl_inv_step)

section \<open>Properties\<close>

text \<open>A run: one half takes the lock, the other polls and is parked.\<close>

abbreviation bl_call :: "half \<Rightarrow> nat \<Rightarrow> 'v bl \<Rightarrow> 'v bl" where
  "bl_call i w s \<equiv> bl_goto i (BSwap w None) (s\<lparr>bl_woken := (bl_woken s)(i := False)\<rparr>)"

lemma bl_reach_call: "bl_reach t s \<Longrightarrow> bl_pc s i = BIdle \<Longrightarrow> bl_reach t (bl_call i w s)"
  by (erule reach_step) (simp add: bl_poll)

lemma bl_reach_run: "bl_reach t s \<Longrightarrow> 2 \<le> a \<Longrightarrow> bl_heap s a = None \<Longrightarrow> bl_reach t (bl_exec i a s)"
  by (erule reach_step) (rule bl_run)

definition bl_demo_held :: "int bl" where
  "bl_demo_held = bl_exec False 2 (bl_call False 7 (bl_new 5))"

definition bl_demo_parked :: "int bl" where
  "bl_demo_parked = bl_exec True 3 (bl_exec True 2 (bl_call True 9 bl_demo_held))"

lemmas bl_demo_simps = bl_demo_held_def bl_exec_def bl_new_def bl_drop_box_def

lemma bl_demo_held_reach: "bl_reach 5 bl_demo_held"
proof -
  have "bl_reach 5 (bl_new (5 :: int))" by (rule reach_init) simp
  then have "bl_reach 5 (bl_call False 7 (bl_new (5 :: int)))" by (rule bl_reach_call) (simp add: bl_new_def)
  then show ?thesis unfolding bl_demo_held_def by (rule bl_reach_run) (simp_all add: bl_new_def)
qed

lemma bl_demo_parked_reach: "bl_reach 5 bl_demo_parked"
proof -
  have "bl_reach 5 (bl_call True 9 bl_demo_held)" by (rule bl_reach_call [OF bl_demo_held_reach]) (simp add: bl_demo_simps)
  then have "bl_reach 5 (bl_exec True 2 (bl_call True 9 bl_demo_held))" by (rule bl_reach_run) (simp_all add: bl_demo_simps)
  then show ?thesis unfolding bl_demo_parked_def by (rule bl_reach_run) (simp_all add: bl_demo_simps)
qed

text \<open>
  C12. \<open>BiLock\<close>: at most one half holds the lock at a time; no panic of \<open>poll_lock\<close> or \<open>unlock\<close> is reachable, and the boxed wakers
  are used and freed correctly: no freed box is touched, and each box that is allocated is in a local of a call or in the state.
\<close>

theorem bl_safe:
  assumes "bl_reach t s"
  shows "\<not> (bl_holding (bl_pc s False) \<and> bl_holding (bl_pc s True))
    \<and> bl_pc s i \<noteq> BPanic \<and> bl_pc s i \<noteq> BFault
    \<and> dom (bl_heap s) = bl_owns (bl_pc s False) \<union> bl_owns (bl_pc s True) \<union> bl_boxed (bl_state s)"
  using bl_reach_inv [OF assms] by (cases i) (auto simp: bl_inv_halves [of s False] bl_view_def)

lemma bl_safe_witness:
  "\<not> (bl_holding (bl_pc bl_demo_held False) \<and> bl_holding (bl_pc bl_demo_held True)) \<and> bl_pc bl_demo_held False = BHold"
  using bl_safe [OF bl_demo_held_reach, of False]
  by (simp add: bl_demo_simps)

text \<open>
  C11. A half whose \<open>poll_lock\<close> returned \<open>Pending\<close> is not forgotten: it has been woken since; or the other half holds the lock, with the
  waker of that poll in the state, where \<open>unlock\<close> finds it; or the other half has taken that waker and is about to wake it.
\<close>

theorem bl_no_lost_wake:
  assumes "bl_reach t s" and "bl_pc s i = BParked w"
  shows "bl_woken s i
    \<or> (bl_holding (bl_pc s (\<not> i)) \<and> 2 \<le> bl_state s \<and> bl_heap s (bl_state s) = Some w)
    \<or> (\<exists>n. bl_pc s (\<not> i) = BWake n \<and> bl_heap s n = Some w)"
proof -
  have "bl_view (BParked w) (bl_pc s (\<not> i)) (bl_state s) (bl_heap s) (bl_woken s i)"
    using bl_reach_inv [OF assms(1)] assms(2) unfolding bl_inv_def by metis
  then show ?thesis by (cases "bl_pc s (\<not> i)") (auto simp: bl_view_def)
qed

lemma bl_no_lost_wake_witness:
  "bl_pc bl_demo_parked True = BParked 9 \<and> bl_holding (bl_pc bl_demo_parked False)
    \<and> bl_heap bl_demo_parked (bl_state bl_demo_parked) = Some 9"
proof -
  have p: "bl_pc bl_demo_parked True = BParked 9" "bl_pc bl_demo_parked False = BHold" "\<not> bl_woken bl_demo_parked True"
    by (simp_all add: bl_demo_parked_def bl_demo_simps)
  show ?thesis using bl_no_lost_wake [OF bl_demo_parked_reach p(1)] p by simp
qed

text \<open>
  \<open>unlock\<close> in two steps from there: the waiting half is woken, and the lock is free.
\<close>

lemma bl_unlock_wakes:
  fixes a :: addr
  assumes "bl_reach t s" and "bl_pc s i = BParked w" and "bl_pc s (\<not> i) = BUnlock" and "\<not> bl_woken s i"
  defines "u \<equiv> bl_exec (\<not> i) a (bl_exec (\<not> i) a s)"
  shows "bl_woken u i" and "bl_state u = 0" and "bl_pc u (\<not> i) = BIdle"
  using bl_no_lost_wake [OF assms(1,2)] assms(2-4) by (auto simp: u_def bl_exec_def Let_def)

text \<open>The two halves put together again, when no call is running and no guard is alive: the value, and no box is left.\<close>

lemma bl_reunite_ok:
  assumes "bl_reach t s" and "\<And>i. bl_pc s i = BIdle \<or> (\<exists>w. bl_pc s i = BParked w)"
  shows "bl_reunite s = ret (bl_value s)" and "bl_heap s = (\<lambda>_. None)"
proof -
  have n: "\<not> bl_holding (bl_pc s i)" "bl_owns (bl_pc s i) = {}" for i using assms(2) [of i] by auto
  have v: "bl_view (bl_pc s False) (bl_pc s True) (bl_state s) (bl_heap s) (bl_woken s False)"
    using bl_reach_inv [OF assms(1)] unfolding bl_inv_def by (metis (full_types))
  then have st: "bl_state s = 0" using n by (simp add: bl_view_def)
  then show "bl_reunite s = ret (bl_value s)" by (simp add: bl_reunite_def)
  have "dom (bl_heap s) = {}" using v st n by (simp add: bl_view_def bl_boxed_def)
  then show "bl_heap s = (\<lambda>_. None)" by simp
qed

text \<open>A call of \<open>poll_lock\<close> is done after two more steps of its half, unless the other half moves in between.\<close>

lemma bl_poll_lock_returns:
  assumes "bl_reach t s" and "bl_pc s i = BSwap w b \<or> (\<exists>n. bl_pc s i = BCas w n)" and "2 \<le> a" and "bl_heap s a = None"
  shows "\<exists>u \<in> {bl_exec i a s, bl_exec i a (bl_exec i a s)}. bl_pc u i = BHold \<or> bl_pc u i = BParked w"
proof -
  have inv: "bl_view (bl_pc s i) (bl_pc s (\<not> i)) (bl_state s) (bl_heap s) (bl_woken s i)"
    using bl_reach_inv [OF assms(1)] unfolding bl_inv_def by blast
  have box: "bl_heap s n \<noteq> None" if "n \<in> bl_boxed (bl_state s) \<union> bl_owns (bl_pc s i)" for n
    using inv that by (auto simp: bl_view_def)
  show ?thesis
    using assms(2)
  proof (elim disjE exE)
    assume l: "bl_pc s i = BSwap w b"
    consider "bl_state s = 0" | "bl_state s = 1" | "2 \<le> bl_state s" by linarith
    then show ?thesis
      using l inv box by cases (auto simp: bl_exec_def Let_def bl_drop_box_def bl_view_def bl_boxed_def split: option.splits)
  next
    fix n assume l: "bl_pc s i = BCas w n"
    then show ?thesis using inv box
      by (auto simp: bl_exec_def Let_def bl_drop_box_def bl_view_def bl_boxed_def split: option.splits)
  qed
qed

end
