(* ===== verification/Unpark_Mutex.thy ===== *)
theory Unpark_Mutex
  imports Futures_Prelude
begin

text \<open>
  How the thread pool of \<open>futures-executor\<close> runs a task: \<open>UnparkMutex\<close> (\<open>unpark_mutex.rs\<close>), \<open>Task::run\<close>, the \<open>wake_by_ref\<close> of
  \<open>WakeHandle\<close>, and the queue of messages between them (\<open>thread_pool.rs\<close>). Any number of threads wake the task and any number of
  pool threads take it from the queue; every access to the atomic \<open>status\<close> and to the \<open>UnsafeCell\<close> is one step. The protocol is about
  one task: the queue holds the messages of this task only, and its future is the value \<open>'d\<close>, which a poll replaces by any other.
\<close>

section \<open>State and steps\<close>

definition UM_WAITING :: usize where "UM_WAITING = 0"
definition UM_POLLING :: usize where "UM_POLLING = 1"
definition UM_REPOLL :: usize where "UM_REPOLL = 2"
definition UM_COMPLETE :: usize where "UM_COMPLETE = 3"

text \<open>
  Program counters. \<open>NLoad\<close>, \<open>NTry st\<close>, \<open>NTake\<close>: in \<open>notify\<close>, with the status it saw last. \<open>NSend d\<close>: in \<open>wake_by_ref\<close>, with
  the task that \<open>notify\<close> returned. \<open>RStart\<close> to \<open>RComplete\<close>: in \<open>Task::run\<close> and the \<open>start_poll\<close>, \<open>wait\<close> and \<open>complete\<close> it calls; at
  \<open>RPoll d\<close> it is about to poll, and \<open>RPolling d\<close> is inside of the poll.
\<close>

datatype 'd um_pc =
    UIdle
  | NLoad
  | NTry usize
  | NTake
  | NSend 'd
  | RStart 'd
  | RPoll 'd
  | RPolling 'd
  | RWaitStore 'd
  | RWaitCas
  | RWaitRe
  | RWaitTake
  | RComplete
  | UPanic

text \<open>The ghost \<open>um_event\<close>: the task has been woken since the last poll of it began.\<close>

record 'd um =
  um_status :: usize
  um_inner :: "'d option"
  um_queue :: "'d list"
  um_pc :: "nat \<Rightarrow> 'd um_pc"
  um_event :: bool

definition um_goto :: "nat \<Rightarrow> 'd um_pc \<Rightarrow> 'd um \<Rightarrow> 'd um" where
  "um_goto i l s = s\<lparr>um_pc := (um_pc s)(i := l)\<rparr>"

text \<open>\<open>spawn_obj_ok\<close>: a new mutex, with nothing inside, and the task in the queue.\<close>

definition um_spawn :: "'d \<Rightarrow> 'd um" where
  "um_spawn d = \<lparr>um_status = UM_WAITING, um_inner = None, um_queue = [d], um_pc = (\<lambda>_. UIdle), um_event = False\<rparr>"

text \<open>\<open>UnparkMutex::notify\<close>.\<close>

fun um_notify :: "nat \<Rightarrow> 'd um_pc \<Rightarrow> 'd um \<Rightarrow> 'd um" where
  "um_notify i NLoad s = um_goto i (NTry (um_status s)) s"
| "um_notify i (NTry st) s =
     (if st = UM_WAITING then
        (if um_status s = UM_WAITING then um_goto i NTake (s\<lparr>um_status := UM_POLLING\<rparr>)
         else um_goto i (NTry (um_status s)) s)
      else if st = UM_POLLING then
        (if um_status s = UM_POLLING then um_goto i UIdle (s\<lparr>um_status := UM_REPOLL\<rparr>)
         else um_goto i (NTry (um_status s)) s)
      else um_goto i UIdle s)"
| "um_notify i NTake s =
     (case um_inner s of
        Some d \<Rightarrow> um_goto i (NSend d) (s\<lparr>um_inner := None\<rparr>)
      | None \<Rightarrow> um_goto i UPanic s)"
| "um_notify i l s = s"

text \<open>\<open>start_poll\<close>, \<open>wait\<close> and \<open>complete\<close>.\<close>

fun um_start_poll :: "nat \<Rightarrow> 'd um_pc \<Rightarrow> 'd um \<Rightarrow> 'd um" where
  "um_start_poll i (RStart d) s = um_goto i (RPoll d) (s\<lparr>um_status := UM_POLLING\<rparr>)"
| "um_start_poll i l s = s"

fun um_wait :: "nat \<Rightarrow> 'd um_pc \<Rightarrow> 'd um \<Rightarrow> 'd um" where
  "um_wait i (RWaitStore d) s = um_goto i RWaitCas (s\<lparr>um_inner := Some d\<rparr>)"
| "um_wait i RWaitCas s =
     (if um_status s = UM_POLLING then um_goto i UIdle (s\<lparr>um_status := UM_WAITING\<rparr>)
      else if um_status s = UM_REPOLL then um_goto i RWaitRe s
      else um_goto i UPanic s)"
| "um_wait i RWaitRe s = um_goto i RWaitTake (s\<lparr>um_status := UM_POLLING\<rparr>)"
| "um_wait i RWaitTake s =
     (case um_inner s of
        Some d \<Rightarrow> um_goto i (RPoll d) (s\<lparr>um_inner := None\<rparr>)
      | None \<Rightarrow> um_goto i UPanic s)"
| "um_wait i l s = s"

fun um_complete :: "nat \<Rightarrow> 'd um_pc \<Rightarrow> 'd um \<Rightarrow> 'd um" where
  "um_complete i RComplete s = um_goto i UIdle (s\<lparr>um_status := UM_COMPLETE\<rparr>)"
| "um_complete i l s = s"

text \<open>\<open>WakeHandle::wake_by_ref\<close> after \<open>notify\<close> returned the task.\<close>

fun um_send :: "nat \<Rightarrow> 'd um_pc \<Rightarrow> 'd um \<Rightarrow> 'd um" where
  "um_send i (NSend d) s = um_goto i UIdle (s\<lparr>um_queue := um_queue s @ [d]\<rparr>)"
| "um_send i l s = s"

definition um_exec :: "nat \<Rightarrow> 'd um \<Rightarrow> 'd um" where
  "um_exec i s =
     (case um_pc s i of
        NLoad \<Rightarrow> um_notify i NLoad s
      | NTry st \<Rightarrow> um_notify i (NTry st) s
      | NTake \<Rightarrow> um_notify i NTake s
      | NSend d \<Rightarrow> um_send i (NSend d) s
      | RStart d \<Rightarrow> um_start_poll i (RStart d) s
      | RComplete \<Rightarrow> um_complete i RComplete s
      | l \<Rightarrow> um_wait i l s)"

text \<open>
  \<open>um_wake\<close>: some thread wakes the task, which it can do once there has been a poll (the waker is made by \<open>run\<close>). \<open>um_recv\<close>: a pool
  thread receives the task. The poll itself, from \<open>um_begin\<close> to its outcome.
\<close>

inductive um_step :: "'d um \<Rightarrow> 'd um \<Rightarrow> bool" where
  um_wake: "um_pc s i = UIdle \<Longrightarrow> um_status s \<noteq> UM_WAITING \<or> um_inner s \<noteq> None \<Longrightarrow>
    um_step s (um_goto i NLoad (s\<lparr>um_event := True\<rparr>))"
| um_recv: "um_pc s i = UIdle \<Longrightarrow> um_queue s = d # q \<Longrightarrow> um_step s (um_goto i (RStart d) (s\<lparr>um_queue := q\<rparr>))"
| um_begin: "um_pc s i = RPoll d \<Longrightarrow> um_step s (um_goto i (RPolling d) (s\<lparr>um_event := False\<rparr>))"
| um_pending: "um_pc s i = RPolling d \<Longrightarrow> um_step s (um_goto i (RWaitStore d') s)"
| um_ready: "um_pc s i = RPolling d \<Longrightarrow> um_step s (um_goto i RComplete s)"
| um_run: "um_step s (um_exec i s)"

abbreviation um_reach :: "'d \<Rightarrow> 'd um \<Rightarrow> bool" where
  "um_reach d \<equiv> reach (\<lambda>s. s = um_spawn d) um_step"

section \<open>The invariant\<close>

text \<open>
  The threads that hold the task, the right to touch \<open>inner\<close>. Of all of them and the queue, at most one has it.
\<close>

fun um_owns :: "'d um_pc \<Rightarrow> bool" where
  "um_owns UIdle = False"
| "um_owns NLoad = False"
| "um_owns (NTry st) = False"
| "um_owns UPanic = False"
| "um_owns l = True"

text \<open>What an owner at \<open>l\<close> knows of the status and of the cell.\<close>

fun um_owner_ok :: "'d um_pc \<Rightarrow> usize \<Rightarrow> 'd option \<Rightarrow> bool" where
  "um_owner_ok NTake st c \<longleftrightarrow> (st = 1 \<or> st = 2) \<and> c \<noteq> None"
| "um_owner_ok RWaitCas st c \<longleftrightarrow> (st = 1 \<or> st = 2) \<and> c \<noteq> None"
| "um_owner_ok RWaitRe st c \<longleftrightarrow> st = 2 \<and> c \<noteq> None"
| "um_owner_ok RWaitTake st c \<longleftrightarrow> (st = 1 \<or> st = 2) \<and> c \<noteq> None"
| "um_owner_ok (RStart d) st c \<longleftrightarrow> (st = 0 \<or> st = 1 \<or> st = 2) \<and> c = None"
| "um_owner_ok l st c \<longleftrightarrow> (st = 1 \<or> st = 2) \<and> c = None"

text \<open>The owner will poll before it lets the task go, whatever the status says; or it has just seen the future complete.\<close>

fun um_before_poll :: "'d um_pc \<Rightarrow> bool" where
  "um_before_poll NTake = True"
| "um_before_poll (NSend d) = True"
| "um_before_poll (RStart d) = True"
| "um_before_poll (RPoll d) = True"
| "um_before_poll RWaitRe = True"
| "um_before_poll RWaitTake = True"
| "um_before_poll RComplete = True"
| "um_before_poll l = False"

text \<open>A call of \<open>notify\<close> that has yet to act on what it saw.\<close>

fun um_notifying :: "'d um_pc \<Rightarrow> bool" where
  "um_notifying NLoad = True"
| "um_notifying (NTry st) = (st = 0 \<or> st = 1)"
| "um_notifying l = False"

definition um_held_by :: "nat \<Rightarrow> 'd um \<Rightarrow> bool" where
  "um_held_by k s \<longleftrightarrow> um_queue s = [] \<and> um_owner_ok (um_pc s k) (um_status s) (um_inner s) \<and> um_owns (um_pc s k)
     \<and> (\<forall>j. j \<noteq> k \<longrightarrow> \<not> um_owns (um_pc s j))"

definition um_queued :: "'d um \<Rightarrow> bool" where
  "um_queued s \<longleftrightarrow> length (um_queue s) = 1 \<and> (um_status s = 0 \<or> um_status s = 1 \<or> um_status s = 2) \<and> um_inner s = None \<and> (\<forall>j. \<not> um_owns (um_pc s j))"

definition um_resting :: "'d um \<Rightarrow> bool" where
  "um_resting s \<longleftrightarrow> um_queue s = [] \<and> (\<forall>j. \<not> um_owns (um_pc s j))
     \<and> (um_status s = 0 \<and> um_inner s \<noteq> None \<or> um_status s = 3 \<and> um_inner s = None)"

text \<open>A poll of the task will begin.\<close>

definition um_will_poll :: "'d um \<Rightarrow> bool" where
  "um_will_poll s \<longleftrightarrow> um_queue s \<noteq> [] \<or> (\<exists>k. um_before_poll (um_pc s k)) \<or> um_status s = 2"

definition um_inv :: "'d um \<Rightarrow> bool" where
  "um_inv s \<longleftrightarrow> (um_queued s \<or> um_resting s \<or> (\<exists>k. um_held_by k s))
     \<and> (\<forall>i. um_pc s i \<noteq> UPanic)
     \<and> (um_status s = 0 \<and> um_inner s = None \<longrightarrow> (\<forall>i. um_pc s i = UIdle \<or> (\<exists>d. um_pc s i = RStart d)))
     \<and> (um_event s \<and> um_status s \<noteq> 3 \<longrightarrow> um_will_poll s \<or> (\<exists>j. um_notifying (um_pc s j)))"

lemma um_goto_simps [simp]:
  "um_pc (um_goto i l s) = (um_pc s)(i := l)" "um_status (um_goto i l s) = um_status s" "um_inner (um_goto i l s) = um_inner s"
  "um_queue (um_goto i l s) = um_queue s" "um_event (um_goto i l s) = um_event s"
  by (simp_all add: um_goto_def)

lemmas um_consts = UM_WAITING_def UM_POLLING_def UM_REPOLL_def UM_COMPLETE_def

lemma um_inv_spawn: "um_inv (um_spawn d)"
  by (simp add: um_inv_def um_spawn_def um_queued_def um_consts)

lemma um_before_poll_owns: "um_before_poll l \<Longrightarrow> um_owns l"
  by (cases l) auto

lemma um_notifying_not_owns: "um_notifying l \<Longrightarrow> \<not> um_owns l"
  by (cases l) auto

lemma um_owner_ok_none: "um_owner_ok l 0 c \<Longrightarrow> um_owns l \<Longrightarrow> c = None \<and> (\<exists>d. l = RStart d)"
  by (cases l) auto

lemma um_owner_ok_up: "um_owner_ok l 1 c \<Longrightarrow> um_owner_ok l 2 c"
  by (cases l) auto

lemma um_inv_owner:
  assumes "um_inv s" and "um_owns (um_pc s i)"
  shows "um_held_by i s"
  using assms unfolding um_inv_def um_queued_def um_resting_def um_held_by_def by metis

text \<open>The event survives as long as the thread that moves was no part of the reason, or leaves one behind.\<close>

lemma um_event_keep:
  assumes "um_will_poll s \<or> (\<exists>j. um_notifying (um_pc s j))" and "um_queue s \<noteq> [] \<longrightarrow> um_queue t \<noteq> [] \<or> um_before_poll (um_pc t i)"
    and "um_status s = 2 \<longrightarrow> um_status t = 2 \<or> um_before_poll (um_pc t i)" and "\<And>j. j \<noteq> i \<Longrightarrow> um_pc t j = um_pc s j"
    and "um_before_poll (um_pc s i) \<longrightarrow> um_will_poll t" and "um_notifying (um_pc s i) \<longrightarrow> um_notifying (um_pc t i) \<or> um_will_poll t"
  shows "um_will_poll t \<or> (\<exists>j. um_notifying (um_pc t j))"
  using assms unfolding um_will_poll_def by metis

lemma um_inv_exec_owner:
  assumes "um_inv s" and "um_owns (um_pc s i)"
  shows "um_inv (um_exec i s)"
proof -
  have h: "um_held_by i s" by (rule um_inv_owner [OF assms])
  then have o': "um_owner_ok (um_pc s i) (um_status s) (um_inner s)" "um_queue s = []" and j: "\<And>j. j \<noteq> i \<Longrightarrow> \<not> um_owns (um_pc s j)"
    by (auto simp: um_held_by_def)
  have np: "um_pc s j \<noteq> UPanic" for j using assms(1) by (simp add: um_inv_def)
  have ev: "um_event s \<and> um_status s \<noteq> 3 \<longrightarrow> um_will_poll s \<or> (\<exists>j. um_notifying (um_pc s j))" using assms(1) by (simp add: um_inv_def)
  let ?t = "um_exec i s"
  have own: "um_queued ?t \<or> um_resting ?t \<or> um_held_by i ?t"
    using o' j assms(2)
    by (cases "um_pc s i") (auto simp: um_exec_def um_consts um_queued_def um_resting_def um_held_by_def)
  have pan: "um_pc ?t k \<noteq> UPanic" for k
    using o' np assms(2) by (cases "um_pc s i") (auto simp: um_exec_def um_consts split: if_splits)
  have ini: "um_status ?t = 0 \<and> um_inner ?t = None \<longrightarrow> (\<forall>k. um_pc ?t k = UIdle \<or> (\<exists>d. um_pc ?t k = RStart d))"
    using o' assms(2) by (cases "um_pc s i") (auto simp: um_exec_def um_consts)
  have "um_event ?t \<and> um_status ?t \<noteq> 3 \<longrightarrow> um_will_poll ?t \<or> (\<exists>j. um_notifying (um_pc ?t j))"
  proof
    assume e: "um_event ?t \<and> um_status ?t \<noteq> 3"
    have "um_event ?t = um_event s" using assms(2) o' by (cases "um_pc s i") (auto simp: um_exec_def um_consts)
    moreover have "um_status s \<noteq> 3" using o' assms(2) by (cases "um_pc s i") auto
    ultimately have w: "um_will_poll s \<or> (\<exists>j. um_notifying (um_pc s j))" using e ev by simp
    show "um_will_poll ?t \<or> (\<exists>j. um_notifying (um_pc ?t j))"
    proof (rule um_event_keep [OF w, of _ i])
      show "um_queue s \<noteq> [] \<longrightarrow> um_queue ?t \<noteq> [] \<or> um_before_poll (um_pc ?t i)" using o' by simp
      show "um_status s = 2 \<longrightarrow> um_status ?t = 2 \<or> um_before_poll (um_pc ?t i)"
        using o' assms(2) e by (cases "um_pc s i") (auto simp: um_exec_def um_consts)
      show "um_pc ?t j = um_pc s j" if "j \<noteq> i" for j
        using that o' assms(2) by (cases "um_pc s i") (auto simp: um_exec_def um_consts)
      have "um_before_poll (um_pc s i) \<longrightarrow> um_queue ?t \<noteq> [] \<or> um_before_poll (um_pc ?t i)"
        using o' assms(2) e by (cases "um_pc s i") (auto simp: um_exec_def um_consts)
      then show "um_before_poll (um_pc s i) \<longrightarrow> um_will_poll ?t" unfolding um_will_poll_def by blast
      show "um_notifying (um_pc s i) \<longrightarrow> um_notifying (um_pc ?t i) \<or> um_will_poll ?t"
        using assms(2) um_notifying_not_owns by blast
    qed
  qed
  with own pan ini show ?thesis unfolding um_inv_def by blast
qed

lemma um_held_other:
  assumes "um_held_by k s" and "k \<noteq> i" and "\<not> um_owns (um_pc t i)" and "\<And>j. j \<noteq> i \<Longrightarrow> um_pc t j = um_pc s j"
    and "um_queue t = um_queue s" and "um_inner t = um_inner s" and "um_status t = um_status s \<or> um_status s = 1 \<and> um_status t = 2"
  shows "um_held_by k t"
  using assms um_owner_ok_up unfolding um_held_by_def by metis

lemma um_owner_ok_status: "um_owner_ok l st c \<Longrightarrow> um_owns l \<Longrightarrow> st = 0 \<or> st = 1 \<or> st = 2"
  by (cases l) auto

lemma um_inv_status: "um_inv s \<Longrightarrow> um_status s = 0 \<or> um_status s = 1 \<or> um_status s = 2 \<or> um_status s = 3"
  by (auto simp: um_inv_def um_queued_def um_resting_def um_held_by_def dest: um_owner_ok_status)

lemma um_exec_outside_cases:
  assumes "\<not> um_owns (um_pc s i)"
  shows "(um_status (um_exec i s) = um_status s \<and> \<not> um_owns (um_pc (um_exec i s) i))
    \<or> (um_status s = 1 \<and> um_status (um_exec i s) = 2 \<and> um_pc (um_exec i s) i = UIdle)
    \<or> (um_status s = 0 \<and> um_status (um_exec i s) = 1 \<and> um_pc (um_exec i s) i = NTake \<and> um_pc s i = NTry 0)"
  using assms by (cases "um_pc s i") (auto simp: um_exec_def um_consts)

lemma um_inv_exec_outside:
  assumes inv: "um_inv s" and out: "\<not> um_owns (um_pc s i)"
  shows "um_inv (um_exec i s)"
proof -
  have np: "um_pc s j \<noteq> UPanic" for j using inv by (simp add: um_inv_def)
  have ev: "um_event s \<and> um_status s \<noteq> 3 \<longrightarrow> um_will_poll s \<or> (\<exists>j. um_notifying (um_pc s j))" using inv by (simp add: um_inv_def)
  have ini: "um_status s = 0 \<and> um_inner s = None \<longrightarrow> (\<forall>i. um_pc s i = UIdle \<or> (\<exists>d. um_pc s i = RStart d))" using inv by (simp add: um_inv_def)
  have own: "um_queued s \<or> um_resting s \<or> (\<exists>k. um_held_by k s)" using inv by (simp add: um_inv_def)
  let ?t = "um_exec i s"
  have frame: "um_queue ?t = um_queue s" "um_inner ?t = um_inner s" "um_event ?t = um_event s" "\<And>j. j \<noteq> i \<Longrightarrow> um_pc ?t j = um_pc s j"
    using out by (cases "um_pc s i"; simp add: um_exec_def um_consts)+
  consider (same) "um_status ?t = um_status s" "\<not> um_owns (um_pc ?t i)" | (mark) "um_status s = 1" "um_status ?t = 2" "um_pc ?t i = UIdle"
    | (lock) "um_status s = 0" "um_status ?t = 1" "um_pc ?t i = NTake" "um_pc s i = NTry 0"
    using um_exec_outside_cases [OF out] by blast
  then have own': "um_queued ?t \<or> um_resting ?t \<or> (\<exists>k. um_held_by k ?t)"
  proof cases
    case same
    have no: "\<not> um_owns (um_pc ?t j)" if "\<not> um_owns (um_pc s j)" for j using that same frame(4) by (cases "j = i") auto
    from own show ?thesis
    proof (elim disjE exE)
      fix k assume "um_held_by k s"
      moreover from this out have "k \<noteq> i" by (auto simp: um_held_by_def)
      ultimately have "um_held_by k ?t" by (rule um_held_other) (use same frame in auto)
      then show ?thesis by blast
    qed (use same frame no in \<open>simp_all add: um_queued_def um_resting_def\<close>)
  next
    case mark
    have no: "\<not> um_owns (um_pc ?t j)" if "\<not> um_owns (um_pc s j)" for j using that mark frame(4) by (cases "j = i") auto
    from own show ?thesis
    proof (elim disjE exE)
      fix k assume "um_held_by k s"
      moreover from this out have "k \<noteq> i" by (auto simp: um_held_by_def)
      ultimately have "um_held_by k ?t" by (rule um_held_other) (use mark frame in auto)
      then show ?thesis by blast
    qed (use mark frame no in \<open>simp_all add: um_queued_def um_resting_def\<close>)
  next
    case lock
    have "um_pc s i \<noteq> UIdle \<and> (\<forall>d. um_pc s i \<noteq> RStart d)" using lock by simp
    then have "um_inner s \<noteq> None" using ini lock(1) by metis
    moreover have "\<not> um_queued s" using lock calculation by (simp add: um_queued_def)
    moreover have "\<not> um_held_by k s" for k using lock(1) calculation um_owner_ok_none unfolding um_held_by_def by metis
    ultimately have "um_resting s" using own by blast
    then have "um_held_by i ?t" using lock frame by (auto simp: um_held_by_def um_resting_def)
    then show ?thesis by blast
  qed
  have pan: "um_pc ?t k \<noteq> UPanic" for k
  proof (cases "k = i")
    case True
    then show ?thesis using out np [of i] by (cases "um_pc s i") (auto simp: um_exec_def um_consts)
  qed (use frame np in auto)
  have ini': "um_status ?t = 0 \<and> um_inner ?t = None \<longrightarrow> (\<forall>k. um_pc ?t k = UIdle \<or> (\<exists>d. um_pc ?t k = RStart d))"
  proof
    assume z: "um_status ?t = 0 \<and> um_inner ?t = None"
    have "um_status s = 0" using z out by (cases "um_pc s i") (auto simp: um_exec_def um_consts split: if_splits)
    then have all: "\<forall>k. um_pc s k = UIdle \<or> (\<exists>d. um_pc s k = RStart d)" using ini z frame by simp
    from spec [OF this, of i] have "um_pc s i = UIdle" using out by auto
    then have "?t = s" by (simp add: um_exec_def)
    with all show "\<forall>k. um_pc ?t k = UIdle \<or> (\<exists>d. um_pc ?t k = RStart d)" by simp
  qed
  have "um_event ?t \<and> um_status ?t \<noteq> 3 \<longrightarrow> um_will_poll ?t \<or> (\<exists>j. um_notifying (um_pc ?t j))"
  proof
    assume e: "um_event ?t \<and> um_status ?t \<noteq> 3"
    have "um_status s \<noteq> 3" using e out by (cases "um_pc s i") (auto simp: um_exec_def um_consts split: if_splits)
    then have w: "um_will_poll s \<or> (\<exists>j. um_notifying (um_pc s j))" using e ev frame by simp
    show "um_will_poll ?t \<or> (\<exists>j. um_notifying (um_pc ?t j))"
    proof (rule um_event_keep [OF w, of _ i])
      show "um_queue s \<noteq> [] \<longrightarrow> um_queue ?t \<noteq> [] \<or> um_before_poll (um_pc ?t i)" using frame by simp
      show "um_status s = 2 \<longrightarrow> um_status ?t = 2 \<or> um_before_poll (um_pc ?t i)"
        using out by (cases "um_pc s i") (auto simp: um_exec_def um_consts)
      show "um_pc ?t j = um_pc s j" if "j \<noteq> i" for j using that frame by simp
      show "um_before_poll (um_pc s i) \<longrightarrow> um_will_poll ?t" using out um_before_poll_owns by blast
      show "um_notifying (um_pc s i) \<longrightarrow> um_notifying (um_pc ?t i) \<or> um_will_poll ?t"
        using um_inv_status [OF inv] \<open>um_status s \<noteq> 3\<close> out by (cases "um_pc s i") (auto simp: um_exec_def um_consts um_will_poll_def)
    qed
  qed
  with own' pan ini' show ?thesis unfolding um_inv_def by blast
qed

lemma um_inv_wake:
  assumes inv: "um_inv s" and "um_pc s i = UIdle" and "um_status s \<noteq> 0 \<or> um_inner s \<noteq> None"
  shows "um_inv (um_goto i NLoad (s\<lparr>um_event := True\<rparr>))"
proof -
  let ?t = "um_goto i NLoad (s\<lparr>um_event := True\<rparr>)"
  have own: "um_queued s \<or> um_resting s \<or> (\<exists>k. um_held_by k s)" and np: "\<forall>j. um_pc s j \<noteq> UPanic" using inv by (simp_all add: um_inv_def)
  have "um_queued ?t \<or> um_resting ?t \<or> (\<exists>k. um_held_by k ?t)"
    using own
  proof (elim disjE exE)
    fix k assume h: "um_held_by k s"
    then have "k \<noteq> i" using assms(2) by (auto simp: um_held_by_def)
    then have "um_held_by k ?t" by (rule um_held_other [OF h]) simp_all
    then show ?thesis by blast
  qed (simp_all add: um_queued_def um_resting_def)
  moreover have "um_notifying (um_pc ?t i)" by simp
  ultimately show ?thesis using np assms(3) unfolding um_inv_def by (auto split: if_splits)
qed

lemma um_inv_recv:
  assumes inv: "um_inv s" and "um_pc s i = UIdle" and q: "um_queue s = d # q"
  shows "um_inv (um_goto i (RStart d) (s\<lparr>um_queue := q\<rparr>))"
proof -
  let ?t = "um_goto i (RStart d) (s\<lparr>um_queue := q\<rparr>)"
  have "um_queued s" using inv q by (auto simp: um_inv_def um_resting_def um_held_by_def)
  then have "um_held_by i ?t" using q by (auto simp: um_queued_def um_held_by_def)
  moreover have "um_before_poll (um_pc ?t i)" by simp
  ultimately show ?thesis using inv unfolding um_inv_def um_will_poll_def by auto
qed

text \<open>The poll: it begins, and it ends. The thread that polls is the owner before and after.\<close>

lemma um_inv_poll:
  assumes inv: "um_inv s" and own: "um_owns (um_pc s i)" and ok: "um_owner_ok (um_pc s i) (um_status s) (um_inner s) \<Longrightarrow> um_owner_ok l (um_status s) (um_inner s)"
    and l: "um_owns l" "um_pc s i \<noteq> UPanic" "\<not> um_owner_ok l 0 None"
    and ev: "(t = um_goto i l (s\<lparr>um_event := False\<rparr>)) \<or> (t = um_goto i l s \<and> (um_before_poll (um_pc s i) \<longrightarrow> um_before_poll l))"
  shows "um_inv t"
proof -
  have h: "um_held_by i s" by (rule um_inv_owner [OF inv own])
  have f: "um_status t = um_status s" "um_inner t = um_inner s" "um_queue t = um_queue s" "um_pc t = (um_pc s)(i := l)" using ev by auto
  have "um_held_by i t" using h ok l by (auto simp: um_held_by_def f)
  moreover have "\<not> (um_status t = 0 \<and> um_inner t = None)" using h ok l(3) unfolding f um_held_by_def by auto
  moreover have "\<forall>j. um_pc t j \<noteq> UPanic" using inv l(1) by (auto simp: f um_inv_def)
  moreover have "um_event t \<and> um_status t \<noteq> 3 \<longrightarrow> um_will_poll t \<or> (\<exists>j. um_notifying (um_pc t j))"
  proof
    assume e: "um_event t \<and> um_status t \<noteq> 3"
    then have t: "t = um_goto i l s" "um_before_poll (um_pc s i) \<longrightarrow> um_before_poll l" using ev by auto
    then have w: "um_will_poll s \<or> (\<exists>j. um_notifying (um_pc s j))" using inv e by (simp add: um_inv_def)
    show "um_will_poll t \<or> (\<exists>j. um_notifying (um_pc t j))"
    proof (rule um_event_keep [OF w, of _ i])
      have "um_before_poll (um_pc s i) \<longrightarrow> um_before_poll (um_pc t i)" using t by simp
      then show "um_before_poll (um_pc s i) \<longrightarrow> um_will_poll t" unfolding um_will_poll_def by blast
    qed (use t own um_notifying_not_owns in auto)
  qed
  ultimately show ?thesis unfolding um_inv_def by blast
qed

lemma um_inv_step: "um_inv s \<Longrightarrow> um_step s t \<Longrightarrow> um_inv t"
proof (erule um_step.cases)
  fix s' i assume "um_inv s" "s = s'" "t = um_goto i NLoad (s'\<lparr>um_event := True\<rparr>)" "um_pc s' i = UIdle"
    "um_status s' \<noteq> UM_WAITING \<or> um_inner s' \<noteq> None"
  then show "um_inv t" using um_inv_wake by (auto simp: um_consts)
next
  fix s' i d q assume "um_inv s" "s = s'" "t = um_goto i (RStart d) (s'\<lparr>um_queue := q\<rparr>)" "um_pc s' i = UIdle" "um_queue s' = d # q"
  then show "um_inv t" using um_inv_recv by auto
next
  fix s' i d assume "um_inv s" "s = s'" "t = um_goto i (RPolling d) (s'\<lparr>um_event := False\<rparr>)" "um_pc s' i = RPoll d"
  then show "um_inv t" by (rule_tac um_inv_poll [of s i "RPolling d"]) simp_all
next
  fix s' i d d' assume "um_inv s" "s = s'" "t = um_goto i (RWaitStore d') s'" "um_pc s' i = RPolling d"
  then show "um_inv t" by (rule_tac um_inv_poll [of s i "RWaitStore d'"]) simp_all
next
  fix s' i d assume "um_inv s" "s = s'" "t = um_goto i RComplete s'" "um_pc s' i = RPolling d"
  then show "um_inv t" by (rule_tac um_inv_poll [of s i RComplete]) simp_all
next
  fix s' i assume "um_inv s" "s = s'" "t = um_exec i s'"
  then show "um_inv t" using um_inv_exec_owner um_inv_exec_outside by blast
qed

lemma um_reach_inv:
  assumes "um_reach d s"
  shows "um_inv s"
  using assms
proof (rule reach_invariant)
qed (auto intro: um_inv_spawn um_inv_step)

section \<open>Properties\<close>

text \<open>A run: the task is polled, and woken while it is polled.\<close>

lemma um_reach_run: "um_reach d s \<Longrightarrow> um_reach d (um_exec i s)"
  by (erule reach_step) (rule um_run)

definition um_demo_polling :: "int um" where
  "um_demo_polling = um_goto 0 (RPolling 7) ((um_exec 0 (um_goto 0 (RStart 7) ((um_spawn 7)\<lparr>um_queue := []\<rparr>)))\<lparr>um_event := False\<rparr>)"

definition um_demo_woken :: "int um" where
  "um_demo_woken = um_exec 1 (um_exec 1 (um_goto 1 NLoad (um_demo_polling\<lparr>um_event := True\<rparr>)))"

lemmas um_demo_simps = um_demo_polling_def um_exec_def um_spawn_def um_consts

lemma um_demo_polling_reach: "um_reach 7 um_demo_polling"
proof -
  have "um_reach (7 :: int) (um_spawn 7)" by (rule reach_init) simp
  then have "um_reach (7 :: int) (um_goto 0 (RStart 7) ((um_spawn 7)\<lparr>um_queue := []\<rparr>))"
    by (rule reach_step) (rule um_recv, simp_all add: um_spawn_def)
  then have "um_reach (7 :: int) (um_exec 0 (um_goto 0 (RStart 7) ((um_spawn 7)\<lparr>um_queue := []\<rparr>)))" by (rule um_reach_run)
  then show ?thesis unfolding um_demo_polling_def by (rule reach_step) (rule um_begin, simp add: um_exec_def)
qed

lemma um_demo_woken_reach: "um_reach 7 um_demo_woken"
proof -
  have "um_reach (7 :: int) (um_goto 1 NLoad (um_demo_polling\<lparr>um_event := True\<rparr>))"
    by (rule reach_step [OF um_demo_polling_reach]) (rule um_wake, simp_all add: um_demo_simps)
  then show ?thesis unfolding um_demo_woken_def by (intro um_reach_run)
qed

text \<open>
  C10. The task is in one place at a time: in the queue, with one thread (which alone may be in a poll of it), or at rest in the mutex.
  No \<open>unwrap\<close> of \<open>notify\<close> and \<open>wait\<close> and no assertion fails.
\<close>

theorem um_exclusive:
  assumes "um_reach d s"
  shows "(um_owns (um_pc s i) \<longrightarrow> um_queue s = [] \<and> (um_owns (um_pc s j) \<longrightarrow> i = j)) \<and> length (um_queue s) \<le> 1 \<and> um_pc s i \<noteq> UPanic"
proof -
  note inv = um_reach_inv [OF assms]
  have "um_queue s = [] \<and> (um_owns (um_pc s j) \<longrightarrow> i = j)" if "um_owns (um_pc s i)"
    using um_inv_owner [OF inv that] by (auto simp: um_held_by_def)
  moreover have "length (um_queue s) \<le> 1" "um_pc s i \<noteq> UPanic"
    using inv by (auto simp: um_inv_def um_queued_def um_resting_def um_held_by_def)
  ultimately show ?thesis by blast
qed

lemma um_exclusive_witness: "um_owns (um_pc um_demo_polling 0) \<and> um_queue um_demo_polling = []"
  using um_exclusive [OF um_demo_polling_reach, of 0] by (simp add: um_demo_polling_def)

text \<open>
  C9. No wake-up is lost: if the task has been woken since its last poll began, and it is not complete, then when no call of
  \<open>wake\<close> is on its way a poll is due: the task is in the queue, or the status is \<open>REPOLL\<close> and the thread that has it finds that in \<open>wait\<close>, or that
  thread is before its poll.
\<close>

theorem um_no_lost_wake:
  assumes "um_reach d s" and "um_event s" and "um_status s \<noteq> UM_COMPLETE" and "\<And>j. \<not> um_notifying (um_pc s j)"
  shows "um_queue s \<noteq> [] \<or> (\<exists>k. um_before_poll (um_pc s k)) \<or> (um_status s = UM_REPOLL \<and> (\<exists>k. um_owns (um_pc s k)))"
proof -
  note inv = um_reach_inv [OF assms(1)]
  have "um_will_poll s" using inv assms(2-4) by (auto simp: um_inv_def um_consts)
  moreover have "\<exists>k. um_owns (um_pc s k)" if "um_status s = 2" "um_queue s = []"
    using inv that by (auto simp: um_inv_def um_queued_def um_resting_def um_held_by_def)
  ultimately show ?thesis by (auto simp: um_will_poll_def um_consts)
qed

lemma um_no_lost_wake_witness: "um_event um_demo_woken \<and> um_status um_demo_woken = UM_REPOLL \<and> (\<exists>k. um_owns (um_pc um_demo_woken k))"
proof -
  have p: "um_event um_demo_woken" "um_status um_demo_woken \<noteq> UM_COMPLETE" "\<not> um_notifying (um_pc um_demo_woken j)"
    "um_queue um_demo_woken = []" "\<not> um_before_poll (um_pc um_demo_woken j)" for j
    by (auto simp: um_demo_woken_def um_demo_simps)
  show ?thesis using um_no_lost_wake [OF um_demo_woken_reach p(1,2,3)] p by simp
qed

end
