(* ===== verification/Spec2Isabelle.thy ===== *)
theory Spec2Isabelle
  imports Stream_Laws Mpsc_Channel Oneshot Future_Combinators Futures_Unordered Task_List Async_Mutex Io_Seek Buffered_Streams Sink_Send Bi_Lock Unpark_Mutex
begin

text \<open>
  A model of futures-rs: the zero-cost futures, streams, sinks and asynchronous I/O of Rust, and the synchronisation
  they rest on.

  The program. A future (\<open>futures-core\<close>) is a state machine that is polled: a poll answers \<open>Ready\<close>, or \<open>Pending\<close> after
  arranging for the task's waker to be called. Everything else of the repository is built on that: combinators that
  poll one another (\<open>futures-util\<close>), channels (\<open>futures-channel\<close>), a mutex and a set of futures whose parts are woken
  from other threads, readers and writers. Two kinds of correctness follow from it and are what is proved here: that
  a combinator, polled until it is done, computes what its documentation says, whatever the pattern of
  \<open>Pending\<close>s (a matter of one thread), and that no wake-up and no message is lost when threads interleave.

  Theories, and what of \<open>src/\<close> they model.
    \<^item> Futures_Prelude: results of code (\<open>comp\<close>: a value, a panic, or not returning), polls, the \<open>ready!\<close> macro,
      \<open>usize\<close> arithmetic and size hints, and lemmas on lists, maps, words and locks that the rest shares.
    \<^item> Poll_Core: what a run of a component is, as inductive predicates over its poll function (\<open>ends\<close>, \<open>gives\<close>,
      \<open>resolves\<close>, \<open>completes\<close>, \<open>parked\<close>), and the leaf streams (\<open>futures-util/src/stream/{iter,once,empty,pending,
      repeat,repeat_with,unfold}.rs\<close>, \<open>unfold_state.rs\<close>, \<open>future/ready.rs\<close>).
    \<^item> Stream_Map, Stream_Filter, Stream_Chunks, Stream_Consume: the adapters and consumers of
      \<open>futures-util/src/stream/stream\<close>, one record per struct and one definition per method. Stream_Laws states what
      they compute, as functions on lists.
    \<^item> Future_Combinators: \<open>futures-util/src/future\<close>: map, flatten, fuse, join, select, their \<open>try_\<close> forms and those
      over vectors.
    \<^item> Atomic_Waker: \<open>futures-core/src/task/__internal/atomic_waker.rs\<close>, as interleaved atomic steps.
    \<^item> Mpsc_Queue (\<open>futures-channel/src/mpsc/queue.rs\<close>), Mpsc_State (the word that holds the number of messages and
      whether the channel is open), Mpsc_Bounded and Mpsc_Channel (\<open>mpsc/mod.rs\<close>, the bounded channel); Oneshot
      (\<open>oneshot.rs\<close> and \<open>lock.rs\<close>).
    \<^item> Ready_Queue, Futures_Unordered, Task_List: \<open>futures-util/src/stream/futures_unordered\<close>, its ready-to-run queue,
      the owner and the wakers, and the intrusive list of its tasks.
    \<^item> Async_Mutex: \<open>futures-util/src/lock/mutex.rs\<close>.
    \<^item> Io_Source, Io_Read, Io_Write, Io_Copy, Io_Seek, Io_Laws: \<open>futures-util/src/io\<close>.
    \<^item> Future_Set, Ordered_Futures, Buffered_Streams: \<open>stream/futures_ordered.rs\<close> and \<open>stream/stream/{buffered,
      buffer_unordered}.rs\<close>, over any set of futures that keeps the contract \<open>future_set\<close> (FuturesUnordered, polled by one thread, is one).
    \<^item> Sinks, Sink_With: the adapters of \<open>futures-util/src/sink\<close> (buffer, fanout, map_err, drain; with, with_flat_map,
      unfold), and \<open>Vec\<close> as a sink (\<open>futures-sink/src/lib.rs\<close>). Sink_Send: the futures over a sink (feed, send, send_all, flush, close,
      and \<open>forward\<close> and \<open>try_forward\<close> of a stream). Try_Core: \<open>try_poll_next\<close> and \<open>?\<close>, and the values and the first error of a stream of results.
    \<^item> Bi_Lock: \<open>futures-util/src/lock/bilock.rs\<close>. Unpark_Mutex: \<open>futures-executor/src/unpark_mutex.rs\<close> and the life of a task
      in \<open>thread_pool.rs\<close>.
  How they interact. A channel, the mutex and the set of futures tell a task to go on through a waker; the
  channel and the set of futures hold it in an AtomicWaker. Futures_Unordered uses the ready-to-run queue and the task list through the contracts
  that Ready_Queue and Task_List prove of their code; Mpsc_Bounded uses Mpsc_Queue through the abstract queue that
  Mpsc_Queue shows the code to be. The stream adapters, the future combinators and the I/O futures are
  polled by whoever holds them and reach what they hold through its poll function, an argument of theirs: their
  theorems hold for every inner stream, future, reader, writer and sink that keeps its trait's contract (for I/O
  the locales \<open>byte_reader\<close>, \<open>byte_buf_reader\<close>, \<open>byte_writer\<close> and \<open>byte_seeker\<close>; for sinks \<open>sink\<close> and
  \<open>closable_sink\<close>, which each adapter is shown to keep when the sink inside does; for the source of \<open>send_all\<close> and \<open>forward\<close>
  \<open>item_source\<close>; for sets of futures \<open>future_set\<close> and \<open>ordered_set\<close>).

  How the code is translated. Single-threaded code: a struct is a record, a poll is a function from it to a \<open>comp\<close> of
  the answer and the struct afterwards; a \<open>loop\<close> is a \<open>partial_function\<close>, so that a loop that does not end is the value
  \<open>None\<close> and a theorem that a run ends says so; \<open>unwrap\<close>, \<open>assert!\<close>, \<open>debug_assert!\<close>, a slice out of range and an
  overflow are panics. Concurrent code: one program counter per thread, one step per access to shared memory; between
  them, what a thread does alone is done at once. A step relation (\<open>aw_step\<close>, \<open>bc_step\<close>, \<open>os_step\<close>, \<open>mq_step\<close>, \<open>rq_step\<close>,
  \<open>fu_step\<close>, \<open>mx_step\<close>, \<open>bl_step\<close>, \<open>um_step\<close>) interleaves any number of threads; a \<open>bool\<close> of the state records whether an assertion has failed.
  \<open>X_play\<close> runs a schedule, and the witnesses evaluate it. The invariants are conjunctions, each kept by each step.

  Choices. The interleaving is sequentially consistent: that the weaker orderings of the code suffice is not shown.
  \<open>usize\<close> has 64 bits; debug assertions and overflow checks are on. \<open>Context\<close> is not passed: that a
  \<open>Pending\<close> registered the waker is said by \<open>parked\<close>, or is part of the concurrent models. Wakers are names; waking one
  records it. Where AtomicWaker is used by another component, its \<open>register\<close> and \<open>wake\<close> are single steps, which is what
  Atomic_Waker proves to be safe. Third-party code is a parameter: \<open>memchr\<close> with its documented law, the slots that
  \<open>slab\<close> hands out (any free one), what \<open>Vec::reserve\<close> reserves (at least what is asked for). The
  I/O contracts hold a number \<open>lag\<close>, which bounds the \<open>Pending\<close>s to come: a reader that is never ready again has no
  run to speak of.

  What the lemmas show. Streams: the items as a function of the inner items, size hints that bound what is
  still to come, no poll of a stream after its end, no \<open>Pending\<close> that nobody will wake. Futures: the value
  as a function of those inside, in order. Concurrent parts: mutual exclusion, order and conservation of messages,
  memory safety (no freed node is used), no lost wake-up, the meaning of the end of a stream, bounded work per call.
  Lists and queues: refinement of an abstract one. I/O: what was read, written or copied is the content, in order, for any
  sizes and \<open>Pending\<close>s, a seek moves by what it says, errors lose nothing. Where the code does not do what it says, the lemma that shows it is named in the text before it.

  Bounds and fuel. There is no fuel. Termination of loops is a measure (\<open>lag\<close> and lengths, \<open>aw_rank\<close>,
  \<open>tx_rank\<close>, \<open>rx_rank\<close>, \<open>fu_rank\<close>, \<open>mx_rank\<close>, \<open>eq_rank\<close>, \<open>dq_rank\<close>). Lengths are assumed to be those of
  Rust allocations, below \<open>2 ^ 63\<close>, where a theorem needs it.

  Not modelled. Of the executors of \<open>futures-executor\<close>, the local pool and the threads of the thread pool (they park and start
  operating system threads); the wakers of
  \<open>futures-task\<close> (raw vtables); the unbounded channel's receiver half beyond what it shares with the bounded one;
  \<open>flatten_unordered\<close>, \<open>select_all\<close> and the \<open>split\<close> of a stream; the
  vectored reads and writes, \<open>allow_std\<close>, and \<open>split\<close> of \<open>io\<close>; the extension traits, which
  only construct what is modelled here; macros and test support; \<open>Debug\<close> and accessors that hand out a reference.
\<close>

end
